(* ===== verification/Prelude.thy ===== *)
theory Prelude
  imports Main "HOL-Library.Word" "HOL-Library.List_Lexorder" "HOL-Library.Char_ord"
begin

text \<open>
  The vocabulary the component theories share: Rust's byte and string types, its
  \<open>Result\<close>, decimal and hexadecimal printing and parsing as the standard library does
  them, and generic list lemmas.

  A Rust byte (\<open>u8\<close>) is an \<open>8 word\<close>, a byte slice a \<open>byte list\<close>. A Rust
  \<open>str\<close>/\<open>String\<close> is a \<open>string\<close>, one \<open>char\<close> for each byte of its UTF-8
  encoding, so that lengths and slices count bytes as Rust's do. \<open>as_bytes\<close> and
  \<open>from_utf8\<close> convert between the two. A \<open>Result<T, E>\<close> is a sum, \<open>Inl\<close> the error.
\<close>

named_theorems codec \<open>unfolding rules and round trips of the encoders and decoders\<close>
named_theorems inv_defs \<open>definitions of the components' invariants\<close>

type_synonym byte = "8 word"
type_synonym bytes = "byte list"

section \<open>Bytes and characters\<close>

definition byte_of :: "char \<Rightarrow> byte" where
  "byte_of c = of_char c"

definition char_of_byte :: "byte \<Rightarrow> char" where
  "char_of_byte w = char_of (unat w)"

lemma byte_of_char_of_byte [simp, codec]: "byte_of (char_of_byte w) = w"
proof -
  have "(of_char (char_of (unat w)) :: byte) = of_nat (of_char (char_of (unat w)))"
    by (simp only: of_nat_of_char)
  also have "\<dots> = of_nat (unat w mod 256)"
    by (simp only: of_char_of)
  also have "unat w mod 256 = unat w"
    using unsigned_less [of w, where ?'a = nat] by simp
  finally show ?thesis
    by (simp add: byte_of_def char_of_byte_def)
qed

lemma unat_byte_of: "unat (byte_of c) = of_char c"
proof -
  have "byte_of c = of_nat (of_char c)"
    by (simp only: byte_of_def of_nat_of_char)
  then show ?thesis
    by (simp add: unat_of_nat)
qed

lemma char_of_byte_byte_of [simp, codec]: "char_of_byte (byte_of c) = c"
  by (simp add: char_of_byte_def unat_byte_of)

lemma byte_of_inject [simp]: "byte_of c = byte_of d \<longleftrightarrow> c = d"
  by (metis char_of_byte_byte_of)

lemma byte_of_le_iff [simp]: "byte_of c \<le> byte_of d \<longleftrightarrow> c \<le> d"
  by (simp add: word_le_nat_alt unat_byte_of less_eq_char_def)

lemma byte_of_ascii_iff: "byte_of c < 0x80 \<longleftrightarrow> of_char c < (0x80 :: nat)"
  by (simp add: word_less_nat_alt unat_byte_of)

text \<open>\<open>str::as_bytes\<close>.\<close>

definition as_bytes :: "string \<Rightarrow> bytes" where
  "as_bytes s = map byte_of s"

lemma as_bytes_simps [simp]:
  "as_bytes [] = []"
  "as_bytes (c # s) = byte_of c # as_bytes s"
  "as_bytes (s @ t) = as_bytes s @ as_bytes t"
  by (simp_all add: as_bytes_def)

lemma length_as_bytes [simp]: "length (as_bytes s) = length s"
  by (simp add: as_bytes_def)

lemma set_as_bytes [simp]: "set (as_bytes s) = byte_of ` set s"
  by (simp add: as_bytes_def)

lemma map_char_of_as_bytes [simp]: "map char_of_byte (as_bytes s) = s"
  by (induction s) auto

lemma as_bytes_inject [simp]: "as_bytes s = as_bytes t \<longleftrightarrow> s = t"
  by (metis map_char_of_as_bytes)

text \<open>
  \<open>std::str::from_utf8\<close>: the byte sequences it accepts are the well-formed UTF-8
  sequences (Unicode standard, table 3-7), which exclude overlong forms and surrogates.
\<close>

definition is_cont :: "byte \<Rightarrow> bool" where
  "is_cont b \<longleftrightarrow> 0x80 \<le> b \<and> b \<le> 0xBF"

fun utf8_valid :: "bytes \<Rightarrow> bool" where
  "utf8_valid [] = True"
| "utf8_valid (a # r) =
    (if a < 0x80 then utf8_valid r
     else case r of
       [] \<Rightarrow> False
     | b # r1 \<Rightarrow>
       if 0xC2 \<le> a \<and> a \<le> 0xDF then is_cont b \<and> utf8_valid r1
       else (case r1 of
         [] \<Rightarrow> False
       | c # r2 \<Rightarrow>
         if 0xE0 \<le> a \<and> a \<le> 0xEF then
           is_cont b \<and> is_cont c \<and> (a = 0xE0 \<longrightarrow> 0xA0 \<le> b) \<and> (a = 0xED \<longrightarrow> b \<le> 0x9F)
           \<and> utf8_valid r2
         else (case r2 of
           [] \<Rightarrow> False
         | d # r3 \<Rightarrow>
           0xF0 \<le> a \<and> a \<le> 0xF4 \<and> is_cont b \<and> is_cont c \<and> is_cont d
           \<and> (a = 0xF0 \<longrightarrow> 0x90 \<le> b) \<and> (a = 0xF4 \<longrightarrow> b \<le> 0x8F) \<and> utf8_valid r3)))"

definition from_utf8 :: "bytes \<Rightarrow> string option" where
  "from_utf8 bs = (if utf8_valid bs then Some (map char_of_byte bs) else None)"

definition is_ascii :: "string \<Rightarrow> bool" where
  "is_ascii s \<longleftrightarrow> (\<forall>c \<in> set s. byte_of c < 0x80)"

lemma is_ascii_simps [simp]:
  "is_ascii []"
  "is_ascii (c # s) \<longleftrightarrow> byte_of c < 0x80 \<and> is_ascii s"
  "is_ascii (s @ t) \<longleftrightarrow> is_ascii s \<and> is_ascii t"
  by (auto simp: is_ascii_def)

lemma utf8_valid_ascii: "is_ascii s \<Longrightarrow> utf8_valid (as_bytes s)"
  by (induction s) auto

lemma from_utf8_ascii [simp]: "is_ascii s \<Longrightarrow> from_utf8 (as_bytes s) = Some s"
  by (simp add: from_utf8_def utf8_valid_ascii)

lemma from_utf8_as_bytes: "from_utf8 bs = Some s \<Longrightarrow> as_bytes s = bs"
  by (auto simp: from_utf8_def as_bytes_def comp_def split: if_splits)

text \<open>
  \<open>String::from_utf8_lossy\<close>: each maximal run that cannot be continued to a character is replaced
  by U+FFFD. \<open>starts_ok\<close> says which second bytes a lead byte admits.
\<close>

definition starts_ok :: "byte \<Rightarrow> byte \<Rightarrow> bool" where
  "starts_ok a b \<longleftrightarrow> is_cont b \<and> (a = 0xE0 \<longrightarrow> 0xA0 \<le> b) \<and> (a = 0xED \<longrightarrow> b \<le> 0x9F) \<and>
    (a = 0xF0 \<longrightarrow> 0x90 \<le> b) \<and> (a = 0xF4 \<longrightarrow> b \<le> 0x8F)"

definition replacement :: bytes where
  "replacement = [0xEF, 0xBF, 0xBD]"

function utf8_lossy :: "bytes \<Rightarrow> bytes" where
  "utf8_lossy [] = []"
| "utf8_lossy (a # r) =
    (if a < 0x80 then a # utf8_lossy r
     else if a < 0xC2 \<or> 0xF4 < a \<or> r = [] \<or> \<not> starts_ok a (r ! 0) then replacement @ utf8_lossy r
     else if a \<le> 0xDF then a # take 1 r @ utf8_lossy (drop 1 r)
     else if length r < 2 \<or> \<not> is_cont (r ! 1) then replacement @ utf8_lossy (drop 1 r)
     else if a \<le> 0xEF then a # take 2 r @ utf8_lossy (drop 2 r)
     else if length r < 3 \<or> \<not> is_cont (r ! 2) then replacement @ utf8_lossy (drop 2 r)
     else a # take 3 r @ utf8_lossy (drop 3 r))"
  by pat_completeness auto
termination by (relation "measure length") auto

definition from_utf8_lossy :: "bytes \<Rightarrow> string" where
  "from_utf8_lossy bs = map char_of_byte (utf8_lossy bs)"

lemma utf8_lossy_ascii: "is_ascii s \<Longrightarrow> utf8_lossy (as_bytes s) = as_bytes s"
  by (induction s) simp_all

lemma from_utf8_lossy_ascii [simp]: "is_ascii s \<Longrightarrow> from_utf8_lossy (as_bytes s) = s"
  by (simp add: from_utf8_lossy_def utf8_lossy_ascii)

section \<open>Results\<close>

text \<open>\<open>Result::and_then\<close>, which is what the \<open>?\<close> operator does.\<close>

fun rbind :: "'e + 'a \<Rightarrow> ('a \<Rightarrow> 'e + 'b) \<Rightarrow> 'e + 'b" where
  "rbind (Inl e) f = Inl e"
| "rbind (Inr x) f = f x"

lemma rbind_Inr_iff: "rbind r f = Inr y \<longleftrightarrow> (\<exists>x. r = Inr x \<and> f x = Inr y)"
  by (cases r) auto

lemma rbind_Inl_iff: "rbind r f = Inl e \<longleftrightarrow> r = Inl e \<or> (\<exists>x. r = Inr x \<and> f x = Inl e)"
  by (cases r) auto

fun ok_or :: "'e \<Rightarrow> 'a option \<Rightarrow> 'e + 'a" where
  "ok_or e None = Inl e"
| "ok_or e (Some x) = Inr x"

lemma ok_or_iff [simp]:
  "ok_or e r = Inr x \<longleftrightarrow> r = Some x"
  "ok_or e r = Inl e' \<longleftrightarrow> r = None \<and> e' = e"
  by (cases r; auto)+

section \<open>Lists\<close>

text \<open>\<open>Iterator::position\<close>.\<close>

fun position_of :: "('a \<Rightarrow> bool) \<Rightarrow> 'a list \<Rightarrow> nat option" where
  "position_of P [] = None"
| "position_of P (x # xs) = (if P x then Some 0 else map_option Suc (position_of P xs))"

lemma position_of_nth: "position_of P xs = Some k \<Longrightarrow> k < length xs \<and> P (xs ! k)"
  by (induction xs arbitrary: k) (auto split: if_splits)

lemma position_of_None: "position_of P xs = None \<longleftrightarrow> (\<forall>x \<in> set xs. \<not> P x)"
  by (induction xs) auto

lemma position_of_append:
  "\<forall>x \<in> set xs. \<not> P x \<Longrightarrow> P y \<Longrightarrow> position_of P (xs @ y # ys) = Some (length xs)"
  by (induction xs) auto

lemma position_of_split:
  "position_of P xs = Some k \<Longrightarrow>
    \<exists>y ys. xs = take k xs @ y # ys \<and> P y \<and> (\<forall>x \<in> set (take k xs). \<not> P x) \<and> k < length xs"
  by (induction xs arbitrary: k) (auto split: if_splits)

text \<open>The byte range \<open>xs[a..b]\<close> of Rust, for \<open>a \<le> b \<le> length xs\<close>.\<close>

definition slice :: "nat \<Rightarrow> nat \<Rightarrow> 'a list \<Rightarrow> 'a list" where
  "slice a b xs = take (b - a) (drop a xs)"

lemma slice_append:
  "slice a b (xs @ ys) = slice a b xs @ slice (a - length xs) (b - length xs) ys"
  by (cases "a \<le> length xs") (auto simp: slice_def)

lemma length_slice [simp]: "length (slice a b xs) = min (b - a) (length xs - a)"
  by (simp add: slice_def)

lemma slice_all [simp]: "length xs \<le> b \<Longrightarrow> slice 0 b xs = xs"
  by (simp add: slice_def)

lemma slice_empty [simp]: "b \<le> a \<Longrightarrow> slice a b xs = []"
  by (simp add: slice_def)

lemma slice_beyond [simp]: "length xs \<le> a \<Longrightarrow> slice a b xs = []"
  by (simp add: slice_def)

lemma slice_nil [simp]: "slice a b [] = []"
  by (simp add: slice_def)

lemma slice_join: "a \<le> b \<Longrightarrow> b \<le> c \<Longrightarrow> slice a b xs @ slice b c xs = slice a c xs"
proof -
  assume "a \<le> b" "b \<le> c"
  then have "take (c - a) (drop a xs) = take (b - a) (drop a xs) @ take (c - a - (b - a)) (drop (b - a) (drop a xs))"
    by (metis diff_le_mono le_add_diff_inverse take_add)
  then show ?thesis using \<open>a \<le> b\<close> \<open>b \<le> c\<close> by (simp add: slice_def)
qed

lemma slice_slice: "a + d \<le> b \<Longrightarrow> slice c d (slice a b xs) = slice (a + c) (a + d) xs"
  by (simp add: slice_def drop_take add.commute min_def)

lemma slice_cong_min: "length xs = n \<Longrightarrow> slice a (min b n) xs = slice a b xs"
  by (simp add: slice_def min_def)

text \<open>
  Seek and \<open>write_all\<close>: a gap before the offset reads as zeros; writing nothing changes nothing.
\<close>

definition write_at :: "nat \<Rightarrow> 'a::zero list \<Rightarrow> 'a list \<Rightarrow> 'a list" where
  "write_at off bs old =
    (if bs = [] then old
     else take off (old @ replicate (off - length old) 0) @ bs @ drop (off + length bs) old)"

lemma length_write_at_within [simp]:
  "off + length bs \<le> length old \<Longrightarrow> length (write_at off bs old) = length old"
  by (auto simp: write_at_def)

lemma nth_write_at:
  assumes "off + length bs \<le> length old" and "k < length old"
  shows "write_at off bs old ! k = (if off \<le> k \<and> k < off + length bs then bs ! (k - off) else old ! k)"
  using assms by (auto simp: write_at_def nth_append)

section \<open>Machine integers as naturals\<close>

text \<open>
  Where sizes and offsets are naturals, \<open>u64\<close> and \<open>u32\<close> are the wrap-around of a release
  build; \<open>u64_sub\<close> is subtraction with it. \<open>saturating_add32\<close> clips at \<open>u32::MAX\<close>;
  \<open>saturating_sub\<close> is subtraction on \<open>nat\<close>.
\<close>

definition u64 :: "nat \<Rightarrow> nat" where
  "u64 n = n mod 2 ^ 64"

definition u32 :: "nat \<Rightarrow> nat" where
  "u32 n = n mod 2 ^ 32"

definition u64_sub :: "nat \<Rightarrow> nat \<Rightarrow> nat" where
  "u64_sub a b = u64 (a + (2 ^ 64 - u64 b))"

definition saturating_add32 :: "nat \<Rightarrow> nat \<Rightarrow> nat" where
  "saturating_add32 a b = min (a + b) (2 ^ 32 - 1)"

lemma u64_id [simp]: "n < 2 ^ 64 \<Longrightarrow> u64 n = n"
  by (simp add: u64_def)

lemma u32_id [simp]: "n < 2 ^ 32 \<Longrightarrow> u32 n = n"
  by (simp add: u32_def)

lemma u64_lt [simp]: "u64 n < 2 ^ 64"
  by (simp add: u64_def)

lemma u32_lt [simp]: "u32 n < 2 ^ 32"
  by (simp add: u32_def)

lemma u64_sub_le [simp]: "b \<le> a \<Longrightarrow> a < 2 ^ 64 \<Longrightarrow> u64_sub a b = a - b"
proof -
  assume "b \<le> a" "a < 2 ^ 64"
  then have "a + (2 ^ 64 - u64 b) = (a - b) + 2 ^ 64" by simp
  then show ?thesis
    using \<open>a < 2 ^ 64\<close> by (simp only: u64_sub_def) (simp add: u64_def)
qed

text \<open>\<open>u64::div_ceil\<close>.\<close>

definition div_ceil :: "nat \<Rightarrow> nat \<Rightarrow> nat" where
  "div_ceil a b = a div b + (if a mod b = 0 then 0 else 1)"

lemma div_ceil_le: "0 < b \<Longrightarrow> a \<le> div_ceil a b * b"
proof (cases "a mod b = 0")
  case True
  then show ?thesis by (auto simp: div_ceil_def)
next
  case False
  assume "0 < b"
  then have "a mod b \<le> b" by simp
  then have "a div b * b + a mod b \<le> a div b * b + b" by (rule add_left_mono)
  then show ?thesis using False by (simp add: div_ceil_def add.commute)
qed

lemma div_ceil_gt: "i < div_ceil a b \<Longrightarrow> i * b < a"
proof -
  assume i: "i < div_ceil a b"
  show ?thesis
  proof (cases "a mod b = 0")
    case True
    with i have "i < a div b" by (simp add: div_ceil_def)
    then have "(i + 1) * b \<le> a"
      by (metis Suc_eq_plus1 Suc_leI div_times_less_eq_dividend mult_le_mono1 order_trans)
    moreover have "0 < b" using \<open>i < a div b\<close> by (cases b) auto
    ultimately show ?thesis by simp
  next
    case False
    with i have "i \<le> a div b" by (simp add: div_ceil_def)
    then have "i * b \<le> a div b * b" by (rule mult_le_mono1)
    also have "\<dots> < a" using False by (metis div_mult_mod_eq less_add_same_cancel1 neq0_conv)
    finally show ?thesis .
  qed
qed

text \<open>\<open>slice::chunks_exact\<close>.\<close>

definition chunks_exact :: "nat \<Rightarrow> 'a list \<Rightarrow> 'a list list" where
  "chunks_exact n xs = map (\<lambda>i. take n (drop (i * n) xs)) [0..<length xs div n]"

lemma length_chunks_exact [simp]: "length (chunks_exact n xs) = length xs div n"
  by (simp add: chunks_exact_def)

lemma chunks_exact_length: "c \<in> set (chunks_exact n xs) \<Longrightarrow> length c = n"
proof -
  assume "c \<in> set (chunks_exact n xs)"
  then obtain i where i: "i < length xs div n" and c: "c = take n (drop (i * n) xs)"
    by (auto simp: chunks_exact_def)
  have "(i + 1) * n \<le> length xs"
    using i by (metis Suc_eq_plus1 Suc_leI div_times_less_eq_dividend mult_le_mono1 order_trans)
  then show ?thesis by (simp add: c)
qed

section \<open>Splitting strings\<close>

text \<open>\<open>str::split\<close> on a character: one piece more than there are separators.\<close>

fun split_char :: "char \<Rightarrow> string \<Rightarrow> string list" where
  "split_char x [] = [[]]"
| "split_char x (c # s) =
    (if c = x then [] # split_char x s
     else (case split_char x s of [] \<Rightarrow> [[c]] | p # ps \<Rightarrow> (c # p) # ps))"

lemma split_char_nonempty [simp]: "split_char x s \<noteq> []"
  by (induction s) (auto split: list.splits)

lemma split_char_append:
  "split_char x (a @ x # b) = split_char x a @ split_char x b"
proof (induction a)
  case (Cons c a)
  then show ?case
    by (cases "split_char x a") auto
qed simp

lemma split_char_absent: "x \<notin> set s \<Longrightarrow> split_char x s = [s]"
  by (induction s) auto

lemma split_char_pieces: "p \<in> set (split_char x s) \<Longrightarrow> x \<notin> set p"
proof (induction s arbitrary: p)
  case (Cons c s)
  then show ?case
    by (cases "split_char x s") (auto split: if_splits)
qed simp

lemma hd_split_char_append: "hd (split_char x (a @ x # b)) = hd (split_char x a)"
  by (simp add: split_char_append)

text \<open>\<open>str::strip_prefix\<close> and \<open>str::starts_with\<close>.\<close>

fun strip_prefix :: "string \<Rightarrow> string \<Rightarrow> string option" where
  "strip_prefix [] s = Some s"
| "strip_prefix (x # p) [] = None"
| "strip_prefix (x # p) (c # s) = (if x = c then strip_prefix p s else None)"

lemma strip_prefix_Some: "strip_prefix p s = Some r \<longleftrightarrow> s = p @ r"
  by (induction p s rule: strip_prefix.induct) auto

definition starts_with :: "string \<Rightarrow> string \<Rightarrow> bool" where
  "starts_with p s \<longleftrightarrow> strip_prefix p s \<noteq> None"

lemma starts_with_iff: "starts_with p s \<longleftrightarrow> (\<exists>r. s = p @ r)"
  by (auto simp: starts_with_def strip_prefix_Some)

text \<open>
  \<open>Path::file_stem\<close> and \<open>Path::extension\<close> of a file name: the parts before and after the last
  dot, unless the name has no dot or only a leading one.
\<close>

definition split_extension :: "string \<Rightarrow> string \<times> string option" where
  "split_extension name =
    (case position_of (\<lambda>x. x = CHR ''.'') (rev name) of
       None \<Rightarrow> (name, None)
     | Some k \<Rightarrow>
         if Suc k = length name then (name, None)
         else (take (length name - Suc k) name, Some (drop (length name - k) name)))"

section \<open>Decimal numerals\<close>

text \<open>
  \<open>to_string\<close> on an integer and \<open>str::parse\<close>. As in the standard library, an unsigned
  parse accepts one leading \<open>+\<close> when something follows it, a signed parse one leading
  \<open>+\<close> or \<open>-\<close>; an empty string, any other character and an overflow are errors.
\<close>

definition digit_char :: "nat \<Rightarrow> char" where
  "digit_char d = ''0123456789'' ! d"

definition digit_val :: "char \<Rightarrow> nat option" where
  "digit_val c =
    (if CHR ''0'' \<le> c \<and> c \<le> CHR ''9'' then Some (of_char c - 48) else None)"

definition is_digit :: "char \<Rightarrow> bool" where
  "is_digit c \<longleftrightarrow> CHR ''0'' \<le> c \<and> c \<le> CHR ''9''"

lemma lt10_cases:
  fixes n :: nat
  assumes "n < 10"
  obtains "n = 0" | "n = 1" | "n = 2" | "n = 3" | "n = 4"
    | "n = 5" | "n = 6" | "n = 7" | "n = 8" | "n = 9"
proof -
  from assms have "n \<in> set [0..<10]" by simp
  then show thesis using that by (auto simp: upt_rec)
qed

lemma digit_val_digit_char [simp]: "d < 10 \<Longrightarrow> digit_val (digit_char d) = Some d"
  by (erule lt10_cases) (simp_all add: digit_val_def digit_char_def)

lemma is_digit_digit_char [simp]: "d < 10 \<Longrightarrow> is_digit (digit_char d)"
  by (erule lt10_cases) (simp_all add: is_digit_def digit_char_def)

lemma digit_val_None_iff: "digit_val c = None \<longleftrightarrow> \<not> is_digit c"
  by (simp add: digit_val_def is_digit_def)

lemma digit_char_ascii [simp]: "d < 10 \<Longrightarrow> byte_of (digit_char d) < 0x80"
  by (erule lt10_cases) (simp_all add: digit_char_def byte_of_def)

lemma digit_char_0_iff: "d < 10 \<Longrightarrow> digit_char d = CHR ''0'' \<longleftrightarrow> d = 0"
  by (erule lt10_cases) (simp_all add: digit_char_def)

fun show_nat :: "nat \<Rightarrow> string" where
  "show_nat n = (if n < 10 then [digit_char n] else show_nat (n div 10) @ [digit_char (n mod 10)])"

declare show_nat.simps [simp del]

definition show_int :: "int \<Rightarrow> string" where
  "show_int i = (if i < 0 then CHR ''-'' # show_nat (nat (- i)) else show_nat (nat i))"

fun dec_digits :: "nat \<Rightarrow> string \<Rightarrow> nat option" where
  "dec_digits acc [] = Some acc"
| "dec_digits acc (c # s) =
    (case digit_val c of None \<Rightarrow> None | Some d \<Rightarrow> dec_digits (10 * acc + d) s)"

definition parse_dec :: "string \<Rightarrow> nat option" where
  "parse_dec s = (if s = [] then None else dec_digits 0 s)"

definition strip_plus :: "string \<Rightarrow> string" where
  "strip_plus s = (case s of c # d # r \<Rightarrow> if c = CHR ''+'' then d # r else s | _ \<Rightarrow> s)"

definition parse_unsigned :: "nat \<Rightarrow> string \<Rightarrow> nat option" where
  "parse_unsigned bound s =
    (case parse_dec (strip_plus s) of
      None \<Rightarrow> None | Some n \<Rightarrow> if n < bound then Some n else None)"

definition parse_signed :: "nat \<Rightarrow> string \<Rightarrow> int option" where
  "parse_signed bound s =
    (case s of
       c # d # r \<Rightarrow>
         if c = CHR ''-'' then
           (case parse_dec (d # r) of
              None \<Rightarrow> None | Some n \<Rightarrow> if n \<le> bound then Some (- int n) else None)
         else (case parse_dec (strip_plus s) of
              None \<Rightarrow> None | Some n \<Rightarrow> if n < bound then Some (int n) else None)
     | _ \<Rightarrow> (case parse_dec s of
              None \<Rightarrow> None | Some n \<Rightarrow> if n < bound then Some (int n) else None))"

lemma dec_digits_append:
  "dec_digits a (s @ t) = (case dec_digits a s of None \<Rightarrow> None | Some b \<Rightarrow> dec_digits b t)"
  by (induction s arbitrary: a) (auto split: option.splits)

lemma show_nat_nonempty [simp]: "show_nat n \<noteq> []"
  by (subst show_nat.simps) simp

lemma dec_digits_show_nat: "dec_digits 0 (show_nat n) = Some n"
proof (induction n rule: show_nat.induct)
  case (1 n)
  show ?case
  proof (cases "n < 10")
    case True
    then show ?thesis by (subst show_nat.simps) simp
  next
    case False
    with 1 show ?thesis by (subst show_nat.simps) (simp add: dec_digits_append)
  qed
qed

lemma parse_dec_show_nat [simp, codec]: "parse_dec (show_nat n) = Some n"
  by (simp add: parse_dec_def dec_digits_show_nat)

lemma show_nat_digits: "\<forall>c \<in> set (show_nat n). is_digit c \<and> byte_of c < 0x80"
proof (induction n rule: show_nat.induct)
  case (1 n)
  show ?case
  proof (cases "n < 10")
    case True
    then show ?thesis by (subst show_nat.simps) simp
  next
    case False
    with 1 show ?thesis by (subst show_nat.simps) auto
  qed
qed

lemma show_nat_ascii [simp]: "is_ascii (show_nat n)"
  using show_nat_digits by (auto simp: is_ascii_def)

lemma show_nat_non_digit: "\<not> is_digit c \<Longrightarrow> c \<notin> set (show_nat n)"
  using show_nat_digits by blast

lemma hd_show_nat_digit: "is_digit (hd (show_nat n))"
  using show_nat_digits [of n] by simp

lemma show_nat_long: "1 < length (show_nat n) \<Longrightarrow> n \<noteq> 0"
  by (cases "n = 0") (simp_all add: show_nat.simps [of 0])

lemma hd_show_nat_0: "hd (show_nat n) = CHR ''0'' \<longleftrightarrow> n = 0"
proof (induction n rule: show_nat.induct)
  case (1 n)
  show ?case
  proof (cases "n < 10")
    case True
    then show ?thesis by (subst show_nat.simps) (simp add: digit_char_0_iff)
  next
    case False
    with 1 show ?thesis by (subst show_nat.simps) (simp add: hd_append)
  qed
qed

lemma strip_plus_show_nat [simp]: "strip_plus (show_nat n) = show_nat n"
  using show_nat_digits [of n]
  by (auto simp: strip_plus_def is_digit_def split: list.splits)

lemma parse_unsigned_show_nat [simp, codec]:
  "parse_unsigned b (show_nat n) = (if n < b then Some n else None)"
  by (simp add: parse_unsigned_def)

lemma parse_unsigned_bound: "parse_unsigned b s = Some n \<Longrightarrow> n < b"
  by (auto simp: parse_unsigned_def split: option.splits if_splits)

lemma parse_signed_range:
  "parse_signed b s = Some i \<Longrightarrow> - int b \<le> i \<and> i < int b \<or> b = 0 \<and> i = 0"
  by (auto simp: parse_signed_def split: list.splits option.splits if_splits)

end
