(* ===== verification/Errors.thy ===== *)
theory Errors
  imports Prelude
begin

text \<open>
  The error types of \<open>src/error.rs\<close> and \<open>src/protocol/error.rs\<close>: the engine's error
  with its kinds, its constructors and predicates, the conversions from the errors of the
  standard library and of \<open>reqwest\<close>, and the projection to the serialisable
  \<open>ProtocolError\<close> of the public API.

  Messages are strings. Where the code formats a value into a message, the component
  theories keep the literal text before the first placeholder. A \<open>reqwest::Error\<close> is the
  record of what its observers answer.
\<close>

section \<open>Error kinds\<close>

datatype network_error_kind =
    DnsResolution | ConnectionRefused | ConnectionReset | Timeout | Tls
  | HttpStatus "16 word" | Unreachable | TooManyRedirects | NetOther

datatype storage_error_kind =
    SkNotFound | PermissionDenied | DiskFull | PathTraversal | SkAlreadyExists
  | InvalidPath | SkIo

datatype protocol_error_kind =
    InvalidUrl | RangeNotSupported | InvalidResponse | InvalidTorrent | InvalidMagnet
  | HashMismatch | TrackerError | PeerProtocol | BencodeParse | PexError | DhtError
  | LpdError | MetadataError

datatype engine_error =
    ENetwork network_error_kind string bool
  | EStorage storage_error_kind string string
  | EProtocol protocol_error_kind string
  | EInvalidInput string string
  | EResourceLimit string nat
  | ENotFound string
  | EAlreadyExists string
  | EInvalidState string string
  | EShutdown
  | EDatabase string
  | EInternal string

type_synonym 'a result = "engine_error + 'a"

section \<open>Predicates and constructors\<close>

fun is_retryable :: "engine_error \<Rightarrow> bool" where
  "is_retryable (ENetwork kind message retryable) = retryable"
| "is_retryable (EStorage kind path message) = (kind = SkIo)"
| "is_retryable (EProtocol kind message) = (kind = TrackerError \<or> kind = PeerProtocol)"
| "is_retryable _ = False"

fun retryable_kind :: "network_error_kind \<Rightarrow> bool" where
  "retryable_kind Timeout = True"
| "retryable_kind ConnectionReset = True"
| "retryable_kind Unreachable = True"
| "retryable_kind (HttpStatus s) = (s = 408 \<or> s = 429 \<or> 500 \<le> s \<and> s \<le> 599)"
| "retryable_kind _ = False"

definition err_network :: "network_error_kind \<Rightarrow> string \<Rightarrow> engine_error" where
  "err_network kind message = ENetwork kind message (retryable_kind kind)"

definition err_storage :: "storage_error_kind \<Rightarrow> string \<Rightarrow> string \<Rightarrow> engine_error" where
  "err_storage kind path message = EStorage kind path message"

definition err_protocol :: "protocol_error_kind \<Rightarrow> string \<Rightarrow> engine_error" where
  "err_protocol kind message = EProtocol kind message"

definition err_invalid_input :: "string \<Rightarrow> string \<Rightarrow> engine_error" where
  "err_invalid_input field message = EInvalidInput field message"

fun is_not_found :: "engine_error \<Rightarrow> bool" where
  "is_not_found (ENotFound _) = True"
| "is_not_found _ = False"

fun is_network :: "engine_error \<Rightarrow> bool" where
  "is_network (ENetwork _ _ _) = True"
| "is_network _ = False"

fun is_shutdown :: "engine_error \<Rightarrow> bool" where
  "is_shutdown EShutdown = True"
| "is_shutdown _ = False"

section \<open>Conversions\<close>

text \<open>\<open>std::io::ErrorKind\<close>: the three kinds the code tells apart, and the rest.\<close>

datatype io_error_kind = IoNotFound | IoPermissionDenied | IoAlreadyExists | IoOther

definition from_io_error :: "io_error_kind \<Rightarrow> string \<Rightarrow> engine_error" where
  "from_io_error k message =
    EStorage
      (case k of
         IoNotFound \<Rightarrow> SkNotFound
       | IoPermissionDenied \<Rightarrow> PermissionDenied
       | IoAlreadyExists \<Rightarrow> SkAlreadyExists
       | _ \<Rightarrow> SkIo) [] message"

record reqwest_error =
  rq_is_timeout :: bool
  rq_is_connect :: bool
  rq_is_redirect :: bool
  rq_is_body :: bool
  rq_is_decode :: bool
  rq_status :: "16 word option"
  rq_text :: string

definition from_reqwest_error :: "reqwest_error \<Rightarrow> engine_error" where
  "from_reqwest_error err = err_network
    (if rq_is_timeout err then Timeout
     else if rq_is_connect err then ConnectionRefused
     else if rq_is_redirect err then TooManyRedirects
     else if rq_is_body err \<or> rq_is_decode err then ConnectionReset
     else (case rq_status err of Some s \<Rightarrow> HttpStatus s | None \<Rightarrow> NetOther))
    (rq_text err)"

datatype protocol_error =
    PNotFound string
  | PInvalidState string string
  | PInvalidInput string string
  | PNetwork string bool
  | PStorage string
  | PShutdown
  | PInternal string

fun to_protocol_error :: "engine_error \<Rightarrow> protocol_error" where
  "to_protocol_error (ENotFound i) = PNotFound i"
| "to_protocol_error (EInvalidState action current_state) = PInvalidState action current_state"
| "to_protocol_error (EInvalidInput field message) = PInvalidInput field message"
| "to_protocol_error (ENetwork kind message retryable) = PNetwork message retryable"
| "to_protocol_error (EStorage kind path message) = PStorage message"
| "to_protocol_error (EProtocol kind message) = PNetwork message False"
| "to_protocol_error EShutdown = PShutdown"
| "to_protocol_error (EAlreadyExists i) =
     PInvalidInput ''id'' (''Download already exists: '' @ i)"
| "to_protocol_error (EResourceLimit resource limit) =
     PInvalidInput resource (''Resource limit exceeded (limit: '' @ show_nat limit @ '')'')"
| "to_protocol_error (EDatabase msg) = PStorage msg"
| "to_protocol_error (EInternal msg) = PInternal msg"

fun p_is_retryable :: "protocol_error \<Rightarrow> bool" where
  "p_is_retryable (PNetwork message retryable) = retryable"
| "p_is_retryable _ = False"

lemma is_retryable_err_network [simp]:
  "is_retryable (err_network k m) \<longleftrightarrow> retryable_kind k"
  by (simp add: err_network_def)

lemma retryable_http_status:
  "retryable_kind (HttpStatus s) \<longleftrightarrow> s \<in> {408, 429} \<union> {500..599}"
  by auto

text \<open>
  The projection never invents retryability, and keeps it for network errors; it forgets
  it for the retryable storage and protocol errors.
\<close>

lemma p_is_retryable_sound: "p_is_retryable (to_protocol_error e) \<Longrightarrow> is_retryable e"
  by (cases e) auto

lemma p_is_retryable_network:
  "is_network e \<Longrightarrow> p_is_retryable (to_protocol_error e) = is_retryable e"
  by (cases e) auto

lemma p_is_retryable_lost:
  "\<not> is_network e \<Longrightarrow> \<not> p_is_retryable (to_protocol_error e)"
  by (cases e) auto

end
