(* ===== verification/Codec.thy ===== *)
theory Codec
  imports Prelude
begin

text \<open>
  Two interfaces the components share. \<open>prefix_codec\<close> is the contract of an encoder and a
  decoder that consumes a prefix of its input and returns the rest; from the round trip
  alone it follows that encodings are unambiguous and that a concatenation of encodings
  decodes to the list that was encoded. \<open>guarded_system\<close> is the contract of a stateful
  component: its operations keep an invariant, each under its own precondition, so every
  run of permitted operations does.
\<close>

section \<open>Self-delimiting codecs\<close>

fun decode_n :: "('b list \<Rightarrow> ('a \<times> 'b list) option) \<Rightarrow> nat \<Rightarrow> 'b list \<Rightarrow> ('a list \<times> 'b list) option"
where
  "decode_n dec 0 bs = Some ([], bs)"
| "decode_n dec (Suc n) bs =
    (case dec bs of
       None \<Rightarrow> None
     | Some (x, r) \<Rightarrow>
         (case decode_n dec n r of None \<Rightarrow> None | Some (xs, r') \<Rightarrow> Some (x # xs, r')))"

locale prefix_codec =
  fixes enc :: "'a \<Rightarrow> 'b list"
    and dec :: "'b list \<Rightarrow> ('a \<times> 'b list) option"
    and ok :: "'a \<Rightarrow> bool"
  assumes dec_enc: "ok x \<Longrightarrow> dec (enc x @ r) = Some (x, r)"
begin

lemma dec_enc_exact: "ok x \<Longrightarrow> dec (enc x) = Some (x, [])"
  using dec_enc [of x "[]"] by simp

lemma unambiguous:
  assumes "ok x" and "ok y" and "enc x @ r = enc y @ s"
  shows "x = y \<and> r = s"
proof -
  have "Some (x, r) = Some (y, s)"
    by (metis assms dec_enc)
  then show ?thesis by simp
qed

lemma enc_injective: "ok x \<Longrightarrow> ok y \<Longrightarrow> enc x = enc y \<Longrightarrow> x = y"
  by (metis unambiguous append_Nil2)

lemma decode_n_concat:
  "list_all ok xs \<Longrightarrow> decode_n dec (length xs) (concat (map enc xs) @ r) = Some (xs, r)"
  by (induction xs) (simp_all add: dec_enc)

lemma concat_injective:
  assumes "list_all ok xs" and "list_all ok ys" and "length xs = length ys"
    and "concat (map enc xs) = concat (map enc ys)"
  shows "xs = ys"
proof -
  have "decode_n dec (length xs) (concat (map enc xs) @ []) = Some (xs, [])"
    by (rule decode_n_concat [OF assms(1)])
  then have "decode_n dec (length ys) (concat (map enc ys) @ []) = Some (xs, [])"
    unfolding assms(3,4) .
  then show ?thesis
    using decode_n_concat [OF assms(2), of "[]"] by simp
qed

end

section \<open>Guarded state systems\<close>

fun run_ops :: "('s \<Rightarrow> 'e \<Rightarrow> 's) \<Rightarrow> 's \<Rightarrow> 'e list \<Rightarrow> 's" where
  "run_ops step s [] = s"
| "run_ops step s (e # es) = run_ops step (step s e) es"

fun ops_ok :: "('s \<Rightarrow> 'e \<Rightarrow> 's) \<Rightarrow> ('s \<Rightarrow> 'e \<Rightarrow> bool) \<Rightarrow> 's \<Rightarrow> 'e list \<Rightarrow> bool" where
  "ops_ok step guard s [] = True"
| "ops_ok step guard s (e # es) = (guard s e \<and> ops_ok step guard (step s e) es)"

locale guarded_system =
  fixes step :: "'s \<Rightarrow> 'e \<Rightarrow> 's"
    and guard :: "'s \<Rightarrow> 'e \<Rightarrow> bool"
    and inv :: "'s \<Rightarrow> bool"
  assumes inv_step: "inv s \<Longrightarrow> guard s e \<Longrightarrow> inv (step s e)"
begin

lemma inv_run: "inv s \<Longrightarrow> ops_ok step guard s es \<Longrightarrow> inv (run_ops step s es)"
  by (induction es arbitrary: s) (auto intro: inv_step)

lemma inv_prefix:
  "inv s \<Longrightarrow> ops_ok step guard s (es @ fs) \<Longrightarrow> inv (run_ops step s es)"
  by (induction es arbitrary: s) (auto intro: inv_step)

end

lemma run_ops_append: "run_ops step s (es @ fs) = run_ops step (run_ops step s es) fs"
  by (induction es arbitrary: s) auto

lemma ops_ok_True: "(\<And>s e. guard s e) \<Longrightarrow> ops_ok step guard s es"
  by (induction es arbitrary: s) auto

end
