(* ===== verification/Types.thy ===== *)
theory Types
  imports Errors Codec
begin

text \<open>
  The protocol types of \<open>src/protocol/\<close>: download identifiers with their hexadecimal
  GIDs (\<open>types.rs\<close>), download states and kinds, priorities and the options builder
  (\<open>options.rs\<close>), checksums (\<open>checksum.rs\<close>) and the torrent and status records.
\<close>

section \<open>Hexadecimal\<close>

text \<open>\<open>u8::from_str_radix(s, 16)\<close> on a two-character slice: one leading \<open>+\<close> is accepted.\<close>

definition hex_char :: "nat \<Rightarrow> char" where
  "hex_char d = ''0123456789abcdef'' ! d"

definition hex_val :: "char \<Rightarrow> nat option" where
  "hex_val c =
    (if CHR ''0'' \<le> c \<and> c \<le> CHR ''9'' then Some (of_char c - 48)
     else if CHR ''a'' \<le> c \<and> c \<le> CHR ''f'' then Some (of_char c - 87)
     else if CHR ''A'' \<le> c \<and> c \<le> CHR ''F'' then Some (of_char c - 55)
     else None)"

definition hex_byte :: "byte \<Rightarrow> string" where
  "hex_byte b = [hex_char (unat b div 16), hex_char (unat b mod 16)]"

definition radix16_pair :: "char \<Rightarrow> char \<Rightarrow> byte option" where
  "radix16_pair c d =
    (if c = CHR ''+'' then map_option of_nat (hex_val d)
     else (case (hex_val c, hex_val d) of
             (Some h, Some l) \<Rightarrow> Some (of_nat (16 * h + l))
           | _ \<Rightarrow> None))"

fun hex_encode :: "bytes \<Rightarrow> string" where
  "hex_encode [] = []"
| "hex_encode (b # bs) = hex_byte b @ hex_encode bs"

fun hex_pairs :: "string \<Rightarrow> bytes option" where
  "hex_pairs [] = Some []"
| "hex_pairs [c] = None"
| "hex_pairs (c # d # s) =
    (case radix16_pair c d of
       None \<Rightarrow> None
     | Some b \<Rightarrow> map_option ((#) b) (hex_pairs s))"

definition hex_decode :: "string \<Rightarrow> bytes option" where
  "hex_decode s = (if length s mod 2 \<noteq> 0 \<or> \<not> is_ascii s then None else hex_pairs s)"

lemma lt16_cases:
  fixes n :: nat
  assumes "n < 16"
  obtains "n = 0" | "n = 1" | "n = 2" | "n = 3" | "n = 4" | "n = 5" | "n = 6" | "n = 7"
    | "n = 8" | "n = 9" | "n = 10" | "n = 11" | "n = 12" | "n = 13" | "n = 14" | "n = 15"
proof -
  from assms have "n \<in> set [0..<16]" by simp
  then show thesis using that by (auto simp: upt_rec)
qed

lemma hex_val_hex_char [simp]: "d < 16 \<Longrightarrow> hex_val (hex_char d) = Some d"
  by (erule lt16_cases) (simp_all add: hex_val_def hex_char_def)

lemma hex_char_not_plus [simp]: "d < 16 \<Longrightarrow> hex_char d \<noteq> CHR ''+''"
  by (erule lt16_cases) (simp_all add: hex_char_def)

lemma hex_char_ascii [simp]: "d < 16 \<Longrightarrow> byte_of (hex_char d) < 0x80"
  by (erule lt16_cases) (simp_all add: hex_char_def byte_of_def)

lemma unat_byte_lt [simp]: "unat (b::byte) < 256"
  using unsigned_less [of b, where ?'a = nat] by simp

lemma unat_byte_div [simp]: "unat (b::byte) div 16 < 16"
  using unat_byte_lt [of b] by linarith

lemma length_hex_byte [simp]: "length (hex_byte b) = 2"
  by (simp add: hex_byte_def)

lemma length_hex_encode [simp]: "length (hex_encode bs) = 2 * length bs"
  by (induction bs) auto

lemma hex_encode_ascii [simp]: "is_ascii (hex_encode bs)"
  by (induction bs) (auto simp: hex_byte_def)

lemma radix16_pair_hex_byte [simp]:
  "radix16_pair (hex_char (unat b div 16)) (hex_char (unat b mod 16)) = Some b"
  by (simp add: radix16_pair_def)

lemma hex_pairs_hex_encode: "hex_pairs (hex_encode bs) = Some bs"
  by (induction bs) (auto simp: hex_byte_def)

lemma hex_decode_hex_encode [simp, codec]: "hex_decode (hex_encode bs) = Some bs"
  by (simp add: hex_decode_def hex_pairs_hex_encode)

lemma hex_pairs_length: "hex_pairs s = Some bs \<Longrightarrow> length s = 2 * length bs"
  by (induction s arbitrary: bs rule: hex_pairs.induct) (auto split: option.splits)

section \<open>Download identifiers\<close>

text \<open>A \<open>DownloadId\<close> wraps a UUID: its sixteen bytes, in order.\<close>

datatype download_id = DownloadId (uuid_bytes: bytes)

definition wf_id :: "download_id \<Rightarrow> bool" where
  "wf_id i \<longleftrightarrow> length (uuid_bytes i) = 16"

definition to_gid :: "download_id \<Rightarrow> string" where
  "to_gid i = hex_encode (take 8 (uuid_bytes i))"

definition from_gid :: "string \<Rightarrow> download_id option" where
  "from_gid gid =
    (if length gid \<noteq> 16 then None
     else case hex_decode gid of
       None \<Rightarrow> None
     | Some bytes \<Rightarrow>
         if length bytes \<noteq> 8 then None
         else Some (DownloadId (bytes @ replicate 8 0)))"

definition matches_gid :: "download_id \<Rightarrow> string \<Rightarrow> bool" where
  "matches_gid i gid \<longleftrightarrow> to_gid i = gid"

lemma length_to_gid: "wf_id i \<Longrightarrow> length (to_gid i) = 16"
  by (simp add: wf_id_def to_gid_def)

lemma from_gid_wf: "from_gid g = Some i \<Longrightarrow> wf_id i"
  by (auto simp: from_gid_def wf_id_def split: if_splits option.splits)

text \<open>
  The trip through a GID keeps the first eight bytes and zeroes the rest, which is exactly
  what the GID lookup compares.
\<close>

lemma from_gid_to_gid:
  "wf_id i \<Longrightarrow> from_gid (to_gid i) = Some (DownloadId (take 8 (uuid_bytes i) @ replicate 8 0))"
  by (simp add: wf_id_def to_gid_def from_gid_def)

lemma from_gid_to_gid_matches:
  assumes "wf_id i"
  shows "\<exists>j. from_gid (to_gid i) = Some j \<and> matches_gid j (to_gid i)"
proof -
  let ?j = "DownloadId (take 8 (uuid_bytes i) @ replicate 8 0)"
  have "from_gid (to_gid i) = Some ?j" by (rule from_gid_to_gid [OF assms])
  moreover have "to_gid ?j = to_gid i"
    using assms by (simp add: to_gid_def wf_id_def)
  ultimately show ?thesis by (simp add: matches_gid_def)
qed

lemma matches_gid_prefix:
  "wf_id i \<Longrightarrow> wf_id j \<Longrightarrow>
    matches_gid i (to_gid j) \<longleftrightarrow> take 8 (uuid_bytes i) = take 8 (uuid_bytes j)"
  by (metis hex_decode_hex_encode matches_gid_def option.inject to_gid_def)

lemma from_gid_plus_accepted:
  "\<exists>i. from_gid ''+f+f+f+f+f+f+f+f'' = Some i \<and> \<not> matches_gid i ''+f+f+f+f+f+f+f+f''"
  by (simp add: from_gid_def hex_decode_def byte_of_def radix16_pair_def hex_val_def
      matches_gid_def to_gid_def hex_byte_def hex_char_def)

section \<open>Kinds and states\<close>

datatype download_kind = KHttp | KTorrent | KMagnet

datatype download_state =
    Queued | Connecting | Downloading | Seeding | Paused | Completed
  | StError string string bool

fun is_active :: "download_state \<Rightarrow> bool" where
  "is_active Downloading = True"
| "is_active Seeding = True"
| "is_active Connecting = True"
| "is_active _ = False"

fun is_finished :: "download_state \<Rightarrow> bool" where
  "is_finished Completed = True"
| "is_finished (StError _ _ _) = True"
| "is_finished _ = False"

fun to_aria2_status :: "download_state \<Rightarrow> string" where
  "to_aria2_status Queued = ''waiting''"
| "to_aria2_status Connecting = ''active''"
| "to_aria2_status Downloading = ''active''"
| "to_aria2_status Seeding = ''active''"
| "to_aria2_status Paused = ''paused''"
| "to_aria2_status Completed = ''complete''"
| "to_aria2_status (StError _ _ _) = ''error''"

lemma active_iff_aria2: "is_active s \<longleftrightarrow> to_aria2_status s = ''active''"
  by (cases s) auto

lemma finished_iff_aria2: "is_finished s \<longleftrightarrow> to_aria2_status s \<in> {''complete'', ''error''}"
  by (cases s) auto

lemma active_not_finished: "\<not> (is_active s \<and> is_finished s)"
  by (cases s) auto

section \<open>Priorities\<close>

text \<open>The derived order is that of the declaration: Low, Normal, High, Critical.\<close>

datatype download_priority = Low | Normal | High | Critical

fun prio_rank :: "download_priority \<Rightarrow> int" where
  "prio_rank Low = -1"
| "prio_rank Normal = 0"
| "prio_rank High = 1"
| "prio_rank Critical = 2"

lemma prio_rank_inject [simp]: "prio_rank p = prio_rank q \<longleftrightarrow> p = q"
  by (cases p; cases q; simp)

instantiation download_priority :: linorder
begin
definition less_eq_download_priority :: "download_priority \<Rightarrow> download_priority \<Rightarrow> bool" where
  "less_eq_download_priority p q \<longleftrightarrow> prio_rank p \<le> prio_rank q"
definition less_download_priority :: "download_priority \<Rightarrow> download_priority \<Rightarrow> bool" where
  "less_download_priority p q \<longleftrightarrow> prio_rank p < prio_rank q"
instance
  by standard (auto simp: less_eq_download_priority_def less_download_priority_def)
end

lemma priority_order: "Low < Normal" "Normal < High" "High < Critical"
  by (simp_all add: less_download_priority_def)

fun show_priority :: "download_priority \<Rightarrow> string" where
  "show_priority Low = ''low''"
| "show_priority Normal = ''normal''"
| "show_priority High = ''high''"
| "show_priority Critical = ''critical''"

text \<open>
  \<open>to_lowercase\<close>, on the ASCII letters (bit five set). The only other characters whose lower case is
  ASCII are the Kelvin sign and the dotted capital I, and no literal the code compares a
  lowered string with contains a k or becomes reachable through them.
\<close>

definition lower_char :: "char \<Rightarrow> char" where
  "lower_char c =
    (if CHR ''A'' \<le> c \<and> c \<le> CHR ''Z''
     then Char (digit0 c) (digit1 c) (digit2 c) (digit3 c) (digit4 c) True (digit6 c) (digit7 c)
     else c)"

definition to_lower :: "string \<Rightarrow> string" where
  "to_lower s = map lower_char s"

definition parse_priority :: "string \<Rightarrow> string + download_priority" where
  "parse_priority s =
    (let l = to_lower s in
     if l = ''low'' \<or> l = ''-1'' then Inr Low
     else if l = ''normal'' \<or> l = ''0'' then Inr Normal
     else if l = ''high'' \<or> l = ''1'' then Inr High
     else if l = ''critical'' \<or> l = ''2'' then Inr Critical
     else Inl (''Invalid priority: '' @ s))"

lemma parse_show_priority: "parse_priority (show_priority p) = Inr p"
  by (cases p) (simp_all add: parse_priority_def to_lower_def lower_char_def)

section \<open>Checksums\<close>

datatype checksum_algorithm = Md5 | Sha256

fun show_algorithm :: "checksum_algorithm \<Rightarrow> string" where
  "show_algorithm Md5 = ''MD5''"
| "show_algorithm Sha256 = ''SHA256''"

record expected_checksum =
  ck_algorithm :: checksum_algorithm
  ck_value :: string

definition checksum_md5 :: "string \<Rightarrow> expected_checksum" where
  "checksum_md5 v = \<lparr>ck_algorithm = Md5, ck_value = to_lower v\<rparr>"

definition checksum_sha256 :: "string \<Rightarrow> expected_checksum" where
  "checksum_sha256 v = \<lparr>ck_algorithm = Sha256, ck_value = to_lower v\<rparr>"

text \<open>\<open>str::split_once\<close>: the parts before and after the first occurrence.\<close>

fun split_once :: "char \<Rightarrow> string \<Rightarrow> (string \<times> string) option" where
  "split_once x [] = None"
| "split_once x (c # s) =
    (if c = x then Some ([], s)
     else map_option (\<lambda>(a, b). (c # a, b)) (split_once x s))"

definition parse_checksum :: "string \<Rightarrow> expected_checksum option" where
  "parse_checksum s =
    (case split_once CHR '':'' s of
       None \<Rightarrow> None
     | Some (algo, hash) \<Rightarrow>
         (let a = to_lower algo in
          if a = ''md5'' then Some \<lparr>ck_algorithm = Md5, ck_value = to_lower hash\<rparr>
          else if a = ''sha256'' \<or> a = ''sha-256''
          then Some \<lparr>ck_algorithm = Sha256, ck_value = to_lower hash\<rparr>
          else None))"

lemma split_once_Some:
  "split_once x s = Some (a, b) \<longleftrightarrow> s = a @ x # b \<and> x \<notin> set a"
proof (induction s arbitrary: a)
  case Nil
  then show ?case by simp
next
  case (Cons c s)
  then show ?case by (cases a) auto
qed

lemma split_once_None: "split_once x s = None \<longleftrightarrow> x \<notin> set s"
  by (induction s) auto

lemma parse_checksum_display:
  "parse_checksum (show_algorithm a @ CHR '':'' # v) =
    Some \<lparr>ck_algorithm = a, ck_value = to_lower v\<rparr>"
  by (cases a) (simp_all add: parse_checksum_def to_lower_def lower_char_def)

end
