(* ===== verification/Schedule.thy ===== *)
theory Schedule
  imports Codec
begin

text \<open>
  Time-based bandwidth limits: the rules of \<open>src/protocol/scheduler.rs\<close> and the
  scheduler of \<open>src/scheduler.rs\<close>. The clock (\<open>chrono::Local::now\<close>) is an argument:
  every operation that samples it takes the hour and the weekday it reads. A limit is
  \<open>None\<close> for unlimited.
\<close>

datatype weekday = Mon | Tue | Wed | Thu | Fri | Sat | Sun

record schedule_rule =
  start_hour :: nat
  end_hour :: nat
  days :: "weekday list"
  download_limit :: "nat option"
  upload_limit :: "nat option"

record bandwidth_limits =
  bl_download :: "nat option"
  bl_upload :: "nat option"

section \<open>Rules\<close>

definition rule_new ::
  "nat \<Rightarrow> nat \<Rightarrow> weekday list \<Rightarrow> nat option \<Rightarrow> nat option \<Rightarrow> schedule_rule" where
  "rule_new s e ds dl ul =
    \<lparr>start_hour = min s 23, end_hour = min e 23, days = ds,
     download_limit = dl, upload_limit = ul\<rparr>"

definition rule_all_days :: "nat \<Rightarrow> nat \<Rightarrow> nat option \<Rightarrow> nat option \<Rightarrow> schedule_rule" where
  "rule_all_days s e dl ul = rule_new s e [] dl ul"

definition rule_weekdays :: "nat \<Rightarrow> nat \<Rightarrow> nat option \<Rightarrow> nat option \<Rightarrow> schedule_rule" where
  "rule_weekdays s e dl ul = rule_new s e [Mon, Tue, Wed, Thu, Fri] dl ul"

definition rule_weekends :: "nat \<Rightarrow> nat \<Rightarrow> nat option \<Rightarrow> nat option \<Rightarrow> schedule_rule" where
  "rule_weekends s e dl ul = rule_new s e [Sat, Sun] dl ul"

definition rule_matches :: "schedule_rule \<Rightarrow> nat \<Rightarrow> weekday \<Rightarrow> bool" where
  "rule_matches r hour weekday =
    (if days r \<noteq> [] \<and> weekday \<notin> set (days r) then False
     else if start_hour r \<le> end_hour r
     then start_hour r \<le> hour \<and> hour \<le> end_hour r
     else start_hour r \<le> hour \<or> hour \<le> end_hour r)"

definition wf_rule :: "schedule_rule \<Rightarrow> bool" where
  "wf_rule r \<longleftrightarrow> start_hour r < 24 \<and> end_hour r < 24"

lemma wf_rule_new [simp]: "wf_rule (rule_new s e ds dl ul)"
  by (simp add: wf_rule_def rule_new_def min_def)

text \<open>
  Both branches of the time test are one statement on the 24-hour clock: the hour is
  reached from the start before the end is.
\<close>

definition clock_distance :: "nat \<Rightarrow> nat \<Rightarrow> nat" where
  "clock_distance a b = (b + 24 - a) mod 24"

lemma clock_window:
  fixes s e h :: nat
  assumes "s < 24" and "e < 24" and "h < 24"
  shows "(h + 24 - s) mod 24 \<le> (e + 24 - s) mod 24 \<longleftrightarrow>
    (if s \<le> e then s \<le> h \<and> h \<le> e else s \<le> h \<or> h \<le> e)"
proof -
  have m: "(x + 24 - s) mod 24 = (if s \<le> x then x - s else x + 24 - s)" if "x < 24" for x :: nat
    using that assms(1) by (auto simp: mod_if)
  show ?thesis
    unfolding m [OF assms(3)] m [OF assms(2)] using assms by auto
qed

lemma rule_matches_clock:
  assumes "wf_rule r" and "h < 24"
  shows "rule_matches r h d \<longleftrightarrow>
    (days r = [] \<or> d \<in> set (days r)) \<and>
    clock_distance (start_hour r) h \<le> clock_distance (start_hour r) (end_hour r)"
  using assms clock_window [of "start_hour r" "end_hour r" h]
  by (auto simp: rule_matches_def wf_rule_def clock_distance_def)

lemma rule_always:
  "rule_matches (rule_all_days 0 23 dl ul) h d \<longleftrightarrow> h \<le> 23"
  by (simp add: rule_matches_def rule_all_days_def rule_new_def)

section \<open>The scheduler\<close>

fun evaluate_rules :: "nat \<times> weekday \<Rightarrow> schedule_rule list \<Rightarrow> bandwidth_limits \<Rightarrow> bandwidth_limits"
where
  "evaluate_rules now [] dflt = dflt"
| "evaluate_rules now (r # rs) dflt =
    (if rule_matches r (fst now) (snd now)
     then \<lparr>bl_download = download_limit r, bl_upload = upload_limit r\<rparr>
     else evaluate_rules now rs dflt)"

record bandwidth_scheduler =
  sch_rules :: "schedule_rule list"
  default_limits :: bandwidth_limits
  current_limits :: bandwidth_limits

definition sched_new ::
  "nat \<times> weekday \<Rightarrow> schedule_rule list \<Rightarrow> bandwidth_limits \<Rightarrow> bandwidth_scheduler" where
  "sched_new now rules dflt =
    \<lparr>sch_rules = rules, default_limits = dflt, current_limits = evaluate_rules now rules dflt\<rparr>"

definition sched_with_defaults ::
  "nat \<times> weekday \<Rightarrow> nat option \<Rightarrow> nat option \<Rightarrow> bandwidth_scheduler" where
  "sched_with_defaults now dl ul = sched_new now [] \<lparr>bl_download = dl, bl_upload = ul\<rparr>"

definition get_limits :: "bandwidth_scheduler \<Rightarrow> bandwidth_limits" where
  "get_limits s = current_limits s"

definition sched_update ::
  "nat \<times> weekday \<Rightarrow> bandwidth_scheduler \<Rightarrow> bandwidth_scheduler \<times> bool" where
  "sched_update now s =
    (let new_limits = evaluate_rules now (sch_rules s) (default_limits s) in
     if current_limits s \<noteq> new_limits then (s\<lparr>current_limits := new_limits\<rparr>, True)
     else (s, False))"

definition add_rule ::
  "nat \<times> weekday \<Rightarrow> schedule_rule \<Rightarrow> bandwidth_scheduler \<Rightarrow> bandwidth_scheduler" where
  "add_rule now r s = fst (sched_update now (s\<lparr>sch_rules := sch_rules s @ [r]\<rparr>))"

definition clear_rules :: "nat \<times> weekday \<Rightarrow> bandwidth_scheduler \<Rightarrow> bandwidth_scheduler" where
  "clear_rules now s = fst (sched_update now (s\<lparr>sch_rules := []\<rparr>))"

definition set_rules ::
  "nat \<times> weekday \<Rightarrow> schedule_rule list \<Rightarrow> bandwidth_scheduler \<Rightarrow> bandwidth_scheduler" where
  "set_rules now rs s = fst (sched_update now (s\<lparr>sch_rules := rs\<rparr>))"

definition set_defaults ::
  "nat \<times> weekday \<Rightarrow> bandwidth_limits \<Rightarrow> bandwidth_scheduler \<Rightarrow> bandwidth_scheduler" where
  "set_defaults now l s = fst (sched_update now (s\<lparr>default_limits := l\<rparr>))"

subsection \<open>First match wins\<close>

lemma evaluate_rules_first_match:
  assumes "\<forall>q \<in> set pre. \<not> rule_matches q (fst now) (snd now)"
    and "rule_matches r (fst now) (snd now)"
  shows "evaluate_rules now (pre @ r # post) dflt =
    \<lparr>bl_download = download_limit r, bl_upload = upload_limit r\<rparr>"
  using assms by (induction pre) auto

lemma evaluate_rules_no_match:
  "\<forall>q \<in> set rs. \<not> rule_matches q (fst now) (snd now) \<Longrightarrow> evaluate_rules now rs dflt = dflt"
  by (induction rs) auto

text \<open>The same, as a search: \<open>find\<close> returns the first rule that matches.\<close>

lemma evaluate_rules_find:
  "evaluate_rules now rs dflt =
    (case find (\<lambda>r. rule_matches r (fst now) (snd now)) rs of
       None \<Rightarrow> dflt
     | Some r \<Rightarrow> \<lparr>bl_download = download_limit r, bl_upload = upload_limit r\<rparr>)"
  by (induction rs) auto

subsection \<open>The cached limits are current after every operation\<close>

datatype sched_op =
    OpUpdate | OpAddRule schedule_rule | OpClearRules | OpSetRules "schedule_rule list"
  | OpSetDefaults bandwidth_limits

fun sched_step :: "bandwidth_scheduler \<Rightarrow> (nat \<times> weekday) \<times> sched_op \<Rightarrow> bandwidth_scheduler" where
  "sched_step s (now, OpUpdate) = fst (sched_update now s)"
| "sched_step s (now, OpAddRule r) = add_rule now r s"
| "sched_step s (now, OpClearRules) = clear_rules now s"
| "sched_step s (now, OpSetRules rs) = set_rules now rs s"
| "sched_step s (now, OpSetDefaults l) = set_defaults now l s"

definition sched_current :: "nat \<times> weekday \<Rightarrow> bandwidth_scheduler \<Rightarrow> bool" where
  "sched_current now s \<longleftrightarrow>
    current_limits s = evaluate_rules now (sch_rules s) (default_limits s)"

lemma sched_update_current: "sched_current now (fst (sched_update now s))"
  by (simp add: sched_current_def sched_update_def Let_def)

lemma sched_update_changed:
  "snd (sched_update now s) \<longleftrightarrow> \<not> sched_current now s"
  by (simp add: sched_current_def sched_update_def Let_def)

lemma sched_step_current: "sched_current (fst e) (sched_step s e)"
  by (cases "(s, e)" rule: sched_step.cases)
    (simp_all add: add_rule_def clear_rules_def set_rules_def set_defaults_def sched_update_current)

lemma sched_new_current: "sched_current now (sched_new now rs l)"
  by (simp add: sched_new_def sched_current_def)

text \<open>
  The invariant of the cache: the limits in force are those of some instant at which the
  present rules were evaluated.
\<close>

definition sched_inv :: "bandwidth_scheduler \<Rightarrow> bool" where
  "sched_inv s \<longleftrightarrow> (\<exists>now. sched_current now s)"

interpretation scheduler: guarded_system sched_step "\<lambda>_ _. True" sched_inv
  by unfold_locales (metis sched_inv_def sched_step_current)

lemma run_ops_snoc_current:
  "sched_current (fst e) (run_ops sched_step s (es @ [e]))"
  by (simp add: run_ops_append sched_step_current)

text \<open>An update right after an update reports no change.\<close>

lemma sched_update_idem: "\<not> snd (sched_update now (fst (sched_update now s)))"
  by (simp add: sched_update_changed sched_update_current)

end
