(* ===== verification/PriorityQueue.thy ===== *)
theory PriorityQueue
  imports Types "HOL-Library.AList" "HOL-Library.Multiset"
begin

text \<open>
  The download scheduler of \<open>src/priority_queue.rs\<close>. A queue hands out at most
  \<open>max_concurrent\<close> slots, to the waiting download of the highest priority first and, within
  a priority, in order of arrival.

  The mutex makes each critical section one atomic step: such a section is one function on the
  state. Dropping a permit and changing the ceiling take several, which the section on wake-ups interleaves
  with everything else. \<open>BinaryHeap\<close> is the list of its entries, of which \<open>peek\<close> and
  \<open>pop\<close> pick the greatest in the order of \<open>QueueEntry\<close>; the two hash maps are
  association lists with distinct keys. tokio's \<open>Semaphore\<close> is a parameter: a record of
  the three operations the code calls, about which the theorems assume only what tokio
  documents (\<open>semaphore_laws\<close>). \<open>Notify\<close> appears as a flag in the result of the
  operations that call \<open>notify_waiters\<close>; the section on wake-ups gives it its meaning.
\<close>

section \<open>Entries and their order\<close>

record queue_entry =
  qe_id :: download_id
  qe_priority :: download_priority
  qe_sequence :: nat

datatype ordering = Less | Equal | Greater

definition cmp_prio :: "download_priority \<Rightarrow> download_priority \<Rightarrow> ordering" where
  "cmp_prio p q = (if p < q then Less else if p = q then Equal else Greater)"

definition cmp_nat :: "nat \<Rightarrow> nat \<Rightarrow> ordering" where
  "cmp_nat m n = (if m < n then Less else if m = n then Equal else Greater)"

definition entry_cmp :: "queue_entry \<Rightarrow> queue_entry \<Rightarrow> ordering" where
  "entry_cmp e f =
    (case cmp_prio (qe_priority e) (qe_priority f) of
       Equal \<Rightarrow> cmp_nat (qe_sequence f) (qe_sequence e)
     | other \<Rightarrow> other)"

text \<open>\<open>outranks e f\<close>: \<open>e\<close> is served before \<open>f\<close>.\<close>

definition outranks :: "queue_entry \<Rightarrow> queue_entry \<Rightarrow> bool" where
  "outranks e f \<longleftrightarrow> entry_cmp e f = Greater"

lemma outranks_iff:
  "outranks e f \<longleftrightarrow>
    qe_priority f < qe_priority e \<or>
    qe_priority e = qe_priority f \<and> qe_sequence e < qe_sequence f"
  by (auto simp: outranks_def entry_cmp_def cmp_prio_def cmp_nat_def split: if_splits)

lemma entry_cmp_Equal:
  "entry_cmp e f = Equal \<longleftrightarrow> qe_priority e = qe_priority f \<and> qe_sequence e = qe_sequence f"
  by (auto simp: entry_cmp_def cmp_prio_def cmp_nat_def split: if_splits)

lemma entry_cmp_Less: "entry_cmp e f = Less \<longleftrightarrow> outranks f e"
  by (auto simp: outranks_iff entry_cmp_def cmp_prio_def cmp_nat_def split: if_splits)

lemma outranks_irrefl [simp]: "\<not> outranks e e"
  by (simp add: outranks_iff)

lemma outranks_trans: "outranks e f \<Longrightarrow> outranks f g \<Longrightarrow> outranks e g"
  by (auto simp: outranks_iff)

lemma not_outranks_trans: "\<not> outranks e f \<Longrightarrow> \<not> outranks f g \<Longrightarrow> \<not> outranks e g"
  by (auto simp: outranks_iff)

section \<open>The heap\<close>

text \<open>\<open>peek\<close> returns a greatest entry, \<open>pop\<close> removes the one \<open>peek\<close> returns.\<close>

fun heap_peek :: "queue_entry list \<Rightarrow> queue_entry option" where
  "heap_peek [] = None"
| "heap_peek (e # es) =
    (case heap_peek es of
       None \<Rightarrow> Some e
     | Some f \<Rightarrow> if outranks f e then Some f else Some e)"

definition heap_pop :: "queue_entry list \<Rightarrow> queue_entry list" where
  "heap_pop es = (case heap_peek es of None \<Rightarrow> es | Some e \<Rightarrow> remove1 e es)"

lemma heap_peek_None [simp]: "heap_peek es = None \<longleftrightarrow> es = []"
  by (cases es) (auto split: option.splits)

lemma heap_peek_mem: "heap_peek es = Some e \<Longrightarrow> e \<in> set es"
  by (induction es arbitrary: e) (auto split: option.splits if_splits)

lemma heap_peek_max: "heap_peek es = Some e \<Longrightarrow> f \<in> set es \<Longrightarrow> \<not> outranks f e"
proof (induction es arbitrary: e)
  case Nil
  then show ?case by simp
next
  case (Cons g es)
  show ?case
  proof (cases "heap_peek es")
    case None
    with Cons.prems show ?thesis by auto
  next
    case (Some h)
    with Cons.IH [OF Some] Cons.prems show ?thesis
      by (auto split: if_splits dest: outranks_trans not_outranks_trans)
  qed
qed

section \<open>State and operations\<close>

record 's semaphore_api =
  sem_new :: "nat \<Rightarrow> 's"
  sem_try_acquire :: "'s \<Rightarrow> 's option"
  sem_add_permits :: "nat \<Rightarrow> 's \<Rightarrow> 's"

text \<open>
  What tokio documents of \<open>Semaphore\<close>: it starts with the permits it is given, an
  acquisition takes one and fails exactly when none is left, a released permit
  (\<open>add_permits(1)\<close>) and \<open>add_permits\<close> give permits back.
\<close>

definition semaphore_laws :: "'s semaphore_api \<Rightarrow> ('s \<Rightarrow> nat) \<Rightarrow> bool" where
  "semaphore_laws api avail \<longleftrightarrow>
    (\<forall>n. avail (sem_new api n) = n) \<and>
    (\<forall>s. (sem_try_acquire api s = None) = (avail s = 0)) \<and>
    (\<forall>s s'. sem_try_acquire api s = Some s' \<longrightarrow> avail s = Suc (avail s')) \<and>
    (\<forall>n s. avail (sem_add_permits api n s) = avail s + n)"

record 's priority_queue =
  semaphore :: 's
  max_concurrent :: nat
  waiting :: "queue_entry list"
  active :: "(download_id \<times> download_priority) list"
  waiting_priorities :: "(download_id \<times> download_priority) list"
  pq_sequence :: nat

definition pq_new :: "'s semaphore_api \<Rightarrow> nat \<Rightarrow> 's priority_queue" where
  "pq_new api n =
    \<lparr>semaphore = sem_new api n, max_concurrent = n, waiting = [], active = [],
     waiting_priorities = [], pq_sequence = 0\<rparr>"

text \<open>\<open>acquire\<close>, up to the loop: the sequence number is a wrapping \<open>u64\<close> counter.\<close>

definition acquire_enqueue ::
  "download_id \<Rightarrow> download_priority \<Rightarrow> 's priority_queue \<Rightarrow> 's priority_queue" where
  "acquire_enqueue i p q =
    q\<lparr>pq_sequence := (pq_sequence q + 1) mod 2 ^ 64,
      waiting := \<lparr>qe_id = i, qe_priority = p, qe_sequence = pq_sequence q\<rparr> # waiting q,
      waiting_priorities := AList.update i p (waiting_priorities q)\<rparr>"

text \<open>
  One turn of \<open>acquire\<close>'s loop for the download \<open>i\<close>: \<open>Some\<close> of the new state when it
  returns a permit, \<open>None\<close> when it goes back to waiting for a notification.
\<close>

definition acquire_poll ::
  "'s semaphore_api \<Rightarrow> download_id \<Rightarrow> download_priority \<Rightarrow> 's priority_queue
    \<Rightarrow> 's priority_queue option" where
  "acquire_poll api i p q =
    (case heap_peek (waiting q) of
       None \<Rightarrow> None
     | Some hd_e \<Rightarrow>
         if qe_id hd_e = i \<and> length (active q) < max_concurrent q then
           (case sem_try_acquire api (semaphore q) of
              None \<Rightarrow> None
            | Some s \<Rightarrow>
                Some (q\<lparr>semaphore := s,
                        waiting := heap_pop (waiting q),
                        waiting_priorities := AList.delete i (waiting_priorities q),
                        active := AList.update i p (active q)\<rparr>))
         else None)"

definition try_acquire ::
  "'s semaphore_api \<Rightarrow> download_id \<Rightarrow> download_priority \<Rightarrow> 's priority_queue
    \<Rightarrow> 's priority_queue option" where
  "try_acquire api i p q =
    (if max_concurrent q \<le> length (active q) then None
     else if (case heap_peek (waiting q) of None \<Rightarrow> False | Some hd_e \<Rightarrow> p < qe_priority hd_e)
     then None
     else (case sem_try_acquire api (semaphore q) of
             None \<Rightarrow> None
           | Some s \<Rightarrow> Some (q\<lparr>semaphore := s, active := AList.update i p (active q)\<rparr>)))"

text \<open>\<open>Drop for PriorityPermit\<close>: the download leaves the active ones, under the lock; then the permit
  returns; then the waiters are notified.\<close>

definition permit_leave :: "download_id \<Rightarrow> 's priority_queue \<Rightarrow> 's priority_queue" where
  "permit_leave i q = q\<lparr>active := AList.delete i (active q)\<rparr>"

definition add_permits :: "'s semaphore_api \<Rightarrow> nat \<Rightarrow> 's priority_queue \<Rightarrow> 's priority_queue" where
  "add_permits api n q = q\<lparr>semaphore := sem_add_permits api n (semaphore q)\<rparr>"

definition permit_drop ::
  "'s semaphore_api \<Rightarrow> download_id \<Rightarrow> 's priority_queue \<Rightarrow> 's priority_queue" where
  "permit_drop api i q = add_permits api 1 (permit_leave i q)"

definition reprioritise ::
  "download_id \<Rightarrow> download_priority \<Rightarrow> queue_entry \<Rightarrow> queue_entry" where
  "reprioritise i p e =
    (if qe_id e = i
     then \<lparr>qe_id = qe_id e, qe_priority = p, qe_sequence = qe_sequence e\<rparr> else e)"

text \<open>\<open>set_priority\<close>: the new state, the value returned, and whether it notifies.\<close>

definition set_priority ::
  "download_id \<Rightarrow> download_priority \<Rightarrow> 's priority_queue \<Rightarrow> 's priority_queue \<times> bool \<times> bool"
where
  "set_priority i p q =
    (if map_of (waiting_priorities q) i \<noteq> None then
       (q\<lparr>waiting := map (reprioritise i p) (waiting q),
          waiting_priorities := AList.update i p (waiting_priorities q)\<rparr>, True, True)
     else if map_of (active q) i \<noteq> None then
       (q\<lparr>active := AList.update i p (active q)\<rparr>, True, False)
     else (q, False, False))"

text \<open>\<open>remove\<close> notifies the waiters.\<close>

definition pq_remove :: "download_id \<Rightarrow> 's priority_queue \<Rightarrow> 's priority_queue" where
  "pq_remove i q =
    q\<lparr>waiting_priorities := AList.delete i (waiting_priorities q),
      waiting := filter (\<lambda>e. qe_id e \<noteq> i) (waiting q)\<rparr>"

definition get_priority :: "download_id \<Rightarrow> 's priority_queue \<Rightarrow> download_priority option" where
  "get_priority i q =
    (case map_of (waiting_priorities q) i of
       Some p \<Rightarrow> Some p
     | None \<Rightarrow> map_of (active q) i)"

text \<open>\<open>set_max_concurrent\<close>, which takes no lock: the ceiling is swapped; then permits are added, when it
  has grown; then the waiters are notified.\<close>

definition swap_ceiling :: "nat \<Rightarrow> 's priority_queue \<Rightarrow> 's priority_queue" where
  "swap_ceiling n q = q\<lparr>max_concurrent := n\<rparr>"

definition set_max_concurrent ::
  "'s semaphore_api \<Rightarrow> nat \<Rightarrow> 's priority_queue \<Rightarrow> 's priority_queue" where
  "set_max_concurrent api n q =
    (let previous = max_concurrent q; q = swap_ceiling n q in
     if previous < n then add_permits api (n - previous) q else q)"

definition active_count :: "'s priority_queue \<Rightarrow> nat" where
  "active_count q = length (active q)"

definition waiting_count :: "'s priority_queue \<Rightarrow> nat" where
  "waiting_count q = length (waiting q)"

text \<open>
  \<open>queue_position\<close> sorts the entries in descending order and looks the download up.
\<close>

fun insert_desc :: "queue_entry \<Rightarrow> queue_entry list \<Rightarrow> queue_entry list" where
  "insert_desc e [] = [e]"
| "insert_desc e (f # fs) = (if outranks f e then f # insert_desc e fs else e # f # fs)"

fun sort_desc :: "queue_entry list \<Rightarrow> queue_entry list" where
  "sort_desc [] = []"
| "sort_desc (e # es) = insert_desc e (sort_desc es)"

definition queue_position :: "download_id \<Rightarrow> 's priority_queue \<Rightarrow> nat option" where
  "queue_position i q =
    (if map_of (waiting_priorities q) i = None then None
     else map_option Suc (position_of (\<lambda>e. qe_id e = i) (sort_desc (waiting q))))"

record pq_stats =
  st_active :: nat
  st_waiting :: nat
  st_by_priority :: "(download_priority \<times> nat) list"

fun tally :: "download_priority list \<Rightarrow> (download_priority \<times> nat) list" where
  "tally [] = []"
| "tally (p # ps) =
    (let m = tally ps in
     AList.update p ((case map_of m p of None \<Rightarrow> 0 | Some n \<Rightarrow> n) + 1) m)"

definition stats :: "'s priority_queue \<Rightarrow> pq_stats" where
  "stats q =
    \<lparr>st_active = length (active q), st_waiting = length (waiting q),
     st_by_priority = tally (map snd (waiting_priorities q))\<rparr>"

section \<open>The heap as a ranked queue\<close>

text \<open>
  The interface the scheduler relies on: a bag of entries with a strict ranking, whose
  \<open>peek\<close> is never outranked and whose \<open>pop\<close> removes what \<open>peek\<close> returns. Draining such a
  queue serves its entries in rank order.
\<close>

fun drain :: "('q \<Rightarrow> 'e option) \<Rightarrow> ('q \<Rightarrow> 'q) \<Rightarrow> nat \<Rightarrow> 'q \<Rightarrow> 'e list" where
  "drain peek pop 0 q = []"
| "drain peek pop (Suc n) q =
    (case peek q of None \<Rightarrow> [] | Some e \<Rightarrow> e # drain peek pop n (pop q))"

locale ranked_queue =
  fixes push :: "'e \<Rightarrow> 'q \<Rightarrow> 'q"
    and peek :: "'q \<Rightarrow> 'e option"
    and pop :: "'q \<Rightarrow> 'q"
    and bag :: "'q \<Rightarrow> 'e multiset"
    and above :: "'e \<Rightarrow> 'e \<Rightarrow> bool"
  assumes bag_push: "bag (push e q) = add_mset e (bag q)"
    and peek_None: "peek q = None \<longleftrightarrow> bag q = {#}"
    and peek_in: "peek q = Some e \<Longrightarrow> e \<in># bag q"
    and peek_top: "peek q = Some e \<Longrightarrow> f \<in># bag q \<Longrightarrow> \<not> above f e"
    and bag_pop: "peek q = Some e \<Longrightarrow> bag (pop q) = bag q - {#e#}"
begin

lemma mset_drain: "size (bag q) \<le> n \<Longrightarrow> mset (drain peek pop n q) = bag q"
proof (induction n arbitrary: q)
  case 0
  then show ?case by simp
next
  case (Suc n)
  show ?case
  proof (cases "peek q")
    case None
    then show ?thesis using peek_None [of q] by simp
  next
    case (Some e)
    then have e: "e \<in># bag q" by (rule peek_in)
    with Suc.prems have "size (bag (pop q)) \<le> n"
      by (simp add: bag_pop [OF Some] size_Diff_singleton)
    with Some Suc.IH [of "pop q"] e show ?thesis
      by (simp add: bag_pop [OF Some])
  qed
qed

lemma set_drain: "set (drain peek pop n q) \<subseteq> set_mset (bag q)"
proof (induction n arbitrary: q)
  case 0
  then show ?case by simp
next
  case (Suc n)
  show ?case
  proof (cases "peek q")
    case None
    then show ?thesis by simp
  next
    case (Some e)
    have "set (drain peek pop n (pop q)) \<subseteq> set_mset (bag q - {#e#})"
      using Suc.IH [of "pop q"] by (simp add: bag_pop [OF Some])
    then show ?thesis
      using Some peek_in [OF Some] by (auto dest: in_diffD)
  qed
qed

lemma drain_sorted: "sorted_wrt (\<lambda>e f. \<not> above f e) (drain peek pop n q)"
proof (induction n arbitrary: q)
  case 0
  then show ?case by simp
next
  case (Suc n)
  show ?case
  proof (cases "peek q")
    case None
    then show ?thesis by simp
  next
    case (Some e)
    have "\<not> above f e" if "f \<in> set (drain peek pop n (pop q))" for f
    proof -
      from that have "f \<in># bag (pop q)" using set_drain by blast
      then have "f \<in># bag q" by (auto simp: bag_pop [OF Some] dest: in_diffD)
      then show ?thesis using peek_top [OF Some] by blast
    qed
    with Some Suc.IH [of "pop q"] show ?thesis by simp
  qed
qed

end

interpretation heap: ranked_queue "(#)" heap_peek heap_pop mset outranks
  by unfold_locales
    (auto simp: heap_pop_def dest: heap_peek_mem heap_peek_max)

subsection \<open>Sorting in descending order\<close>

lemma mset_insert_desc [simp]: "mset (insert_desc e es) = add_mset e (mset es)"
  by (induction es) auto

lemma mset_sort_desc [simp]: "mset (sort_desc es) = mset es"
  by (induction es) auto

lemma set_sort_desc [simp]: "set (sort_desc es) = set es"
  by (metis mset_sort_desc set_mset_mset)

lemma set_insert_desc [simp]: "set (insert_desc e es) = insert e (set es)"
  by (induction es) auto

lemma insert_desc_sorted:
  "sorted_wrt (\<lambda>e f. \<not> outranks f e) es \<Longrightarrow> sorted_wrt (\<lambda>e f. \<not> outranks f e) (insert_desc e es)"
  by (induction es) (auto dest: not_outranks_trans outranks_trans)

lemma sort_desc_sorted: "sorted_wrt (\<lambda>e f. \<not> outranks f e) (sort_desc es)"
  by (induction es) (auto intro: insert_desc_sorted)

text \<open>Two orders of the same entries agree when no two entries share a sequence number.\<close>

lemma sorted_desc_unique:
  assumes "sorted_wrt (\<lambda>e f. \<not> outranks f e) es" and "sorted_wrt (\<lambda>e f. \<not> outranks f e) fs"
    and "mset es = mset fs" and "distinct (map qe_sequence es)"
  shows "es = fs"
  using assms
proof (induction es arbitrary: fs)
  case Nil
  then show ?case by simp
next
  case (Cons e es)
  then obtain f fs' where fs: "fs = f # fs'" by (cases fs) auto
  have eq: "set (e # es) = set (f # fs')"
    using Cons.prems(3) fs by (metis set_mset_mset)
  have "e = f"
  proof (rule ccontr)
    assume "e \<noteq> f"
    then have "f \<in> set es" and "e \<in> set fs'" using eq by auto
    then have "\<not> outranks f e" and "\<not> outranks e f"
      using Cons.prems(1,2) fs by auto
    then have "qe_sequence e = qe_sequence f"
      by (auto simp: outranks_iff)
    with \<open>f \<in> set es\<close> Cons.prems(4) show False by force
  qed
  with Cons fs show ?case by auto
qed

lemma drain_eq_sort_desc:
  assumes "distinct (map qe_sequence es)"
  shows "drain heap_peek heap_pop (length es) es = sort_desc es"
proof (rule sym, rule sorted_desc_unique)
  show "sorted_wrt (\<lambda>e f. \<not> outranks f e) (sort_desc es)" by (rule sort_desc_sorted)
  show "sorted_wrt (\<lambda>e f. \<not> outranks f e) (drain heap_peek heap_pop (length es) es)"
    by (rule heap.drain_sorted)
  show "mset (sort_desc es) = mset (drain heap_peek heap_pop (length es) es)"
    by (simp add: heap.mset_drain)
  show "distinct (map qe_sequence (sort_desc es))"
    using assms by (metis mset_map mset_sort_desc mset_eq_imp_distinct_iff)
qed

section \<open>Invariant\<close>

definition waiting_ids :: "'s priority_queue \<Rightarrow> download_id set" where
  "waiting_ids q = qe_id ` set (waiting q)"

text \<open>
  The two maps say what the heap and the permits say; sequence numbers are unique and
  below the counter; a download is not both waiting and active; and the semaphore covers
  the slots that are free below the ceiling, so it never refuses one.
\<close>

definition pq_inv :: "('s \<Rightarrow> nat) \<Rightarrow> 's priority_queue \<Rightarrow> bool" where
  [inv_defs]: "pq_inv avail q \<longleftrightarrow>
    distinct (map qe_id (waiting q)) \<and>
    distinct (map qe_sequence (waiting q)) \<and>
    (\<forall>e \<in> set (waiting q). qe_sequence e < pq_sequence q) \<and>
    distinct (map fst (waiting_priorities q)) \<and>
    distinct (map fst (active q)) \<and>
    map_of (waiting_priorities q) = map_of (map (\<lambda>e. (qe_id e, qe_priority e)) (waiting q)) \<and>
    fst ` set (active q) \<inter> waiting_ids q = {} \<and>
    max_concurrent q \<le> avail (semaphore q) + length (active q)"

datatype pq_op =
    Enqueue download_id download_priority
  | Poll download_id download_priority
  | TryAcquire download_id download_priority
  | DropPermit download_id
  | SetPriority download_id download_priority
  | Remove download_id
  | SetMax nat

fun pq_step :: "'s semaphore_api \<Rightarrow> 's priority_queue \<Rightarrow> pq_op \<Rightarrow> 's priority_queue" where
  "pq_step api q (Enqueue i p) = acquire_enqueue i p q"
| "pq_step api q (Poll i p) =
    (case acquire_poll api i p q of None \<Rightarrow> q | Some q' \<Rightarrow> q')"
| "pq_step api q (TryAcquire i p) =
    (case try_acquire api i p q of None \<Rightarrow> q | Some q' \<Rightarrow> q')"
| "pq_step api q (DropPermit i) = permit_drop api i q"
| "pq_step api q (SetPriority i p) = fst (set_priority i p q)"
| "pq_step api q (Remove i) = pq_remove i q"
| "pq_step api q (SetMax n) = set_max_concurrent api n q"

text \<open>
  How the engine uses the queue: a download asks for a slot only while it neither waits
  nor holds one, a permit is dropped by the download that holds it, and fewer than \<open>2^64\<close>
  requests are made.
\<close>

fun pq_guard :: "'s priority_queue \<Rightarrow> pq_op \<Rightarrow> bool" where
  "pq_guard q (Enqueue i p) \<longleftrightarrow>
    i \<notin> waiting_ids q \<and> i \<notin> fst ` set (active q) \<and> pq_sequence q + 1 < 2 ^ 64"
| "pq_guard q (TryAcquire i p) \<longleftrightarrow> i \<notin> waiting_ids q \<and> i \<notin> fst ` set (active q)"
| "pq_guard q (DropPermit i) \<longleftrightarrow> i \<in> fst ` set (active q)"
| "pq_guard q _ \<longleftrightarrow> True"

subsection \<open>Association lists\<close>

lemma length_alist_update_new:
  "k \<notin> fst ` set al \<Longrightarrow> length (AList.update k v al) = Suc (length al)"
  by (induction al) auto

lemma length_alist_update_old:
  "k \<in> fst ` set al \<Longrightarrow> length (AList.update k v al) = length al"
  by (induction al) auto

lemma length_alist_delete:
  "distinct (map fst al) \<Longrightarrow> k \<in> fst ` set al \<Longrightarrow> Suc (length (AList.delete k al)) = length al"
proof (induction al)
  case Nil
  then show ?case by simp
next
  case (Cons x al)
  then show ?case
    by (cases x)
      (force simp: AList.delete_eq filter_id_conv intro!: arg_cong [where f = length])
qed

lemma fst_set_alist_update [simp]:
  "fst ` set (AList.update k v al) = insert k (fst ` set al)"
  by (simp add: dom_update)

lemma fst_set_alist_delete [simp]:
  "fst ` set (AList.delete k al) = fst ` set al - {k}"
  by (auto simp: AList.delete_eq)

subsection \<open>Every operation keeps the invariant\<close>

lemma heap_peek_pop:
  assumes "heap_peek es = Some e" and "distinct (map qe_id es)"
  shows "set (heap_pop es) = set es - {e}"
    and "distinct (map qe_id (heap_pop es))"
    and "heap_pop es = filter (\<lambda>f. qe_id f \<noteq> qe_id e) es"
proof -
  have d: "distinct es" using assms(2) by (simp add: distinct_map)
  have e: "e \<in> set es" using assms(1) by (rule heap_peek_mem)
  show 1: "set (heap_pop es) = set es - {e}"
    using assms(1) d by (simp add: heap_pop_def)
  show 3: "heap_pop es = filter (\<lambda>f. qe_id f \<noteq> qe_id e) es"
  proof -
    have "heap_pop es = filter (\<lambda>f. f \<noteq> e) es"
      using assms(1) d
      by (simp add: heap_pop_def distinct_remove1_removeAll removeAll_filter_not_eq)
        (rule filter_cong, auto)
    also have "\<dots> = filter (\<lambda>f. qe_id f \<noteq> qe_id e) es"
      using e assms(2) by (intro filter_cong) (auto simp: distinct_map dest: inj_onD)
    finally show ?thesis .
  qed
  show "distinct (map qe_id (heap_pop es))"
    unfolding 3 by (rule distinct_map_filter) (rule assms(2))
qed

lemma map_of_filter_id:
  "map_of (map (\<lambda>e. (qe_id e, qe_priority e)) (filter (\<lambda>f. qe_id f \<noteq> i) es)) =
   (map_of (map (\<lambda>e. (qe_id e, qe_priority e)) es))(i := None)"
  by (induction es) auto

lemma map_of_reprioritise:
  "i \<in> qe_id ` set es \<Longrightarrow>
    map_of (map (\<lambda>e. (qe_id e, qe_priority e)) (map (reprioritise i p) es)) =
    (map_of (map (\<lambda>e. (qe_id e, qe_priority e)) es))(i \<mapsto> p)"
proof -
  have *: "map_of (map (\<lambda>e. (qe_id e, qe_priority e)) (map (reprioritise i p) es)) j =
    (if j = i \<and> i \<in> qe_id ` set es then Some p
     else map_of (map (\<lambda>e. (qe_id e, qe_priority e)) es) j)" for j
    by (induction es) (auto simp: reprioritise_def)
  assume "i \<in> qe_id ` set es"
  then show ?thesis by (auto simp: fun_eq_iff * simp del: map_map)
qed

lemma qe_id_reprioritise [simp]: "qe_id (reprioritise i p e) = qe_id e"
  by (simp add: reprioritise_def)

lemma qe_sequence_reprioritise [simp]: "qe_sequence (reprioritise i p e) = qe_sequence e"
  by (simp add: reprioritise_def)

lemma comp_reprioritise [simp]:
  "qe_id \<circ> reprioritise i p = qe_id" "qe_sequence \<circ> reprioritise i p = qe_sequence"
  by (simp_all add: fun_eq_iff)

lemma map_of_waiting_dom:
  "map_of (map (\<lambda>e. (qe_id e, qe_priority e)) es) i = None \<longleftrightarrow> i \<notin> qe_id ` set es"
  by (induction es) auto

lemma acquire_enqueue_inv:
  assumes "pq_inv avail q" and "pq_guard q (Enqueue i p)"
  shows "pq_inv avail (acquire_enqueue i p q)"
  using assms
  by (auto simp: pq_inv_def acquire_enqueue_def waiting_ids_def update_conv' distinct_update
      dest: less_SucI)

lemma acquire_poll_Some:
  assumes "acquire_poll api i p q = Some q'"
  obtains e s where "heap_peek (waiting q) = Some e" and "qe_id e = i"
    and "length (active q) < max_concurrent q" and "sem_try_acquire api (semaphore q) = Some s"
    and "q' = q\<lparr>semaphore := s, waiting := heap_pop (waiting q),
                waiting_priorities := AList.delete i (waiting_priorities q),
                active := AList.update i p (active q)\<rparr>"
  using assms by (auto simp: acquire_poll_def split: option.splits if_splits)

text \<open>What an acquisition takes from a semaphore; it is all the invariant needs to know.\<close>

definition takes_one :: "'s semaphore_api \<Rightarrow> ('s \<Rightarrow> nat) \<Rightarrow> bool" where
  "takes_one api avail \<longleftrightarrow> (\<forall>s s'. sem_try_acquire api s = Some s' \<longrightarrow> avail s = Suc (avail s'))"

lemma laws_take_one: "semaphore_laws api avail \<Longrightarrow> takes_one api avail"
  by (simp add: semaphore_laws_def takes_one_def)

lemma takes_one_plus: "takes_one api avail \<Longrightarrow> takes_one api (\<lambda>s. avail s + k)"
  by (simp add: takes_one_def)

lemma acquire_poll_inv:
  assumes laws: "takes_one api avail"
    and inv: "pq_inv avail q" and poll: "acquire_poll api i p q = Some q'"
  shows "pq_inv avail q'"
proof -
  from poll obtain e s where e: "heap_peek (waiting q) = Some e" "qe_id e = i"
    and s: "sem_try_acquire api (semaphore q) = Some s"
    and q': "q' = q\<lparr>semaphore := s, waiting := heap_pop (waiting q),
                waiting_priorities := AList.delete i (waiting_priorities q),
                active := AList.update i p (active q)\<rparr>"
    by (rule acquire_poll_Some)
  have d: "distinct (map qe_id (waiting q))" using inv by (simp add: pq_inv_def)
  note pop = heap_peek_pop [OF e(1) d]
  have avail: "avail (semaphore q) = Suc (avail s)"
    using laws s by (auto simp: takes_one_def)
  have i: "i \<in> waiting_ids q" using heap_peek_mem [OF e(1)] e(2) by (auto simp: waiting_ids_def)
  then have na: "i \<notin> fst ` set (active q)" using inv by (auto simp: pq_inv_def)
  have seqs: "distinct (map qe_sequence (heap_pop (waiting q)))"
    unfolding pop(3) using inv by (intro distinct_map_filter) (simp add: pq_inv_def)
  show ?thesis
    using inv na unfolding pq_inv_def q'
    by (auto simp: pop(1) pop(2) seqs avail length_alist_update_new distinct_update distinct_delete
        waiting_ids_def delete_conv' pop(3) map_of_filter_id distinct_map_filter e(2))
qed

lemma try_acquire_Some:
  assumes "try_acquire api i p q = Some q'"
  obtains s where "length (active q) < max_concurrent q"
    and "\<And>e. heap_peek (waiting q) = Some e \<Longrightarrow> qe_priority e \<le> p"
    and "sem_try_acquire api (semaphore q) = Some s"
    and "q' = q\<lparr>semaphore := s, active := AList.update i p (active q)\<rparr>"
  using assms by (auto simp: try_acquire_def not_less split: option.splits if_splits)

lemma try_acquire_inv:
  assumes laws: "takes_one api avail" and inv: "pq_inv avail q"
    and guard: "pq_guard q (TryAcquire i p)" and ok: "try_acquire api i p q = Some q'"
  shows "pq_inv avail q'"
proof -
  from ok obtain s where s: "sem_try_acquire api (semaphore q) = Some s"
    and q': "q' = q\<lparr>semaphore := s, active := AList.update i p (active q)\<rparr>"
    by (rule try_acquire_Some)
  have "avail (semaphore q) = Suc (avail s)" using laws s by (auto simp: takes_one_def)
  then show ?thesis
    using inv guard unfolding pq_inv_def q'
    by (auto simp: length_alist_update_new distinct_update waiting_ids_def)
qed

text \<open>A permit on its way back counts as one of the semaphore.\<close>

lemma permit_leave_inv:
  assumes inv: "pq_inv avail q" and guard: "pq_guard q (DropPermit i)"
  shows "pq_inv (\<lambda>s. avail s + 1) (permit_leave i q)"
proof -
  have "Suc (length (AList.delete i (active q))) = length (active q)"
    using inv guard by (intro length_alist_delete) (auto simp: pq_inv_def)
  then show ?thesis
    using inv unfolding pq_inv_def permit_leave_def
    by (auto simp: distinct_delete waiting_ids_def)
qed

lemma add_permits_inv:
  assumes laws: "semaphore_laws api avail" and inv: "pq_inv (\<lambda>s. avail s + (n + k)) q"
  shows "pq_inv (\<lambda>s. avail s + k) (add_permits api n q)"
proof -
  have "avail (sem_add_permits api n (semaphore q)) = avail (semaphore q) + n"
    using laws unfolding semaphore_laws_def by blast
  then show ?thesis
    using inv unfolding pq_inv_def add_permits_def by (simp add: waiting_ids_def)
qed

lemma permit_drop_inv:
  assumes laws: "semaphore_laws api avail" and inv: "pq_inv avail q"
    and guard: "pq_guard q (DropPermit i)"
  shows "pq_inv avail (permit_drop api i q)"
  using add_permits_inv [OF laws, of 1 0] permit_leave_inv [OF inv guard] by (simp add: permit_drop_def)

lemma set_priority_inv:
  assumes inv: "pq_inv avail q"
  shows "pq_inv avail (fst (set_priority i p q))"
proof (cases "map_of (waiting_priorities q) i = None")
  case True
  then have "fst (set_priority i p q) =
    (if map_of (active q) i \<noteq> None then q\<lparr>active := AList.update i p (active q)\<rparr> else q)"
    by (simp add: set_priority_def)
  then show ?thesis
    using inv by (auto simp: pq_inv_def waiting_ids_def distinct_update
        length_alist_update_old map_of_eq_None_iff)
next
  case False
  then have "map_of (map (\<lambda>e. (qe_id e, qe_priority e)) (waiting q)) i \<noteq> None"
    using inv by (simp add: pq_inv_def)
  then have i: "i \<in> qe_id ` set (waiting q)"
    by (simp only: map_of_waiting_dom not_not)
  have eq: "map_of (AList.update i p (waiting_priorities q)) =
    map_of (map (\<lambda>e. (qe_id e, qe_priority e)) (map (reprioritise i p) (waiting q)))"
    unfolding map_of_reprioritise [OF i] using inv by (simp add: pq_inv_def update_conv')
  have new: "fst (set_priority i p q) =
    q\<lparr>waiting := map (reprioritise i p) (waiting q),
      waiting_priorities := AList.update i p (waiting_priorities q)\<rparr>"
    using False by (simp add: set_priority_def)
  show ?thesis
    unfolding new pq_inv_def waiting_ids_def using inv eq
    by (simp add: pq_inv_def waiting_ids_def distinct_update image_image)
qed

lemma pq_remove_inv: "pq_inv avail q \<Longrightarrow> pq_inv avail (pq_remove i q)"
  by (auto simp: pq_inv_def pq_remove_def waiting_ids_def distinct_map_filter distinct_delete
      delete_conv' map_of_filter_id)

lemma swap_ceiling_inv:
  "pq_inv avail q \<Longrightarrow> pq_inv (\<lambda>s. avail s + (n - max_concurrent q)) (swap_ceiling n q)"
  by (auto simp: pq_inv_def swap_ceiling_def waiting_ids_def)

lemma set_max_concurrent_inv:
  assumes "semaphore_laws api avail" and "pq_inv avail q"
  shows "pq_inv avail (set_max_concurrent api n q)"
  using add_permits_inv [OF assms(1), of "n - max_concurrent q" 0 "swap_ceiling n q"]
    swap_ceiling_inv [OF assms(2), of n]
  by (cases "max_concurrent q < n") (simp_all add: set_max_concurrent_def Let_def)

lemma pq_new_inv: "semaphore_laws api avail \<Longrightarrow> pq_inv avail (pq_new api n)"
  by (auto simp: pq_inv_def pq_new_def waiting_ids_def semaphore_laws_def)

lemma pq_step_inv:
  assumes "semaphore_laws api avail" and "pq_inv avail q" and "pq_guard q e"
  shows "pq_inv avail (pq_step api q e)"
  using assms
  by (cases e)
    (auto simp del: pq_guard.simps
      simp: acquire_enqueue_inv set_priority_inv pq_remove_inv set_max_concurrent_inv permit_drop_inv
      split: option.splits
      intro: acquire_poll_inv [OF laws_take_one] try_acquire_inv [OF laws_take_one])

section \<open>Correctness of the queue\<close>

lemma pq_system:
  "semaphore_laws api avail \<Longrightarrow> guarded_system (pq_step api) pq_guard (pq_inv avail)"
  by unfold_locales (rule pq_step_inv)

text \<open>A counter is a semaphore in the sense of the laws.\<close>

definition counter_api :: "nat semaphore_api" where
  "counter_api =
    \<lparr>sem_new = id,
     sem_try_acquire = (\<lambda>s. case s of 0 \<Rightarrow> None | Suc n \<Rightarrow> Some n),
     sem_add_permits = (\<lambda>n s. s + n)\<rparr>"

lemma counter_laws: "semaphore_laws counter_api id"
  by (auto simp: semaphore_laws_def counter_api_def split: nat.splits)

interpretation pq: guarded_system "pq_step counter_api" pq_guard "pq_inv id"
  by (rule pq_system [OF counter_laws])

lemma pq_run_keeps_inv:
  assumes "semaphore_laws api avail" and "ops_ok (pq_step api) pq_guard (pq_new api n) es"
  shows "pq_inv avail (run_ops (pq_step api) (pq_new api n) es)"
  by (rule guarded_system.inv_run [OF pq_system [OF assms(1)] pq_new_inv [OF assms(1)] assms(2)])

subsection \<open>Who is served\<close>

lemma outranks_others:
  assumes "heap_peek es = Some e" and "distinct (map qe_sequence es)"
    and "f \<in> set es" and "f \<noteq> e"
  shows "outranks e f"
proof -
  have "qe_sequence e \<noteq> qe_sequence f"
    using assms heap_peek_mem [OF assms(1)] by (auto simp: distinct_map dest: inj_onD)
  moreover have "\<not> outranks f e"
    by (rule heap_peek_max [OF assms(1,3)])
  ultimately show ?thesis by (auto simp: outranks_iff)
qed

text \<open>C6. When \<open>acquire\<close> returns a permit in a reachable state, the download it serves is the
  one that outranks every other waiting download: a strictly higher priority, or the same
  priority and an earlier arrival. Exactly its entry leaves the queue.\<close>

theorem grant_serves_best:
  assumes "semaphore_laws api avail"
    and "ops_ok (pq_step api) pq_guard (pq_new api n) es"
    and "q = run_ops (pq_step api) (pq_new api n) es"
    and "acquire_poll api i p q = Some q'"
  shows "\<exists>e \<in> set (waiting q). qe_id e = i
    \<and> (\<forall>f \<in> set (waiting q). f \<noteq> e \<longrightarrow>
          qe_priority f < qe_priority e
          \<or> qe_priority e = qe_priority f \<and> qe_sequence e < qe_sequence f)
    \<and> set (waiting q') = set (waiting q) - {e}"
proof -
  have inv: "pq_inv avail q"
    unfolding assms(3) by (rule pq_run_keeps_inv [OF assms(1,2)])
  from assms(4) obtain e where e: "heap_peek (waiting q) = Some e" "qe_id e = i"
    and w: "waiting q' = heap_pop (waiting q)"
    by (rule acquire_poll_Some) simp
  have "set (waiting q') = set (waiting q) - {e}"
    unfolding w using inv by (intro heap_peek_pop [OF e(1)]) (simp add: pq_inv_def)
  moreover have "outranks e f" if "f \<in> set (waiting q)" "f \<noteq> e" for f
    using outranks_others [OF e(1) _ that] inv by (simp add: pq_inv_def)
  ultimately show ?thesis
    using e heap_peek_mem [OF e(1)] by (intro bexI [of _ e]) (auto simp: outranks_iff)
qed

text \<open>A run with two waiting downloads, for the witnesses: the later one has the higher priority.\<close>

definition id_a :: download_id where "id_a = DownloadId (replicate 16 1)"
definition id_b :: download_id where "id_b = DownloadId (replicate 16 2)"

lemma id_a_neq_b [simp]: "id_a \<noteq> id_b" "id_b \<noteq> id_a"
  by (simp_all add: id_a_def id_b_def)

definition two_waiting :: "pq_op list" where
  "two_waiting = [Enqueue id_a Low, Enqueue id_b High]"

lemmas pq_eval =
  two_waiting_def pq_new_def acquire_enqueue_def acquire_poll_def waiting_ids_def counter_api_def
  outranks_iff heap_pop_def less_download_priority_def

lemma two_waiting_ok: "ops_ok (pq_step counter_api) pq_guard (pq_new counter_api 1) two_waiting"
  by (simp add: pq_eval)

lemma two_waiting_poll:
  "\<exists>q'. acquire_poll counter_api id_b High
     (run_ops (pq_step counter_api) (pq_new counter_api 1) two_waiting) = Some q'"
  by (simp add: pq_eval)

lemma grant_serves_best_witness:
  "\<exists>e \<in> set (waiting (run_ops (pq_step counter_api) (pq_new counter_api 1) two_waiting)). qe_id e = id_b
    \<and> (\<forall>f \<in> set (waiting (run_ops (pq_step counter_api) (pq_new counter_api 1) two_waiting)).
        f \<noteq> e \<longrightarrow> qe_priority f < qe_priority e
          \<or> qe_priority e = qe_priority f \<and> qe_sequence e < qe_sequence f)"
  using two_waiting_poll grant_serves_best [OF counter_laws two_waiting_ok refl] by blast

subsection \<open>When the head is served\<close>

lemma semaphore_covers:
  assumes "semaphore_laws api avail" and "pq_inv avail q"
    and "length (active q) < max_concurrent q"
  obtains s where "sem_try_acquire api (semaphore q) = Some s"
proof (cases "sem_try_acquire api (semaphore q)")
  case None
  then have "avail (semaphore q) = 0" using assms(1) by (simp add: semaphore_laws_def)
  with assms(2,3) show ?thesis by (simp add: pq_inv_def)
qed (rule that)

text \<open>In a reachable state the semaphore never withholds a free slot: \<open>acquire\<close> returns
  for a download that polls exactly when it is at the head of the queue and fewer downloads
  are active than the ceiling allows.\<close>

theorem head_granted_iff_free:
  assumes "semaphore_laws api avail"
    and "ops_ok (pq_step api) pq_guard (pq_new api n) es"
    and "q = run_ops (pq_step api) (pq_new api n) es"
  shows "(\<exists>q'. acquire_poll api i p q = Some q') \<longleftrightarrow>
    (\<exists>e. heap_peek (waiting q) = Some e \<and> qe_id e = i) \<and> active_count q < max_concurrent q"
proof -
  have inv: "pq_inv avail q"
    unfolding assms(3) by (rule pq_run_keeps_inv [OF assms(1,2)])
  have "sem_try_acquire api (semaphore q) \<noteq> None" if "length (active q) < max_concurrent q"
    using semaphore_covers [OF assms(1) inv that] by auto
  then show ?thesis
    by (auto simp: acquire_poll_def active_count_def split: option.splits)
qed

lemma head_granted_iff_free_witness:
  "(\<exists>q'. acquire_poll counter_api id_b High
      (run_ops (pq_step counter_api) (pq_new counter_api 1) two_waiting) = Some q') \<and>
   \<not> (\<exists>q'. acquire_poll counter_api id_a Low
      (run_ops (pq_step counter_api) (pq_new counter_api 1) two_waiting) = Some q')"
  unfolding head_granted_iff_free [OF counter_laws two_waiting_ok refl]
  by (simp add: pq_eval active_count_def)

subsection \<open>The ceiling\<close>

lemma length_update_le: "length (AList.update k v al) \<le> Suc (length al)"
  by (induction al) auto

lemma length_delete_le: "length (AList.delete k al) \<le> length al"
  by (simp add: AList.delete_eq)

fun ceiling_of :: "pq_op \<Rightarrow> nat" where
  "ceiling_of (SetMax n) = n"
| "ceiling_of _ = 0"

lemma pq_step_ceiling:
  assumes "length (active q) \<le> M" and "max_concurrent q \<le> M" and "ceiling_of e \<le> M"
  shows "length (active (pq_step api q e)) \<le> M \<and> max_concurrent (pq_step api q e) \<le> M"
proof (cases e)
  case (Poll i p)
  show ?thesis
  proof (cases "acquire_poll api i p q")
    case None
    with Poll assms show ?thesis by simp
  next
    case (Some q')
    then have "length (active q') \<le> Suc (length (active q)) \<and> max_concurrent q' = max_concurrent q
      \<and> length (active q) < max_concurrent q"
      by (rule acquire_poll_Some) (simp add: length_update_le)
    with Poll Some assms show ?thesis by simp
  qed
next
  case (TryAcquire i p)
  show ?thesis
  proof (cases "try_acquire api i p q")
    case None
    with TryAcquire assms show ?thesis by simp
  next
    case (Some q')
    then have "length (active q') \<le> Suc (length (active q)) \<and> max_concurrent q' = max_concurrent q
      \<and> length (active q) < max_concurrent q"
      by (rule try_acquire_Some) (simp add: length_update_le)
    with TryAcquire Some assms show ?thesis by simp
  qed
next
  case (DropPermit i)
  then show ?thesis
    using assms length_delete_le [of i "active q"]
    by (simp add: permit_drop_def add_permits_def permit_leave_def)
next
  case (SetPriority i p)
  then show ?thesis
    using assms length_alist_update_old [of i "active q" p]
    by (auto simp: set_priority_def map_of_eq_None_iff)
qed (use assms in \<open>auto simp: acquire_enqueue_def pq_remove_def set_max_concurrent_def swap_ceiling_def add_permits_def Let_def\<close>)

text \<open>C13. Whatever downloads do, at most \<open>M\<close> are active as long as the ceiling was never set
  above \<open>M\<close>; no discipline of the callers is needed.\<close>

theorem ceiling_respected:
  assumes "n \<le> M" and "\<forall>e \<in> set es. ceiling_of e \<le> M"
  shows "active_count (run_ops (pq_step api) (pq_new api n) es) \<le> M"
proof -
  have "length (active q) \<le> M \<Longrightarrow> max_concurrent q \<le> M \<Longrightarrow>
    length (active (run_ops (pq_step api) q es)) \<le> M" for q
    using assms(2)
  proof (induction es arbitrary: q)
    case Nil
    then show ?case by simp
  next
    case (Cons e es)
    then show ?case
      using pq_step_ceiling [of q M e api] by simp
  qed
  from this [of "pq_new api n"] assms(1) show ?thesis
    by (simp add: pq_new_def active_count_def)
qed

lemma ceiling_respected_witness:
  "active_count (run_ops (pq_step counter_api) (pq_new counter_api 2)
     [SetMax 3, TryAcquire id_a Low, TryAcquire id_b Low]) \<le> 3"
  by (rule ceiling_respected) simp_all

subsection \<open>Queue positions\<close>

lemma position_of_unique:
  assumes "distinct (map f xs)" and "k < length xs"
  shows "position_of (\<lambda>x. f x = f (xs ! k)) xs = Some k"
  using assms
proof (induction xs arbitrary: k)
  case Nil
  then show ?case by simp
next
  case (Cons x xs)
  show ?case
  proof (cases k)
    case 0
    then show ?thesis by simp
  next
    case (Suc j)
    with Cons.prems have "f x \<noteq> f (xs ! j)" by (metis Suc_less_eq distinct.simps(2)
        image_eqI length_Cons list.simps(9) list.set_map nth_mem)
    with Cons Suc show ?thesis by simp
  qed
qed

text \<open>\<open>queue_position\<close> is the order of service: the download reported at position
  \<open>k + 1\<close> is the one that repeatedly serving the head of the queue serves after \<open>k\<close> others,
  and every waiting download has such a position.\<close>

theorem queue_position_is_service_order:
  assumes "semaphore_laws api avail"
    and "ops_ok (pq_step api) pq_guard (pq_new api n) es"
    and "q = run_ops (pq_step api) (pq_new api n) es"
  shows "queue_position i q = Some (Suc k) \<longleftrightarrow>
    k < waiting_count q \<and>
    qe_id (drain heap_peek heap_pop (waiting_count q) (waiting q) ! k) = i"
proof -
  have inv: "pq_inv avail q"
    unfolding assms(3) by (rule pq_run_keeps_inv [OF assms(1,2)])
  have eq: "drain heap_peek heap_pop (length (waiting q)) (waiting q) = sort_desc (waiting q)"
    using inv by (intro drain_eq_sort_desc) (simp add: pq_inv_def)
  have len: "length (sort_desc (waiting q)) = length (waiting q)"
    by (metis mset_sort_desc size_mset)
  have d: "distinct (map qe_id (sort_desc (waiting q)))"
    using inv by (metis mset_eq_imp_distinct_iff mset_map mset_sort_desc pq_inv_def)
  have dom: "map_of (waiting_priorities q) i = None \<longleftrightarrow> i \<notin> qe_id ` set (waiting q)"
    using inv by (simp only: pq_inv_def map_of_waiting_dom)
  show ?thesis
  proof
    assume "queue_position i q = Some (Suc k)"
    then have "position_of (\<lambda>e. qe_id e = i) (sort_desc (waiting q)) = Some k"
      by (auto simp: queue_position_def split: if_splits)
    from position_of_nth [OF this]
    show "k < waiting_count q \<and>
      qe_id (drain heap_peek heap_pop (waiting_count q) (waiting q) ! k) = i"
      by (simp add: waiting_count_def eq len)
  next
    assume k: "k < waiting_count q \<and>
      qe_id (drain heap_peek heap_pop (waiting_count q) (waiting q) ! k) = i"
    then have k': "k < length (sort_desc (waiting q))" "qe_id (sort_desc (waiting q) ! k) = i"
      by (simp_all add: waiting_count_def eq len)
    then have "i \<in> qe_id ` set (waiting q)"
      by (metis image_eqI nth_mem set_sort_desc)
    moreover have "position_of (\<lambda>e. qe_id e = i) (sort_desc (waiting q)) = Some k"
      using position_of_unique [OF d k'(1)] k'(2) by simp
    ultimately show "queue_position i q = Some (Suc k)"
      by (simp add: queue_position_def dom)
  qed
qed

lemma queue_position_witness:
  "queue_position id_b (run_ops (pq_step counter_api) (pq_new counter_api 1) two_waiting) = Some (Suc 0)
   \<and> queue_position id_a (run_ops (pq_step counter_api) (pq_new counter_api 1) two_waiting) = Some (Suc 1)"
  unfolding queue_position_is_service_order [OF counter_laws two_waiting_ok refl]
  by (simp add: pq_eval waiting_count_def numeral_2_eq_2)

section \<open>Wake-ups\<close>

text \<open>
  The tasks that use the queue and tokio's \<open>Notify\<close>. \<open>tasks\<close> holds the calls of \<open>acquire\<close> in progress;
  \<open>sleepers\<close> those whose last turn of the loop did not return and that have not been notified
  since. \<open>notify_waiters\<close> wakes every registered task (the code registers before it checks, so
  a notification after the check is not missed). Calls of several steps are counted by where they are:
  \<open>returning\<close> drops of a permit have left the active downloads but still hold it, \<open>adding\<close> lists the permits
  that calls of \<open>set_max_concurrent\<close> have still to add, and \<open>notifying\<close> calls have only the notification left. All
  steps interleave freely; a granted \<open>acquire\<close> does not notify.
\<close>

record 's pq_system =
  pq :: "'s priority_queue"
  tasks :: "(download_id \<times> download_priority) list"
  sleepers :: "download_id set"
  returning :: nat
  adding :: "nat list"
  notifying :: nat

inductive sys_step :: "'s semaphore_api \<Rightarrow> 's pq_system \<Rightarrow> 's pq_system \<Rightarrow> bool"
  for api :: "'s semaphore_api" where
  arrive: "pq_guard (pq s) (Enqueue i p) \<Longrightarrow>
    sys_step api s (s\<lparr>pq := acquire_enqueue i p (pq s), tasks := (i, p) # tasks s\<rparr>)"
| grant: "(i, p) \<in> set (tasks s) \<Longrightarrow> i \<notin> sleepers s \<Longrightarrow> acquire_poll api i p (pq s) = Some q' \<Longrightarrow>
    sys_step api s (s\<lparr>pq := q', tasks := remove1 (i, p) (tasks s)\<rparr>)"
| doze: "(i, p) \<in> set (tasks s) \<Longrightarrow> i \<notin> sleepers s \<Longrightarrow> i \<in> waiting_ids (pq s) \<Longrightarrow>
    acquire_poll api i p (pq s) = None \<Longrightarrow>
    sys_step api s (s\<lparr>sleepers := insert i (sleepers s)\<rparr>)"
| try_now: "pq_guard (pq s) (TryAcquire i p) \<Longrightarrow> try_acquire api i p (pq s) = Some q' \<Longrightarrow>
    sys_step api s (s\<lparr>pq := q'\<rparr>)"
| leave: "pq_guard (pq s) (DropPermit i) \<Longrightarrow>
    sys_step api s (s\<lparr>pq := permit_leave i (pq s), returning := Suc (returning s)\<rparr>)"
| give_back: "returning s = Suc k \<Longrightarrow>
    sys_step api s (s\<lparr>pq := add_permits api 1 (pq s), returning := k, notifying := Suc (notifying s)\<rparr>)"
| resize: "sys_step api s
    (if max_concurrent (pq s) < n
     then s\<lparr>pq := swap_ceiling n (pq s), adding := (n - max_concurrent (pq s)) # adding s\<rparr>
     else s\<lparr>pq := swap_ceiling n (pq s), notifying := Suc (notifying s)\<rparr>)"
| add: "k \<in> set (adding s) \<Longrightarrow>
    sys_step api s
      (s\<lparr>pq := add_permits api k (pq s), adding := remove1 k (adding s), notifying := Suc (notifying s)\<rparr>)"
| reprio: "set_priority i p (pq s) = (q', changed, notify) \<Longrightarrow>
    sys_step api s (s\<lparr>pq := q', notifying := (if notify then Suc (notifying s) else notifying s)\<rparr>)"
| abandon: "sys_step api s (s\<lparr>tasks := filter (\<lambda>t. fst t \<noteq> i) (tasks s), sleepers := sleepers s - {i}\<rparr>)"
| withdraw: "sys_step api s 
    (s\<lparr>pq := pq_remove i (pq s), sleepers := sleepers s - {i}, notifying := Suc (notifying s)\<rparr>)"
| notify: "notifying s = Suc k \<Longrightarrow> sys_step api s (s\<lparr>sleepers := {}, notifying := k\<rparr>)"

text \<open>A call that will still notify.\<close>

definition notice_due :: "'s pq_system \<Rightarrow> bool" where
  "notice_due s \<longleftrightarrow> 0 < returning s \<or> adding s \<noteq> [] \<or> 0 < notifying s"

definition sys_init :: "'s semaphore_api \<Rightarrow> nat \<Rightarrow> 's pq_system" where
  "sys_init api n =
    \<lparr>pq = pq_new api n, tasks = [], sleepers = {}, returning = 0, adding = [], notifying = 0\<rparr>"

text \<open>Reachability through states that all satisfy \<open>P\<close>.\<close>

inductive sys_reach ::
  "'s semaphore_api \<Rightarrow> ('s pq_system \<Rightarrow> bool) \<Rightarrow> 's pq_system \<Rightarrow> 's pq_system \<Rightarrow> bool"
  for api P s0 where
  sys_start: "P s0 \<Longrightarrow> sys_reach api P s0 s0"
| sys_next: "sys_reach api P s0 s \<Longrightarrow> sys_step api s t \<Longrightarrow> P t \<Longrightarrow> sys_reach api P s0 t"

text \<open>A slot is free for the download at the head of the queue, which sleeps.\<close>

definition stalled :: "'s pq_system \<Rightarrow> bool" where
  "stalled s \<longleftrightarrow> active_count (pq s) < max_concurrent (pq s) \<and>
    (\<exists>e. heap_peek (waiting (pq s)) = Some e \<and> qe_id e \<in> sleepers s)"

text \<open>Two downloads ask for the two slots of an idle queue; the second polls before the first.\<close>

definition stall_state :: "nat pq_system" where
  "stall_state =
    \<lparr>pq = \<lparr>semaphore = 1, max_concurrent = 2,
           waiting = [\<lparr>qe_id = id_b, qe_priority = Normal, qe_sequence = 1\<rparr>],
           active = [(id_a, Normal)], waiting_priorities = [(id_b, Normal)], pq_sequence = 2\<rparr>,
     tasks = [(id_b, Normal)], sleepers = {id_b}, returning = 0, adding = [], notifying = 0\<rparr>"

lemma stall_state_reachable: "sys_reach counter_api (\<lambda>_. True) (sys_init counter_api 2) stall_state"
proof -
  let ?ea = "\<lparr>qe_id = id_a, qe_priority = Normal, qe_sequence = 0\<rparr>"
  let ?eb = "\<lparr>qe_id = id_b, qe_priority = Normal, qe_sequence = 1\<rparr>"
  let ?q0 = "pq_new counter_api 2"
  let ?q1 = "acquire_enqueue id_a Normal ?q0"
  let ?q2 = "acquire_enqueue id_b Normal ?q1"
  let ?s0 = "sys_init counter_api 2"
  let ?s1 = "?s0\<lparr>pq := ?q1, tasks := [(id_a, Normal)]\<rparr>"
  let ?s2 = "?s1\<lparr>pq := ?q2, tasks := [(id_b, Normal), (id_a, Normal)]\<rparr>"
  let ?s3 = "?s2\<lparr>sleepers := {id_b}\<rparr>"
  note defs = sys_init_def pq_new_def acquire_enqueue_def waiting_ids_def counter_api_def
    acquire_poll_def outranks_iff heap_pop_def
  have r1: "sys_reach counter_api (\<lambda>_. True) ?s0 ?s1"
    using sys_next [OF sys_start arrive [of ?s0 id_a Normal]] by (simp add: defs)
  have r2: "sys_reach counter_api (\<lambda>_. True) ?s0 ?s2"
    using sys_next [OF r1 arrive [of ?s1 id_b Normal]] by (simp add: defs)
  have r3: "sys_reach counter_api (\<lambda>_. True) ?s0 ?s3"
    using sys_next [OF r2 doze [of id_b Normal ?s2]] by (simp add: defs)
  have g: "acquire_poll counter_api id_a Normal (pq ?s3) = Some (pq stall_state)"
    by (simp add: defs stall_state_def)
  have "?s3\<lparr>pq := pq stall_state, tasks := remove1 (id_a, Normal) (tasks ?s3)\<rparr> = stall_state"
    by (simp add: stall_state_def sys_init_def)
  with sys_next [OF r3 grant [of id_a Normal ?s3, OF _ _ g]] show ?thesis
    by (simp add: defs)
qed

text \<open>A wake-up can be lost: from an idle queue with two slots a state is reachable in
  which a slot is free, the download at the head sleeps, no task is left that could poll and no call that will
  notify, so the slot stays empty until some later call does.\<close>

theorem lost_wakeup_reachable:
  "\<exists>s. sys_reach counter_api (\<lambda>_. True) (sys_init counter_api 2) s \<and> stalled s \<and> \<not> notice_due s
     \<and> list_all (\<lambda>(i, p). i \<in> sleepers s) (tasks s)
     \<and> (\<exists>p q'. acquire_poll counter_api id_b p (pq s) = Some q')"
proof -
  have "stalled stall_state" "\<not> notice_due stall_state" "list_all (\<lambda>(i, p). i \<in> sleepers stall_state) (tasks stall_state)"
    by (simp_all add: stalled_def stall_state_def active_count_def notice_due_def)
  moreover have "\<exists>p q'. acquire_poll counter_api id_b p (pq stall_state) = Some q'"
    by (simp add: acquire_poll_def stall_state_def counter_api_def)
  ultimately show ?thesis using stall_state_reachable by blast
qed

text \<open>
  Below two slots no wake-up is lost. The invariant: the permits on their way count as permits of the semaphore,
  sleepers are waiting downloads, and a sleeping head means that the slots are taken or a notification is due.
\<close>

definition coming :: "'s pq_system \<Rightarrow> nat" where
  "coming s = returning s + sum_list (adding s)"

definition awake_inv :: "('s \<Rightarrow> nat) \<Rightarrow> 's pq_system \<Rightarrow> bool" where
  [inv_defs]: "awake_inv avail s \<longleftrightarrow>
    pq_inv (\<lambda>x. avail x + coming s) (pq s) \<and> sleepers s \<subseteq> waiting_ids (pq s) \<and>
    (\<forall>e. heap_peek (waiting (pq s)) = Some e \<longrightarrow> qe_id e \<in> sleepers s \<longrightarrow>
         max_concurrent (pq s) \<le> length (active (pq s)) \<or> notice_due s)"

text \<open>Once a notification is due, only the first two parts remain to be shown.\<close>

lemma awake_due:
  "pq_inv (\<lambda>x. avail x + coming t) (pq t) \<Longrightarrow> sleepers t \<subseteq> waiting_ids (pq t) \<Longrightarrow> notice_due t \<Longrightarrow> awake_inv avail t"
  by (simp add: awake_inv_def)

lemma set_priority_quiet:
  "set_priority i p q = (q', r, False) \<Longrightarrow>
    waiting q' = waiting q \<and> max_concurrent q' = max_concurrent q \<and> length (active q') = length (active q)"
  using length_alist_update_old [of i "active q" p]
  by (auto simp: set_priority_def map_of_eq_None_iff split: if_splits)

lemma update_nonempty: "AList.update k v al \<noteq> []"
  by (cases al) auto

lemma set_priority_ids: "waiting_ids (fst (set_priority i p q)) = waiting_ids q"
  by (simp add: set_priority_def waiting_ids_def image_image)

lemma sys_step_awake:
  assumes laws: "semaphore_laws api avail" and st: "sys_step api s t"
    and inv: "awake_inv avail s" and one: "max_concurrent (pq t) \<le> 1"
  shows "awake_inv avail t"
proof -
  note take = takes_one_plus [OF laws_take_one [OF laws], of "coming s"]
  have pinv: "pq_inv (\<lambda>x. avail x + coming s) (pq s)" and sub: "sleepers s \<subseteq> waiting_ids (pq s)"
    using inv by (simp_all add: awake_inv_def)
  show ?thesis
    using st
  proof cases
    case (arrive i p)
    then have "pq_inv (\<lambda>x. avail x + coming t) (pq t)"
      using pinv acquire_enqueue_inv [of _ "pq s" i p] by (simp add: coming_def del: pq_guard.simps)
    with arrive inv show ?thesis
      by (auto simp: awake_inv_def acquire_enqueue_def waiting_ids_def notice_due_def split: option.splits if_splits)
  next
    case (grant i p q')
    then have "pq_inv (\<lambda>x. avail x + coming t) (pq t)"
      using acquire_poll_inv [OF take pinv, of i p q'] by (simp add: coming_def)
    moreover from grant obtain e where e: "heap_peek (waiting (pq s)) = Some e" "qe_id e = i"
      and q': "waiting q' = heap_pop (waiting (pq s))" "active q' = AList.update i p (active (pq s))"
      by (metis acquire_poll_Some priority_queue.ext_inject priority_queue.surjective
          priority_queue.update_convs(1,3,4,5))
    moreover have "waiting_ids q' = waiting_ids (pq s) - {i}"
      using heap_peek_pop [OF e(1)] pinv e(2)
      by (auto simp: waiting_ids_def q' pq_inv_def)
    moreover have "1 \<le> length (active q')"
      using update_nonempty [of i p "active (pq s)"] by (simp add: q' Suc_le_eq)
    ultimately show ?thesis
      using grant sub one by (auto simp: awake_inv_def)
  next
    case (doze i p)
    have "max_concurrent (pq s) \<le> length (active (pq s)) \<or> notice_due s"
      if "heap_peek (waiting (pq s)) = Some e" and "qe_id e = i" for e
    proof (rule ccontr)
      assume no: "\<not> ?thesis"
      then have "coming s = 0" by (auto simp: coming_def notice_due_def)
      then obtain s' where "sem_try_acquire api (semaphore (pq s)) = Some s'"
        using semaphore_covers [OF laws, of "pq s"] pinv no by (auto simp: not_le)
      with doze(5) that no show False
        by (simp add: acquire_poll_def)
    qed
    with doze inv show ?thesis by (auto simp: awake_inv_def coming_def notice_due_def)
  next
    case (try_now i p q')
    then have "pq_inv (\<lambda>x. avail x + coming t) (pq t)"
      using try_acquire_inv [OF take pinv, of i p q'] by (simp add: coming_def del: pq_guard.simps)
    moreover obtain x where q': "q' = (pq s)\<lparr>semaphore := x, active := AList.update i p (active (pq s))\<rparr>"
      using try_now(3) by (rule try_acquire_Some)
    moreover have "1 \<le> length (active q')"
      using update_nonempty [of i p "active (pq s)"] by (simp add: q' Suc_le_eq)
    ultimately show ?thesis
      using try_now sub one by (auto simp: awake_inv_def waiting_ids_def)
  next
    case (leave i)
    then have "pq_inv (\<lambda>x. avail x + coming t) (pq t)"
      using permit_leave_inv [OF pinv, of i] by (simp add: coming_def del: pq_guard.simps)
    with leave sub show ?thesis
      by (intro awake_due) (simp_all add: notice_due_def permit_leave_def waiting_ids_def)
  next
    case (give_back k)
    then have "pq_inv (\<lambda>x. avail x + coming t) (pq t)"
      using add_permits_inv [OF laws, of 1 "coming t" "pq s"] pinv by (simp add: coming_def)
    with give_back sub show ?thesis
      by (intro awake_due) (simp_all add: notice_due_def add_permits_def waiting_ids_def)
  next
    case (resize n)
    then have "pq_inv (\<lambda>x. avail x + coming t) (pq t)"
      using swap_ceiling_inv [OF pinv, of n] by (simp add: coming_def add_ac split: if_splits)
    with resize sub show ?thesis
      by (intro awake_due) (auto simp: notice_due_def swap_ceiling_def waiting_ids_def split: if_splits)
  next
    case (add k)
    then have "sum_list (adding s) = k + sum_list (remove1 k (adding s))" by (simp add: sum_list_map_remove1 [of _ _ id, simplified])
    then have "pq_inv (\<lambda>x. avail x + coming t) (pq t)"
      using add_permits_inv [OF laws, of k "coming t" "pq s"] pinv add by (simp add: coming_def add_ac)
    with add sub show ?thesis
      by (intro awake_due) (simp_all add: notice_due_def add_permits_def waiting_ids_def)
  next
    case (reprio i p q' changed due)
    then show ?thesis
      using inv set_priority_inv [OF pinv, of i p] set_priority_quiet [of i p "pq s" q' changed]
        set_priority_ids [of i p "pq s"]
      by (cases due) (auto simp: awake_inv_def coming_def notice_due_def waiting_ids_def)
  next
    case (abandon i)
    then show ?thesis using inv by (auto simp: awake_inv_def coming_def notice_due_def)
  next
    case (withdraw i)
    then have "pq_inv (\<lambda>x. avail x + coming t) (pq t)"
      using pq_remove_inv [OF pinv, of i] by (simp add: coming_def)
    with withdraw sub show ?thesis
      by (intro awake_due) (auto simp: notice_due_def pq_remove_def waiting_ids_def)
  next
    case (notify k)
    then show ?thesis using pinv by (simp add: awake_inv_def coming_def)
  qed
qed

text \<open>C14. With a ceiling of at most one slot no wake-up is ever lost, however the steps of all calls
  interleave (a drop of a permit: leaving the active downloads, returning the permit, notifying; a change of the
  ceiling: swapping it, adding permits, notifying): in every state reachable under such ceilings, a slot that is
  free while the download at the head of the queue sleeps is one for which a notification is on its way.\<close>

theorem single_slot_never_stalls:
  assumes "semaphore_laws api avail"
    and "sys_reach api (\<lambda>s. max_concurrent (pq s) \<le> 1) (sys_init api n) s" and "stalled s"
  shows "notice_due s"
proof -
  have "awake_inv avail s"
    using assms(2)
  proof (induction rule: sys_reach.induct)
    case sys_start
    show ?case
      using pq_new_inv [OF assms(1)]
      by (simp add: awake_inv_def sys_init_def pq_new_def coming_def)
  next
    case (sys_next s t)
    then show ?case by (blast intro: sys_step_awake [OF assms(1)])
  qed
  then show ?thesis using assms(3) by (auto simp: awake_inv_def stalled_def active_count_def)
qed

text \<open>A download that sleeps behind the only slot, while the permit of the slot is on its way back.\<close>

definition handover :: "nat pq_system" where
  "handover =
    \<lparr>pq = \<lparr>semaphore = 0, max_concurrent = 1,
           waiting = [\<lparr>qe_id = id_b, qe_priority = Normal, qe_sequence = 1\<rparr>],
           active = [], waiting_priorities = [(id_b, Normal)], pq_sequence = 2\<rparr>,
     tasks = [(id_b, Normal)], sleepers = {id_b}, returning = 1, adding = [], notifying = 0\<rparr>"

lemma handover_reachable: "sys_reach counter_api (\<lambda>s. max_concurrent (pq s) \<le> 1) (sys_init counter_api 1) handover"
proof -
  let ?reach = "sys_reach counter_api (\<lambda>s. max_concurrent (pq s) \<le> 1) (sys_init counter_api 1)"
  let ?s0 = "sys_init counter_api 1"
  let ?q1 = "acquire_enqueue id_a Normal (pq_new counter_api 1)"
  let ?s1 = "?s0\<lparr>pq := ?q1, tasks := [(id_a, Normal)]\<rparr>"
  let ?q2 = "(pq_new counter_api 1)\<lparr>semaphore := 0, active := [(id_a, Normal)], pq_sequence := 1\<rparr>"
  let ?s2 = "?s0\<lparr>pq := ?q2\<rparr>"
  let ?q3 = "acquire_enqueue id_b Normal ?q2"
  let ?s3 = "?s0\<lparr>pq := ?q3, tasks := [(id_b, Normal)]\<rparr>"
  let ?s4 = "?s3\<lparr>sleepers := {id_b}\<rparr>"
  note defs = sys_init_def pq_new_def acquire_enqueue_def waiting_ids_def counter_api_def
    acquire_poll_def outranks_iff heap_pop_def
  have r1: "?reach ?s1" using sys_next [OF sys_start arrive [of ?s0 id_a Normal]] by (simp add: defs)
  have poll: "acquire_poll counter_api id_a Normal (pq ?s1) = Some ?q2" by (simp add: defs)
  have r2: "?reach ?s2" using sys_next [OF r1 grant [of id_a Normal ?s1, OF _ _ poll]] by (simp add: defs)
  have r3: "?reach ?s3" using sys_next [OF r2 arrive [of ?s2 id_b Normal]] by (simp add: defs)
  have r4: "?reach ?s4" using sys_next [OF r3 doze [of id_b Normal ?s3]] by (simp add: defs)
  have "?s4\<lparr>pq := permit_leave id_a (pq ?s4), returning := 1\<rparr> = handover"
    by (simp add: defs permit_leave_def handover_def)
  moreover have "pq_guard (pq ?s4) (DropPermit id_a)" by (simp add: defs)
  ultimately show ?thesis
    using sys_next [OF r4 leave [of ?s4 id_a]] by (simp add: sys_init_def handover_def pq_new_def)
qed

lemma single_slot_never_stalls_witness:
  "stalled handover \<and> notice_due handover"
proof -
  have "stalled handover" by (simp add: stalled_def handover_def active_count_def)
  then show ?thesis using single_slot_never_stalls [OF counter_laws handover_reachable] by simp
qed

section \<open>Priorities of active downloads\<close>

text \<open>A priority set while a download waits decides when it is served, but is forgotten
  when it is: the granted download is recorded with the priority \<open>acquire\<close> was called with,
  and \<open>get_priority\<close> then reports that one.\<close>

theorem grant_forgets_set_priority:
  assumes "map_of (waiting_priorities q) i \<noteq> None"
    and "acquire_poll api i p (fst (set_priority i p' q)) = Some q'"
    and "distinct (map fst (waiting_priorities q))"
  shows "get_priority i (fst (set_priority i p' q)) = Some p' \<and> get_priority i q' = Some p"
proof -
  have wp: "waiting_priorities (fst (set_priority i p' q)) = AList.update i p' (waiting_priorities q)"
    using assms(1) by (simp add: set_priority_def)
  from assms(2) show ?thesis
    by (rule acquire_poll_Some)
      (simp add: get_priority_def wp update_conv' delete_conv')
qed

lemma grant_forgets_set_priority_witness:
  "\<exists>q'. acquire_poll counter_api id_a Low
      (fst (set_priority id_a Critical (acquire_enqueue id_a Low (pq_new counter_api 1)))) = Some q'
    \<and> get_priority id_a q' = Some Low"
proof -
  let ?q = "acquire_enqueue id_a Low (pq_new counter_api 1)"
  obtain q' where q': "acquire_poll counter_api id_a Low (fst (set_priority id_a Critical ?q)) = Some q'"
    by (simp add: pq_eval set_priority_def reprioritise_def)
  have "map_of (waiting_priorities ?q) id_a \<noteq> None" "distinct (map fst (waiting_priorities ?q))"
    by (simp_all add: pq_eval)
  from grant_forgets_set_priority [OF this(1) q' this(2)] q' show ?thesis by blast
qed

end
