(* ===== verification/Bencode.thy ===== *)
theory Bencode
  imports Errors Codec "HOL-Library.Sublist"
begin

text \<open>
  The bencode parser and encoder of \<open>src/torrent/bencode.rs\<close>, and the extraction of the
  raw bytes of a torrent's \<open>info\<close> dictionary.

  A \<open>BTreeMap\<close> is the list of its entries in key order. The recursion of the parser is
  bounded by the depth it checks and each of its loops by the input it consumes; neither is
  visible in the arguments, so the definitions count fuel: \<open>parse_at_depth\<close> one unit for a
  level of nesting, a loop one unit for a turn, \<open>None\<close> for running out. \<open>parse_total\<close> shows
  that the fuel given is enough: no input makes the parser run out.
\<close>

section \<open>Values\<close>

datatype bencode =
    BInteger int
  | BBytes bytes
  | BList "bencode list"
  | BDict "(bytes \<times> bencode) list"

definition max_string_length :: nat where
  "max_string_length = 100 * 1024 * 1024"

definition max_parse_depth :: nat where
  "max_parse_depth = 64"

abbreviation bencode_err :: "string \<Rightarrow> engine_error" where
  "bencode_err m \<equiv> err_protocol BencodeParse m"

text \<open>\<open>BTreeMap::insert\<close> and \<open>get\<close>, on the ordered entries.\<close>

fun btree_insert :: "'k::linorder \<Rightarrow> 'v \<Rightarrow> ('k \<times> 'v) list \<Rightarrow> ('k \<times> 'v) list" where
  "btree_insert k v [] = [(k, v)]"
| "btree_insert k v ((k', v') # m) =
    (if k < k' then (k, v) # (k', v') # m
     else if k = k' then (k, v) # m
     else (k', v') # btree_insert k v m)"

section \<open>Parsing\<close>

definition parse_integer :: "bytes \<Rightarrow> (bencode \<times> bytes) result" where
  "parse_integer data =
    (if data = [] \<or> hd data \<noteq> byte_of CHR ''i'' then Inl (bencode_err ''Expected integer'')
     else case position_of (\<lambda>c. c = byte_of CHR ''e'') (tl data) of
       None \<Rightarrow> Inl (bencode_err ''Unterminated integer'')
     | Some k \<Rightarrow>
       (case from_utf8 (take k (tl data)) of
          None \<Rightarrow> Inl (bencode_err ''Invalid integer encoding'')
        | Some num_str \<Rightarrow>
          if 1 < length num_str \<and> take 1 num_str = ''0''
          then Inl (bencode_err ''Invalid integer: leading zero'')
          else if num_str = ''-0'' then Inl (bencode_err ''Invalid integer: negative zero'')
          else if take 2 num_str = ''-0'' \<and> 2 < length num_str
          then Inl (bencode_err ''Invalid integer: leading zero after minus'')
          else (case parse_signed (2 ^ 63) num_str of
                  None \<Rightarrow> Inl (bencode_err ''Integer parse error'')
                | Some v \<Rightarrow> Inr (BInteger v, drop (k + 2) data))))"

definition parse_bytes :: "bytes \<Rightarrow> (bytes \<times> bytes) result" where
  "parse_bytes data =
    (case position_of (\<lambda>c. c = byte_of CHR '':'') data of
       None \<Rightarrow> Inl (bencode_err ''Expected colon in string'')
     | Some colon \<Rightarrow>
       (case from_utf8 (take colon data) of
          None \<Rightarrow> Inl (bencode_err ''Invalid string length'')
        | Some len_str \<Rightarrow>
          (case parse_unsigned (2 ^ 64) len_str of
             None \<Rightarrow> Inl (bencode_err ''Invalid string length number'')
           | Some len \<Rightarrow>
             if max_string_length < len then Inl (bencode_err ''String length '')
             else if length data < colon + 1 + len then Inl (bencode_err ''String length '')
             else Inr (take len (drop (colon + 1) data), drop (colon + 1 + len) data))))"

type_synonym 'a parse_result = "('a \<times> bytes) result option"

text \<open>
  The loops of \<open>parse_list\<close> and \<open>parse_dict\<close>. \<open>p\<close> parses one value at the next depth; the
  first argument after it is the loop's fuel.
\<close>

fun list_loop ::
  "(bytes \<Rightarrow> bencode parse_result) \<Rightarrow> nat \<Rightarrow> bytes \<Rightarrow> bencode list \<Rightarrow> bencode list parse_result"
where
  "list_loop p 0 remaining items = None"
| "list_loop p (Suc n) remaining items =
    (if remaining = [] \<or> hd remaining = byte_of CHR ''e'' then Some (Inr (items, remaining))
     else case p remaining of
       None \<Rightarrow> None
     | Some (Inl e) \<Rightarrow> Some (Inl e)
     | Some (Inr (v, remaining')) \<Rightarrow> list_loop p n remaining' (items @ [v]))"

definition parse_list ::
  "(bytes \<Rightarrow> bencode parse_result) \<Rightarrow> bytes \<Rightarrow> bencode parse_result" where
  "parse_list p data =
    (if data = [] \<or> hd data \<noteq> byte_of CHR ''l'' then Some (Inl (bencode_err ''Expected list''))
     else case list_loop p (length data) (tl data) [] of
       None \<Rightarrow> None
     | Some (Inl e) \<Rightarrow> Some (Inl e)
     | Some (Inr (items, remaining)) \<Rightarrow>
         if remaining = [] then Some (Inl (bencode_err ''Unterminated list''))
         else Some (Inr (BList items, tl remaining)))"

fun dict_loop ::
  "(bytes \<Rightarrow> bencode parse_result) \<Rightarrow> nat \<Rightarrow> bytes \<Rightarrow> bytes option \<Rightarrow> (bytes \<times> bencode) list
    \<Rightarrow> (bytes \<times> bencode) list parse_result"
where
  "dict_loop p 0 remaining last_key items = None"
| "dict_loop p (Suc n) remaining last_key items =
    (if remaining = [] \<or> hd remaining = byte_of CHR ''e'' then Some (Inr (items, remaining))
     else case parse_bytes remaining of
       Inl e \<Rightarrow> Some (Inl e)
     | Inr (key, remaining1) \<Rightarrow>
       if (case last_key of None \<Rightarrow> False | Some lk \<Rightarrow> key \<le> lk)
       then Some (Inl (bencode_err ''Dict keys not in sorted order''))
       else case p remaining1 of
         None \<Rightarrow> None
       | Some (Inl e) \<Rightarrow> Some (Inl e)
       | Some (Inr (v, remaining2)) \<Rightarrow>
           dict_loop p n remaining2 (Some key) (btree_insert key v items))"

definition parse_dict ::
  "(bytes \<Rightarrow> bencode parse_result) \<Rightarrow> bytes \<Rightarrow> bencode parse_result" where
  "parse_dict p data =
    (if data = [] \<or> hd data \<noteq> byte_of CHR ''d'' then Some (Inl (bencode_err ''Expected dict''))
     else case dict_loop p (length data) (tl data) None [] of
       None \<Rightarrow> None
     | Some (Inl e) \<Rightarrow> Some (Inl e)
     | Some (Inr (items, remaining)) \<Rightarrow>
         if remaining = [] then Some (Inl (bencode_err ''Unterminated dict''))
         else Some (Inr (BDict items, tl remaining)))"

fun parse_at_depth :: "nat \<Rightarrow> bytes \<Rightarrow> nat \<Rightarrow> bencode parse_result" where
  "parse_at_depth 0 data depth = None"
| "parse_at_depth (Suc f) data depth =
    (if max_parse_depth < depth then Some (Inl (bencode_err ''Nesting depth exceeds maximum of ''))
     else case data of
       [] \<Rightarrow> Some (Inl (bencode_err ''Empty input''))
     | c # _ \<Rightarrow>
       if c = byte_of CHR ''i'' then Some (parse_integer data)
       else if c = byte_of CHR ''l''
       then parse_list (\<lambda>r. parse_at_depth f r (depth + 1)) data
       else if c = byte_of CHR ''d''
       then parse_dict (\<lambda>r. parse_at_depth f r (depth + 1)) data
       else if byte_of CHR ''0'' \<le> c \<and> c \<le> byte_of CHR ''9''
       then Some (map_sum id (apfst BBytes) (parse_bytes data))
       else Some (Inl (bencode_err ''Invalid bencode type marker: '')))"

declare parse_at_depth.simps(2) [simp del]

definition parse_fuel :: nat where
  "parse_fuel = max_parse_depth + 2"

definition parse :: "bytes \<Rightarrow> (bencode \<times> bytes) result" where
  "parse data =
    (case parse_at_depth parse_fuel data 0 of
       Some r \<Rightarrow> r
     | None \<Rightarrow> Inl (EInternal ''out of fuel''))"

definition parse_exact :: "bytes \<Rightarrow> bencode result" where
  "parse_exact data =
    rbind (parse data)
      (\<lambda>(v, remaining). if remaining \<noteq> [] then Inl (bencode_err ''Trailing data: '') else Inr v)"

section \<open>Encoding\<close>

definition encode_bytes :: "bytes \<Rightarrow> bytes" where
  "encode_bytes b = as_bytes (show_nat (length b)) @ [byte_of CHR '':''] @ b"

fun encode :: "bencode \<Rightarrow> bytes" where
  "encode (BInteger n) = [byte_of CHR ''i''] @ as_bytes (show_int n) @ [byte_of CHR ''e'']"
| "encode (BBytes b) = encode_bytes b"
| "encode (BList l) = [byte_of CHR ''l''] @ concat (map encode l) @ [byte_of CHR ''e'']"
| "encode (BDict d) =
    [byte_of CHR ''d''] @ concat (map (\<lambda>(k, v). encode_bytes k @ encode v) d) @ [byte_of CHR ''e'']"

section \<open>Accessors\<close>

fun as_string :: "bencode \<Rightarrow> string option" where
  "as_string (BBytes b) = from_utf8 b"
| "as_string _ = None"

fun as_int :: "bencode \<Rightarrow> int option" where
  "as_int (BInteger n) = Some n"
| "as_int _ = None"

fun as_uint :: "bencode \<Rightarrow> nat option" where
  "as_uint (BInteger n) = (if 0 \<le> n then Some (nat n) else None)"
| "as_uint _ = None"

fun as_raw :: "bencode \<Rightarrow> bytes option" where
  "as_raw (BBytes b) = Some b"
| "as_raw _ = None"

fun as_list :: "bencode \<Rightarrow> bencode list option" where
  "as_list (BList l) = Some l"
| "as_list _ = None"

fun as_dict :: "bencode \<Rightarrow> (bytes \<times> bencode) list option" where
  "as_dict (BDict d) = Some d"
| "as_dict _ = None"

fun bget_bytes :: "bencode \<Rightarrow> bytes \<Rightarrow> bencode option" where
  "bget_bytes (BDict d) key = map_of d key"
| "bget_bytes _ key = None"

definition bget :: "bencode \<Rightarrow> string \<Rightarrow> bencode option" where
  "bget v key = bget_bytes v (as_bytes key)"

fun is_dict :: "bencode \<Rightarrow> bool" where
  "is_dict (BDict _) = True"
| "is_dict _ = False"

fun is_list :: "bencode \<Rightarrow> bool" where
  "is_list (BList _) = True"
| "is_list _ = False"

fun is_bytes :: "bencode \<Rightarrow> bool" where
  "is_bytes (BBytes _) = True"
| "is_bytes _ = False"

fun is_int :: "bencode \<Rightarrow> bool" where
  "is_int (BInteger _) = True"
| "is_int _ = False"

section \<open>The parser consumes and terminates\<close>

lemma strict_suffix_drop: "0 < k \<Longrightarrow> xs \<noteq> [] \<Longrightarrow> strict_suffix (drop k xs) xs"
  by (auto simp: strict_suffix_def suffix_drop)
    (metis diff_less length_drop length_greater_0_conv less_irrefl)

lemma strict_suffix_tl: "xs \<noteq> [] \<Longrightarrow> strict_suffix (tl xs) xs"
  by (cases xs) (auto simp: strict_suffix_def suffix_def)

lemma strict_suffix_length: "strict_suffix r d \<Longrightarrow> length r < length d"
  by (auto simp: strict_suffix_def suffix_def)

lemma parse_bytes_Inr:
  assumes "parse_bytes data = Inr (b, r)"
  shows "\<exists>pre. data = pre @ b @ r \<and> pre \<noteq> [] \<and> length b \<le> max_string_length"
proof -
  have "\<exists>k n. n \<le> max_string_length \<and> k + 1 + n \<le> length data \<and>
    b = take n (drop (k + 1) data) \<and> r = drop (k + 1 + n) data"
    using assms by (force simp: parse_bytes_def not_less split: option.splits if_splits)
  then obtain k n where n: "n \<le> max_string_length" "k + 1 + n \<le> length data"
    and b: "b = take n (drop (k + 1) data)" and r: "r = drop (k + 1 + n) data"
    by blast
  have "data = take (k + 1) data @ drop (k + 1) data" by simp
  also have "drop (k + 1) data = b @ r"
    unfolding b r by (metis add.commute append_take_drop_id drop_drop)
  finally have "data = take (k + 1) data @ b @ r" .
  moreover have "take (k + 1) data \<noteq> []" using n by auto
  moreover have "length b \<le> max_string_length" using n b by simp
  ultimately show ?thesis by blast
qed

lemma parse_bytes_suffix: "parse_bytes data = Inr (b, r) \<Longrightarrow> strict_suffix r data"
  by (drule parse_bytes_Inr) (auto simp: strict_suffix_def suffix_def)

lemma parse_integer_suffix: "parse_integer data = Inr (v, r) \<Longrightarrow> strict_suffix r data"
  by (auto simp: parse_integer_def intro!: strict_suffix_drop split: option.splits if_splits)

definition consuming :: "(bytes \<Rightarrow> 'a parse_result) \<Rightarrow> bool" where
  "consuming p \<longleftrightarrow> (\<forall>d v r. p d = Some (Inr (v, r)) \<longrightarrow> strict_suffix r d)"

lemma list_loop_suffix:
  "consuming p \<Longrightarrow> list_loop p n rem items = Some (Inr (items', r)) \<Longrightarrow> suffix r rem"
proof (induction n arbitrary: rem items)
  case 0
  then show ?case by simp
next
  case (Suc n)
  then show ?case
    by (fastforce simp: consuming_def strict_suffix_def split: if_splits option.splits sum.splits
        intro: suffix_order.trans)
qed

lemma dict_loop_suffix:
  "consuming p \<Longrightarrow> dict_loop p n rem lk items = Some (Inr (items', r)) \<Longrightarrow> suffix r rem"
proof (induction n arbitrary: rem lk items)
  case 0
  then show ?case by simp
next
  case (Suc n)
  show ?case
  proof (cases "rem = [] \<or> hd rem = byte_of CHR ''e''")
    case True
    with Suc.prems show ?thesis by simp
  next
    case False
    with Suc.prems obtain k r1 v r2 where k: "parse_bytes rem = Inr (k, r1)"
      and v: "p r1 = Some (Inr (v, r2))"
      and l: "dict_loop p n r2 (Some k) (btree_insert k v items) = Some (Inr (items', r))"
      by (auto split: if_splits option.splits sum.splits)
    have "suffix r r2" by (rule Suc.IH [OF Suc.prems(1) l])
    moreover have "suffix r2 r1" using Suc.prems(1) v by (auto simp: consuming_def strict_suffix_def)
    moreover have "suffix r1 rem" using parse_bytes_suffix [OF k] by (simp add: strict_suffix_def)
    ultimately show ?thesis by (metis suffix_order.trans)
  qed
qed

lemma parse_list_suffix:
  assumes "consuming p" and "parse_list p data = Some (Inr (v, r))"
  shows "strict_suffix r data"
proof -
  from assms(2) obtain items rem where d: "data \<noteq> []" and "rem \<noteq> []" and r: "r = tl rem"
    and l: "list_loop p (length data) (tl data) [] = Some (Inr (items, rem))"
    by (auto simp: parse_list_def split: if_splits option.splits sum.splits)
  have "strict_suffix r rem" using r \<open>rem \<noteq> []\<close> by (simp add: strict_suffix_tl)
  moreover have "suffix rem (tl data)" by (rule list_loop_suffix [OF assms(1) l])
  ultimately have "strict_suffix r (tl data)" by (rule suffix_order.less_le_trans)
  then show ?thesis using strict_suffix_tl [OF d] by (rule suffix_order.less_trans)
qed

lemma parse_dict_suffix:
  assumes "consuming p" and "parse_dict p data = Some (Inr (v, r))"
  shows "strict_suffix r data"
proof -
  from assms(2) obtain items rem where d: "data \<noteq> []" and "rem \<noteq> []" and r: "r = tl rem"
    and l: "dict_loop p (length data) (tl data) None [] = Some (Inr (items, rem))"
    by (auto simp: parse_dict_def split: if_splits option.splits sum.splits)
  have "strict_suffix r rem" using r \<open>rem \<noteq> []\<close> by (simp add: strict_suffix_tl)
  moreover have "suffix rem (tl data)" by (rule dict_loop_suffix [OF assms(1) l])
  ultimately have "strict_suffix r (tl data)" by (rule suffix_order.less_le_trans)
  then show ?thesis using strict_suffix_tl [OF d] by (rule suffix_order.less_trans)
qed

lemma parse_at_depth_suffix:
  "parse_at_depth f data depth = Some (Inr (v, r)) \<Longrightarrow> strict_suffix r data"
proof (induction f arbitrary: data depth v r)
  case 0
  then show ?case by simp
next
  case (Suc f)
  have c: "consuming (\<lambda>r. parse_at_depth f r (depth + 1))"
    using Suc.IH by (auto simp: consuming_def)
  show ?case
    using Suc.prems
    by (auto simp: parse_at_depth.simps(2) split: if_splits list.splits sum.splits
        intro: parse_integer_suffix parse_list_suffix [OF c] parse_dict_suffix [OF c])
      (auto simp: map_sum_def apfst_def map_prod_def split: sum.splits dest: parse_bytes_suffix)
qed

lemma consuming_parse: "consuming (\<lambda>r. parse_at_depth f r d)"
  by (auto simp: consuming_def intro: parse_at_depth_suffix)

lemma list_loop_total:
  assumes "consuming p" and "\<And>d. p d \<noteq> None" and "length rem < n"
  shows "list_loop p n rem items \<noteq> None"
  using assms(3)
proof (induction n arbitrary: rem items)
  case 0
  then show ?case by simp
next
  case (Suc n)
  obtain x where x: "p rem = Some x" using assms(2) [of rem] by auto
  have "length r < n" if "x = Inr (v, r)" for v r
    using that x assms(1) Suc.prems strict_suffix_length [of r rem] by (fastforce simp: consuming_def)
  with x Suc.IH show ?case by (auto split: sum.splits)
qed

lemma dict_loop_total:
  assumes "consuming p" and "\<And>d. p d \<noteq> None" and "length rem < n"
  shows "dict_loop p n rem lk items \<noteq> None"
  using assms(3)
proof (induction n arbitrary: rem lk items)
  case 0
  then show ?case by simp
next
  case (Suc n)
  have "dict_loop p n r2 (Some k) m \<noteq> None"
    if "parse_bytes rem = Inr (k, r1)" and "p r1 = Some (Inr (v, r2))" for k r1 v r2 m
  proof -
    have "length r2 < length r1"
      using that(2) assms(1) by (auto simp: consuming_def intro: strict_suffix_length)
    moreover have "length r1 < length rem"
      using that(1) by (intro strict_suffix_length parse_bytes_suffix)
    ultimately show ?thesis using Suc by simp
  qed
  moreover have "p d \<noteq> None \<longleftrightarrow> True" for d using assms(2) by simp
  ultimately show ?case by (auto split: sum.splits option.splits prod.splits simp del: not_None_eq)
qed

lemma parse_at_depth_total:
  "0 < f \<Longrightarrow> max_parse_depth + 2 \<le> f + depth \<Longrightarrow> parse_at_depth f data depth \<noteq> None"
proof (induction f arbitrary: data depth)
  case 0
  then show ?case by simp
next
  case (Suc f)
  show ?case
  proof (cases "max_parse_depth < depth")
    case True
    then show ?thesis by (simp add: parse_at_depth.simps(2))
  next
    case False
    let ?p = "\<lambda>r. parse_at_depth f r (depth + 1)"
    have "0 < f" using False Suc.prems by linarith
    then have p: "?p d \<noteq> None" for d using Suc by simp
    have "parse_list ?p data \<noteq> None"
      using list_loop_total [OF consuming_parse p, of "tl data" "length data" "[]"]
      by (cases data) (auto simp: parse_list_def split: sum.splits)
    moreover have "parse_dict ?p data \<noteq> None"
      using dict_loop_total [OF consuming_parse p, of "tl data" "length data" None "[]"]
      by (cases data) (auto simp: parse_dict_def split: sum.splits)
    ultimately show ?thesis
      by (auto simp: parse_at_depth.simps(2) split: list.splits)
  qed
qed

lemma parse_total: "parse_at_depth parse_fuel data 0 \<noteq> None"
  by (rule parse_at_depth_total) (simp_all add: parse_fuel_def)

lemma parse_eq: "parse data = r \<longleftrightarrow> parse_at_depth parse_fuel data 0 = Some r"
  using parse_total [of data] by (auto simp: parse_def)

section \<open>Round trip\<close>

text \<open>
  The values the parser can represent: \<open>i64\<close> integers, strings up to the limit, and
  dictionaries in strict key order; and the nesting depth it counts.
\<close>

fun wf_bencode :: "bencode \<Rightarrow> bool" where
  "wf_bencode (BInteger i) \<longleftrightarrow> - (2 ^ 63) \<le> i \<and> i < 2 ^ 63"
| "wf_bencode (BBytes b) \<longleftrightarrow> length b \<le> max_string_length"
| "wf_bencode (BList l) \<longleftrightarrow> (\<forall>v \<in> set l. wf_bencode v)"
| "wf_bencode (BDict d) \<longleftrightarrow> sorted_wrt (<) (map fst d) \<and>
     (\<forall>e \<in> set d. length (fst e) \<le> max_string_length \<and> wf_bencode (snd e))"

fun max_list :: "nat list \<Rightarrow> nat" where
  "max_list [] = 0"
| "max_list (x # xs) = max x (max_list xs)"

fun nesting :: "bencode \<Rightarrow> nat" where
  "nesting (BInteger i) = 0"
| "nesting (BBytes b) = 0"
| "nesting (BList l) = max_list (map (\<lambda>v. Suc (nesting v)) l)"
| "nesting (BDict d) = max_list (map (\<lambda>e. Suc (nesting (snd e))) d)"

lemma max_list_ge: "x \<in> set xs \<Longrightarrow> x \<le> max_list xs"
  by (induction xs) auto

lemma max_list_le_iff: "max_list xs \<le> n \<longleftrightarrow> (\<forall>x \<in> set xs. x \<le> n)"
  by (induction xs) auto

lemma digits_no_colon [simp]: "CHR '':'' \<notin> set (show_nat n)"
  by (rule show_nat_non_digit) (simp add: is_digit_def)

lemma parse_bytes_encode_bytes [codec]:
  assumes "length b \<le> max_string_length"
  shows "parse_bytes (encode_bytes b @ r) = Inr (b, r)"
proof -
  let ?n = "as_bytes (show_nat (length b))"
  have p: "position_of (\<lambda>c. c = byte_of CHR '':'') (encode_bytes b @ r) = Some (length ?n)"
    unfolding encode_bytes_def append_assoc append_Cons append_Nil
    by (rule position_of_append) auto
  have "length b < 2 ^ 64"
    using assms by (simp add: max_string_length_def)
  then show ?thesis
    unfolding parse_bytes_def p using assms by (simp add: encode_bytes_def)
qed

lemma show_int_no_e [simp]: "CHR ''e'' \<notin> set (show_int i)"
proof -
  have "CHR ''e'' \<notin> set (show_nat n)" for n
    by (rule show_nat_non_digit) (simp add: is_digit_def)
  then show ?thesis by (simp add: show_int_def)
qed

lemma show_int_ascii [simp]: "is_ascii (show_int i)"
  by (simp add: show_int_def) (simp add: byte_of_def)

lemma take_1_hd: "s \<noteq> [] \<Longrightarrow> take (Suc 0) s = [c] \<longleftrightarrow> hd s = c"
  by (cases s) auto

lemma parse_signed_show_int [simp, codec]:
  "- int b \<le> i \<Longrightarrow> i < int b \<Longrightarrow> parse_signed b (show_int i) = Some i"
proof (cases "i < 0")
  case True
  assume "- int b \<le> i"
  obtain c s where s: "show_nat (nat (- i)) = c # s" by (cases "show_nat (nat (- i))") auto
  from s have "parse_dec (c # s) = Some (nat (- i))" by (metis parse_dec_show_nat)
  with True \<open>- int b \<le> i\<close> s show ?thesis
    by (simp add: parse_signed_def show_int_def)
next
  case False
  assume "i < int b"
  with False have "parse_dec (strip_plus (show_nat (nat i))) = Some (nat i)" "nat i < b" by auto
  moreover have "hd (show_nat (nat i)) \<noteq> CHR ''-''"
    using hd_show_nat_digit [of "nat i"] by (auto simp: is_digit_def)
  moreover have "strip_plus (show_nat (nat i)) = show_nat (nat i)" by simp
  ultimately show ?thesis
    using False by (cases "show_nat (nat i)") (auto simp: parse_signed_def show_int_def split: list.splits)
qed

lemma show_int_canonical:
  "\<not> (1 < length (show_int i) \<and> take 1 (show_int i) = ''0'')"
  "show_int i \<noteq> ''-0''"
  "\<not> (take 2 (show_int i) = ''-0'' \<and> 2 < length (show_int i))"
proof -
  show "\<not> (1 < length (show_int i) \<and> take 1 (show_int i) = ''0'')"
    using hd_show_nat_0 [of "nat i"] show_nat_long [of "nat i"]
    by (auto simp: show_int_def take_1_hd)
  have neg: "hd (show_nat (nat (- i))) \<noteq> CHR ''0''" if "i < 0"
    using that hd_show_nat_0 [of "nat (- i)"] by simp
  have pos: "hd (show_nat (nat i)) \<noteq> CHR ''-''"
    using hd_show_nat_digit [of "nat i"] by (auto simp: is_digit_def)
  show "show_int i \<noteq> ''-0''"
    using neg pos by (auto simp: show_int_def)
  show "\<not> (take 2 (show_int i) = ''-0'' \<and> 2 < length (show_int i))"
    using neg pos
    by (auto simp: show_int_def numeral_2_eq_2 take_Suc split: if_splits)
qed

lemma parse_integer_encode:
  assumes "- (2 ^ 63) \<le> i" and "i < 2 ^ 63"
  shows "parse_integer (encode (BInteger i) @ r) = Inr (BInteger i, r)"
proof -
  have p: "position_of (\<lambda>c. c = byte_of CHR ''e'') (as_bytes (show_int i) @ byte_of CHR ''e'' # r)
      = Some (length (show_int i))"
    by (subst position_of_append) auto
  have v: "parse_signed (2 ^ 63) (show_int i) = Some i"
    using assms by (intro parse_signed_show_int) auto
  show ?thesis
    unfolding parse_integer_def
    using show_int_canonical [of i] p v by simp
qed

lemma encode_bytes_hd:
  "\<exists>c s. encode_bytes b = c # s \<and> byte_of CHR ''0'' \<le> c \<and> c \<le> byte_of CHR ''9''"
proof -
  obtain c s where s: "show_nat (length b) = c # s" by (cases "show_nat (length b)") auto
  then have "is_digit c" using hd_show_nat_digit [of "length b"] by simp
  then have "byte_of CHR ''0'' \<le> byte_of c \<and> byte_of c \<le> byte_of CHR ''9''"
    by (simp add: is_digit_def less_eq_char_def word_le_nat_alt unat_byte_of)
  with s show ?thesis by (simp add: encode_bytes_def)
qed

lemma encode_hd: "\<exists>c s. encode v = c # s \<and> c \<noteq> byte_of CHR ''e''"
proof (cases v)
  case (BBytes b)
  with encode_bytes_hd [of b] show ?thesis by (auto simp: byte_of_def)
qed auto

lemma encode_nonempty [simp]: "encode v \<noteq> []"
  using encode_hd [of v] by auto

lemma encode_hd_not_e: "hd (encode v @ r) \<noteq> byte_of CHR ''e''"
  using encode_hd [of v] by auto

lemma list_loop_encode:
  assumes "\<And>v r. v \<in> set l \<Longrightarrow> p (encode v @ r) = Some (Inr (v, r))" and "length l < n"
  shows "list_loop p n (concat (map encode l) @ byte_of CHR ''e'' # r) items =
    Some (Inr (items @ l, byte_of CHR ''e'' # r))"
  using assms
proof (induction l arbitrary: n items)
  case Nil
  then show ?case by (cases n) auto
next
  case (Cons v l)
  then obtain m where m: "n = Suc m" "length l < m" by (cases n) auto
  have "p (encode v @ concat (map encode l) @ byte_of CHR ''e'' # r) =
    Some (Inr (v, concat (map encode l) @ byte_of CHR ''e'' # r))"
    by (rule Cons.prems) simp
  moreover have "hd (encode v @ concat (map encode l) @ byte_of CHR ''e'' # r) \<noteq> byte_of CHR ''e''"
    by (rule encode_hd_not_e)
  ultimately show ?case
    using Cons.IH [of m "items @ [v]"] Cons.prems(1) m by (simp del: hd_append2)
qed

lemma btree_insert_last:
  "\<forall>k' \<in> set (map fst m). k' < k \<Longrightarrow> btree_insert k v m = m @ [(k, v)]"
  by (induction m) auto

lemma dict_loop_encode:
  assumes "\<And>e r. e \<in> set d \<Longrightarrow> p (encode (snd e) @ r) = Some (Inr (snd e, r))"
    and "\<And>e. e \<in> set d \<Longrightarrow> length (fst e) \<le> max_string_length" and "length d < n"
    and "sorted_wrt (<) (map fst (items @ d))"
    and "case lk of None \<Rightarrow> True | Some k \<Rightarrow> \<forall>e \<in> set d. k < fst e"
  shows "dict_loop p n (concat (map (\<lambda>(k, v). encode_bytes k @ encode v) d) @ byte_of CHR ''e'' # r)
      lk items = Some (Inr (items @ d, byte_of CHR ''e'' # r))"
  using assms
proof (induction d arbitrary: n lk items)
  case Nil
  then show ?case by (cases n) auto
next
  case (Cons e d)
  obtain k v where e: "e = (k, v)" by (cases e)
  let ?rest = "concat (map (\<lambda>(k, v). encode_bytes k @ encode v) d) @ byte_of CHR ''e'' # r"
  from Cons.prems(3) obtain m where m: "n = Suc m" "length d < m" by (cases n) auto
  have key: "parse_bytes (encode_bytes k @ encode v @ ?rest) = Inr (k, encode v @ ?rest)"
    using Cons.prems(2) [of e] e by (simp add: parse_bytes_encode_bytes)
  have val: "p (encode v @ ?rest) = Some (Inr (v, ?rest))"
    using Cons.prems(1) [of e ?rest] e by simp
  have ins: "btree_insert k v items = items @ [(k, v)]"
    using Cons.prems(4) e by (intro btree_insert_last) (auto simp: sorted_wrt_append)
  have order: "\<not> (case lk of None \<Rightarrow> False | Some l \<Rightarrow> k \<le> l)"
    using Cons.prems(5) e by (auto split: option.splits)
  have hd: "hd (encode_bytes k @ s) \<noteq> byte_of CHR ''e''" for s
    using encode_bytes_hd [of k] by (auto simp: byte_of_def)
  have ne: "encode_bytes k \<noteq> []" using encode_bytes_hd [of k] by auto
  have "dict_loop p m ?rest (Some k) (items @ [(k, v)]) =
    Some (Inr ((items @ [(k, v)]) @ d, byte_of CHR ''e'' # r))"
  proof (rule Cons.IH)
    show "sorted_wrt (<) (map fst ((items @ [(k, v)]) @ d))" using Cons.prems(4) e by simp
    show "case Some k of None \<Rightarrow> True | Some k \<Rightarrow> \<forall>e \<in> set d. k < fst e"
      using Cons.prems(4) e by (auto simp: sorted_wrt_append)
  qed (use Cons.prems m in auto)
  with key val ins order hd ne m show ?case by (simp add: e)
qed

lemma length_concat_ge: "(\<And>x. x \<in> set xs \<Longrightarrow> f x \<noteq> []) \<Longrightarrow> length xs \<le> length (concat (map f xs))"
proof (induction xs)
  case Nil
  then show ?case by simp
next
  case (Cons x xs)
  then have "0 < length (f x)" and "length xs \<le> length (concat (map f xs))" by simp_all
  then have "Suc (length xs) \<le> length (f x) + length (concat (map f xs))" by linarith
  then show ?case by simp
qed

lemma parse_at_depth_encode:
  assumes "wf_bencode v" and "nesting v < f" and "depth + nesting v \<le> max_parse_depth"
  shows "parse_at_depth f (encode v @ r) depth = Some (Inr (v, r))"
  using assms
proof (induction v arbitrary: f depth r)
  case (BInteger i)
  then show ?case
    using parse_integer_encode [of i r] by (cases f) (auto simp: parse_at_depth.simps(2))
next
  case (BBytes b)
  obtain c s where c: "encode_bytes b = c # s" "byte_of CHR ''0'' \<le> c" "c \<le> byte_of CHR ''9''"
    using encode_bytes_hd [of b] by blast
  then have "c \<noteq> byte_of CHR ''i''" "c \<noteq> byte_of CHR ''l''" "c \<noteq> byte_of CHR ''d''"
    by (auto simp: byte_of_def)
  moreover have "parse_bytes (c # s @ r) = Inr (b, r)"
    using parse_bytes_encode_bytes [of b r] BBytes.prems(1) c(1) by simp
  ultimately show ?case
    using BBytes.prems c by (cases f) (auto simp: parse_at_depth.simps(2))
next
  case (BList l)
  obtain g where f: "f = Suc g" using BList.prems by (cases f) auto
  let ?p = "\<lambda>r. parse_at_depth g r (depth + 1)"
  have le: "Suc (nesting v) \<le> nesting (BList l)" if "v \<in> set l" for v
    using that by (auto intro: max_list_ge)
  have p: "?p (encode v @ r) = Some (Inr (v, r))" if "v \<in> set l" for v r
    using BList.IH [OF that, of g "depth + 1" r] BList.prems le [OF that] that f by auto
  have "list_loop ?p (length (encode (BList l) @ r)) (concat (map encode l) @ byte_of CHR ''e'' # r) []
    = Some (Inr ([] @ l, byte_of CHR ''e'' # r))"
    using length_concat_ge [of l encode] by (intro list_loop_encode p) auto
  then show ?case
    using BList.prems f by (auto simp: parse_at_depth.simps(2) parse_list_def byte_of_def)
next
  case (BDict d)
  obtain g where f: "f = Suc g" using BDict.prems by (cases f) auto
  let ?p = "\<lambda>r. parse_at_depth g r (depth + 1)"
  let ?enc = "\<lambda>(k, v). encode_bytes k @ encode v"
  have le: "Suc (nesting (snd e)) \<le> nesting (BDict d)" if "e \<in> set d" for e
    using that by (auto intro: max_list_ge)
  have p: "?p (encode (snd e) @ r) = Some (Inr (snd e, r))" if "e \<in> set d" for e r
    using BDict.IH [OF that, of "snd e" g "depth + 1" r] BDict.prems le [OF that] that f
    by (cases e) auto
  have "dict_loop ?p (length (encode (BDict d) @ r)) (concat (map ?enc d) @ byte_of CHR ''e'' # r)
      None [] = Some (Inr ([] @ d, byte_of CHR ''e'' # r))"
    using length_concat_ge [of d ?enc] BDict.prems(1) by (intro dict_loop_encode p) auto
  then show ?case
    using BDict.prems f by (auto simp: parse_at_depth.simps(2) parse_dict_def byte_of_def)
qed

definition encodable :: "bencode \<Rightarrow> bool" where
  "encodable v \<longleftrightarrow> wf_bencode v \<and> nesting v \<le> max_parse_depth"

lemma parse_encode: "encodable v \<Longrightarrow> parse (encode v @ r) = Inr (v, r)"
  by (simp add: encodable_def parse_eq parse_fuel_def parse_at_depth_encode)

fun ok_option :: "'e + 'a \<Rightarrow> 'a option" where
  "ok_option (Inl e) = None"
| "ok_option (Inr x) = Some x"

interpretation bencode_codec: prefix_codec encode "\<lambda>d. ok_option (parse d)" encodable
  by unfold_locales (simp add: parse_encode)

section \<open>What the parser returns\<close>

definition yields :: "(bytes \<Rightarrow> bencode parse_result) \<Rightarrow> (bencode \<Rightarrow> bool) \<Rightarrow> bool" where
  "yields p Q \<longleftrightarrow> (\<forall>d v r. p d = Some (Inr (v, r)) \<longrightarrow> Q v)"

lemma list_loop_yields:
  "yields p Q \<Longrightarrow> list_loop p n rem items = Some (Inr (items', r)) \<Longrightarrow>
    \<forall>v \<in> set items. Q v \<Longrightarrow> \<forall>v \<in> set items'. Q v"
proof (induction n arbitrary: rem items)
  case 0
  then show ?case by simp
next
  case (Suc n)
  show ?case
  proof (cases "rem = [] \<or> hd rem = byte_of CHR ''e''")
    case True
    with Suc.prems show ?thesis by simp
  next
    case False
    with Suc.prems obtain v r1 where v: "p rem = Some (Inr (v, r1))"
      and l: "list_loop p n r1 (items @ [v]) = Some (Inr (items', r))"
      by (auto split: option.splits sum.splits)
    have "Q v" using Suc.prems(1) v by (auto simp: yields_def)
    with Suc.IH [OF Suc.prems(1) l] Suc.prems(3) show ?thesis by auto
  qed
qed

definition dict_ok :: "(bencode \<Rightarrow> bool) \<Rightarrow> (bytes \<times> bencode) list \<Rightarrow> bool" where
  "dict_ok Q d \<longleftrightarrow> sorted_wrt (<) (map fst d) \<and>
    (\<forall>e \<in> set d. length (fst e) \<le> max_string_length \<and> Q (snd e))"

lemma dict_loop_yields:
  assumes "yields p Q" and "dict_loop p n rem lk items = Some (Inr (items', r))" and "dict_ok Q items"
    and "\<forall>e \<in> set items. case lk of None \<Rightarrow> False | Some k \<Rightarrow> fst e \<le> k"
  shows "dict_ok Q items'"
  using assms(2-)
proof (induction n arbitrary: rem lk items)
  case 0
  then show ?case by simp
next
  case (Suc n)
  show ?case
  proof (cases "rem = [] \<or> hd rem = byte_of CHR ''e''")
    case True
    with Suc.prems show ?thesis by simp
  next
    case False
    with Suc.prems obtain k r1 v r2 where k: "parse_bytes rem = Inr (k, r1)"
      and lk: "\<not> (case lk of None \<Rightarrow> False | Some l \<Rightarrow> k \<le> l)"
      and v: "p r1 = Some (Inr (v, r2))"
      and l: "dict_loop p n r2 (Some k) (btree_insert k v items) = Some (Inr (items', r))"
      by (auto split: if_splits option.splits sum.splits)
    have below: "\<forall>e \<in> set items. fst e < k"
      using Suc.prems(3) lk by (fastforce split: option.splits)
    then have ins: "btree_insert k v items = items @ [(k, v)]"
      by (intro btree_insert_last) auto
    have "length k \<le> max_string_length" using parse_bytes_Inr [OF k] by blast
    moreover have "Q v" using assms(1) v by (auto simp: yields_def)
    ultimately have "dict_ok Q (items @ [(k, v)])"
      using Suc.prems(2) below by (auto simp: dict_ok_def sorted_wrt_append)
    with Suc.IH [OF l] below show ?thesis by (fastforce simp: ins intro: less_imp_le)
  qed
qed

lemma parse_integer_wf: "parse_integer data = Inr (v, r) \<Longrightarrow> wf_bencode v \<and> nesting v = 0"
  by (auto simp: parse_integer_def split: option.splits if_splits dest!: parse_signed_range)

lemma parse_at_depth_wf:
  "parse_at_depth f data depth = Some (Inr (v, r)) \<Longrightarrow>
    wf_bencode v \<and> depth + nesting v \<le> max_parse_depth"
proof (induction f arbitrary: data depth v r)
  case 0
  then show ?case by simp
next
  case (Suc f)
  let ?p = "\<lambda>r. parse_at_depth f r (depth + 1)"
  let ?Q = "\<lambda>v. wf_bencode v \<and> depth + 1 + nesting v \<le> max_parse_depth"
  have y: "yields ?p ?Q" using Suc.IH by (fastforce simp: yields_def)
  have depth: "depth \<le> max_parse_depth"
    using Suc.prems by (simp add: parse_at_depth.simps(2) split: if_splits)
  have list: "wf_bencode v \<and> depth + nesting v \<le> max_parse_depth"
    if "parse_list ?p data = Some (Inr (v, r))"
  proof -
    from that obtain l rem where v: "v = BList l"
      and l: "list_loop ?p (length data) (tl data) [] = Some (Inr (l, rem))"
      by (auto simp: parse_list_def split: if_splits option.splits sum.splits)
    from list_loop_yields [OF y l] have "\<forall>v \<in> set l. ?Q v" by simp
    moreover from this depth have "max_list (map (\<lambda>v. Suc (nesting v)) l) \<le> max_parse_depth - depth"
      by (auto simp: max_list_le_iff)
    ultimately show ?thesis using depth v by auto
  qed
  have dict: "wf_bencode v \<and> depth + nesting v \<le> max_parse_depth"
    if "parse_dict ?p data = Some (Inr (v, r))"
  proof -
    from that obtain d rem where v: "v = BDict d"
      and l: "dict_loop ?p (length data) (tl data) None [] = Some (Inr (d, rem))"
      by (auto simp: parse_dict_def split: if_splits option.splits sum.splits)
    from dict_loop_yields [OF y l] have d: "dict_ok ?Q d" by (simp add: dict_ok_def)
    then have "max_list (map (\<lambda>e. Suc (nesting (snd e))) d) \<le> max_parse_depth - depth"
      by (auto simp: max_list_le_iff dict_ok_def)
    with d depth v show ?thesis by (auto simp: dict_ok_def)
  qed
  have bytes: "wf_bencode v \<and> nesting v = 0"
    if "map_sum id (apfst BBytes) (parse_bytes data) = Inr (v, r)"
    using that by (cases "parse_bytes data") (auto, use parse_bytes_Inr in blast)
  from Suc.prems depth parse_integer_wf [of data v r] list dict bytes show ?case
    by (auto simp: parse_at_depth.simps(2) split: if_splits list.splits)
qed

lemma parse_encodable: "parse data = Inr (v, r) \<Longrightarrow> encodable v"
  using parse_at_depth_wf [of parse_fuel data 0 v r] by (simp add: parse_eq encodable_def)

lemma parse_suffix: "parse data = Inr (v, r) \<Longrightarrow> strict_suffix r data"
  by (auto simp: parse_eq intro: parse_at_depth_suffix)

lemma parse_exact_iff: "parse_exact data = Inr v \<longleftrightarrow> parse data = Inr (v, [])"
  by (auto simp: parse_exact_def rbind_Inr_iff split: if_splits)

section \<open>Correctness of the codec\<close>

text \<open>C7. Encoding a value and parsing the bytes gives the value back, for every value the
  parser can represent.\<close>

theorem parse_exact_encode: "encodable v \<Longrightarrow> parse_exact (encode v) = Inr v"
  using parse_encode [of v "[]"] by (simp add: parse_exact_iff)

definition sample_torrent :: bencode where
  "sample_torrent =
    BDict [(as_bytes ''comment'', BBytes (as_bytes ''4:infod'')),
           (as_bytes ''info'', BDict [(as_bytes ''length'', BInteger (-7))])]"

lemma sample_encodable: "encodable sample_torrent"
  by (simp add: encodable_def sample_torrent_def max_string_length_def max_parse_depth_def byte_of_def)

lemma parse_exact_encode_witness: "parse_exact (encode sample_torrent) = Inr sample_torrent"
  by (rule parse_exact_encode [OF sample_encodable])

text \<open>C15. On every input the parser returns without running out of fuel. A value it returns
  is well formed (integers of 64 bits, dictionaries in strict key order, strings within the
  limit), nests at most 64 levels deep, parses back from its own encoding, and was read from
  a non-empty prefix of the input.\<close>

theorem parse_sound:
  "parse_at_depth parse_fuel data 0 \<noteq> None \<and>
   (case parse data of
      Inl e \<Rightarrow> True
    | Inr (v, r) \<Rightarrow>
        wf_bencode v \<and> nesting v \<le> 64 \<and> strict_suffix r data \<and> parse_exact (encode v) = Inr v)"
proof (cases "parse data")
  case (Inl e)
  then show ?thesis using parse_total by simp
next
  case (Inr x)
  obtain v r where x: "x = (v, r)" by (cases x)
  with Inr have p: "parse data = Inr (v, r)" by simp
  have "encodable v" by (rule parse_encodable [OF p])
  moreover from this have "parse_exact (encode v) = Inr v"
    using parse_encode [of v "[]"] by (simp add: parse_exact_iff)
  ultimately show ?thesis
    using parse_total parse_suffix [OF p] by (simp add: p encodable_def max_parse_depth_def)
qed

lemmas parse_at_depth_numeral =
  parse_at_depth.simps(2) [of "pred_numeral k" for k, folded numeral_eq_Suc]

text \<open>The parser is not canonical although it rejects leading zeros and negative zero: an
  explicit plus sign is accepted in an integer, and leading zeros and a plus sign in the
  length of a dictionary key, so distinct byte strings parse to the same value.\<close>

theorem parse_not_canonical:
  "parse_exact (as_bytes ''i+5e'') = Inr (BInteger 5)
   \<and> parse_exact (as_bytes ''i5e'') = Inr (BInteger 5)
   \<and> parse_exact (as_bytes ''d01:ai1ee'') = Inr (BDict [(as_bytes ''a'', BInteger 1)])
   \<and> parse_exact (as_bytes ''d+1:ai1ee'') = Inr (BDict [(as_bytes ''a'', BInteger 1)])"
proof -
  note defs = parse_exact_iff parse_eq parse_fuel_def max_parse_depth_def parse_at_depth_numeral
    parse_integer_def parse_bytes_def parse_dict_def from_utf8_def parse_signed_def parse_unsigned_def
    strip_plus_def parse_dec_def digit_val_def byte_of_ascii_iff max_string_length_def
  show ?thesis by (simp add: defs)
qed

section \<open>The info dictionary\<close>

text \<open>
  \<open>find_info_dict_bytes\<close> walks the top-level dictionary by byte offsets; \<open>pos\<close> is the
  offset, and what is left of the input after a parse gives the next one.
\<close>

definition quoted :: "string \<Rightarrow> string" where
  "quoted s = CHR 0x27 # s @ [CHR 0x27]"

definition info_err :: "string \<Rightarrow> engine_error" where
  "info_err m = err_protocol InvalidTorrent m"

lemma parse_bytes_pos:
  "parse_bytes (drop pos data) = Inr (k, r) \<Longrightarrow> pos < length data - length r"
  by (drule parse_bytes_suffix, drule strict_suffix_length) simp

lemma parse_pos: "parse (drop pos data) = Inr (v, r) \<Longrightarrow> pos < length data - length r"
  by (drule parse_suffix, drule strict_suffix_length) simp

function find_info_loop :: "bytes \<Rightarrow> nat \<Rightarrow> bytes result" where
  "find_info_loop data pos =
    (if pos < length data \<and> data ! pos \<noteq> byte_of CHR ''e'' then
       (case parse_bytes (drop pos data) of
          Inl e \<Rightarrow> Inl e
        | Inr (key, remaining) \<Rightarrow>
          (let pos' = length data - length remaining in
           case parse (drop pos' data) of
             Inl e \<Rightarrow> Inl e
           | Inr (v, remaining') \<Rightarrow>
             (let value_end = length data - length remaining' in
              if key = as_bytes ''info'' then
                (if pos' < length data \<and> data ! pos' = byte_of CHR ''d''
                 then Inr (take (value_end - pos') (drop pos' data))
                 else Inl (info_err (quoted ''info'' @ '' value is not a dict'')))
              else find_info_loop data value_end)))
     else Inl (info_err ''Could not locate info dict bytes''))"
  by pat_completeness auto
termination
  by (relation "measure (\<lambda>(data, pos). length data - pos)")
    (auto dest!: parse_bytes_pos parse_pos)

declare find_info_loop.simps [simp del]

definition find_info_dict_bytes :: "bytes \<Rightarrow> bytes result" where
  "find_info_dict_bytes data =
    rbind (parse_exact data)
      (\<lambda>root. case as_dict root of
         None \<Rightarrow> Inl (info_err ''Root is not a dict'')
       | Some dict \<Rightarrow>
           if map_of dict (as_bytes ''info'') = None then Inl (info_err (''Missing '' @ quoted ''info'' @ '' key''))
           else find_info_loop data 1)"

subsection \<open>The parser looks only at what it consumes\<close>

definition prefix_local :: "(bytes \<Rightarrow> 'a parse_result) \<Rightarrow> bool" where
  "prefix_local p \<longleftrightarrow>
    (\<forall>a r s v. p (a @ r) = Some (Inr (v, r)) \<longrightarrow> p (a @ s) = Some (Inr (v, s)))"

lemma prefix_localD:
  "prefix_local p \<Longrightarrow> p (a @ r) = Some (Inr (v, r)) \<Longrightarrow> p (a @ s) = Some (Inr (v, s))"
  unfolding prefix_local_def by blast

lemma position_of_append_lt:
  "position_of P (a @ r) = Some k \<Longrightarrow> k < length a \<Longrightarrow> position_of P (a @ s) = Some k"
proof (induction a arbitrary: k)
  case Nil
  then show ?case by simp
next
  case (Cons x a)
  then show ?case by (auto split: if_splits)
qed

lemma drop_append_self: "drop n (a @ r) = r \<Longrightarrow> n \<le> length (a @ r) \<Longrightarrow> n = length a"
  by (metis add_diff_cancel_right' diff_diff_cancel length_append length_drop)

lemma parse_integer_local:
  assumes "parse_integer (a @ r) = Inr (v, r)"
  shows "parse_integer (a @ s) = Inr (v, s)"
proof -
  have ne: "\<not> (a @ r = [] \<or> hd (a @ r) \<noteq> byte_of CHR ''i'')"
    using assms by (auto simp: parse_integer_def split: if_splits)
  obtain k where k: "position_of (\<lambda>c. c = byte_of CHR ''e'') (tl (a @ r)) = Some k"
    using assms ne by (auto simp: parse_integer_def split: option.splits)
  obtain num where num: "from_utf8 (take k (tl (a @ r))) = Some num"
    using assms ne k by (auto simp: parse_integer_def split: option.splits)
  have r: "drop (k + 2) (a @ r) = r"
    using assms ne k num by (auto simp: parse_integer_def split: option.splits if_splits)
  from position_of_nth [OF k] have "k + 2 \<le> length (a @ r)" by auto
  then have la: "length a = k + 2" using drop_append_self [OF r] by simp
  then obtain x a' where a: "a = x # a'" "length a' = k + 1" by (cases a) auto
  have k': "position_of (\<lambda>c. c = byte_of CHR ''e'') (tl (a @ s)) = Some k"
    using k a by (auto intro: position_of_append_lt)
  have "take k (tl (a @ s)) = take k (tl (a @ r))" using a by simp
  with num have num': "from_utf8 (take k (tl (a @ s))) = Some num" by simp
  have "parse_integer (a @ s) =
    map_sum id (\<lambda>(v, _). (v, drop (k + 2) (a @ s))) (parse_integer (a @ r))"
    unfolding parse_integer_def k k' option.case num num'
    using ne a by (simp split: option.split)
  with assms la show ?thesis by simp
qed

lemma parse_bytes_local:
  assumes "parse_bytes (a @ r) = Inr (b, r)"
  shows "parse_bytes (a @ s) = Inr (b, s)"
proof -
  obtain k where k: "position_of (\<lambda>c. c = byte_of CHR '':'') (a @ r) = Some k"
    using assms by (auto simp: parse_bytes_def split: option.splits)
  obtain len_str where ls: "from_utf8 (take k (a @ r)) = Some len_str"
    using assms k by (auto simp: parse_bytes_def split: option.splits)
  obtain n where n: "parse_unsigned (2 ^ 64) len_str = Some n"
    using assms k ls by (auto simp: parse_bytes_def split: option.splits)
  have le: "\<not> max_string_length < n" "\<not> length (a @ r) < k + 1 + n"
    and b: "b = take n (drop (k + 1) (a @ r))" and r: "drop (k + 1 + n) (a @ r) = r"
    using assms k ls n by (auto simp: parse_bytes_def split: if_splits)
  have la: "length a = k + 1 + n" using drop_append_self [OF r] le by simp
  have k': "position_of (\<lambda>c. c = byte_of CHR '':'') (a @ s) = Some k"
    using k la by (auto intro: position_of_append_lt)
  have "take k (a @ s) = take k (a @ r)" using la by simp
  with ls have ls': "from_utf8 (take k (a @ s)) = Some len_str" by simp
  show ?thesis
    unfolding parse_bytes_def k' option.case ls' n using le la b by simp
qed

lemma list_loop_local:
  assumes "prefix_local p" and "consuming p" and "r \<noteq> []" and "s \<noteq> []" and "hd s = byte_of CHR ''e''"
    and "list_loop p n (a @ r) items = Some (Inr (items', r))" and "length a < m"
  shows "list_loop p m (a @ s) items = Some (Inr (items', s))"
  using assms(6,7)
proof (induction n arbitrary: a items m)
  case 0
  then show ?case by simp
next
  case (Suc n)
  obtain m' where m: "m = Suc m'" using Suc.prems(2) by (cases m) auto
  show ?case
  proof (cases "hd (a @ r) = byte_of CHR ''e''")
    case True
    with Suc.prems(1) assms(3) have "a = []" "items' = items" by auto
    with assms(4,5) m show ?thesis by simp
  next
    case False
    with Suc.prems(1) assms(3) obtain v r1 where v: "p (a @ r) = Some (Inr (v, r1))"
      and l: "list_loop p n r1 (items @ [v]) = Some (Inr (items', r))"
      by (auto split: option.splits sum.splits)
    from list_loop_suffix [OF assms(2) l] obtain a2 where r1: "r1 = a2 @ r"
      by (auto simp: suffix_def)
    have "strict_suffix (a2 @ r) (a @ r)" using assms(2) v r1 by (auto simp: consuming_def)
    then obtain a1 where a: "a = a1 @ a2" "0 < length a1"
      by (auto simp: strict_suffix_def suffix_def)
    have "p (a1 @ a2 @ s) = Some (Inr (v, a2 @ s))"
      using prefix_localD [OF assms(1), of a1 "a2 @ r" v "a2 @ s"] v r1 a by simp
    moreover have "list_loop p m' (a2 @ s) (items @ [v]) = Some (Inr (items', s))"
    proof (rule Suc.IH)
      show "length a2 < m'" using a m Suc.prems(2) by (simp del: length_greater_0_conv)
    qed (use l r1 in simp)
    moreover have "hd (a1 @ a2 @ s) \<noteq> byte_of CHR ''e''" using False a by simp
    ultimately show ?thesis using a m by simp
  qed
qed

lemma list_loop_stop:
  "list_loop p n rem items = Some (Inr (items', r)) \<Longrightarrow> r = [] \<or> hd r = byte_of CHR ''e''"
proof (induction n arbitrary: rem items)
  case 0
  then show ?case by simp
next
  case (Suc n)
  then show ?case
    by (cases "p rem") (auto split: if_splits sum.splits prod.splits)
qed

lemma dict_loop_stop:
  "dict_loop p n rem lk items = Some (Inr (items', r)) \<Longrightarrow> r = [] \<or> hd r = byte_of CHR ''e''"
proof (induction n arbitrary: rem lk items)
  case 0
  then show ?case by simp
next
  case (Suc n)
  then show ?case
    by (auto split: if_splits sum.splits prod.splits option.splits)
qed

lemma dict_loop_local:
  assumes "prefix_local p" and "consuming p" and "r \<noteq> []" and "s \<noteq> []" and "hd s = byte_of CHR ''e''"
    and "dict_loop p n (a @ r) lk items = Some (Inr (items', r))" and "length a < m"
  shows "dict_loop p m (a @ s) lk items = Some (Inr (items', s))"
  using assms(6,7)
proof (induction n arbitrary: a lk items m)
  case 0
  then show ?case by simp
next
  case (Suc n)
  obtain m' where m: "m = Suc m'" using Suc.prems(2) by (cases m) auto
  show ?case
  proof (cases "hd (a @ r) = byte_of CHR ''e''")
    case True
    with Suc.prems(1) assms(3) have "a = []" "items' = items" by auto
    with assms(4,5) m show ?thesis by simp
  next
    case False
    with Suc.prems(1) assms(3) obtain k r1 v r2 where k: "parse_bytes (a @ r) = Inr (k, r1)"
      and lk: "\<not> (case lk of None \<Rightarrow> False | Some l \<Rightarrow> k \<le> l)"
      and v: "p r1 = Some (Inr (v, r2))"
      and l: "dict_loop p n r2 (Some k) (btree_insert k v items) = Some (Inr (items', r))"
      by (auto split: if_splits option.splits sum.splits)
    from dict_loop_suffix [OF assms(2) l] obtain a3 where r2: "r2 = a3 @ r"
      by (auto simp: suffix_def)
    have "strict_suffix (a3 @ r) r1" using assms(2) v r2 by (auto simp: consuming_def)
    then obtain a2 where r1: "r1 = a2 @ a3 @ r" "a2 \<noteq> []" by (auto simp: strict_suffix_def suffix_def)
    have "strict_suffix (a2 @ a3 @ r) (a @ r)" using parse_bytes_suffix [OF k] r1 by simp
    then obtain a1 where a: "a = a1 @ a2 @ a3" "0 < length a1"
      by (auto simp: strict_suffix_def suffix_def)
    have "parse_bytes (a1 @ a2 @ a3 @ s) = Inr (k, a2 @ a3 @ s)"
      using parse_bytes_local [of a1 "a2 @ a3 @ r" k "a2 @ a3 @ s"] k r1 a by simp
    moreover have "p (a2 @ a3 @ s) = Some (Inr (v, a3 @ s))"
      using prefix_localD [OF assms(1), of a2 "a3 @ r" v "a3 @ s"] v r1 r2 by simp
    moreover have "dict_loop p m' (a3 @ s) (Some k) (btree_insert k v items) = Some (Inr (items', s))"
    proof (rule Suc.IH)
      show "length a3 < m'" using a m Suc.prems(2) by (simp del: length_greater_0_conv)
    qed (use l r2 in simp)
    moreover have "hd (a1 @ a2 @ a3 @ s) \<noteq> byte_of CHR ''e''" using False a by simp
    ultimately show ?thesis using a m lk by simp
  qed
qed

lemma parse_list_Inr:
  "parse_list p data = Some (Inr (v, r)) \<Longrightarrow>
    \<exists>items rem. data \<noteq> [] \<and> hd data = byte_of CHR ''l'' \<and>
      list_loop p (length data) (tl data) [] = Some (Inr (items, rem)) \<and>
      rem \<noteq> [] \<and> r = tl rem \<and> v = BList items"
  by (auto simp: parse_list_def split: if_splits option.splits sum.splits)

lemma parse_list_local:
  assumes "prefix_local p" and "consuming p" and "parse_list p (a @ r) = Some (Inr (v, r))"
  shows "parse_list p (a @ s) = Some (Inr (v, s))"
proof -
  from assms(3) obtain items rem where d: "a @ r \<noteq> []" "hd (a @ r) = byte_of CHR ''l''"
    and l: "list_loop p (length (a @ r)) (tl (a @ r)) [] = Some (Inr (items, rem))"
    and rem: "rem \<noteq> []" "r = tl rem" and v: "v = BList items"
    using parse_list_Inr by blast
  have stop: "hd rem = byte_of CHR ''e''"
    using list_loop_stop [OF l] rem by simp
  from rem stop have rem': "rem = byte_of CHR ''e'' # r" by (cases rem) auto
  from parse_list_suffix [OF assms(2,3)] obtain x a' where a: "a = x # a'"
    by (cases a) (auto simp: strict_suffix_def)
  from list_loop_suffix [OF assms(2) l] obtain b where b: "a' @ r = b @ byte_of CHR ''e'' # r"
    using a rem' by (auto simp: suffix_def)
  then have a': "a' = b @ [byte_of CHR ''e'']" by simp
  have "list_loop p (length (a @ s)) (b @ byte_of CHR ''e'' # s) [] =
    Some (Inr (items, byte_of CHR ''e'' # s))"
    by (rule list_loop_local [OF assms(1,2), of "byte_of CHR ''e'' # r" _ "length (a @ r)"])
      (use l a a' rem' in auto)
  then show ?thesis using d a a' v by (simp add: parse_list_def)
qed

lemma parse_dict_Inr:
  "parse_dict p data = Some (Inr (v, r)) \<Longrightarrow>
    \<exists>items rem. data \<noteq> [] \<and> hd data = byte_of CHR ''d'' \<and>
      dict_loop p (length data) (tl data) None [] = Some (Inr (items, rem)) \<and>
      rem \<noteq> [] \<and> r = tl rem \<and> v = BDict items"
  by (auto simp: parse_dict_def split: if_splits option.splits sum.splits)

lemma parse_dict_local:
  assumes "prefix_local p" and "consuming p" and "parse_dict p (a @ r) = Some (Inr (v, r))"
  shows "parse_dict p (a @ s) = Some (Inr (v, s))"
proof -
  from assms(3) obtain items rem where d: "a @ r \<noteq> []" "hd (a @ r) = byte_of CHR ''d''"
    and l: "dict_loop p (length (a @ r)) (tl (a @ r)) None [] = Some (Inr (items, rem))"
    and rem: "rem \<noteq> []" "r = tl rem" and v: "v = BDict items"
    using parse_dict_Inr by blast
  have stop: "hd rem = byte_of CHR ''e''"
    using dict_loop_stop [OF l] rem by simp
  from rem stop have rem': "rem = byte_of CHR ''e'' # r" by (cases rem) auto
  from parse_dict_suffix [OF assms(2,3)] obtain x a' where a: "a = x # a'"
    by (cases a) (auto simp: strict_suffix_def)
  from dict_loop_suffix [OF assms(2) l] obtain b where b: "a' @ r = b @ byte_of CHR ''e'' # r"
    using a rem' by (auto simp: suffix_def)
  then have a': "a' = b @ [byte_of CHR ''e'']" by simp
  have "dict_loop p (length (a @ s)) (b @ byte_of CHR ''e'' # s) None [] =
    Some (Inr (items, byte_of CHR ''e'' # s))"
    by (rule dict_loop_local [OF assms(1,2), of "byte_of CHR ''e'' # r" _ "length (a @ r)"])
      (use l a a' rem' in auto)
  then show ?thesis using d a a' v by (simp add: parse_dict_def)
qed

lemma parse_at_depth_local: "prefix_local (\<lambda>d. parse_at_depth f d depth)"
proof (induction f arbitrary: depth)
  case 0
  show ?case by (simp add: prefix_local_def)
next
  case (Suc f)
  note l = parse_list_local [OF Suc consuming_parse] and d = parse_dict_local [OF Suc consuming_parse]
  have "parse_at_depth (Suc f) (a @ s) depth = Some (Inr (v, s))"
    if p: "parse_at_depth (Suc f) (a @ r) depth = Some (Inr (v, r))" for a r s v
  proof -
    from parse_at_depth_suffix [OF p] obtain x a' where a: "a = x # a'"
      by (cases a) (auto simp: strict_suffix_def)
    have b: "map_sum id (apfst BBytes) (parse_bytes (a @ s)) = Inr (v, s)"
      if "map_sum id (apfst BBytes) (parse_bytes (a @ r)) = Inr (v, r)"
    proof -
      from that obtain bs where "parse_bytes (a @ r) = Inr (bs, r)" and v: "v = BBytes bs"
        by (cases "parse_bytes (a @ r)") auto
      from parse_bytes_local [OF this(1)] show ?thesis by (simp add: v)
    qed
    show ?thesis
      using p l [of "depth + 1" a r v s] d [of "depth + 1" a r v s]
        parse_integer_local [of a r v s] b a
      by (simp add: parse_at_depth.simps(2) split: if_splits)
  qed
  then show ?case unfolding prefix_local_def by blast
qed

lemma parse_prefix: "parse (a @ r) = Inr (v, r) \<Longrightarrow> parse (a @ s) = Inr (v, s)"
  using prefix_localD [OF parse_at_depth_local [of parse_fuel 0], of a r v s] by (simp add: parse_eq)

subsection \<open>More fuel and less depth keep a result\<close>

definition refines :: "(bytes \<Rightarrow> 'a parse_result) \<Rightarrow> (bytes \<Rightarrow> 'a parse_result) \<Rightarrow> bool" where
  "refines p q \<longleftrightarrow> (\<forall>d x. p d = Some (Inr x) \<longrightarrow> q d = Some (Inr x))"

lemma list_loop_refines:
  "refines p q \<Longrightarrow> list_loop p n rem items = Some (Inr x) \<Longrightarrow> list_loop q n rem items = Some (Inr x)"
proof (induction n arbitrary: rem items)
  case 0
  then show ?case by simp
next
  case (Suc n)
  then show ?case
    by (cases "p rem") (auto simp: refines_def split: if_splits sum.splits prod.splits)
qed

lemma dict_loop_refines:
  "refines p q \<Longrightarrow> dict_loop p n rem lk items = Some (Inr x) \<Longrightarrow> dict_loop q n rem lk items = Some (Inr x)"
proof (induction n arbitrary: rem lk items)
  case 0
  then show ?case by simp
next
  case (Suc n)
  show ?case
  proof (cases "rem = [] \<or> hd rem = byte_of CHR ''e''")
    case True
    with Suc.prems show ?thesis by simp
  next
    case False
    with Suc.prems obtain k r1 v r2 where k: "parse_bytes rem = Inr (k, r1)"
      and lk: "\<not> (case lk of None \<Rightarrow> False | Some l \<Rightarrow> k \<le> l)"
      and v: "p r1 = Some (Inr (v, r2))"
      and l: "dict_loop p n r2 (Some k) (btree_insert k v items) = Some (Inr x)"
      by (auto split: if_splits option.splits sum.splits)
    have "q r1 = Some (Inr (v, r2))" using Suc.prems(1) v by (auto simp: refines_def)
    with False k lk Suc.IH [OF Suc.prems(1) l] show ?thesis by simp
  qed
qed

lemma parse_at_depth_refines:
  "f \<le> g \<Longrightarrow> e \<le> d \<Longrightarrow> refines (\<lambda>r. parse_at_depth f r d) (\<lambda>r. parse_at_depth g r e)"
proof (induction f arbitrary: g d e)
  case 0
  show ?case by (simp add: refines_def)
next
  case (Suc f)
  then obtain g' where g: "g = Suc g'" "f \<le> g'" by (cases g) auto
  have r: "refines (\<lambda>r. parse_at_depth f r (d + 1)) (\<lambda>r. parse_at_depth g' r (e + 1))"
    using Suc g by simp
  have "parse_list (\<lambda>r. parse_at_depth g' r (e + 1)) data = Some (Inr x)"
    if "parse_list (\<lambda>r. parse_at_depth f r (d + 1)) data = Some (Inr x)" for data x
    using that list_loop_refines [OF r]
    by (auto simp: parse_list_def split: if_splits option.splits sum.splits) 
  moreover have "parse_dict (\<lambda>r. parse_at_depth g' r (e + 1)) data = Some (Inr x)"
    if "parse_dict (\<lambda>r. parse_at_depth f r (d + 1)) data = Some (Inr x)" for data x
    using that dict_loop_refines [OF r]
    by (auto simp: parse_dict_def split: if_splits option.splits sum.splits)
  ultimately show ?case
    using Suc.prems(2) g
    by (auto simp: refines_def parse_at_depth.simps(2) split: if_splits list.splits)
qed

subsection \<open>The walk follows the parse\<close>

lemma suffix_drop_length: "suffix r data \<Longrightarrow> drop (length data - length r) data = r"
  by (auto simp: suffix_def)

lemma parse_of_nested:
  assumes "parse_at_depth (Suc max_parse_depth) r 1 = Some (Inr x)"
  shows "parse r = Inr x"
proof -
  have "refines (\<lambda>r. parse_at_depth (Suc max_parse_depth) r 1) (\<lambda>r. parse_at_depth parse_fuel r 0)"
    by (rule parse_at_depth_refines) (simp_all add: parse_fuel_def)
  then have "parse_at_depth parse_fuel r 0 = Some (Inr x)"
    using assms unfolding refines_def by blast
  then show ?thesis by (simp add: parse_eq)
qed

definition below_last :: "bytes option \<Rightarrow> (bytes \<times> bencode) list \<Rightarrow> bool" where
  "below_last lk items \<longleftrightarrow>
    (\<forall>e \<in> set items. case lk of None \<Rightarrow> False | Some k \<Rightarrow> fst e \<le> k)"

lemma dict_loop_insert:
  assumes "below_last lk items" and "\<not> (case lk of None \<Rightarrow> False | Some l \<Rightarrow> k \<le> l)"
  shows "btree_insert k v items = items @ [(k, v)] \<and> below_last (Some k) (items @ [(k, v)])"
proof -
  have "\<forall>e \<in> set items. fst e < k"
    using assms by (fastforce simp: below_last_def split: option.splits)
  then show ?thesis
    by (auto simp: below_last_def intro!: btree_insert_last less_imp_le)
qed

lemma dict_loop_Suc:
  assumes "dict_loop p (Suc n) rem lk items = Some (Inr (d, r))"
    and "\<not> (rem = [] \<or> hd rem = byte_of CHR ''e'')"
  obtains k r1 v r2 where "parse_bytes rem = Inr (k, r1)"
    and "\<not> (case lk of None \<Rightarrow> False | Some l \<Rightarrow> k \<le> l)"
    and "p r1 = Some (Inr (v, r2))"
    and "dict_loop p n r2 (Some k) (btree_insert k v items) = Some (Inr (d, r))"
  using assms by (auto split: if_splits option.splits sum.splits)

lemma dict_loop_extends:
  "dict_loop p n rem lk items = Some (Inr (d, r)) \<Longrightarrow> below_last lk items \<Longrightarrow> prefix items d"
proof (induction n arbitrary: rem lk items)
  case 0
  then show ?case by simp
next
  case (Suc n)
  show ?case
  proof (cases "rem = [] \<or> hd rem = byte_of CHR ''e''")
    case True
    with Suc.prems show ?thesis by simp
  next
    case False
    from Suc.prems(1) False obtain k r1 v r2
      where lk: "\<not> (case lk of None \<Rightarrow> False | Some l \<Rightarrow> k \<le> l)"
        and l: "dict_loop p n r2 (Some k) (btree_insert k v items) = Some (Inr (d, r))"
      by (rule dict_loop_Suc)
    note ins = dict_loop_insert [OF Suc.prems(2) lk, of v]
    have "prefix (items @ [(k, v)]) d" using Suc.IH [of r2 "Some k" "items @ [(k, v)]"] l ins by simp
    then show ?thesis by (rule append_prefixD)
  qed
qed

definition info_at :: "bytes \<Rightarrow> bencode \<Rightarrow> nat \<Rightarrow> nat \<Rightarrow> bool" where
  "info_at data v b e \<longleftrightarrow> b < e \<and> e \<le> length data \<and> parse (drop b data) = Inr (v, drop e data)"

lemma find_info_walk:
  assumes "dict_loop (\<lambda>r. parse_at_depth (Suc max_parse_depth) r 1) n (drop pos data) lk items
      = Some (Inr (d, r))"
    and "below_last lk items" and "as_bytes ''info'' \<notin> fst ` set items"
    and "map_of d (as_bytes ''info'') = Some v"
  shows "\<exists>b e. info_at data v b e \<and> find_info_loop data pos =
    (if data ! b = byte_of CHR ''d'' then Inr (take (e - b) (drop b data))
     else Inl (info_err (quoted ''info'' @ '' value is not a dict'')))"
  using assms(1-3)
proof (induction n arbitrary: pos lk items)
  case 0
  then show ?case by simp
next
  case (Suc n)
  let ?p = "\<lambda>r. parse_at_depth (Suc max_parse_depth) r 1"
  have go: "\<not> (drop pos data = [] \<or> hd (drop pos data) = byte_of CHR ''e'')"
  proof
    assume "drop pos data = [] \<or> hd (drop pos data) = byte_of CHR ''e''"
    then have "d = items" using Suc.prems(1) by simp
    with Suc.prems(3) assms(4) show False by (force dest: map_of_SomeD)
  qed
  from Suc.prems(1) go obtain k r1 w r2 where k: "parse_bytes (drop pos data) = Inr (k, r1)"
    and lk: "\<not> (case lk of None \<Rightarrow> False | Some l \<Rightarrow> k \<le> l)" and w: "?p r1 = Some (Inr (w, r2))"
    and l: "dict_loop ?p n r2 (Some k) (btree_insert k w items) = Some (Inr (d, r))"
    by (rule dict_loop_Suc)
  note ins = dict_loop_insert [OF Suc.prems(2) lk, of w]
  have s1: "strict_suffix r1 (drop pos data)" by (rule parse_bytes_suffix [OF k])
  have s2: "strict_suffix r2 r1" by (rule parse_at_depth_suffix [OF w])
  let ?b = "length data - length r1" and ?e = "length data - length r2"
  have "suffix r1 data" using s1 suffix_drop [of pos data]
    by (metis strict_suffix_def suffix_order.trans)
  then have b: "drop ?b data = r1" and "suffix r2 data" and le: "length r1 \<le> length data"
    using s2 suffix_drop_length suffix_length_le by (auto simp: strict_suffix_def dest: suffix_order.trans)
  then have e: "drop ?e data = r2" by (simp add: suffix_drop_length)
  have lt: "length r2 < length r1" by (rule strict_suffix_length [OF s2])
  have pw: "parse (drop ?b data) = Inr (w, r2)" unfolding b by (rule parse_of_nested [OF w])
  have at: "info_at data w ?b ?e" using pw e lt le by (auto simp: info_at_def)
  have go': "pos < length data \<and> data ! pos \<noteq> byte_of CHR ''e''"
    using go by (auto simp: hd_drop_conv_nth)
  have b_lt: "?b < length data" using lt le by simp
  show ?case
  proof (cases "k = as_bytes ''info''")
    case True
    have "prefix (items @ [(k, w)]) d"
      using dict_loop_extends [OF l] ins by simp
    then obtain rest where "d = (items @ [(k, w)]) @ rest" by (auto simp: prefix_def)
    moreover have "map_of items k = None" using Suc.prems(3) True by (simp add: map_of_eq_None_iff)
    ultimately have "w = v" using assms(4) True by (simp add: map_add_def)
    moreover have "find_info_loop data pos =
      (if data ! ?b = byte_of CHR ''d'' then Inr (take (?e - ?b) (drop ?b data))
       else Inl (info_err (quoted ''info'' @ '' value is not a dict'')))"
      using go' b_lt k pw True by (subst find_info_loop.simps) (simp add: Let_def)
    ultimately show ?thesis using at by blast
  next
    case False
    have "find_info_loop data pos = find_info_loop data ?e"
      using go' k pw False by (subst find_info_loop.simps) (simp add: Let_def)
    moreover have "\<exists>b e. info_at data v b e \<and> find_info_loop data ?e =
      (if data ! b = byte_of CHR ''d'' then Inr (take (e - b) (drop b data))
       else Inl (info_err (quoted ''info'' @ '' value is not a dict'')))"
      by (rule Suc.IH [of ?e "Some k" "items @ [(k, w)]"])
        (use l ins e Suc.prems(3) False in auto)
    ultimately show ?thesis by simp
  qed
qed

lemma parse_dict_marker:
  assumes "parse data = Inr (v, r)"
  shows "is_dict v \<longleftrightarrow> hd data = byte_of CHR ''d''"
proof -
  have nd: "\<not> is_dict w" if "parse_integer data = Inr (w, r)" for w
    using that by (auto simp: parse_integer_def split: option.splits if_splits)
  have nl: "\<not> is_dict w" if "parse_list p data = Some (Inr (w, r))" for p w
    using parse_list_Inr [OF that] by auto
  have d: "is_dict w" if "parse_dict p data = Some (Inr (w, r))" for p w
    using parse_dict_Inr [OF that] by auto
  have nb: "\<not> is_dict w" if "map_sum id (apfst BBytes) (parse_bytes data) = Inr (w, r)" for w
    using that by (cases "parse_bytes data") auto
  from assms show ?thesis
    using nd nl d nb
    by (auto simp: parse_eq parse_fuel_def parse_at_depth.simps(2) split: if_splits list.splits)
qed

lemma parse_exact_dict_loop:
  assumes "parse_exact data = Inr (BDict d)"
  shows "\<exists>r. dict_loop (\<lambda>r. parse_at_depth (Suc max_parse_depth) r 1) (length data) (drop 1 data) None []
    = Some (Inr (d, r))"
proof -
  have p: "parse_at_depth (Suc (Suc max_parse_depth)) data 0 = Some (Inr (BDict d, []))"
    using assms by (simp add: parse_exact_iff parse_eq parse_fuel_def)
  have "hd data = byte_of CHR ''d''" "data \<noteq> []"
    using parse_dict_marker [of data "BDict d" "[]"] assms parse_suffix [of data "BDict d" "[]"]
    by (auto simp: parse_exact_iff)
  then have "parse_dict (\<lambda>r. parse_at_depth (Suc max_parse_depth) r 1) data = Some (Inr (BDict d, []))"
    using p by (cases data) (simp_all add: parse_at_depth.simps(2))
  from parse_dict_Inr [OF this] show ?thesis by (auto simp: drop_Suc)
qed

lemma find_info_span:
  assumes d: "parse_exact data = Inr (BDict d)" and v: "map_of d (as_bytes ''info'') = Some v"
  shows "if is_dict v
    then \<exists>pre span post. data = pre @ span @ post \<and> find_info_dict_bytes data = Inr span
           \<and> parse_exact span = Inr v
    else find_info_dict_bytes data = Inl (info_err (quoted ''info'' @ '' value is not a dict''))"
proof -
  obtain r where l: "dict_loop (\<lambda>r. parse_at_depth (Suc max_parse_depth) r 1) (length data)
      (drop 1 data) None [] = Some (Inr (d, r))"
    using parse_exact_dict_loop [OF d] by blast
  obtain b e where be: "info_at data v b e" and f: "find_info_loop data 1 =
    (if data ! b = byte_of CHR ''d'' then Inr (take (e - b) (drop b data))
     else Inl (info_err (quoted ''info'' @ '' value is not a dict'')))"
    using find_info_walk [OF l _ _ v] by (auto simp: below_last_def)
  let ?span = "take (e - b) (drop b data)"
  from be have lt: "b < e" "e \<le> length data" and p: "parse (drop b data) = Inr (v, drop e data)"
    by (simp_all add: info_at_def)
  have split: "drop b data = ?span @ drop e data"
    using lt by (metis append_take_drop_id drop_drop le_add_diff_inverse2 less_imp_le_nat)
  then have data: "data = take b data @ ?span @ drop e data"
    by (metis append_take_drop_id)
  have "parse (?span @ drop e data) = Inr (v, drop e data)"
    by (subst split [symmetric]) (rule p)
  then have "parse (?span @ []) = Inr (v, [])" by (rule parse_prefix)
  then have span: "parse_exact ?span = Inr v" by (simp add: parse_exact_iff)
  have marker: "is_dict v \<longleftrightarrow> data ! b = byte_of CHR ''d''"
    using parse_dict_marker [OF p] lt by (simp add: hd_drop_conv_nth)
  have find: "find_info_dict_bytes data = find_info_loop data 1"
    using d v by (simp add: find_info_dict_bytes_def)
  show ?thesis
  proof (cases "is_dict v")
    case True
    then have "find_info_dict_bytes data = Inr ?span" using find f marker by simp
    with data span have "\<exists>pre span post. data = pre @ span @ post
      \<and> find_info_dict_bytes data = Inr span \<and> parse_exact span = Inr v" by blast
    with True show ?thesis by simp
  next
    case False
    then show ?thesis using find f marker by simp
  qed
qed

text \<open>C16. \<open>find_info_dict_bytes\<close> on every input: it fails as the parser does, and on a
  dictionary it returns exactly the contiguous bytes from which the value of the top-level
  \<open>info\<close> key was parsed, which parse back to that value alone; a missing key and a value
  that is not a dictionary are errors. Text that merely looks like an info dictionary inside
  another value is never returned.\<close>

theorem find_info_dict_exact:
  "case parse_exact data of
     Inl e \<Rightarrow> find_info_dict_bytes data = Inl e
   | Inr (BDict d) \<Rightarrow>
       (case map_of d (as_bytes ''info'') of
          None \<Rightarrow> find_info_dict_bytes data = Inl (info_err (''Missing '' @ quoted ''info'' @ '' key''))
        | Some v \<Rightarrow>
            if is_dict v
            then \<exists>pre span post. data = pre @ span @ post \<and> find_info_dict_bytes data = Inr span
                   \<and> parse_exact span = Inr v
            else find_info_dict_bytes data = Inl (info_err (quoted ''info'' @ '' value is not a dict'')))
   | Inr _ \<Rightarrow> find_info_dict_bytes data = Inl (info_err ''Root is not a dict'')"
proof (cases "\<exists>d v. parse_exact data = Inr (BDict d) \<and> map_of d (as_bytes ''info'') = Some v")
  case False
  then show ?thesis
    by (auto simp: find_info_dict_bytes_def split: sum.splits bencode.splits option.splits)
next
  case True
  then obtain d v where d: "parse_exact data = Inr (BDict d)"
    and v: "map_of d (as_bytes ''info'') = Some v" by blast
  show ?thesis
    using find_info_span [OF d v] d v by simp
qed

end
