(* ===== verification/Paths.thy ===== *)
theory Paths
  imports Errors
begin

text \<open>
  \<open>src/fsutil.rs\<close>: the path hygiene every name from the network passes before it is joined
  onto a directory. A path is a string; \<open>path_components\<close> is
  \<open>std::path::Path::components\<close> and \<open>path_push\<close> is \<open>PathBuf::push\<close> as they work on Unix.
  The contract of the check is stated against \<open>resolve\<close>, the lexical meaning of a path:
  an accepted name, joined onto any directory, denotes something strictly below it.
\<close>

section \<open>Paths of the standard library\<close>

datatype path_component = RootDir | CurDir | ParentDir | Normal string

definition component_of :: "string \<Rightarrow> path_component option" where
  "component_of s =
    (if s = [] \<or> s = ''.'' then None
     else if s = ''..'' then Some ParentDir
     else Some (Normal s))"

definition is_absolute :: "string \<Rightarrow> bool" where
  "is_absolute p \<longleftrightarrow> p \<noteq> [] \<and> hd p = CHR ''/''"

definition path_names :: "string \<Rightarrow> path_component list" where
  "path_names p = List.map_filter component_of (split_char CHR ''/'' p)"

definition path_components :: "string \<Rightarrow> path_component list" where
  "path_components p =
    (if is_absolute p then [RootDir]
     else if hd (split_char CHR ''/'' p) = ''.'' then [CurDir] else []) @ path_names p"

definition path_push :: "string \<Rightarrow> string \<Rightarrow> string" where
  "path_push base p =
    (if is_absolute p then p
     else if base \<noteq> [] \<and> last base \<noteq> CHR ''/'' then base @ CHR ''/'' # p
     else base @ p)"

lemma map_filter_simps' [simp]:
  "List.map_filter f [] = []"
  "List.map_filter f (x # xs) =
    (case f x of None \<Rightarrow> List.map_filter f xs | Some y \<Rightarrow> y # List.map_filter f xs)"
  "List.map_filter f (xs @ ys) = List.map_filter f xs @ List.map_filter f ys"
  by (auto simp: List.map_filter_def split: option.splits)

lemma path_names_push:
  assumes "\<not> is_absolute p" and "base \<noteq> []"
  shows "path_components (path_push base p) = path_components base @ path_names p"
proof (cases "last base = CHR ''/''")
  case True
  then obtain b where base: "base = b @ [CHR ''/'']"
    using assms(2) by (metis append_butlast_last_id)
  then have "path_push base p = b @ CHR ''/'' # p"
    using assms(1) by (simp add: path_push_def)
  moreover have "is_absolute (b @ CHR ''/'' # p) = is_absolute base"
    by (cases b) (simp_all add: base is_absolute_def)
  ultimately show ?thesis
    by (simp add: path_components_def path_names_def base split_char_append component_of_def)
next
  case False
  then have "path_push base p = base @ CHR ''/'' # p"
    using assms by (simp add: path_push_def)
  moreover have "is_absolute (base @ CHR ''/'' # p) = is_absolute base"
    using assms(2) by (simp add: is_absolute_def)
  ultimately show ?thesis
    using assms(2) by (simp add: path_components_def path_names_def split_char_append)
qed

section \<open>Slashes\<close>

text \<open>\<open>ends_with('/')\<close>, \<open>trim_end_matches('/')\<close> and \<open>join("/")\<close> of the standard library.\<close>

definition ends_with_slash :: "string \<Rightarrow> bool" where
  "ends_with_slash s \<longleftrightarrow> s \<noteq> [] \<and> last s = CHR ''/''"

definition trim_slashes :: "string \<Rightarrow> string" where
  "trim_slashes s = rev (dropWhile (\<lambda>c. c = CHR ''/'') (rev s))"

fun join_slash :: "string list \<Rightarrow> string" where
  "join_slash [] = []"
| "join_slash [s] = s"
| "join_slash (s # ss) = s @ CHR ''/'' # join_slash ss"

section \<open>The check\<close>

datatype path_rejection = RejEmpty | RejParentDir | RejAbsolute

fun describe :: "path_rejection \<Rightarrow> string \<Rightarrow> string" where
  "describe RejEmpty what = what @ '' must name a file''"
| "describe RejParentDir what = what @ '' contains parent directory reference (..)''"
| "describe RejAbsolute what = what @ '' contains absolute path''"

fun check_components :: "path_component list \<Rightarrow> bool \<Rightarrow> path_rejection + unit" where
  "check_components [] has_normal = (if has_normal then Inr () else Inl RejEmpty)"
| "check_components (Normal n # cs) has_normal = check_components cs True"
| "check_components (CurDir # cs) has_normal = check_components cs has_normal"
| "check_components (ParentDir # cs) has_normal = Inl RejParentDir"
| "check_components (RootDir # cs) has_normal = Inl RejAbsolute"

definition check_relative_path :: "string \<Rightarrow> path_rejection + unit" where
  "check_relative_path p = check_components (path_components p) False"

definition validate_output_name :: "string \<Rightarrow> unit result" where
  "validate_output_name name =
    (case check_relative_path name of
       Inr u \<Rightarrow> Inr ()
     | Inl RejEmpty \<Rightarrow> Inl (err_invalid_input ''filename'' ''Filename must name a file'')
     | Inl rejection \<Rightarrow>
         Inl (err_storage PathTraversal name (''Invalid filename: '' @ describe rejection ''filename'')))"

section \<open>What it guarantees\<close>

text \<open>The lexical meaning of a path: the stack of names it walks to.\<close>

fun walk :: "string list \<Rightarrow> path_component \<Rightarrow> string list" where
  "walk st RootDir = []"
| "walk st CurDir = st"
| "walk st ParentDir = butlast st"
| "walk st (Normal n) = st @ [n]"

definition resolve :: "string \<Rightarrow> string list" where
  "resolve p = foldl walk [] (path_components p)"

fun normal_name :: "path_component \<Rightarrow> string option" where
  "normal_name (Normal n) = Some n"
| "normal_name _ = None"

lemma check_components_Inr_iff:
  "check_components cs h = Inr u \<longleftrightarrow>
    list_all (\<lambda>c. c \<noteq> ParentDir \<and> c \<noteq> RootDir) cs \<and> (h \<or> List.map_filter normal_name cs \<noteq> [])"
  by (induction cs h rule: check_components.induct) auto

lemma check_components_Inl_iff:
  "check_components cs h = Inl RejEmpty \<longleftrightarrow> \<not> h \<and> list_all (\<lambda>c. c = CurDir) cs"
  by (induction cs h rule: check_components.induct) auto

lemma foldl_walk_normal:
  "list_all (\<lambda>c. c \<noteq> ParentDir \<and> c \<noteq> RootDir) cs \<Longrightarrow>
    foldl walk st cs = st @ List.map_filter normal_name cs"
proof (induction cs arbitrary: st)
  case (Cons c cs)
  then show ?case by (cases c) auto
qed simp

lemma path_names_no_cur: "c \<in> set (path_names p) \<Longrightarrow> c \<noteq> CurDir \<and> c \<noteq> RootDir"
  by (auto simp: path_names_def List.map_filter_def component_of_def split: if_splits)

lemma normal_names_eq:
  "\<not> is_absolute p \<Longrightarrow>
    List.map_filter normal_name (path_components p) = List.map_filter normal_name (path_names p)"
  by (simp add: path_components_def)

lemma accepted_relative: "check_relative_path p = Inr u \<Longrightarrow> \<not> is_absolute p"
  by (auto simp: check_relative_path_def path_components_def)

lemma accepted_no_parent:
  "check_relative_path p = Inr u \<Longrightarrow>
    list_all (\<lambda>c. c \<noteq> ParentDir \<and> c \<noteq> RootDir) (path_components p)"
  by (simp add: check_relative_path_def check_components_Inr_iff)

lemma accepted_resolve_push:
  assumes "check_relative_path p = Inr u"
  shows "resolve (path_push base p)
    = resolve base @ List.map_filter normal_name (path_components p)"
proof (cases "base = []")
  case True
  moreover have "path_components [] = []"
    by (simp add: path_components_def is_absolute_def path_names_def component_of_def)
  moreover have "path_push [] p = p"
    by (simp add: path_push_def)
  ultimately show ?thesis
    by (simp add: resolve_def foldl_walk_normal [OF accepted_no_parent [OF assms]])
next
  case False
  have "list_all (\<lambda>c. c \<noteq> ParentDir \<and> c \<noteq> RootDir) (path_names p)"
    using accepted_no_parent [OF assms] by (simp add: path_components_def)
  then show ?thesis
    using accepted_relative [OF assms] False
    by (simp add: resolve_def path_names_push foldl_walk_normal normal_names_eq)
qed

lemma accepted_names_nonempty:
  "check_relative_path p = Inr u \<Longrightarrow> List.map_filter normal_name (path_components p) \<noteq> []"
  by (simp add: check_relative_path_def check_components_Inr_iff)

lemma component_of_Normal: "component_of s = Some (Normal n) \<Longrightarrow> n = s \<and> n \<noteq> [] \<and> n \<noteq> ''.'' \<and> n \<noteq> ''..''"
  by (auto simp: component_of_def split: if_splits)

lemma normal_names_wf:
  "n \<in> set (List.map_filter normal_name (path_components p)) \<Longrightarrow>
    n \<noteq> [] \<and> n \<noteq> ''.'' \<and> n \<noteq> ''..'' \<and> CHR ''/'' \<notin> set n"
proof -
  assume "n \<in> set (List.map_filter normal_name (path_components p))"
  then have "Normal n \<in> set (path_components p)"
    by (auto simp: List.map_filter_def elim!: normal_name.elims)
  then have "Normal n \<in> set (path_names p)"
    by (auto simp: path_components_def split: if_splits)
  then obtain s where "s \<in> set (split_char CHR ''/'' p)" "component_of s = Some (Normal n)"
    by (auto simp: path_names_def List.map_filter_def)
  then show ?thesis
    using component_of_Normal split_char_pieces by blast
qed

text \<open>C17. A name that \<open>check_relative_path\<close> accepts, joined onto any directory at all, denotes a
  path strictly below that directory, each step of which is a plain name (not empty, not
  \<open>.\<close> or \<open>..\<close>, without a separator); it rejects as \<open>Empty\<close> exactly the paths that have
  nothing but current-directory components, as \<open>ParentDir\<close> only paths with a \<open>..\<close>
  component, and as \<open>Absolute\<close> only paths that start with a separator.\<close>

theorem checked_path_stays_inside:
  "(case check_relative_path p of
      Inr _ \<Rightarrow>
        (\<exists>ns. ns \<noteq> [] \<and> resolve (path_push base p) = resolve base @ ns
           \<and> list_all (\<lambda>n. n \<noteq> [] \<and> n \<noteq> ''.'' \<and> n \<noteq> ''..'' \<and> CHR ''/'' \<notin> set n) ns)
    | Inl RejEmpty \<Rightarrow> list_all (\<lambda>c. c = CurDir) (path_components p)
    | Inl RejParentDir \<Rightarrow> ParentDir \<in> set (path_components p)
    | Inl RejAbsolute \<Rightarrow> is_absolute p)"
proof (cases "check_relative_path p")
  case (Inl r)
  have rej: "check_components cs h = Inl RejParentDir \<Longrightarrow> ParentDir \<in> set cs"
    "check_components cs h = Inl RejAbsolute \<Longrightarrow> RootDir \<in> set cs" for cs h
    by (induction cs h rule: check_components.induct) (auto split: if_splits)
  have "RootDir \<in> set (path_components p) \<Longrightarrow> is_absolute p"
    using path_names_no_cur [of RootDir p] by (auto simp: path_components_def split: if_splits)
  then show ?thesis
    using Inl rej check_components_Inl_iff [of "path_components p" False]
    by (cases r) (auto simp: check_relative_path_def)
next
  case (Inr u)
  have "list_all (\<lambda>n. n \<noteq> [] \<and> n \<noteq> ''.'' \<and> n \<noteq> ''..'' \<and> CHR ''/'' \<notin> set n)
      (List.map_filter normal_name (path_components p))"
    unfolding list_all_iff using normal_names_wf by blast
  then have "\<exists>ns. ns \<noteq> [] \<and> resolve (path_push base p) = resolve base @ ns
      \<and> list_all (\<lambda>n. n \<noteq> [] \<and> n \<noteq> ''.'' \<and> n \<noteq> ''..'' \<and> CHR ''/'' \<notin> set n) ns"
    using accepted_resolve_push [OF Inr, of base] accepted_names_nonempty [OF Inr] by blast
  then show ?thesis
    by (simp only: Inr sum.case)
qed

lemma validate_output_name_Inr_iff:
  "validate_output_name name = Inr () \<longleftrightarrow> check_relative_path name = Inr ()"
  by (auto simp: validate_output_name_def split: sum.splits path_rejection.splits)

end
