(* ===== verification/Metainfo.thy ===== *)
theory Metainfo
  imports Bencode Paths Types
begin

text \<open>
  \<open>src/torrent/metainfo.rs\<close>: the parser of \<open>.torrent\<close> files and the geometry that maps
  pieces to byte ranges of files. SHA-1 (the \<open>sha1\<close> crate) is the argument \<open>sha1\<close> of the
  definitions that use it. A \<open>u64\<close> is a \<open>nat\<close>; the operators of \<open>piece_range\<close> and
  \<open>files_for_piece\<close> wrap, as they do in a release build, and that they never do on an
  accepted torrent is a lemma.
\<close>

section \<open>Data\<close>

type_synonym sha1_hash = bytes

record file_info =
  fi_path :: string
  fi_length :: nat
  fi_offset :: nat
  fi_md5sum :: "string option"

record info =
  in_name :: string
  in_piece_length :: nat
  in_pieces :: "sha1_hash list"
  in_files :: "file_info list"
  in_total_size :: nat
  in_is_single_file :: bool
  in_private :: bool

record metainfo =
  mi_info_hash :: sha1_hash
  mi_info :: info
  mi_announce :: "string option"
  mi_announce_list :: "string list list"
  mi_creation_date :: "int option"
  mi_comment :: "string option"
  mi_created_by :: "string option"
  mi_encoding :: "string option"
  mi_url_list :: "string list"
  mi_httpseeds :: "string list"

section \<open>Parsing\<close>

definition inv_torrent :: "string \<Rightarrow> engine_error" where
  "inv_torrent m = err_protocol InvalidTorrent m"

text \<open>\<open>dict.get(b"key")\<close>.\<close>

definition dget :: "(bytes \<times> bencode) list \<Rightarrow> string \<Rightarrow> bencode option" where
  "dget d k = map_of d (as_bytes k)"

definition validate_torrent_path :: "string \<Rightarrow> string \<Rightarrow> unit result" where
  "validate_torrent_path path what =
    (case check_relative_path path of
       Inr _ \<Rightarrow> Inr ()
     | Inl rejection \<Rightarrow> Inl (inv_torrent (''Invalid torrent: '' @ describe rejection what)))"

fun path_of_components :: "bencode list \<Rightarrow> string \<Rightarrow> string result" where
  "path_of_components [] path = Inr path"
| "path_of_components (c # cs) path =
    (case as_string c of
       None \<Rightarrow> Inl (inv_torrent ''Path component must be a string'')
     | Some s \<Rightarrow> path_of_components cs (path_push path s))"

definition parse_file_entry :: "bencode \<Rightarrow> nat \<Rightarrow> file_info result" where
  "parse_file_entry v offset =
    rbind (ok_or (inv_torrent ''File entry must be a dictionary'') (as_dict v)) (\<lambda>file_dict.
    rbind (ok_or (inv_torrent (''Missing '' @ quoted ''length'' @ '' in file entry''))
             (Option.bind (dget file_dict ''length'') as_uint)) (\<lambda>len.
    rbind (ok_or (inv_torrent (''Missing '' @ quoted ''path'' @ '' in file entry''))
             (dget file_dict ''path'')) (\<lambda>path_value.
    rbind (ok_or (inv_torrent (quoted ''path'' @ '' must be a list of strings''))
             (as_list path_value)) (\<lambda>path_list.
    rbind (path_of_components path_list []) (\<lambda>path.
    rbind (validate_torrent_path path ''file path'') (\<lambda>_.
    Inr \<lparr>fi_path = path, fi_length = len, fi_offset = offset,
         fi_md5sum = Option.bind (dget file_dict ''md5sum'') as_string\<rparr>))))))"

fun parse_files_loop ::
  "bencode list \<Rightarrow> file_info list \<Rightarrow> nat \<Rightarrow> (file_info list \<times> nat) result" where
  "parse_files_loop [] files offset = Inr (files, offset)"
| "parse_files_loop (v # vs) files offset =
    rbind (parse_file_entry v offset) (\<lambda>f.
      if offset + fi_length f < 2 ^ 64
      then parse_files_loop vs (files @ [f]) (offset + fi_length f)
      else Inl (inv_torrent ''Invalid torrent: total file size overflows''))"

definition parse_files :: "bencode \<Rightarrow> (file_info list \<times> nat) result" where
  "parse_files v =
    rbind (ok_or (inv_torrent (quoted ''files'' @ '' must be a list'')) (as_list v)) (\<lambda>l.
      parse_files_loop l [] 0)"

definition max_piece_length_hard :: nat where
  "max_piece_length_hard = 256 * 1024 * 1024"

definition parse_info :: "bencode \<Rightarrow> info result" where
  "parse_info v =
    rbind (ok_or (inv_torrent (quoted ''info'' @ '' must be a dictionary'')) (as_dict v)) (\<lambda>dict.
    rbind (ok_or (inv_torrent (''Missing '' @ quoted ''name'' @ '' in info''))
             (Option.bind (dget dict ''name'') as_string)) (\<lambda>name.
    rbind (validate_torrent_path name (quoted ''name'')) (\<lambda>_.
    rbind (ok_or (inv_torrent (''Missing or invalid '' @ quoted ''piece length''))
             (Option.bind (dget dict ''piece length'') as_uint)) (\<lambda>pl.
    if pl = 0
    then Inl (inv_torrent (''Invalid '' @ quoted ''piece length'' @ '': must be greater than zero''))
    else if max_piece_length_hard < pl
    then Inl (inv_torrent (''Invalid '' @ quoted ''piece length'' @ '': ''))
    else
    rbind (ok_or (inv_torrent (''Missing '' @ quoted ''pieces''))
             (Option.bind (dget dict ''pieces'') as_raw)) (\<lambda>pieces_bytes.
    if length pieces_bytes mod 20 \<noteq> 0
    then Inl (inv_torrent ''Invalid pieces length: '')
    else
    let pieces = chunks_exact 20 pieces_bytes;
        priv = (case Option.bind (dget dict ''private'') as_int of
                  Some i \<Rightarrow> i = 1 | None \<Rightarrow> False)
    in
    rbind
      (case dget dict ''files'' of
         Some files_value \<Rightarrow>
           rbind (parse_files files_value) (\<lambda>(files, total_size). Inr (files, total_size, False))
       | None \<Rightarrow>
           rbind (ok_or (inv_torrent (''Missing '' @ quoted ''length'' @ '' for single-file torrent''))
                    (Option.bind (dget dict ''length'') as_uint)) (\<lambda>len.
           Inr ([\<lparr>fi_path = name, fi_length = len, fi_offset = 0,
                  fi_md5sum = Option.bind (dget dict ''md5sum'') as_string\<rparr>], len, True)))
      (\<lambda>(files, total_size, is_single_file).
        if length pieces \<noteq> div_ceil total_size pl
        then Inl (inv_torrent ''Piece count mismatch: have '')
        else Inr \<lparr>in_name = name, in_piece_length = pl, in_pieces = pieces, in_files = files,
                  in_total_size = total_size, in_is_single_file = is_single_file,
                  in_private = priv\<rparr>))))))"

definition parse_announce_list :: "bencode option \<Rightarrow> string list list" where
  "parse_announce_list v =
    (case Option.bind v as_list of
       None \<Rightarrow> []
     | Some tiers \<Rightarrow>
         filter (\<lambda>tier. tier \<noteq> [])
           (List.map_filter
             (\<lambda>tier. map_option (List.map_filter as_string) (as_list tier)) tiers))"

definition is_http_url :: "string \<Rightarrow> bool" where
  "is_http_url s \<longleftrightarrow> starts_with ''http://'' s \<or> starts_with ''https://'' s"

definition parse_url_list :: "bencode option \<Rightarrow> string list" where
  "parse_url_list v =
    (case v of
       None \<Rightarrow> []
     | Some (BBytes b) \<Rightarrow>
         (case from_utf8 b of
            Some s \<Rightarrow> if is_http_url s then [s] else []
          | None \<Rightarrow> [])
     | Some (BList l) \<Rightarrow> filter is_http_url (List.map_filter as_string l)
     | Some _ \<Rightarrow> [])"

definition calculate_info_hash :: "(bytes \<Rightarrow> bytes) \<Rightarrow> bytes \<Rightarrow> sha1_hash" where
  "calculate_info_hash sha1 info_bytes = sha1 info_bytes"

definition parse_metainfo :: "(bytes \<Rightarrow> bytes) \<Rightarrow> bytes \<Rightarrow> metainfo result" where
  "parse_metainfo sha1 data =
    rbind (parse_exact data) (\<lambda>root.
    rbind (ok_or (inv_torrent ''Root must be a dictionary'') (as_dict root)) (\<lambda>dict.
    rbind (find_info_dict_bytes data) (\<lambda>info_bytes.
    rbind (ok_or (inv_torrent (''Missing '' @ quoted ''info'' @ '' key'')) (dget dict ''info''))
      (\<lambda>info_value.
    rbind (parse_info info_value) (\<lambda>info.
    Inr \<lparr>mi_info_hash = calculate_info_hash sha1 info_bytes, mi_info = info,
         mi_announce = Option.bind (dget dict ''announce'') as_string,
         mi_announce_list = parse_announce_list (dget dict ''announce-list''),
         mi_creation_date = Option.bind (dget dict ''creation date'') as_int,
         mi_comment = Option.bind (dget dict ''comment'') as_string,
         mi_created_by = Option.bind (dget dict ''created by'') as_string,
         mi_encoding = Option.bind (dget dict ''encoding'') as_string,
         mi_url_list = parse_url_list (dget dict ''url-list''),
         mi_httpseeds = parse_url_list (dget dict ''httpseeds'')\<rparr>)))))"

section \<open>Accessors and geometry\<close>

definition info_hash_hex :: "metainfo \<Rightarrow> string" where
  "info_hash_hex m = concat (map hex_byte (mi_info_hash m))"

definition upper_hex_char :: "nat \<Rightarrow> char" where
  "upper_hex_char d = ''0123456789ABCDEF'' ! d"

definition info_hash_urlencoded :: "metainfo \<Rightarrow> string" where
  "info_hash_urlencoded m =
    concat (map (\<lambda>b. [CHR ''%'', upper_hex_char (unat b div 16), upper_hex_char (unat b mod 16)])
      (mi_info_hash m))"

text \<open>\<open>slice::get\<close>.\<close>

definition lget :: "'a list \<Rightarrow> nat \<Rightarrow> 'a option" where
  "lget xs i = (if i < length xs then Some (xs ! i) else None)"

definition piece_hash :: "metainfo \<Rightarrow> nat \<Rightarrow> sha1_hash option" where
  "piece_hash m i = lget (in_pieces (mi_info m)) i"

definition piece_range :: "metainfo \<Rightarrow> nat \<Rightarrow> (nat \<times> nat) option" where
  "piece_range m i =
    (if length (in_pieces (mi_info m)) \<le> i then None
     else let start = u64 (i * in_piece_length (mi_info m));
              e = min (u64 (start + in_piece_length (mi_info m))) (in_total_size (mi_info m))
          in Some (start, e))"

definition piece_length :: "metainfo \<Rightarrow> nat \<Rightarrow> nat option" where
  "piece_length m i = map_option (\<lambda>(s, e). u64_sub e s) (piece_range m i)"

definition push_new :: "'a list \<Rightarrow> 'a \<Rightarrow> 'a list" where
  "push_new xs x = (if x \<in> set xs then xs else xs @ [x])"

definition all_trackers :: "metainfo \<Rightarrow> string list" where
  "all_trackers m =
    foldl push_new (case mi_announce m of Some a \<Rightarrow> [a] | None \<Rightarrow> []) (concat (mi_announce_list m))"

definition all_webseeds :: "metainfo \<Rightarrow> string list" where
  "all_webseeds m = foldl push_new (mi_url_list m) (mi_httpseeds m)"

definition has_webseeds :: "metainfo \<Rightarrow> bool" where
  "has_webseeds m \<longleftrightarrow> mi_url_list m \<noteq> [] \<or> mi_httpseeds m \<noteq> []"

text \<open>The loop of \<open>files_for_piece\<close> over the enumerated files.\<close>

fun overlaps :: "nat \<Rightarrow> nat \<Rightarrow> nat \<Rightarrow> file_info list \<Rightarrow> (nat \<times> nat \<times> nat) list" where
  "overlaps ps pe idx [] = []"
| "overlaps ps pe idx (f # fs) =
    (let file_start = fi_offset f; file_end = u64 (fi_offset f + fi_length f)
     in if pe \<le> file_start \<or> file_end \<le> ps then overlaps ps pe (Suc idx) fs
        else let o_start = max ps file_start; o_end = min pe file_end
             in (idx, u64_sub o_start file_start, u64_sub o_end o_start)
                  # overlaps ps pe (Suc idx) fs)"

definition files_for_piece :: "metainfo \<Rightarrow> nat \<Rightarrow> (nat \<times> nat \<times> nat) list" where
  "files_for_piece m i =
    (case piece_range m i of
       None \<Rightarrow> []
     | Some (ps, pe) \<Rightarrow> overlaps ps pe 0 (in_files (mi_info m)))"

definition num_pieces :: "info \<Rightarrow> nat" where
  "num_pieces i = length (in_pieces i)"

section \<open>What an accepted torrent satisfies\<close>

text \<open>The files lie one after another and end at the total size.\<close>

fun contiguous :: "nat \<Rightarrow> file_info list \<Rightarrow> nat \<Rightarrow> bool" where
  "contiguous p [] e \<longleftrightarrow> p = e"
| "contiguous p (f # fs) e \<longleftrightarrow> fi_offset f = p \<and> contiguous (p + fi_length f) fs e"

definition safe_path :: "string \<Rightarrow> bool" where
  "safe_path p \<longleftrightarrow> check_relative_path p = Inr ()"

definition wf_info :: "info \<Rightarrow> bool" where
  "wf_info i \<longleftrightarrow>
    0 < in_piece_length i \<and> in_piece_length i \<le> max_piece_length_hard
    \<and> list_all (\<lambda>h. length h = 20) (in_pieces i)
    \<and> length (in_pieces i) = div_ceil (in_total_size i) (in_piece_length i)
    \<and> length (in_pieces i) * 20 \<le> max_string_length
    \<and> contiguous 0 (in_files i) (in_total_size i)
    \<and> safe_path (in_name i)
    \<and> list_all (\<lambda>f. safe_path (fi_path f)) (in_files i)
    \<and> (in_is_single_file i \<longrightarrow>
         length (in_files i) = 1 \<and> fi_path (hd (in_files i)) = in_name i)"

lemma contiguous_append:
  "contiguous p (fs @ gs) e \<longleftrightarrow> (\<exists>q. contiguous p fs q \<and> contiguous q gs e)"
  by (induction fs arbitrary: p) auto

lemma contiguous_le: "contiguous p fs e \<Longrightarrow> p \<le> e"
  by (induction fs arbitrary: p) force+

lemma contiguous_sum: "contiguous p fs e \<Longrightarrow> e = p + sum_list (map fi_length fs)"
  by (induction fs arbitrary: p) force+

lemma contiguous_bound:
  "contiguous p fs e \<Longrightarrow> f \<in> set fs \<Longrightarrow> p \<le> fi_offset f \<and> fi_offset f + fi_length f \<le> e"
proof (induction fs arbitrary: p)
  case (Cons g fs)
  show ?case
  proof (cases "f = g")
    case True
    with Cons.prems contiguous_le show ?thesis by auto
  next
    case False
    with Cons show ?thesis by force
  qed
qed simp

lemma validate_torrent_path_Inr [simp]:
  "validate_torrent_path p what = Inr u \<longleftrightarrow> safe_path p"
  by (auto simp: validate_torrent_path_def safe_path_def split: sum.splits)

lemma parse_file_entry_Inr:
  "parse_file_entry v offset = Inr f \<Longrightarrow> fi_offset f = offset \<and> safe_path (fi_path f)"
  by (auto simp: parse_file_entry_def rbind_Inr_iff)

lemma parse_files_loop_Inr:
  "parse_files_loop vs files offset = Inr (files', e) \<Longrightarrow> contiguous p files offset \<Longrightarrow>
    list_all (\<lambda>f. safe_path (fi_path f)) files \<Longrightarrow>
    contiguous p files' e \<and> list_all (\<lambda>f. safe_path (fi_path f)) files'"
proof (induction vs arbitrary: files offset)
  case Nil
  then show ?case by simp
next
  case (Cons v vs)
  then obtain f where f: "parse_file_entry v offset = Inr f"
    and l: "parse_files_loop vs (files @ [f]) (offset + fi_length f) = Inr (files', e)"
    by (auto simp: rbind_Inr_iff split: if_splits)
  from Cons.IH [OF l] Cons.prems parse_file_entry_Inr [OF f] show ?case
    by (simp add: contiguous_append)
qed

lemma parse_files_Inr:
  "parse_files v = Inr (files, e) \<Longrightarrow>
    contiguous 0 files e \<and> list_all (\<lambda>f. safe_path (fi_path f)) files"
  by (auto simp: parse_files_def rbind_Inr_iff dest!: parse_files_loop_Inr [where p = 0])

lemma dget_wf: "wf_bencode (BDict d) \<Longrightarrow> dget d k = Some v \<Longrightarrow> wf_bencode v"
  by (auto simp: dget_def dest!: map_of_SomeD)

lemma as_raw_wf: "wf_bencode v \<Longrightarrow> as_raw v = Some b \<Longrightarrow> length b \<le> max_string_length"
  by (cases v) auto

lemma as_dict_Some [simp]: "as_dict v = Some d \<longleftrightarrow> v = BDict d"
  by (cases v) auto

lemma parse_info_wf:
  assumes "parse_info v = Inr i" and "wf_bencode v"
  shows "wf_info i"
proof -
  from assms(1) obtain d where v: "v = BDict d" by (auto simp: parse_info_def rbind_Inr_iff)
  from assms(1) [unfolded v parse_info_def] obtain name pl b fs where
    nm: "safe_path name" and pl: "0 < pl" "pl \<le> max_piece_length_hard"
    and b: "Option.bind (dget d ''pieces'') as_raw = Some b" "length b mod 20 = 0"
    and fs: "(case dget d ''files'' of
         Some files_value \<Rightarrow>
           rbind (parse_files files_value) (\<lambda>(files, total_size). Inr (files, total_size, False))
       | None \<Rightarrow>
           rbind (ok_or (inv_torrent (''Missing '' @ quoted ''length'' @ '' for single-file torrent''))
                    (Option.bind (dget d ''length'') as_uint)) (\<lambda>len.
           Inr ([\<lparr>fi_path = name, fi_length = len, fi_offset = 0,
                  fi_md5sum = Option.bind (dget d ''md5sum'') as_string\<rparr>], len, True))) = Inr fs"
    and n: "length (chunks_exact 20 b) = div_ceil (fst (snd fs)) pl"
    and i: "in_name i = name" "in_piece_length i = pl" "in_pieces i = chunks_exact 20 b"
      "in_files i = fst fs" "in_total_size i = fst (snd fs)" "in_is_single_file i = snd (snd fs)"
    by (auto simp: rbind_Inr_iff Let_def split: if_splits prod.splits)
  have "length b \<le> max_string_length"
    using b(1) as_raw_wf dget_wf [OF assms(2) [unfolded v]] by (auto simp: bind_eq_Some_conv)
  then have sz: "length (in_pieces i) * 20 \<le> max_string_length"
    using i(3) by simp
  have "contiguous 0 (fst fs) (fst (snd fs)) \<and> list_all (\<lambda>f. safe_path (fi_path f)) (fst fs)
    \<and> (snd (snd fs) \<longrightarrow> length (fst fs) = 1 \<and> fi_path (hd (fst fs)) = name)"
    using fs nm by (auto simp: rbind_Inr_iff split: option.splits dest!: parse_files_Inr)
  moreover have "list_all (\<lambda>h. length h = 20) (in_pieces i)"
    using i(3) by (auto simp: list_all_iff dest: chunks_exact_length)
  ultimately show ?thesis
    using nm pl n sz i by (simp add: wf_info_def)
qed

lemma parse_metainfo_Inr:
  assumes "parse_metainfo sha1 data = Inr m"
  obtains d v where "parse_exact data = Inr (BDict d)" and "dget d ''info'' = Some v"
    and "parse_info v = Inr (mi_info m)" and "wf_bencode v"
    and "\<And>b. find_info_dict_bytes data = Inr b \<Longrightarrow> mi_info_hash m = sha1 b"
proof -
  from assms obtain d b v where d: "parse_exact data = Inr (BDict d)"
    and b: "find_info_dict_bytes data = Inr b" and v: "dget d ''info'' = Some v"
    and i: "parse_info v = Inr (mi_info m)" and h: "mi_info_hash m = sha1 b"
    by (auto simp: parse_metainfo_def rbind_Inr_iff calculate_info_hash_def)
  have "wf_bencode (BDict d)"
    using parse_encodable [of data "BDict d" "[]"] d by (simp add: parse_exact_iff encodable_def)
  then have "wf_bencode v" using v by (rule dget_wf)
  with d b v i h that show thesis by auto
qed

lemma parse_metainfo_wf: "parse_metainfo sha1 data = Inr m \<Longrightarrow> wf_info (mi_info m)"
  by (erule parse_metainfo_Inr) (rule parse_info_wf)

section \<open>The piece geometry\<close>

lemma wf_info_small:
  assumes "wf_info i"
  shows "length (in_pieces i) * in_piece_length i < 2 ^ 63" and "in_total_size i < 2 ^ 63"
proof -
  have "length (in_pieces i) \<le> 5242880" "in_piece_length i \<le> 268435456"
    using assms by (auto simp: wf_info_def max_string_length_def max_piece_length_hard_def)
  then have "length (in_pieces i) * in_piece_length i \<le> 5242880 * 268435456"
    by (rule mult_le_mono)
  then show *: "length (in_pieces i) * in_piece_length i < 2 ^ 63" by simp
  have "in_total_size i \<le> length (in_pieces i) * in_piece_length i"
    using assms div_ceil_le [of "in_piece_length i" "in_total_size i"] by (auto simp: wf_info_def)
  with * show "in_total_size i < 2 ^ 63" by simp
qed

lemma piece_range_wf:
  assumes "wf_info (mi_info m)" and "k < num_pieces (mi_info m)"
  shows "piece_range m k = Some (k * in_piece_length (mi_info m),
      min ((k + 1) * in_piece_length (mi_info m)) (in_total_size (mi_info m)))"
    and "k * in_piece_length (mi_info m) < in_total_size (mi_info m)"
proof -
  let ?i = "mi_info m"
  have "(k + 1) * in_piece_length ?i \<le> length (in_pieces ?i) * in_piece_length ?i"
    using assms(2) unfolding num_pieces_def by (intro mult_le_mono1) simp
  with wf_info_small [OF assms(1)] have "(k + 1) * in_piece_length ?i < 2 ^ 63" by linarith
  then show "piece_range m k = Some (k * in_piece_length ?i,
      min ((k + 1) * in_piece_length ?i) (in_total_size ?i))"
    using assms(2) by (simp add: piece_range_def num_pieces_def Let_def add.commute)
  show "k * in_piece_length ?i < in_total_size ?i"
    using assms by (auto simp: wf_info_def num_pieces_def intro: div_ceil_gt)
qed

lemma piece_range_None: "num_pieces (mi_info m) \<le> k \<longleftrightarrow> piece_range m k = None"
  by (simp add: piece_range_def num_pieces_def Let_def)

lemma piece_length_wf:
  assumes "wf_info (mi_info m)" and "piece_range m k = Some (s, e)"
  shows "piece_length m k = Some (e - s)" and "s < e" and "e - s \<le> in_piece_length (mi_info m)"
    and "e \<le> in_total_size (mi_info m)"
proof -
  have k: "k < num_pieces (mi_info m)"
    using assms(2) piece_range_None [of m k] by (metis not_le option.distinct(1))
  note r = piece_range_wf [OF assms(1) k]
  have se: "s = k * in_piece_length (mi_info m)"
    "e = min ((k + 1) * in_piece_length (mi_info m)) (in_total_size (mi_info m))"
    using r(1) assms(2) by simp_all
  show "e \<le> in_total_size (mi_info m)" using se by simp
  show "s < e" using se r(2) assms(1) by (simp add: wf_info_def)
  then show "piece_length m k = Some (e - s)"
    using assms(2) se wf_info_small(2) [OF assms(1)] by (simp add: piece_length_def)
  have "e \<le> s + in_piece_length (mi_info m)" using se by simp
  then show "e - s \<le> in_piece_length (mi_info m)" by linarith
qed

definition piece_slice :: "metainfo \<Rightarrow> 'a list \<Rightarrow> nat \<Rightarrow> 'a list" where
  "piece_slice m content k =
    (case piece_range m k of None \<Rightarrow> [] | Some (s, e) \<Rightarrow> slice s e content)"

lemma piece_slices_concat:
  assumes "wf_info (mi_info m)" and "length content = in_total_size (mi_info m)"
    and "n \<le> num_pieces (mi_info m)"
  shows "concat (map (piece_slice m content) [0..<n])
    = slice 0 (min (n * in_piece_length (mi_info m)) (length content)) content"
  using assms(3)
proof (induction n)
  case 0
  then show ?case by simp
next
  case (Suc n)
  let ?pl = "in_piece_length (mi_info m)"
  have "piece_slice m content n = slice (n * ?pl) (min (Suc n * ?pl) (length content)) content"
    using piece_range_wf [OF assms(1), of n] Suc.prems assms(2) by (simp add: piece_slice_def)
  moreover have lt: "n * ?pl < length content"
    using piece_range_wf(2) [OF assms(1), of n] Suc.prems assms(2) by simp
  moreover have "slice 0 (n * ?pl) content @ slice (n * ?pl) (min (Suc n * ?pl) (length content)) content
    = slice 0 (min (Suc n * ?pl) (length content)) content"
    using lt by (intro slice_join) auto
  ultimately show ?case using Suc by simp
qed

lemma concat_piece_slices:
  assumes "wf_info (mi_info m)" and "length content = in_total_size (mi_info m)"
  shows "concat (map (piece_slice m content) [0..<num_pieces (mi_info m)]) = content"
proof -
  have "length content \<le> num_pieces (mi_info m) * in_piece_length (mi_info m)"
    using assms div_ceil_le by (auto simp: wf_info_def num_pieces_def)
  then show ?thesis
    using piece_slices_concat [OF assms order_refl] by (simp add: min_def split: if_splits)
qed

section \<open>The file segments of a piece\<close>

definition segments :: "(nat \<Rightarrow> 'a list) \<Rightarrow> (nat \<times> nat \<times> nat) list \<Rightarrow> 'a list" where
  "segments file_data segs = concat (map (\<lambda>(k, off, len). slice off (off + len) (file_data k)) segs)"

lemma segments_simps [simp]:
  "segments F [] = []"
  "segments F ((k, off, len) # segs) = slice off (off + len) (F k) @ segments F segs"
  by (simp_all add: segments_def)

lemma overlaps_slice:
  assumes "contiguous p fs e" and "e < 2 ^ 64" and "pe < 2 ^ 64" and "ps \<le> pe"
    and "\<And>j. j < length fs \<Longrightarrow> length (F (idx + j)) = fi_length (fs ! j)"
  shows "segments F (overlaps ps pe idx fs)
    = slice (ps - p) (pe - p) (concat (map (\<lambda>j. F (idx + j)) [0..<length fs]))"
  using assms(1,5)
proof (induction fs arbitrary: p idx)
  case Nil
  then show ?case by simp
next
  case (Cons f fs)
  let ?q = "p + fi_length f"
  have le: "?q \<le> e" using Cons.prems(1) contiguous_le [of ?q fs e] by simp
  have len: "length (F idx) = fi_length f" using Cons.prems(2) [of 0] by simp
  have IH: "segments F (overlaps ps pe (Suc idx) fs)
    = slice (ps - ?q) (pe - ?q) (concat (map (\<lambda>j. F (Suc idx + j)) [0..<length fs]))"
    using Cons.IH [of ?q "Suc idx"] Cons.prems(1) Cons.prems(2) [of "Suc _"] by simp
  have "[0..<length (f # fs)] = 0 # map Suc [0..<length fs]"
    by (simp add: upt_conv_Cons map_Suc_upt del: upt_Suc)
  then have "concat (map (\<lambda>j. F (idx + j)) [0..<length (f # fs)])
    = F idx @ concat (map (\<lambda>j. F (Suc idx + j)) [0..<length fs])"
    by (simp only:) (simp add: comp_def)
  then have split: "slice (ps - p) (pe - p) (concat (map (\<lambda>j. F (idx + j)) [0..<length (f # fs)]))
    = slice (ps - p) (pe - p) (F idx)
      @ slice (ps - ?q) (pe - ?q) (concat (map (\<lambda>j. F (Suc idx + j)) [0..<length fs]))"
    using len by (simp add: slice_append)
  have off: "fi_offset f = p" using Cons.prems(1) by simp
  have end_eq: "u64 (fi_offset f + fi_length f) = ?q" using le assms(2) off by simp
  show ?case
  proof (cases "pe \<le> p \<or> ?q \<le> ps")
    case True
    then have "slice (ps - p) (pe - p) (F idx) = []" using len by auto
    with True show ?thesis using IH split off end_eq by (simp add: Let_def)
  next
    case False
    have mm: "max ps p \<le> min pe ?q" using False assms(4) by auto
    have "max ps p - p + (min pe ?q - max ps p) = min (pe - p) (fi_length f)"
      using mm by (auto simp: min_def max_def)
    moreover have "max ps p - p = ps - p" by simp
    ultimately have "slice (max ps p - p) (max ps p - p + (min pe ?q - max ps p)) (F idx)
      = slice (ps - p) (pe - p) (F idx)"
      using slice_cong_min [OF len] by metis
    moreover have "max ps p < 2 ^ 64" "min pe ?q < 2 ^ 64"
      using mm assms(3) by auto
    ultimately show ?thesis using IH split off end_eq False mm
      by (simp add: Let_def del: max_less_iff_conj)
  qed
qed

lemma overlaps_mem:
  "(idx, off, len) \<in> set (overlaps ps pe b fs) \<longleftrightarrow>
    (\<exists>j < length fs. idx = b + j
       \<and> fi_offset (fs ! j) < pe \<and> ps < u64 (fi_offset (fs ! j) + fi_length (fs ! j))
       \<and> off = u64_sub (max ps (fi_offset (fs ! j))) (fi_offset (fs ! j))
       \<and> len = u64_sub (min pe (u64 (fi_offset (fs ! j) + fi_length (fs ! j))))
                (max ps (fi_offset (fs ! j))))"
  (is "_ \<longleftrightarrow> (\<exists>j < length fs. ?Q b fs j)")
proof (induction fs arbitrary: b)
  case Nil
  then show ?case by simp
next
  case (Cons f fs)
  have "(\<exists>j < length (f # fs). ?Q b (f # fs) j)
    \<longleftrightarrow> ?Q b (f # fs) 0 \<or> (\<exists>j < length fs. ?Q (Suc b) fs j)"
    by (simp only: length_Cons Ex_less_Suc2) (simp add: conj_ac)
  moreover have "(idx, off, len) \<in> set (overlaps ps pe b (f # fs))
    \<longleftrightarrow> ?Q b (f # fs) 0 \<or> (idx, off, len) \<in> set (overlaps ps pe (Suc b) fs)"
    by (auto simp: Let_def not_le)
  ultimately show ?case using Cons.IH [of "Suc b"] by simp
qed

lemma fst_triple_iff: "i \<in> fst ` S \<longleftrightarrow> (\<exists>a b. (i, a, b) \<in> S)"
  by force

lemma overlaps_ge: "(idx, off, len) \<in> set (overlaps ps pe b fs) \<Longrightarrow> b \<le> idx \<and> idx < b + length fs"
  by (auto simp: overlaps_mem)

lemma overlaps_distinct: "distinct (map fst (overlaps ps pe b fs))"
proof (induction fs arbitrary: b)
  case (Cons f fs)
  have "b \<notin> fst ` set (overlaps ps pe (Suc b) fs)"
    using overlaps_ge [of b _ _ ps pe "Suc b" fs] by force
  then show ?case using Cons by (simp add: Let_def)
qed simp

text \<open>The segments of a piece in arithmetic without wrap-around.\<close>

lemma files_for_piece_mem:
  assumes "wf_info (mi_info m)" and "piece_range m k = Some (s, e)"
    and "(idx, off, len) \<in> set (files_for_piece m k)"
  shows "idx < length (in_files (mi_info m))"
    and "off = max s (fi_offset (in_files (mi_info m) ! idx)) - fi_offset (in_files (mi_info m) ! idx)"
    and "off + len = min e (fi_offset (in_files (mi_info m) ! idx) + fi_length (in_files (mi_info m) ! idx))
          - fi_offset (in_files (mi_info m) ! idx)"
proof -
  let ?f = "in_files (mi_info m) ! idx"
  note l = piece_length_wf [OF assms(1,2)]
  have small: "in_total_size (mi_info m) < 2 ^ 64" using wf_info_small(2) [OF assms(1)] by simp
  show idx: "idx < length (in_files (mi_info m))"
    using assms(3) by (simp add: files_for_piece_def assms(2) overlaps_mem)
  then have "?f \<in> set (in_files (mi_info m))" by simp
  then have fe: "fi_offset ?f + fi_length ?f \<le> in_total_size (mi_info m)"
    using assms(1) contiguous_bound by (auto simp: wf_info_def)
  then have u: "u64 (fi_offset ?f + fi_length ?f) = fi_offset ?f + fi_length ?f"
    using small by simp
  have m: "fi_offset ?f < e" "s < fi_offset ?f + fi_length ?f"
    and off: "off = u64_sub (max s (fi_offset ?f)) (fi_offset ?f)"
    and len: "len = u64_sub (min e (fi_offset ?f + fi_length ?f)) (max s (fi_offset ?f))"
    using assms(3) by (auto simp: files_for_piece_def assms(2) overlaps_mem u)
  have le: "max s (fi_offset ?f) \<le> min e (fi_offset ?f + fi_length ?f)" using m l(2) by auto
  have lt: "min e (fi_offset ?f + fi_length ?f) < 2 ^ 64" "max s (fi_offset ?f) < 2 ^ 64"
    using l(4) small le fe by linarith+
  show o: "off = max s (fi_offset ?f) - fi_offset ?f" using off lt by simp
  have "len = min e (fi_offset ?f + fi_length ?f) - max s (fi_offset ?f)"
    using len u64_sub_le [OF le lt(1)] by simp
  then show "off + len = min e (fi_offset ?f + fi_length ?f) - fi_offset ?f"
    using o le by linarith
qed

lemma file_in_piece_iff:
  assumes "wf_info (mi_info m)" and "k < num_pieces (mi_info m)"
    and "idx < length (in_files (mi_info m))" and "0 < fi_length (in_files (mi_info m) ! idx)"
  shows "idx \<in> fst ` set (files_for_piece m k) \<longleftrightarrow>
    fi_offset (in_files (mi_info m) ! idx) div in_piece_length (mi_info m) \<le> k
    \<and> k \<le> (fi_offset (in_files (mi_info m) ! idx) + fi_length (in_files (mi_info m) ! idx) - 1)
          div in_piece_length (mi_info m)"
proof -
  let ?f = "in_files (mi_info m) ! idx" and ?pl = "in_piece_length (mi_info m)"
  let ?t = "in_total_size (mi_info m)"
  have pl: "0 < ?pl" using assms(1) by (simp add: wf_info_def)
  have "?f \<in> set (in_files (mi_info m))" using assms(3) by simp
  then have fe: "fi_offset ?f + fi_length ?f \<le> ?t"
    using assms(1) contiguous_bound by (auto simp: wf_info_def)
  then have u: "u64 (fi_offset ?f + fi_length ?f) = fi_offset ?f + fi_length ?f"
    using wf_info_small(2) [OF assms(1)] by simp
  have "idx \<in> fst ` set (files_for_piece m k)
    \<longleftrightarrow> fi_offset ?f < min ((k + 1) * ?pl) ?t \<and> k * ?pl < fi_offset ?f + fi_length ?f"
    using assms(3) piece_range_wf(1) [OF assms(1,2)]
    by (auto simp: files_for_piece_def overlaps_mem u fst_triple_iff)
  also have "fi_offset ?f < min ((k + 1) * ?pl) ?t \<longleftrightarrow> fi_offset ?f div ?pl < k + 1"
    using fe assms(4) pl by (simp add: div_less_iff_less_mult)
  also have "k * ?pl < fi_offset ?f + fi_length ?f
    \<longleftrightarrow> k \<le> (fi_offset ?f + fi_length ?f - 1) div ?pl"
    using assms(4) pl by (auto simp: less_eq_div_iff_mult_less_eq)
  finally show ?thesis by (simp add: less_Suc_eq_le)
qed

lemma segments_of_piece:
  assumes "wf_info (mi_info m)" and "k < num_pieces (mi_info m)"
    and "\<And>j. j < length (in_files (mi_info m)) \<Longrightarrow> length (F j) = fi_length (in_files (mi_info m) ! j)"
  shows "segments F (files_for_piece m k)
    = piece_slice m (concat (map F [0..<length (in_files (mi_info m))])) k"
proof -
  let ?i = "mi_info m"
  obtain s e where r: "piece_range m k = Some (s, e)"
    using piece_range_wf(1) [OF assms(1,2)] by blast
  note l = piece_length_wf [OF assms(1) r]
  have "segments F (overlaps s e 0 (in_files ?i))
    = slice (s - 0) (e - 0) (concat (map (\<lambda>j. F (0 + j)) [0..<length (in_files ?i)]))"
  proof (rule overlaps_slice)
    show "contiguous 0 (in_files ?i) (in_total_size ?i)" using assms(1) by (simp add: wf_info_def)
    show "in_total_size ?i < 2 ^ 64" "e < 2 ^ 64"
      using wf_info_small(2) [OF assms(1)] l(4) by simp_all
    show "s \<le> e" using l(2) by simp
    show "\<And>j. j < length (in_files ?i) \<Longrightarrow> length (F (0 + j)) = fi_length (in_files ?i ! j)"
      using assms(3) by simp
  qed
  then show ?thesis using r by (simp add: files_for_piece_def piece_slice_def)
qed

lemma length_concat_files:
  assumes "wf_info i"
    and "\<And>j. j < length (in_files i) \<Longrightarrow> length (F j) = fi_length (in_files i ! j)"
  shows "length (concat (map F [0..<length (in_files i)])) = in_total_size i"
proof -
  have "map (\<lambda>j. length (F j)) [0..<length (in_files i)] = map fi_length (in_files i)"
    using assms(2) by (intro nth_equalityI) simp_all
  then have "length (concat (map F [0..<length (in_files i)])) = sum_list (map fi_length (in_files i))"
    by (simp add: length_concat comp_def)
  then show ?thesis
    using contiguous_sum [of 0 "in_files i" "in_total_size i"] assms(1) by (simp add: wf_info_def)
qed

text \<open>A two-file torrent whose middle piece spans both files.\<close>

definition two_file_torrent :: bencode where
  "two_file_torrent =
    BDict [(as_bytes ''info'', BDict
      [(as_bytes ''files'', BList
         [BDict [(as_bytes ''length'', BInteger 3), (as_bytes ''path'', BList [BBytes (as_bytes ''a'')])],
          BDict [(as_bytes ''length'', BInteger 2),
                 (as_bytes ''path'', BList [BBytes (as_bytes ''b''), BBytes (as_bytes ''c'')])]]),
       (as_bytes ''name'', BBytes (as_bytes ''d'')),
       (as_bytes ''piece length'', BInteger 2),
       (as_bytes ''pieces'', BBytes (replicate 60 0))])]"

definition two_file_info :: info where
  "two_file_info =
    \<lparr>in_name = ''d'', in_piece_length = 2, in_pieces = replicate 3 (replicate 20 0),
     in_files = [\<lparr>fi_path = ''a'', fi_length = 3, fi_offset = 0, fi_md5sum = None\<rparr>,
                 \<lparr>fi_path = ''b/c'', fi_length = 2, fi_offset = 3, fi_md5sum = None\<rparr>],
     in_total_size = 5, in_is_single_file = False, in_private = False\<rparr>"

lemma two_file_encodable: "encodable two_file_torrent"
  by (simp add: encodable_def two_file_torrent_def max_string_length_def max_parse_depth_def byte_of_def)

lemma two_file_parse_info:
  "case two_file_torrent of BDict d \<Rightarrow>
     (case dget d ''info'' of Some v \<Rightarrow> is_dict v \<and> parse_info v = Inr two_file_info | None \<Rightarrow> False)
   | _ \<Rightarrow> False"
  by (simp add: two_file_torrent_def two_file_info_def dget_def parse_info_def parse_files_def
      parse_file_entry_def validate_torrent_path_def check_relative_path_def path_components_def
      is_absolute_def path_names_def component_of_def path_push_def max_piece_length_hard_def
      chunks_exact_def div_ceil_def upt_rec byte_of_def numeral_3_eq_3 del: as_bytes_simps)

lemma two_file_parses:
  "\<exists>m. parse_metainfo sha1 (encode two_file_torrent) = Inr m \<and> mi_info m = two_file_info"
proof -
  obtain d v where d: "two_file_torrent = BDict d" and v: "dget d ''info'' = Some v" "is_dict v"
    "parse_info v = Inr two_file_info"
    using two_file_parse_info by (auto split: bencode.splits option.splits)
  have p: "parse_exact (encode two_file_torrent) = Inr (BDict d)"
    using parse_encode [OF two_file_encodable, of "[]"] d by (simp add: parse_exact_iff)
  obtain b where "find_info_dict_bytes (encode two_file_torrent) = Inr b"
    using find_info_span [OF p] v by (auto simp: dget_def)
  then show ?thesis using p v by (simp add: parse_metainfo_def)
qed

section \<open>Properties\<close>

text \<open>C8. Whatever bytes it is given, a torrent that the parser accepts has a positive piece
  length of at most 256 MiB, 20-byte piece hashes, exactly as many pieces as the total size
  needs, files laid out back to back from 0 to the total size, and only names and paths that
  stay below the save directory; and the arithmetic on its sizes fits in 63 bits.\<close>

theorem accepted_torrent_wf:
  assumes "parse_metainfo sha1 data = Inr m"
  shows "wf_info (mi_info m)
    \<and> num_pieces (mi_info m) * in_piece_length (mi_info m) < 2 ^ 63
    \<and> in_total_size (mi_info m) < 2 ^ 63"
  using parse_metainfo_wf [OF assms] wf_info_small by (simp add: num_pieces_def)

lemma accepted_torrent_wf_witness:
  "\<exists>m. parse_metainfo (\<lambda>_. []) (encode two_file_torrent) = Inr m \<and> wf_info (mi_info m)"
  using two_file_parses [of "\<lambda>_. []"] accepted_torrent_wf by blast

text \<open>C18. The info hash is the SHA-1 of exactly the bytes of the file that the info
  dictionary was parsed from, and the parsed info comes from that same dictionary: for an
  accepted torrent the file splits into a part before, the hashed span and a part after, and
  the span alone parses to the dictionary the info record was read from.\<close>

theorem info_hash_of_info_bytes:
  assumes "parse_metainfo sha1 data = Inr m"
  shows "\<exists>pre span post v. data = pre @ span @ post \<and> parse_exact span = Inr v
    \<and> parse_info v = Inr (mi_info m) \<and> mi_info_hash m = sha1 span"
proof -
  obtain d v where d: "parse_exact data = Inr (BDict d)" and v: "dget d ''info'' = Some v"
    and i: "parse_info v = Inr (mi_info m)"
    and h: "\<And>b. find_info_dict_bytes data = Inr b \<Longrightarrow> mi_info_hash m = sha1 b"
    using assms by (rule parse_metainfo_Inr) blast
  have "is_dict v" using i by (auto simp: parse_info_def rbind_Inr_iff)
  then obtain pre span post where "data = pre @ span @ post" "find_info_dict_bytes data = Inr span"
    "parse_exact span = Inr v"
    using find_info_span [OF d v [unfolded dget_def]] by auto
  with i h show ?thesis by blast
qed

lemma info_hash_of_info_bytes_witness:
  "\<exists>m span. parse_metainfo (take 20) (encode two_file_torrent) = Inr m \<and> mi_info_hash m = take 20 span"
  using two_file_parses [of "take 20"] info_hash_of_info_bytes by blast

text \<open>C19. The pieces partition the content of the torrent and the file segments of a piece are
  its bytes: for files of the sizes the torrent states, reading the segments that
  \<open>files_for_piece\<close> lists for piece \<open>k\<close> gives bytes \<open>[k * piece_length, (k + 1) * piece_length)\<close>
  of the concatenated files, cut at the total size, and reading the pieces in order gives the
  whole content once.\<close>

theorem segments_cover_pieces:
  assumes "parse_metainfo sha1 data = Inr m"
    and "length Fs = length (in_files (mi_info m))"
    and "list_all2 (\<lambda>f bs. length bs = fi_length f) (in_files (mi_info m)) Fs"
  shows "list_all (\<lambda>k. segments (nth Fs) (files_for_piece m k)
        = slice (k * in_piece_length (mi_info m)) ((k + 1) * in_piece_length (mi_info m)) (concat Fs))
      [0..<num_pieces (mi_info m)]
    \<and> concat (map (\<lambda>k. segments (nth Fs) (files_for_piece m k)) [0..<num_pieces (mi_info m)])
      = concat Fs"
proof -
  let ?i = "mi_info m"
  have wf: "wf_info ?i" by (rule parse_metainfo_wf [OF assms(1)])
  have len: "\<And>j. j < length (in_files ?i) \<Longrightarrow> length (Fs ! j) = fi_length (in_files ?i ! j)"
    using assms(3) by (auto simp: list_all2_conv_all_nth)
  have Fs: "map (nth Fs) [0..<length (in_files ?i)] = Fs"
    using assms(2) by (metis map_nth)
  have total: "length (concat Fs) = in_total_size ?i"
    using length_concat_files [OF wf len] by (simp only: Fs)
  have seg: "segments (nth Fs) (files_for_piece m k) = piece_slice m (concat Fs) k"
    if "k < num_pieces ?i" for k
    using segments_of_piece [OF wf that len] by (simp only: Fs)
  have "piece_slice m (concat Fs) k = slice (k * in_piece_length ?i) ((k + 1) * in_piece_length ?i) (concat Fs)"
    if "k < num_pieces ?i" for k
    using piece_range_wf(1) [OF wf that] slice_cong_min [OF total] by (simp add: piece_slice_def)
  moreover have "map (\<lambda>k. segments (nth Fs) (files_for_piece m k)) [0..<num_pieces ?i]
    = map (piece_slice m (concat Fs)) [0..<num_pieces ?i]"
    using seg by simp
  then have "concat (map (\<lambda>k. segments (nth Fs) (files_for_piece m k)) [0..<num_pieces ?i]) = concat Fs"
    using concat_piece_slices [OF wf total] by (simp only:)
  ultimately show ?thesis
    using seg by (simp add: list_all_iff)
qed

lemma segments_cover_pieces_witness:
  "\<exists>m. parse_metainfo (\<lambda>_. []) (encode two_file_torrent) = Inr m
     \<and> segments (nth [[10, 11, 12], [13, 14 :: nat]]) (files_for_piece m 1) = [12, 13]"
proof -
  obtain m where m: "parse_metainfo (\<lambda>_. []) (encode two_file_torrent) = Inr m"
    and i: "mi_info m = two_file_info"
    using two_file_parses by blast
  have "segments (nth [[10, 11, 12], [13, 14 :: nat]]) (files_for_piece m 1)
    = slice 2 4 [10, 11, 12, 13, 14]"
    using segments_cover_pieces [OF m, of "[[10, 11, 12], [13, 14 :: nat]]"] i
    by (simp add: two_file_info_def num_pieces_def upt_rec)
  then show ?thesis using m by (auto simp: slice_def)
qed

lemma all_trackers_spec:
  "distinct (all_trackers m) \<and>
   set (all_trackers m) = set_option (mi_announce m) \<union> set (concat (mi_announce_list m))"
proof -
  have "distinct xs \<Longrightarrow> distinct (foldl push_new xs ys) \<and> set (foldl push_new xs ys) = set xs \<union> set ys"
    for xs ys :: "string list"
    by (induction ys arbitrary: xs) (auto simp: push_new_def)
  then show ?thesis by (auto simp: all_trackers_def split: option.splits)
qed

text \<open>The list of web seeds keeps the duplicates of \<open>url-list\<close> itself.\<close>

lemma all_webseeds_keeps_duplicates:
  "mi_url_list m = [u, u] \<Longrightarrow> mi_httpseeds m = [] \<Longrightarrow> all_webseeds m = [u, u]"
  by (simp add: all_webseeds_def)

end
