(* ===== verification/PendingPiece.thy ===== *)
theory PendingPiece
  imports Metainfo
begin

text \<open>
  \<open>PendingPiece\<close> of \<open>src/torrent/piece.rs\<close>: the assembly of one piece from 16 KiB blocks.
  The hash map of requested blocks is a map; \<open>Instant::now()\<close> is the argument \<open>now\<close>.
  The invariant \<open>wf_pending\<close> is kept by every operation, and the piece is a
  \<open>guarded_system\<close> for it; the functional contract is that blocks which agree with some
  content assemble to exactly that content, in whatever order and however often they arrive.
\<close>

section \<open>State and operations\<close>

definition block_size :: nat where
  "block_size = 16384"

record pending_piece =
  pp_index :: nat
  pp_length :: nat
  pp_blocks :: "bytes option list"
  pp_block_size :: nat
  pp_blocks_received :: nat
  pp_started_at :: nat
  pp_last_activity :: nat
  pp_requested :: "nat \<rightharpoonup> nat"

definition new_pending :: "nat \<Rightarrow> nat \<Rightarrow> nat \<Rightarrow> pending_piece" where
  "new_pending index len now =
    \<lparr>pp_index = index, pp_length = len, pp_blocks = replicate (div_ceil len block_size) None,
     pp_block_size = block_size, pp_blocks_received = 0, pp_started_at = now,
     pp_last_activity = now, pp_requested = Map.empty\<rparr>"

text \<open>The length of block \<open>bi\<close> at \<open>offset\<close>; the last one may be shorter.\<close>

definition expected_size :: "pending_piece \<Rightarrow> nat \<Rightarrow> nat \<Rightarrow> nat" where
  "expected_size p bi offset =
    (if bi = length (pp_blocks p) - 1
     then min (u64_sub (pp_length p) offset) (pp_block_size p)
     else pp_block_size p)"

definition pp_add_block :: "pending_piece \<Rightarrow> nat \<Rightarrow> bytes \<Rightarrow> nat \<Rightarrow> pending_piece \<times> bool" where
  "pp_add_block p offset data now =
    (let bi = offset div pp_block_size p in
     if length (pp_blocks p) \<le> bi then (p, False)
     else if offset mod pp_block_size p \<noteq> 0 then (p, False)
     else if length data \<noteq> expected_size p bi offset then (p, False)
     else (p\<lparr>pp_blocks_received :=
               (if pp_blocks p ! bi = None then pp_blocks_received p + 1
                else pp_blocks_received p),
             pp_blocks := (pp_blocks p)[bi := Some data],
             pp_requested := (pp_requested p)(bi := None),
             pp_last_activity := now\<rparr>, True))"

definition pp_is_complete :: "pending_piece \<Rightarrow> bool" where
  "pp_is_complete p \<longleftrightarrow> pp_blocks_received p = length (pp_blocks p)"

fun join_blocks :: "bytes option list \<Rightarrow> bytes \<Rightarrow> bytes option" where
  "join_blocks [] data = Some data"
| "join_blocks (None # bs) data = None"
| "join_blocks (Some b # bs) data = join_blocks bs (data @ b)"

definition pp_data :: "pending_piece \<Rightarrow> bytes option" where
  "pp_data p =
    (if \<not> pp_is_complete p then None
     else map_option (take (pp_length p)) (join_blocks (pp_blocks p) []))"

definition has_block_at :: "pending_piece \<Rightarrow> nat \<Rightarrow> bool" where
  "has_block_at p offset =
    (case lget (pp_blocks p) (offset div pp_block_size p) of
       Some b \<Rightarrow> b \<noteq> None | None \<Rightarrow> False)"

text \<open>The request for block \<open>i\<close>: its offset and length.\<close>

definition block_span :: "pending_piece \<Rightarrow> nat \<Rightarrow> nat \<times> nat" where
  "block_span p i =
    (let offset = u32 (u32 i * pp_block_size p) in (offset, u32 (expected_size p i offset)))"

definition unrequested_blocks :: "pending_piece \<Rightarrow> (nat \<times> nat) list" where
  "unrequested_blocks p =
    map (block_span p)
      (filter (\<lambda>i. pp_blocks p ! i = None \<and> pp_requested p (u32 i) = None)
        [0..<length (pp_blocks p)])"

definition mark_requested :: "pending_piece \<Rightarrow> nat \<Rightarrow> nat \<Rightarrow> pending_piece" where
  "mark_requested p block_index peer = p\<lparr>pp_requested := (pp_requested p)(block_index \<mapsto> peer)\<rparr>"

section \<open>The invariant\<close>

definition wf_pending :: "pending_piece \<Rightarrow> bool" where
  "wf_pending p \<longleftrightarrow>
    pp_block_size p = block_size
    \<and> pp_length p \<le> max_piece_length_hard
    \<and> length (pp_blocks p) = div_ceil (pp_length p) block_size
    \<and> pp_blocks_received p = length (filter (\<lambda>b. b \<noteq> None) (pp_blocks p))
    \<and> (\<forall>i b. i < length (pp_blocks p) \<longrightarrow> pp_blocks p ! i = Some b \<longrightarrow>
         length b = min block_size (pp_length p - i * block_size))"

lemma block_lt: "wf_pending p \<Longrightarrow> i < length (pp_blocks p) \<Longrightarrow> i * block_size < pp_length p"
  by (auto simp: wf_pending_def intro: div_ceil_gt)

lemma block_size_pos [simp]: "0 < block_size" "block_size \<noteq> 0"
  by (simp_all add: block_size_def)

lemma blocks_cover: "wf_pending p \<Longrightarrow> pp_length p \<le> length (pp_blocks p) * block_size"
  by (simp add: wf_pending_def div_ceil_le)

lemma expected_size_eq:
  assumes "wf_pending p" and "i < length (pp_blocks p)"
  shows "expected_size p i (i * block_size) = min block_size (pp_length p - i * block_size)"
proof (cases "i = length (pp_blocks p) - 1")
  case True
  then show ?thesis
    using block_lt [OF assms] assms(1)
    by (simp add: expected_size_def wf_pending_def max_piece_length_hard_def min.commute)
next
  case False
  then have "(i + 1) < length (pp_blocks p)" using assms(2) by simp
  from block_lt [OF assms(1) this] have "block_size \<le> pp_length p - i * block_size" by simp
  then show ?thesis using False assms(1) by (simp add: expected_size_def wf_pending_def)
qed

lemma block_span_eq:
  assumes "wf_pending p" and "i < length (pp_blocks p)"
  shows "block_span p i = (i * block_size, min block_size (pp_length p - i * block_size))"
proof -
  have lt: "i * block_size < pp_length p" by (rule block_lt [OF assms])
  have le: "pp_length p \<le> 2 ^ 28"
    using assms(1) by (simp add: wf_pending_def max_piece_length_hard_def)
  have "i < 2 ^ 32" using lt le by (simp add: block_size_def)
  moreover have "i * block_size < 2 ^ 32" using lt le by simp
  moreover have "min block_size (pp_length p - i * block_size) < 2 ^ 32"
    by (simp add: block_size_def)
  ultimately show ?thesis
    using expected_size_eq [OF assms] assms(1)
    by (simp add: block_span_def Let_def wf_pending_def)
qed

lemma length_filter_update:
  "i < length xs \<Longrightarrow> P y \<Longrightarrow>
    length (filter P (xs[i := y])) = length (filter P xs) + (if P (xs ! i) then 0 else 1)"
  by (induction xs arbitrary: i) (auto split: nat.splits)

lemma div_ceil_0 [simp]: "div_ceil 0 b = 0"
  by (simp add: div_ceil_def)

lemma wf_new_pending: "len \<le> max_piece_length_hard \<Longrightarrow> wf_pending (new_pending index len now)"
  by (auto simp: wf_pending_def new_pending_def)

lemma add_block_cases:
  assumes "wf_pending p"
  obtains (rejected) "pp_add_block p offset data now = (p, False)"
    | (accepted) i where "i < length (pp_blocks p)" and "offset = i * block_size"
      and "length data = min block_size (pp_length p - i * block_size)"
      and "pp_add_block p offset data now =
        (p\<lparr>pp_blocks_received :=
               (if pp_blocks p ! i = None then pp_blocks_received p + 1 else pp_blocks_received p),
             pp_blocks := (pp_blocks p)[i := Some data],
             pp_requested := (pp_requested p)(i := None), pp_last_activity := now\<rparr>, True)"
proof (cases "pp_add_block p offset data now = (p, False)")
  case True
  then show thesis by (rule rejected)
next
  case False
  let ?i = "offset div block_size"
  have bs: "pp_block_size p = block_size" using assms by (simp add: wf_pending_def)
  from False have i: "?i < length (pp_blocks p)" and "offset mod block_size = 0"
    and len: "length data = expected_size p ?i offset"
    by (auto simp: pp_add_block_def Let_def bs split: if_splits)
  then have off: "offset = ?i * block_size" by auto
  have "length data = min block_size (pp_length p - ?i * block_size)"
    using expected_size_eq [OF assms i] off len by metis
  moreover have "pp_add_block p offset data now =
        (p\<lparr>pp_blocks_received :=
               (if pp_blocks p ! ?i = None then pp_blocks_received p + 1 else pp_blocks_received p),
             pp_blocks := (pp_blocks p)[?i := Some data],
             pp_requested := (pp_requested p)(?i := None), pp_last_activity := now\<rparr>, True)"
    using i len \<open>offset mod block_size = 0\<close> by (simp add: pp_add_block_def Let_def bs)
  ultimately show thesis using accepted i off by blast
qed

lemma wf_add_block:
  assumes "wf_pending p"
  shows "wf_pending (fst (pp_add_block p offset data now))"
  using assms
proof (cases rule: add_block_cases [of p offset data now])
  case (accepted i)
  have "length (filter (\<lambda>b. b \<noteq> None) ((pp_blocks p)[i := Some data]))
    = length (filter (\<lambda>b. b \<noteq> None) (pp_blocks p)) + (if pp_blocks p ! i \<noteq> None then 0 else 1)"
    by (rule length_filter_update) (simp_all add: accepted)
  then show ?thesis
    using assms accepted by (auto simp: wf_pending_def nth_list_update split: if_splits)
qed (simp_all add: assms)

lemma wf_mark_requested: "wf_pending p \<Longrightarrow> wf_pending (mark_requested p i peer)"
  by (simp add: wf_pending_def mark_requested_def)

datatype pp_op = PAdd nat bytes nat | PMark nat nat

fun pp_step :: "pending_piece \<Rightarrow> pp_op \<Rightarrow> pending_piece" where
  "pp_step p (PAdd offset data now) = fst (pp_add_block p offset data now)"
| "pp_step p (PMark i peer) = mark_requested p i peer"

interpretation pending: guarded_system pp_step "\<lambda>_ _. True" wf_pending
proof
  fix p e
  assume "wf_pending p"
  then show "wf_pending (pp_step p e)"
    by (cases e) (simp_all add: wf_add_block wf_mark_requested)
qed

section \<open>Assembly\<close>

lemma complete_iff:
  assumes "wf_pending p"
  shows "pp_is_complete p \<longleftrightarrow> (\<forall>i < length (pp_blocks p). pp_blocks p ! i \<noteq> None)"
proof -
  have "length (filter P xs) = length xs \<longleftrightarrow> (\<forall>x \<in> set xs. P x)" for P and xs :: "bytes option list"
  proof (induction xs)
    case (Cons x xs)
    then show ?case using length_filter_le [of P xs] by (auto simp del: length_filter_le)
  qed simp
  from this [of "\<lambda>b. b \<noteq> None" "pp_blocks p"] show ?thesis
    using assms by (simp add: pp_is_complete_def wf_pending_def all_set_conv_all_nth)
qed

text \<open>\<open>p\<close> holds parts of the content \<open>D\<close>: each block present is \<open>D\<close>'s.\<close>

definition block_of :: "bytes \<Rightarrow> nat \<Rightarrow> bytes" where
  "block_of D i = slice (i * block_size) ((i + 1) * block_size) D"

definition agrees :: "bytes \<Rightarrow> pending_piece \<Rightarrow> bool" where
  "agrees D p \<longleftrightarrow> (\<forall>i b. i < length (pp_blocks p) \<longrightarrow> pp_blocks p ! i = Some b \<longrightarrow> b = block_of D i)"

lemma join_blocks_eq:
  "\<forall>i < length bs. bs ! i = Some (f (k + i)) \<Longrightarrow>
    join_blocks bs data = Some (data @ concat (map f [k..<k + length bs]))"
proof (induction bs arbitrary: k data)
  case (Cons b bs)
  have "b = Some (f k)" using Cons.prems by force
  moreover have "join_blocks bs (data @ f k) =
      Some ((data @ f k) @ concat (map f [Suc k..<Suc k + length bs]))"
    using Cons.prems by (intro Cons.IH) force
  ultimately show ?case by (simp add: upt_conv_Cons del: upt_Suc)
qed simp

lemma concat_blocks:
  "concat (map (block_of D) [0..<n]) = take (n * block_size) D"
proof (induction n)
  case (Suc n)
  have "take (n * block_size) D @ block_of D n = take (n * block_size + block_size) D"
    by (simp add: block_of_def slice_def take_add)
  with Suc show ?case by (simp add: add.commute)
qed simp

lemma assembled:
  assumes "wf_pending p" and "agrees D p" and "length D = pp_length p" and "pp_is_complete p"
  shows "pp_data p = Some D"
proof -
  have "\<forall>i < length (pp_blocks p). pp_blocks p ! i = Some (block_of D (0 + i))"
    using assms complete_iff by (auto simp: agrees_def)
  from join_blocks_eq [OF this, of "[]"]
  have "join_blocks (pp_blocks p) [] = Some (take (length (pp_blocks p) * block_size) D)"
    by (simp add: concat_blocks)
  then show ?thesis
    using assms(3,4) blocks_cover [OF assms(1)] by (simp add: pp_data_def)
qed

lemma pp_data_length:
  assumes "wf_pending p" and "pp_data p = Some d"
  shows "length d = pp_length p" and "pp_is_complete p" and "agrees d p"
proof -
  show c: "pp_is_complete p" using assms(2) by (simp add: pp_data_def split: if_splits)
  let ?n = "length (pp_blocks p)" and ?f = "\<lambda>i. the (pp_blocks p ! i)"
  have b: "\<forall>i < ?n. pp_blocks p ! i = Some (?f (0 + i))"
    using c complete_iff [OF assms(1)] by auto
  have fl: "i < ?n \<Longrightarrow> length (?f i) = min block_size (pp_length p - i * block_size)" for i
    using b assms(1) by (auto simp: wf_pending_def)
  have part: "m \<le> ?n \<Longrightarrow> length (concat (map ?f [0..<m])) = min (m * block_size) (pp_length p)" for m
  proof (induction m)
    case (Suc m)
    then show ?case using fl [of m] block_lt [OF assms(1), of m] by simp
  qed simp
  have d: "d = take (pp_length p) (concat (map ?f [0..<?n]))"
    using assms(2) c join_blocks_eq [OF b, of "[]"] by (simp add: pp_data_def)
  have total: "length (concat (map ?f [0..<?n])) = pp_length p"
    using part [of ?n] blocks_cover [OF assms(1)] by simp
  then show "length d = pp_length p" using d by simp
  have dd: "d = concat (map ?f [0..<?n])" using d total by simp
  have "?f i = block_of d i" if i: "i < ?n" for i
  proof -
    have "[0..<?n] = [0..<i] @ [i..<?n]"
      using i upt_add_eq_append [of 0 i "?n - i"] by simp
    then have upt: "[0..<?n] = [0..<i] @ i # [Suc i..<?n]"
      using i by (simp only: upt_conv_Cons)
    have split: "d = concat (map ?f [0..<i]) @ ?f i @ concat (map ?f [Suc i..<?n])"
      by (simp only: dd upt map_append list.map concat_append concat.simps)
    have li: "length (concat (map ?f [0..<i])) = i * block_size"
      using part [of i] block_lt [OF assms(1) i] i by simp
    have sum: "pp_length p
      = length (concat (map ?f [0..<i])) + length (?f i) + length (concat (map ?f [Suc i..<?n]))"
      using \<open>length d = pp_length p\<close> by (subst (asm) split) (simp only: length_append add.assoc)
    have "block_of d i = take block_size (?f i @ concat (map ?f [Suc i..<?n]))"
      using split li by (simp add: block_of_def slice_def)
    also have "\<dots> = ?f i"
    proof (cases "block_size \<le> pp_length p - i * block_size")
      case True
      then show ?thesis using fl [OF i] by simp
    next
      case False
      then have "length (concat (map ?f [0..<Suc i])) = pp_length p"
        using part [of "Suc i"] i by simp
      then have "length (concat (map ?f [0..<i])) + length (?f i) = pp_length p" by simp
      with sum have "length (concat (map ?f [Suc i..<?n])) = 0" by linarith
      then have "concat (map ?f [Suc i..<?n]) = []" by (simp only: length_0_conv)
      then show ?thesis using fl [OF i] by simp
    qed
    finally show ?thesis by simp
  qed
  then show "agrees d p" unfolding agrees_def by (metis option.sel)
qed

lemma agrees_new: "agrees D (new_pending index len now)"
  by (simp add: agrees_def new_pending_def)

lemma agrees_add_block:
  assumes "wf_pending p" and "agrees D p" and "length D = pp_length p"
    and "data = slice offset (offset + length data) D"
  shows "agrees D (fst (pp_add_block p offset data now))"
  using assms(1)
proof (cases rule: add_block_cases [of p offset data now])
  case (accepted i)
  have "data = block_of D i"
  proof -
    have "slice (i * block_size) (i * block_size + length data) D
      = slice (i * block_size) (i * block_size + block_size) D"
      using accepted assms(3) by (auto simp: slice_def min_def)
    then show ?thesis using assms(4) accepted by (simp add: block_of_def add.commute)
  qed
  then show ?thesis using assms(2) accepted by (auto simp: agrees_def nth_list_update)
next
  case rejected
  then show ?thesis using assms(2) by simp
qed

lemma pp_length_step [simp]: "pp_length (pp_step p e) = pp_length p"
  by (cases e) (simp_all add: pp_add_block_def mark_requested_def Let_def)

lemma pp_blocks_length_step [simp]: "length (pp_blocks (pp_step p e)) = length (pp_blocks p)"
  by (cases e) (simp_all add: pp_add_block_def mark_requested_def Let_def)

fun honest :: "bytes \<Rightarrow> pp_op \<Rightarrow> bool" where
  "honest D (PAdd offset data now) \<longleftrightarrow> data = slice offset (offset + length data) D"
| "honest D (PMark i peer) \<longleftrightarrow> True"

interpretation assembly: guarded_system pp_step "\<lambda>p e. honest D e"
  "\<lambda>p. wf_pending p \<and> length D = pp_length p \<and> agrees D p" for D
proof
  fix p e
  assume a: "wf_pending p \<and> length D = pp_length p \<and> agrees D p" and h: "honest D e"
  have "agrees D (pp_step p e)"
  proof (cases e)
    case (PAdd offset data now)
    then show ?thesis using a h agrees_add_block by simp
  next
    case (PMark i peer)
    then show ?thesis using a by (simp add: agrees_def mark_requested_def)
  qed
  then show "wf_pending (pp_step p e) \<and> length D = pp_length (pp_step p e) \<and> agrees D (pp_step p e)"
    using a pending.inv_step by simp
qed

text \<open>A block that was once accepted stays.\<close>

lemma block_stays:
  assumes "wf_pending p" and "i < length (pp_blocks p)" and "pp_blocks p ! i \<noteq> None"
  shows "pp_blocks (run_ops pp_step p es) ! i \<noteq> None"
  using assms
proof (induction es arbitrary: p)
  case (Cons e es)
  have "pp_blocks (pp_step p e) ! i \<noteq> None"
  proof (cases e)
    case (PAdd offset data now)
    then show ?thesis
      using Cons.prems by (auto simp: pp_add_block_def Let_def nth_list_update)
  qed (use Cons.prems in \<open>simp add: mark_requested_def\<close>)
  then show ?case using Cons pending.inv_step [OF Cons.prems(1)] by simp
qed simp

text \<open>The operation that delivers block \<open>i\<close> of \<open>D\<close>.\<close>

fun delivers :: "bytes \<Rightarrow> nat \<Rightarrow> pp_op \<Rightarrow> bool" where
  "delivers D i (PAdd offset data now) \<longleftrightarrow> offset = i * block_size \<and> data = block_of D i"
| "delivers D i (PMark j peer) \<longleftrightarrow> False"

lemma step_delivers:
  assumes "wf_pending p" and "length D = pp_length p" and "honest D e"
    and "i < length (pp_blocks p)"
  shows "pp_blocks (pp_step p e) ! i \<noteq> None \<longleftrightarrow> pp_blocks p ! i \<noteq> None \<or> delivers D i e"
proof (cases e)
  case (PMark j peer)
  then show ?thesis by (simp add: mark_requested_def)
next
  case (PAdd offset data now)
  have h: "data = slice offset (offset + length data) D" using assms(3) PAdd by simp
  show ?thesis
    using assms(1)
  proof (cases rule: add_block_cases [of p offset data now])
    case rejected
    have "\<not> delivers D i e"
    proof
      assume "delivers D i e"
      then have o: "offset = i * block_size" and "data = block_of D i" using PAdd by simp_all
      then have "length data = min block_size (pp_length p - i * block_size)"
        using assms(2) by (simp add: block_of_def)
      then have "snd (pp_add_block p offset data now)"
        using o assms expected_size_eq [OF assms(1,4)]
        by (simp add: pp_add_block_def wf_pending_def)
      with rejected show False by simp
    qed
    then show ?thesis using rejected PAdd by (simp del: delivers.simps)
  next
    case (accepted j)
    have "block_of D j = slice offset (offset + length data) D"
      using accepted assms(2) by (auto simp: block_of_def slice_def min_def add.commute)
    then have "data = block_of D j" using h by simp
    then show ?thesis
      using PAdd accepted assms(4) by (auto simp: nth_list_update)
  qed
qed

lemma run_delivers:
  assumes "wf_pending p" and "length D = pp_length p" and "list_all (honest D) es"
    and "i < length (pp_blocks p)"
  shows "pp_blocks (run_ops pp_step p es) ! i \<noteq> None
    \<longleftrightarrow> pp_blocks p ! i \<noteq> None \<or> list_ex (delivers D i) es"
  using assms
proof (induction es arbitrary: p)
  case (Cons e es)
  then show ?case
    using step_delivers [of p D e i] pending.inv_step [of p e] by simp
qed simp

lemma run_shape [simp]:
  "length (pp_blocks (run_ops pp_step p es)) = length (pp_blocks p)"
  "pp_length (run_ops pp_step p es) = pp_length p"
  by (induction es arbitrary: p) simp_all

lemma ops_ok_list_all: "ops_ok step (\<lambda>_ e. P e) s es \<longleftrightarrow> list_all P es"
  by (induction es arbitrary: s) auto

section \<open>Properties\<close>

text \<open>C20. Blocks of a piece assemble to the piece: start a piece of the length of \<open>D\<close> and let
  any blocks of \<open>D\<close> arrive, in any order, repeated, of wrong sizes or alignments, interleaved
  with request marks; the piece then yields exactly \<open>D\<close> if each of its blocks was delivered at
  some point, and nothing otherwise.\<close>

theorem blocks_assemble:
  assumes "length D \<le> max_piece_length_hard" and "list_all (honest D) es"
  shows "pp_data (run_ops pp_step (new_pending index (length D) now) es)
    = (if list_all (\<lambda>i. list_ex (delivers D i) es) [0..<div_ceil (length D) block_size]
       then Some D else None)"
proof -
  let ?s = "new_pending index (length D) now" and ?n = "div_ceil (length D) block_size"
  let ?p = "run_ops pp_step ?s es"
  have s: "wf_pending ?s" "length D = pp_length ?s" "length (pp_blocks ?s) = ?n"
    using wf_new_pending [OF assms(1)] by (simp_all add: new_pending_def)
  have "wf_pending ?p \<and> length D = pp_length ?p \<and> agrees D ?p"
    using assembly.inv_run [of ?s D es] s assms(2) agrees_new by (simp add: ops_ok_list_all)
  moreover have "i < ?n \<Longrightarrow> pp_blocks ?p ! i \<noteq> None \<longleftrightarrow> list_ex (delivers D i) es" for i
    using run_delivers [OF s(1,2) assms(2), of i] s(3) by (simp add: new_pending_def)
  moreover from calculation have "pp_is_complete ?p \<longleftrightarrow> list_all (\<lambda>i. list_ex (delivers D i) es) [0..<?n]"
    using complete_iff [of ?p] s(3) by (auto simp: list_all_iff)
  ultimately show ?thesis
    using assembled [of ?p D] by (auto simp: pp_data_def)
qed

lemma blocks_assemble_witness:
  "pp_data (run_ops pp_step (new_pending 4 (length [1 :: byte, 2, 3]) 0)
      [PMark 0 7, PAdd 0 [1] 1, PAdd 0 [1, 2, 3] 2])
    = Some [1, 2, 3]"
  using blocks_assemble [of "[1, 2, 3]" "[PMark 0 7, PAdd 0 [1] 1, PAdd 0 [1, 2, 3] 2]" 4 0]
  by (simp add: max_piece_length_hard_def slice_def block_of_def div_ceil_def block_size_def)

lemma unrequested_iff:
  assumes "wf_pending p"
  shows "(off, len) \<in> set (unrequested_blocks p) \<longleftrightarrow>
    (\<exists>i < length (pp_blocks p). pp_blocks p ! i = None \<and> pp_requested p i = None
       \<and> off = i * block_size \<and> len = min block_size (pp_length p - i * block_size))"
proof -
  have "i < length (pp_blocks p) \<Longrightarrow> u32 i = i" for i
    using block_lt [OF assms, of i] assms
    by (simp add: wf_pending_def max_piece_length_hard_def block_size_def)
  then show ?thesis
    using block_span_eq [OF assms] by (fastforce simp: unrequested_blocks_def)
qed

text \<open>
  A listed request \<open>(offset, n)\<close> is missing and inside the piece, and any \<open>n\<close> bytes sent for it
  are accepted, recorded and counted once.
\<close>

definition answerable :: "pending_piece \<Rightarrow> (nat \<Rightarrow> byte) \<Rightarrow> nat \<Rightarrow> nat \<times> nat \<Rightarrow> bool" where
  "answerable p f now = (\<lambda>(offset, n).
     \<not> has_block_at p offset \<and> 0 < n \<and> offset + n \<le> pp_length p
     \<and> (let (p', ok) = pp_add_block p offset (map f [0..<n]) now
        in ok \<and> has_block_at p' offset \<and> pp_blocks_received p' = pp_blocks_received p + 1))"

text \<open>In a state reached from a new piece, every block that \<open>unrequested_blocks\<close> lists is
  missing, has the length the last or an inner block has, and an answer of that length is
  accepted, counted once and recorded; and while no request is marked the list is empty only
  when the piece is complete.\<close>

theorem requests_are_answerable:
  assumes "len \<le> max_piece_length_hard"
    and "p = run_ops pp_step (new_pending index len start) es"
  shows "list_all (answerable p f now) (unrequested_blocks p)
    \<and> (if pp_requested p = Map.empty then unrequested_blocks p = [] \<longleftrightarrow> pp_is_complete p else True)"
proof -
  have wf: "wf_pending p"
    unfolding assms(2) by (rule pending.inv_run) (simp_all add: wf_new_pending assms(1) ops_ok_True)
  have bs: "pp_block_size p = block_size" using wf by (simp add: wf_pending_def)
  have "answerable p f now (offset, n)"
    if "(offset, n) \<in> set (unrequested_blocks p)" for offset n
  proof -
    from that obtain i where i: "i < length (pp_blocks p)" "pp_blocks p ! i = None"
      and o: "offset = i * block_size" and n: "n = min block_size (pp_length p - i * block_size)"
      using unrequested_iff [OF wf] by blast
    note lt = block_lt [OF wf i(1)]
    have sz: "expected_size p i offset = n" using expected_size_eq [OF wf i(1)] o n by simp
    have "offset div block_size = i" "offset mod block_size = 0" using o by simp_all
    then show ?thesis
      using i n lt sz o
      by (auto simp: answerable_def has_block_at_def pp_add_block_def Let_def lget_def bs)
  qed
  moreover have "unrequested_blocks p = [] \<longleftrightarrow> pp_is_complete p" if "pp_requested p = Map.empty"
    using that by (auto simp: complete_iff [OF wf] unrequested_blocks_def filter_empty_conv)
  ultimately show ?thesis by (auto simp: list_all_iff)
qed

lemma requests_are_answerable_witness:
  "list_all (\<lambda>(offset, n). \<not> has_block_at (new_pending 0 20000 0) offset)
    (unrequested_blocks (new_pending 0 20000 0))"
proof -
  have "(20000 :: nat) \<le> max_piece_length_hard" by (simp add: max_piece_length_hard_def)
  from requests_are_answerable [OF this, of "new_pending 0 20000 0" 0 0 "[]" "\<lambda>_. 0" 0]
  show ?thesis by (auto simp: list_all_iff answerable_def)
qed

end
