(* ===== verification/PieceManager.thy ===== *)
theory PieceManager
  imports PendingPiece "HOL-Library.AList" "HOL-Library.Product_Lexorder"
begin

text \<open>
  \<open>PieceManager\<close> of \<open>src/torrent/piece.rs\<close>, without its file access (theory \<open>PieceDisk\<close>):
  which pieces are held, wanted and being downloaded, piece selection, block bookkeeping,
  endgame mode and progress. A bit vector is a \<open>bool list\<close>; the hash map of pending pieces an
  association list, whose order stands for the map's iteration order; the locks and atomics
  guard single fields and disappear. \<open>Instant::now()\<close> is an argument.
\<close>

section \<open>State\<close>

record piece_manager =
  pm_meta :: metainfo
  pm_save_dir :: string
  pm_have :: "bool list"
  pm_pending :: "(nat \<times> pending_piece) list"
  pm_verified_count :: nat
  pm_verified_bytes :: nat
  pm_availability :: "nat list"
  pm_wanted :: "bool list option"
  pm_sequential :: bool
  pm_stream_position :: nat

definition u32_max :: nat where
  "u32_max = 2 ^ 32 - 1"

abbreviation pm_info :: "piece_manager \<Rightarrow> info" where
  "pm_info s \<equiv> mi_info (pm_meta s)"

definition pm_num_pieces :: "piece_manager \<Rightarrow> nat" where
  "pm_num_pieces s = length (in_pieces (pm_info s))"

definition pm_new :: "metainfo \<Rightarrow> string \<Rightarrow> piece_manager" where
  "pm_new m dir =
    (let n = length (in_pieces (mi_info m)) in
     \<lparr>pm_meta = m, pm_save_dir = dir, pm_have = replicate n False, pm_pending = [],
      pm_verified_count = 0, pm_verified_bytes = 0, pm_availability = replicate n 0,
      pm_wanted = None, pm_sequential = False, pm_stream_position = u32_max\<rparr>)"

definition set_sequential :: "bool \<Rightarrow> piece_manager \<Rightarrow> piece_manager" where
  "set_sequential b s = s\<lparr>pm_sequential := b\<rparr>"

definition set_stream_position :: "nat option \<Rightarrow> piece_manager \<Rightarrow> piece_manager" where
  "set_stream_position p s =
    s\<lparr>pm_stream_position := (case p of Some k \<Rightarrow> k | None \<Rightarrow> u32_max)\<rparr>"

definition is_sequential :: "piece_manager \<Rightarrow> bool" where
  "is_sequential s = pm_sequential s"

text \<open>\<open>bits.get(i).map(|b| *b).unwrap_or(false)\<close>.\<close>

definition bit_at :: "bool list \<Rightarrow> nat \<Rightarrow> bool" where
  "bit_at bs i \<longleftrightarrow> i < length bs \<and> bs ! i"

fun contiguous_loop :: "piece_manager \<Rightarrow> nat list \<Rightarrow> nat \<Rightarrow> nat" where
  "contiguous_loop s [] e = e"
| "contiguous_loop s (i # is) e =
    (if bit_at (pm_have s) i
     then contiguous_loop s is
       (min (u64 ((i + 1) * in_piece_length (pm_info s))) (in_total_size (pm_info s)))
     else e)"

definition contiguous_available_from :: "nat \<Rightarrow> piece_manager \<Rightarrow> nat" where
  "contiguous_available_from offset s =
    (let pl = in_piece_length (pm_info s); total = in_total_size (pm_info s) in
     if total \<le> offset \<or> pl = 0 then 0
     else contiguous_loop s [offset div pl..<pm_num_pieces s] offset - offset)"

section \<open>File selection\<close>

definition mark_range :: "nat \<Rightarrow> nat \<Rightarrow> bool list \<Rightarrow> bool list" where
  "mark_range a b w = foldl (\<lambda>w i. w[i := True]) w [a..<b + 1]"

fun select_files_loop :: "info \<Rightarrow> nat list \<Rightarrow> bool list \<Rightarrow> bool list" where
  "select_files_loop info [] wanted = wanted"
| "select_files_loop info (file_idx # is) wanted =
    (if length (in_files info) \<le> file_idx then select_files_loop info is wanted
     else let f = in_files info ! file_idx; pl = in_piece_length info;
              file_start = fi_offset f; file_end = u64 (fi_offset f + fi_length f);
              first_piece = file_start div pl;
              last_piece = (if file_end = 0 then first_piece else (file_end - 1) div pl)
          in select_files_loop info is
               (mark_range first_piece (min last_piece (length (in_pieces info) - 1)) wanted))"

definition set_selected_files :: "nat list option \<Rightarrow> piece_manager \<Rightarrow> piece_manager" where
  "set_selected_files file_indices s =
    (case file_indices of
       None \<Rightarrow> s\<lparr>pm_wanted := None\<rparr>
     | Some indices \<Rightarrow>
         if indices = [] \<or> pm_num_pieces s = 0 \<or> in_piece_length (pm_info s) = 0
         then s\<lparr>pm_wanted := None\<rparr>
         else s\<lparr>pm_wanted :=
           Some (select_files_loop (pm_info s) indices (replicate (pm_num_pieces s) False))\<rparr>)"

definition is_piece_wanted :: "nat \<Rightarrow> piece_manager \<Rightarrow> bool" where
  "is_piece_wanted i s =
    (case pm_wanted s of None \<Rightarrow> True | Some bits \<Rightarrow> bit_at bits i)"

definition have_piece :: "nat \<Rightarrow> piece_manager \<Rightarrow> bool" where
  "have_piece i s = bit_at (pm_have s) i"

definition need_piece :: "nat \<Rightarrow> piece_manager \<Rightarrow> bool" where
  "need_piece i s \<longleftrightarrow>
    i < pm_num_pieces s \<and> \<not> pm_have s ! i \<and> map_of (pm_pending s) i = None"

definition pm_bitfield :: "piece_manager \<Rightarrow> bool list" where
  "pm_bitfield s = pm_have s"

definition pending_pieces :: "piece_manager \<Rightarrow> nat set" where
  "pending_pieces s = fst ` set (pm_pending s)"

section \<open>Availability and selection\<close>

definition bump :: "bool \<Rightarrow> nat \<Rightarrow> nat" where
  "bump add n = (if add then saturating_add32 n 1 else n - 1)"

definition update_piece_availability :: "nat \<Rightarrow> bool \<Rightarrow> piece_manager \<Rightarrow> piece_manager" where
  "update_piece_availability i add s =
    (if i < length (pm_availability s)
     then s\<lparr>pm_availability := (pm_availability s)[i := bump add (pm_availability s ! i)]\<rparr>
     else s)"

text \<open>
  \<open>update_availability\<close> indexes the availability without a bounds check; a set bit beyond the
  last piece panics, which is \<open>None\<close>.
\<close>

fun availability_loop :: "bool \<Rightarrow> nat \<Rightarrow> bool list \<Rightarrow> nat list \<Rightarrow> nat list option" where
  "availability_loop add i [] av = Some av"
| "availability_loop add i (b # bs) av =
    (if b then
       (if i < length av then availability_loop add (Suc i) bs (av[i := bump add (av ! i)]) else None)
     else availability_loop add (Suc i) bs av)"

definition update_availability :: "bool list \<Rightarrow> bool \<Rightarrow> piece_manager \<Rightarrow> piece_manager option" where
  "update_availability peer_pieces add s =
    map_option (\<lambda>av. s\<lparr>pm_availability := av\<rparr>)
      (availability_loop add 0 peer_pieces (pm_availability s))"

definition is_block_received :: "nat \<Rightarrow> nat \<Rightarrow> piece_manager \<Rightarrow> bool" where
  "is_block_received piece offset s \<longleftrightarrow>
    bit_at (pm_have s) piece \<or>
    (case map_of (pm_pending s) piece of Some p \<Rightarrow> has_block_at p offset | None \<Rightarrow> False)"

definition eligible :: "piece_manager \<Rightarrow> bool list \<Rightarrow> nat \<Rightarrow> bool" where
  "eligible s peer_has i \<longleftrightarrow>
    \<not> pm_have s ! i \<and> map_of (pm_pending s) i = None
    \<and> (case pm_wanted s of None \<Rightarrow> True | Some bits \<Rightarrow> bit_at bits i)
    \<and> bit_at peer_has i"

definition candidates :: "piece_manager \<Rightarrow> bool list \<Rightarrow> (nat \<times> nat) list" where
  "candidates s peer_has =
    map (\<lambda>i. (i, pm_availability s ! i)) (filter (eligible s peer_has) [0..<pm_num_pieces s])"

definition stream_key :: "nat \<Rightarrow> nat \<times> nat \<Rightarrow> nat \<times> nat \<times> nat" where
  "stream_key pos = (\<lambda>(index, count). if pos \<le> index then (0, index, count) else (1, 0, count))"

definition select_piece :: "bool list \<Rightarrow> piece_manager \<Rightarrow> nat option" where
  "select_piece peer_has s =
    (let cs = candidates s peer_has in
     if cs = [] then None
     else if pm_stream_position s \<noteq> u32_max
     then Some (fst (hd (sort_key (stream_key (pm_stream_position s)) cs)))
     else if pm_sequential s then Some (fst (hd (sort_key fst cs)))
     else Some (fst (hd (sort_key snd cs))))"

section \<open>Pending pieces\<close>

definition start_piece :: "nat \<Rightarrow> nat \<Rightarrow> piece_manager \<Rightarrow> piece_manager \<times> pending_piece option" where
  "start_piece now i s =
    (case piece_length (pm_meta s) i of
       None \<Rightarrow> (s, None)
     | Some len \<Rightarrow>
         (let p = new_pending i len now
          in (s\<lparr>pm_pending := AList.update i p (pm_pending s)\<rparr>, Some p)))"

definition pm_add_block ::
  "nat \<Rightarrow> nat \<Rightarrow> nat \<Rightarrow> bytes \<Rightarrow> piece_manager \<Rightarrow> piece_manager \<times> bool result" where
  "pm_add_block now i offset data s =
    (case map_of (pm_pending s) i of
       None \<Rightarrow> (s, Inl (err_protocol PeerProtocol ''Received block for unknown piece ''))
     | Some p \<Rightarrow>
         (let (p', ok) = pp_add_block p offset data now;
              s' = s\<lparr>pm_pending := AList.update i p' (pm_pending s)\<rparr>
          in if \<not> ok then (s', Inl (err_protocol PeerProtocol ''Invalid block offset ''))
             else (s', Inr (pp_is_complete p'))))"

definition cancel_piece :: "nat \<Rightarrow> piece_manager \<Rightarrow> piece_manager" where
  "cancel_piece i s = s\<lparr>pm_pending := AList.delete i (pm_pending s)\<rparr>"

definition is_stale :: "nat \<Rightarrow> nat \<Rightarrow> pending_piece \<Rightarrow> bool" where
  "is_stale now timeout p \<longleftrightarrow> \<not> pp_is_complete p \<and> timeout < now - pp_last_activity p"

definition cancel_stale_pieces :: "nat \<Rightarrow> nat \<Rightarrow> piece_manager \<Rightarrow> piece_manager \<times> nat" where
  "cancel_stale_pieces now timeout s =
    (let stale = map fst (filter (\<lambda>(_, p). is_stale now timeout p) (pm_pending s))
     in (foldl (\<lambda>s i. cancel_piece i s) s stale, length stale))"

record block_request =
  br_piece :: nat
  br_offset :: nat
  br_length :: nat

definition get_block_requests :: "nat \<Rightarrow> piece_manager \<Rightarrow> block_request list" where
  "get_block_requests i s =
    (case map_of (pm_pending s) i of
       None \<Rightarrow> []
     | Some p \<Rightarrow> map (\<lambda>(off, len). \<lparr>br_piece = i, br_offset = off, br_length = len\<rparr>)
         (unrequested_blocks p))"

definition mark_block_requested :: "nat \<Rightarrow> nat \<Rightarrow> nat \<Rightarrow> piece_manager \<Rightarrow> piece_manager" where
  "mark_block_requested i block_index peer s =
    (case map_of (pm_pending s) i of
       None \<Rightarrow> s
     | Some p \<Rightarrow>
         s\<lparr>pm_pending := AList.update i (mark_requested p block_index peer) (pm_pending s)\<rparr>)"

section \<open>Progress and endgame\<close>

record piece_progress =
  pr_total_pieces :: nat
  pr_have_pieces :: nat
  pr_pending_pieces :: nat
  pr_verified_bytes :: nat
  pr_total_size :: nat

definition count_ones :: "bool list \<Rightarrow> nat" where
  "count_ones bs = length (filter (\<lambda>b. b) bs)"

definition progress :: "piece_manager \<Rightarrow> piece_progress" where
  "progress s =
    \<lparr>pr_total_pieces = pm_num_pieces s, pr_have_pieces = count_ones (pm_have s),
     pr_pending_pieces = length (pm_pending s), pr_verified_bytes = pm_verified_bytes s,
     pr_total_size = in_total_size (pm_info s)\<rparr>"

definition bytes_remaining :: "piece_progress \<Rightarrow> nat" where
  "bytes_remaining p = pr_total_size p - pr_verified_bytes p"

definition pm_is_complete :: "piece_manager \<Rightarrow> bool" where
  "pm_is_complete s =
    (case pm_wanted s of
       None \<Rightarrow> count_ones (pm_have s) = pm_num_pieces s
     | Some bits \<Rightarrow> list_all (\<lambda>i. \<not> (bit_at bits i \<and> \<not> bit_at (pm_have s) i)) [0..<pm_num_pieces s])"

definition endgame_pieces :: "piece_manager \<Rightarrow> nat list" where
  "endgame_pieces s =
    (let remaining = filter (\<lambda>i. \<not> pm_have s ! i) [0..<pm_num_pieces s]
     in if length remaining \<le> 10 then remaining else [])"

definition missing_requests :: "pending_piece \<Rightarrow> block_request list" where
  "missing_requests p =
    map (\<lambda>i. let (off, len) = block_span p i
             in \<lparr>br_piece = pp_index p, br_offset = off, br_length = len\<rparr>)
      (filter (\<lambda>i. pp_blocks p ! i = None) [0..<length (pp_blocks p)])"

definition endgame_requests :: "piece_manager \<Rightarrow> block_request list" where
  "endgame_requests s = concat (map (\<lambda>(_, p). missing_requests p) (pm_pending s))"

section \<open>The invariant\<close>

text \<open>
  The vectors have one entry for each piece, pending pieces are well-formed assemblies of
  pieces of the torrent, each under its own index.
\<close>

definition pm_inv :: "piece_manager \<Rightarrow> bool" where
  "pm_inv s \<longleftrightarrow>
    wf_info (pm_info s)
    \<and> length (pm_have s) = pm_num_pieces s
    \<and> length (pm_availability s) = pm_num_pieces s
    \<and> list_all (\<lambda>n. n \<le> u32_max) (pm_availability s)
    \<and> (case pm_wanted s of None \<Rightarrow> True | Some w \<Rightarrow> length w = pm_num_pieces s)
    \<and> distinct (map fst (pm_pending s))
    \<and> list_all (\<lambda>(i, p). wf_pending p \<and> pp_index p = i \<and> piece_length (pm_meta s) i = Some (pp_length p))
        (pm_pending s)"

lemma pm_inv_new: "wf_info (mi_info m) \<Longrightarrow> pm_inv (pm_new m dir)"
  by (simp add: pm_inv_def pm_new_def pm_num_pieces_def list_all_iff Let_def)

lemma pm_inv_pending:
  "pm_inv s \<Longrightarrow> map_of (pm_pending s) i = Some p \<Longrightarrow>
    wf_pending p \<and> pp_index p = i \<and> piece_length (pm_meta s) i = Some (pp_length p)"
  by (auto simp: pm_inv_def list_all_iff dest!: map_of_SomeD)

lemma piece_length_Some:
  assumes "wf_info (mi_info m)" and "piece_length m i = Some len"
  shows "i < num_pieces (mi_info m)" and "len \<le> max_piece_length_hard" and "0 < len"
proof -
  obtain a b where r: "piece_range m i = Some (a, b)"
    using assms(2) by (auto simp: piece_length_def)
  then show "i < num_pieces (mi_info m)"
    using piece_range_None [of m i] by (metis not_le option.distinct(1))
  show "len \<le> max_piece_length_hard" "0 < len"
    using piece_length_wf [OF assms(1) r] assms by (auto simp: wf_info_def)
qed

lemma list_all_update:
  "list_all P xs \<Longrightarrow> P (k, v) \<Longrightarrow> list_all P (AList.update k v xs)"
  by (induction xs) auto

lemma list_all_delete: "list_all P xs \<Longrightarrow> list_all P (AList.delete k xs)"
  by (induction xs) auto

lemma bump_le: "n \<le> u32_max \<Longrightarrow> bump add n \<le> u32_max"
  by (auto simp: bump_def saturating_add32_def u32_max_def)

lemma list_all_list_update: "list_all P xs \<Longrightarrow> P y \<Longrightarrow> list_all P (xs[i := y])"
  by (induction xs arbitrary: i) (auto split: nat.splits)

lemma availability_loop_shape:
  "availability_loop add i bs av = Some av' \<Longrightarrow> list_all (\<lambda>n. n \<le> u32_max) av \<Longrightarrow>
    length av' = length av \<and> list_all (\<lambda>n. n \<le> u32_max) av'"
proof (induction bs arbitrary: i av)
  case (Cons b bs)
  have "i < length av \<Longrightarrow> bump add (av ! i) \<le> u32_max"
    using Cons.prems(2) by (intro bump_le) (simp add: list_all_length)
  then show ?case
    using Cons by (fastforce split: if_splits intro!: list_all_list_update)
qed simp

lemma length_mark_range [simp]: "length (mark_range a b w) = length w"
proof -
  have "length (foldl (\<lambda>w i. w[i := True]) w is) = length w" for "is"
    by (induction "is" arbitrary: w) auto
  then show ?thesis by (simp add: mark_range_def)
qed

lemma length_select_files_loop [simp]: "length (select_files_loop info is w) = length w"
  by (induction "is" arbitrary: w) (auto simp: Let_def)

lemma pm_inv_pending_update:
  "pm_inv s \<Longrightarrow> wf_pending p \<Longrightarrow> pp_index p = i \<Longrightarrow> piece_length (pm_meta s) i = Some (pp_length p) \<Longrightarrow>
    pm_inv (s\<lparr>pm_pending := AList.update i p (pm_pending s)\<rparr>)"
  by (auto simp: pm_inv_def pm_num_pieces_def intro!: list_all_update distinct_update split: option.splits)

lemma pm_inv_start_piece: "pm_inv s \<Longrightarrow> pm_inv (fst (start_piece now i s))"
  using piece_length_Some(2) [of "pm_meta s" i]
  by (auto simp: start_piece_def Let_def pm_inv_def [of s] new_pending_def [of _ _ now]
      intro!: pm_inv_pending_update wf_new_pending [of _ i now, unfolded new_pending_def]
      split: option.splits)

lemma pp_add_block_keeps:
  "pp_index (fst (pp_add_block p offset data now)) = pp_index p"
  "pp_length (fst (pp_add_block p offset data now)) = pp_length p"
  by (simp_all add: pp_add_block_def Let_def)

lemma pm_inv_add_block: "pm_inv s \<Longrightarrow> pm_inv (fst (pm_add_block now i offset data s))"
proof (cases "map_of (pm_pending s) i")
  case (Some p)
  assume inv: "pm_inv s"
  note p = pm_inv_pending [OF inv Some]
  let ?p' = "fst (pp_add_block p offset data now)"
  have "pm_inv (s\<lparr>pm_pending := AList.update i ?p' (pm_pending s)\<rparr>)"
    using p by (intro pm_inv_pending_update inv) (simp_all add: wf_add_block pp_add_block_keeps)
  then show ?thesis
    using Some by (simp add: pm_add_block_def Let_def split_beta)
qed (simp add: pm_add_block_def)

lemma pm_inv_mark: "pm_inv s \<Longrightarrow> pm_inv (mark_block_requested i b peer s)"
proof (cases "map_of (pm_pending s) i")
  case (Some p)
  assume inv: "pm_inv s"
  note p = pm_inv_pending [OF inv Some]
  have "pm_inv (s\<lparr>pm_pending := AList.update i (mark_requested p b peer) (pm_pending s)\<rparr>)"
    using p by (intro pm_inv_pending_update inv)
      (simp_all add: wf_mark_requested, simp_all add: mark_requested_def)
  then show ?thesis
    using Some by (simp add: mark_block_requested_def)
qed (simp add: mark_block_requested_def)

lemma pm_inv_cancel: "pm_inv s \<Longrightarrow> pm_inv (cancel_piece i s)"
  by (auto simp: pm_inv_def cancel_piece_def pm_num_pieces_def distinct_delete
      intro: list_all_delete split: option.splits)

lemma pm_inv_cancel_stale: "pm_inv s \<Longrightarrow> pm_inv (fst (cancel_stale_pieces now timeout s))"
proof -
  have "pm_inv s \<Longrightarrow> pm_inv (foldl (\<lambda>s i. cancel_piece i s) s is)" for "is"
    by (induction "is" arbitrary: s) (auto intro: pm_inv_cancel)
  then show "pm_inv s \<Longrightarrow> pm_inv (fst (cancel_stale_pieces now timeout s))"
    by (simp add: cancel_stale_pieces_def)
qed

text \<open>The operations that do not touch the disk.\<close>

datatype pm_op =
    OpSequential bool
  | OpStream "nat option"
  | OpSelect "nat list option"
  | OpHave nat bool
  | OpBitfield "bool list" bool
  | OpStart nat nat
  | OpBlock nat nat nat bytes
  | OpMark nat nat nat
  | OpCancel nat
  | OpCancelStale nat nat

fun pm_step :: "piece_manager \<Rightarrow> pm_op \<Rightarrow> piece_manager" where
  "pm_step s (OpSequential b) = set_sequential b s"
| "pm_step s (OpStream p) = set_stream_position p s"
| "pm_step s (OpSelect is) = set_selected_files is s"
| "pm_step s (OpHave i add) = update_piece_availability i add s"
| "pm_step s (OpBitfield bs add) = (case update_availability bs add s of Some s' \<Rightarrow> s' | None \<Rightarrow> s)"
| "pm_step s (OpStart now i) = fst (start_piece now i s)"
| "pm_step s (OpBlock now i offset data) = fst (pm_add_block now i offset data s)"
| "pm_step s (OpMark i b peer) = mark_block_requested i b peer s"
| "pm_step s (OpCancel i) = cancel_piece i s"
| "pm_step s (OpCancelStale now timeout) = fst (cancel_stale_pieces now timeout s)"

lemma pm_inv_step: "pm_inv s \<Longrightarrow> pm_inv (pm_step s e)"
proof (cases e)
  case (OpHave i add)
  assume "pm_inv s"
  then show ?thesis using OpHave
    by (auto simp: update_piece_availability_def pm_inv_def pm_num_pieces_def list_all_length
        nth_list_update bump_le split: option.splits)
next
  case (OpBitfield bs add)
  assume "pm_inv s"
  then show ?thesis using OpBitfield
    by (auto simp: update_availability_def pm_inv_def pm_num_pieces_def
        split: option.splits dest!: availability_loop_shape)
qed (simp_all add: pm_inv_start_piece pm_inv_add_block pm_inv_mark pm_inv_cancel pm_inv_cancel_stale,
    auto simp: pm_inv_def pm_num_pieces_def set_sequential_def set_stream_position_def
      set_selected_files_def Let_def split: option.splits)

interpretation pieces: guarded_system pm_step "\<lambda>_ _. True" pm_inv
  by unfold_locales (rule pm_inv_step)

section \<open>Selection\<close>

text \<open>The head of a stable sort is the first of the least elements.\<close>

fun first_min :: "('a \<Rightarrow> 'k::linorder) \<Rightarrow> 'a list \<Rightarrow> 'a" where
  "first_min f [] = undefined"
| "first_min f [x] = x"
| "first_min f (x # xs) = (let m = first_min f xs in if f x \<le> f m then x else m)"

lemma hd_insort_key:
  "hd (insort_key f x ys) = (if ys = [] \<or> f x \<le> f (hd ys) then x else hd ys)"
  by (cases ys) auto

lemma sort_key_nonempty [simp]: "sort_key f xs = [] \<longleftrightarrow> xs = []"
  by (metis length_sort length_0_conv)

lemma hd_sort_key: "xs \<noteq> [] \<Longrightarrow> hd (sort_key f xs) = first_min f xs"
proof (induction f xs rule: first_min.induct)
  case (3 f x y xs)
  then have IH: "hd (sort_key f (y # xs)) = first_min f (y # xs)" by simp
  have "hd (sort_key f (x # y # xs)) = hd (insort_key f x (sort_key f (y # xs)))"
    by (simp add: sort_key_def)
  also have "\<dots> = (if f x \<le> f (hd (sort_key f (y # xs))) then x else hd (sort_key f (y # xs)))"
    by (simp only: hd_insort_key sort_key_nonempty) simp
  finally show ?case
    by (simp only: IH first_min.simps Let_def)
qed (simp_all add: sort_key_def)

lemma first_min_split:
  "xs \<noteq> [] \<Longrightarrow> \<exists>us vs. xs = us @ first_min f xs # vs
     \<and> (\<forall>u \<in> set us. f (first_min f xs) < f u) \<and> (\<forall>v \<in> set vs. f (first_min f xs) \<le> f v)"
proof (induction f xs rule: first_min.induct)
  case (3 f x y xs)
  let ?m = "first_min f (y # xs)"
  obtain us vs where y: "y # xs = us @ ?m # vs" and us: "\<forall>u \<in> set us. f ?m < f u"
    and vs: "\<forall>v \<in> set vs. f ?m \<le> f v"
    using 3 by blast
  show ?case
  proof (cases "f x \<le> f ?m")
    case True
    then have e: "first_min f (x # y # xs) = x" by simp
    have "set (y # xs) = set us \<union> {?m} \<union> set vs" by (subst y) auto
    then have "\<forall>v \<in> set (y # xs). f x \<le> f v" using True us vs by fastforce
    then show ?thesis unfolding e by (intro exI [of _ "[]"] exI [of _ "y # xs"]) simp
  next
    case False
    then have e: "first_min f (x # y # xs) = ?m" by (simp add: Let_def)
    have "x # y # xs = (x # us) @ ?m # vs" using y by simp
    moreover have "\<forall>u \<in> set (x # us). f ?m < f u" using us False by auto
    ultimately show ?thesis unfolding e using vs by blast
  qed
next
  case (2 f x)
  show ?case by (intro exI [of _ "[]"]) simp
qed simp

lemma sorted_first_min:
  assumes "xs \<noteq> []" and "sorted_wrt (<) (map g xs)"
    and "x \<in> set xs"
  shows "(f (first_min f xs), g (first_min f xs) :: nat) \<le> (f x, g x)"
proof -
  let ?m = "first_min f xs"
  obtain us vs where xs: "xs = us @ ?m # vs" and us: "\<forall>u \<in> set us. f ?m < f u"
    and vs: "\<forall>v \<in> set vs. f ?m \<le> f v"
    using first_min_split [OF assms(1)] by blast
  have "sorted_wrt (<) (map g us @ g ?m # map g vs)"
    using assms(2) by (subst (asm) xs) simp
  then have "\<forall>v \<in> set vs. g ?m < g v" by (simp add: sorted_wrt_append)
  moreover have "x \<in> set us \<or> x = ?m \<or> x \<in> set vs"
    using assms(3) by (subst (asm) xs) auto
  ultimately show ?thesis using us vs by (auto simp: less_eq_prod_def)
qed

text \<open>
  What a piece is chosen by: with an active stream the pieces from the read position on in
  order, then the earlier ones by rarity; otherwise the index in sequential mode, else rarity.
  Ties go to the lower index.
\<close>

definition rank :: "piece_manager \<Rightarrow> nat \<Rightarrow> (nat \<times> nat) \<times> nat" where
  "rank s i =
    (if pm_stream_position s \<noteq> u32_max
     then (if pm_stream_position s \<le> i then (0, i) else (1, pm_availability s ! i))
     else if pm_sequential s then (0, i)
     else (0, pm_availability s ! i), i)"

lemma candidates_eq_Nil: "candidates s ph = [] \<longleftrightarrow> filter (eligible s ph) [0..<pm_num_pieces s] = []"
  by (simp add: candidates_def)

lemma candidates_sorted: "sorted_wrt (<) (map fst (candidates s ph))"
  by (simp add: candidates_def comp_def sorted_wrt_filter)

lemma candidates_set:
  "c \<in> set (candidates s ph) \<longleftrightarrow>
    (\<exists>i < pm_num_pieces s. eligible s ph i \<and> c = (i, pm_availability s ! i))"
  by (auto simp: candidates_def)

lemma select_piece_first_min:
  assumes "select_piece ph s = Some k"
  shows "k < pm_num_pieces s \<and> eligible s ph k
    \<and> (\<forall>j < pm_num_pieces s. eligible s ph j \<longrightarrow> rank s k \<le> rank s j)"
proof -
  let ?cs = "candidates s ph"
  have ne: "?cs \<noteq> []" using assms by (auto simp: select_piece_def Let_def split: if_splits)
  have main: "k < pm_num_pieces s \<and> eligible s ph k
    \<and> (\<forall>j < pm_num_pieces s. eligible s ph j \<longrightarrow> rank s k \<le> rank s j)"
    if k: "k = fst (first_min f ?cs)"
      and f: "\<And>i j. (f (i, pm_availability s ! i), i) \<le> (f (j, pm_availability s ! j), j) \<Longrightarrow>
        rank s i \<le> rank s j" for f :: "nat \<times> nat \<Rightarrow> 'k::linorder"
  proof -
    let ?m = "first_min f ?cs"
    obtain us vs where "?cs = us @ ?m # vs" using first_min_split [OF ne] by blast
    then have "?m \<in> set ?cs" by (metis in_set_conv_decomp)
    then have m: "k < pm_num_pieces s" "eligible s ph k" "?m = (k, pm_availability s ! k)"
      using k by (auto simp: candidates_set)
    have "rank s k \<le> rank s j" if "j < pm_num_pieces s" "eligible s ph j" for j
    proof -
      have "(j, pm_availability s ! j) \<in> set ?cs" using that by (auto simp: candidates_set)
      from sorted_first_min [OF ne candidates_sorted this, of f] show ?thesis
        using f m(3) by simp
    qed
    with m show ?thesis by simp
  qed
  show ?thesis
  proof (cases "pm_stream_position s \<noteq> u32_max")
    case True
    then have "k = fst (first_min (stream_key (pm_stream_position s)) ?cs)"
      using assms ne by (simp add: select_piece_def Let_def hd_sort_key)
    then show ?thesis
      by (rule main) (use True in \<open>auto simp: rank_def stream_key_def less_eq_prod_def split: if_splits\<close>)
  next
    case nostream: False
    show ?thesis
    proof (cases "pm_sequential s")
      case True
      then have "k = fst (first_min fst ?cs)"
        using assms ne nostream by (simp add: select_piece_def Let_def hd_sort_key)
      then show ?thesis
        by (rule main) (use True nostream in \<open>auto simp: rank_def less_eq_prod_def\<close>)
    next
      case False
      then have "k = fst (first_min snd ?cs)"
        using assms ne nostream by (simp add: select_piece_def Let_def hd_sort_key)
      then show ?thesis
        by (rule main) (use False nostream in \<open>auto simp: rank_def less_eq_prod_def\<close>)
    qed
  qed
qed

text \<open>C21. \<open>select_piece\<close>, in every mode: it returns nothing exactly when no piece is missing,
  not already being downloaded, wanted and offered by the peer; otherwise it returns such a
  piece of least rank, where the rank is the mode's order (stream position first, sequential,
  or rarest first) with ties going to the lower index.\<close>

theorem select_piece_spec:
  "case select_piece peer_has s of
     None \<Rightarrow> filter (eligible s peer_has) [0..<pm_num_pieces s] = []
   | Some k \<Rightarrow> k < pm_num_pieces s \<and> eligible s peer_has k
       \<and> list_all (\<lambda>j. rank s k \<le> rank s j) (filter (eligible s peer_has) [0..<pm_num_pieces s])"
proof (cases "select_piece peer_has s")
  case None
  then show ?thesis
    by (auto simp: select_piece_def Let_def candidates_eq_Nil split: if_splits)
next
  case (Some k)
  then show ?thesis
    using select_piece_first_min [OF Some] by (auto simp: list_all_iff)
qed

section \<open>File selection\<close>

lemma mark_range_nth:
  "k < length w \<Longrightarrow> mark_range a b w ! k \<longleftrightarrow> w ! k \<or> a \<le> k \<and> k \<le> b"
proof -
  have "k < length w \<Longrightarrow> foldl (\<lambda>w i. w[i := True]) w is ! k \<longleftrightarrow> w ! k \<or> k \<in> set is" for "is"
  proof (induction "is" arbitrary: w)
    case (Cons i "is")
    then show ?case by (cases "k = i") simp_all
  qed simp
  then show "k < length w \<Longrightarrow> ?thesis" by (auto simp: mark_range_def)
qed

definition file_end :: "file_info \<Rightarrow> nat" where
  "file_end f = u64 (fi_offset f + fi_length f)"

lemma select_files_loop_nth:
  "k < length w \<Longrightarrow> k < length (in_pieces info) \<Longrightarrow>
    select_files_loop info is w ! k \<longleftrightarrow> w ! k \<or>
      (\<exists>idx \<in> set is. idx < length (in_files info) \<and>
        (let f = in_files info ! idx; first = fi_offset f div in_piece_length info
         in first \<le> k \<and>
            k \<le> (if file_end f = 0 then first else (file_end f - 1) div in_piece_length info)))"
proof (induction "is" arbitrary: w)
  case (Cons i "is")
  then show ?case by (auto simp: Let_def mark_range_nth file_end_def)
qed simp

text \<open>Selecting files wants exactly the pieces that hold data of a selected file: in a
  state of a well-formed torrent, after \<open>set_selected_files\<close> with a non-empty list of indices
  of non-empty files (indices out of range are skipped), a piece is wanted if and only if one
  of the segments \<open>files_for_piece\<close> lists for it lies in a selected file.\<close>

theorem selection_is_exact:
  assumes "pm_inv s" and "k < pm_num_pieces s" and "indices \<noteq> []"
    and "\<forall>i \<in> set indices. i < length (in_files (pm_info s)) \<longrightarrow> 0 < fi_length (in_files (pm_info s) ! i)"
  shows "is_piece_wanted k (set_selected_files (Some indices) s) \<longleftrightarrow>
    list_ex (\<lambda>(idx, off, len). idx \<in> set indices) (files_for_piece (pm_meta s) k)"
proof -
  let ?i = "pm_info s"
  have wf: "wf_info ?i" and n: "k < num_pieces ?i" and n': "k < length (in_pieces ?i)"
    using assms(1,2) by (simp_all add: pm_inv_def pm_num_pieces_def num_pieces_def)
  have pl: "in_piece_length ?i \<noteq> 0" using wf by (simp add: wf_info_def)
  have "is_piece_wanted k (set_selected_files (Some indices) s) \<longleftrightarrow>
      (\<exists>idx \<in> set indices. idx < length (in_files ?i) \<and>
        (let f = in_files ?i ! idx; first = fi_offset f div in_piece_length ?i
         in first \<le> k \<and>
            k \<le> (if file_end f = 0 then first else (file_end f - 1) div in_piece_length ?i)))"
    using assms(2,3) pl n'
    by (auto simp: is_piece_wanted_def set_selected_files_def bit_at_def select_files_loop_nth
        pm_num_pieces_def)
  also have "\<dots> \<longleftrightarrow> (\<exists>idx \<in> set indices. idx < length (in_files ?i) \<and>
      idx \<in> fst ` set (files_for_piece (pm_meta s) k))"
  proof (rule bex_cong [OF refl], rule conj_cong [OF refl])
    fix idx
    assume idx: "idx \<in> set indices" "idx < length (in_files ?i)"
    let ?f = "in_files ?i ! idx"
    have pos: "0 < fi_length ?f" using assms(4) idx by blast
    have "?f \<in> set (in_files ?i)" using idx(2) by simp
    then have "fi_offset ?f + fi_length ?f \<le> in_total_size ?i"
      using wf contiguous_bound by (auto simp: wf_info_def)
    then have "file_end ?f = fi_offset ?f + fi_length ?f"
      using wf_info_small(2) [OF wf] by (simp add: file_end_def)
    then show "(let f = ?f; first = fi_offset f div in_piece_length ?i
         in first \<le> k \<and>
            k \<le> (if file_end f = 0 then first else (file_end f - 1) div in_piece_length ?i))
      \<longleftrightarrow> idx \<in> fst ` set (files_for_piece (pm_meta s) k)"
      using file_in_piece_iff [OF wf n idx(2) pos] pos by (simp add: Let_def)
  qed
  also have "\<dots> \<longleftrightarrow> list_ex (\<lambda>(idx, off, len). idx \<in> set indices) (files_for_piece (pm_meta s) k)"
  proof -
    have "idx < length (in_files ?i)" if "idx \<in> fst ` set (files_for_piece (pm_meta s) k)" for idx
      using that piece_range_wf(1) [OF wf n] files_for_piece_mem(1) [OF wf]
      by (auto simp: fst_triple_iff)
    then show ?thesis by (force simp: list_ex_iff)
  qed
  finally show ?thesis .
qed

definition two_file_meta :: metainfo where
  "two_file_meta =
    \<lparr>mi_info_hash = [], mi_info = two_file_info, mi_announce = None, mi_announce_list = [],
     mi_creation_date = None, mi_comment = None, mi_created_by = None, mi_encoding = None,
     mi_url_list = [], mi_httpseeds = []\<rparr>"

lemma two_file_wf: "wf_info two_file_info"
proof -
  obtain m where "parse_metainfo id (encode two_file_torrent) = Inr m" "mi_info m = two_file_info"
    using two_file_parses [of id] by blast
  then show ?thesis using parse_metainfo_wf by metis
qed

lemma two_file_inv: "pm_inv (pm_new two_file_meta dir)"
  by (rule pm_inv_new) (simp add: two_file_meta_def two_file_wf)

lemma selection_is_exact_witness:
  "is_piece_wanted 1 (set_selected_files (Some [1, 9]) (pm_new two_file_meta ''/s''))"
  using selection_is_exact [OF two_file_inv, of 1 "''/s''" "[1, 9]"]
  by (simp add: pm_new_def two_file_meta_def two_file_info_def pm_num_pieces_def
      files_for_piece_def piece_range_def)

section \<open>Streaming\<close>

lemma contiguous_loop_spec:
  assumes "wf_info (pm_info s)" and "n = pm_num_pieces s" and "a \<le> n"
  shows "\<exists>b \<ge> a. b \<le> n \<and> (\<forall>i. a \<le> i \<longrightarrow> i < b \<longrightarrow> bit_at (pm_have s) i)
    \<and> (b < n \<longrightarrow> \<not> bit_at (pm_have s) b)
    \<and> contiguous_loop s [a..<n] e =
        (if b = a then e else min (b * in_piece_length (pm_info s)) (in_total_size (pm_info s)))"
  using assms(3)
proof (induction "n - a" arbitrary: a e)
  case 0
  then show ?case by (intro exI [of _ a]) auto
next
  case (Suc d)
  then have lt: "a < n" by simp
  have "(a + 1) * in_piece_length (pm_info s) \<le> n * in_piece_length (pm_info s)"
    using lt by (intro mult_le_mono1) simp
  then have small: "(a + 1) * in_piece_length (pm_info s) < 2 ^ 64"
    using wf_info_small(1) [OF assms(1)] assms(2) by (simp add: pm_num_pieces_def)
  show ?case
  proof (cases "bit_at (pm_have s) a")
    case False
    then show ?thesis using lt by (intro exI [of _ a]) (auto simp: upt_conv_Cons)
  next
    case True
    let ?e = "min ((a + 1) * in_piece_length (pm_info s)) (in_total_size (pm_info s))"
    have "d = n - (a + 1)" "a + 1 \<le> n" using Suc.hyps(2) lt by auto
    from Suc.hyps(1) [OF this, of ?e] obtain b where b: "a + 1 \<le> b" "b \<le> n"
      "\<forall>i. a + 1 \<le> i \<longrightarrow> i < b \<longrightarrow> bit_at (pm_have s) i"
      "b < n \<longrightarrow> \<not> bit_at (pm_have s) b"
      "contiguous_loop s [a + 1..<n] ?e =
        (if b = a + 1 then ?e else min (b * in_piece_length (pm_info s)) (in_total_size (pm_info s)))"
      by (elim exE conjE) (rule that)
    have "contiguous_loop s [a..<n] e = contiguous_loop s [a + 1..<n] ?e"
      using True lt small by (simp add: upt_conv_Cons)
    then have "contiguous_loop s [a..<n] e = min (b * in_piece_length (pm_info s)) (in_total_size (pm_info s))"
      using b(5) by simp
    moreover have "\<forall>i. a \<le> i \<longrightarrow> i < b \<longrightarrow> bit_at (pm_have s) i"
      using True b(3) by (metis Suc_eq_plus1 Suc_leI le_neq_implies_less)
    ultimately show ?thesis using b by (intro exI [of _ b]) auto
  qed
qed

text \<open>What a streaming reader is told it can read is right and as much as possible: all
  pieces of the run \<open>[offset, offset + available)\<close> are held, and the run ends at the end of the
  torrent or at a piece that is not held.\<close>

theorem contiguous_available_spec:
  assumes "pm_inv s" and "offset < in_total_size (pm_info s)"
    and "r = contiguous_available_from offset s" and "pl = in_piece_length (pm_info s)"
  shows "offset + r \<le> in_total_size (pm_info s)
    \<and> list_all (\<lambda>i. have_piece i s) [offset div pl..<div_ceil (offset + r) pl - (if r = 0 then 1 else 0)]
    \<and> (offset + r = in_total_size (pm_info s) \<or> \<not> have_piece ((offset + r) div pl) s)"
proof -
  let ?n = "pm_num_pieces s" and ?t = "in_total_size (pm_info s)" and ?a = "offset div pl"
  have wf: "wf_info (pm_info s)" using assms(1) by (simp add: pm_inv_def)
  then have pl: "0 < pl" and n: "?n = div_ceil ?t pl"
    using assms(4) by (simp_all add: wf_info_def pm_num_pieces_def)
  have tn: "?t \<le> ?n * pl" unfolding n by (rule div_ceil_le [OF pl])
  have an: "?a < ?n"
    using assms(2) tn pl by (simp add: div_less_iff_less_mult)
  from contiguous_loop_spec [OF wf refl less_imp_le [OF an], of offset] obtain b where b: "?a \<le> b" "b \<le> ?n"
    "\<forall>i. ?a \<le> i \<longrightarrow> i < b \<longrightarrow> bit_at (pm_have s) i" "b < ?n \<longrightarrow> \<not> bit_at (pm_have s) b"
    "contiguous_loop s [?a..<?n] offset = (if b = ?a then offset else min (b * pl) ?t)"
    using assms(4) by blast
  have r: "r = (if b = ?a then 0 else min (b * pl) ?t - offset)"
    using b(5) assms(2-4) pl by (simp add: contiguous_available_from_def Let_def)
  show ?thesis
  proof (cases "b = ?a")
    case True
    then have "\<not> have_piece (offset div pl) s" using an b(4) by (simp add: have_piece_def)
    moreover have "div_ceil offset pl - 1 \<le> offset div pl" by (simp add: div_ceil_def)
    ultimately show ?thesis using r True assms(2) by simp
  next
    case False
    with b(1) have "(?a + 1) * pl \<le> b * pl" by (intro mult_le_mono1) simp
    moreover have "offset < (?a + 1) * pl"
      using pl by (metis Suc_eq_plus1 add.commute dividend_less_times_div mult.commute mult_Suc_right)
    ultimately have lt: "offset < min (b * pl) ?t" using assms(2) by simp
    then have e: "offset + r = min (b * pl) ?t" and r0: "r \<noteq> 0" using r False by auto
    have dc: "div_ceil (min (b * pl) ?t) pl \<le> b"
    proof -
      have "div_ceil x pl \<le> b" if "x \<le> b * pl" for x
      proof (rule ccontr)
        assume "\<not> div_ceil x pl \<le> b"
        then have "b * pl < x" by (intro div_ceil_gt) simp
        with that show False by simp
      qed
      then show ?thesis by simp
    qed
    have "list_all (\<lambda>i. have_piece i s) [?a..<div_ceil (offset + r) pl]"
      using b(3) dc by (auto simp: e list_all_iff have_piece_def)
    moreover have "offset + r = ?t \<or> \<not> have_piece ((offset + r) div pl) s"
    proof (cases "b = ?n")
      case True
      then show ?thesis using e tn by simp
    next
      case False
      then have bn: "b < ?n" using b(2) by simp
      then have "b * pl < ?t" unfolding n by (rule div_ceil_gt)
      then have "(offset + r) div pl = b" using e pl by simp
      then show ?thesis using b(4) bn by (simp add: have_piece_def)
    qed
    ultimately show ?thesis using e r0 by simp
  qed
qed

lemma contiguous_available_spec_witness:
  "\<not> have_piece ((3 + contiguous_available_from 3 (pm_new two_file_meta ''/s'')) div 2)
      (pm_new two_file_meta ''/s'')"
  using contiguous_available_spec [OF two_file_inv, of 3 "''/s''", OF _ refl refl]
  by (auto simp: pm_new_def two_file_meta_def two_file_info_def have_piece_def bit_at_def
      nth_Cons numeral_eq_Suc split: nat.splits)

section \<open>Endgame\<close>

lemma missing_requests_mem:
  assumes "wf_pending p"
  shows "r \<in> set (missing_requests p) \<longleftrightarrow> (\<exists>i < length (pp_blocks p). pp_blocks p ! i = None
      \<and> r = \<lparr>br_piece = pp_index p, br_offset = i * block_size,
             br_length = min block_size (pp_length p - i * block_size)\<rparr>)"
  using block_span_eq [OF assms] by (auto simp: missing_requests_def)

lemma missing_requests_distinct: "wf_pending p \<Longrightarrow> distinct (missing_requests p)"
  using block_span_eq [of p] by (auto simp: missing_requests_def distinct_map inj_on_def)

lemma missing_requests_piece: "r \<in> set (missing_requests p) \<Longrightarrow> br_piece r = pp_index p"
  by (auto simp: missing_requests_def Let_def split_beta)

lemma missing_requests_Nil: "wf_pending p \<Longrightarrow> missing_requests p = [] \<longleftrightarrow> pp_is_complete p"
  by (auto simp: missing_requests_def complete_iff filter_empty_conv)

lemma missing_request_accepted:
  assumes "wf_pending p" and "r \<in> set (missing_requests p)" and "length data = br_length r"
  shows "\<not> has_block_at p (br_offset r) \<and> snd (pp_add_block p (br_offset r) data now)"
proof -
  have bs: "pp_block_size p = block_size" using assms(1) by (simp add: wf_pending_def)
  obtain i where i: "i < length (pp_blocks p)" "pp_blocks p ! i = None"
    and r: "br_offset r = i * block_size" "br_length r = min block_size (pp_length p - i * block_size)"
    using assms(2) by (auto simp: missing_requests_mem [OF assms(1)])
  then show ?thesis
    using assms(3) expected_size_eq [OF assms(1) i(1)]
    by (simp add: has_block_at_def pp_add_block_def Let_def lget_def bs)
qed

lemma endgame_distinct:
  "distinct (map fst ps) \<Longrightarrow> list_all (\<lambda>(i, p). wf_pending p \<and> pp_index p = i) ps \<Longrightarrow>
    distinct (concat (map (\<lambda>(_, p). missing_requests p) ps))"
proof (induction ps)
  case (Cons ip ps)
  obtain i p where ip: "ip = (i, p)" by force
  have "set (missing_requests p) \<inter> set (missing_requests q) = {}" if "(j, q) \<in> set ps" for j q
  proof -
    have "pp_index q = j" "pp_index p = i" "i \<noteq> j"
      using that Cons.prems ip by (force simp: list_all_iff)+
    then show ?thesis
      using missing_requests_piece [of _ p] missing_requests_piece [of _ q] by fastforce
  qed
  then have "set (missing_requests p) \<inter> set (concat (map (\<lambda>(_, p). missing_requests p) ps)) = {}"
    by fastforce
  then show ?case
    using Cons ip missing_requests_distinct by simp
qed simp

lemma reachable_inv:
  "wf_info (mi_info m) \<Longrightarrow> pm_inv (run_ops pm_step (pm_new m dir) es)"
  by (rule pieces.inv_run) (simp_all add: pm_inv_new ops_ok_True)

text \<open>Endgame requests, in every state reached from a new manager by its operations: no
  block is asked for twice, each request is for a missing block of a pending piece and any data
  of the requested length sent for it is accepted, and a pending piece has no request exactly
  when it is complete.\<close>

theorem endgame_requests_exact:
  assumes "wf_info (mi_info m)" and "s = run_ops pm_step (pm_new m dir) es"
  shows "distinct (endgame_requests s)
    \<and> list_all (\<lambda>r. (case map_of (pm_pending s) (br_piece r) of
             Some p \<Rightarrow> \<not> has_block_at p (br_offset r) | None \<Rightarrow> False)
        \<and> (case snd (pm_add_block now (br_piece r) (br_offset r) (map f [0..<br_length r]) s) of
             Inr _ \<Rightarrow> True | Inl _ \<Rightarrow> False))
        (endgame_requests s)
    \<and> list_all (\<lambda>(i, p). pp_is_complete p = list_all (\<lambda>r. br_piece r \<noteq> i) (endgame_requests s))
        (pm_pending s)"
proof (intro conjI)
  have inv: "pm_inv s" unfolding assms(2) by (rule reachable_inv [OF assms(1)])
  have dist: "distinct (map fst (pm_pending s))" using inv by (simp add: pm_inv_def)
  have wfp: "(i, p) \<in> set (pm_pending s) \<Longrightarrow> wf_pending p \<and> pp_index p = i" for i p
    using inv by (auto simp: pm_inv_def list_all_iff)
  show "distinct (endgame_requests s)"
    unfolding endgame_requests_def using dist wfp by (intro endgame_distinct) (auto simp: list_all_iff)
  have mem: "r \<in> set (endgame_requests s) \<Longrightarrow> \<exists>p. map_of (pm_pending s) (br_piece r) = Some p
    \<and> wf_pending p \<and> r \<in> set (missing_requests p)" for r
    using wfp missing_requests_piece dist
    by (fastforce simp: endgame_requests_def intro!: map_of_is_SomeI)
  show "list_all (\<lambda>r. (case map_of (pm_pending s) (br_piece r) of
             Some p \<Rightarrow> \<not> has_block_at p (br_offset r) | None \<Rightarrow> False)
        \<and> (case snd (pm_add_block now (br_piece r) (br_offset r) (map f [0..<br_length r]) s) of
             Inr _ \<Rightarrow> True | Inl _ \<Rightarrow> False)) (endgame_requests s)"
    unfolding list_all_iff
  proof
    fix r
    assume "r \<in> set (endgame_requests s)"
    then obtain p where p: "map_of (pm_pending s) (br_piece r) = Some p" and wf: "wf_pending p"
      and r: "r \<in> set (missing_requests p)"
      using mem by blast
    have "length (map f [0..<br_length r]) = br_length r" by simp
    from missing_request_accepted [OF wf r this, of now] p
    show "(case map_of (pm_pending s) (br_piece r) of
             Some p \<Rightarrow> \<not> has_block_at p (br_offset r) | None \<Rightarrow> False)
        \<and> (case snd (pm_add_block now (br_piece r) (br_offset r) (map f [0..<br_length r]) s) of
             Inr _ \<Rightarrow> True | Inl _ \<Rightarrow> False)"
      by (simp add: pm_add_block_def Let_def split_beta)
  qed
  have "pp_is_complete p \<longleftrightarrow> (\<forall>r \<in> set (endgame_requests s). br_piece r \<noteq> i)"
    if "(i, p) \<in> set (pm_pending s)" for i p
  proof
    assume "pp_is_complete p"
    then have "missing_requests p = []" using missing_requests_Nil wfp [OF that] by blast
    moreover have "map_of (pm_pending s) i = Some p" using that dist by simp
    ultimately show "\<forall>r \<in> set (endgame_requests s). br_piece r \<noteq> i" using mem by fastforce
  next
    assume none: "\<forall>r \<in> set (endgame_requests s). br_piece r \<noteq> i"
    have "set (missing_requests p) \<subseteq> set (endgame_requests s)"
      using that by (force simp: endgame_requests_def)
    then have "missing_requests p = []"
      using none missing_requests_piece [of _ p] wfp [OF that] by (cases "missing_requests p") auto
    then show "pp_is_complete p" using missing_requests_Nil wfp [OF that] by blast
  qed
  then show "list_all (\<lambda>(i, p). pp_is_complete p = list_all (\<lambda>r. br_piece r \<noteq> i) (endgame_requests s))
        (pm_pending s)"
    by (auto simp: list_all_iff)
qed

lemma endgame_requests_exact_witness:
  "distinct (endgame_requests (run_ops pm_step (pm_new two_file_meta ''/s'') [OpStart 0 1, OpStart 0 2]))"
  using endgame_requests_exact [of two_file_meta _ "''/s''" "[OpStart 0 1, OpStart 0 2]"]
  by (simp add: two_file_wf two_file_meta_def)

end
