(* ===== verification/PieceDisk.thy ===== *)
theory PieceDisk
  imports PieceManager
begin

text \<open>
  The file access of \<open>src/torrent/piece.rs\<close>: writing a verified piece into the files it
  overlaps, checking a piece on disk, reading blocks for upload, preallocation, and the
  handlers that change the piece manager with it (\<open>verify_and_save\<close>, \<open>verify_existing\<close>,
  \<open>write_piece_from_webseed\<close>).

  The disk maps a path to the content of a regular file. What the operating system may do to
  an operation on a path is the argument \<open>io\<close>: succeed, fail before anything is written, or
  fail after a prefix was written. SHA-1 is the argument \<open>sha1\<close>. The handlers suspend while
  they write, so each is given as its atomic parts (\<open>vs_begin\<close>, \<open>vs_commit\<close>, \<open>ws_begin\<close>,
  \<open>ws_commit\<close>) and as their composition.
\<close>

section \<open>The disk\<close>

type_synonym disk = "string \<Rightarrow> bytes option"

datatype io_fault = IoOk | IoFail io_error_kind | IoPartial io_error_kind nat

type_synonym io_env = "string \<Rightarrow> io_fault"

definition io_err :: "io_error_kind \<Rightarrow> engine_error" where
  "io_err k = from_io_error k ''I/O error''"

definition file_bytes :: "disk \<Rightarrow> string \<Rightarrow> bytes" where
  "file_bytes d path = (case d path of Some b \<Rightarrow> b | None \<Rightarrow> [])"

section \<open>Paths\<close>

fun validate_path_component :: "path_component \<Rightarrow> unit result" where
  "validate_path_component ParentDir =
    Inl (inv_torrent ''Invalid torrent: file path contains parent directory reference (..)'')"
| "validate_path_component RootDir =
    Inl (inv_torrent ''Invalid torrent: file path contains absolute path'')"
| "validate_path_component _ = Inr ()"

fun validate_components :: "path_component list \<Rightarrow> unit result" where
  "validate_components [] = Inr ()"
| "validate_components (c # cs) = rbind (validate_path_component c) (\<lambda>_. validate_components cs)"

definition raw_path :: "info \<Rightarrow> string \<Rightarrow> nat \<Rightarrow> string" where
  "raw_path info dir idx =
    (if in_is_single_file info then path_push dir (in_name info)
     else path_push (path_push dir (in_name info)) (fi_path (in_files info ! idx)))"

definition file_path :: "info \<Rightarrow> string \<Rightarrow> nat \<Rightarrow> string result" where
  "file_path info dir idx =
    (if in_is_single_file info
     then rbind (validate_components (path_components (in_name info))) (\<lambda>_.
          Inr (path_push dir (in_name info)))
     else rbind (validate_components (path_components (in_name info))) (\<lambda>_.
          rbind (validate_components (path_components (fi_path (in_files info ! idx)))) (\<lambda>_.
          Inr (path_push (path_push dir (in_name info)) (fi_path (in_files info ! idx))))))"

section \<open>Writing and reading segments\<close>

text \<open>A slice out of range panics; the error stands for the panic.\<close>

definition panic :: engine_error where
  "panic = EInternal ''panic: slice index out of range''"

fun write_segments ::
  "io_env \<Rightarrow> info \<Rightarrow> string \<Rightarrow> (nat \<times> nat \<times> nat) list \<Rightarrow> bytes \<Rightarrow> nat \<Rightarrow> disk \<Rightarrow> unit result \<times> disk"
where
  "write_segments io info dir [] data data_offset d = (Inr (), d)"
| "write_segments io info dir ((idx, off, len) # segs) data data_offset d =
    (case file_path info dir idx of
       Inl e \<Rightarrow> (Inl e, d)
     | Inr path \<Rightarrow>
         (case io path of
            IoFail k \<Rightarrow> (Inl (io_err k), d)
          | IoPartial k n \<Rightarrow>
              (if length data < data_offset + len then (Inl panic, d)
               else (Inl (io_err k),
                 d(path \<mapsto> write_at off (take n (slice data_offset (data_offset + len) data))
                             (file_bytes d path))))
          | IoOk \<Rightarrow>
              if length data < data_offset + len then (Inl panic, d)
              else write_segments io info dir segs data (data_offset + len)
                (d(path \<mapsto> write_at off (slice data_offset (data_offset + len) data)
                              (file_bytes d path)))))"

definition write_piece ::
  "io_env \<Rightarrow> piece_manager \<Rightarrow> nat \<Rightarrow> bytes \<Rightarrow> disk \<Rightarrow> unit result \<times> disk" where
  "write_piece io s i data d =
    write_segments io (pm_info s) (pm_save_dir s) (files_for_piece (pm_meta s) i) data 0 d"

text \<open>Reading the segments of a piece; \<open>Inr None\<close> when a file cannot be opened or is too short.\<close>

fun read_segments ::
  "io_env \<Rightarrow> info \<Rightarrow> string \<Rightarrow> (nat \<times> nat \<times> nat) list \<Rightarrow> disk \<Rightarrow> bytes \<Rightarrow> bytes option result"
where
  "read_segments io info dir [] d acc = Inr (Some acc)"
| "read_segments io info dir ((idx, off, len) # segs) d acc =
    (case file_path info dir idx of
       Inl e \<Rightarrow> Inl e
     | Inr path \<Rightarrow>
         (case (io path, d path) of
            (IoOk, Some b) \<Rightarrow>
              if length b < off + len \<and> 0 < len then Inr None
              else read_segments io info dir segs d (acc @ slice off (off + len) b)
          | _ \<Rightarrow> Inr None))"

definition verify_piece_on_disk ::
  "(bytes \<Rightarrow> bytes) \<Rightarrow> io_env \<Rightarrow> piece_manager \<Rightarrow> disk \<Rightarrow> nat \<Rightarrow> bool result" where
  "verify_piece_on_disk sha1 io s d i =
    (case piece_hash (pm_meta s) i of
       None \<Rightarrow> Inr False
     | Some expected_hash \<Rightarrow>
         (case piece_length (pm_meta s) i of
            None \<Rightarrow> Inr False
          | Some _ \<Rightarrow>
              rbind (read_segments io (pm_info s) (pm_save_dir s) (files_for_piece (pm_meta s) i) d [])
                (\<lambda>r. case r of None \<Rightarrow> Inr False | Some data \<Rightarrow> Inr (sha1 data = expected_hash))))"

section \<open>The handlers\<close>

datatype vs_outcome = VsDone "bool result" | VsWrite bytes

definition vs_begin :: "(bytes \<Rightarrow> bytes) \<Rightarrow> nat \<Rightarrow> piece_manager \<Rightarrow> piece_manager \<times> vs_outcome" where
  "vs_begin sha1 i s =
    (case map_of (pm_pending s) i of
       None \<Rightarrow> (s, VsDone (Inr False))
     | Some p \<Rightarrow>
         (case pp_data p of
            None \<Rightarrow> (s, VsDone (Inl (err_protocol PeerProtocol ''Piece '')))
          | Some data \<Rightarrow>
              (case piece_hash (pm_meta s) i of
                 None \<Rightarrow> (s, VsDone (Inl (inv_torrent ''No hash for piece '')))
               | Some expected_hash \<Rightarrow>
                   if sha1 data \<noteq> expected_hash then (cancel_piece i s, VsDone (Inr False))
                   else (s, VsWrite data))))"

definition vs_commit :: "nat \<Rightarrow> nat \<Rightarrow> piece_manager \<Rightarrow> piece_manager" where
  "vs_commit i len s =
    (let s' = s\<lparr>pm_have := (pm_have s)[i := True]\<rparr> in
     if map_of (pm_pending s') i \<noteq> None
     then s'\<lparr>pm_pending := AList.delete i (pm_pending s'),
             pm_verified_count := u64 (pm_verified_count s' + 1),
             pm_verified_bytes := u64 (pm_verified_bytes s' + len)\<rparr>
     else s')"

definition verify_and_save ::
  "(bytes \<Rightarrow> bytes) \<Rightarrow> io_env \<Rightarrow> nat \<Rightarrow> piece_manager \<Rightarrow> disk \<Rightarrow> bool result \<times> piece_manager \<times> disk"
where
  "verify_and_save sha1 io i s d =
    (case vs_begin sha1 i s of
       (s', VsDone r) \<Rightarrow> (r, s', d)
     | (s', VsWrite data) \<Rightarrow>
         (case write_piece io s' i data d of
            (Inl e, d') \<Rightarrow> (Inl e, s', d')
          | (Inr _, d') \<Rightarrow> (Inr True, vs_commit i (length data) s', d')))"

definition ws_begin :: "nat \<Rightarrow> piece_manager \<Rightarrow> bool" where
  "ws_begin i s = (\<not> have_piece i s)"

definition ws_commit :: "nat \<Rightarrow> nat \<Rightarrow> piece_manager \<Rightarrow> piece_manager" where
  "ws_commit i len s =
    s\<lparr>pm_have := (pm_have s)[i := True], pm_verified_count := u64 (pm_verified_count s + 1),
      pm_verified_bytes := u64 (pm_verified_bytes s + len)\<rparr>"

definition write_piece_from_webseed ::
  "io_env \<Rightarrow> nat \<Rightarrow> bytes \<Rightarrow> piece_manager \<Rightarrow> disk \<Rightarrow> unit result \<times> piece_manager \<times> disk" where
  "write_piece_from_webseed io i data s d =
    (if \<not> ws_begin i s then (Inr (), s, d)
     else case write_piece io s i data d of
            (Inl e, d') \<Rightarrow> (Inl e, s, d')
          | (Inr _, d') \<Rightarrow> (Inr (), ws_commit i (length data) s, d'))"

fun verify_existing_loop ::
  "(bytes \<Rightarrow> bytes) \<Rightarrow> io_env \<Rightarrow> disk \<Rightarrow> nat list \<Rightarrow> nat \<Rightarrow> nat \<Rightarrow> piece_manager
    \<Rightarrow> (nat \<times> nat) result \<times> piece_manager"
where
  "verify_existing_loop sha1 io d [] valid_count verified_bytes s = (Inr (valid_count, verified_bytes), s)"
| "verify_existing_loop sha1 io d (i # is) valid_count verified_bytes s =
    (case verify_piece_on_disk sha1 io s d i of
       Inl e \<Rightarrow> (Inl e, s)
     | Inr valid \<Rightarrow>
         (let s' = s\<lparr>pm_have := (pm_have s)[i := valid]\<rparr> in
          if valid
          then verify_existing_loop sha1 io d is (valid_count + 1)
                 (u64 (verified_bytes + (case piece_length (pm_meta s) i of Some l \<Rightarrow> l | None \<Rightarrow> 0))) s'
          else verify_existing_loop sha1 io d is valid_count verified_bytes s'))"

definition verify_existing ::
  "(bytes \<Rightarrow> bytes) \<Rightarrow> io_env \<Rightarrow> disk \<Rightarrow> piece_manager \<Rightarrow> nat result \<times> piece_manager" where
  "verify_existing sha1 io d s =
    (case verify_existing_loop sha1 io d [0..<pm_num_pieces s] 0 0 s of
       (Inl e, s') \<Rightarrow> (Inl e, s')
     | (Inr (valid_count, verified_bytes), s') \<Rightarrow>
         (Inr valid_count, s'\<lparr>pm_verified_bytes := verified_bytes, pm_verified_count := valid_count\<rparr>))"

section \<open>Reading a block for upload\<close>

fun read_block_loop ::
  "io_env \<Rightarrow> info \<Rightarrow> string \<Rightarrow> (nat \<times> nat \<times> nat) list \<Rightarrow> nat \<Rightarrow> nat \<Rightarrow> nat \<Rightarrow> disk \<Rightarrow> bytes \<Rightarrow> bytes result"
where
  "read_block_loop io info dir [] piece_pos block_start block_end d block = Inr block"
| "read_block_loop io info dir ((idx, off, len) # segs) piece_pos block_start block_end d block =
    (let seg_start = piece_pos; seg_end = piece_pos + len;
         read_start = max seg_start block_start; read_end = min seg_end block_end in
     if read_end \<le> read_start
     then read_block_loop io info dir segs seg_end block_start block_end d block
     else case file_path info dir idx of
       Inl e \<Rightarrow> Inl e
     | Inr path \<Rightarrow>
         (case (io path, d path) of
            (IoOk, Some b) \<Rightarrow>
              let a = off + (read_start - seg_start); n = read_end - read_start in
              if length b < a + n
              then Inl (err_storage SkIo path ''Failed to read block data: '')
              else if block_end \<le> seg_end then Inr (block @ slice a (a + n) b)
              else read_block_loop io info dir segs seg_end block_start block_end d
                     (block @ slice a (a + n) b)
          | _ \<Rightarrow> Inl (err_storage SkIo path ''Failed to open file for reading: '')))"

definition read_block ::
  "io_env \<Rightarrow> piece_manager \<Rightarrow> disk \<Rightarrow> nat \<Rightarrow> nat \<Rightarrow> nat \<Rightarrow> bytes result" where
  "read_block io s d i offset len =
    (if \<not> have_piece i s then Inl (err_protocol PeerProtocol ''Don't have piece '')
     else rbind (ok_or (inv_torrent ''Invalid piece index '') (piece_length (pm_meta s) i)) (\<lambda>plen.
       if plen < offset + len then Inl (err_protocol PeerProtocol ''Block request out of bounds: offset='')
       else if block_size + 1024 < len then Inl (err_protocol PeerProtocol ''Block request too large: '')
       else rbind (read_block_loop io (pm_info s) (pm_save_dir s) (files_for_piece (pm_meta s) i)
                     0 offset (offset + len) d []) (\<lambda>block.
         if length block \<noteq> len then Inl (inv_torrent ''Piece '') else Inr block)))"

section \<open>Preallocation\<close>

datatype allocation_mode = AllocNone | AllocSparse | AllocFull

definition set_len :: "nat \<Rightarrow> bytes \<Rightarrow> bytes" where
  "set_len n b = take n b @ replicate (n - length b) 0"

fun preallocate_loop ::
  "io_env \<Rightarrow> info \<Rightarrow> string \<Rightarrow> allocation_mode \<Rightarrow> nat list \<Rightarrow> disk \<Rightarrow> unit result \<times> disk" where
  "preallocate_loop io info dir mode [] d = (Inr (), d)"
| "preallocate_loop io info dir mode (idx # is) d =
    (case file_path info dir idx of
       Inl e \<Rightarrow> (Inl e, d)
     | Inr path \<Rightarrow>
         (case io path of
            IoOk \<Rightarrow>
              let size = fi_length (in_files info ! idx); old = file_bytes d path in
              preallocate_loop io info dir mode is
                (d(path \<mapsto>
                   (if mode = AllocSparse \<or> length old < size then set_len size old else old)))
          | IoFail k \<Rightarrow> (Inl (io_err k), d)
          | IoPartial k n \<Rightarrow> (Inl (io_err k), d(path \<mapsto> file_bytes d path))))"

definition preallocate_files ::
  "io_env \<Rightarrow> piece_manager \<Rightarrow> allocation_mode \<Rightarrow> disk \<Rightarrow> unit result \<times> disk" where
  "preallocate_files io s mode d =
    (if mode = AllocNone then (Inr (), d)
     else preallocate_loop io (pm_info s) (pm_save_dir s) mode [0..<length (in_files (pm_info s))] d)"

section \<open>Single writes\<close>

lemma slice_drop: "slice a b (drop n xs) = slice (n + a) (n + b) xs"
  by (simp add: slice_def add.commute)

lemma slice_take: "b \<le> n \<Longrightarrow> slice a b (take n xs) = slice a b xs"
  by (simp add: slice_def drop_take min_def)

lemma slice_write_same: "bs \<noteq> [] \<Longrightarrow> slice off (off + length bs) (write_at off bs old) = bs"
  by (simp add: write_at_def slice_append)

lemma length_write_at: "length old \<le> length (write_at off bs old)"
  by (auto simp: write_at_def)

lemma length_write_at_end: "bs \<noteq> [] \<Longrightarrow> off + length bs \<le> length (write_at off bs old)"
  by (simp add: write_at_def)

lemma slice_write_other:
  assumes "b \<le> length old" and "b \<le> off \<or> off + length bs \<le> a"
  shows "slice a b (write_at off bs old) = slice a b old"
proof (cases "bs = [] \<or> b \<le> a")
  case True
  then show ?thesis by (auto simp: write_at_def)
next
  case False
  then have ne: "bs \<noteq> []" and ab: "a < b" by auto
  from assms(2) show ?thesis
  proof
    assume b: "b \<le> off"
    have "slice a b (write_at off bs old) = slice a b (take off (old @ replicate (off - length old) 0))"
      using ne b by (simp add: write_at_def slice_append)
    also have "\<dots> = slice a b old"
      using b assms(1) by (simp only: slice_take slice_append) simp
    finally show ?thesis .
  next
    assume a: "off + length bs \<le> a"
    then have off: "off \<le> length old" using ab assms(1) by simp
    have "slice a b (write_at off bs old)
      = slice (a - (off + length bs)) (b - (off + length bs)) (drop (off + length bs) old)"
      using ne a off by (simp add: write_at_def slice_append)
    also have "\<dots> = slice a b old"
      using a ab by (simp add: slice_drop)
    finally show ?thesis .
  qed
qed

section \<open>Segments on the disk\<close>

text \<open>The specification of reading: what the segments of a piece hold.\<close>

definition seg_read :: "disk \<Rightarrow> info \<Rightarrow> string \<Rightarrow> nat \<times> nat \<times> nat \<Rightarrow> bytes option" where
  "seg_read d info dir = (\<lambda>(idx, off, len).
     case d (raw_path info dir idx) of
       None \<Rightarrow> None
     | Some b \<Rightarrow> if length b < off + len \<and> 0 < len then None else Some (slice off (off + len) b))"

fun segs_read :: "disk \<Rightarrow> info \<Rightarrow> string \<Rightarrow> (nat \<times> nat \<times> nat) list \<Rightarrow> bytes option" where
  "segs_read d info dir [] = Some []"
| "segs_read d info dir (seg # segs) =
    (case seg_read d info dir seg of
       None \<Rightarrow> None
     | Some c \<Rightarrow> map_option (append c) (segs_read d info dir segs))"

definition distinct_paths :: "info \<Rightarrow> string \<Rightarrow> bool" where
  "distinct_paths info dir \<longleftrightarrow> distinct (map (raw_path info dir) [0..<length (in_files info)])"

lemma distinct_pathsD:
  "distinct_paths info dir \<Longrightarrow> i < length (in_files info) \<Longrightarrow> j < length (in_files info) \<Longrightarrow>
    raw_path info dir i = raw_path info dir j \<longleftrightarrow> i = j"
  by (auto simp: distinct_paths_def distinct_map inj_on_def)

lemma validate_components_ok:
  "list_all (\<lambda>c. c \<noteq> ParentDir \<and> c \<noteq> RootDir) cs \<Longrightarrow> validate_components cs = Inr ()"
proof (induction cs)
  case (Cons c cs)
  then show ?case by (cases c) auto
qed simp

lemma file_path_wf:
  assumes "wf_info info" and "idx < length (in_files info)"
  shows "file_path info dir idx = Inr (raw_path info dir idx)"
proof -
  have "safe_path (in_name info)" "safe_path (fi_path (in_files info ! idx))"
    using assms by (auto simp: wf_info_def list_all_iff)
  then show ?thesis
    using accepted_no_parent validate_components_ok
    by (simp add: file_path_def raw_path_def safe_path_def)
qed

definition in_range :: "info \<Rightarrow> (nat \<times> nat \<times> nat) list \<Rightarrow> bool" where
  "in_range info segs \<longleftrightarrow> list_all (\<lambda>(idx, _). idx < length (in_files info)) segs"

lemma in_range_Cons [simp]:
  "in_range info ((idx, off, len) # segs) \<longleftrightarrow> idx < length (in_files info) \<and> in_range info segs"
  "in_range info []"
  by (simp_all add: in_range_def)

lemma read_segments_eq:
  assumes "wf_info info" and "in_range info segs"
    and "list_all (\<lambda>(idx, _). io (raw_path info dir idx) = IoOk) segs"
  shows "read_segments io info dir segs d acc = Inr (map_option (append acc) (segs_read d info dir segs))"
  using assms(2,3)
proof (induction segs arbitrary: acc)
  case (Cons seg segs)
  obtain idx off len where seg: "seg = (idx, off, len)" by (cases seg)
  show ?case
    using Cons file_path_wf [OF assms(1), of idx]
    by (cases "segs_read d info dir segs") (auto simp: seg seg_read_def split: option.splits)
qed simp

text \<open>\<open>apart seg segs\<close>: \<open>seg\<close> shares no byte with any of \<open>segs\<close>.\<close>

definition apart :: "nat \<times> nat \<times> nat \<Rightarrow> (nat \<times> nat \<times> nat) list \<Rightarrow> bool" where
  "apart = (\<lambda>(i, o1, l1) segs.
     list_all (\<lambda>(j, o2, l2). i = j \<longrightarrow> o1 + l1 \<le> o2 \<or> o2 + l2 \<le> o1) segs)"

lemma seg_read_write:
  assumes "distinct_paths info dir" and "i < length (in_files info)" and "j < length (in_files info)"
    and "seg_read d info dir (i, a, l) = Some c"
    and "i = j \<longrightarrow> a + l \<le> off \<or> off + length bs \<le> a"
  shows "seg_read (d(raw_path info dir j \<mapsto> write_at off bs (file_bytes d (raw_path info dir j))))
    info dir (i, a, l) = Some c"
proof (cases "i = j")
  case False
  then have "raw_path info dir i \<noteq> raw_path info dir j"
    using distinct_pathsD [OF assms(1-3)] by simp
  then show ?thesis using assms(4) by (simp add: seg_read_def)
next
  case True
  from assms(4) obtain b where b: "d (raw_path info dir i) = Some b"
    and len: "l = 0 \<or> a + l \<le> length b" and c: "c = slice a (a + l) b"
    by (auto simp: seg_read_def split: option.splits if_splits)
  have fb: "file_bytes d (raw_path info dir j) = b" using b True by (simp add: file_bytes_def)
  show ?thesis
  proof (cases "l = 0")
    case True
    then show ?thesis using c fb \<open>i = j\<close> by (simp add: seg_read_def)
  next
    case False
    then have le: "a + l \<le> length b" using len by simp
    then have "slice a (a + l) (write_at off bs b) = slice a (a + l) b"
      using assms(5) True by (intro slice_write_other) auto
    moreover have "a + l \<le> length (write_at off bs b)"
      using le length_write_at le_trans by blast
    ultimately show ?thesis using c fb True by (simp add: seg_read_def)
  qed
qed

lemma write_segments_keeps:
  assumes "distinct_paths info dir" and "wf_info info" and "i < length (in_files info)"
    and "in_range info segs" and "seg_read d info dir (i, a, l) = Some c" and "apart (i, a, l) segs"
  shows "seg_read (snd (write_segments io info dir segs data doff d)) info dir (i, a, l) = Some c"
  using assms(4-6)
proof (induction segs arbitrary: doff d)
  case (Cons seg segs)
  obtain idx off len where seg: "seg = (idx, off, len)" by (cases seg)
  have idx: "idx < length (in_files info)" using Cons.prems(1) seg by simp
  have fp: "file_path info dir idx = Inr (raw_path info dir idx)"
    by (rule file_path_wf [OF assms(2) idx])
  have ap: "i = idx \<longrightarrow> a + l \<le> off \<or> off + len \<le> a" using Cons.prems(3) seg by (simp add: apart_def)
  have one: "seg_read (d(raw_path info dir idx \<mapsto> write_at off bs (file_bytes d (raw_path info dir idx))))
      info dir (i, a, l) = Some c" if "length bs \<le> len" for bs
    using ap that by (intro seg_read_write [OF assms(1,3) idx Cons.prems(2)]) auto
  show ?case
  proof (cases "io (raw_path info dir idx)")
    case IoOk
    show ?thesis
    proof (cases "length data < doff + len")
      case True
      then show ?thesis using IoOk fp seg Cons.prems(2) by simp
    next
      case False
      have "seg_read (snd (write_segments io info dir segs data (doff + len)
          (d(raw_path info dir idx \<mapsto> write_at off (slice doff (doff + len) data)
             (file_bytes d (raw_path info dir idx)))))) info dir (i, a, l) = Some c"
      proof (rule Cons.IH)
        show "in_range info segs" using Cons.prems(1) seg by simp
        show "apart (i, a, l) segs" using Cons.prems(3) seg by (simp add: apart_def)
      qed (rule one, simp)
      then show ?thesis using IoOk False fp seg by simp
    qed
  next
    case (IoFail k)
    then show ?thesis using fp seg Cons.prems(2) by simp
  next
    case (IoPartial k n)
    then show ?thesis using fp seg Cons.prems(2) one [of "take n (slice doff (doff + len) data)"]
      by (simp del: fun_upd_apply)
  qed
qed simp

definition total_len :: "(nat \<times> nat \<times> nat) list \<Rightarrow> nat" where
  "total_len segs = sum_list (map (snd \<circ> snd) segs)"

lemma write_segments_read:
  assumes "distinct_paths info dir" and "wf_info info" and "in_range info segs"
    and "distinct (map fst segs)" and "write_segments io info dir segs data doff d = (Inr (), d')"
  shows "segs_read d' info dir segs = Some (slice doff (doff + total_len segs) data)"
  using assms(3-5)
proof (induction segs arbitrary: doff d)
  case Nil
  then show ?case by (simp add: total_len_def)
next
  case (Cons seg segs)
  obtain idx off len where seg: "seg = (idx, off, len)" by (cases seg)
  have idx: "idx < length (in_files info)" using Cons.prems(1) seg by simp
  have fp: "file_path info dir idx = Inr (raw_path info dir idx)"
    by (rule file_path_wf [OF assms(2) idx])
  let ?c = "slice doff (doff + len) data"
  let ?d = "d(raw_path info dir idx \<mapsto> write_at off ?c (file_bytes d (raw_path info dir idx)))"
  from Cons.prems(3) have le: "doff + len \<le> length data"
    and w: "write_segments io info dir segs data (doff + len) ?d = (Inr (), d')"
    by (auto simp: seg fp split: io_fault.splits if_splits)
  have c: "length ?c = len" using le by simp
  have "seg_read ?d info dir (idx, off, len) = Some ?c"
  proof (cases "len = 0")
    case False
    then have ne: "?c \<noteq> []" using c by (metis list.size(3))
    show ?thesis
      using slice_write_same [OF ne, of off] length_write_at_end [OF ne, of off] c
      by (simp add: seg_read_def not_less)
  qed (simp add: seg_read_def)
  moreover have "apart (idx, off, len) segs"
    using Cons.prems(2) seg by (force simp: apart_def list_all_iff)
  ultimately have "seg_read (snd (write_segments io info dir segs data (doff + len) ?d)) info dir (idx, off, len) = Some ?c"
    using Cons.prems(1) seg by (intro write_segments_keeps [OF assms(1,2) idx]) simp_all
  then have first: "seg_read d' info dir (idx, off, len) = Some ?c" by (simp only: w snd_conv)
  have "segs_read d' info dir segs = Some (slice (doff + len) (doff + len + total_len segs) data)"
    by (rule Cons.IH [OF _ _ w]) (use Cons.prems seg in simp_all)
  then show ?case
    using first seg slice_join [of doff "doff + len" "doff + len + total_len segs" data]
    by (simp add: total_len_def add.assoc)
qed

lemma segs_read_cong:
  "(\<And>seg. seg \<in> set segs \<Longrightarrow> seg_read d' info dir seg = seg_read d info dir seg) \<Longrightarrow>
    segs_read d' info dir segs = segs_read d info dir segs"
  by (induction segs) (auto split: option.splits)

lemma segs_read_Some: "segs_read d info dir segs = Some b \<Longrightarrow> seg \<in> set segs \<Longrightarrow> seg_read d info dir seg \<noteq> None"
  by (induction segs arbitrary: b) (auto split: option.splits)

section \<open>Pieces on the disk\<close>

lemma seg_read_length: "seg_read d info dir (idx, off, len) = Some c \<Longrightarrow> length c = len"
  by (auto simp: seg_read_def split: option.splits if_splits)

lemma segs_read_length: "segs_read d info dir segs = Some b \<Longrightarrow> length b = total_len segs"
  by (induction segs arbitrary: b)
    (auto simp: total_len_def seg_read_length split: option.splits)

lemma piece_Some_range:
  assumes "wf_info (mi_info m)" and "i < num_pieces (mi_info m)"
  obtains s e where "piece_range m i = Some (s, e)" and "piece_length m i = Some (e - s)" and "s < e"
proof -
  obtain s e where r: "piece_range m i = Some (s, e)" using piece_range_wf(1) [OF assms] by blast
  then show thesis using piece_length_wf(1,2) [OF assms(1) r] by (rule that)
qed

lemma piece_segs_in_range:
  assumes "wf_info (mi_info m)" and "i < num_pieces (mi_info m)"
  shows "in_range (mi_info m) (files_for_piece m i)"
proof -
  obtain s e where r: "piece_range (m) i = Some (s, e)" by (rule piece_Some_range [OF assms])
  show ?thesis using files_for_piece_mem(1) [OF assms(1) r] by (auto simp: in_range_def list_all_iff)
qed

lemma piece_segs_distinct: "distinct (map fst (files_for_piece m i))"
  by (auto simp: files_for_piece_def overlaps_distinct split: option.splits)

lemma piece_segs_total:
  assumes "wf_info (mi_info m)" and "piece_length m i = Some len"
  shows "total_len (files_for_piece m i) = len"
proof -
  note n = piece_length_Some(1) [OF assms]
  obtain s e where r: "piece_range m i = Some (s, e)" and "len = e - s"
    using piece_Some_range [OF assms(1) n] assms(2) by (metis option.inject)
  let ?fs = "in_files (mi_info m)"
  let ?F = "\<lambda>j. replicate (fi_length (?fs ! j)) (0 :: byte)"
  have "segments ?F (files_for_piece m i) = piece_slice m (concat (map ?F [0..<length ?fs])) i"
    by (rule segments_of_piece [OF assms(1) n]) simp
  moreover have "length (concat (map ?F [0..<length ?fs])) = in_total_size (mi_info m)"
    by (rule length_concat_files [OF assms(1)]) simp
  then have "length (piece_slice m (concat (map ?F [0..<length ?fs])) i) = len"
    using r piece_length_wf [OF assms(1) r] \<open>len = e - s\<close> by (simp add: piece_slice_def)
  moreover have "length (segments ?F segs) = total_len segs"
    if "list_all (\<lambda>(idx, off, l). off + l \<le> fi_length (?fs ! idx)) segs" for segs
    using that by (induction segs) (auto simp: total_len_def)
  moreover have "list_all (\<lambda>(idx, off, l). off + l \<le> fi_length (?fs ! idx)) (files_for_piece m i)"
    using files_for_piece_mem(3) [OF assms(1) r] by (auto simp: list_all_iff)
  ultimately show ?thesis by metis
qed

lemma pieces_apart:
  assumes "wf_info (mi_info m)" and "i < num_pieces (mi_info m)" and "j < num_pieces (mi_info m)"
    and "i \<noteq> j" and "seg \<in> set (files_for_piece m i)"
  shows "apart seg (files_for_piece m j)"
proof -
  obtain si ei where ri: "piece_range m i = Some (si, ei)" by (rule piece_Some_range [OF assms(1,2)])
  obtain sj ej where rj: "piece_range m j = Some (sj, ej)" by (rule piece_Some_range [OF assms(1,3)])
  obtain idx o1 l1 where seg: "seg = (idx, o1, l1)" by (cases seg)
  have disj: "ei \<le> sj \<or> ej \<le> si"
  proof -
    let ?pl = "in_piece_length (mi_info m)"
    have "si = i * ?pl" "sj = j * ?pl" "ei \<le> (i + 1) * ?pl" "ej \<le> (j + 1) * ?pl"
      using piece_range_wf(1) [OF assms(1,2)] piece_range_wf(1) [OF assms(1,3)] ri rj by simp_all
    moreover have "(i + 1) * ?pl \<le> j * ?pl \<or> (j + 1) * ?pl \<le> i * ?pl"
      using assms(4) by (metis Suc_eq_plus1 Suc_leI linorder_neqE_nat mult_le_mono1)
    ultimately show ?thesis by linarith
  qed
  note mi = files_for_piece_mem [OF assms(1) ri assms(5) [unfolded seg]]
  have "idx = k \<longrightarrow> o1 + l1 \<le> o2 \<or> o2 + l2 \<le> o1" if "(k, o2, l2) \<in> set (files_for_piece m j)" for k o2 l2
  proof
    assume k: "idx = k"
    have le: "min e' F - f \<le> max s' f - f" if "e' \<le> s'" for e' s' F f :: nat
      using that by (intro diff_le_mono) simp
    note mj = files_for_piece_mem [OF assms(1) rj that]
    from disj show "o1 + l1 \<le> o2 \<or> o2 + l2 \<le> o1"
      unfolding mi(3) mj(3) unfolding mi(2) mj(2) k using le by blast
  qed
  then show ?thesis by (auto simp: apart_def seg list_all_iff)
qed

definition piece_data :: "piece_manager \<Rightarrow> disk \<Rightarrow> nat \<Rightarrow> bytes option" where
  "piece_data s d i = segs_read d (pm_info s) (pm_save_dir s) (files_for_piece (pm_meta s) i)"

text \<open>Piece \<open>i\<close> is complete on the disk and has its hash.\<close>

definition verified :: "(bytes \<Rightarrow> bytes) \<Rightarrow> piece_manager \<Rightarrow> disk \<Rightarrow> nat \<Rightarrow> bool" where
  "verified sha1 s d i \<longleftrightarrow>
    (case piece_data s d i of
       None \<Rightarrow> False
     | Some data \<Rightarrow> piece_hash (pm_meta s) i = Some (sha1 data))"

lemma pm_wf: "pm_inv s \<Longrightarrow> wf_info (pm_info s)"
  by (simp add: pm_inv_def)

lemma pm_num: "pm_num_pieces s = num_pieces (pm_info s)"
  by (simp add: pm_num_pieces_def num_pieces_def)

lemma write_piece_keeps:
  assumes "pm_inv s" and "distinct_paths (pm_info s) (pm_save_dir s)"
    and "i < pm_num_pieces s" and "j < pm_num_pieces s" and "i \<noteq> j" and "piece_data s d j = Some c"
  shows "piece_data s (snd (write_piece io s i data d)) j = Some c"
proof -
  note wf = pm_wf [OF assms(1)]
  have n: "i < num_pieces (pm_info s)" "j < num_pieces (pm_info s)"
    using assms(3,4) by (simp_all add: pm_num)
  let ?d = "snd (write_piece io s i data d)" and ?segs = "files_for_piece (pm_meta s) j"
  have "seg_read ?d (pm_info s) (pm_save_dir s) seg = seg_read d (pm_info s) (pm_save_dir s) seg"
    if seg: "seg \<in> set ?segs" for seg
  proof -
    obtain idx a l where s: "seg = (idx, a, l)" by (cases seg)
    obtain b where b: "seg_read d (pm_info s) (pm_save_dir s) (idx, a, l) = Some b"
      using segs_read_Some [OF assms(6) [unfolded piece_data_def] seg] s by auto
    have "idx < length (in_files (pm_info s))"
      using piece_segs_in_range [OF wf n(2)] seg s by (auto simp: in_range_def list_all_iff)
    then have "seg_read ?d (pm_info s) (pm_save_dir s) (idx, a, l) = Some b"
      unfolding write_piece_def
      using piece_segs_in_range [OF wf n(1)] pieces_apart [OF wf n(2,1) _ seg] assms(5) b s
      by (intro write_segments_keeps [OF assms(2) wf]) simp_all
    then show ?thesis using b s by simp
  qed
  then show ?thesis using assms(6) segs_read_cong unfolding piece_data_def by metis
qed

lemma write_piece_data:
  assumes "pm_inv s" and "distinct_paths (pm_info s) (pm_save_dir s)"
    and "piece_length (pm_meta s) i = Some (length data)"
    and "write_piece io s i data d = (Inr (), d')"
  shows "piece_data s d' i = Some data"
proof -
  note wf = pm_wf [OF assms(1)]
  note n = piece_length_Some(1) [OF wf assms(3)]
  have "segs_read d' (pm_info s) (pm_save_dir s) (files_for_piece (pm_meta s) i)
    = Some (slice 0 (0 + total_len (files_for_piece (pm_meta s) i)) data)"
    using assms(4) unfolding write_piece_def
    by (rule write_segments_read [OF assms(2) wf piece_segs_in_range [OF wf n] piece_segs_distinct])
  then show ?thesis
    using piece_segs_total [OF wf assms(3)] by (simp add: piece_data_def)
qed

lemma verify_piece_on_disk_eq:
  assumes "pm_inv s" and "i < pm_num_pieces s"
    and "list_all (\<lambda>(idx, _). io (raw_path (pm_info s) (pm_save_dir s) idx) = IoOk)
      (files_for_piece (pm_meta s) i)"
  shows "verify_piece_on_disk sha1 io s d i = Inr (verified sha1 s d i)"
proof -
  note wf = pm_wf [OF assms(1)]
  have n: "i < num_pieces (pm_info s)" using assms(2) by (simp add: pm_num)
  obtain len where "piece_length (pm_meta s) i = Some len"
    using piece_Some_range [OF wf n] by metis
  moreover have "piece_hash (pm_meta s) i = Some (in_pieces (pm_info s) ! i)"
    using n by (simp add: piece_hash_def lget_def num_pieces_def)
  ultimately show ?thesis
    using read_segments_eq [OF wf piece_segs_in_range [OF wf n] assms(3), of d "[]"]
    by (auto simp: verify_piece_on_disk_def verified_def piece_data_def split: option.splits)
qed

section \<open>Held pieces are intact\<close>

definition disk_inv :: "(bytes \<Rightarrow> bytes) \<Rightarrow> piece_manager \<times> disk \<Rightarrow> bool" where
  "disk_inv sha1 = (\<lambda>(s, d).
     pm_inv s \<and> distinct_paths (pm_info s) (pm_save_dir s)
     \<and> (\<forall>i < pm_num_pieces s. have_piece i s \<longrightarrow> verified sha1 s d i))"

text \<open>
  The operations on manager and disk. \<open>DSave\<close> and \<open>DWebseed\<close> carry the outcome of their I/O.
\<close>

datatype disk_op =
    DManager pm_op
  | DSave io_env nat
  | DWebseed io_env nat bytes
  | DCheck io_env
  | DAlloc io_env allocation_mode

fun disk_step :: "(bytes \<Rightarrow> bytes) \<Rightarrow> piece_manager \<times> disk \<Rightarrow> disk_op \<Rightarrow> piece_manager \<times> disk" where
  "disk_step sha1 (s, d) (DManager e) = (pm_step s e, d)"
| "disk_step sha1 (s, d) (DSave io i) = snd (verify_and_save sha1 io i s d)"
| "disk_step sha1 (s, d) (DWebseed io i data) = snd (write_piece_from_webseed io i data s d)"
| "disk_step sha1 (s, d) (DCheck io) = (snd (verify_existing sha1 io d s), d)"
| "disk_step sha1 (s, d) (DAlloc io mode) = (s, snd (preallocate_files io s mode d))"

text \<open>
  What the callers guarantee: a webseed piece was verified before, and saving a piece that is
  already held meets no I/O error (a failure in the middle would leave old and new bytes mixed).
\<close>

fun disk_guard :: "(bytes \<Rightarrow> bytes) \<Rightarrow> piece_manager \<times> disk \<Rightarrow> disk_op \<Rightarrow> bool" where
  "disk_guard sha1 (s, d) (DSave io i) \<longleftrightarrow> \<not> have_piece i s \<or> (\<forall>p. io p = IoOk)"
| "disk_guard sha1 (s, d) (DWebseed io i data) \<longleftrightarrow>
    piece_hash (pm_meta s) i = Some (sha1 data) \<and> piece_length (pm_meta s) i = Some (length data)"
| "disk_guard sha1 (s, d) _ \<longleftrightarrow> True"

lemma pm_step_frame [simp]: "pm_meta (pm_step s e) = pm_meta s" "pm_save_dir (pm_step s e) = pm_save_dir s"
proof -
  have c: "pm_meta (foldl (\<lambda>s i. cancel_piece i s) s is) = pm_meta s \<and>
    pm_save_dir (foldl (\<lambda>s i. cancel_piece i s) s is) = pm_save_dir s \<and>
    pm_have (foldl (\<lambda>s i. cancel_piece i s) s is) = pm_have s" for "is"
    by (induction "is" arbitrary: s) (simp_all add: cancel_piece_def)
  show "pm_meta (pm_step s e) = pm_meta s" "pm_save_dir (pm_step s e) = pm_save_dir s"
    using c by (cases e; force simp: set_sequential_def set_stream_position_def set_selected_files_def
      update_piece_availability_def update_availability_def start_piece_def pm_add_block_def
      mark_block_requested_def cancel_piece_def cancel_stale_pieces_def Let_def split_beta
      split: option.splits)+
qed

lemma pm_step_have [simp]: "pm_have (pm_step s e) = pm_have s"
proof -
  have c: "pm_have (foldl (\<lambda>s i. cancel_piece i s) s is) = pm_have s" for "is"
    by (induction "is" arbitrary: s) (simp_all add: cancel_piece_def)
  show ?thesis
    using c by (cases e; force simp: set_sequential_def set_stream_position_def set_selected_files_def
      update_piece_availability_def update_availability_def start_piece_def pm_add_block_def
      mark_block_requested_def cancel_piece_def cancel_stale_pieces_def Let_def split_beta
      split: option.splits)
qed

lemma verified_frame:
  "pm_meta s' = pm_meta s \<Longrightarrow> pm_save_dir s' = pm_save_dir s \<Longrightarrow> verified sha1 s' d i = verified sha1 s d i"
  by (simp add: verified_def piece_data_def cong: option.case_cong)

text \<open>After a write of piece \<open>i\<close>, the other verified pieces still are.\<close>

lemma write_piece_verified_other:
  assumes "pm_inv s" and "distinct_paths (pm_info s) (pm_save_dir s)"
    and "i < pm_num_pieces s" and "j < pm_num_pieces s" and "i \<noteq> j" and "verified sha1 s d j"
  shows "verified sha1 s (snd (write_piece io s i data d)) j"
proof -
  obtain c where "piece_data s d j = Some c"
    using assms(6) by (auto simp: verified_def split: option.splits)
  with write_piece_keeps [OF assms(1-5) this, of io data] assms(6) show ?thesis
    by (simp add: verified_def)
qed

lemma vs_begin_cases:
  assumes "pm_inv s"
  obtains (stop) s' r where "vs_begin sha1 i s = (s', VsDone r)" and "s' = s \<or> s' = cancel_piece i s"
      and "r \<noteq> Inr True"
    | (go) p data where "vs_begin sha1 i s = (s, VsWrite data)" and "map_of (pm_pending s) i = Some p"
      and "pp_data p = Some data" and "piece_hash (pm_meta s) i = Some (sha1 data)"
      and "piece_length (pm_meta s) i = Some (length data)" and "i < pm_num_pieces s"
proof (cases "snd (vs_begin sha1 i s)")
  case (VsDone r)
  then have "fst (vs_begin sha1 i s) = s \<or> fst (vs_begin sha1 i s) = cancel_piece i s" "r \<noteq> Inr True"
    by (auto simp: vs_begin_def split: option.splits if_splits)
  with stop VsDone show thesis by (metis prod.collapse)
next
  case (VsWrite data)
  then obtain p where p: "map_of (pm_pending s) i = Some p" "pp_data p = Some data"
    "piece_hash (pm_meta s) i = Some (sha1 data)" and b: "vs_begin sha1 i s = (s, VsWrite data)"
    by (auto simp: vs_begin_def split: option.splits if_splits)
  note pi = pm_inv_pending [OF assms p(1)]
  have l: "piece_length (pm_meta s) i = Some (length data)"
    using pi pp_data_length(1) [of p data] p(2) by simp
  then show thesis
    using go [OF b p l] piece_length_Some(1) [OF pm_wf [OF assms] l] by (simp add: pm_num)
qed

lemma pm_inv_commit:
  "pm_inv s \<Longrightarrow> pm_inv (vs_commit i len s)" "pm_inv s \<Longrightarrow> pm_inv (ws_commit i len s)"
  by (auto simp: vs_commit_def ws_commit_def pm_inv_def pm_num_pieces_def Let_def distinct_delete
      intro: list_all_delete split: option.splits)

lemma commit_frame [simp]:
  "pm_meta (vs_commit i len s) = pm_meta s" "pm_save_dir (vs_commit i len s) = pm_save_dir s"
  "pm_have (vs_commit i len s) = (pm_have s)[i := True]"
  "pm_meta (ws_commit i len s) = pm_meta s" "pm_save_dir (ws_commit i len s) = pm_save_dir s"
  "pm_have (ws_commit i len s) = (pm_have s)[i := True]"
  by (simp_all add: vs_commit_def ws_commit_def Let_def)

lemma frame_num: "pm_meta s' = pm_meta s \<Longrightarrow> pm_num_pieces s' = pm_num_pieces s"
  by (simp add: pm_num_pieces_def)

text \<open>Writing piece \<open>i\<close> and then setting its bit keeps the invariant; not setting it does, too.\<close>

lemma disk_inv_written:
  assumes inv: "disk_inv sha1 (s, d)" and i: "i < pm_num_pieces s"
    and s': "pm_inv s'" "pm_meta s' = pm_meta s" "pm_save_dir s' = pm_save_dir s"
    and h: "piece_hash (pm_meta s) i = Some (sha1 data)" "piece_length (pm_meta s) i = Some (length data)"
    and w: "write_piece io s i data d = (r, d')"
    and held: "r = Inr () \<and> pm_have s' = (pm_have s)[i := True] \<or> \<not> have_piece i s \<and> pm_have s' = pm_have s"
  shows "disk_inv sha1 (s', d')"
proof -
  have a: "pm_inv s" "distinct_paths (pm_info s) (pm_save_dir s)"
    and v: "\<And>j. j < pm_num_pieces s \<Longrightarrow> have_piece j s \<Longrightarrow> verified sha1 s d j"
    using inv by (auto simp: disk_inv_def)
  have "verified sha1 s' d' j" if j: "j < pm_num_pieces s" "have_piece j s'" for j
  proof (cases "j = i")
    case False
    then have "have_piece j s" using held j by (auto simp: have_piece_def bit_at_def)
    from write_piece_verified_other [OF a i j(1) _ v [OF j(1) this], of io data] False w
    show ?thesis using verified_frame [OF s'(2,3)] by simp
  next
    case True
    then have "r = Inr ()" using held j by (auto simp: have_piece_def)
    then have "piece_data s d' i = Some data" using write_piece_data [OF a h(2)] w by simp
    then show ?thesis using True h(1) verified_frame [OF s'(2,3)] by (simp add: verified_def)
  qed
  then show ?thesis using s'(1,2,3) a(2) frame_num [OF s'(2)] by (auto simp: disk_inv_def)
qed

lemma write_piece_ok:
  assumes "pm_inv s" and "piece_length (pm_meta s) i = Some (length data)" and "\<forall>p. io p = IoOk"
  shows "fst (write_piece io s i data d) = Inr ()"
proof -
  have wf: "wf_info (pm_info s)" by (rule pm_wf [OF assms(1)])
  have "fst (write_segments io (pm_info s) (pm_save_dir s) segs data doff d) = Inr ()"
    if "in_range (pm_info s) segs" "doff + total_len segs \<le> length data" for segs doff d
    using that
  proof (induction segs arbitrary: doff d)
    case (Cons seg segs)
    obtain idx off len where seg: "seg = (idx, off, len)" by (cases seg)
    with Cons assms(3) file_path_wf [OF wf, of idx] show ?case by (auto simp: total_len_def)
  qed simp
  moreover have "in_range (pm_info s) (files_for_piece (pm_meta s) i)"
    using piece_segs_in_range [OF wf piece_length_Some(1) [OF wf assms(2)]] .
  moreover have "0 + total_len (files_for_piece (pm_meta s) i) \<le> length data"
    using piece_segs_total [OF wf assms(2)] by simp
  ultimately show ?thesis unfolding write_piece_def by blast
qed

lemma disk_inv_save:
  assumes inv: "disk_inv sha1 (s, d)" and g: "disk_guard sha1 (s, d) (DSave io i)"
  shows "disk_inv sha1 (snd (verify_and_save sha1 io i s d))"
proof -
  have a: "pm_inv s" using inv by (simp add: disk_inv_def)
  show ?thesis
    using a
  proof (cases rule: vs_begin_cases [of s sha1 i])
    case (stop s' r)
    have "pm_inv (cancel_piece i s)" by (rule pm_inv_cancel [OF a])
    then have "disk_inv sha1 (cancel_piece i s, d)"
      using inv verified_frame [of "cancel_piece i s" s] frame_num [of "cancel_piece i s" s]
      by (simp add: disk_inv_def have_piece_def) (simp add: cancel_piece_def)
    then show ?thesis using stop inv by (auto simp: verify_and_save_def)
  next
    case (go p data)
    obtain r d' where w: "write_piece io s i data d = (r, d')" by force
    show ?thesis
    proof (cases r)
      case (Inr u)
      then have "disk_inv sha1 (vs_commit i (length data) s, d')"
        by (intro disk_inv_written [OF inv go(6) _ _ _ go(4,5) w]) (simp_all add: pm_inv_commit a)
      then show ?thesis using go(1) w Inr by (simp add: verify_and_save_def)
    next
      case (Inl e)
      have "\<not> have_piece i s"
      proof
        assume "have_piece i s"
        then have ok: "\<forall>p. io p = IoOk" using g by simp
        then have "fst (write_piece io s i data d) = Inr ()"
          by (rule write_piece_ok [OF a go(5)])
        then show False using w Inl by simp
      qed
      then have "disk_inv sha1 (s, d')"
        by (intro disk_inv_written [OF inv go(6) a _ _ go(4,5) w]) simp_all
      then show ?thesis using go(1) w Inl by (simp add: verify_and_save_def)
    qed
  qed
qed

lemma disk_inv_webseed:
  assumes inv: "disk_inv sha1 (s, d)" and g: "disk_guard sha1 (s, d) (DWebseed io i data)"
  shows "disk_inv sha1 (snd (write_piece_from_webseed io i data s d))"
proof (cases "have_piece i s")
  case True
  then show ?thesis using inv by (simp add: write_piece_from_webseed_def ws_begin_def)
next
  case False
  have a: "pm_inv s" using inv by (simp add: disk_inv_def)
  have h: "piece_hash (pm_meta s) i = Some (sha1 data)" "piece_length (pm_meta s) i = Some (length data)"
    using g by simp_all
  have i: "i < pm_num_pieces s" using piece_length_Some(1) [OF pm_wf [OF a] h(2)] by (simp add: pm_num)
  obtain r d' where w: "write_piece io s i data d = (r, d')" by force
  show ?thesis
  proof (cases r)
    case (Inr u)
    then have "disk_inv sha1 (ws_commit i (length data) s, d')"
      by (intro disk_inv_written [OF inv i _ _ _ h w]) (simp_all add: pm_inv_commit a)
    then show ?thesis using False w Inr by (simp add: write_piece_from_webseed_def ws_begin_def)
  next
    case (Inl e)
    have "disk_inv sha1 (s, d')"
      by (intro disk_inv_written [OF inv i a _ _ h w]) (simp_all add: False)
    then show ?thesis using False w Inl by (simp add: write_piece_from_webseed_def ws_begin_def)
  qed
qed

lemma read_segments_Some:
  assumes "wf_info info"
  shows "in_range info segs \<Longrightarrow> read_segments io info dir segs d acc = Inr (Some x) \<Longrightarrow>
    \<exists>b. segs_read d info dir segs = Some b \<and> x = acc @ b"
proof (induction segs arbitrary: acc)
  case (Cons seg segs)
  obtain idx off len where seg: "seg = (idx, off, len)" by (cases seg)
  with Cons.prems file_path_wf [OF assms, of idx dir] obtain b where
    b: "d (raw_path info dir idx) = Some b" "\<not> (length b < off + len \<and> 0 < len)"
    and r: "read_segments io info dir segs d (acc @ slice off (off + len) b) = Inr (Some x)"
    by (auto split: io_fault.splits option.splits if_splits)
  from Cons.IH [OF _ r] Cons.prems(1) seg b show ?case by (auto simp: seg_read_def)
qed simp

lemma verify_piece_sound:
  assumes "pm_inv s" and "i < pm_num_pieces s" and "verify_piece_on_disk sha1 io s d i = Inr True"
  shows "verified sha1 s d i"
proof -
  note wf = pm_wf [OF assms(1)]
  have n: "i < num_pieces (pm_info s)" using assms(2) by (simp add: pm_num)
  from assms(3) obtain data where h: "piece_hash (pm_meta s) i = Some (sha1 data)"
    and r: "read_segments io (pm_info s) (pm_save_dir s) (files_for_piece (pm_meta s) i) d [] = Inr (Some data)"
    by (auto simp: verify_piece_on_disk_def rbind_Inr_iff split: option.splits)
  from read_segments_Some [OF wf piece_segs_in_range [OF wf n] r] h show ?thesis
    by (simp add: verified_def piece_data_def)
qed

lemma disk_inv_set_have:
  assumes "disk_inv sha1 (s, d)" and "valid \<Longrightarrow> verified sha1 s d i"
  shows "disk_inv sha1 (s\<lparr>pm_have := (pm_have s)[i := valid]\<rparr>, d)"
proof -
  let ?s = "s\<lparr>pm_have := (pm_have s)[i := valid]\<rparr>"
  have v: "verified sha1 ?s d j = verified sha1 s d j" for j
    by (rule verified_frame) simp_all
  have n: "pm_num_pieces ?s = pm_num_pieces s" by (rule frame_num) simp
  have "pm_inv ?s" using assms(1) by (auto simp: disk_inv_def pm_inv_def pm_num_pieces_def split: option.splits)
  moreover have "have_piece j ?s \<longrightarrow> verified sha1 s d j" if "j < pm_num_pieces s" for j
    using assms that by (cases "j = i") (auto simp: disk_inv_def have_piece_def bit_at_def)
  ultimately show ?thesis using assms(1) v n by (simp add: disk_inv_def)
qed

lemma verify_existing_loop_inv:
  "disk_inv sha1 (s, d) \<Longrightarrow> list_all (\<lambda>i. i < pm_num_pieces s) is \<Longrightarrow>
    disk_inv sha1 (snd (verify_existing_loop sha1 io d is c b s), d)"
proof (induction "is" arbitrary: c b s)
  case (Cons i "is")
  show ?case
  proof (cases "verify_piece_on_disk sha1 io s d i")
    case (Inr valid)
    let ?s = "s\<lparr>pm_have := (pm_have s)[i := valid]\<rparr>"
    have "disk_inv sha1 (?s, d)"
      using Cons.prems Inr verify_piece_sound [of s i sha1 io d]
      by (intro disk_inv_set_have) (auto simp: disk_inv_def)
    moreover have "list_all (\<lambda>i. i < pm_num_pieces ?s) is"
      using Cons.prems(2) frame_num [of ?s s] by simp
    ultimately show ?thesis using Cons.IH Inr by (cases valid) (simp_all add: Let_def)
  qed (use Cons.prems in simp)
qed simp

lemma disk_inv_check: "disk_inv sha1 (s, d) \<Longrightarrow> disk_inv sha1 (snd (verify_existing sha1 io d s), d)"
proof -
  assume inv: "disk_inv sha1 (s, d)"
  have l: "disk_inv sha1 (snd (verify_existing_loop sha1 io d [0..<pm_num_pieces s] 0 0 s), d)"
    by (rule verify_existing_loop_inv [OF inv]) (simp add: list_all_iff)
  have frame: "disk_inv sha1 (s'\<lparr>pm_verified_bytes := b, pm_verified_count := c\<rparr>, d)"
    if "disk_inv sha1 (s', d)" for s' b c
    using that by (auto simp: disk_inv_def pm_inv_def pm_num_pieces_def have_piece_def verified_def
        piece_data_def split: option.splits)
  show ?thesis
    using l frame by (auto simp: verify_existing_def split: prod.splits sum.splits)
qed

lemma slice_set_len: "b \<le> n \<Longrightarrow> b \<le> length xs \<Longrightarrow> slice a b (set_len n xs) = slice a b xs"
  by (simp add: set_len_def slice_append slice_take)

lemma preallocate_keeps:
  assumes "wf_info info" and "distinct_paths info dir" and "list_all (\<lambda>j. j < length (in_files info)) is"
    and "i < length (in_files info)" and "off + len \<le> fi_length (in_files info ! i)"
    and "seg_read d info dir (i, off, len) = Some c"
  shows "seg_read (snd (preallocate_loop io info dir mode is d)) info dir (i, off, len) = Some c"
  using assms(3,6)
proof (induction "is" arbitrary: d)
  case (Cons j "is")
  have j: "j < length (in_files info)" using Cons.prems(1) by simp
  have fp: "file_path info dir j = Inr (raw_path info dir j)" by (rule file_path_wf [OF assms(1) j])
  let ?p = "raw_path info dir j" and ?n = "fi_length (in_files info ! j)"
  have upd: "seg_read (d(?p \<mapsto> y)) info dir (i, off, len) = Some c"
    if "y = file_bytes d ?p \<or> y = set_len ?n (file_bytes d ?p)" for y
  proof (cases "i = j")
    case False
    then show ?thesis
      using Cons.prems(2) distinct_pathsD [OF assms(2,4) j] by (simp add: seg_read_def)
  next
    case True
    obtain b where b: "d ?p = Some b" "len = 0 \<or> off + len \<le> length b" "c = slice off (off + len) b"
      using Cons.prems(2) True by (auto simp: seg_read_def split: option.splits if_splits)
    have len_set: "off + len \<le> length (set_len ?n b)" if "off + len \<le> length b"
      using assms(5) True that by (simp add: set_len_def)
    show ?thesis
    proof (cases "len = 0")
      case False
      with b have le: "off + len \<le> length b" by simp
      then have "slice off (off + len) (set_len ?n b) = slice off (off + len) b"
        using assms(5) True by (intro slice_set_len) simp_all
      then show ?thesis using that b True le len_set by (auto simp: seg_read_def file_bytes_def)
    qed (use b True in \<open>simp add: seg_read_def\<close>)
  qed
  let ?d = "d(?p \<mapsto> (if mode = AllocSparse \<or> length (file_bytes d ?p) < ?n
    then set_len ?n (file_bytes d ?p) else file_bytes d ?p))"
  have "seg_read (snd (preallocate_loop io info dir mode is ?d)) info dir (i, off, len) = Some c"
  proof (rule Cons.IH)
    show "list_all (\<lambda>j. j < length (in_files info)) is" using Cons.prems(1) by simp
  qed (rule upd, simp)
  moreover have "seg_read (d(?p \<mapsto> file_bytes d ?p)) info dir (i, off, len) = Some c"
    by (rule upd) simp
  ultimately show ?case
    using Cons.prems(2)
    by (cases "io ?p") (simp_all only: preallocate_loop.simps fp sum.case io_fault.case Let_def snd_conv)
qed simp

lemma disk_inv_alloc: "disk_inv sha1 (s, d) \<Longrightarrow> disk_inv sha1 (s, snd (preallocate_files io s mode d))"
proof (cases "mode = AllocNone")
  case False
  assume inv: "disk_inv sha1 (s, d)"
  let ?d = "snd (preallocate_files io s mode d)"
  have wf: "wf_info (pm_info s)" using inv by (simp add: disk_inv_def pm_inv_def)
  have "verified sha1 s ?d i" if i: "i < pm_num_pieces s" "have_piece i s" for i
  proof -
    have v: "verified sha1 s d i" using inv i by (simp add: disk_inv_def)
    then obtain c where c: "piece_data s d i = Some c" by (auto simp: verified_def split: option.splits)
    obtain a e where r: "piece_range (pm_meta s) i = Some (a, e)"
      using piece_range_wf(1) [OF wf, of i] i(1) by (auto simp: pm_num)
    have "seg_read ?d (pm_info s) (pm_save_dir s) seg = seg_read d (pm_info s) (pm_save_dir s) seg"
      if seg: "seg \<in> set (files_for_piece (pm_meta s) i)" for seg
    proof -
      obtain idx off len where sg: "seg = (idx, off, len)" by (cases seg)
      obtain x where x: "seg_read d (pm_info s) (pm_save_dir s) (idx, off, len) = Some x"
        using segs_read_Some [OF c [unfolded piece_data_def] seg] sg by auto
      note m = files_for_piece_mem [OF wf r seg [unfolded sg]]
      have "off + len \<le> fi_length (in_files (pm_info s) ! idx)" using m(3) by simp
      then have "seg_read (snd (preallocate_loop io (pm_info s) (pm_save_dir s) mode
          [0..<length (in_files (pm_info s))] d)) (pm_info s) (pm_save_dir s) (idx, off, len) = Some x"
        using inv x m(1) by (intro preallocate_keeps [OF wf]) (auto simp: disk_inv_def list_all_iff)
      then show ?thesis using x sg False by (simp add: preallocate_files_def)
    qed
    then have "piece_data s ?d i = Some c" using c segs_read_cong unfolding piece_data_def by metis
    then show ?thesis using v c by (simp add: verified_def)
  qed
  then show ?thesis using inv by (simp add: disk_inv_def)
qed (simp add: preallocate_files_def)

interpretation store: guarded_system "disk_step sha1" "disk_guard sha1" "disk_inv sha1" for sha1
proof
  fix sd e
  assume inv: "disk_inv sha1 sd" and g: "disk_guard sha1 sd e"
  obtain s d where sd: "sd = (s, d)" by (cases sd)
  show "disk_inv sha1 (disk_step sha1 sd e)"
  proof (cases e)
    case (DManager x)
    have "verified sha1 (pm_step s x) d i = verified sha1 s d i" for i by (rule verified_frame) simp_all
    then show ?thesis
      using inv sd DManager pm_inv_step frame_num [of "pm_step s x" s]
      by (simp add: disk_inv_def have_piece_def)
  next
    case (DSave io i)
    then show ?thesis using disk_inv_save inv g sd by simp
  next
    case (DWebseed io i data)
    then show ?thesis using disk_inv_webseed inv g sd by simp
  next
    case (DCheck io)
    then show ?thesis using disk_inv_check inv sd by simp
  next
    case (DAlloc io mode)
    then show ?thesis using disk_inv_alloc inv sd by simp
  qed
qed

section \<open>Re-verification\<close>

definition plen :: "metainfo \<Rightarrow> nat \<Rightarrow> nat" where
  "plen m i = (case piece_length m i of Some l \<Rightarrow> l | None \<Rightarrow> 0)"

lemma sum_plen: "wf_info (mi_info m) \<Longrightarrow> sum_list (map (plen m) [0..<num_pieces (mi_info m)]) = in_total_size (mi_info m)"
proof -
  assume wf: "wf_info (mi_info m)"
  let ?c = "replicate (in_total_size (mi_info m)) (0 :: nat)" and ?n = "num_pieces (mi_info m)"
  have "length (piece_slice m ?c i) = plen m i" if i: "i < ?n" for i
  proof -
    obtain s e where r: "piece_range m i = Some (s, e)"
      by (rule piece_Some_range [OF wf i])
    then show ?thesis using piece_length_wf(1) [OF wf r] piece_length_wf(4) [OF wf r] by (simp add: piece_slice_def plen_def)
  qed
  then have "map (plen m) [0..<?n] = map length (map (piece_slice m ?c) [0..<?n])" by simp
  then have "sum_list (map (plen m) [0..<?n]) = length (concat (map (piece_slice m ?c) [0..<?n]))"
    by (simp only: length_concat)
  then show ?thesis using concat_piece_slices [OF wf, of ?c] by simp
qed

lemma sum_filter_plen:
  assumes "wf_info (mi_info m)" and "k \<le> num_pieces (mi_info m)"
  shows "sum_list (map (plen m) (filter P [0..<k])) \<le> in_total_size (mi_info m)"
proof -
  have "sum_list (map (plen m) (filter P [0..<k])) \<le> sum_list (map (plen m) [0..<k])"
    by (rule sum_list_filter_le_nat)
  also have "[0..<num_pieces (mi_info m)] = [0..<k] @ [k..<num_pieces (mi_info m)]"
    using assms(2) upt_add_eq_append [of 0 k "num_pieces (mi_info m) - k"] by simp
  then have "sum_list (map (plen m) [0..<k]) \<le> in_total_size (mi_info m)"
    using sum_plen [OF assms(1)] by simp
  finally show ?thesis .
qed

lemma verify_existing_loop_ok:
  assumes "pm_inv s" and "n = pm_num_pieces s" and "k \<le> n" and "V = verified sha1 s d"
    and "pm_have s' = map V [0..<k] @ drop k (pm_have s)"
    and "s' = s\<lparr>pm_have := pm_have s'\<rparr>"
    and "b = sum_list (map (plen (pm_meta s)) (filter V [0..<k]))"
  shows "verify_existing_loop sha1 (\<lambda>_. IoOk) d [k..<n] c b s'
    = (Inr (c + length (filter V [k..<n]), sum_list (map (plen (pm_meta s)) (filter V [0..<n]))),
       s\<lparr>pm_have := map V [0..<n]\<rparr>)"
  using assms(3,5-7)
proof (induction "n - k" arbitrary: k s' b c)
  case 0
  have "length (pm_have s) = n" using assms(1,2) by (simp add: pm_inv_def)
  then show ?case using 0 by auto
next
  case (Suc x)
  then have lt: "k < n" by simp
  let ?m = "pm_meta s"
  have len: "length (pm_have s) = n" using assms(1,2) by (simp add: pm_inv_def)
  have wf: "wf_info (mi_info ?m)" by (rule pm_wf [OF assms(1)])
  have meta: "pm_meta s' = ?m" "pm_save_dir s' = pm_save_dir s"
    by (subst Suc.prems(3), simp)+
  have inv': "pm_inv s'"
    using assms(1) len lt Suc.prems(2) by (subst Suc.prems(3)) (auto simp: pm_inv_def pm_num_pieces_def
      assms(2) split: option.splits)
  have nn: "pm_num_pieces s' = n" using meta(1) assms(2) by (simp add: pm_num_pieces_def)
  have v: "verify_piece_on_disk sha1 (\<lambda>_. IoOk) s' d k = Inr (V k)"
    using verify_piece_on_disk_eq [OF inv', of k "\<lambda>_. IoOk" sha1 d] verified_frame [OF meta] lt nn assms(4)
    by (simp add: list_all_iff split_beta)
  let ?b = "if V k then u64 (b + plen ?m k) else b"
  let ?s = "s'\<lparr>pm_have := (pm_have s')[k := V k]\<rparr>"
  have "sum_list (map (plen ?m) (filter V [0..<Suc k])) \<le> in_total_size (mi_info ?m)"
    using lt by (intro sum_filter_plen [OF wf]) (simp add: assms(2) pm_num)
  then have b: "?b = sum_list (map (plen ?m) (filter V [0..<Suc k]))"
    using Suc.prems(4) wf_info_small(2) [OF wf] by auto
  have h: "pm_have ?s = map V [0..<Suc k] @ drop (Suc k) (pm_have s)"
    using len lt Suc.prems(2) by (simp add: list_update_append Cons_nth_drop_Suc [symmetric])
  have e: "?s = s\<lparr>pm_have := pm_have ?s\<rparr>" by (subst (1) Suc.prems(3)) simp
  have "verify_existing_loop sha1 (\<lambda>_. IoOk) d [k..<n] c b s'
    = verify_existing_loop sha1 (\<lambda>_. IoOk) d [Suc k..<n] (if V k then c + 1 else c) ?b ?s"
    using lt v meta(1) by (simp add: upt_conv_Cons Let_def plen_def)
  also have "\<dots> = (Inr ((if V k then c + 1 else c) + length (filter V [Suc k..<n]),
      sum_list (map (plen ?m) (filter V [0..<n]))), s\<lparr>pm_have := map V [0..<n]\<rparr>)"
    by (rule Suc.hyps(1) [OF _ _ h e b]) (use Suc.hyps(2) lt in auto)
  finally show ?case using lt by (simp add: upt_conv_Cons)
qed

text \<open>Re-verification is exact, from any disk and any earlier bitfield: when the files can be
  read, \<open>verify_existing\<close> marks exactly the pieces whose bytes on disk have their hash
  (clearing the others), returns how many they are, and sets the counters to their number and
  total length.\<close>

theorem verify_existing_exact:
  assumes "pm_inv s" and "good = filter (verified sha1 s d) [0..<pm_num_pieces s]"
  shows "verify_existing sha1 (\<lambda>_. IoOk) d s
    = (Inr (length good),
       s\<lparr>pm_have := map (verified sha1 s d) [0..<pm_num_pieces s],
         pm_verified_count := length good,
         pm_verified_bytes := sum_list (map (plen (pm_meta s)) good)\<rparr>)"
proof -
  have "verify_existing_loop sha1 (\<lambda>_. IoOk) d [0..<pm_num_pieces s] 0 0 s
    = (Inr (0 + length (filter (verified sha1 s d) [0..<pm_num_pieces s]),
        sum_list (map (plen (pm_meta s)) (filter (verified sha1 s d) [0..<pm_num_pieces s]))),
       s\<lparr>pm_have := map (verified sha1 s d) [0..<pm_num_pieces s]\<rparr>)"
    by (rule verify_existing_loop_ok [OF assms(1) refl]) simp_all
  then show ?thesis by (simp add: verify_existing_def assms(2))
qed

lemma verify_existing_exact_witness:
  "fst (verify_existing (\<lambda>_. []) (\<lambda>_. IoOk) Map.empty (pm_new two_file_meta ''s''))
    = Inr (length (filter (verified (\<lambda>_. []) (pm_new two_file_meta ''s'') Map.empty)
        [0..<pm_num_pieces (pm_new two_file_meta ''s'')]))"
  by (simp only: verify_existing_exact [OF two_file_inv refl] fst_conv)

section \<open>Uploads\<close>

lemma read_block_loop_ok:
  assumes "wf_info info" and "in_range info segs" and "segs_read d info dir segs = Some data"
    and "bs \<le> be" and "be \<le> pos + length data"
  shows "read_block_loop (\<lambda>_. IoOk) info dir segs pos bs be d block
    = Inr (block @ slice (bs - pos) (be - pos) data)"
  using assms(2,3,5)
proof (induction segs arbitrary: pos data block)
  case Nil
  then show ?case by simp
next
  case (Cons seg segs)
  obtain idx off len where seg: "seg = (idx, off, len)" by (cases seg)
  obtain c r where c: "seg_read d info dir (idx, off, len) = Some c"
    and r: "segs_read d info dir segs = Some r" and data: "data = c @ r"
    using Cons.prems(2) seg by (auto split: option.splits)
  have lc: "length c = len" by (rule seg_read_length [OF c])
  have split: "slice (bs - pos) (be - pos) data
    = slice (bs - pos) (be - pos) c @ slice (bs - (pos + len)) (be - (pos + len)) r"
    by (simp add: data slice_append lc)
  have IH: "read_block_loop (\<lambda>_. IoOk) info dir segs (pos + len) bs be d block'
    = Inr (block' @ slice (bs - (pos + len)) (be - (pos + len)) r)" for block'
    using Cons.IH [of r "pos + len" block'] Cons.prems r seg data lc by simp
  show ?case
  proof (cases "min (pos + len) be \<le> max pos bs")
    case True
    then have "slice (bs - pos) (be - pos) c = []"
      using lc assms(4) by (auto simp: slice_def)
    then show ?thesis using IH True split seg by (simp add: Let_def)
  next
    case False
    then have pos: "0 < len" by auto
    with c obtain b where b: "d (raw_path info dir idx) = Some b" "off + len \<le> length b"
      "c = slice off (off + len) b"
      by (auto simp: seg_read_def split: option.splits if_splits)
    let ?rs = "max pos bs" and ?re = "min (pos + len) be"
    have a: "off + (?rs - pos) + (?re - ?rs) = off + (?re - pos)" "?re - pos = min (be - pos) len"
      using False by auto
    have "slice (off + (?rs - pos)) (off + (?rs - pos) + (?re - ?rs)) b = slice (?rs - pos) (?re - pos) c"
      unfolding a(1) b(3) by (rule slice_slice [symmetric]) (use a(2) in simp)
    also have "\<dots> = slice (bs - pos) (be - pos) c"
    proof -
      have "?rs - pos = bs - pos" by simp
      then show ?thesis unfolding a(2) using slice_cong_min [OF lc] by metis
    qed
    finally have piece: "slice (off + (?rs - pos)) (off + (?rs - pos) + (?re - ?rs)) b
      = slice (bs - pos) (be - pos) c" .
    have fits: "off + (?rs - pos) + (?re - ?rs) \<le> length b"
      unfolding a(1) using a(2) b(2) by simp
    have fp: "file_path info dir idx = Inr (raw_path info dir idx)"
      using Cons.prems(1) seg by (intro file_path_wf [OF assms(1)]) simp
    show ?thesis
    proof (cases "be \<le> pos + len")
      case True
      then have "slice (bs - (pos + len)) (be - (pos + len)) r = []" by simp
      then show ?thesis
        using False fp b(1) fits piece split True seg
        by (auto simp: Let_def not_le not_less le_max_iff_disj)
    next
      case nb: False
      then show ?thesis
        using False fp b(1) fits piece split IH seg
        by (auto simp: Let_def not_le not_less le_max_iff_disj)
    qed
  qed
qed

lemma read_block_verified:
  assumes "pm_inv s" and "i < pm_num_pieces s" and "have_piece i s" and "piece_data s d i = Some data"
  shows "piece_length (pm_meta s) i = Some (length data)
    \<and> read_block (\<lambda>_. IoOk) s d i offset n =
      (if length data < offset + n
       then Inl (err_protocol PeerProtocol ''Block request out of bounds: offset='')
       else if block_size + 1024 < n
       then Inl (err_protocol PeerProtocol ''Block request too large: '')
       else Inr (slice offset (offset + n) data))"
proof -
  note wf = pm_wf [OF assms(1)]
  have k: "i < num_pieces (pm_info s)" using assms(2) by (simp add: pm_num)
  obtain len where len: "piece_length (pm_meta s) i = Some len"
    using piece_range_wf(1) [OF wf k] by (auto simp: piece_length_def)
  have "length data = len"
    using segs_read_length [OF assms(4) [unfolded piece_data_def]] piece_segs_total [OF wf len] by simp
  then show ?thesis
    using len assms(3)
      read_block_loop_ok [OF wf piece_segs_in_range [OF wf k] assms(4) [unfolded piece_data_def],
        of offset "offset + n" 0 "[]"]
    by (simp add: read_block_def)
qed

section \<open>Properties\<close>

lemma store_reachable:
  assumes "wf_info (mi_info m)" and "distinct_paths (mi_info m) dir"
    and "ops_ok (disk_step sha1) (disk_guard sha1) (pm_new m dir, d0) es"
  shows "disk_inv sha1 (run_ops (disk_step sha1) (pm_new m dir, d0) es)"
proof (rule store.inv_run [OF _ assms(3)])
  have "\<not> have_piece i (pm_new m dir)" for i
    by (simp add: have_piece_def bit_at_def pm_new_def Let_def)
  then show "disk_inv sha1 (pm_new m dir, d0)"
    using assms(1,2) pm_inv_new [OF assms(1)] by (simp add: disk_inv_def) (simp add: pm_new_def Let_def)
qed


lemma two_file_distinct: "distinct_paths (mi_info two_file_meta) ''s''"
  by (simp add: distinct_paths_def two_file_meta_def two_file_info_def raw_path_def path_push_def
      is_absolute_def upt_rec)


lemma cancel_stale_keeps:
  assumes "distinct (map fst (pm_pending s))" and "map_of (pm_pending s) i = Some p"
    and "\<not> is_stale now timeout p"
  shows "map_of (pm_pending (fst (cancel_stale_pieces now timeout s))) i = Some p"
proof -
  have fold: "i \<notin> set is \<Longrightarrow> map_of (pm_pending (foldl (\<lambda>s i. cancel_piece i s) s is)) i = map_of (pm_pending s) i"
    for "is" s
    by (induction "is" arbitrary: s) (auto simp: cancel_piece_def delete_conv')
  have "i \<notin> fst ` set (filter (\<lambda>(_, p). is_stale now timeout p) (pm_pending s))"
  proof
    assume "i \<in> fst ` set (filter (\<lambda>(_, p). is_stale now timeout p) (pm_pending s))"
    then obtain b where "(i, b) \<in> set (pm_pending s)" and b: "is_stale now timeout b" by auto
    then have "map_of (pm_pending s) i = Some b" using assms(1) by (intro map_of_is_SomeI)
    with assms(2,3) b show False by simp
  qed
  then show ?thesis using fold assms(2) by (simp add: cancel_stale_pieces_def)
qed

text \<open>A complete piece whose write fails is stranded: after the I/O error it is still pending
  and complete, and nothing the manager offers asks for it again. It is not held, no peer's
  bitfield makes \<open>select_piece\<close> choose it, it has no block requests in normal or endgame mode,
  and \<open>cancel_stale_pieces\<close> keeps it whatever the time and the timeout.\<close>

theorem write_error_strands_piece:
  assumes "pm_inv s" and "\<not> have_piece i s"
    and "map_of (pm_pending s) i = Some p" and "pp_data p = Some data"
    and "verify_and_save sha1 io i s d = (Inl e, s', d')"
  shows "s' = s \<and> \<not> have_piece i s' \<and> select_piece peer_has s' \<noteq> Some i
    \<and> get_block_requests i s' = [] \<and> list_all (\<lambda>r. br_piece r \<noteq> i) (endgame_requests s')
    \<and> map_of (pm_pending (fst (cancel_stale_pieces now timeout s'))) i = Some p"
proof -
  have wfp: "wf_pending p" "pp_index p = i" using pm_inv_pending [OF assms(1,3)] by simp_all
  have comp: "pp_is_complete p" using pp_data_length(2) [OF wfp(1) assms(4)] .
  have s': "s' = s"
    using assms(3-5) by (auto simp: verify_and_save_def vs_begin_def split: option.splits if_splits prod.splits sum.splits)
  have all: "pp_blocks p ! k \<noteq> None" if "k < length (pp_blocks p)" for k
    using comp complete_iff [OF wfp(1)] that by blast
  have "select_piece peer_has s \<noteq> Some i"
    using select_piece_first_min [of peer_has s i] assms(3) by (auto simp: eligible_def)
  moreover have "get_block_requests i s = []"
    using assms(3) all by (auto simp: get_block_requests_def unrequested_blocks_def filter_empty_conv)
  moreover have "list_all (\<lambda>r. br_piece r \<noteq> i) (endgame_requests s)"
  proof -
    have "br_piece r \<noteq> i" if "(j, q) \<in> set (pm_pending s)" "r \<in> set (missing_requests q)" for j q r
    proof
      assume "br_piece r = i"
      then have "pp_index q = i" using missing_requests_piece [OF that(2)] by simp
      then have "j = i" using that(1) assms(1) by (auto simp: pm_inv_def list_all_iff)
      then have "q = p" using that(1) assms(1,3) by (auto simp: pm_inv_def)
      then show False using that(2) missing_requests_Nil [OF wfp(1)] comp by simp
    qed
    then show ?thesis by (auto simp: endgame_requests_def list_all_iff)
  qed
  moreover have "map_of (pm_pending (fst (cancel_stale_pieces now timeout s))) i = Some p"
    using assms(1,3) comp by (intro cancel_stale_keeps) (simp_all add: pm_inv_def is_stale_def)
  ultimately show ?thesis using s' assms(2) by simp
qed

text \<open>A piece that a webseed delivers while peers still download it is counted twice: the
  webseed's write leaves it pending, so its completion counts it again. The counters grow by
  two pieces and twice the bytes, the bitfield by one piece.\<close>

theorem webseed_piece_counted_twice:
  assumes "pm_inv s" and "\<not> have_piece i s"
    and "map_of (pm_pending s) i = Some p" and "pp_data p = Some data"
    and "piece_hash (pm_meta s) i = Some (sha1 data)"
    and "pm_verified_count s + 2 < 2 ^ 64" and "pm_verified_bytes s + 2 * length data < 2 ^ 64"
    and "(r1, s1, d1) = write_piece_from_webseed (\<lambda>_. IoOk) i data s d"
    and "(r2, s2, d2) = verify_and_save sha1 (\<lambda>_. IoOk) i s1 d1"
  shows "r1 = Inr () \<and> r2 = Inr True
    \<and> pm_verified_count s2 = pm_verified_count s + 2
    \<and> pm_verified_bytes s2 = pm_verified_bytes s + 2 * length data
    \<and> count_ones (pm_have s2) = count_ones (pm_have s) + 1"
proof -
  note pi = pm_inv_pending [OF assms(1,3)]
  have len: "piece_length (pm_meta s) i = Some (length data)"
    using pi pp_data_length(1) [of p data] assms(4) by simp
  have i: "i < length (pm_have s)"
    using piece_length_Some(1) [OF pm_wf [OF assms(1)] len] assms(1) by (simp add: pm_inv_def pm_num)
  have w: "fst (write_piece (\<lambda>_. IoOk) s i data d) = Inr ()"
    by (rule write_piece_ok [OF assms(1) len]) simp
  then have 1: "r1 = Inr ()" "s1 = ws_commit i (length data) s"
    using assms(2,8) by (auto simp: write_piece_from_webseed_def ws_begin_def split: prod.splits sum.splits)
  have "pm_inv s1" unfolding 1 by (rule pm_inv_commit(2) [OF assms(1)])
  then have w2: "fst (write_piece (\<lambda>_. IoOk) s1 i data d1) = Inr ()"
    using len 1 by (intro write_piece_ok) simp_all
  have pend: "pm_pending s1 = pm_pending s" by (simp add: 1 ws_commit_def)
  have "vs_begin sha1 i s1 = (s1, VsWrite data)"
    using assms(3-5) pend 1(2) by (simp add: vs_begin_def)
  then have 2: "r2 = Inr True" "s2 = vs_commit i (length data) s1"
    using assms(9) w2 by (auto simp: verify_and_save_def split: prod.splits sum.splits)
  have "pm_have s2 = (pm_have s)[i := True]" by (simp add: 1 2)
  then have "count_ones (pm_have s2) = count_ones (pm_have s) + 1"
    using length_filter_update [of i "pm_have s" "\<lambda>b. b" True] i assms(2)
    by (simp add: count_ones_def have_piece_def bit_at_def)
  then show ?thesis
    using 1 2 assms(3,6,7) pend by (simp add: vs_commit_def ws_commit_def Let_def)
qed

definition half_done :: piece_manager where
  "half_done = run_ops pm_step (pm_new two_file_meta ''s'') [OpStart 0 0, OpBlock 0 0 0 [1, 2]]"

lemma half_done:
  shows "pm_inv half_done" and "\<not> have_piece 0 half_done"
    and "\<exists>p. map_of (pm_pending half_done) 0 = Some p \<and> pp_data p = Some [1, 2]"
    and "piece_hash (pm_meta half_done) 0 = Some (replicate 20 0)"
    and "pm_verified_count half_done = 0" and "pm_verified_bytes half_done = 0"
    and "pm_meta half_done = two_file_meta"
proof -
  have m: "wf_info (mi_info two_file_meta)" by (simp add: two_file_meta_def two_file_wf)
  show "pm_inv half_done" unfolding half_done_def by (rule reachable_inv [OF m])
  have pl: "piece_length two_file_meta 0 = Some 2"
    by (simp add: piece_length_def piece_range_def two_file_meta_def two_file_info_def)
  let ?p = "fst (pp_add_block (new_pending 0 2 0) 0 [1, 2] 0)"
  have "map_of (pm_pending half_done) 0 = Some ?p"
    by (simp add: half_done_def pm_new_def start_piece_def pl pm_add_block_def Let_def split_beta)
  moreover have "pp_data ?p = Some [1, 2]"
    by (simp add: pp_add_block_def new_pending_def div_ceil_def block_size_def expected_size_def
        pp_data_def pp_is_complete_def flip: numeral_2_eq_2)
  ultimately show "\<exists>p. map_of (pm_pending half_done) 0 = Some p \<and> pp_data p = Some [1, 2]"
    by blast
  show "\<not> have_piece 0 half_done" "pm_verified_count half_done = 0" "pm_verified_bytes half_done = 0"
    "pm_meta half_done = two_file_meta" "piece_hash (pm_meta half_done) 0 = Some (replicate 20 0)"
    by (simp_all add: half_done_def pm_new_def start_piece_def pl pm_add_block_def Let_def split_beta
        have_piece_def bit_at_def piece_hash_def lget_def)
      (simp_all add: two_file_meta_def two_file_info_def)
qed

lemma write_error_strands_piece_witness:
  "\<exists>e s' d'. verify_and_save (\<lambda>_. replicate 20 0) (\<lambda>_. IoFail IoOther) 0 half_done Map.empty = (Inl e, s', d')
     \<and> get_block_requests 0 s' = []"
proof -
  obtain p where p: "map_of (pm_pending half_done) 0 = Some p" "pp_data p = Some [1, 2]"
    using half_done(3) by blast
  have wf: "wf_info (pm_info half_done)" by (rule pm_wf [OF half_done(1)])
  obtain idx off len segs where "files_for_piece (pm_meta half_done) 0 = (idx, off, len) # segs"
    "idx < length (in_files (pm_info half_done))"
  proof -
    have "files_for_piece (pm_meta half_done) 0 = [(0, 0, 2)]"
      by (simp add: half_done(7) files_for_piece_def piece_range_def two_file_meta_def two_file_info_def)
    moreover have "0 < length (in_files (pm_info half_done))"
      by (simp add: half_done(7) two_file_meta_def two_file_info_def)
    ultimately show thesis using that by blast
  qed
  then obtain e s' d' where v: "verify_and_save (\<lambda>_. replicate 20 0) (\<lambda>_. IoFail IoOther) 0 half_done Map.empty = (Inl e, s', d')"
    using p half_done(4) file_path_wf [OF wf]
    by (simp add: verify_and_save_def vs_begin_def write_piece_def)
  then show ?thesis
    using write_error_strands_piece [OF half_done(1,2) p v] by blast
qed

lemma webseed_piece_counted_twice_witness:
  "\<exists>r1 s1 d1 r2 s2 d2. (r1, s1, d1) = write_piece_from_webseed (\<lambda>_. IoOk) 0 [1, 2] half_done Map.empty
     \<and> (r2, s2, d2) = verify_and_save (\<lambda>_. replicate 20 0) (\<lambda>_. IoOk) 0 s1 d1
     \<and> pm_verified_bytes s2 = 4 \<and> count_ones (pm_have s2) = count_ones (pm_have half_done) + 1"
proof -
  obtain p where p: "map_of (pm_pending half_done) 0 = Some p" "pp_data p = Some [1, 2]"
    using half_done(3) by blast
  obtain r1 s1 d1 where 1: "(r1, s1, d1) = write_piece_from_webseed (\<lambda>_. IoOk) 0 [1, 2] half_done Map.empty"
    by (metis surj_pair)
  obtain r2 s2 d2 where 2: "(r2, s2, d2) = verify_and_save (\<lambda>_. replicate 20 0) (\<lambda>_. IoOk) 0 s1 d1"
    by (metis surj_pair)
  have "pm_verified_bytes s2 = 4 \<and> count_ones (pm_have s2) = count_ones (pm_have half_done) + 1"
    using webseed_piece_counted_twice [OF half_done(1,2) p half_done(4) _ _ 1 2] half_done(5,6)
    by simp
  with 1 2 show ?thesis by blast
qed

end
