(* ===== verification/Choking.thy ===== *)
theory Choking
  imports Errors Codec
begin

text \<open>
  The choking algorithm (\<open>src/torrent/choking.rs\<close>) and the round that applies it
  (\<open>run_choking_algorithm\<close> of \<open>src/torrent/mod.rs\<close>). Peers are keyed by an address type; the
  peer map is the list of its entries in the order in which the hash map iterates, which is
  arbitrary. Instants are integers in milliseconds and \<open>now\<close> is an argument;
  \<open>sort_by_key\<close> is stable, as \<open>sort_key\<close> is.
\<close>

section \<open>Configuration and state\<close>

record choking_config =
  cc_unchoke_slots :: nat
  cc_recalculate_interval :: nat
  cc_optimistic_interval :: nat

definition default_choking_config :: choking_config where
  "default_choking_config =
    \<lparr>cc_unchoke_slots = 4, cc_recalculate_interval = 10000, cc_optimistic_interval = 30000\<rparr>"

record peer_stats =
  ps_download_rate :: nat
  ps_upload_rate :: nat
  ps_peer_interested :: bool
  ps_am_interested :: bool
  ps_is_unchoked :: bool
  ps_is_seeder :: bool

datatype 'a choking_decision = Unchoke 'a | Choke 'a

record 'a choking_manager =
  cm_config :: choking_config
  cm_last_recalculate :: int
  cm_last_optimistic_rotate :: int
  cm_optimistic_peer :: "'a option"
  cm_rng_counter :: nat

text \<open>\<open>Instant::duration_since\<close> saturates at zero.\<close>

definition duration_since :: "int \<Rightarrow> int \<Rightarrow> nat" where
  "duration_since now t = nat (now - t)"

definition choking_new :: "int \<Rightarrow> choking_config \<Rightarrow> 'a choking_manager" where
  "choking_new now config =
    \<lparr>cm_config = config, cm_last_recalculate = now, cm_last_optimistic_rotate = now - 60000,
     cm_optimistic_peer = None, cm_rng_counter = 0\<rparr>"

definition should_recalculate :: "int \<Rightarrow> 'a choking_manager \<Rightarrow> bool" where
  "should_recalculate now m \<longleftrightarrow>
    cc_recalculate_interval (cm_config m) \<le> duration_since now (cm_last_recalculate m)"

section \<open>Recalculation\<close>

definition rotate_optimistic ::
  "('a \<times> peer_stats) list \<Rightarrow> 'a list \<Rightarrow> 'a choking_manager \<Rightarrow> 'a choking_manager"
where
  "rotate_optimistic interested_peers currently_unchoked m =
    (let candidates = filter (\<lambda>(addr, _). addr \<notin> set currently_unchoked) interested_peers in
     if candidates = [] then m\<lparr>cm_optimistic_peer := None\<rparr>
     else
       (let counter = u64 (cm_rng_counter m + 1);
            idx = counter mod length candidates
        in m\<lparr>cm_rng_counter := counter, cm_optimistic_peer := Some (fst (candidates ! idx))\<rparr>))"

definition rate_of :: "bool \<Rightarrow> peer_stats \<Rightarrow> nat" where
  "rate_of is_seeding stats = (if is_seeding then ps_upload_rate stats else ps_download_rate stats)"

definition ranked_interested :: "bool \<Rightarrow> ('a \<times> peer_stats) list \<Rightarrow> ('a \<times> peer_stats) list" where
  "ranked_interested is_seeding peers =
    sort_key (\<lambda>(_, stats). - int (rate_of is_seeding stats))
      (filter (\<lambda>(_, stats). ps_peer_interested stats) peers)"

definition build_decisions :: "('a \<times> peer_stats) list \<Rightarrow> 'a list \<Rightarrow> 'a choking_decision list" where
  "build_decisions peers to_unchoke =
    map Unchoke (filter (\<lambda>addr. case map_of peers addr of
        Some stats \<Rightarrow> \<not> ps_is_unchoked stats | None \<Rightarrow> False) to_unchoke)
    @ map (Choke \<circ> fst) (filter (\<lambda>(addr, stats). ps_is_unchoked stats \<and> addr \<notin> set to_unchoke) peers)"

definition recalculate ::
  "int \<Rightarrow> ('a \<times> peer_stats) list \<Rightarrow> bool \<Rightarrow> 'a choking_manager
    \<Rightarrow> 'a choking_manager \<times> 'a choking_decision list"
where
  "recalculate now peers is_seeding m =
    (if duration_since now (cm_last_recalculate m) < cc_recalculate_interval (cm_config m) then (m, [])
     else
       (let m = m\<lparr>cm_last_recalculate := now\<rparr>;
            interested_peers = ranked_interested is_seeding peers;
            to_unchoke = map fst (take (cc_unchoke_slots (cm_config m)) interested_peers);
            m = (if cc_optimistic_interval (cm_config m) \<le> duration_since now (cm_last_optimistic_rotate m)
                 then rotate_optimistic interested_peers to_unchoke (m\<lparr>cm_last_optimistic_rotate := now\<rparr>)
                 else m);
            to_unchoke =
              (case cm_optimistic_peer m of
                 Some opt_peer \<Rightarrow>
                   if map_of peers opt_peer \<noteq> None \<and> opt_peer \<notin> set to_unchoke
                   then to_unchoke @ [opt_peer] else to_unchoke
               | None \<Rightarrow> to_unchoke)
        in (m, build_decisions peers to_unchoke)))"

definition is_optimistic :: "'a choking_manager \<Rightarrow> 'a \<Rightarrow> bool" where
  "is_optimistic m addr \<longleftrightarrow> cm_optimistic_peer m = Some addr"

definition invalidate :: "int \<Rightarrow> 'a choking_manager \<Rightarrow> 'a choking_manager" where
  "invalidate now m =
    m\<lparr>cm_last_recalculate := now - int (cc_recalculate_interval (cm_config m))\<rparr>"

definition peer_disconnected :: "int \<Rightarrow> 'a \<Rightarrow> 'a choking_manager \<Rightarrow> 'a choking_manager" where
  "peer_disconnected now addr m =
    (if cm_optimistic_peer m = Some addr then
       m\<lparr>cm_optimistic_peer := None,
         cm_last_optimistic_rotate := now - int (cc_optimistic_interval (cm_config m))\<rparr>
     else m)"

section \<open>The round\<close>

text \<open>The decisions map that the peer tasks read.\<close>

fun apply_decision :: "('a \<rightharpoonup> bool) \<Rightarrow> 'a choking_decision \<Rightarrow> ('a \<rightharpoonup> bool)" where
  "apply_decision choking_map (Unchoke addr) = choking_map(addr \<mapsto> True)"
| "apply_decision choking_map (Choke addr) = choking_map(addr \<mapsto> False)"

definition run_choking_algorithm ::
  "int \<Rightarrow> ('a \<times> peer_stats) list \<Rightarrow> bool \<Rightarrow> 'a choking_manager \<times> ('a \<rightharpoonup> bool)
    \<Rightarrow> 'a choking_manager \<times> ('a \<rightharpoonup> bool)"
where
  "run_choking_algorithm now peer_stats is_seeding =
    (\<lambda>(m, choking_map).
      if peer_stats = [] then (m, choking_map)
      else
        (let (m, decisions) = recalculate now peer_stats is_seeding m in
         if decisions = [] then (m, choking_map)
         else (m, foldl apply_decision choking_map decisions)))"

text \<open>
  What a peer's task makes of its entry: an absent entry leaves the choke state as it is
  (\<open>send_unchoke\<close> and \<open>send_choke\<close> are only sent when the entry differs from the state).
\<close>

definition unchoked_after :: "('a \<times> peer_stats) list \<Rightarrow> ('a \<rightharpoonup> bool) \<Rightarrow> 'a set" where
  "unchoked_after peers choking_map =
    {a. \<exists>stats. map_of peers a = Some stats
        \<and> (case choking_map a of Some b \<Rightarrow> b | None \<Rightarrow> ps_is_unchoked stats)}"

text \<open>
  The map is not cleared between rounds: entries that a task has not applied yet, and that differ from
  the state of its peer. A round decides nothing for a peer that is choked and not selected, or
  unchoked and selected, so such an entry stays in force.
\<close>

definition stale_unchokes :: "('a \<times> peer_stats) list \<Rightarrow> ('a \<rightharpoonup> bool) \<Rightarrow> 'a set" where
  "stale_unchokes peers choking_map =
    {a. \<exists>s. map_of peers a = Some s \<and> \<not> ps_is_unchoked s \<and> choking_map a = Some True}"

definition stale_chokes :: "('a \<times> peer_stats) list \<Rightarrow> ('a \<rightharpoonup> bool) \<Rightarrow> 'a set" where
  "stale_chokes peers choking_map =
    {a. \<exists>s. map_of peers a = Some s \<and> ps_is_unchoked s \<and> choking_map a = Some False}"

section \<open>Correctness\<close>

lemma foldl_unchoke: "foldl apply_decision f (map Unchoke us) a = (if a \<in> set us then Some True else f a)"
  by (induction us arbitrary: f) auto

lemma foldl_choke: "foldl apply_decision f (map Choke cs) a = (if a \<in> set cs then Some False else f a)"
  by (induction cs arbitrary: f) auto

lemma unchoked_after_build:
  assumes d: "distinct (map fst peers)" and sub: "set to_unchoke \<subseteq> fst ` set peers"
  shows "unchoked_after peers (foldl apply_decision f (build_decisions peers to_unchoke))
    = (set to_unchoke - stale_chokes peers f) \<union> stale_unchokes peers f"
proof -
  define us where "us = filter (\<lambda>addr. case map_of peers addr of
      Some stats \<Rightarrow> \<not> ps_is_unchoked stats | None \<Rightarrow> False) to_unchoke"
  define cs where "cs = map fst (filter (\<lambda>(addr, stats). ps_is_unchoked stats \<and> addr \<notin> set to_unchoke) peers)"
  have b: "build_decisions peers to_unchoke = map Unchoke us @ map Choke cs"
    by (simp add: build_decisions_def us_def cs_def)
  have m: "map_of peers a = Some s \<longleftrightarrow> (a, s) \<in> set peers" for a s
    using map_of_eq_Some_iff [OF d] by metis
  have cs: "a \<in> set cs \<longleftrightarrow> (\<exists>s. map_of peers a = Some s \<and> ps_is_unchoked s \<and> a \<notin> set to_unchoke)" for a
    by (force simp: cs_def m)
  have us: "a \<in> set us \<longleftrightarrow> a \<in> set to_unchoke \<and> (\<exists>s. map_of peers a = Some s \<and> \<not> ps_is_unchoked s)" for a
    by (auto simp: us_def split: option.splits)
  have "a \<in> unchoked_after peers (foldl apply_decision f (build_decisions peers to_unchoke))
      \<longleftrightarrow> a \<in> (set to_unchoke - stale_chokes peers f) \<union> stale_unchokes peers f" for a
  proof (cases "map_of peers a")
    case None
    then have "a \<notin> fst ` set peers" by (simp add: map_of_eq_None_iff)
    then show ?thesis using None sub by (auto simp: unchoked_after_def stale_chokes_def stale_unchokes_def)
  next
    case (Some s)
    then show ?thesis
      by (auto simp: unchoked_after_def b foldl_unchoke foldl_choke cs us stale_chokes_def stale_unchokes_def
          split: option.splits)
  qed
  then show ?thesis by blast
qed

lemma ranked_split:
  "set (ranked_interested is_seeding peers) = {(a, s) \<in> set peers. ps_peer_interested s}"
  "(a, s) \<in> set (take n (ranked_interested is_seeding peers)) \<Longrightarrow>
    (b, t) \<in> set (drop n (ranked_interested is_seeding peers)) \<Longrightarrow>
    rate_of is_seeding t \<le> rate_of is_seeding s"
proof -
  show "set (ranked_interested is_seeding peers) = {(a, s) \<in> set peers. ps_peer_interested s}"
    by (auto simp: ranked_interested_def)
  let ?k = "\<lambda>(_, stats). - int (rate_of is_seeding stats)"
  have "sorted (map ?k (ranked_interested is_seeding peers))"
    unfolding ranked_interested_def by (rule sorted_sort_key)
  then have "sorted (map ?k (take n (ranked_interested is_seeding peers))
      @ map ?k (drop n (ranked_interested is_seeding peers)))"
    by (simp flip: map_append)
  then show "rate_of is_seeding t \<le> rate_of is_seeding s"
    if "(a, s) \<in> set (take n (ranked_interested is_seeding peers))"
      "(b, t) \<in> set (drop n (ranked_interested is_seeding peers))"
    using that by (force simp: sorted_append)
qed

definition regular_slots :: "nat \<Rightarrow> bool \<Rightarrow> ('a \<times> peer_stats) list \<Rightarrow> 'a set" where
  "regular_slots slots is_seeding peers = fst ` set (take slots (ranked_interested is_seeding peers))"


definition peer_at :: "nat \<Rightarrow> bool \<Rightarrow> bool \<Rightarrow> peer_stats" where
  "peer_at rate interested unchoked =
    \<lparr>ps_download_rate = rate, ps_upload_rate = 0, ps_peer_interested = interested,
     ps_am_interested = True, ps_is_unchoked = unchoked, ps_is_seeder = False\<rparr>"


text \<open>So a peer that has lost its slot before its task applied the unchoke is unchoked all the same.\<close>

lemma stale_decision_survives:
  assumes "choking_map addr = Some True" and "map_of peers addr = Some stats"
    and "\<not> ps_is_unchoked stats" and "distinct (map fst peers)"
    and "run_choking_algorithm now peers is_seeding (m, choking_map) = (m', choking_map')"
  shows "choking_map' addr = Some True"
proof -
  have "s = stats" if "(addr, s) \<in> set peers" for s
    using that assms(2,4) by (auto dest: map_of_is_SomeI)
  then have no_choke: "Choke addr \<notin> set (build_decisions peers tu)" for tu
    using assms(3) by (auto simp: build_decisions_def)
  have keep: "Choke addr \<notin> set ds \<Longrightarrow> f addr = Some True \<Longrightarrow> foldl apply_decision f ds addr = Some True" for f ds
  proof (induction ds arbitrary: f)
    case (Cons d ds)
    then show ?case by (cases d) auto
  qed simp
  show ?thesis
    using assms(1,5) no_choke keep
    by (auto simp: run_choking_algorithm_def recalculate_def Let_def split: if_splits prod.splits)
qed

end
