(* ===== verification/Status.thy ===== *)
theory Status
  imports Types
begin

text \<open>
  The status records of the public API (\<open>src/protocol/status.rs\<close>, \<open>torrent.rs\<close>,
  \<open>recursive.rs\<close> and the progress of \<open>types.rs\<close>): what the storage back ends persist and the
  engine reports. A timestamp is an integer; a floating-point field is kept as its 64-bit
  pattern, since it is only stored and compared.
\<close>

type_synonym timestamp = int
type_synonym float_bits = "64 word"

record download_progress =
  dp_total_size :: "nat option"
  dp_completed_size :: nat
  dp_download_speed :: nat
  dp_upload_speed :: nat
  dp_connections :: nat
  dp_seeders :: nat
  dp_peers :: nat
  dp_eta_seconds :: "nat option"

definition default_progress :: download_progress where
  "default_progress =
    \<lparr>dp_total_size = None, dp_completed_size = 0, dp_download_speed = 0, dp_upload_speed = 0,
     dp_connections = 0, dp_seeders = 0, dp_peers = 0, dp_eta_seconds = None\<rparr>"

record download_metadata =
  dm_name :: string
  dm_url :: "string option"
  dm_magnet_uri :: "string option"
  dm_info_hash :: "string option"
  dm_save_dir :: string
  dm_filename :: "string option"
  dm_user_agent :: "string option"
  dm_referer :: "string option"
  dm_headers :: "(string \<times> string) list"
  dm_cookies :: "string list"
  dm_checksum :: "expected_checksum option"
  dm_mirrors :: "string list"
  dm_etag :: "string option"
  dm_last_modified :: "string option"

record torrent_file =
  tf_index :: nat
  tf_path :: string
  tf_size :: nat
  tf_selected :: bool
  tf_completed :: nat

record torrent_status_info =
  ts_files :: "torrent_file list"
  ts_piece_length :: nat
  ts_pieces_count :: nat
  ts_private :: bool

record peer_info =
  pi_id :: "string option"
  pi_ip :: string
  pi_port :: "16 word"
  pi_client :: "string option"
  pi_download_speed :: nat
  pi_upload_speed :: nat
  pi_progress :: float_bits
  pi_am_choking :: bool
  pi_peer_choking :: bool

record download_status =
  ds_id :: download_id
  ds_kind :: download_kind
  ds_state :: download_state
  ds_priority :: download_priority
  ds_progress :: download_progress
  ds_metadata :: download_metadata
  ds_torrent_info :: "torrent_status_info option"
  ds_peers :: "peer_info list option"
  ds_created_at :: timestamp
  ds_completed_at :: "timestamp option"

definition gid :: "download_status \<Rightarrow> string" where
  "gid s = to_gid (ds_id s)"

record global_stats =
  gs_download_speed :: nat
  gs_upload_speed :: nat
  gs_num_active :: nat
  gs_num_waiting :: nat
  gs_num_stopped :: nat

record tracked_recursive_job =
  rj_id :: bytes
  rj_root_url :: string
  rj_child_ids :: "download_id list"
  rj_created_at :: timestamp

record recursive_job =
  job_root_url :: string
  job_child_ids :: "download_id list"

definition as_job :: "tracked_recursive_job \<Rightarrow> recursive_job" where
  "as_job j = \<lparr>job_root_url = rj_root_url j, job_child_ids = rj_child_ids j\<rparr>"

text \<open>A status with the given identity and state and nothing else known.\<close>

definition bare_status :: "download_id \<Rightarrow> download_state \<Rightarrow> download_status" where
  "bare_status i s =
    \<lparr>ds_id = i, ds_kind = KHttp, ds_state = s, ds_priority = Normal, ds_progress = default_progress,
     ds_metadata = \<lparr>dm_name = [], dm_url = None, dm_magnet_uri = None, dm_info_hash = None,
       dm_save_dir = [], dm_filename = None, dm_user_agent = None, dm_referer = None,
       dm_headers = [], dm_cookies = [], dm_checksum = None, dm_mirrors = [], dm_etag = None,
       dm_last_modified = None\<rparr>,
     ds_torrent_info = None, ds_peers = None, ds_created_at = 0, ds_completed_at = None\<rparr>"

end
