(* ===== verification/Storage.thy ===== *)
theory Storage
  imports Status Codec
begin

text \<open>
  The storage interface of \<open>src/storage/mod.rs\<close> and its in-memory implementation. The contract
  is an abstract store: a map from download identifiers to what is kept for each, and the
  recursive jobs. The locale \<open>storage_impl\<close> states that an implementation refines it, operation
  by operation, for the operations whose values the implementation can store; \<open>MemoryStorage\<close> is interpreted here, \<open>FileStorage\<close> in its own theory.
\<close>

section \<open>Segments\<close>

datatype segment_state = SPending | SDownloading | SCompleted | SFailed string nat

record segment =
  sg_index :: nat
  sg_start :: nat
  sg_end :: nat
  sg_downloaded :: nat
  sg_state :: segment_state

definition segment_new :: "nat \<Rightarrow> nat \<Rightarrow> nat \<Rightarrow> segment" where
  "segment_new index start range_end =
    \<lparr>sg_index = index, sg_start = start, sg_end = range_end, sg_downloaded = 0, sg_state = SPending\<rparr>"

definition segment_size :: "segment \<Rightarrow> nat" where
  "segment_size s = u64 (u64_sub (sg_end s) (sg_start s) + 1)"

definition segment_is_complete :: "segment \<Rightarrow> bool" where
  "segment_is_complete s \<longleftrightarrow> sg_state s = SCompleted"

definition segment_remaining :: "segment \<Rightarrow> nat" where
  "segment_remaining s = segment_size s - sg_downloaded s"

section \<open>The abstract store\<close>

record store_entry =
  se_status :: "download_status option"
  se_segments :: "segment list"
  se_torrent :: "bytes option"
  se_runtime :: "string option"

definition no_entry :: store_entry where
  "no_entry = \<lparr>se_status = None, se_segments = [], se_torrent = None, se_runtime = None\<rparr>"

type_synonym store = "(download_id \<Rightarrow> store_entry) \<times> (bytes \<rightharpoonup> tracked_recursive_job)"

datatype storage_op =
    SaveDownload download_status
  | DeleteDownload download_id
  | SaveSegments download_id "segment list"
  | DeleteSegments download_id
  | SaveTorrentData download_id bytes
  | SaveRuntimeMetadata download_id string
  | SaveRecursiveJob tracked_recursive_job
  | DeleteRecursiveJob bytes

fun store_step :: "store \<Rightarrow> storage_op \<Rightarrow> store" where
  "store_step (s, js) (SaveDownload st) = (s(ds_id st := (s (ds_id st))\<lparr>se_status := Some st\<rparr>), js)"
| "store_step (s, js) (DeleteDownload i) = (s(i := no_entry), js)"
| "store_step (s, js) (SaveSegments i segs) = (s(i := (s i)\<lparr>se_segments := segs\<rparr>), js)"
| "store_step (s, js) (DeleteSegments i) = (s(i := (s i)\<lparr>se_segments := []\<rparr>), js)"
| "store_step (s, js) (SaveTorrentData i bs) = (s(i := (s i)\<lparr>se_torrent := Some bs\<rparr>), js)"
| "store_step (s, js) (SaveRuntimeMetadata i r) = (s(i := (s i)\<lparr>se_runtime := Some r\<rparr>), js)"
| "store_step (s, js) (SaveRecursiveJob j) = (s, js(rj_id j \<mapsto> j))"
| "store_step (s, js) (DeleteRecursiveJob k) = (s, js(k := None))"

definition empty_store :: store where
  "empty_store = (\<lambda>_. no_entry, Map.empty)"

locale storage_impl =
  fixes step :: "'s \<Rightarrow> storage_op \<Rightarrow> 's"
    and inv :: "'s \<Rightarrow> bool"
    and abs :: "'s \<Rightarrow> store"
    and accepts :: "storage_op \<Rightarrow> bool"
  assumes inv_step: "inv s \<Longrightarrow> accepts e \<Longrightarrow> inv (step s e)"
    and refines: "inv s \<Longrightarrow> accepts e \<Longrightarrow> abs (step s e) = store_step (abs s) e"
begin

lemma run_refines:
  "inv s \<Longrightarrow> list_all accepts es \<Longrightarrow>
    inv (run_ops step s es) \<and> abs (run_ops step s es) = run_ops store_step (abs s) es"
  by (induction es arbitrary: s) (simp_all add: inv_step refines)

end

text \<open>A status is kept under its own identifier, and a job under its own.\<close>

definition keyed :: "store \<Rightarrow> bool" where
  "keyed s \<longleftrightarrow>
    (\<forall>i st. se_status (fst s i) = Some st \<longrightarrow> ds_id st = i) \<and> (\<forall>u j. snd s u = Some j \<longrightarrow> rj_id j = u)"

lemma keyed_empty [simp]: "keyed empty_store"
  by (simp add: keyed_def empty_store_def no_entry_def)

lemma keyed_step: "keyed s \<Longrightarrow> keyed (store_step s e)"
  by (cases s; cases e) (auto simp: keyed_def no_entry_def)

lemma keyed_run: "keyed s \<Longrightarrow> keyed (run_ops store_step s es)"
  by (induction es arbitrary: s) (simp_all add: keyed_step)

section \<open>MemoryStorage\<close>

record memory_storage =
  ms_downloads :: "download_id \<rightharpoonup> download_status"
  ms_segments :: "download_id \<rightharpoonup> segment list"
  ms_torrent_data :: "download_id \<rightharpoonup> bytes"
  ms_runtime_metadata :: "download_id \<rightharpoonup> string"
  ms_recursive_jobs :: "bytes \<rightharpoonup> tracked_recursive_job"

definition memory_new :: memory_storage where
  "memory_new =
    \<lparr>ms_downloads = Map.empty, ms_segments = Map.empty, ms_torrent_data = Map.empty,
     ms_runtime_metadata = Map.empty, ms_recursive_jobs = Map.empty\<rparr>"

definition memory_save_download :: "memory_storage \<Rightarrow> download_status \<Rightarrow> memory_storage" where
  "memory_save_download m st = m\<lparr>ms_downloads := (ms_downloads m)(ds_id st \<mapsto> st)\<rparr>"

definition memory_load_download :: "memory_storage \<Rightarrow> download_id \<Rightarrow> download_status option" where
  "memory_load_download m i = ms_downloads m i"

definition memory_load_all :: "memory_storage \<Rightarrow> download_status set" where
  "memory_load_all m = ran (ms_downloads m)"

definition memory_delete_download :: "memory_storage \<Rightarrow> download_id \<Rightarrow> memory_storage" where
  "memory_delete_download m i =
    m\<lparr>ms_downloads := (ms_downloads m)(i := None), ms_segments := (ms_segments m)(i := None),
      ms_torrent_data := (ms_torrent_data m)(i := None),
      ms_runtime_metadata := (ms_runtime_metadata m)(i := None)\<rparr>"

definition memory_save_segments :: "memory_storage \<Rightarrow> download_id \<Rightarrow> segment list \<Rightarrow> memory_storage" where
  "memory_save_segments m i segs = m\<lparr>ms_segments := (ms_segments m)(i \<mapsto> segs)\<rparr>"

definition memory_load_segments :: "memory_storage \<Rightarrow> download_id \<Rightarrow> segment list" where
  "memory_load_segments m i = (case ms_segments m i of Some s \<Rightarrow> s | None \<Rightarrow> [])"

definition memory_delete_segments :: "memory_storage \<Rightarrow> download_id \<Rightarrow> memory_storage" where
  "memory_delete_segments m i = m\<lparr>ms_segments := (ms_segments m)(i := None)\<rparr>"

definition memory_save_torrent_data :: "memory_storage \<Rightarrow> download_id \<Rightarrow> bytes \<Rightarrow> memory_storage" where
  "memory_save_torrent_data m i bs = m\<lparr>ms_torrent_data := (ms_torrent_data m)(i \<mapsto> bs)\<rparr>"

definition memory_load_torrent_data :: "memory_storage \<Rightarrow> download_id \<Rightarrow> bytes option" where
  "memory_load_torrent_data m i = ms_torrent_data m i"

definition memory_save_runtime_metadata :: "memory_storage \<Rightarrow> download_id \<Rightarrow> string \<Rightarrow> memory_storage" where
  "memory_save_runtime_metadata m i r = m\<lparr>ms_runtime_metadata := (ms_runtime_metadata m)(i \<mapsto> r)\<rparr>"

definition memory_load_runtime_metadata :: "memory_storage \<Rightarrow> download_id \<Rightarrow> string option" where
  "memory_load_runtime_metadata m i = ms_runtime_metadata m i"

definition memory_load_all_runtime_metadata :: "memory_storage \<Rightarrow> download_id \<rightharpoonup> string" where
  "memory_load_all_runtime_metadata m = ms_runtime_metadata m"

definition memory_save_recursive_job :: "memory_storage \<Rightarrow> tracked_recursive_job \<Rightarrow> memory_storage" where
  "memory_save_recursive_job m j = m\<lparr>ms_recursive_jobs := (ms_recursive_jobs m)(rj_id j \<mapsto> j)\<rparr>"

definition memory_load_recursive_jobs :: "memory_storage \<Rightarrow> tracked_recursive_job set" where
  "memory_load_recursive_jobs m = ran (ms_recursive_jobs m)"

definition memory_delete_recursive_job :: "memory_storage \<Rightarrow> bytes \<Rightarrow> memory_storage" where
  "memory_delete_recursive_job m k = m\<lparr>ms_recursive_jobs := (ms_recursive_jobs m)(k := None)\<rparr>"

fun memory_step :: "memory_storage \<Rightarrow> storage_op \<Rightarrow> memory_storage" where
  "memory_step m (SaveDownload st) = memory_save_download m st"
| "memory_step m (DeleteDownload i) = memory_delete_download m i"
| "memory_step m (SaveSegments i segs) = memory_save_segments m i segs"
| "memory_step m (DeleteSegments i) = memory_delete_segments m i"
| "memory_step m (SaveTorrentData i bs) = memory_save_torrent_data m i bs"
| "memory_step m (SaveRuntimeMetadata i r) = memory_save_runtime_metadata m i r"
| "memory_step m (SaveRecursiveJob j) = memory_save_recursive_job m j"
| "memory_step m (DeleteRecursiveJob k) = memory_delete_recursive_job m k"

definition memory_abs :: "memory_storage \<Rightarrow> store" where
  "memory_abs m =
    (\<lambda>i. \<lparr>se_status = memory_load_download m i, se_segments = memory_load_segments m i,
          se_torrent = memory_load_torrent_data m i, se_runtime = memory_load_runtime_metadata m i\<rparr>,
     ms_recursive_jobs m)"

lemmas memory_defs =
  memory_save_download_def memory_load_download_def memory_delete_download_def
  memory_save_segments_def memory_load_segments_def memory_delete_segments_def
  memory_save_torrent_data_def memory_load_torrent_data_def memory_save_runtime_metadata_def
  memory_load_runtime_metadata_def memory_save_recursive_job_def memory_delete_recursive_job_def

lemma memory_refines: "memory_abs (memory_step m e) = store_step (memory_abs m) e"
  by (cases e) (auto simp: memory_abs_def memory_defs no_entry_def fun_eq_iff)

interpretation memory: storage_impl memory_step "\<lambda>_. True" memory_abs "\<lambda>_. True"
  by unfold_locales (rule TrueI, rule memory_refines)

lemma memory_abs_new [simp]: "memory_abs memory_new = empty_store"
  by (simp add: memory_abs_def memory_new_def memory_defs empty_store_def no_entry_def)

lemma memory_load_all_abs: "memory_load_all m = {st. \<exists>i. se_status (fst (memory_abs m) i) = Some st}"
  by (auto simp: memory_load_all_def memory_abs_def memory_load_download_def ran_def)

lemma memory_load_collections_abs:
  "memory_load_all_runtime_metadata m = (\<lambda>i. se_runtime (fst (memory_abs m) i))"
  "memory_load_recursive_jobs m = ran (snd (memory_abs m))"
  by (simp_all add: memory_load_all_runtime_metadata_def memory_load_recursive_jobs_def memory_abs_def
      memory_load_runtime_metadata_def fun_eq_iff)

end
