(* ===== verification/FileStorage.thy ===== *)
theory FileStorage
  imports Storage "HOL-Library.AList"
begin

text \<open>
  The file back end (\<open>src/storage/file.rs\<close>): one JSON record and one torrent sidecar per
  download, all writes through a temporary file and a rename.

  The directory is the list of its files in the order in which it is read, names relative to
  the storage directory. \<open>fs_fault = Some (k, j)\<close> lets \<open>k\<close> further file operations succeed and
  the next one fail, leaving the first \<open>j\<close> bytes of a failed write; since an operation returns
  at its first error and the back end keeps nothing in memory, the state it leaves is also the
  state a crash at that point leaves. Third-party code is the record \<open>file_codec\<close>: the texts of
  UUIDs and serde's JSON, over a type \<open>'c\<close> of file contents, with its laws in \<open>codec_ok\<close>.
\<close>

section \<open>Files\<close>

record 'c filesystem =
  fs_files :: "(string \<times> 'c) list"
  fs_fault :: "(nat \<times> nat) option"

type_synonym ('c, 'a) io = "'c filesystem \<Rightarrow> 'c filesystem \<times> (io_error_kind + 'a)"
type_synonym ('c, 'a) task = "'c filesystem \<Rightarrow> 'c filesystem \<times> 'a result"

definition lookup :: "'c filesystem \<Rightarrow> string \<rightharpoonup> 'c" where
  "lookup fs = map_of (fs_files fs)"

definition io_step ::
  "((string \<times> 'c) list \<Rightarrow> (string \<times> 'c) list) \<Rightarrow> (nat \<Rightarrow> (string \<times> 'c) list \<Rightarrow> (string \<times> 'c) list)
    \<Rightarrow> ('c, unit) io"
where
  "io_step whole part fs =
    (case fs_fault fs of
       None \<Rightarrow> (fs\<lparr>fs_files := whole (fs_files fs)\<rparr>, Inr ())
     | Some (0, j) \<Rightarrow> (fs\<lparr>fs_files := part j (fs_files fs), fs_fault := None\<rparr>, Inl IoOther)
     | Some (Suc k, j) \<Rightarrow> (fs\<lparr>fs_files := whole (fs_files fs), fs_fault := Some (k, j)\<rparr>, Inr ()))"

definition io_bind ::
  "('c filesystem \<Rightarrow> 'c filesystem \<times> ('e + 'a)) \<Rightarrow> ('a \<Rightarrow> 'c filesystem \<Rightarrow> 'c filesystem \<times> ('e + 'b))
    \<Rightarrow> 'c filesystem \<Rightarrow> 'c filesystem \<times> ('e + 'b)"
where
  "io_bind m f fs = (case m fs of (fs, Inl e) \<Rightarrow> (fs, Inl e) | (fs, Inr x) \<Rightarrow> f x fs)"

text \<open>The conversion that \<open>?\<close> applies to an I/O error.\<close>

definition lift_io :: "('c, 'a) io \<Rightarrow> ('c, 'a) task" where
  "lift_io m fs = (case m fs of (fs, Inl k) \<Rightarrow> (fs, Inl (from_io_error k [])) | (fs, Inr x) \<Rightarrow> (fs, Inr x))"

definition fs_read :: "string \<Rightarrow> ('c, 'c) io" where
  "fs_read p = io_bind (io_step id (\<lambda>_. id)) (\<lambda>_ fs.
     (fs, case lookup fs p of Some x \<Rightarrow> Inr x | None \<Rightarrow> Inl IoNotFound))"

definition fs_remove :: "string \<Rightarrow> ('c, unit) io" where
  "fs_remove p fs =
    (if lookup fs p = None then io_bind (io_step id (\<lambda>_. id)) (\<lambda>_ fs. (fs, Inl IoNotFound)) fs
     else io_step (AList.delete p) (\<lambda>_. id) fs)"

definition fs_rename :: "string \<Rightarrow> string \<Rightarrow> ('c, unit) io" where
  "fs_rename p q fs =
    (case lookup fs p of
       None \<Rightarrow> io_bind (io_step id (\<lambda>_. id)) (\<lambda>_ fs. (fs, Inl IoNotFound)) fs
     | Some x \<Rightarrow> io_step (\<lambda>files. AList.update q x (AList.delete p files)) (\<lambda>_. id) fs)"

section \<open>Third-party codecs\<close>

record download_record =
  dr_status :: "download_status option"
  dr_segments :: "segment list"
  dr_runtime_metadata :: "string option"

definition default_record :: download_record where
  "default_record = \<lparr>dr_status = None, dr_segments = [], dr_runtime_metadata = None\<rparr>"

record 'c file_codec =
  fc_uuid_text :: "bytes \<Rightarrow> string"
  fc_uuid_parse :: "string \<Rightarrow> bytes option"
  fc_encode :: "download_record \<Rightarrow> 'c option"
  fc_decode :: "'c \<Rightarrow> download_record option"
  fc_encode_job :: "tracked_recursive_job \<Rightarrow> 'c option"
  fc_decode_job :: "'c \<Rightarrow> tracked_recursive_job option"
  fc_raw :: "bytes \<Rightarrow> 'c"
  fc_bytes :: "'c \<Rightarrow> bytes"
  fc_empty :: 'c
  fc_prefix :: "nat \<Rightarrow> 'c \<Rightarrow> 'c"

definition recursive_prefix :: string where
  "recursive_prefix = ''recursive-''"

text \<open>
  Serialising fails on some values: serde refuses a path that is not UTF-8. \<open>storable\<close> are the
  statuses that can be serialised.
\<close>

definition storable :: "'c file_codec \<Rightarrow> download_status \<Rightarrow> bool" where
  "storable c st \<longleftrightarrow> fc_encode c (default_record\<lparr>dr_status := Some st\<rparr>) \<noteq> None"

text \<open>
  A UUID's text parses back to it, is not empty and does not start like a job file; a record can
  be serialised when its status can, if it has one, since the rest is numbers and strings; what is
  serialised is read back.
\<close>

definition codec_ok :: "'c file_codec \<Rightarrow> bool" where
  "codec_ok c \<longleftrightarrow>
    (\<forall>u. fc_uuid_parse c (fc_uuid_text c u) = Some u \<and> fc_uuid_text c u \<noteq> []
      \<and> \<not> starts_with recursive_prefix (fc_uuid_text c u))
    \<and> (\<forall>r. fc_encode c r \<noteq> None \<longleftrightarrow> (\<forall>st. dr_status r = Some st \<longrightarrow> storable c st))
    \<and> (\<forall>r x. fc_encode c r = Some x \<longrightarrow> fc_decode c x = Some r)
    \<and> (\<forall>j x. fc_encode_job c j = Some x \<longrightarrow> fc_decode_job c x = Some j)
    \<and> (\<forall>b. fc_bytes c (fc_raw c b) = b)"

section \<open>Names\<close>

definition record_path :: "'c file_codec \<Rightarrow> download_id \<Rightarrow> string" where
  "record_path c i = fc_uuid_text c (uuid_bytes i) @ ''.json''"

definition torrent_path :: "'c file_codec \<Rightarrow> download_id \<Rightarrow> string" where
  "torrent_path c i = fc_uuid_text c (uuid_bytes i) @ ''.torrent''"

definition recursive_path :: "'c file_codec \<Rightarrow> bytes \<Rightarrow> string" where
  "recursive_path c u = recursive_prefix @ fc_uuid_text c u @ ''.json''"

section \<open>Reading and writing records\<close>

definition read_json :: "('c \<Rightarrow> 'a option) \<Rightarrow> string \<Rightarrow> ('c, 'a option) task" where
  "read_json dec path fs =
    (case fs_read path fs of
       (fs, Inr x) \<Rightarrow>
         (fs, case dec x of Some r \<Rightarrow> Inr (Some r) | None \<Rightarrow> Inl (EInternal ''JSON error: ''))
     | (fs, Inl k) \<Rightarrow> (fs, if k = IoNotFound then Inr None else Inl (from_io_error k [])))"

definition write_atomic :: "'c file_codec \<Rightarrow> string \<Rightarrow> 'c \<Rightarrow> ('c, unit) task" where
  "write_atomic c path x =
    (let tmp = path @ ''.tmp'' in
     io_bind (lift_io (io_step (AList.update tmp (fc_empty c)) (\<lambda>_. id))) (\<lambda>_.
     io_bind (lift_io (io_step (AList.update tmp x) (\<lambda>j. AList.update tmp (fc_prefix c j x)))) (\<lambda>_.
     io_bind (lift_io (io_step id (\<lambda>_. id))) (\<lambda>_.
     lift_io (fs_rename tmp path)))))"

text \<open>The serialised value, or \<open>None\<close> when serialising fails.\<close>

definition write_json :: "'c file_codec \<Rightarrow> string \<Rightarrow> 'c option \<Rightarrow> ('c, unit) task" where
  "write_json c path serialised fs =
    (case serialised of
       None \<Rightarrow> (fs, Inl (EInternal ''JSON error: ''))
     | Some x \<Rightarrow> write_atomic c path x fs)"

definition remove_if_exists :: "string \<Rightarrow> ('c, unit) task" where
  "remove_if_exists path fs =
    (case fs_remove path fs of
       (fs, Inr _) \<Rightarrow> (fs, Inr ())
     | (fs, Inl k) \<Rightarrow> (fs, if k = IoNotFound then Inr () else Inl (from_io_error k [])))"

definition update_record ::
  "'c file_codec \<Rightarrow> download_id \<Rightarrow> (download_record \<Rightarrow> download_record) \<Rightarrow> ('c, unit) task"
where
  "update_record c i update =
    io_bind (read_json (fc_decode c) (record_path c i)) (\<lambda>r.
      write_json c (record_path c i)
        (fc_encode c (update (case r of Some r \<Rightarrow> r | None \<Rightarrow> default_record))))"

definition record_ids :: "'c file_codec \<Rightarrow> ('c, download_id list) task" where
  "record_ids c fs =
    (case lift_io (io_step id (\<lambda>_. id)) fs of
       (fs, Inl e) \<Rightarrow> (fs, Inl e)
     | (fs, Inr _) \<Rightarrow>
         (fs, Inr (List.map_filter (\<lambda>(name, _).
            case split_extension name of (stem, ext) \<Rightarrow>
              if ext \<noteq> Some ''json'' then None
              else if starts_with recursive_prefix stem then None
              else map_option DownloadId (fc_uuid_parse c stem)) (fs_files fs))))"

section \<open>The operations\<close>

definition file_save_download :: "'c file_codec \<Rightarrow> download_status \<Rightarrow> ('c, unit) task" where
  "file_save_download c st = update_record c (ds_id st) (\<lambda>r. r\<lparr>dr_status := Some st\<rparr>)"

definition file_load_download :: "'c file_codec \<Rightarrow> download_id \<Rightarrow> ('c, download_status option) task" where
  "file_load_download c i = io_bind (read_json (fc_decode c) (record_path c i))
    (\<lambda>r fs. (fs, Inr (Option.bind r dr_status)))"

text \<open>A record that cannot be read is skipped.\<close>

fun load_each :: "'c file_codec \<Rightarrow> download_id list \<Rightarrow> 'c filesystem \<Rightarrow> 'c filesystem \<times> download_status list" where
  "load_each c [] fs = (fs, [])"
| "load_each c (i # is) fs =
    (case read_json (fc_decode c) (record_path c i) fs of
       (fs, r) \<Rightarrow>
         (case load_each c is fs of (fs, sts) \<Rightarrow>
            (fs, case r of
                   Inr (Some rec) \<Rightarrow> (case dr_status rec of Some st \<Rightarrow> st # sts | None \<Rightarrow> sts)
                 | _ \<Rightarrow> sts)))"

definition file_load_all :: "'c file_codec \<Rightarrow> ('c, download_status list) task" where
  "file_load_all c = io_bind (record_ids c)
    (\<lambda>is fs. case load_each c is fs of (fs, sts) \<Rightarrow> (fs, Inr sts))"

definition file_delete_download :: "'c file_codec \<Rightarrow> download_id \<Rightarrow> ('c, unit) task" where
  "file_delete_download c i = io_bind (remove_if_exists (record_path c i))
    (\<lambda>_. remove_if_exists (torrent_path c i))"

definition file_save_segments :: "'c file_codec \<Rightarrow> download_id \<Rightarrow> segment list \<Rightarrow> ('c, unit) task" where
  "file_save_segments c i segs = update_record c i (\<lambda>r. r\<lparr>dr_segments := segs\<rparr>)"

definition file_load_segments :: "'c file_codec \<Rightarrow> download_id \<Rightarrow> ('c, segment list) task" where
  "file_load_segments c i = io_bind (read_json (fc_decode c) (record_path c i))
    (\<lambda>r fs. (fs, Inr (case r of Some r \<Rightarrow> dr_segments r | None \<Rightarrow> [])))"

definition file_delete_segments :: "'c file_codec \<Rightarrow> download_id \<Rightarrow> ('c, unit) task" where
  "file_delete_segments c i = io_bind (read_json (fc_decode c) (record_path c i))
    (\<lambda>r fs. case r of
       Some r \<Rightarrow> write_json c (record_path c i) (fc_encode c (r\<lparr>dr_segments := []\<rparr>)) fs
     | None \<Rightarrow> (fs, Inr ()))"

definition file_save_torrent_data :: "'c file_codec \<Rightarrow> download_id \<Rightarrow> bytes \<Rightarrow> ('c, unit) task" where
  "file_save_torrent_data c i bs = write_atomic c (torrent_path c i) (fc_raw c bs)"

definition file_load_torrent_data :: "'c file_codec \<Rightarrow> download_id \<Rightarrow> ('c, bytes option) task" where
  "file_load_torrent_data c i fs =
    (case fs_read (torrent_path c i) fs of
       (fs, Inr x) \<Rightarrow> (fs, Inr (Some (fc_bytes c x)))
     | (fs, Inl k) \<Rightarrow> (fs, if k = IoNotFound then Inr None else Inl (from_io_error k [])))"

definition file_save_runtime_metadata :: "'c file_codec \<Rightarrow> download_id \<Rightarrow> string \<Rightarrow> ('c, unit) task" where
  "file_save_runtime_metadata c i r = update_record c i (\<lambda>rec. rec\<lparr>dr_runtime_metadata := Some r\<rparr>)"

definition file_load_runtime_metadata :: "'c file_codec \<Rightarrow> download_id \<Rightarrow> ('c, string option) task" where
  "file_load_runtime_metadata c i = io_bind (read_json (fc_decode c) (record_path c i))
    (\<lambda>r fs. (fs, Inr (Option.bind r dr_runtime_metadata)))"

fun load_metadata_each ::
  "'c file_codec \<Rightarrow> download_id list \<Rightarrow> (download_id \<rightharpoonup> string) \<Rightarrow> ('c, download_id \<rightharpoonup> string) task"
where
  "load_metadata_each c [] metadata fs = (fs, Inr metadata)"
| "load_metadata_each c (i # is) metadata fs =
    io_bind (file_load_runtime_metadata c i)
      (\<lambda>r. load_metadata_each c is (case r of Some json \<Rightarrow> metadata(i \<mapsto> json) | None \<Rightarrow> metadata)) fs"

definition file_load_all_runtime_metadata :: "'c file_codec \<Rightarrow> ('c, download_id \<rightharpoonup> string) task" where
  "file_load_all_runtime_metadata c = io_bind (record_ids c) (\<lambda>is. load_metadata_each c is Map.empty)"

definition file_save_recursive_job :: "'c file_codec \<Rightarrow> tracked_recursive_job \<Rightarrow> ('c, unit) task" where
  "file_save_recursive_job c j = write_json c (recursive_path c (rj_id j)) (fc_encode_job c j)"

definition is_job_file :: "string \<Rightarrow> bool" where
  "is_job_file name \<longleftrightarrow>
    (case split_extension name of (stem, ext) \<Rightarrow> ext = Some ''json'' \<and> starts_with recursive_prefix stem)"

text \<open>A job that cannot be read is skipped.\<close>

fun load_jobs_each :: "'c file_codec \<Rightarrow> string list \<Rightarrow> 'c filesystem \<Rightarrow> 'c filesystem \<times> tracked_recursive_job list" where
  "load_jobs_each c [] fs = (fs, [])"
| "load_jobs_each c (p # ps) fs =
    (case read_json (fc_decode_job c) p fs of
       (fs, r) \<Rightarrow>
         (case load_jobs_each c ps fs of (fs, js) \<Rightarrow> (fs, case r of Inr (Some j) \<Rightarrow> j # js | _ \<Rightarrow> js)))"

definition file_load_recursive_jobs :: "'c file_codec \<Rightarrow> ('c, tracked_recursive_job list) task" where
  "file_load_recursive_jobs c = io_bind (lift_io (io_step id (\<lambda>_. id))) (\<lambda>_ fs.
     case load_jobs_each c (filter is_job_file (map fst (fs_files fs))) fs of
       (fs, jobs) \<Rightarrow> (fs, Inr (sort_key (\<lambda>j. - rj_created_at j) jobs)))"

definition file_delete_recursive_job :: "'c file_codec \<Rightarrow> bytes \<Rightarrow> ('c, unit) task" where
  "file_delete_recursive_job c u = remove_if_exists (recursive_path c u)"

definition file_health_check :: "'c file_codec \<Rightarrow> ('c, unit) task" where
  "file_health_check c =
    (let probe = ''.health-check.tmp'' in
     io_bind (lift_io (io_step id (\<lambda>_. id))) (\<lambda>_.
     io_bind (lift_io (io_step (AList.update probe (fc_raw c [0x6F, 0x6B]))
       (\<lambda>j. AList.update probe (fc_prefix c j (fc_raw c [0x6F, 0x6B]))))) (\<lambda>_.
     remove_if_exists probe)))"

fun remove_each :: "string list \<Rightarrow> ('c, unit) task" where
  "remove_each [] fs = (fs, Inr ())"
| "remove_each (p # ps) fs = io_bind (remove_if_exists p) (\<lambda>_. remove_each ps) fs"

definition file_compact :: "('c, unit) task" where
  "file_compact = io_bind (lift_io (io_step id (\<lambda>_. id))) (\<lambda>_ fs.
     remove_each (filter (\<lambda>name. snd (split_extension name) = Some ''tmp'') (map fst (fs_files fs))) fs)"

fun file_run :: "'c file_codec \<Rightarrow> storage_op \<Rightarrow> ('c, unit) task" where
  "file_run c (SaveDownload st) = file_save_download c st"
| "file_run c (DeleteDownload i) = file_delete_download c i"
| "file_run c (SaveSegments i segs) = file_save_segments c i segs"
| "file_run c (DeleteSegments i) = file_delete_segments c i"
| "file_run c (SaveTorrentData i bs) = file_save_torrent_data c i bs"
| "file_run c (SaveRuntimeMetadata i r) = file_save_runtime_metadata c i r"
| "file_run c (SaveRecursiveJob j) = file_save_recursive_job c j"
| "file_run c (DeleteRecursiveJob k) = file_delete_recursive_job c k"

section \<open>Outcomes of the file operations\<close>

text \<open>Without a fault nothing fails and none appears.\<close>

definition clean :: "'c filesystem \<Rightarrow> 'c filesystem \<times> ('e + 'a) \<Rightarrow> bool" where
  "clean fs res \<longleftrightarrow> (fs_fault fs = None \<longrightarrow> fs_fault (fst res) = None \<and> (\<exists>x. snd res = Inr x))"

lemma io_step_cases:
  assumes "io_step whole part fs = (fs', r)"
  obtains (fine) "r = Inr ()" "fs_files fs' = whole (fs_files fs)" "clean fs (fs', r)"
    | (fault) j where "r = Inl IoOther" "fs_files fs' = part j (fs_files fs)" "fs_fault fs \<noteq> None"
  using assms by (auto simp: io_step_def clean_def split: option.splits prod.splits nat.splits)

lemma lookup_update [simp]:
  "lookup (fs\<lparr>fs_files := AList.update p x (fs_files fs)\<rparr>) = (lookup fs)(p \<mapsto> x)"
  by (simp add: lookup_def update_conv')

lemma lookup_delete [simp]:
  "lookup (fs\<lparr>fs_files := AList.delete p (fs_files fs)\<rparr>) = (lookup fs)(p := None)"
  by (simp add: lookup_def delete_conv')

lemma fs_read_cases:
  assumes "fs_read p fs = (fs', r)"
  obtains (fine) "r = (case lookup fs p of Some x \<Rightarrow> Inr x | None \<Rightarrow> Inl IoNotFound)"
      "lookup fs' = lookup fs" "fs_fault fs = None \<longrightarrow> fs_fault fs' = None"
    | (fault) "r = Inl IoOther" "lookup fs' = lookup fs" "fs_fault fs \<noteq> None"
proof (cases "io_step id (\<lambda>_. id) fs")
  case (Pair f s)
  from this show thesis
  proof (cases rule: io_step_cases)
    case fine
    then show thesis
      using assms Pair that(1) by (auto simp: fs_read_def io_bind_def lookup_def clean_def)
  next
    case (fault j)
    then show thesis
      using assms Pair that(2) by (auto simp: fs_read_def io_bind_def lookup_def)
  qed
qed

lemma read_json_cases:
  assumes "read_json dec p fs = (fs', r)"
  obtains (absent) "r = Inr None" "lookup fs p = None" "lookup fs' = lookup fs"
      "fs_fault fs = None \<longrightarrow> fs_fault fs' = None"
    | (found) x v where "r = Inr (Some v)" "lookup fs p = Some x" "dec x = Some v"
      "lookup fs' = lookup fs" "fs_fault fs = None \<longrightarrow> fs_fault fs' = None"
    | (bad) e where "r = Inl e" "lookup fs' = lookup fs"
      "fs_fault fs \<noteq> None \<or> (\<exists>x. lookup fs p = Some x \<and> dec x = None)"
proof (cases "fs_read p fs")
  case (Pair f s)
  from this show thesis
  proof (cases rule: fs_read_cases)
    case fine
    then show thesis
      using assms Pair that by (auto simp: read_json_def split: option.splits)
  next
    case fault
    then show thesis
      using assms Pair that(3) by (auto simp: read_json_def)
  qed
qed

lemma remove_if_exists_cases:
  assumes "remove_if_exists p fs = (fs', r)"
  obtains (fine) "r = Inr ()" "lookup fs' = (lookup fs)(p := None)" "clean fs (fs', r)"
    | (fault) e where "r = Inl e" "lookup fs' = lookup fs" "fs_fault fs \<noteq> None"
proof (cases "lookup fs p")
  case None
  then have upd: "(lookup fs)(p := None) = lookup fs" by (auto simp: fun_eq_iff)
  obtain f s where st: "io_step id (\<lambda>_. id) fs = (f, s)" by (cases "io_step id (\<lambda>_. id) fs")
  from this show thesis
  proof (cases rule: io_step_cases)
    case fine
    then show thesis
      using assms st None that(1) upd
      by (auto simp: remove_if_exists_def fs_remove_def io_bind_def lookup_def clean_def)
  next
    case (fault j)
    then show thesis
      using assms st None that(2)
      by (auto simp: remove_if_exists_def fs_remove_def io_bind_def lookup_def)
  qed
next
  case (Some x)
  obtain f s where st: "io_step (AList.delete p) (\<lambda>_. id) fs = (f, s)"
    by (cases "io_step (AList.delete p) (\<lambda>_. id) fs")
  from this show thesis
  proof (cases rule: io_step_cases)
    case fine
    then show thesis
      using assms st Some that(1)
      by (auto simp: remove_if_exists_def fs_remove_def lookup_def clean_def delete_conv')
  next
    case (fault j)
    then show thesis
      using assms st Some that(2)
      by (auto simp: remove_if_exists_def fs_remove_def lookup_def)
  qed
qed

text \<open>An atomic write either replaces the file or leaves every file but the temporary one.\<close>

lemma write_atomic_cases:
  assumes "write_atomic c p x fs = (fs', r)"
  obtains (fine) "r = Inr ()" "lookup fs' = (lookup fs)(p @ ''.tmp'' := None, p \<mapsto> x)" "clean fs (fs', r)"
    | (fault) e where "r = Inl e" "\<And>q. q \<noteq> p @ ''.tmp'' \<Longrightarrow> lookup fs' q = lookup fs q" "fs_fault fs \<noteq> None"
proof -
  let ?t = "p @ ''.tmp''"
  obtain f1 r1 where s1: "io_step (AList.update ?t (fc_empty c)) (\<lambda>_. id) fs = (f1, r1)" by force
  obtain f2 r2 where s2: "io_step (AList.update ?t x) (\<lambda>j. AList.update ?t (fc_prefix c j x)) f1 = (f2, r2)"
    by force
  obtain f3 r3 where s3: "io_step id (\<lambda>_. id) f2 = (f3, r3)" by force
  obtain f4 r4 where s4: "fs_rename ?t p f3 = (f4, r4)" by force
  note w = assms[unfolded write_atomic_def Let_def io_bind_def lift_io_def] s1 s2 s3 s4
  from s1 show thesis
  proof (cases rule: io_step_cases)
    case (fault j)
    then show thesis using w that(2) by (auto simp: lookup_def)
  next
    case d1: fine
    then have l1: "lookup f1 = (lookup fs)(?t \<mapsto> fc_empty c)" by (simp add: lookup_def update_conv')
    from s2 show thesis
    proof (cases rule: io_step_cases)
      case (fault j)
      then show thesis using w d1 l1 that(2) by (auto simp: lookup_def update_conv' clean_def)
    next
      case d2: fine
      then have l2: "lookup f2 = (lookup fs)(?t \<mapsto> x)" using l1 by (simp add: lookup_def update_conv')
      from s3 show thesis
      proof (cases rule: io_step_cases)
        case (fault j)
        then show thesis using w d1 d2 l2 that(2) by (auto simp: lookup_def clean_def)
      next
        case d3: fine
        then have l3: "lookup f3 = (lookup fs)(?t \<mapsto> x)" using l2 by (simp add: lookup_def)
        then have rn: "io_step (\<lambda>files. AList.update p x (AList.delete ?t files)) (\<lambda>_. id) f3 = (f4, r4)"
          using s4 by (simp add: fs_rename_def)
        from rn show thesis
        proof (cases rule: io_step_cases)
          case (fault j)
          then show thesis using w d1 d2 d3 l3 that(2) by (auto simp: lookup_def clean_def)
        next
          case d4: fine
          then have "lookup f4 = (lookup fs)(?t := None, p \<mapsto> x)"
            using l3 by (simp add: lookup_def update_conv' delete_conv' fun_eq_iff)
          then show thesis using w d1 d2 d3 d4 that(1) by (auto simp: clean_def)
        qed
      qed
    qed
  qed
qed

section \<open>The abstract store of a directory\<close>

definition files_abs :: "'c file_codec \<Rightarrow> (string \<rightharpoonup> 'c) \<Rightarrow> store" where
  "files_abs c f =
    (\<lambda>i. let r = Option.bind (f (record_path c i)) (fc_decode c) in
       \<lparr>se_status = Option.bind r dr_status,
        se_segments = (case r of Some r \<Rightarrow> dr_segments r | None \<Rightarrow> []),
        se_torrent = map_option (fc_bytes c) (f (torrent_path c i)),
        se_runtime = Option.bind r dr_runtime_metadata\<rparr>,
     \<lambda>u. Option.bind (f (recursive_path c u)) (fc_decode_job c))"

definition files_ok :: "'c file_codec \<Rightarrow> (string \<rightharpoonup> 'c) \<Rightarrow> bool" where
  "files_ok c f \<longleftrightarrow> (\<forall>i x. f (record_path c i) = Some x \<longrightarrow> fc_decode c x \<noteq> None)"

definition file_abs :: "'c file_codec \<Rightarrow> 'c filesystem \<Rightarrow> store" where
  "file_abs c fs = files_abs c (lookup fs)"

definition file_inv :: "'c file_codec \<Rightarrow> 'c filesystem \<Rightarrow> bool" where
  "file_inv c fs \<longleftrightarrow> codec_ok c \<and> files_ok c (lookup fs)"

lemma uuid_text_inj: "codec_ok c \<Longrightarrow> fc_uuid_text c u = fc_uuid_text c v \<Longrightarrow> u = v"
  by (metis codec_ok_def option.inject)

lemma paths_inj [simp]:
  "codec_ok c \<Longrightarrow> record_path c i = record_path c j \<longleftrightarrow> i = j"
  "codec_ok c \<Longrightarrow> torrent_path c i = torrent_path c j \<longleftrightarrow> i = j"
  "codec_ok c \<Longrightarrow> recursive_path c u = recursive_path c v \<longleftrightarrow> u = v"
  by (auto simp: record_path_def torrent_path_def recursive_path_def
      dest: uuid_text_inj intro: download_id.expand)

lemma paths_disjoint [simp]:
  "record_path c i \<noteq> torrent_path c j" "torrent_path c j \<noteq> record_path c i"
  "recursive_path c u \<noteq> torrent_path c j" "torrent_path c j \<noteq> recursive_path c u"
  by (auto simp: record_path_def torrent_path_def recursive_path_def dest: arg_cong [of _ _ last])

lemma record_not_recursive [simp]:
  assumes "codec_ok c"
  shows "record_path c i \<noteq> recursive_path c u" "recursive_path c u \<noteq> record_path c i"
proof -
  have "\<not> starts_with recursive_prefix (fc_uuid_text c (uuid_bytes i))"
    using assms by (simp add: codec_ok_def)
  then show "record_path c i \<noteq> recursive_path c u"
    by (auto simp: record_path_def recursive_path_def starts_with_iff)
  then show "recursive_path c u \<noteq> record_path c i" by metis
qed

lemma tmp_hidden [simp]:
  "record_path c i \<noteq> p @ ''.tmp''" "torrent_path c i \<noteq> p @ ''.tmp''" "recursive_path c u \<noteq> p @ ''.tmp''"
  by (auto simp: record_path_def torrent_path_def recursive_path_def dest: arg_cong [of _ _ last])

lemma abs_hidden:
  assumes "\<And>q. q \<noteq> p @ ''.tmp'' \<Longrightarrow> g q = f q"
  shows "files_abs c g = files_abs c f" and "files_ok c g = files_ok c f"
  by (simp_all add: files_abs_def files_ok_def assms)

lemma abs_tmp [simp]:
  "files_abs c (f(p @ ''.tmp'' := x)) = files_abs c f" "files_ok c (f(p @ ''.tmp'' := x)) = files_ok c f"
  using abs_hidden [of p "f(p @ ''.tmp'' := x)" f] by simp_all

lemma files_ok_upd:
  assumes "codec_ok c" and "files_ok c f"
  shows "fc_encode c r = Some x \<Longrightarrow> files_ok c (f(record_path c i \<mapsto> x))" "files_ok c (f(record_path c i := None))"
    and "files_ok c (f(torrent_path c i := y))" "files_ok c (f(recursive_path c u := y))"
  using assms by (auto simp: files_ok_def codec_ok_def)

lemma abs_record:
  assumes "codec_ok c" and "fc_encode c r = Some x"
  shows "files_abs c (f(record_path c i \<mapsto> x)) =
    ((fst (files_abs c f))(i := \<lparr>se_status = dr_status r, se_segments = dr_segments r,
        se_torrent = se_torrent (fst (files_abs c f) i), se_runtime = dr_runtime_metadata r\<rparr>),
     snd (files_abs c f))"
  using assms by (auto simp: files_abs_def codec_ok_def fun_eq_iff Let_def)

lemma abs_record_removed:
  assumes "codec_ok c"
  shows "files_abs c (f(record_path c i := None)) =
    ((fst (files_abs c f))(i := no_entry\<lparr>se_torrent := se_torrent (fst (files_abs c f) i)\<rparr>),
     snd (files_abs c f))"
  using assms by (auto simp: files_abs_def no_entry_def fun_eq_iff Let_def)

lemma abs_torrent:
  assumes "codec_ok c"
  shows "files_abs c (f(torrent_path c i := y)) =
    ((fst (files_abs c f))(i := (fst (files_abs c f) i)\<lparr>se_torrent := map_option (fc_bytes c) y\<rparr>),
     snd (files_abs c f))"
  using assms by (auto simp: files_abs_def fun_eq_iff Let_def)

lemma abs_recursive:
  assumes "codec_ok c"
  shows "files_abs c (f(recursive_path c u := y)) =
    (fst (files_abs c f), (snd (files_abs c f))(u := Option.bind y (fc_decode_job c)))"
  using assms by (auto simp: files_abs_def fun_eq_iff Let_def)

section \<open>Refinement\<close>

text \<open>
  How an operation may end: done; or with an error, on which the store is as before, except
  that an interrupted deletion may have forgotten the record and kept the torrent.
\<close>

definition forget_record :: "store \<Rightarrow> storage_op \<Rightarrow> store" where
  "forget_record s e =
    (case e of
       DeleteDownload i \<Rightarrow> ((fst s)(i := no_entry\<lparr>se_torrent := se_torrent (fst s i)\<rparr>), snd s)
     | _ \<Rightarrow> s)"

definition good_names :: "'c file_codec \<Rightarrow> string set" where
  "good_names c = range (record_path c) \<union> range (torrent_path c) \<union> range (recursive_path c)"

text \<open>What is saved, and what was, can be serialised.\<close>

fun storable_op :: "'c file_codec \<Rightarrow> storage_op \<Rightarrow> bool" where
  "storable_op c (SaveDownload st) \<longleftrightarrow> storable c st"
| "storable_op c (SaveRecursiveJob j) \<longleftrightarrow> fc_encode_job c j \<noteq> None"
| "storable_op c _ \<longleftrightarrow> True"

definition all_storable :: "'c file_codec \<Rightarrow> store \<Rightarrow> bool" where
  "all_storable c s \<longleftrightarrow> (\<forall>i st. se_status (fst s i) = Some st \<longrightarrow> storable c st)"

definition ends_well :: "'c file_codec \<Rightarrow> storage_op \<Rightarrow> 'c filesystem \<Rightarrow> 'c filesystem \<times> unit result \<Rightarrow> bool" where
  "ends_well c e fs res \<longleftrightarrow>
    file_inv c (fst res)
    \<and> (fs_fault fs = None \<longrightarrow> fs_fault (fst res) = None
        \<and> (dom (lookup fs) \<subseteq> good_names c \<longrightarrow> dom (lookup (fst res)) \<subseteq> good_names c)
        \<and> (all_storable c (file_abs c fs) \<and> storable_op c e \<longrightarrow> (\<exists>x. snd res = Inr x)))
    \<and> (case snd res of
         Inr _ \<Rightarrow> file_abs c (fst res) = store_step (file_abs c fs) e
       | Inl _ \<Rightarrow> file_abs c (fst res) = file_abs c fs \<or> file_abs c (fst res) = forget_record (file_abs c fs) e)"

lemma write_ends_well:
  assumes "file_inv c fs" and "p \<in> good_names c" and "files_ok c ((lookup fs)(p \<mapsto> x))"
    and "files_abs c ((lookup fs)(p \<mapsto> x)) = store_step (file_abs c fs) e"
  shows "ends_well c e fs (write_atomic c p x fs)"
proof (cases "write_atomic c p x fs")
  case (Pair fs' r)
  have com: "(lookup fs)(p @ ''.tmp'' := None, p \<mapsto> x) = ((lookup fs)(p \<mapsto> x))(p @ ''.tmp'' := None)"
    by (simp add: fun_upd_twist)
  from Pair show ?thesis
  proof (cases rule: write_atomic_cases)
    case fine
    then show ?thesis
      using assms Pair by (auto simp: ends_well_def file_inv_def file_abs_def com clean_def)
  next
    case (fault e)
    then show ?thesis
      using assms(1) Pair abs_hidden [of p "lookup fs'" "lookup fs"]
      by (auto simp: ends_well_def file_inv_def file_abs_def)
  qed
qed

lemma write_json_ends_well:
  assumes "file_inv c fs" and "p \<in> good_names c"
    and "\<And>x. serialised = Some x \<Longrightarrow> files_ok c ((lookup fs)(p \<mapsto> x))
      \<and> files_abs c ((lookup fs)(p \<mapsto> x)) = store_step (file_abs c fs) e"
    and "serialised = None \<Longrightarrow> \<not> (all_storable c (file_abs c fs) \<and> storable_op c e)"
  shows "ends_well c e fs (write_json c p serialised fs)"
proof (cases serialised)
  case None
  then show ?thesis using assms(1,4) by (auto simp: write_json_def ends_well_def)
next
  case (Some x)
  then show ?thesis using assms(3) by (simp add: write_json_def write_ends_well [OF assms(1,2)])
qed

lemma ends_well_from:
  assumes "lookup fs' = lookup fs" and "fs_fault fs = None \<longrightarrow> fs_fault fs' = None"
    and "ends_well c e fs' res"
  shows "ends_well c e fs res"
  using assms(2,3) unfolding ends_well_def file_abs_def assms(1) by blast

lemma read_then:
  assumes "file_inv c fs"
    and "\<And>fs'. lookup fs' = lookup fs \<Longrightarrow> file_inv c fs' \<Longrightarrow>
      ends_well c e fs' (f (Option.bind (lookup fs (record_path c i)) (fc_decode c)) fs')"
  shows "ends_well c e fs (io_bind (read_json (fc_decode c) (record_path c i)) f fs)"
proof (cases "read_json (fc_decode c) (record_path c i) fs")
  case (Pair fs' r)
  from Pair show ?thesis
  proof (cases rule: read_json_cases)
    case absent
    have "file_inv c fs'" using assms(1) absent(3) by (simp add: file_inv_def)
    then have "ends_well c e fs' (f None fs')"
      using assms(2) [OF absent(3)] absent(2) by simp
    then have "ends_well c e fs (f None fs')"
      by (rule ends_well_from [OF absent(3,4)])
    then show ?thesis using Pair absent(1) by (simp add: io_bind_def)
  next
    case (found x v)
    have "file_inv c fs'" using assms(1) found(4) by (simp add: file_inv_def)
    then have "ends_well c e fs' (f (Some v) fs')"
      using assms(2) [OF found(4)] found(2,3) by simp
    then have "ends_well c e fs (f (Some v) fs')"
      by (rule ends_well_from [OF found(4,5)])
    then show ?thesis using Pair found(1) by (simp add: io_bind_def)
  next
    case (bad e)
    then have "fs_fault fs \<noteq> None"
      using assms(1) unfolding file_inv_def files_ok_def by metis
    then show ?thesis
      using Pair assms(1) bad by (auto simp: io_bind_def ends_well_def file_inv_def file_abs_def)
  qed
qed

lemma update_ends_well:
  assumes "file_inv c fs"
    and "\<And>r. store_step (file_abs c fs) e = ((fst (file_abs c fs))(i :=
        (let r' = update (case Option.bind (lookup fs (record_path c i)) (fc_decode c) of
           Some r \<Rightarrow> r | None \<Rightarrow> default_record) in
         \<lparr>se_status = dr_status r', se_segments = dr_segments r',
          se_torrent = se_torrent (fst (file_abs c fs) i), se_runtime = dr_runtime_metadata r'\<rparr>)),
        snd (file_abs c fs))"
    and "\<And>st. all_storable c (file_abs c fs) \<Longrightarrow> storable_op c e \<Longrightarrow>
      dr_status (update (case Option.bind (lookup fs (record_path c i)) (fc_decode c) of
        Some r \<Rightarrow> r | None \<Rightarrow> default_record)) = Some st \<Longrightarrow> storable c st"
  shows "ends_well c e fs (update_record c i update fs)"
  unfolding update_record_def
proof (rule read_then [OF assms(1)])
  fix fs' :: "'a filesystem"
  assume l: "lookup fs' = lookup fs" and inv: "file_inv c fs'"
  have c: "codec_ok c" using inv by (simp add: file_inv_def)
  let ?r = "update (case Option.bind (lookup fs (record_path c i)) (fc_decode c) of Some r \<Rightarrow> r | None \<Rightarrow> default_record)"
  have a: "file_abs c fs' = file_abs c fs" by (simp add: file_abs_def l)
  show "ends_well c e fs' (write_json c (record_path c i) (fc_encode c ?r) fs')"
  proof (rule write_json_ends_well [OF inv])
    show "record_path c i \<in> good_names c" by (simp add: good_names_def)
    show "\<not> (all_storable c (file_abs c fs') \<and> storable_op c e)" if "fc_encode c ?r = None"
      using c assms(3) that unfolding a codec_ok_def by metis
    show "files_ok c ((lookup fs')(record_path c i \<mapsto> x))
        \<and> files_abs c ((lookup fs')(record_path c i \<mapsto> x)) = store_step (file_abs c fs') e"
      if "fc_encode c ?r = Some x" for x
      using assms(2) inv c files_ok_upd(1) [OF c _ that] abs_record [OF c that]
      by (auto simp: a l file_inv_def Let_def) (simp_all add: file_abs_def l)
  qed
qed

lemma remove_ends_well:
  assumes "file_inv c fs" and "files_ok c ((lookup fs)(p := None))"
    and "files_abs c ((lookup fs)(p := None)) = store_step (file_abs c fs) e"
  shows "ends_well c e fs (remove_if_exists p fs)"
proof (cases "remove_if_exists p fs")
  case (Pair fs' r)
  from Pair show ?thesis
    by (cases rule: remove_if_exists_cases)
      (use assms Pair in \<open>auto simp: ends_well_def file_inv_def file_abs_def clean_def split: if_splits\<close>)
qed

lemma entry_of_record:
  "fst (file_abs c fs) i =
    (let r = (case Option.bind (lookup fs (record_path c i)) (fc_decode c) of Some r \<Rightarrow> r | None \<Rightarrow> default_record) in
     \<lparr>se_status = dr_status r, se_segments = dr_segments r,
      se_torrent = se_torrent (fst (file_abs c fs) i), se_runtime = dr_runtime_metadata r\<rparr>)"
  by (cases "lookup fs (record_path c i)")
    (auto simp: file_abs_def files_abs_def default_record_def Let_def split: option.split)

lemma file_run_ends_well:
  assumes inv: "file_inv c fs"
  shows "ends_well c e fs (file_run c e fs)"
proof -
  have c: "codec_ok c" and ok: "files_ok c (lookup fs)" using inv by (simp_all add: file_inv_def)
  obtain s js where abs: "file_abs c fs = (s, js)" by (cases "file_abs c fs")
  define rec where "rec i = (case Option.bind (lookup fs (record_path c i)) (fc_decode c) of
      Some r \<Rightarrow> r | None \<Rightarrow> default_record)" for i
  have ent: "s i = \<lparr>se_status = dr_status (rec i), se_segments = dr_segments (rec i),
      se_torrent = se_torrent (s i), se_runtime = dr_runtime_metadata (rec i)\<rparr>" for i
    using entry_of_record [of c fs i] by (simp add: abs rec_def Let_def)
  have upd: "s i\<lparr>se_status := x\<rparr> = \<lparr>se_status = x, se_segments = dr_segments (rec i),
      se_torrent = se_torrent (s i), se_runtime = dr_runtime_metadata (rec i)\<rparr>"
    "s i\<lparr>se_segments := y\<rparr> = \<lparr>se_status = dr_status (rec i), se_segments = y,
      se_torrent = se_torrent (s i), se_runtime = dr_runtime_metadata (rec i)\<rparr>"
    "s i\<lparr>se_runtime := z\<rparr> = \<lparr>se_status = dr_status (rec i), se_segments = dr_segments (rec i),
      se_torrent = se_torrent (s i), se_runtime = z\<rparr>" for i x y z
    by (subst ent; simp)+
  have stored: "dr_status (rec i) = Some st \<Longrightarrow> all_storable c (s, js) \<Longrightarrow> storable c st" for i st
    using ent [of i] unfolding all_storable_def by (metis fst_conv store_entry.select_convs(1))
  have fabs: "files_abs c (lookup fs) = (s, js)" using abs by (simp add: file_abs_def)
  have good: "record_path c i \<in> good_names c" "torrent_path c i \<in> good_names c" "recursive_path c u \<in> good_names c" for i u
    by (simp_all add: good_names_def)
  show ?thesis
  proof (cases e)
    case (SaveDownload st)
    then show ?thesis
      unfolding SaveDownload file_run.simps file_save_download_def
      by (intro update_ends_well [OF inv])
        (use stored in \<open>auto simp: abs upd rec_def [symmetric] Let_def\<close>)
  next
    case (SaveSegments i segs)
    then show ?thesis
      unfolding SaveSegments file_run.simps file_save_segments_def
      by (intro update_ends_well [OF inv])
        (use stored in \<open>auto simp: abs upd rec_def [symmetric] Let_def\<close>)
  next
    case (SaveRuntimeMetadata i r)
    then show ?thesis
      unfolding SaveRuntimeMetadata file_run.simps file_save_runtime_metadata_def
      by (intro update_ends_well [OF inv])
        (use stored in \<open>auto simp: abs upd rec_def [symmetric] Let_def\<close>)
  next
    case (SaveTorrentData i bs)
    show ?thesis
      unfolding SaveTorrentData file_run.simps file_save_torrent_data_def
      by (rule write_ends_well [OF inv good(2)])
        (use c in \<open>simp_all add: files_ok_upd ok abs abs_torrent fabs codec_ok_def\<close>)
  next
    case (SaveRecursiveJob j)
    show ?thesis
      unfolding SaveRecursiveJob file_run.simps file_save_recursive_job_def
      by (rule write_json_ends_well [OF inv good(3)])
        (use c in \<open>simp_all add: files_ok_upd ok abs abs_recursive fabs codec_ok_def\<close>)
  next
    case (DeleteRecursiveJob u)
    show ?thesis
      unfolding DeleteRecursiveJob file_run.simps file_delete_recursive_job_def
      by (rule remove_ends_well [OF inv])
        (use c in \<open>simp_all add: files_ok_upd ok abs abs_recursive fabs\<close>)
  next
    case (DeleteSegments i)
    show ?thesis
      unfolding DeleteSegments file_run.simps file_delete_segments_def
    proof (rule read_then [OF inv])
      fix fs' assume l: "lookup fs' = lookup fs" and inv': "file_inv c fs'"
      have abs': "file_abs c fs' = (s, js)" using abs l by (simp add: file_abs_def)
      show "ends_well c (DeleteSegments i) fs'
        ((\<lambda>r fs. case r of
            Some r \<Rightarrow> write_json c (record_path c i) (fc_encode c (r\<lparr>dr_segments := []\<rparr>)) fs
          | None \<Rightarrow> (fs, Inr ())) (Option.bind (lookup fs (record_path c i)) (fc_decode c)) fs')"
      proof (cases "Option.bind (lookup fs (record_path c i)) (fc_decode c)")
        case None
        then have "s i\<lparr>se_segments := []\<rparr> = s i"
          by (subst (2) ent) (simp add: upd rec_def default_record_def)
        then show ?thesis using None inv' abs' by (simp add: ends_well_def)
      next
        case (Some r)
        then have "rec i = r" by (simp add: rec_def)
        have "ends_well c (DeleteSegments i) fs'
            (write_json c (record_path c i) (fc_encode c (r\<lparr>dr_segments := []\<rparr>)) fs')"
        proof (rule write_json_ends_well [OF inv' good(1)])
          show "\<not> (all_storable c (file_abs c fs') \<and> storable_op c (DeleteSegments i))"
            if "fc_encode c (r\<lparr>dr_segments := []\<rparr>) = None"
          proof -
            have "\<exists>st. dr_status r = Some st \<and> \<not> storable c st"
              using c that unfolding codec_ok_def by (metis download_record.select_convs(1) download_record.surjective download_record.update_convs(2))
            then show ?thesis using stored [of i] \<open>rec i = r\<close> abs' by auto
          qed
          show "files_ok c ((lookup fs')(record_path c i \<mapsto> x))
              \<and> files_abs c ((lookup fs')(record_path c i \<mapsto> x)) = store_step (file_abs c fs') (DeleteSegments i)"
            if "fc_encode c (r\<lparr>dr_segments := []\<rparr>) = Some x" for x
            using files_ok_upd(1) [OF c ok that] abs_record [OF c that] \<open>rec i = r\<close> by (simp add: l abs' fabs upd)
        qed
        then show ?thesis using Some by simp
      qed
    qed
  next
    case (DeleteDownload i)
    obtain fs1 r1 where s1: "remove_if_exists (record_path c i) fs = (fs1, r1)" by force
    show ?thesis
      unfolding DeleteDownload file_run.simps file_delete_download_def
      using s1
    proof (cases rule: remove_if_exists_cases)
      case (fault e)
      then show "ends_well c (DeleteDownload i) fs
          (io_bind (remove_if_exists (record_path c i)) (\<lambda>_. remove_if_exists (torrent_path c i)) fs)"
        using inv s1 by (auto simp: io_bind_def ends_well_def file_inv_def file_abs_def)
    next
      case d1: fine
      obtain fs2 r2 where s2: "remove_if_exists (torrent_path c i) fs1 = (fs2, r2)" by force
      from s2 show "ends_well c (DeleteDownload i) fs
          (io_bind (remove_if_exists (record_path c i)) (\<lambda>_. remove_if_exists (torrent_path c i)) fs)"
      proof (cases rule: remove_if_exists_cases)
        case fine
        then show ?thesis
          using s1 s2 d1 c ok abs fabs
          by (auto simp: io_bind_def ends_well_def file_inv_def file_abs_def clean_def files_ok_upd
              abs_torrent abs_record_removed no_entry_def split: if_splits)
      next
        case (fault e)
        then show ?thesis
          using s1 s2 d1 c ok abs fabs
          by (auto simp: io_bind_def ends_well_def file_inv_def file_abs_def clean_def files_ok_upd
              abs_record_removed forget_record_def split: if_splits)
      qed
    qed
  qed
qed

definition file_step :: "'c file_codec \<Rightarrow> 'c filesystem \<Rightarrow> storage_op \<Rightarrow> 'c filesystem" where
  "file_step c fs e = fst (file_run c e fs)"

definition file_new :: "'c filesystem" where
  "file_new = \<lparr>fs_files = [], fs_fault = None\<rparr>"

lemma file_abs_new [simp]: "file_abs c file_new = empty_store"
  by (simp add: file_abs_def files_abs_def file_new_def lookup_def empty_store_def no_entry_def)

lemma file_inv_new [simp]: "file_inv c file_new \<longleftrightarrow> codec_ok c"
  by (simp add: file_inv_def files_ok_def file_new_def lookup_def)

text \<open>No two files have the same name.\<close>

definition keeps_distinct :: "('c filesystem \<Rightarrow> 'c filesystem \<times> 'b) \<Rightarrow> bool" where
  "keeps_distinct m \<longleftrightarrow>
    (\<forall>fs. distinct (map fst (fs_files fs)) \<longrightarrow> distinct (map fst (fs_files (fst (m fs)))))"

lemma keeps_io_step:
  assumes "\<And>fs. distinct (map fst fs) \<Longrightarrow> distinct (map fst (whole fs))"
    and "\<And>j fs. distinct (map fst fs) \<Longrightarrow> distinct (map fst (part j fs))"
  shows "keeps_distinct (io_step whole part)"
  using assms by (auto simp: keeps_distinct_def io_step_def split: option.split prod.split nat.split)

lemma keeps_bind:
  fixes m :: "'c filesystem \<Rightarrow> 'c filesystem \<times> ('e + 'a)"
  assumes "keeps_distinct m" and "\<And>x. keeps_distinct (f x)"
  shows "keeps_distinct (io_bind m f)"
  unfolding keeps_distinct_def
proof (intro allI impI)
  fix fs :: "'c filesystem"
  assume d: "distinct (map fst (fs_files fs))"
  obtain fs' r where m: "m fs = (fs', r)" by fastforce
  have "distinct (map fst (fs_files fs'))" using assms(1) d m unfolding keeps_distinct_def by (metis fst_conv)
  then show "distinct (map fst (fs_files (fst (io_bind m f fs))))"
    using assms(2) by (cases r) (simp_all add: io_bind_def m keeps_distinct_def)
qed

lemma keeps_lift: "keeps_distinct m \<Longrightarrow> keeps_distinct (lift_io m)"
  by (auto simp: keeps_distinct_def lift_io_def split: prod.split sum.split)

lemma keeps_result [simp]: "keeps_distinct (\<lambda>fs. (fs, r fs))"
  by (simp add: keeps_distinct_def)

lemma keeps_same [simp]: "keeps_distinct (io_step id (\<lambda>_. id))"
  by (rule keeps_io_step) simp_all

lemma keeps_read [simp]: "keeps_distinct (read_json dec p)"
proof -
  have "keeps_distinct (fs_read p)" unfolding fs_read_def by (intro keeps_bind keeps_same keeps_result)
  then show ?thesis
    by (auto simp: keeps_distinct_def read_json_def split: prod.split sum.split)
qed

lemma keeps_rename: "keeps_distinct (fs_rename p q :: ('c, unit) io)"
proof -
  have "keeps_distinct (io_bind (io_step id (\<lambda>_. id)) (\<lambda>_ fs. (fs, Inl IoNotFound)) :: ('c, unit) io)"
    by (intro keeps_bind keeps_same keeps_result)
  moreover have "keeps_distinct (io_step (\<lambda>files. AList.update q x (AList.delete p files)) (\<lambda>_. id))" for x :: 'c
    by (rule keeps_io_step) (simp_all add: distinct_update distinct_delete)
  ultimately show ?thesis unfolding keeps_distinct_def fs_rename_def by (simp split: option.split)
qed

lemma keeps_write [simp]: "keeps_distinct (write_atomic c p x)"
  unfolding write_atomic_def Let_def
  by (intro keeps_bind keeps_lift keeps_rename keeps_io_step keeps_same) (simp_all add: distinct_update)

lemma keeps_write_json [simp]: "keeps_distinct (write_json c p x)"
  by (cases x) (simp_all add: write_json_def [abs_def])

lemma keeps_remove [simp]: "keeps_distinct (remove_if_exists p)"
proof -
  have "keeps_distinct (io_bind (io_step id (\<lambda>_. id)) (\<lambda>_ fs. (fs, Inl IoNotFound)))"
    by (intro keeps_bind keeps_same keeps_result)
  moreover have "keeps_distinct (io_step (AList.delete p) (\<lambda>_. id))"
    by (rule keeps_io_step) (simp_all add: distinct_delete)
  ultimately have "keeps_distinct (fs_remove p)" by (auto simp: keeps_distinct_def fs_remove_def)
  then show ?thesis
    by (auto simp: keeps_distinct_def remove_if_exists_def split: prod.split sum.split)
qed

lemma keeps_file_run: "keeps_distinct (file_run c e)"
proof -
  have u: "keeps_distinct (update_record c i f)" for i f
    unfolding update_record_def by (intro keeps_bind keeps_read keeps_write_json)
  have d: "keeps_distinct (file_delete_segments c i)" for i
    unfolding file_delete_segments_def
  proof (intro keeps_bind keeps_read)
    show "keeps_distinct (\<lambda>fs. case r of
        Some r \<Rightarrow> write_json c (record_path c i) (fc_encode c (r\<lparr>dr_segments := []\<rparr>)) fs | None \<Rightarrow> (fs, Inr ()))" for r
      by (cases r) simp_all
  qed
  have r: "keeps_distinct (file_delete_download c i)" for i
    unfolding file_delete_download_def by (intro keeps_bind keeps_remove)
  show ?thesis
    by (cases e) (simp_all add: u d r file_save_download_def file_save_segments_def file_save_torrent_data_def
        file_save_runtime_metadata_def file_save_recursive_job_def file_delete_recursive_job_def)
qed

text \<open>A directory that only these operations have written, without a fault, and whose statuses can
  be serialised.\<close>

definition file_state :: "'c file_codec \<Rightarrow> 'c filesystem \<Rightarrow> bool" where
  "file_state c fs \<longleftrightarrow>
    file_inv c fs \<and> fs_fault fs = None \<and> all_storable c (file_abs c fs)
    \<and> dom (lookup fs) \<subseteq> good_names c \<and> distinct (map fst (fs_files fs))"

lemma all_storable_step: "all_storable c s \<Longrightarrow> storable_op c e \<Longrightarrow> all_storable c (store_step s e)"
  by (cases s; cases e) (auto simp: all_storable_def no_entry_def)

interpretation files: storage_impl "file_step c" "file_state c" "file_abs c" "storable_op c" for c
proof
  fix fs :: "'a filesystem" and e
  assume fs: "file_state c fs" and ok: "storable_op c e"
  then have w: "ends_well c e fs (file_run c e fs)" by (simp add: file_run_ends_well file_state_def)
  then show abs: "file_abs c (file_step c fs e) = store_step (file_abs c fs) e"
    using fs ok by (auto simp: file_state_def file_step_def ends_well_def)
  have "distinct (map fst (fs_files (file_step c fs e)))"
    using fs keeps_file_run [of c e] by (simp add: file_state_def file_step_def keeps_distinct_def)
  moreover have "file_inv c (file_step c fs e) \<and> fs_fault (file_step c fs e) = None
      \<and> dom (lookup (file_step c fs e)) \<subseteq> good_names c"
    using fs w by (simp add: file_state_def file_step_def ends_well_def)
  moreover have "all_storable c (store_step (file_abs c fs) e)"
    using fs ok by (intro all_storable_step) (simp_all add: file_state_def)
  ultimately show "file_state c (file_step c fs e)" by (simp add: file_state_def abs)
qed

lemma file_state_new: "codec_ok c \<Longrightarrow> file_state c file_new"
  by (simp add: file_state_def all_storable_def) (simp add: file_new_def lookup_def empty_store_def no_entry_def)

text \<open>C9. A file operation that is cut short at any point, by an error or a crash, leaves what it
  would have left had it not started, up to the record of a deletion that was under way (then
  only the torrent is left); one that ends without an error has done what the store specifies.
  Every record file stays readable.\<close>

theorem file_ops_atomic:
  assumes "codec_ok c" and "files_ok c (lookup fs)" and "file_run c e fs = (fs', r)"
  shows "files_ok c (lookup fs')
    \<and> (case r of
         Inr _ \<Rightarrow> file_abs c fs' = store_step (file_abs c fs) e
       | Inl _ \<Rightarrow> file_abs c fs' \<in> {file_abs c fs, forget_record (file_abs c fs) e})"
  using file_run_ends_well [of c fs e] assms
  by (auto simp: ends_well_def file_inv_def split: sum.splits)

section \<open>Loading\<close>

lemma io_step_clean: "fs_fault fs = None \<Longrightarrow> io_step id (\<lambda>_. id) fs = (fs, Inr ())"
  by (simp add: io_step_def)

lemma fs_read_clean:
  "fs_fault fs = None \<Longrightarrow>
    fs_read p fs = (fs, case lookup fs p of Some x \<Rightarrow> Inr x | None \<Rightarrow> Inl IoNotFound)"
  by (simp add: fs_read_def io_bind_def io_step_clean)

lemma read_record_clean:
  assumes "file_inv c fs" and "fs_fault fs = None"
  shows "read_json (fc_decode c) (record_path c i) fs
    = (fs, Inr (Option.bind (lookup fs (record_path c i)) (fc_decode c)))"
proof (cases "lookup fs (record_path c i)")
  case None
  then show ?thesis using assms(2) by (simp add: read_json_def fs_read_clean)
next
  case (Some x)
  then obtain r where "fc_decode c x = Some r"
    using assms(1) unfolding file_inv_def files_ok_def by blast
  then show ?thesis using assms(2) Some by (simp add: read_json_def fs_read_clean)
qed

lemma se_status_record:
  "se_status (fst (file_abs c fs) i) =
    (case Option.bind (lookup fs (record_path c i)) (fc_decode c) of Some r \<Rightarrow> dr_status r | None \<Rightarrow> None)"
  by (cases "lookup fs (record_path c i)")
    (auto simp: file_abs_def files_abs_def Let_def split: option.split)

lemma loads_clean:
  assumes "file_inv c fs" and "fs_fault fs = None"
  shows "file_load_download c i fs = (fs, Inr (se_status (fst (file_abs c fs) i)))"
    and "file_load_segments c i fs = (fs, Inr (se_segments (fst (file_abs c fs) i)))"
    and "file_load_runtime_metadata c i fs = (fs, Inr (se_runtime (fst (file_abs c fs) i)))"
    and "file_load_torrent_data c i fs = (fs, Inr (se_torrent (fst (file_abs c fs) i)))"
  using assms
  by (simp_all add: file_load_download_def file_load_segments_def file_load_runtime_metadata_def
      file_load_torrent_data_def io_bind_def read_record_clean fs_read_clean file_abs_def
      files_abs_def Let_def split: option.splits)

text \<open>What the names in the directory stand for.\<close>

lemma split_extension_known:
  "t \<noteq> [] \<Longrightarrow> split_extension (t @ ''.json'') = (t, Some ''json'')"
  "t \<noteq> [] \<Longrightarrow> split_extension (t @ ''.torrent'') = (t, Some ''torrent'')"
  by (simp_all add: split_extension_def)

definition name_id :: "'c file_codec \<Rightarrow> string \<Rightarrow> download_id option" where
  "name_id c name =
    (case split_extension name of (stem, ext) \<Rightarrow>
       if ext \<noteq> Some ''json'' then None
       else if starts_with recursive_prefix stem then None
       else map_option DownloadId (fc_uuid_parse c stem))"

lemma good_name_kinds:
  assumes "codec_ok c" and "n \<in> good_names c"
  shows "name_id c n = Some i \<longleftrightarrow> n = record_path c i" and "is_job_file n \<longleftrightarrow> n \<in> range (recursive_path c)"
proof -
  have u: "fc_uuid_parse c (fc_uuid_text c x) = Some x" "fc_uuid_text c x \<noteq> []"
    "\<not> starts_with recursive_prefix (fc_uuid_text c x)" for x
    using assms(1) by (simp_all add: codec_ok_def)
  have p: "starts_with recursive_prefix (recursive_prefix @ t)" "recursive_prefix @ t \<noteq> []" for t
    by (simp_all add: starts_with_iff recursive_prefix_def)
  have rec: "split_extension (record_path c j) = (fc_uuid_text c (uuid_bytes j), Some ''json'')"
    "split_extension (torrent_path c j) = (fc_uuid_text c (uuid_bytes j), Some ''torrent'')"
    "split_extension (recursive_path c x) = (recursive_prefix @ fc_uuid_text c x, Some ''json'')" for j x
    unfolding record_path_def torrent_path_def recursive_path_def
    using split_extension_known(1) [OF u(2)] split_extension_known(2) [OF u(2)] split_extension_known(1) [OF p(2)]
    by (simp_all only: append_assoc)
  show "name_id c n = Some i \<longleftrightarrow> n = record_path c i"
    using assms(2) by (auto simp: good_names_def name_id_def rec u p assms(1))
  show "is_job_file n \<longleftrightarrow> n \<in> range (recursive_path c)"
    using assms(2) by (auto simp: good_names_def is_job_file_def rec u p assms(1))
qed

lemma distinct_map_filter:
  "distinct (map key xs) \<Longrightarrow> (\<And>x y. x \<in> set xs \<Longrightarrow> f x = Some y \<Longrightarrow> key x = g y) \<Longrightarrow> distinct (List.map_filter f xs)"
proof (induction xs)
  case (Cons x xs)
  have "distinct (List.map_filter f xs)" using Cons by simp
  moreover have "y \<notin> set (List.map_filter f xs)" if "f x = Some y" for y
  proof
    assume "y \<in> set (List.map_filter f xs)"
    then obtain x' where x': "x' \<in> set xs" "f x' = Some y" by (auto simp: List.map_filter_def)
    then have "key x' = key x" using Cons.prems(2) that by (metis list.set_intros)
    then show False using Cons.prems(1) x'(1) by (metis distinct.simps(2) image_eqI list.set_map list.simps(9))
  qed
  ultimately show ?case by (auto simp: List.map_filter_simps split: option.split)
qed (simp add: List.map_filter_simps)

lemma set_map_filter: "set (List.map_filter f xs) = {y. \<exists>x \<in> set xs. f x = Some y}"
  by (force simp: List.map_filter_def)

lemma file_names: "file_state c fs \<Longrightarrow> fst ` set (fs_files fs) = dom (lookup fs) \<and> dom (lookup fs) \<subseteq> good_names c"
  by (auto simp: file_state_def lookup_def dom_map_of_conv_image_fst)

lemma record_ids_clean:
  assumes "file_state c fs"
  shows "\<exists>is. record_ids c fs = (fs, Inr is) \<and> distinct is \<and> set is = {i. lookup fs (record_path c i) \<noteq> None}"
proof -
  have c: "codec_ok c" and nf: "fs_fault fs = None" and d: "distinct (map fst (fs_files fs))"
    using assms by (simp_all add: file_state_def file_inv_def)
  note names = file_names [OF assms]
  let ?is = "List.map_filter (\<lambda>(name, _). name_id c name) (fs_files fs)"
  have "record_ids c fs = (fs, Inr ?is)"
    by (simp add: record_ids_def name_id_def lift_io_def io_step_clean [OF nf])
  moreover have "distinct ?is"
    by (rule distinct_map_filter [OF d, of _ "record_path c"])
      (use names good_name_kinds(1) [OF c] in \<open>force\<close>)
  moreover have "set ?is = {i. lookup fs (record_path c i) \<noteq> None}"
  proof -
    have "i \<in> set ?is \<longleftrightarrow> record_path c i \<in> fst ` set (fs_files fs)" for i
    proof -
      have "i \<in> set ?is \<longleftrightarrow> (\<exists>n \<in> fst ` set (fs_files fs). name_id c n = Some i)"
        by (simp add: set_map_filter case_prod_unfold)
      also have "\<dots> \<longleftrightarrow> (\<exists>n \<in> fst ` set (fs_files fs). n = record_path c i)"
        using names good_name_kinds(1) [OF c, of _ i] by (intro bex_cong refl) blast
      finally show ?thesis by simp
    qed
    then show ?thesis using names by auto
  qed
  ultimately show ?thesis by blast
qed

lemma load_each_clean:
  assumes "file_inv c fs" and "fs_fault fs = None"
  shows "load_each c is fs = (fs, List.map_filter (\<lambda>i. se_status (fst (file_abs c fs) i)) is)"
  by (induction "is") (auto simp: read_record_clean [OF assms] se_status_record List.map_filter_simps split: option.splits)

lemma load_all_clean:
  assumes s: "file_state c fs" and k: "keyed (file_abs c fs)"
  shows "\<exists>sts. file_load_all c fs = (fs, Inr sts) \<and> distinct (map ds_id sts)
    \<and> set sts = {st. \<exists>i. se_status (fst (file_abs c fs) i) = Some st}"
proof -
  have inv: "file_inv c fs" "fs_fault fs = None" using s by (simp_all add: file_state_def)
  obtain "is" where ids: "record_ids c fs = (fs, Inr is)" "distinct is" "set is = {i. lookup fs (record_path c i) \<noteq> None}"
    using record_ids_clean [OF s] by blast
  let ?f = "\<lambda>i. se_status (fst (file_abs c fs) i)"
  let ?sts = "List.map_filter ?f is"
  have "?f i \<noteq> None \<Longrightarrow> i \<in> set is" for i
    unfolding ids(3) by (auto simp: file_abs_def files_abs_def Let_def bind_eq_Some_conv)
  then have "set ?sts = {st. \<exists>i. ?f i = Some st}" unfolding set_map_filter by (metis (no_types, lifting) option.distinct(1))
  moreover have "distinct (map ds_id ?sts)"
  proof -
    have "map ds_id ?sts = filter (\<lambda>i. ?f i \<noteq> None) is"
      using k by (induction "is") (auto simp: List.map_filter_simps keyed_def split: option.split)
    then show ?thesis using ids(2) by simp
  qed
  ultimately show ?thesis using ids(1) by (simp add: file_load_all_def io_bind_def load_each_clean [OF inv])
qed

lemma load_metadata_clean:
  assumes "file_inv c fs" and "fs_fault fs = None"
  shows "load_metadata_each c is metadata fs =
    (fs, Inr (\<lambda>i. if i \<in> set is \<and> se_runtime (fst (file_abs c fs) i) \<noteq> None
                  then se_runtime (fst (file_abs c fs) i) else metadata i))"
  by (induction "is" arbitrary: metadata)
    (auto simp: io_bind_def loads_clean [OF assms] fun_eq_iff split: option.split)

lemma load_all_metadata_clean:
  assumes s: "file_state c fs"
  shows "file_load_all_runtime_metadata c fs = (fs, Inr (\<lambda>i. se_runtime (fst (file_abs c fs) i)))"
proof -
  have inv: "file_inv c fs" "fs_fault fs = None" using s by (simp_all add: file_state_def)
  obtain "is" where ids: "record_ids c fs = (fs, Inr is)" "set is = {i. lookup fs (record_path c i) \<noteq> None}"
    using record_ids_clean [OF s] by blast
  have "se_runtime (fst (file_abs c fs) i) = None" if "i \<notin> set is" for i
    using that unfolding ids(2) by (simp add: file_abs_def files_abs_def Let_def)
  then show ?thesis
    using ids(1) by (auto simp: file_load_all_runtime_metadata_def io_bind_def load_metadata_clean [OF inv] fun_eq_iff)
qed

lemma load_jobs_each_clean:
  assumes "fs_fault fs = None"
  shows "load_jobs_each c ps fs = (fs, List.map_filter (\<lambda>p. Option.bind (lookup fs p) (fc_decode_job c)) ps)"
  by (induction ps) (auto simp: read_json_def fs_read_clean [OF assms] List.map_filter_simps split: option.split)

lemma load_jobs_clean:
  assumes s: "file_state c fs" and k: "keyed (file_abs c fs)"
  shows "\<exists>js. file_load_recursive_jobs c fs = (fs, Inr js) \<and> distinct (map rj_id js)
    \<and> sorted (map (\<lambda>j. - rj_created_at j) js) \<and> set js = ran (snd (file_abs c fs))"
proof -
  have c: "codec_ok c" and nf: "fs_fault fs = None" and d: "distinct (map fst (fs_files fs))"
    using s by (simp_all add: file_state_def file_inv_def)
  note names = file_names [OF s]
  let ?ps = "filter is_job_file (map fst (fs_files fs))"
  let ?f = "\<lambda>p. Option.bind (lookup fs p) (fc_decode_job c)"
  let ?js = "List.map_filter ?f ?ps"
  have ps: "p \<in> set ?ps \<longleftrightarrow> (\<exists>u. p = recursive_path c u) \<and> lookup fs p \<noteq> None" for p
  proof -
    have "p \<in> set ?ps \<longleftrightarrow> is_job_file p \<and> p \<in> dom (lookup fs)" using names by auto
    then show ?thesis using names good_name_kinds(2) [OF c, of p] by (auto simp: domIff)
  qed
  have at: "?f (recursive_path c u) = snd (file_abs c fs) u" for u by (simp add: file_abs_def files_abs_def)
  have id: "recursive_path c (rj_id j) = p" if "p \<in> set ?ps" "?f p = Some j" for p j
    using that k at ps by (metis keyed_def)
  have set: "set ?js = ran (snd (file_abs c fs))"
  proof -
    have "j \<in> set ?js \<longleftrightarrow> (\<exists>u. snd (file_abs c fs) u = Some j)" for j
    proof
      assume "j \<in> set ?js"
      then obtain p where "p \<in> set ?ps" "?f p = Some j" by (auto simp: set_map_filter)
      then show "\<exists>u. snd (file_abs c fs) u = Some j" using ps at by metis
    next
      assume "\<exists>u. snd (file_abs c fs) u = Some j"
      then obtain u where u: "?f (recursive_path c u) = Some j" using at by metis
      then have "recursive_path c u \<in> set ?ps" using ps by (auto simp: bind_eq_Some_conv)
      then show "j \<in> set ?js" using u by (force simp: set_map_filter)
    qed
    then show ?thesis by (auto simp: ran_def)
  qed
  have "distinct (List.map_filter (\<lambda>p. map_option rj_id (?f p)) ?ps)"
  proof (rule distinct_map_filter [where key = id and g = "recursive_path c"])
    show "distinct (map id ?ps)" using d by simp
    show "id p = recursive_path c u" if "p \<in> set ?ps" "map_option rj_id (?f p) = Some u" for p u
      using id [OF that(1)] that(2) by auto
  qed
  moreover have "map rj_id (List.map_filter ?f qs) = List.map_filter (\<lambda>p. map_option rj_id (?f p)) qs" for qs
    by (induction qs) (auto simp: List.map_filter_simps split: option.split)
  ultimately have dist: "distinct (map rj_id ?js)" by simp
  have "distinct (map rj_id (sort_key g ?js))" for g :: "tracked_recursive_job \<Rightarrow> int"
    using dist by (simp add: distinct_map)
  then show ?thesis
    using set nf by (intro exI [of _ "sort_key (\<lambda>j. - rj_created_at j) ?js"])
      (simp add: file_load_recursive_jobs_def io_bind_def lift_io_def io_step_clean [OF nf] load_jobs_each_clean [OF nf])
qed

text \<open>C5. The file back end and the in-memory one are observationally equal: after the same
  operations on empty storages, with no I/O error, every load gives the same result. The loads of
  one download return equal values; \<open>load_all\<close> returns each saved download once, in an order that
  neither back end fixes; \<open>load_all_runtime_metadata\<close> returns equal maps; \<open>load_recursive_jobs\<close>
  returns each saved job once, from the file back end the newest first. What is saved must be
  serialisable (a status with a path that is not UTF-8 is refused by the file back end only).\<close>

theorem storages_agree:
  assumes "codec_ok c" and "list_all (storable_op c) es" and "fs = run_ops (file_step c) file_new es"
    and "m = run_ops memory_step memory_new es"
  shows "snd (file_load_download c i fs) = Inr (memory_load_download m i)
    \<and> snd (file_load_segments c i fs) = Inr (memory_load_segments m i)
    \<and> snd (file_load_torrent_data c i fs) = Inr (memory_load_torrent_data m i)
    \<and> snd (file_load_runtime_metadata c i fs) = Inr (memory_load_runtime_metadata m i)
    \<and> (\<exists>sts. snd (file_load_all c fs) = Inr sts \<and> distinct (map ds_id sts) \<and> set sts = memory_load_all m)
    \<and> snd (file_load_all_runtime_metadata c fs) = Inr (memory_load_all_runtime_metadata m)
    \<and> (\<exists>js. snd (file_load_recursive_jobs c fs) = Inr js \<and> distinct (map rj_id js)
          \<and> sorted (map (\<lambda>j. - rj_created_at j) js) \<and> set js = memory_load_recursive_jobs m)"
proof -
  have run: "file_state c fs" "file_abs c fs = run_ops store_step empty_store es"
    using files.run_refines [OF file_state_new [OF assms(1)] assms(2), folded assms(3)] by simp_all
  have mem: "file_abs c fs = memory_abs m"
    using run(2) memory.run_refines [where s = memory_new and es = es] by (simp add: assms(4) list_all_iff)
  have k: "keyed (file_abs c fs)" unfolding run(2) by (rule keyed_run) simp
  have inv: "file_inv c fs" "fs_fault fs = None" using run(1) by (simp_all add: file_state_def)
  have one: "snd (file_load_download c i fs) = Inr (memory_load_download m i)"
    "snd (file_load_segments c i fs) = Inr (memory_load_segments m i)"
    "snd (file_load_torrent_data c i fs) = Inr (memory_load_torrent_data m i)"
    "snd (file_load_runtime_metadata c i fs) = Inr (memory_load_runtime_metadata m i)"
    by (simp_all add: loads_clean [OF inv] mem) (simp_all add: memory_abs_def)
  have "\<exists>sts. snd (file_load_all c fs) = Inr sts \<and> distinct (map ds_id sts) \<and> set sts = memory_load_all m"
    using load_all_clean [OF run(1) k] by (auto simp: memory_load_all_abs mem)
  moreover have "snd (file_load_all_runtime_metadata c fs) = Inr (memory_load_all_runtime_metadata m)"
    by (simp add: load_all_metadata_clean [OF run(1)] memory_load_collections_abs mem)
  moreover have "\<exists>js. snd (file_load_recursive_jobs c fs) = Inr js \<and> distinct (map rj_id js)
      \<and> sorted (map (\<lambda>j. - rj_created_at j) js) \<and> set js = memory_load_recursive_jobs m"
    using load_jobs_clean [OF run(1) k] by (auto simp: memory_load_collections_abs mem)
  ultimately show ?thesis using one by blast
qed

section \<open>A codec\<close>

text \<open>File contents as the values themselves, save for statuses with a certain path, which are refused:
  the hypotheses can hold.\<close>

datatype plain_content =
    PlainRecord download_record | PlainJob tracked_recursive_job | PlainBytes bytes

definition plain_codec :: "plain_content file_codec" where
  "plain_codec =
    \<lparr>fc_uuid_text = (\<lambda>u. CHR ''u'' # hex_encode u),
     fc_uuid_parse = (\<lambda>s. hex_decode (tl s)),
     fc_encode = (\<lambda>r. case dr_status r of Some st \<Rightarrow> if dm_save_dir (ds_metadata st) = ''?'' then None else Some (PlainRecord r) | None \<Rightarrow> Some (PlainRecord r)),
     fc_decode = (\<lambda>x. case x of PlainRecord r \<Rightarrow> Some r | _ \<Rightarrow> None),
     fc_encode_job = Some \<circ> PlainJob,
     fc_decode_job = (\<lambda>x. case x of PlainJob j \<Rightarrow> Some j | _ \<Rightarrow> None),
     fc_raw = PlainBytes,
     fc_bytes = (\<lambda>x. case x of PlainBytes b \<Rightarrow> b | _ \<Rightarrow> []),
     fc_empty = PlainBytes [],
     fc_prefix = (\<lambda>_ _. PlainBytes [])\<rparr>"

lemma plain_codec_ok: "codec_ok plain_codec"
  by (auto simp: codec_ok_def plain_codec_def storable_def default_record_def recursive_prefix_def starts_with_def
      split: option.splits if_splits)

definition one_download :: "storage_op list" where
  "one_download =
    [SaveDownload (bare_status (DownloadId [1]) Paused),
     SaveSegments (DownloadId [1]) [segment_new 0 0 9],
     SaveTorrentData (DownloadId [1]) [42],
     DeleteDownload (DownloadId [2])]"

lemma storages_agree_witness:
  "snd (file_load_segments plain_codec (DownloadId [1])
      (run_ops (file_step plain_codec) file_new one_download)) = Inr [segment_new 0 0 9]"
proof -
  have "list_all (storable_op plain_codec) one_download"
    by (simp add: one_download_def storable_def plain_codec_def bare_status_def)
  from storages_agree [OF plain_codec_ok this refl refl, of "DownloadId [1]"] show ?thesis
    by (simp add: one_download_def memory_defs memory_new_def bare_status_def)
qed

text \<open>A deletion cut short after its first step.\<close>

lemma file_ops_atomic_witness:
  "let (fs', r) = file_run plain_codec (DeleteDownload (DownloadId [1]))
         \<lparr>fs_files = [(record_path plain_codec (DownloadId [1]), PlainRecord default_record)], fs_fault = Some (0, 0)\<rparr>
   in files_ok plain_codec (lookup fs')"
proof -
  let ?fs = "\<lparr>fs_files = [(record_path plain_codec (DownloadId [1]), PlainRecord default_record)], fs_fault = Some (0, 0)\<rparr>"
  have ok: "files_ok plain_codec (lookup ?fs)"
    by (auto simp: files_ok_def lookup_def plain_codec_def)
  obtain fs' r where run: "file_run plain_codec (DeleteDownload (DownloadId [1])) ?fs = (fs', r)"
    by (metis surj_pair)
  from file_ops_atomic [OF plain_codec_ok ok run] show ?thesis unfolding run by simp
qed

end
