(* ===== verification/Mirror.thy ===== *)
theory Mirror
  imports Errors Codec
begin

text \<open>
  The mirror manager of \<open>src/http/mirror.rs\<close> and the failover loop of the HTTP task in
  \<open>src/engine.rs\<close> that drives it. A manager is the record of its fields; every operation
  takes and returns it. Indexing \<open>urls\<close> or \<open>failure_counts\<close> out of range panics in the code;
  the invariant \<open>mm_inv\<close> shows that no index leaves the range. URLs that are returned are
  returned as strings, not as borrowed slices.
\<close>

section \<open>The manager\<close>

record mirror_manager =
  mm_urls :: "string list"
  mm_current :: nat
  mm_failed :: "nat list"
  mm_counts :: "nat list"
  mm_max_failures :: nat

definition mirrors_new :: "string \<Rightarrow> string list \<Rightarrow> mirror_manager" where
  "mirrors_new primary_url mirrors =
    (let urls = primary_url # mirrors in
     \<lparr>mm_urls = urls, mm_current = 0, mm_failed = [], mm_counts = replicate (length urls) 0,
      mm_max_failures = 3\<rparr>)"

definition mirrors_single :: "string \<Rightarrow> mirror_manager" where
  "mirrors_single url = mirrors_new url []"

definition current_url :: "mirror_manager \<Rightarrow> string" where
  "current_url m = mm_urls m ! mm_current m"

definition available_urls :: "mirror_manager \<Rightarrow> string list" where
  "available_urls m =
    map snd (filter (\<lambda>(i, _). i \<notin> set (mm_failed m)) (enumerate 0 (mm_urls m)))"

definition url_for_segment :: "mirror_manager \<Rightarrow> nat \<Rightarrow> string" where
  "url_for_segment m segment_idx =
    (let available = available_urls m in
     if available = [] then current_url m else available ! (segment_idx mod length available))"

definition has_available :: "mirror_manager \<Rightarrow> bool" where
  "has_available m \<longleftrightarrow> length (mm_failed m) < length (mm_urls m)"

definition available_count :: "mirror_manager \<Rightarrow> nat" where
  "available_count m = length (mm_urls m) - length (mm_failed m)"

definition switch_to_next :: "mirror_manager \<Rightarrow> mirror_manager \<times> string option" where
  "switch_to_next m =
    (let n = length (mm_urls m) in
     case find (\<lambda>idx. idx \<notin> set (mm_failed m)) (map (\<lambda>offset. (mm_current m + offset) mod n) [1..<n]) of
       None \<Rightarrow> (m, None)
     | Some idx \<Rightarrow> (m\<lparr>mm_current := idx\<rparr>, Some (mm_urls m ! idx)))"

text \<open>The common part of the two failure reports: count, and mark dead at the limit.\<close>

definition count_failure :: "mirror_manager \<Rightarrow> nat \<Rightarrow> mirror_manager" where
  "count_failure m idx =
    (let counts = (mm_counts m)[idx := u32 (mm_counts m ! idx + 1)];
         m = m\<lparr>mm_counts := counts\<rparr> in
     if mm_max_failures m \<le> counts ! idx \<and> idx \<notin> set (mm_failed m)
     then m\<lparr>mm_failed := mm_failed m @ [idx]\<rparr> else m)"

definition report_failure :: "mirror_manager \<Rightarrow> mirror_manager \<times> string option" where
  "report_failure m = switch_to_next (count_failure m (mm_current m))"

definition report_url_failure :: "mirror_manager \<Rightarrow> string \<Rightarrow> mirror_manager \<times> string option" where
  "report_url_failure m url =
    (case position_of (\<lambda>u. u = url) (mm_urls m) of
       None \<Rightarrow> (m, Some (current_url m))
     | Some idx \<Rightarrow>
         (let m = count_failure m idx in
          if mm_current m = idx then switch_to_next m else (m, Some (current_url m))))"

definition failover_from :: "mirror_manager \<Rightarrow> string \<Rightarrow> mirror_manager \<times> string option" where
  "failover_from m url =
    (case position_of (\<lambda>candidate. candidate = url) (mm_urls m) of
       None \<Rightarrow> (m, None)
     | Some idx \<Rightarrow>
         (let m = (if idx \<in> set (mm_failed m) then m else m\<lparr>mm_failed := mm_failed m @ [idx]\<rparr>) in
          if mm_current m = idx then switch_to_next m else (m, Some (current_url m))))"

definition report_success :: "mirror_manager \<Rightarrow> mirror_manager" where
  "report_success m = m\<lparr>mm_counts := (mm_counts m)[mm_current m := 0]\<rparr>"

definition mirrors_reset :: "mirror_manager \<Rightarrow> mirror_manager" where
  "mirrors_reset m =
    m\<lparr>mm_failed := [], mm_counts := replicate (length (mm_urls m)) 0, mm_current := 0\<rparr>"

definition all_urls :: "mirror_manager \<Rightarrow> string list" where
  "all_urls m = mm_urls m"

section \<open>The invariant\<close>

text \<open>
  Every index is in range, the dead URLs are distinct, a URL whose count reached the limit is
  dead, and the counts fit their \<open>u32\<close>.
\<close>

definition mm_inv :: "mirror_manager \<Rightarrow> bool" where
  "mm_inv m \<longleftrightarrow>
    mm_current m < length (mm_urls m)
    \<and> length (mm_counts m) = length (mm_urls m)
    \<and> distinct (mm_failed m) \<and> (\<forall>i \<in> set (mm_failed m). i < length (mm_urls m))"

definition alive :: "mirror_manager \<Rightarrow> nat set" where
  "alive m = {i. i < length (mm_urls m) \<and> i \<notin> set (mm_failed m)}"

lemma mm_inv_new [simp]: "mm_inv (mirrors_new p ms)"
  by (simp add: mm_inv_def mirrors_new_def)

lemma alive_new [simp]: "alive (mirrors_new p ms) = {..<Suc (length ms)}"
  by (auto simp: alive_def mirrors_new_def)

lemma find_Some_mem: "find P xs = Some x \<Longrightarrow> x \<in> set xs \<and> P x"
  by (auto simp: find_Some_iff)

lemma switch_some:
  assumes "mm_inv m" and "switch_to_next m = (m', Some u)"
  shows "\<exists>idx. idx \<in> alive m \<and> idx \<noteq> mm_current m \<and> m' = m\<lparr>mm_current := idx\<rparr> \<and> u = mm_urls m ! idx"
proof -
  let ?n = "length (mm_urls m)"
  obtain idx where f: "find (\<lambda>idx. idx \<notin> set (mm_failed m))
      (map (\<lambda>offset. (mm_current m + offset) mod ?n) [1..<?n]) = Some idx"
    and m': "m' = m\<lparr>mm_current := idx\<rparr>" "u = mm_urls m ! idx"
    using assms(2) by (auto simp: switch_to_next_def Let_def split: option.splits)
  from find_Some_mem [OF f] obtain d where d: "1 \<le> d" "d < ?n" "idx = (mm_current m + d) mod ?n"
    and nf: "idx \<notin> set (mm_failed m)" by auto
  have cur: "mm_current m < ?n" using assms(1) by (simp add: mm_inv_def)
  have "idx \<noteq> mm_current m"
  proof
    assume "idx = mm_current m"
    then have "(mm_current m + d) mod ?n = mm_current m" using d(3) by simp
    then show False using cur d(1,2)
      by (cases "mm_current m + d < ?n") (simp_all add: le_mod_geq)
  qed
  moreover have "idx < ?n" unfolding d(3) using cur by (intro mod_less_divisor) linarith
  ultimately show ?thesis using m' nf by (auto simp: alive_def)
qed

lemma switch_none:
  assumes "mm_inv m" and "switch_to_next m = (m', None)"
  shows "m' = m \<and> alive m \<subseteq> {mm_current m}"
proof -
  let ?n = "length (mm_urls m)"
  have cur: "mm_current m < ?n" using assms(1) by (simp add: mm_inv_def)
  have f: "find (\<lambda>idx. idx \<notin> set (mm_failed m))
      (map (\<lambda>offset. (mm_current m + offset) mod ?n) [1..<?n]) = None" and "m' = m"
    using assms(2) by (auto simp: switch_to_next_def Let_def split: option.splits)
  have dead: "(mm_current m + d) mod ?n \<in> set (mm_failed m)" if "1 \<le> d" "d < ?n" for d
    using f that by (auto simp: find_None_iff)
  have "i \<in> set (mm_failed m)" if "i < ?n" "i \<noteq> mm_current m" for i
  proof (cases "mm_current m < i")
    case True
    with dead [of "i - mm_current m"] that show ?thesis by simp
  next
    case False
    with dead [of "?n - (mm_current m - i)"] that cur show ?thesis by simp
  qed
  then show ?thesis using \<open>m' = m\<close> by (auto simp: alive_def)
qed

lemma switch_fields:
  "switch_to_next m = (m', r) \<Longrightarrow>
    mm_urls m' = mm_urls m \<and> mm_failed m' = mm_failed m \<and> mm_counts m' = mm_counts m
    \<and> mm_max_failures m' = mm_max_failures m"
  by (auto simp: switch_to_next_def Let_def split: option.splits)

lemma mm_inv_switch [intro]: "mm_inv m \<Longrightarrow> mm_inv (fst (switch_to_next m))"
proof (cases "switch_to_next m")
  case (Pair m' r)
  assume inv: "mm_inv m"
  show ?thesis
  proof (cases r)
    case None
    then show ?thesis using switch_none [OF inv] Pair inv by simp
  next
    case (Some u)
    then show ?thesis using switch_some [OF inv] Pair inv by (auto simp: mm_inv_def alive_def)
  qed
qed

lemma count_failure_fields [simp]:
  "mm_urls (count_failure m i) = mm_urls m" "mm_current (count_failure m i) = mm_current m"
  "mm_max_failures (count_failure m i) = mm_max_failures m"
  by (simp_all add: count_failure_def Let_def)

lemma mm_inv_count [intro]: "mm_inv m \<Longrightarrow> i < length (mm_urls m) \<Longrightarrow> mm_inv (count_failure m i)"
  by (auto simp: mm_inv_def count_failure_def Let_def)

lemma position_lt: "position_of P xs = Some i \<Longrightarrow> i < length xs"
  using position_of_nth by blast

datatype mirror_op =
    MReport | MReportUrl string | MFailover string | MSuccess | MReset

fun mm_step :: "mirror_manager \<Rightarrow> mirror_op \<Rightarrow> mirror_manager" where
  "mm_step m MReport = fst (report_failure m)"
| "mm_step m (MReportUrl u) = fst (report_url_failure m u)"
| "mm_step m (MFailover u) = fst (failover_from m u)"
| "mm_step m MSuccess = report_success m"
| "mm_step m MReset = mirrors_reset m"

lemma mm_inv_fail [intro]:
  "mm_inv m \<Longrightarrow> i < length (mm_urls m) \<Longrightarrow> i \<notin> set (mm_failed m) \<Longrightarrow>
    mm_inv (m\<lparr>mm_failed := mm_failed m @ [i]\<rparr>)"
  by (auto simp: mm_inv_def)

lemma mm_inv_step: "mm_inv m \<Longrightarrow> mm_inv (mm_step m e)"
proof (cases e)
  case MReport
  assume "mm_inv m"
  then have "mm_inv (count_failure m (mm_current m))"
    by (intro mm_inv_count) (simp_all add: mm_inv_def)
  then show ?thesis using MReport by (auto simp: report_failure_def)
next
  case (MReportUrl u)
  assume "mm_inv m"
  then show ?thesis using MReportUrl
    by (auto simp: report_url_failure_def Let_def dest: position_lt split: option.splits)
next
  case (MFailover u)
  assume "mm_inv m"
  then show ?thesis using MFailover
    by (auto simp: failover_from_def Let_def dest: position_lt split: option.splits)
next
  case MSuccess
  assume "mm_inv m"
  then show ?thesis using MSuccess by (simp add: report_success_def mm_inv_def)
next
  case MReset
  assume "mm_inv m"
  then show ?thesis using MReset by (auto simp: mirrors_reset_def mm_inv_def)
qed

interpretation mirrors: guarded_system mm_step "\<lambda>_ _. True" mm_inv
  by unfold_locales (rule mm_inv_step)

section \<open>Choosing a URL\<close>

lemma available_urls_iff:
  "u \<in> set (available_urls m) \<longleftrightarrow> (\<exists>i \<in> alive m. u = mm_urls m ! i)"
  by (force simp: available_urls_def alive_def in_set_enumerate_eq)

lemma available_empty_iff: "available_urls m = [] \<longleftrightarrow> alive m = {}"
  using available_urls_iff [of _ m] by (metis all_not_in_conv list.set_intros(1) neq_Nil_conv set_empty)

lemma card_alive:
  assumes "mm_inv m"
  shows "card (alive m) = available_count m"
proof -
  have "alive m = {..<length (mm_urls m)} - set (mm_failed m)" by (auto simp: alive_def)
  moreover have "set (mm_failed m) \<subseteq> {..<length (mm_urls m)}" using assms by (auto simp: mm_inv_def)
  moreover have "card (set (mm_failed m)) = length (mm_failed m)"
    using assms by (simp add: mm_inv_def distinct_card)
  ultimately show ?thesis by (simp add: card_Diff_subset available_count_def)
qed

lemma has_available_iff:
  assumes "mm_inv m"
  shows "has_available m \<longleftrightarrow> alive m \<noteq> {}"
proof -
  have "finite (alive m)" by (simp add: alive_def)
  then have "alive m \<noteq> {} \<longleftrightarrow> 0 < card (alive m)" by (simp add: card_gt_0_iff)
  then show ?thesis by (auto simp: card_alive [OF assms] available_count_def has_available_def)
qed

lemma range_url_for_segment:
  "range (url_for_segment m) =
    (if alive m = {} then {current_url m} else (!) (mm_urls m) ` alive m)"
proof (cases "alive m = {}")
  case True
  then show ?thesis by (auto simp: url_for_segment_def available_empty_iff [symmetric])
next
  case False
  then have ne: "available_urls m \<noteq> []" by (simp add: available_empty_iff)
  have "url_for_segment m i = available_urls m ! i" if "i < length (available_urls m)" for i
    using that ne by (simp add: url_for_segment_def)
  then have "set (available_urls m) \<subseteq> range (url_for_segment m)"
    by (metis in_set_conv_nth rangeI subsetI)
  moreover have "range (url_for_segment m) \<subseteq> set (available_urls m)"
    using ne by (auto simp: url_for_segment_def Let_def)
  ultimately have "range (url_for_segment m) = set (available_urls m)" by blast
  also have "\<dots> = (!) (mm_urls m) ` alive m" using available_urls_iff [of _ m] by blast
  finally show ?thesis using False by simp
qed

text \<open>After any sequence of reports, failovers, successes and resets, \<open>has_available\<close> tells
  whether some URL is not marked dead, and the segments of a download are sent to exactly the
  URLs that are not; only when all are dead do they fall back to the current one.\<close>

theorem segment_urls_alive:
  "let m = run_ops mm_step (mirrors_new primary_url mirrors) ops in
     has_available m = (alive m \<noteq> {})
     \<and> available_count m = card (alive m)
     \<and> range (url_for_segment m)
        = (if alive m = {} then {current_url m} else (!) (mm_urls m) ` alive m)"
proof -
  have "mm_inv (run_ops mm_step (mirrors_new primary_url mirrors) ops)"
    by (rule mirrors.inv_run) (simp_all add: ops_ok_True)
  then show ?thesis by (simp add: Let_def has_available_iff card_alive range_url_for_segment)
qed

section \<open>The failover loop of a download\<close>

text \<open>
  The loop of the HTTP task in \<open>engine.rs\<close>. One attempt to download from a URL is a parameter;
  it may report to the shared manager. The fuel counts attempts.
\<close>

fun failover_loop ::
  "(mirror_manager \<Rightarrow> string \<Rightarrow> mirror_manager \<times> 'a result) \<Rightarrow> nat \<Rightarrow> mirror_manager \<Rightarrow> string
    \<Rightarrow> (mirror_manager \<times> 'a result) option"
where
  "failover_loop attempt 0 m active_url = None"
| "failover_loop attempt (Suc n) m active_url =
    (case attempt m active_url of
       (m, Inr result) \<Rightarrow> Some (m, Inr result)
     | (m, Inl err) \<Rightarrow>
         (case failover_from m active_url of
            (m, Some next_url) \<Rightarrow>
              if next_url \<noteq> active_url then failover_loop attempt n m next_url
              else Some (m, Inl err)
          | (m, None) \<Rightarrow> Some (m, Inl err)))"

definition download_with_mirrors ::
  "(mirror_manager \<Rightarrow> string \<Rightarrow> mirror_manager \<times> 'a result) \<Rightarrow> nat \<Rightarrow> string \<Rightarrow> string list
    \<Rightarrow> (mirror_manager \<times> 'a result) option"
where
  "download_with_mirrors attempt fuel url mirrors =
    (let m = mirrors_new url mirrors in failover_loop attempt fuel m (current_url m))"

text \<open>The reference: the URLs in order, up to the first success; else the last error.\<close>

fun first_success :: "('u \<Rightarrow> 'a result) \<Rightarrow> 'u list \<Rightarrow> 'a result" where
  "first_success dl [] = Inl EShutdown"
| "first_success dl [u] = dl u"
| "first_success dl (u # us) = (case dl u of Inr x \<Rightarrow> Inr x | Inl _ \<Rightarrow> first_success dl us)"

definition at_url :: "string list \<Rightarrow> nat \<Rightarrow> mirror_manager \<Rightarrow> bool" where
  "at_url us k m \<longleftrightarrow> mm_urls m = us \<and> mm_current m = k \<and> mm_failed m = [0..<k]"

lemma position_of_distinct:
  "distinct us \<Longrightarrow> k < length us \<Longrightarrow> position_of (\<lambda>u. u = us ! k) us = Some k"
proof -
  assume d: "distinct us" and k: "k < length us"
  have "us = take k us @ us ! k # drop (Suc k) us" using k by (rule id_take_nth_drop)
  moreover have "\<forall>x \<in> set (take k us). \<not> x = us ! k"
    using d k by (auto simp: in_set_conv_nth nth_eq_iff_index_eq)
  ultimately show ?thesis
    using position_of_append [of "take k us" "\<lambda>u. u = us ! k" "us ! k" "drop (Suc k) us"] k by simp
qed

lemma failover_next:
  assumes "at_url us k m" and "distinct us" and "Suc k < length us"
  shows "\<exists>m'. failover_from m (us ! k) = (m', Some (us ! Suc k)) \<and> at_url us (Suc k) m'"
proof -
  have "[1..<length us] = 1 # [2..<length us]" using assms(3) by (simp add: upt_conv_Cons numeral_2_eq_2)
  then have "switch_to_next (m\<lparr>mm_failed := [0..<k] @ [k]\<rparr>)
      = (m\<lparr>mm_failed := [0..<k] @ [k], mm_current := Suc k\<rparr>, Some (us ! Suc k))"
    using assms by (simp add: switch_to_next_def at_url_def Let_def)
  then show ?thesis
    using assms by (simp add: failover_from_def at_url_def position_of_distinct Let_def)
qed

lemma failover_last:
  assumes "at_url us k m" and "distinct us" and "Suc k = length us"
  shows "\<exists>m'. failover_from m (us ! k) = (m', None)"
proof -
  have "find (\<lambda>idx. idx \<notin> set ([0..<k] @ [k]))
      (map (\<lambda>offset. (k + offset) mod length us) [1..<length us]) = None"
  proof -
    have s: "set ([0..<k] @ [k]) = {..<length us}" using assms(3) by auto
    have "(k + d) mod length us < length us" for d
      by (rule mod_less_divisor) (use assms(3) in linarith)
    then show ?thesis unfolding s by (auto simp: find_None_iff)
  qed
  then have "switch_to_next (m\<lparr>mm_failed := [0..<k] @ [k]\<rparr>)
      = (m\<lparr>mm_failed := [0..<k] @ [k]\<rparr>, None)"
    using assms by (simp add: switch_to_next_def at_url_def Let_def)
  then show ?thesis
    using assms by (simp add: failover_from_def at_url_def position_of_distinct Let_def)
qed

lemma failover_loop_from:
  assumes dl: "\<And>m u. attempt m u = (m, dl u)" and d: "distinct us"
  shows "at_url us k m \<Longrightarrow> k < length us \<Longrightarrow> length us - k \<le> n \<Longrightarrow>
    \<exists>m'. failover_loop attempt n m (us ! k) = Some (m', first_success dl (drop k us))"
proof (induction n arbitrary: k m)
  case 0
  then show ?case by simp
next
  case (Suc n)
  have drop: "drop k us = us ! k # drop (Suc k) us" using Suc.prems(2) by (simp add: Cons_nth_drop_Suc)
  show ?case
  proof (cases "dl (us ! k)")
    case (Inr x)
    then show ?thesis by (cases "drop (Suc k) us") (simp_all add: dl drop)
  next
    case (Inl e)
    show ?thesis
    proof (cases "Suc k < length us")
      case True
      obtain m' where m': "failover_from m (us ! k) = (m', Some (us ! Suc k))" "at_url us (Suc k) m'"
        using failover_next [OF Suc.prems(1) d True] by blast
      have ne: "us ! Suc k \<noteq> us ! k" using d True by (simp add: nth_eq_iff_index_eq)
      have "first_success dl (drop k us) = first_success dl (drop (Suc k) us)"
        using Inl True by (cases "drop (Suc k) us") (simp_all add: drop)
      then show ?thesis
        using Suc.IH [OF m'(2) True] Suc.prems(3) m'(1) ne Inl by (simp add: dl)
    next
      case False
      then have "Suc k = length us" using Suc.prems(2) by simp
      with failover_last [OF Suc.prems(1) d] show ?thesis using Inl drop by (auto simp: dl)
    qed
  qed
qed

subsection \<open>Attempts that report to the manager\<close>

text \<open>
  An attempt runs segment tasks that share the manager: they ask it for URLs and report URLs whose
  requests fail. \<open>reporting att\<close> is an attempt that reports the list \<open>fst (att m url)\<close>, one after
  another, and ends with \<open>snd (att m url)\<close>. \<open>attempt_log\<close> lists the attempts that the loop makes:
  the URL, the URLs reported, the result.
\<close>

definition report_all :: "string list \<Rightarrow> mirror_manager \<Rightarrow> mirror_manager" where
  "report_all reports m = foldl (\<lambda>m url. fst (report_url_failure m url)) m reports"

definition reporting ::
  "(mirror_manager \<Rightarrow> string \<Rightarrow> string list \<times> 'a result) \<Rightarrow> mirror_manager \<Rightarrow> string \<Rightarrow> mirror_manager \<times> 'a result"
where
  "reporting att m url = (report_all (fst (att m url)) m, snd (att m url))"

fun attempt_log ::
  "(mirror_manager \<Rightarrow> string \<Rightarrow> string list \<times> 'a result) \<Rightarrow> nat \<Rightarrow> mirror_manager \<Rightarrow> string
    \<Rightarrow> (string \<times> string list \<times> 'a result) list"
where
  "attempt_log att 0 m url = []"
| "attempt_log att (Suc n) m url =
    (url, att m url) #
    (case snd (att m url) of
       Inr _ \<Rightarrow> []
     | Inl _ \<Rightarrow>
         (case failover_from (report_all (fst (att m url)) m) url of
            (m, Some next_url) \<Rightarrow> if next_url \<noteq> url then attempt_log att n m next_url else []
          | (m, None) \<Rightarrow> []))"

definition reports_of :: "(string \<times> string list \<times> 'a result) list \<Rightarrow> string list" where
  "reports_of log = concat (map (fst \<circ> snd) log)"

text \<open>After attempts on the URLs with index in \<open>T\<close> and the reports \<open>R\<close>: these URLs are dead, every
  other dead one was reported three times, and the current one was not attempted.\<close>

definition mirrors_after :: "string list \<Rightarrow> nat set \<Rightarrow> string list \<Rightarrow> mirror_manager \<Rightarrow> bool" where
  "mirrors_after us T R m \<longleftrightarrow>
    mm_inv m \<and> mm_urls m = us \<and> mm_max_failures m = 3
    \<and> T \<subseteq> set (mm_failed m) \<and> mm_current m \<notin> T
    \<and> (\<forall>i \<in> set (mm_failed m). i \<in> T \<or> 3 \<le> count_list R (us ! i))
    \<and> (\<forall>i < length us. mm_counts m ! i \<le> count_list R (us ! i))"

definition settled :: "mirror_manager \<Rightarrow> bool" where
  "settled m \<longleftrightarrow> mm_current m \<in> alive m \<or> alive m = {}"

lemma after_switch:
  assumes a: "mirrors_after us T R m" and r: "switch_to_next m = (m', r)"
  shows "mirrors_after us T R m' \<and> (mm_current m \<in> set (mm_failed m) \<longrightarrow> settled m')
    \<and> (r = None \<longrightarrow> m' = m) \<and> (\<forall>u. r = Some u \<longrightarrow> u = current_url m' \<and> settled m')"
proof (cases r)
  case None
  then have "m' = m" "alive m \<subseteq> {mm_current m}"
    using switch_none [of m m'] a r by (simp_all add: mirrors_after_def)
  then show ?thesis using a None by (auto simp: settled_def alive_def)
next
  case (Some u)
  then obtain idx where idx: "idx \<in> alive m" "m' = m\<lparr>mm_current := idx\<rparr>" "u = mm_urls m ! idx"
    using switch_some [of m m' u] a r by (auto simp: mirrors_after_def)
  then have "idx \<notin> T" "idx < length (mm_urls m)" using a by (auto simp: mirrors_after_def alive_def)
  moreover have "alive m' = alive m" using idx(2) by (simp add: alive_def)
  ultimately show ?thesis
    using a idx Some by (auto simp: mirrors_after_def mm_inv_def settled_def current_url_def alive_def)
qed

lemma after_more_reports: "mirrors_after us T R m \<Longrightarrow> mirrors_after us T (R @ [v]) m"
  by (auto simp: mirrors_after_def intro: trans_le_add1)

lemma after_count:
  assumes a: "mirrors_after us T R m" and i: "i < length us" and v: "us ! i = v"
  shows "mirrors_after us T (R @ [v]) (count_failure m i)"
proof -
  let ?c = "u32 (mm_counts m ! i + 1)"
  have len: "length (mm_counts m) = length us" using a by (simp add: mirrors_after_def mm_inv_def)
  have le: "?c \<le> count_list (R @ [v]) v"
    using a i v unfolding u32_def mirrors_after_def
    by (intro le_trans [OF mod_less_eq_dividend]) auto
  have "mm_inv (count_failure m i)" using a i by (intro mm_inv_count) (simp_all add: mirrors_after_def)
  then show ?thesis
    using a i v le len
    by (auto simp: mirrors_after_def count_failure_def Let_def nth_list_update intro: trans_le_add1)
qed

lemma after_report:
  assumes a: "mirrors_after us T R m" and s: "settled m"
  shows "mirrors_after us T (R @ [v]) (fst (report_url_failure m v)) \<and> settled (fst (report_url_failure m v))"
proof (cases "position_of (\<lambda>u. u = v) (mm_urls m)")
  case None
  then show ?thesis using a s by (simp add: report_url_failure_def after_more_reports)
next
  case (Some i)
  have us: "mm_urls m = us" using a by (simp add: mirrors_after_def)
  have i: "i < length us" "us ! i = v" using position_of_nth [OF Some] us by auto
  let ?m = "count_failure m i"
  have c: "mirrors_after us T (R @ [v]) ?m" by (rule after_count [OF a i])
  show ?thesis
  proof (cases "mm_current m = i")
    case True
    obtain m' r where sw: "switch_to_next ?m = (m', r)" by fastforce
    have "settled m'"
    proof (cases r)
      case None
      then have "m' = ?m" "alive ?m \<subseteq> {mm_current ?m}"
        using switch_none [of ?m m'] c sw by (simp_all add: mirrors_after_def)
      then show ?thesis by (auto simp: settled_def)
    next
      case (Some u)
      then show ?thesis using after_switch [OF c sw] by blast
    qed
    then show ?thesis using Some True sw after_switch [OF c sw] by (simp add: report_url_failure_def Let_def)
  next
    case False
    have "settled ?m"
      using s False by (auto simp: settled_def alive_def count_failure_def Let_def split: if_splits)
    then show ?thesis using Some False c by (simp add: report_url_failure_def Let_def)
  qed
qed

lemma after_reports:
  "mirrors_after us T R m \<Longrightarrow> settled m \<Longrightarrow>
    mirrors_after us T (R @ rs) (report_all rs m) \<and> settled (report_all rs m)"
proof (induction rs arbitrary: R m)
  case (Cons v rs)
  from Cons.IH [of "R @ [v]"] after_report [OF Cons.prems, of v] show ?case by (simp add: report_all_def)
qed (simp add: report_all_def)

lemma after_failover:
  assumes a: "mirrors_after us T R m" and s: "settled m" and d: "distinct us"
    and k: "k < length us" "k \<notin> T" and r: "failover_from m (us ! k) = (m', r)"
  shows "mirrors_after us (insert k T) R m' \<and> settled m' \<and> r = Some (current_url m') \<and> current_url m' \<noteq> us ! k
      \<or> r = None \<and> (\<forall>i < length us. i \<in> insert k T \<or> 3 \<le> count_list R (us ! i))"
proof -
  have us: "mm_urls m = us" and cur: "mm_current m < length us" using a by (auto simp: mirrors_after_def mm_inv_def)
  let ?m = "if k \<in> set (mm_failed m) then m else m\<lparr>mm_failed := mm_failed m @ [k]\<rparr>"
  have set: "set (mm_failed ?m) = insert k (set (mm_failed m))" by auto
  have f: "mm_urls ?m = us" "mm_current ?m = mm_current m" "mm_counts ?m = mm_counts m" "mm_max_failures ?m = mm_max_failures m"
    using us by simp_all
  have inv: "mm_inv ?m" using a k us by (auto simp: mirrors_after_def mm_inv_def)
  show ?thesis
  proof (cases "mm_current m = k")
    case True
    have fo: "failover_from m (us ! k) = switch_to_next ?m"
      using True d k by (simp add: failover_from_def us position_of_distinct Let_def)
    show ?thesis
    proof (cases r)
      case None
      then have "alive ?m \<subseteq> {k}" using switch_none [OF inv, of m'] fo r f(2) True by simp
      then have "\<forall>i < length us. i \<in> set (mm_failed m) \<or> i = k" using f(1) set by (auto simp: alive_def)
      then show ?thesis using None a by (auto simp: mirrors_after_def)
    next
      case (Some u)
      then obtain idx where idx: "idx \<in> alive ?m" "idx \<noteq> k" "m' = ?m\<lparr>mm_current := idx\<rparr>" "u = us ! idx"
        using switch_some [OF inv, of m' u] fo r f True by auto
      have lt: "idx < length us" "idx \<notin> set (mm_failed m)" using idx(1) f(1) set by (auto simp: alive_def)
      have "mirrors_after us (insert k T) R m'"
        using a k set f inv idx lt by (auto simp: mirrors_after_def mm_inv_def)
      moreover have "settled m'" using idx lt f(1) set by (auto simp: settled_def alive_def)
      moreover have "us ! idx \<noteq> us ! k" using d k lt idx(2) by (simp add: nth_eq_iff_index_eq)
      ultimately show ?thesis using Some idx us by (simp add: current_url_def)
    qed
  next
    case False
    have m': "m' = ?m" "r = Some (current_url ?m)"
      using r False d k by (auto simp: failover_from_def us position_of_distinct Let_def split: if_splits)
    have "mirrors_after us (insert k T) R m'"
      using a k set f inv False by (auto simp: mirrors_after_def m'(1))
    moreover have "settled m'"
      using s False f set us by (auto simp: settled_def alive_def m'(1))
    moreover have "current_url ?m \<noteq> us ! k"
      using d k cur False f by (simp add: current_url_def nth_eq_iff_index_eq)
    ultimately show ?thesis using m' by simp
  qed
qed

text \<open>What the log of the remaining attempts says.\<close>

definition log_ok ::
  "string list \<Rightarrow> nat set \<Rightarrow> string list \<Rightarrow> (string \<times> string list \<times> 'a result) list \<Rightarrow> bool" where
  "log_ok us T R log \<longleftrightarrow>
    log \<noteq> [] \<and> distinct (map fst log) \<and> set (map fst log) \<subseteq> set us - (!) us ` T
    \<and> list_all (\<lambda>(_, _, r). isl r) (butlast log)
    \<and> (isl (snd (snd (last log))) \<longrightarrow>
         (\<forall>i < length us. i \<in> T \<or> us ! i \<in> set (map fst log) \<or> 3 \<le> count_list (R @ reports_of log) (us ! i)))"

lemma failover_loop_log:
  assumes d: "distinct us"
  shows "mirrors_after us T R m \<Longrightarrow> settled m \<Longrightarrow> T \<subseteq> {..<length us} \<Longrightarrow> length us - card T \<le> n \<Longrightarrow>
    log_ok us T R (attempt_log att n m (current_url m))
    \<and> (\<exists>m'. failover_loop (reporting att) n m (current_url m)
          = Some (m', snd (snd (last (attempt_log att n m (current_url m))))))"
proof (induction n arbitrary: T R m)
  case 0
  have cur: "mm_current m < length us" "mm_current m \<notin> T" using "0.prems"(1) by (auto simp: mirrors_after_def mm_inv_def)
  then have "T \<subset> {..<length us}" using "0.prems"(3) by blast
  then have "card T < length us" using psubset_card_mono [of "{..<length us}" T] by simp
  then show ?case using "0.prems"(4) by simp
next
  case (Suc n)
  let ?k = "mm_current m" and ?u = "current_url m"
  have cur: "?k < length us" "?k \<notin> T" and u: "?u = us ! ?k"
    using Suc.prems(1) by (auto simp: mirrors_after_def mm_inv_def current_url_def)
  have fin: "finite T" using Suc.prems(3) finite_subset by blast
  obtain rs r where att: "att m ?u = (rs, r)" by fastforce
  let ?m1 = "report_all rs m"
  have step: "reporting att m ?u = (?m1, r)" by (simp add: reporting_def att)
  have mem: "?u \<in> set us" "?u \<notin> (!) us ` T"
    using cur u d Suc.prems(3) by (auto simp: nth_eq_iff_index_eq subset_iff)
  show ?case
  proof (cases r)
    case (Inr x)
    then show ?thesis using att step mem by (simp add: log_ok_def)
  next
    case (Inl e)
    have m1: "mirrors_after us T (R @ rs) ?m1" "settled ?m1"
      using after_reports [OF Suc.prems(1,2)] by blast+
    obtain m2 v where f: "failover_from ?m1 (us ! ?k) = (m2, v)" by fastforce
    note next_url = after_failover [OF m1 d cur f]
    show ?thesis
    proof (cases v)
      case None
      have "\<forall>i < length us. i \<in> insert ?k T \<or> 3 \<le> count_list (R @ rs) (us ! i)"
        using next_url None by blast
      then show ?thesis using att step mem f None Inl u by (auto simp: log_ok_def reports_of_def)
    next
      case (Some w)
      then have m2: "mirrors_after us (insert ?k T) (R @ rs) m2" "settled m2" "w = current_url m2" "w \<noteq> us ! ?k"
        using next_url by auto
      let ?log = "attempt_log att n m2 (current_url m2)"
      have "log_ok us (insert ?k T) (R @ rs) ?log
          \<and> (\<exists>m'. failover_loop (reporting att) n m2 (current_url m2) = Some (m', snd (snd (last ?log))))"
        using Suc.prems(3,4) cur fin by (intro Suc.IH m2) auto
      then have ok: "log_ok us (insert ?k T) (R @ rs) ?log"
        and loop: "\<exists>m'. failover_loop (reporting att) n m2 (current_url m2) = Some (m', snd (snd (last ?log)))"
        by blast+
      have log: "attempt_log att (Suc n) m ?u = (?u, rs, r) # ?log"
        using att f Some m2(3,4) Inl u by simp
      have "failover_loop (reporting att) (Suc n) m ?u = failover_loop (reporting att) n m2 (current_url m2)"
        using step f Some m2(3,4) Inl u by simp
      moreover have "log_ok us T R ((?u, rs, r) # ?log)"
        using ok mem Inl u cur by (auto simp: log_ok_def reports_of_def)
      moreover have "last ((?u, rs, r) # ?log) = last ?log" using ok by (simp add: log_ok_def)
      ultimately show ?thesis using loop by (simp only: log)
    qed
  qed
qed

text \<open>C10. A download with mirrors, over distinct URLs, while the segment tasks of each attempt report
  failed requests to the shared manager in any way. It makes at most one attempt per URL, starting
  with the primary one; every attempt but the last fails, and the download ends as the last one does.
  It fails only when every URL was attempted or had been reported at least three times, which marks it
  dead. When attempts report nothing, the URLs are tried in order until the first success.\<close>

theorem failover_tries_every_url:
  fixes att :: "mirror_manager \<Rightarrow> string \<Rightarrow> string list \<times> 'a result"
  assumes "distinct (url # mirrors)" and "length (url # mirrors) \<le> fuel"
  defines "log \<equiv> attempt_log att fuel (mirrors_new url mirrors) url"
  shows "map_option snd (download_with_mirrors (reporting att) fuel url mirrors) = Some (snd (snd (last log)))
    \<and> log \<noteq> [] \<and> fst (hd log) = url \<and> distinct (map fst log) \<and> set (map fst log) \<subseteq> set (url # mirrors)
    \<and> list_all (\<lambda>(_, _, r). isl r) (butlast log)
    \<and> (isl (snd (snd (last log))) \<longrightarrow>
         (\<forall>u \<in> set (url # mirrors). u \<in> set (map fst log) \<or> 3 \<le> count_list (reports_of log) u))
    \<and> (\<forall>dl. att = (\<lambda>_ u. ([], dl u)) \<longrightarrow>
         map_option snd (download_with_mirrors (reporting att) fuel url mirrors)
           = Some (first_success dl (url # mirrors)))"
proof -
  let ?us = "url # mirrors" and ?m = "mirrors_new url mirrors"
  have cur: "current_url ?m = url" by (simp add: current_url_def mirrors_new_def)
  have "mirrors_after ?us {} [] ?m" by (simp add: mirrors_after_def) (auto simp: mirrors_new_def nth_Cons split: nat.split)
  moreover have "settled ?m" by (simp add: settled_def) (simp add: mirrors_new_def)
  ultimately have l: "log_ok ?us {} [] log"
    and loop: "\<exists>m'. failover_loop (reporting att) fuel ?m url = Some (m', snd (snd (last log)))"
    using failover_loop_log [OF assms(1), of "{}" "[]" ?m fuel att] assms(2) unfolding cur log_def by auto
  have run: "map_option snd (download_with_mirrors (reporting att) fuel url mirrors) = Some (snd (snd (last log)))"
    using loop by (auto simp: download_with_mirrors_def cur)
  have "fst (hd log) = url" using assms(2) by (cases fuel) (simp_all add: log_def)
  moreover have "map_option snd (download_with_mirrors (reporting att) fuel url mirrors) = Some (first_success dl ?us)"
    if "att = (\<lambda>_ u. ([], dl u))" for dl
  proof -
    have "at_url ?us 0 ?m" by (simp add: at_url_def mirrors_new_def)
    moreover have "reporting att m u = (m, dl u)" for m u by (simp add: that reporting_def report_all_def)
    ultimately show ?thesis
      using failover_loop_from [where attempt = "reporting att" and dl = dl, OF _ assms(1), of 0 ?m fuel] assms(2)
      by (auto simp: download_with_mirrors_def cur)
  qed
  moreover have "\<forall>u \<in> set ?us. u \<in> set (map fst log) \<or> 3 \<le> count_list (reports_of log) u"
    if "isl (snd (snd (last log)))"
  proof
    fix u assume "u \<in> set ?us"
    then obtain i where i: "i < length ?us" "?us ! i = u" by (metis in_set_conv_nth)
    then show "u \<in> set (map fst log) \<or> 3 \<le> count_list (reports_of log) u"
      using l that by (auto simp: log_ok_def simp del: nth_Cons_Suc)
  qed
  ultimately show ?thesis using run l by (simp add: log_ok_def)
qed

definition one_good_mirror :: "mirror_manager \<Rightarrow> string \<Rightarrow> mirror_manager \<times> string result" where
  "one_good_mirror m u = (m, if u = ''c'' then Inr ''data'' else Inl EShutdown)"

text \<open>An attempt during which the mirror \<open>b\<close> is reported three times: it is never attempted itself.\<close>

definition striped_attempt :: "mirror_manager \<Rightarrow> string \<Rightarrow> string list \<times> string result" where
  "striped_attempt m u = (if u = ''a'' then [''b'', ''b'', ''b''] else [], if u = ''c'' then Inr ''data'' else Inl EShutdown)"

lemma failover_tries_every_url_witness:
  "let log = attempt_log striped_attempt 3 (mirrors_new ''a'' [''b'', ''c'']) ''a'' in
   map fst log = [''a'', ''c'']
   \<and> map_option snd (download_with_mirrors (reporting striped_attempt) 3 ''a'' [''b'', ''c'']) = Some (Inr ''data'')"
proof -
  let ?m = "\<lambda>k d n. \<lparr>mm_urls = [''a'', ''b'', ''c''], mm_current = k, mm_failed = d, mm_counts = [0, n, 0], mm_max_failures = 3\<rparr>"
  have new: "mirrors_new ''a'' [''b'', ''c''] = ?m 0 [] 0" by (simp add: mirrors_new_def)
  have rep: "fst (report_url_failure (?m 0 [] 0) ''b'') = ?m 0 [] 1" "fst (report_url_failure (?m 0 [] 1) ''b'') = ?m 0 [] 2"
      "fst (report_url_failure (?m 0 [] 2) ''b'') = ?m 0 [1] 3"
    by (simp_all add: report_url_failure_def count_failure_def Let_def)
  have fail: "failover_from (?m 0 [1] 3) ''a'' = (?m 2 [1, 0] 3, Some ''c'')"
    by (simp add: failover_from_def switch_to_next_def Let_def upt_rec)
  have fuel: "attempt_log striped_attempt 3 m u = attempt_log striped_attempt (Suc (Suc (Suc 0))) m u" for m u
    by (simp only: numeral_3_eq_3)
  have log: "attempt_log striped_attempt 3 (mirrors_new ''a'' [''b'', ''c'']) ''a''
      = [(''a'', [''b'', ''b'', ''b''], Inl EShutdown), (''c'', [], Inr ''data'')]"
    unfolding new fuel by (simp add: striped_attempt_def report_all_def rep [simplified] fail [simplified])
  have d: "distinct (''a'' # [''b'', ''c''])" and l: "length (''a'' # [''b'', ''c'']) \<le> 3" by simp_all
  note r = failover_tries_every_url [OF d l, of striped_attempt, THEN conjunct1, unfolded log]
  show ?thesis unfolding Let_def log r by simp
qed

text \<open>
  With a repeated URL the loop stops early: \<open>failover_from\<close> looks up the first index of the URL,
  so the copy that it switched to is taken for the URL that failed.
\<close>

lemma failover_stops_at_duplicate:
  "map_option snd (download_with_mirrors one_good_mirror (Suc (Suc n)) ''a'' [''a'', ''c''])
    = Some (Inl EShutdown)"
  by (simp add: download_with_mirrors_def mirrors_new_def current_url_def one_good_mirror_def
      failover_from_def switch_to_next_def Let_def upt_rec)

end
