(* ===== verification/HttpResume.thy ===== *)
theory HttpResume
  imports Errors
begin

text \<open>
  Resume detection and the validation of ranged responses (\<open>src/http/resume.rs\<close>). A response
  is its status and the lookup of its headers that are valid strings; the outcome of a request,
  the existence of a file and what its metadata say are arguments. A \<open>StatusCode\<close> is a 16-bit
  word.
\<close>

section \<open>Requests and responses\<close>

type_synonym status_code = "16 word"

record http_response =
  hr_status :: status_code
  hr_header :: "string \<Rightarrow> string option"

definition is_success :: "status_code \<Rightarrow> bool" where
  "is_success s \<longleftrightarrow> 200 \<le> s \<and> s < 300"

definition is_server_error :: "status_code \<Rightarrow> bool" where
  "is_server_error s \<longleftrightarrow> 500 \<le> s \<and> s < 600"

text \<open>\<open>str::contains\<close>.\<close>

fun str_contains :: "string \<Rightarrow> string \<Rightarrow> bool" where
  "str_contains p [] \<longleftrightarrow> p = []"
| "str_contains p (c # s) \<longleftrightarrow> starts_with p (c # s) \<or> str_contains p s"

record partial_file =
  pf_exists :: bool
  pf_metadata :: "nat option"

section \<open>Validators\<close>

record resume_validators =
  rv_etag :: "string option"
  rv_last_modified :: "string option"

fun validator_valid :: "string option \<Rightarrow> string option \<Rightarrow> bool" where
  "validator_valid (Some saved) (Some current) = (saved = current)"
| "validator_valid (Some _) None = False"
| "validator_valid None _ = True"

definition validators_match :: "resume_validators \<Rightarrow> resume_validators \<Rightarrow> bool" where
  "validators_match saved current \<longleftrightarrow>
    validator_valid (rv_etag saved) (rv_etag current)
    \<and> validator_valid (rv_last_modified saved) (rv_last_modified current)"

record resume_info =
  ri_supports_range :: bool
  ri_etag :: "string option"
  ri_last_modified :: "string option"
  ri_content_length :: "nat option"
  ri_can_resume :: bool
  ri_existing_size :: nat

definition existing_size_of :: "partial_file \<Rightarrow> nat" where
  "existing_size_of f =
    (if pf_exists f then (case pf_metadata f of Some n \<Rightarrow> n | None \<Rightarrow> 0) else 0)"

definition check_resume ::
  "string + http_response \<Rightarrow> partial_file \<Rightarrow> string option \<Rightarrow> string option \<Rightarrow> resume_info result"
where
  "check_resume head_response part saved_etag saved_last_modified =
    (let existing_size = existing_size_of part in
     case head_response of
       Inl e \<Rightarrow> Inl (err_protocol InvalidResponse (''HEAD request failed: '' @ e))
     | Inr response \<Rightarrow>
         if \<not> is_success (hr_status response) then
           Inl (err_protocol InvalidResponse ''HEAD request returned: '')
         else
           (let headers = hr_header response;
                supports_range = (case headers ''accept-ranges'' of
                  Some v \<Rightarrow> str_contains ''bytes'' v | None \<Rightarrow> False);
                etag = headers ''etag'';
                last_modified = headers ''last-modified'';
                content_length = Option.bind (headers ''content-length'') (parse_unsigned (2 ^ 64));
                can_resume =
                  (if existing_size = 0 then False
                   else if \<not> supports_range then False
                   else validators_match
                     \<lparr>rv_etag = saved_etag, rv_last_modified = saved_last_modified\<rparr>
                     \<lparr>rv_etag = etag, rv_last_modified = last_modified\<rparr>)
            in Inr \<lparr>ri_supports_range = supports_range, ri_etag = etag,
                 ri_last_modified = last_modified, ri_content_length = content_length,
                 ri_can_resume = can_resume, ri_existing_size = existing_size\<rparr>))"

definition verify_range_support :: "string + http_response \<Rightarrow> bool result" where
  "verify_range_support response =
    (case response of
       Inl e \<Rightarrow> Inl (err_protocol InvalidResponse (''Range request failed: '' @ e))
     | Inr r \<Rightarrow> Inr (hr_status r = 206))"

section \<open>Range headers\<close>

definition calculate_range_header :: "nat \<Rightarrow> nat option \<Rightarrow> string" where
  "calculate_range_header start range_end =
    (case range_end of
       Some e \<Rightarrow> ''bytes='' @ show_nat start @ ''-'' @ show_nat e
     | None \<Rightarrow> ''bytes='' @ show_nat start @ ''-'')"

definition parse_content_range :: "string \<Rightarrow> (nat \<times> nat \<times> nat option) option" where
  "parse_content_range header =
    (case strip_prefix ''bytes '' header of
       None \<Rightarrow> None
     | Some header \<Rightarrow>
         (case split_char (CHR ''/'') header of
            [part0, part1] \<Rightarrow>
              (case split_char (CHR ''-'') part0 of
                 [range0, range1] \<Rightarrow>
                   (case (parse_unsigned (2 ^ 64) range0, parse_unsigned (2 ^ 64) range1) of
                      (Some start, Some range_end) \<Rightarrow>
                        Some (start, range_end,
                          if part1 = ''*'' then None else parse_unsigned (2 ^ 64) part1)
                    | _ \<Rightarrow> None)
               | _ \<Rightarrow> None)
          | _ \<Rightarrow> None))"

definition validate_resumed_position :: "nat \<Rightarrow> string \<Rightarrow> unit result" where
  "validate_resumed_position expected_start content_range =
    (case parse_content_range content_range of
       None \<Rightarrow> Inl (err_protocol InvalidResponse (''Invalid Content-Range header: '' @ content_range))
     | Some (actual_start, _, _) \<Rightarrow>
         if actual_start \<noteq> expected_start then
           Inl (err_protocol InvalidResponse
             (''Resume position mismatch: expected '' @ show_nat expected_start @ '', got ''
               @ show_nat actual_start))
         else Inr ())"

section \<open>Validating a ranged response\<close>

record ranged_response_context =
  rc_sent_if_range :: bool
  rc_expected_etag :: "string option"
  rc_expected_last_modified :: "string option"
  rc_response_etag :: "string option"
  rc_response_last_modified :: "string option"

definition restart_required :: "string \<Rightarrow> engine_error" where
  "restart_required message =
    err_protocol RangeNotSupported (message @ ''. Restart from byte 0 required'')"

text \<open>Both validators known, and different.\<close>

definition validator_changed :: "string option \<Rightarrow> string option \<Rightarrow> bool" where
  "validator_changed expected actual \<longleftrightarrow>
    (case (expected, actual) of (Some e, Some a) \<Rightarrow> e \<noteq> a | _ \<Rightarrow> False)"

definition validate_ranged_response ::
  "nat \<Rightarrow> nat option \<Rightarrow> status_code \<Rightarrow> string option \<Rightarrow> ranged_response_context \<Rightarrow> unit result"
where
  "validate_ranged_response expected_start expected_end status content_range context =
    (if status \<noteq> 206 then
       (if status = 200 \<and> validator_changed (rc_expected_etag context) (rc_response_etag context) then
          Inl (restart_required ''Server returned 200 OK to a ranged request after ETag changed from '')
        else if status = 200
          \<and> validator_changed (rc_expected_last_modified context) (rc_response_last_modified context) then
          Inl (restart_required ''Server returned 200 OK to a ranged request after Last-Modified changed from '')
        else if status = 200 \<and> rc_sent_if_range context then
          Inl (restart_required ''Server returned 200 OK to a ranged request after If-Range validation; the remote file may have changed or the server ignored Range'')
        else
          Inl (err_protocol RangeNotSupported
            (''Server ignored Range request starting at byte '' @ show_nat expected_start)))
     else
       (case content_range of
          None \<Rightarrow> Inl (restart_required ''Missing Content-Range header on ranged response'')
        | Some content_range \<Rightarrow>
            (case validate_resumed_position expected_start content_range of
               Inl err \<Rightarrow>
                 Inl (restart_required
                   (''Server returned mismatched Content-Range for ranged request starting at byte ''
                     @ show_nat expected_start))
             | Inr _ \<Rightarrow>
                 (case expected_end of
                    None \<Rightarrow> Inr ()
                  | Some expected_end \<Rightarrow>
                      (case parse_content_range content_range of
                         None \<Rightarrow> Inl (restart_required (''Invalid Content-Range header: '' @ content_range))
                       | Some (_, actual_end, _) \<Rightarrow>
                           if actual_end \<noteq> expected_end then
                             Inl (err_protocol RangeNotSupported
                               (''Range end mismatch: expected '' @ show_nat expected_end @ '', got ''
                                 @ show_nat actual_end @ ''. Restart from byte 0 required''))
                           else Inr ())))))"

fun should_restart_without_ranges :: "engine_error \<Rightarrow> bool" where
  "should_restart_without_ranges (EProtocol kind _) \<longleftrightarrow> kind = RangeNotSupported"
| "should_restart_without_ranges (ENetwork kind _ _) \<longleftrightarrow> kind = HttpStatus 416"
| "should_restart_without_ranges _ \<longleftrightarrow> False"

section \<open>Partial files\<close>

definition should_restart :: "partial_file \<Rightarrow> nat option \<Rightarrow> string option \<Rightarrow> string option \<Rightarrow> bool" where
  "should_restart part expected_size saved_etag current_etag =
    (if \<not> pf_exists part then False
     else if validator_changed saved_etag current_etag then True
     else (case (expected_size, pf_metadata part) of
             (Some expected, Some len) \<Rightarrow> expected < len
           | _ \<Rightarrow> False))"

definition cleanup_partial :: "partial_file \<Rightarrow> string option \<Rightarrow> partial_file \<times> unit result" where
  "cleanup_partial part remove_error =
    (if pf_exists part then
       (case remove_error of
          Some e \<Rightarrow> (part, Inl (EInternal (''Failed to remove partial file: '' @ e)))
        | None \<Rightarrow> (\<lparr>pf_exists = False, pf_metadata = None\<rparr>, Inr ()))
     else (part, Inr ()))"

section \<open>What the validation guarantees\<close>

lemma show_nat_avoids: "\<not> is_digit c \<Longrightarrow> split_char c (show_nat n) = [show_nat n]"
  by (rule split_char_absent) (rule show_nat_non_digit)

lemma not_digits [simp]: "\<not> is_digit (CHR ''/'')" "\<not> is_digit (CHR ''-'')" "\<not> is_digit (CHR ''*'')"
  by (simp_all add: is_digit_def)

lemma parse_content_range_show:
  assumes "a < 2 ^ 64" and "b < 2 ^ 64" and "t < 2 ^ 64"
  shows "parse_content_range (''bytes '' @ show_nat a @ ''-'' @ show_nat b @ ''/'' @ show_nat t)
    = Some (a, b, Some t)"
proof -
  have star: "show_nat t \<noteq> ''*''"
    using show_nat_non_digit [of "CHR ''*''" t] by force
  have part0: "split_char (CHR ''/'') (show_nat a @ ''-'' @ show_nat b) = [show_nat a @ ''-'' @ show_nat b]"
    by (rule split_char_absent) (use show_nat_non_digit [of "CHR ''/''"] in simp)
  have "split_char (CHR ''/'') ((show_nat a @ ''-'' @ show_nat b) @ CHR ''/'' # show_nat t)
      = [show_nat a @ ''-'' @ show_nat b, show_nat t]"
    unfolding split_char_append part0 by (simp add: show_nat_avoids)
  moreover have "split_char (CHR ''-'') (show_nat a @ CHR ''-'' # show_nat b) = [show_nat a, show_nat b]"
    by (simp only: split_char_append) (simp add: show_nat_avoids)
  ultimately show ?thesis
    using assms star by (simp add: parse_content_range_def)
qed

definition range_honoured :: "nat \<Rightarrow> nat option \<Rightarrow> string option \<Rightarrow> bool" where
  "range_honoured start range_end content_range \<longleftrightarrow>
    (case Option.bind content_range parse_content_range of
       Some (s, e, _) \<Rightarrow> s = start \<and> (range_end = None \<or> range_end = Some e)
     | None \<Rightarrow> False)"

text \<open>A ranged response is accepted exactly when it is a 206 whose Content-Range starts at
  the requested byte and, when an end was requested, ends there; every rejection is an error
  that makes the caller restart without ranges, and none is retried.\<close>

theorem ranged_response_exact:
  "case validate_ranged_response start range_end status content_range context of
     Inr _ \<Rightarrow> status = 206 \<and> range_honoured start range_end content_range
   | Inl err \<Rightarrow> \<not> (status = 206 \<and> range_honoured start range_end content_range)
       \<and> should_restart_without_ranges err \<and> \<not> is_retryable err"
  by (auto simp: validate_ranged_response_def validate_resumed_position_def range_honoured_def
      restart_required_def err_protocol_def split: sum.splits option.splits)

lemma range_honoured_show:
  "a < 2 ^ 64 \<Longrightarrow> b < 2 ^ 64 \<Longrightarrow> t < 2 ^ 64 \<Longrightarrow>
    range_honoured a (Some b) (Some (''bytes '' @ show_nat a @ ''-'' @ show_nat b @ ''/'' @ show_nat t))"
  using parse_content_range_show [of a b t] by (simp add: range_honoured_def)

lemma validators_match_refl: "validators_match v v"
proof -
  have "validator_valid x x" for x by (cases x) simp_all
  then show ?thesis by (simp add: validators_match_def)
qed

text \<open>A resume is offered only for a non-empty partial file, on a server that announces byte
  ranges, and then exactly when each validator that was saved is still served unchanged.\<close>

lemma check_resume_safe:
  "case check_resume response part saved_etag saved_last_modified of
     Inl err \<Rightarrow> \<not> is_retryable err
   | Inr info \<Rightarrow>
       ri_can_resume info =
         (0 < ri_existing_size info \<and> ri_supports_range info
          \<and> (saved_etag = None \<or> saved_etag = ri_etag info)
          \<and> (saved_last_modified = None \<or> saved_last_modified = ri_last_modified info))"
proof -
  have "validator_valid s c \<longleftrightarrow> s = None \<or> s = c" for s c
    by (cases s; cases c) auto
  then show ?thesis
    by (auto simp: check_resume_def validators_match_def err_protocol_def Let_def
        split: sum.splits option.splits)
qed

end
