(* ===== verification/Connection.thy ===== *)
theory Connection
  imports Errors Codec
begin

text \<open>
  The connection pool's counters, the retry policy and \<open>with_retry\<close>, and the speed calculator
  (\<open>src/http/connection.rs\<close>). Atomic counters are \<open>u64\<close> naturals with wrap-around. Floating
  point enters in three places and is a parameter there: the moving average of response times
  (values of an opaque type with the update as an argument), the jitter applied to a delay (a
  function on milliseconds) and the quotient of bytes and elapsed time. The HTTP client and
  the two rate limiters of the pool are left out.
\<close>

section \<open>The pool\<close>

record 'f connection_stats =
  cs_connections_created :: nat
  cs_successful_requests :: nat
  cs_failed_requests :: nat
  cs_retried_requests :: nat
  cs_avg_response_time :: 'f
  cs_last_error :: "engine_error option"

record 'f connection_pool =
  cp_total_downloaded :: nat
  cp_total_uploaded :: nat
  cp_active_connections :: nat
  cp_stats :: "'f connection_stats"

definition connection_pool_new :: "'f \<Rightarrow> 'f connection_pool" where
  "connection_pool_new zero =
    \<lparr>cp_total_downloaded = 0, cp_total_uploaded = 0, cp_active_connections = 0,
     cp_stats = \<lparr>cs_connections_created = 0, cs_successful_requests = 0, cs_failed_requests = 0,
       cs_retried_requests = 0, cs_avg_response_time = zero, cs_last_error = None\<rparr>\<rparr>"

definition record_download :: "'f connection_pool \<Rightarrow> nat \<Rightarrow> 'f connection_pool" where
  "record_download p bytes = p\<lparr>cp_total_downloaded := u64 (cp_total_downloaded p + bytes)\<rparr>"

definition record_upload :: "'f connection_pool \<Rightarrow> nat \<Rightarrow> 'f connection_pool" where
  "record_upload p bytes = p\<lparr>cp_total_uploaded := u64 (cp_total_uploaded p + bytes)\<rparr>"

definition connection_started :: "'f connection_pool \<Rightarrow> 'f connection_pool" where
  "connection_started p = p\<lparr>cp_active_connections := u64 (cp_active_connections p + 1)\<rparr>"

definition connection_finished :: "'f connection_pool \<Rightarrow> 'f connection_pool" where
  "connection_finished p = p\<lparr>cp_active_connections := u64_sub (cp_active_connections p) 1\<rparr>"

definition record_success ::
  "('f \<Rightarrow> 'f \<Rightarrow> 'f) \<Rightarrow> 'f connection_pool \<Rightarrow> 'f \<Rightarrow> 'f connection_pool"
where
  "record_success average p response_time =
    (let s = cp_stats p in
     p\<lparr>cp_stats := s\<lparr>cs_successful_requests := u64 (cs_successful_requests s + 1),
       cs_avg_response_time := average response_time (cs_avg_response_time s)\<rparr>\<rparr>)"

definition record_failure :: "'f connection_pool \<Rightarrow> engine_error \<Rightarrow> 'f connection_pool" where
  "record_failure p error =
    (let s = cp_stats p in
     p\<lparr>cp_stats := s\<lparr>cs_failed_requests := u64 (cs_failed_requests s + 1),
       cs_last_error := Some error\<rparr>\<rparr>)"

definition record_retry :: "'f connection_pool \<Rightarrow> 'f connection_pool" where
  "record_retry p =
    (let s = cp_stats p in p\<lparr>cp_stats := s\<lparr>cs_retried_requests := u64 (cs_retried_requests s + 1)\<rparr>\<rparr>)"

section \<open>The retry policy\<close>

record retry_policy =
  rp_max_attempts :: nat
  rp_initial_delay_ms :: nat
  rp_max_delay_ms :: nat

definition default_retry_policy :: retry_policy where
  "default_retry_policy =
    \<lparr>rp_max_attempts = 3, rp_initial_delay_ms = 1000, rp_max_delay_ms = 30000\<rparr>"

definition retry_policy_new :: "nat \<Rightarrow> nat \<Rightarrow> nat \<Rightarrow> retry_policy" where
  "retry_policy_new max_attempts initial_delay_ms max_delay_ms =
    \<lparr>rp_max_attempts = max_attempts, rp_initial_delay_ms = initial_delay_ms,
     rp_max_delay_ms = max_delay_ms\<rparr>"

definition saturating_mul64 :: "nat \<Rightarrow> nat \<Rightarrow> nat" where
  "saturating_mul64 a b = min (a * b) (2 ^ 64 - 1)"

definition delay_for_attempt :: "(nat \<Rightarrow> nat) \<Rightarrow> retry_policy \<Rightarrow> nat \<Rightarrow> nat" where
  "delay_for_attempt with_jitter policy attempt =
    (let base = saturating_mul64 (rp_initial_delay_ms policy) (2 ^ min attempt 10);
         capped = min base (rp_max_delay_ms policy)
     in with_jitter capped)"

definition should_retry :: "retry_policy \<Rightarrow> nat \<Rightarrow> engine_error \<Rightarrow> bool" where
  "should_retry policy attempt error =
    (if rp_max_attempts policy \<le> attempt then False else is_retryable error)"

text \<open>The delays grow with the attempts up to the cap and never exceed it.\<close>

lemma delay_capped:
  "delay_for_attempt id policy attempt \<le> rp_max_delay_ms policy"
  "attempt \<le> attempt' \<Longrightarrow> delay_for_attempt id policy attempt \<le> delay_for_attempt id policy attempt'"
proof -
  show "delay_for_attempt id policy attempt \<le> rp_max_delay_ms policy"
    by (simp add: delay_for_attempt_def Let_def)
  assume "attempt \<le> attempt'"
  then have "(2 :: nat) ^ min attempt 10 \<le> 2 ^ min attempt' 10" by (intro power_increasing) auto
  then have "rp_initial_delay_ms policy * 2 ^ min attempt 10
      \<le> rp_initial_delay_ms policy * 2 ^ min attempt' 10" by (rule mult_le_mono2)
  then show "delay_for_attempt id policy attempt \<le> delay_for_attempt id policy attempt'"
    unfolding delay_for_attempt_def saturating_mul64_def Let_def id_apply
    by (intro min.mono order_refl)
qed

section \<open>Retrying an operation\<close>

text \<open>
  The outcome of the \<open>k\<close>-th execution of the operation is \<open>operation k\<close>, with the response
  time of a success. The result also reports how many times the operation ran.
\<close>

function with_retry_from ::
  "('f \<Rightarrow> 'f \<Rightarrow> 'f) \<Rightarrow> retry_policy \<Rightarrow> (nat \<Rightarrow> ('a \<times> 'f) result) \<Rightarrow> nat \<Rightarrow> engine_error option
    \<Rightarrow> 'f connection_pool \<Rightarrow> 'f connection_pool \<times> nat \<times> 'a result"
where
  "with_retry_from average policy operation attempt last_error pool =
    (if rp_max_attempts policy < attempt then
       (pool, attempt, Inl (case last_error of Some e \<Rightarrow> e
          | None \<Rightarrow> err_network NetOther ''Max retries exceeded''))
     else
       (case operation attempt of
          Inr (result, elapsed) \<Rightarrow> (record_success average pool elapsed, attempt + 1, Inr result)
        | Inl e \<Rightarrow>
            (let pool = record_failure pool e in
             if should_retry policy attempt e then
               with_retry_from average policy operation (attempt + 1) (Some e) (record_retry pool)
             else (pool, attempt + 1, Inl e))))"
  by pat_completeness auto

termination
  by (relation "measure (\<lambda>(_, policy, _, attempt, _). Suc (rp_max_attempts policy) - attempt)") auto

declare with_retry_from.simps [simp del]

definition with_retry ::
  "('f \<Rightarrow> 'f \<Rightarrow> 'f) \<Rightarrow> 'f connection_pool \<Rightarrow> retry_policy \<Rightarrow> (nat \<Rightarrow> ('a \<times> 'f) result)
    \<Rightarrow> 'f connection_pool \<times> nat \<times> 'a result"
where
  "with_retry average pool policy operation = with_retry_from average policy operation 0 None pool"

text \<open>The execution that settles the result: the first that is no retryable error.\<close>

definition settles :: "(nat \<Rightarrow> ('a \<times> 'f) result) \<Rightarrow> nat \<Rightarrow> bool" where
  "settles operation k = (case operation k of Inl e \<Rightarrow> \<not> is_retryable e | Inr _ \<Rightarrow> True)"

definition settled_at :: "retry_policy \<Rightarrow> (nat \<Rightarrow> ('a \<times> 'f) result) \<Rightarrow> nat" where
  "settled_at policy operation =
    (case find (settles operation) [0..<rp_max_attempts policy] of
       Some k \<Rightarrow> k | None \<Rightarrow> rp_max_attempts policy)"

definition count_requests :: "'f connection_pool \<Rightarrow> nat \<times> nat \<times> nat" where
  "count_requests p =
    (let s = cp_stats p in (cs_successful_requests s, cs_failed_requests s, cs_retried_requests s))"

lemma find_upt_step:
  "a < n \<Longrightarrow> find P [a..<n] = (if P a then Some a else find P [Suc a..<n])"
  by (simp add: upt_conv_Cons)

definition settled_from :: "retry_policy \<Rightarrow> (nat \<Rightarrow> ('a \<times> 'f) result) \<Rightarrow> nat \<Rightarrow> nat" where
  "settled_from policy operation a =
    (case find (settles operation) [a..<rp_max_attempts policy] of
       Some k \<Rightarrow> k | None \<Rightarrow> rp_max_attempts policy)"

lemma settled_from_ge: "a \<le> rp_max_attempts policy \<Longrightarrow> a \<le> settled_from policy operation a"
  by (auto simp: settled_from_def find_Some_iff split: option.splits)

lemma u64_add_left: "u64 (u64 a + b) = u64 (a + b)"
  by (simp add: u64_def mod_add_left_eq)

lemma u64_Suc_left [simp]: "u64 (Suc (u64 n)) = u64 (Suc n)"
  using u64_add_left [of n 1] by simp

text \<open>One attempt: it settles the result, or is counted and followed by the next one.\<close>

lemma with_retry_from_step:
  assumes "a \<le> rp_max_attempts policy"
  shows "settled_from policy operation a = a
      \<and> (\<exists>pool'. with_retry_from average policy operation a le pool
            = (pool', Suc a, map_sum id fst (operation a))
          \<and> (\<forall>s f r. count_requests pool = (u64 s, u64 f, u64 r) \<longrightarrow>
              count_requests pool' = (case operation a of
                Inr _ \<Rightarrow> (u64 (s + 1), u64 f, u64 r) | Inl _ \<Rightarrow> (u64 s, u64 (f + 1), u64 r))))
    \<or> a < rp_max_attempts policy \<and> settled_from policy operation a = settled_from policy operation (Suc a)
      \<and> (\<exists>e pool'. with_retry_from average policy operation a le pool
            = with_retry_from average policy operation (Suc a) (Some e) pool'
          \<and> (\<forall>s f r. count_requests pool = (u64 s, u64 f, u64 r) \<longrightarrow>
              count_requests pool' = (u64 s, u64 (f + 1), u64 (r + 1))))"
proof (cases "a < rp_max_attempts policy \<and> \<not> settles operation a")
  case True
  then obtain e where e: "operation a = Inl e" "is_retryable e"
    by (auto simp: settles_def split: sum.splits)
  have "with_retry_from average policy operation a le pool
      = with_retry_from average policy operation (Suc a) (Some e) (record_retry (record_failure pool e))"
    using True e by (subst with_retry_from.simps) (simp add: should_retry_def Let_def)
  moreover have "settled_from policy operation a = settled_from policy operation (Suc a)"
    using True by (simp add: settled_from_def find_upt_step)
  moreover have "count_requests (record_retry (record_failure pool e)) = (u64 s, u64 (f + 1), u64 (r + 1))"
    if "count_requests pool = (u64 s, u64 f, u64 r)" for s f r
    using that by (simp add: count_requests_def record_retry_def record_failure_def Let_def)
  ultimately show ?thesis using True by blast
next
  case False
  then have k: "settled_from policy operation a = a"
    using assms by (cases "a < rp_max_attempts policy") (simp_all add: settled_from_def find_upt_step)
  have stop: "\<not> should_retry policy a e" if "operation a = Inl e" for e
    using False that assms by (auto simp: should_retry_def settles_def)
  have le: "\<not> rp_max_attempts policy < a" using assms by simp
  show ?thesis
  proof (cases "operation a")
    case (Inl e)
    then have "with_retry_from average policy operation a le pool = (record_failure pool e, Suc a, Inl e)"
      using stop le by (subst with_retry_from.simps) (simp add: Let_def)
    then show ?thesis using k Inl by (simp add: count_requests_def record_failure_def Let_def)
  next
    case (Inr x)
    obtain y el where x: "x = (y, el)" by (cases x)
    then have "with_retry_from average policy operation a le pool = (record_success average pool el, Suc a, Inr y)"
      using Inr le by (subst with_retry_from.simps) simp
    then show ?thesis using k Inr x by (simp add: count_requests_def record_success_def Let_def)
  qed
qed

lemma with_retry_from_result:
  assumes "a \<le> rp_max_attempts policy" and "count_requests pool = (u64 s, u64 f, u64 r)"
    and "k = settled_from policy operation a"
  shows "\<exists>pool'. with_retry_from average policy operation a le pool
      = (pool', Suc k, map_sum id fst (operation k))
    \<and> count_requests pool' = (case operation k of
          Inr _ \<Rightarrow> (u64 (s + 1), u64 (f + (k - a)), u64 (r + (k - a)))
        | Inl _ \<Rightarrow> (u64 s, u64 (f + (k - a) + 1), u64 (r + (k - a))))"
  using assms
proof (induction "rp_max_attempts policy - a" arbitrary: a le pool f r rule: less_induct)
  case less
  consider (settled) "settled_from policy operation a = a"
      "\<exists>pool'. with_retry_from average policy operation a le pool
            = (pool', Suc a, map_sum id fst (operation a))
          \<and> (\<forall>s f r. count_requests pool = (u64 s, u64 f, u64 r) \<longrightarrow>
              count_requests pool' = (case operation a of
                Inr _ \<Rightarrow> (u64 (s + 1), u64 f, u64 r) | Inl _ \<Rightarrow> (u64 s, u64 (f + 1), u64 r)))"
    | (retried) e pool' where "a < rp_max_attempts policy"
        "settled_from policy operation a = settled_from policy operation (Suc a)"
        "with_retry_from average policy operation a le pool
          = with_retry_from average policy operation (Suc a) (Some e) pool'"
        "count_requests pool' = (u64 s, u64 (f + 1), u64 (r + 1))"
    using with_retry_from_step [OF less.prems(1)] less.prems(2) by blast
  then show ?case
  proof cases
    case settled
    then show ?thesis using less.prems by (auto split: sum.split)
  next
    case retried
    have ge: "Suc a \<le> k"
      using settled_from_ge [of "Suc a" policy operation] retried(1,2) less.prems(3) by simp
    then have sums: "Suc f + (k - Suc a) = f + (k - a)" "Suc r + (k - Suc a) = r + (k - a)" by simp_all
    have "\<exists>pool''. with_retry_from average policy operation (Suc a) (Some e) pool'
        = (pool'', Suc k, map_sum id fst (operation k))
      \<and> count_requests pool'' = (case operation k of
          Inr _ \<Rightarrow> (u64 (s + 1), u64 (Suc f + (k - Suc a)), u64 (Suc r + (k - Suc a)))
        | Inl _ \<Rightarrow> (u64 s, u64 (Suc f + (k - Suc a) + 1), u64 (Suc r + (k - Suc a))))"
      by (rule less.hyps) (use retried less.prems(3) in auto)
    then show ?thesis unfolding retried(3) sums .
  qed
qed

text \<open>\<open>with_retry\<close> ends with the outcome of the first execution that succeeds or fails for
  good, or of the one after \<open>max_attempts\<close> retries; the operation runs exactly once more than
  it is retried, and the pool has counted each success, failure and retry.\<close>

theorem with_retry_exact:
  "let k = settled_at policy operation;
       (pool', runs, r) = with_retry average (connection_pool_new zero) policy operation
   in r = map_sum id fst (operation k) \<and> runs = k + 1 \<and> k \<le> rp_max_attempts policy
     \<and> count_requests pool' =
        (case r of Inr _ \<Rightarrow> (1, u64 k, u64 k) | Inl _ \<Rightarrow> (0, u64 (k + 1), u64 k))"
proof -
  have k: "settled_at policy operation = settled_from policy operation 0"
    by (simp add: settled_at_def settled_from_def)
  have "count_requests (connection_pool_new zero) = (u64 0, u64 0, u64 0)"
    by (simp add: connection_pool_new_def count_requests_def)
  then obtain pool' where p: "with_retry average (connection_pool_new zero) policy operation
      = (pool', Suc (settled_at policy operation), map_sum id fst (operation (settled_at policy operation)))"
    and c: "count_requests pool' = (case operation (settled_at policy operation) of
        Inr _ \<Rightarrow> (u64 (0 + 1), u64 (0 + (settled_at policy operation - 0)), u64 (0 + (settled_at policy operation - 0)))
      | Inl _ \<Rightarrow> (u64 0, u64 (0 + (settled_at policy operation - 0) + 1), u64 (0 + (settled_at policy operation - 0))))"
    using with_retry_from_result [OF le0 _ k, of "connection_pool_new zero" 0 0 0 average None]
    unfolding with_retry_def by blast
  have "settled_at policy operation \<le> rp_max_attempts policy"
    by (auto simp: settled_at_def find_Some_iff split: option.splits)
  then show ?thesis using p c by (simp split: sum.splits)
qed

section \<open>The speed calculator\<close>

text \<open>Instants are naturals; \<open>per_second bytes elapsed\<close> is the floating-point quotient.\<close>

record speed_calculator =
  sc_window_size :: nat
  sc_measurements :: "(nat \<times> nat) list"
  sc_total_bytes :: nat

definition speed_calculator_new :: "nat \<Rightarrow> speed_calculator" where
  "speed_calculator_new window_size =
    \<lparr>sc_window_size = window_size, sc_measurements = [], sc_total_bytes = 0\<rparr>"

text \<open>\<open>remove(0)\<close> on an empty vector panics: a window of size zero has no first measurement.\<close>

definition sc_add_bytes :: "nat \<Rightarrow> speed_calculator \<Rightarrow> nat \<Rightarrow> speed_calculator option" where
  "sc_add_bytes now c bytes =
    (if sc_window_size c \<le> length (sc_measurements c) \<and> sc_measurements c = [] then None
     else
       (let ms = (if sc_window_size c \<le> length (sc_measurements c) then tl (sc_measurements c)
                  else sc_measurements c)
        in Some (c\<lparr>sc_total_bytes := u64 (sc_total_bytes c + bytes), sc_measurements := ms @ [(bytes, now)]\<rparr>)))"

definition sc_speed :: "(nat \<Rightarrow> nat \<Rightarrow> nat) \<Rightarrow> speed_calculator \<Rightarrow> nat" where
  "sc_speed per_second c =
    (let ms = sc_measurements c in
     if length ms < 2 then 0
     else
       (let elapsed = snd (last ms) - snd (hd ms) in
        if elapsed = 0 then 0 else per_second (u64 (sum_list (map fst ms))) elapsed))"

definition sc_reset :: "speed_calculator \<Rightarrow> speed_calculator" where
  "sc_reset c = c\<lparr>sc_measurements := [], sc_total_bytes := 0\<rparr>"

text \<open>With a positive window no addition panics and at most a window of measurements is kept.\<close>

definition sc_inv :: "speed_calculator \<Rightarrow> bool" where
  "sc_inv c \<longleftrightarrow> 0 < sc_window_size c \<and> length (sc_measurements c) \<le> sc_window_size c"

definition sc_step :: "speed_calculator \<Rightarrow> (nat \<times> nat) option \<Rightarrow> speed_calculator" where
  "sc_step c e = (case e of None \<Rightarrow> sc_reset c
    | Some (now, bytes) \<Rightarrow> (case sc_add_bytes now c bytes of Some c' \<Rightarrow> c' | None \<Rightarrow> c))"

interpretation speed: guarded_system sc_step "\<lambda>_ _. True" sc_inv
  by unfold_locales
    (auto simp: sc_step_def sc_inv_def sc_add_bytes_def sc_reset_def Let_def split: option.splits)

lemma sc_add_bytes_defined: "sc_inv c \<Longrightarrow> sc_add_bytes now c bytes \<noteq> None"
  by (auto simp: sc_inv_def sc_add_bytes_def)

end
