(* ===== verification/Segments.thy ===== *)
theory Segments
  imports Storage Mirror HttpResume Connection
begin

text \<open>
  Segmented downloads (\<open>src/http/segment.rs\<close>): the split of a file into segments, their
  bookkeeping, the task that downloads one segment with its retries, and the run that collects
  the tasks' results and finishes the file.

  A task's requests are answered by a script: \<open>server k url pos stop\<close> is what the \<open>k\<close>-th request
  of the task meets, from the outcome of sending it to the events of its stream. Cancellation
  and pausing enter as events at the points where the code looks for them. The tasks of a run
  are executed one after the other: they write disjoint ranges of the file and otherwise share
  only counters they add to, the mirror manager and the cancel token. Progress callbacks,
  rate limiting and the speed estimate are left out.
\<close>

section \<open>The download\<close>

record segmented_download =
  sd_url :: string
  sd_total_size :: nat
  sd_save_name :: string
  sd_segments :: "segment list"
  sd_etag :: "string option"
  sd_last_modified :: "string option"
  sd_downloaded :: nat
  sd_active_connections :: nat
  sd_paused :: bool
  sd_segment_progress :: "nat list"
  sd_last_persistence :: int
  sd_mirrors :: "mirror_manager option"

definition segmented_new ::
  "int \<Rightarrow> string \<Rightarrow> nat \<Rightarrow> string \<Rightarrow> string option \<Rightarrow> string option \<Rightarrow> segmented_download"
where
  "segmented_new now url total_size save_name etag last_modified =
    \<lparr>sd_url = url, sd_total_size = total_size, sd_save_name = save_name, sd_segments = [],
     sd_etag = etag, sd_last_modified = last_modified, sd_downloaded = 0,
     sd_active_connections = 0, sd_paused = False, sd_segment_progress = [],
     sd_last_persistence = now, sd_mirrors = None\<rparr>"

definition set_mirror_manager :: "segmented_download \<Rightarrow> mirror_manager \<Rightarrow> segmented_download" where
  "set_mirror_manager d m = d\<lparr>sd_mirrors := Some m\<rparr>"

text \<open>The number of segments; a division by zero panics.\<close>

definition calculate_segment_count :: "nat \<Rightarrow> nat \<Rightarrow> nat \<Rightarrow> nat option" where
  "calculate_segment_count total_size max_connections min_segment_size =
    (if total_size = 0 then Some 1
     else if min_segment_size = 0 then None
     else
       (let max_segments_by_size = total_size div min_segment_size;
            num_segments = min max_connections (max max_segments_by_size 1)
        in Some (max num_segments 1)))"

definition init_segment :: "nat \<Rightarrow> nat \<Rightarrow> nat \<Rightarrow> nat \<Rightarrow> segment" where
  "init_segment total_size num_segments seg_len i =
    segment_new i (u64 (i * seg_len))
      (if i = num_segments - 1 then u64_sub total_size 1 else u64_sub (u64 ((i + 1) * seg_len)) 1)"

definition init_segments :: "segmented_download \<Rightarrow> nat \<Rightarrow> nat \<Rightarrow> segmented_download option" where
  "init_segments d max_connections min_segment_size =
    (case calculate_segment_count (sd_total_size d) max_connections min_segment_size of
       None \<Rightarrow> None
     | Some num_segments \<Rightarrow>
         (let seg_len = sd_total_size d div num_segments in
          Some (d\<lparr>sd_segments := map (init_segment (sd_total_size d) num_segments seg_len) [0..<num_segments],
                  sd_segment_progress := replicate num_segments 0\<rparr>)))"

definition restore_segments :: "segmented_download \<Rightarrow> segment list \<Rightarrow> segmented_download" where
  "restore_segments d saved_segments =
    d\<lparr>sd_downloaded := u64 (sum_list (map sg_downloaded saved_segments)),
      sd_segment_progress := map sg_downloaded saved_segments,
      sd_segments := saved_segments\<rparr>"

definition with_progress :: "nat list \<Rightarrow> nat \<Rightarrow> segment \<Rightarrow> segment" where
  "with_progress progress idx s =
    (if idx < length progress then
       (let s = s\<lparr>sg_downloaded := progress ! idx\<rparr> in
        if segment_size s \<le> sg_downloaded s then s\<lparr>sg_state := SCompleted\<rparr>
        else if 0 < sg_downloaded s then s\<lparr>sg_state := SDownloading\<rparr> else s)
     else s)"

definition segments_with_progress :: "segmented_download \<Rightarrow> segment list" where
  "segments_with_progress d =
    map (\<lambda>(idx, s). with_progress (sd_segment_progress d) idx s) (enumerate 0 (sd_segments d))"

fun first_gap :: "nat list \<Rightarrow> segment list \<Rightarrow> nat option" where
  "first_gap progress [] = None"
| "first_gap progress (s # ss) =
    (let downloaded = (if sg_index s < length progress then progress ! sg_index s else sg_downloaded s) in
     if downloaded < segment_size s then Some (u64 (sg_start s + downloaded)) else first_gap progress ss)"

definition contiguous_available :: "segmented_download \<Rightarrow> nat" where
  "contiguous_available d =
    (case first_gap (sd_segment_progress d) (sort_key sg_start (sd_segments d)) of
       Some n \<Rightarrow> n | None \<Rightarrow> sd_total_size d)"

definition persistence_interval :: nat where
  "persistence_interval = 5000"

definition should_persist :: "int \<Rightarrow> segmented_download \<Rightarrow> segmented_download \<times> bool" where
  "should_persist now d =
    (if persistence_interval \<le> nat (now - sd_last_persistence d)
     then (d\<lparr>sd_last_persistence := now\<rparr>, True) else (d, False))"

definition mark_persisted :: "int \<Rightarrow> segmented_download \<Rightarrow> segmented_download" where
  "mark_persisted now d = d\<lparr>sd_last_persistence := now\<rparr>"

definition segmented_pause :: "segmented_download \<Rightarrow> segmented_download" where
  "segmented_pause d = d\<lparr>sd_paused := True\<rparr>"

definition segmented_is_complete :: "segmented_download \<Rightarrow> bool" where
  "segmented_is_complete d \<longleftrightarrow> sd_total_size d \<le> sd_downloaded d"

definition segmented_progress :: "nat \<Rightarrow> segmented_download \<Rightarrow> download_progress" where
  "segmented_progress speed d =
    \<lparr>dp_total_size = Some (sd_total_size d), dp_completed_size = sd_downloaded d,
     dp_download_speed = speed, dp_upload_speed = 0,
     dp_connections = u32 (sd_active_connections d), dp_seeders = 0, dp_peers = 0,
     dp_eta_seconds = (if speed = 0 then None else Some ((sd_total_size d - sd_downloaded d) div speed))\<rparr>"

definition part_name :: "string \<Rightarrow> string" where
  "part_name save_name =
    (let (stem, extension) = split_extension save_name;
         ext = (case extension of Some e \<Rightarrow> e @ ''.part'' | None \<Rightarrow> ''part'')
     in stem @ CHR ''.'' # ext)"

section \<open>The split\<close>

definition span :: "segment \<Rightarrow> nat list" where
  "span s = [sg_start s..<sg_end s + 1]"

text \<open>A list of segments that tiles \<open>[a, b)\<close> without gap or overlap, none empty, indexed in order.\<close>

fun tiles :: "nat \<Rightarrow> nat \<Rightarrow> nat \<Rightarrow> segment list \<Rightarrow> bool" where
  "tiles i a b [] \<longleftrightarrow> a = b"
| "tiles i a b (s # ss) \<longleftrightarrow>
    sg_index s = i \<and> sg_start s = a \<and> a \<le> sg_end s \<and> sg_end s < b \<and> tiles (Suc i) (sg_end s + 1) b ss"

lemma tiles_le: "tiles i a b ss \<Longrightarrow> a \<le> b"
  by (induction ss arbitrary: i a) force+

lemma tiles_spans: "tiles i a b ss \<Longrightarrow> concat (map span ss) = [a..<b]"
proof (induction ss arbitrary: i a)
  case (Cons s ss)
  have "concat (map span ss) = [sg_end s + 1..<b]"
    by (rule Cons.IH [of "Suc i"]) (use Cons.prems in simp)
  then have "concat (map span (s # ss)) = [a..<sg_end s + 1] @ [sg_end s + 1..<b]"
    using Cons.prems by (simp add: span_def del: upt_Suc)
  also have "\<dots> = [a..<b]"
    using Cons.prems upt_add_eq_append [of a "sg_end s + 1" "b - (sg_end s + 1)"] by simp
  finally show ?case .
qed simp

lemma tiles_nth:
  "tiles i a b ss \<Longrightarrow> k < length ss \<Longrightarrow>
    sg_index (ss ! k) = i + k \<and> a \<le> sg_start (ss ! k) \<and> sg_start (ss ! k) \<le> sg_end (ss ! k) \<and> sg_end (ss ! k) < b"
proof (induction ss arbitrary: i a k)
  case (Cons s ss)
  then show ?case
  proof (cases k)
    case (Suc k')
    then show ?thesis using Cons.IH [of "Suc i" "sg_end s + 1" k'] Cons.prems by auto
  qed auto
qed simp

lemma tiles_disjoint:
  "tiles i a b ss \<Longrightarrow> j < k \<Longrightarrow> k < length ss \<Longrightarrow> sg_end (ss ! j) < sg_start (ss ! k)"
proof (induction ss arbitrary: i a j k)
  case (Cons s ss)
  then obtain k' where k': "k = Suc k'" by (cases k) auto
  show ?case
  proof (cases j)
    case 0
    then show ?thesis
      using Cons.prems k' tiles_nth [of "Suc i" "sg_end s + 1" b ss k'] by auto
  next
    case (Suc j')
    then show ?thesis using Cons.IH [of "Suc i" "sg_end s + 1" j' k'] Cons.prems k' by auto
  qed
qed simp

lemma segment_size_eq:
  "sg_start s \<le> sg_end s \<Longrightarrow> sg_end s < 2 ^ 64 - 1 \<Longrightarrow> segment_size s = sg_end s + 1 - sg_start s"
  by (simp add: segment_size_def)

lemma init_tiles:
  assumes "0 < total_len" and "total_len < 2 ^ 64" and "0 < n" and "n \<le> total_len"
  defines "seg_len \<equiv> total_len div n"
  shows "i \<le> n \<Longrightarrow> tiles i (if i = n then total_len else i * seg_len) total_len (map (init_segment total_len n seg_len) [i..<n])"
proof (induction "n - i" arbitrary: i)
  case 0
  then show ?case by simp
next
  case (Suc d)
  then have i: "i < n" by simp
  have s1: "1 \<le> seg_len" using assms by (simp add: seg_len_def div_greater_zero_iff Suc_le_eq)
  have ns: "n * seg_len \<le> total_len" unfolding seg_len_def by simp
  have lt: "i * seg_len < total_len"
  proof -
    have "i * seg_len < n * seg_len" using i s1 by simp
    then show ?thesis using ns by (rule less_le_trans)
  qed
  have start: "sg_start (init_segment total_len n seg_len i) = i * seg_len"
    using lt assms(2) by (simp add: init_segment_def segment_new_def)
  show ?case
  proof (cases "i = n - 1")
    case True
    then have "[i..<n] = [i]" using i by (simp add: upt_rec)
    moreover have "sg_end (init_segment total_len n seg_len i) = total_len - 1"
      using True assms(1,2) by (simp add: init_segment_def segment_new_def)
    ultimately show ?thesis
      using i start lt assms(1) by (simp add: init_segment_def segment_new_def)
  next
    case False
    have le: "(i + 1) * seg_len \<le> total_len"
    proof -
      have "(i + 1) * seg_len \<le> n * seg_len" using i by (intro mult_le_mono1) simp
      then show ?thesis using ns by simp
    qed
    have pos: "1 \<le> (i + 1) * seg_len" using s1 by simp
    have e: "sg_end (init_segment total_len n seg_len i) = (i + 1) * seg_len - 1"
      using False le pos assms(2) by (simp add: init_segment_def segment_new_def)
    have nlt: "(i + 1) * seg_len - 1 < total_len" using le pos by linarith
    have "tiles (Suc i) (Suc i * seg_len) total_len (map (init_segment total_len n seg_len) [Suc i..<n])"
    proof -
      have "d = n - Suc i" "Suc i \<le> n" "Suc i \<noteq> n" using Suc.hyps(2) i False by auto
      then show ?thesis using Suc.hyps(1) [of "Suc i"] by simp
    qed
    moreover have "(i + 1) * seg_len - 1 + 1 = Suc i * seg_len" using pos by simp
    moreover have "i * seg_len \<le> (i + 1) * seg_len - 1" using s1 by simp
    ultimately show ?thesis
      using i start e nlt by (simp add: upt_conv_Cons init_segment_def segment_new_def)
  qed
qed

text \<open>C22. \<open>init_segments\<close> splits a non-empty file into segments that cover every byte exactly once,
  in order; there are at most \<open>max_connections\<close> of them (at least one), and none is smaller than
  \<open>min_segment_size\<close> unless the whole file is.\<close>

theorem init_segments_partition:
  assumes "0 < sd_total_size d" and "sd_total_size d < 2 ^ 64" and "0 < min_segment_size"
    and "init_segments d max_connections min_segment_size = Some d'"
  shows "concat (map span (sd_segments d')) = [0..<sd_total_size d]
    \<and> 0 < length (sd_segments d') \<and> length (sd_segments d') \<le> max max_connections 1
    \<and> list_all (\<lambda>s. min min_segment_size (sd_total_size d) \<le> segment_size s) (sd_segments d')
    \<and> sd_segment_progress d' = replicate (length (sd_segments d')) 0"
proof -
  let ?t = "sd_total_size d"
  define n where "n = max (min max_connections (max (?t div min_segment_size) 1)) 1"
  define seg_len where "seg_len = ?t div n"
  have cnt: "calculate_segment_count ?t max_connections min_segment_size = Some n"
    using assms(1,3) by (simp add: calculate_segment_count_def n_def Let_def)
  have d': "d' = d\<lparr>sd_segments := map (init_segment ?t n seg_len) [0..<n], sd_segment_progress := replicate n 0\<rparr>"
    using assms(4) by (simp add: init_segments_def cnt seg_len_def Let_def)
  have n0: "0 < n" by (simp add: n_def)
  have dt: "?t div min_segment_size \<le> ?t" by (rule div_le_dividend)
  have nt: "n \<le> ?t" using assms(1) dt by (auto simp: n_def min_le_iff_disj)
  have tl: "tiles 0 0 ?t (sd_segments d')"
    using init_tiles [OF assms(1,2) n0 nt, of 0] n0 by (simp add: d' seg_len_def)
  have big: "min min_segment_size ?t \<le> seg_len"
  proof (cases "n = 1")
    case False
    then have "n \<le> ?t div min_segment_size" by (auto simp: n_def split: if_splits)
    then have "n * min_segment_size \<le> ?t"
      using assms(3) by (simp add: less_eq_div_iff_mult_less_eq)
    then have "min_segment_size \<le> seg_len"
      using n0 by (simp add: seg_len_def less_eq_div_iff_mult_less_eq mult.commute)
    then show ?thesis by simp
  qed (simp add: seg_len_def)
  have "min min_segment_size ?t \<le> segment_size s" if "s \<in> set (sd_segments d')" for s
  proof -
    from that obtain i where i: "i < n" and s: "s = init_segment ?t n seg_len i" by (auto simp: d')
    have "sg_start s \<le> sg_end s" "sg_end s < ?t" and st: "sg_start s = i * seg_len"
    proof -
      have "sd_segments d' ! i = s" using i s by (simp add: d')
      then show "sg_start s \<le> sg_end s" "sg_end s < ?t"
        using tiles_nth [OF tl, of i] i by (auto simp: d')
      have "i * seg_len < 2 ^ 64"
      proof -
        have "i * seg_len \<le> n * seg_len" using i by (intro mult_le_mono1) simp
        also have "\<dots> \<le> ?t" by (simp add: seg_len_def)
        finally show ?thesis using assms(2) by simp
      qed
      then show "sg_start s = i * seg_len" by (simp add: s init_segment_def segment_new_def)
    qed
    then have sz: "segment_size s = sg_end s + 1 - sg_start s"
      using assms(2) by (intro segment_size_eq) auto
    have ge: "(i + 1) * seg_len \<le> sg_end s + 1"
    proof (cases "i = n - 1")
      case True
      then have "sg_end s + 1 = ?t" using assms(1,2) by (simp add: s init_segment_def segment_new_def)
      moreover have "(i + 1) * seg_len \<le> ?t" using True n0 by (simp add: seg_len_def)
      ultimately show ?thesis by simp
    next
      case False
      have "(i + 1) * seg_len \<le> n * seg_len" using i by (intro mult_le_mono1) simp
      also have "\<dots> \<le> ?t" by (simp add: seg_len_def)
      finally have le: "(i + 1) * seg_len < 2 ^ 64" using assms(2) by simp
      have "1 \<le> seg_len" using big assms(1,3) by simp
      then have "1 \<le> (i + 1) * seg_len" by simp
      then show ?thesis using False le by (simp add: s init_segment_def segment_new_def)
    qed
    have "seg_len \<le> segment_size s" unfolding sz st using ge by simp
    then show ?thesis using big by simp
  qed
  then show ?thesis
    using tiles_spans [OF tl] n0 by (simp add: d' list_all_iff n_def)
qed

lemma init_segments_partition_witness:
  "\<exists>d'. init_segments (segmented_new 0 ''u'' 10 ''f'' None None) 3 2 = Some d'
    \<and> concat (map span (sd_segments d')) = [0..<10]
    \<and> map (\<lambda>s. (sg_start s, sg_end s)) (sd_segments d') = [(0, 2), (3, 5), (6, 9)]"
proof -
  let ?d = "segmented_new 0 ''u'' 10 ''f'' None None"
  have three: "[0..<3] = [0, 1, 2::nat]" by (simp add: upt_rec)
  obtain d' where run: "init_segments ?d 3 2 = Some d'"
      and segs: "map (\<lambda>s. (sg_start s, sg_end s)) (sd_segments d') = [(0, 2), (3, 5), (6, 9)]"
    by (simp add: init_segments_def calculate_segment_count_def segmented_new_def init_segment_def
        segment_new_def three)
  have "concat (map span (sd_segments d')) = [0..<sd_total_size ?d]"
    using init_segments_partition [OF _ _ _ run] by (simp add: segmented_new_def)
  then show ?thesis using run segs by (auto simp: segmented_new_def)
qed

end
