(* ===== verification/SegmentTask.thy ===== *)
theory SegmentTask
  imports Segments
begin

text \<open>
  The task that downloads one segment and the run over all segments
  (\<open>SegmentedDownload::start_with_scope\<close> of \<open>src/http/segment.rs\<close>).
\<close>

section \<open>What a task meets\<close>

text \<open>
  Stream events: a chunk that is written; a chunk whose write fails after some bytes; an error
  of the stream; the pause flag seen after a chunk arrived (which is then dropped); the cancel
  token seen. The list ends where the stream does.
\<close>

datatype stream_event =
    Chunk bytes | WriteFails bytes nat | StreamError reqwest_error | SeesPause | SeesCancel

datatype reply =
    SendCancelled
  | SendError reqwest_error
  | Reply http_response "stream_event list"

record script =
  at_cancelled :: bool
  at_reply :: reply
  at_scope_error :: "engine_error option"
  at_sleep_cancelled :: bool

type_synonym server = "nat \<Rightarrow> string \<Rightarrow> nat \<Rightarrow> nat \<Rightarrow> script"

text \<open>What the tasks share; \<open>ts_fatal\<close> is the child cancel token.\<close>

record shared =
  ts_file :: bytes
  ts_downloaded :: nat
  ts_progress :: "nat list"
  ts_active :: nat
  ts_fatal :: bool
  ts_mirrors :: "mirror_manager option"

record task =
  tk_attempt :: nat
  tk_bytes :: nat
  tk_shared :: shared

definition penalize :: "task \<Rightarrow> string \<Rightarrow> task" where
  "penalize t url =
    t\<lparr>tk_shared := (tk_shared t)\<lparr>ts_mirrors :=
        map_option (\<lambda>m. fst (report_url_failure m url)) (ts_mirrors (tk_shared t))\<rparr>\<rparr>"

definition cancel_all :: "task \<Rightarrow> task" where
  "cancel_all t = t\<lparr>tk_shared := (tk_shared t)\<lparr>ts_fatal := True\<rparr>\<rparr>"

text \<open>How one attempt ends: another attempt, the result of the loop, or a \<open>?\<close> out of the task.\<close>

datatype attempt_end = Again | Stop "unit result" | Escape engine_error

section \<open>Streaming a response into the file\<close>

fun stream_to_segment ::
  "segmented_download \<Rightarrow> retry_policy \<Rightarrow> nat \<Rightarrow> nat \<Rightarrow> nat \<Rightarrow> stream_event list \<Rightarrow> task \<Rightarrow> attempt_end \<times> task"
where
  "stream_to_segment d policy idx start expected [] t = (Stop (Inr ()), t)"
| "stream_to_segment d policy idx start expected (SeesCancel # es) t = (Stop (Inr ()), t)"
| "stream_to_segment d policy idx start expected (SeesPause # es) t = (Stop (Inr ()), t)"
| "stream_to_segment d policy idx start expected (StreamError e # es) t =
    (let err = from_reqwest_error e;
         t = t\<lparr>tk_attempt := tk_attempt t + 1\<rparr> in
     if should_retry policy (tk_attempt t - 1) err then (Again, t)
     else (Stop (Inl err), if is_retryable err then t else cancel_all t))"
| "stream_to_segment d policy idx start expected (WriteFails c n # es) t =
    (Escape (err_storage SkIo [] ''Write failed: ''),
     t\<lparr>tk_shared := (tk_shared t)\<lparr>ts_file :=
        write_at (start + tk_bytes t) (take n c) (ts_file (tk_shared t))\<rparr>\<rparr>)"
| "stream_to_segment d policy idx start expected (Chunk c # es) t =
    (let sh = (tk_shared t)\<lparr>ts_file := write_at (start + tk_bytes t) c (ts_file (tk_shared t))\<rparr>;
         segment_bytes = u64 (tk_bytes t + length c);
         t = t\<lparr>tk_bytes := segment_bytes, tk_shared := sh\<rparr> in
     if expected < segment_bytes then
       (Stop (Inl (err_protocol InvalidResponse (''Segment '' @ show_nat idx @ '' exceeded expected size''))), t)
     else
       (let total_downloaded = u64 (ts_downloaded sh + length c);
            t = t\<lparr>tk_shared := sh\<lparr>ts_progress := (ts_progress sh)[idx := segment_bytes],
                                 ts_downloaded := total_downloaded\<rparr>\<rparr> in
        if sd_total_size d < total_downloaded then
          (Stop (Inl (err_protocol InvalidResponse ''Download exceeded expected size: received '')), t)
        else stream_to_segment d policy idx start expected es t))"

section \<open>One attempt\<close>

definition choose_url :: "segmented_download \<Rightarrow> nat \<Rightarrow> task \<Rightarrow> string \<times> bool" where
  "choose_url d idx t =
    (case ts_mirrors (tk_shared t) of
       Some m \<Rightarrow> (let candidate = url_for_segment m (idx + tk_attempt t) in (candidate, candidate = sd_url d))
     | None \<Rightarrow> (sd_url d, True))"

text \<open>\<open>rsplit('/').next()\<close> and \<open>parse::<u64>\<close> on the Content-Range.\<close>

definition reported_total :: "string option \<Rightarrow> nat option" where
  "reported_total content_range =
    Option.bind content_range (\<lambda>cr. parse_unsigned (2 ^ 64) (last (split_char (CHR ''/'') cr)))"

definition retry_after :: "script \<Rightarrow> task \<Rightarrow> attempt_end \<times> task" where
  "retry_after scr t = (if at_sleep_cancelled scr then (Stop (Inr ()), t) else (Again, t))"

text \<open>After a failed stream the task sleeps before its next attempt.\<close>

definition stream_response ::
  "segmented_download \<Rightarrow> retry_policy \<Rightarrow> nat \<Rightarrow> nat \<Rightarrow> nat \<Rightarrow> script \<Rightarrow> stream_event list \<Rightarrow> task
    \<Rightarrow> attempt_end \<times> task"
where
  "stream_response d policy idx start range_end scr events t =
    (case stream_to_segment d policy idx start (range_end - start + 1) events t of
       (Again, t) \<Rightarrow> retry_after scr t
     | r \<Rightarrow> r)"

definition handle_response ::
  "segmented_download \<Rightarrow> retry_policy \<Rightarrow> nat \<Rightarrow> nat \<Rightarrow> nat \<Rightarrow> string \<Rightarrow> bool \<Rightarrow> script
    \<Rightarrow> http_response \<Rightarrow> stream_event list \<Rightarrow> task \<Rightarrow> attempt_end \<times> task"
where
  "handle_response d policy idx start range_end request_url is_primary scr response events t =
    (let status = hr_status response;
         resume_start = u64 (start + tk_bytes t) in
     if at_scope_error scr \<noteq> None then (Escape (the (at_scope_error scr)), t)
     else if status = 416 then
       (Stop (Inl (err_network (HttpStatus 416) (''Segment '' @ show_nat idx @ '' range not satisfiable (file may have changed on server)''))),
        cancel_all t)
     else if is_server_error status then
       (let t = penalize t request_url;
            err = err_network (HttpStatus status) (''Segment '' @ show_nat idx @ '' server error: '');
            t = t\<lparr>tk_attempt := tk_attempt t + 1\<rparr> in
        if should_retry policy (tk_attempt t - 1) err then retry_after scr t else (Stop (Inl err), t))
     else if \<not> is_success status then
       (Stop (Inl (err_network (HttpStatus status) (''Segment '' @ show_nat idx @ '' HTTP error: ''))), cancel_all t)
     else
       (let content_range = hr_header response ''content-range'';
            context =
              \<lparr>rc_sent_if_range = is_primary \<and> (sd_etag d \<noteq> None \<or> sd_last_modified d \<noteq> None),
               rc_expected_etag = (if is_primary then sd_etag d else None),
               rc_expected_last_modified = (if is_primary then sd_last_modified d else None),
               rc_response_etag = hr_header response ''etag'',
               rc_response_last_modified = hr_header response ''last-modified''\<rparr> in
        case validate_ranged_response resume_start (Some range_end) status content_range context of
          Inl e \<Rightarrow>
            if is_primary then (Stop (Inl e), t)
            else
              (let t = penalize t request_url;
                   t = t\<lparr>tk_attempt := tk_attempt t + 1\<rparr> in
               if tk_attempt t < rp_max_attempts policy then (Again, t) else (Stop (Inl e), t))
        | Inr _ \<Rightarrow>
            (case reported_total content_range of
               Some reported \<Rightarrow>
                 if reported \<noteq> sd_total_size d then
                   (let t = penalize t request_url;
                        err = err_protocol InvalidResponse (''Mirror '' @ request_url @ '' reports size '' @ show_nat reported) in
                    if is_primary then (Stop (Inl err), t)
                    else
                      (let t = t\<lparr>tk_attempt := tk_attempt t + 1\<rparr> in
                       if tk_attempt t < rp_max_attempts policy then (Again, t) else (Stop (Inl err), t)))
                 else stream_response d policy idx start range_end scr events t
             | None \<Rightarrow> stream_response d policy idx start range_end scr events t)))"

definition segment_attempt ::
  "server \<Rightarrow> segmented_download \<Rightarrow> retry_policy \<Rightarrow> nat \<Rightarrow> nat \<Rightarrow> nat \<Rightarrow> task \<Rightarrow> attempt_end \<times> task"
where
  "segment_attempt server d policy idx start range_end t =
    (let resume_start = u64 (start + tk_bytes t);
         (request_url, is_primary) = choose_url d idx t;
         scr = server (tk_attempt t) request_url resume_start range_end in
     if ts_fatal (tk_shared t) \<or> at_cancelled scr then (Stop (Inr ()), t)
     else if range_end < resume_start then (Stop (Inr ()), t)
     else
       (case at_reply scr of
          SendCancelled \<Rightarrow> (Stop (Inr ()), t)
        | SendError e \<Rightarrow>
            (let t = penalize t request_url;
                 err = from_reqwest_error e;
                 t = t\<lparr>tk_attempt := tk_attempt t + 1\<rparr> in
             if should_retry policy (tk_attempt t - 1) err then retry_after scr t
             else (Stop (Inl err), if is_retryable err then t else cancel_all t))
        | Reply response events \<Rightarrow>
            handle_response d policy idx start range_end request_url is_primary scr response events t))"

section \<open>The retry loop\<close>

lemma stream_attempts:
  assumes "stream_to_segment d policy idx start expected es t = (r, t')"
  shows "tk_attempt t \<le> tk_attempt t' \<and> (r = Again \<longrightarrow> tk_attempt t < tk_attempt t' \<and> tk_attempt t' \<le> rp_max_attempts policy)"
  using assms
  by (induction d policy idx start expected es t rule: stream_to_segment.induct)
    (auto simp: Let_def should_retry_def cancel_all_def split: if_splits)

lemma stream_response_attempts:
  assumes "stream_response d policy idx start range_end scr es t = (r, t')"
  shows "r = Again \<longrightarrow> tk_attempt t < tk_attempt t' \<and> tk_attempt t' \<le> rp_max_attempts policy"
  using assms
  by (auto simp: stream_response_def retry_after_def split: prod.splits attempt_end.splits if_splits
      dest: stream_attempts)

lemma handle_attempts:
  assumes "handle_response d policy idx start range_end url prim scr response es t = (r, t')"
  shows "r = Again \<longrightarrow> tk_attempt t < tk_attempt t' \<and> tk_attempt t' \<le> rp_max_attempts policy"
  using assms
  by (auto simp: handle_response_def Let_def should_retry_def retry_after_def penalize_def
      split: if_splits sum.splits option.splits dest: stream_response_attempts)

lemma segment_attempts:
  assumes "segment_attempt server d policy idx start range_end t = (Again, t')"
  shows "tk_attempt t < tk_attempt t' \<and> tk_attempt t' \<le> rp_max_attempts policy"
  using assms
  by (auto simp: segment_attempt_def Let_def should_retry_def retry_after_def penalize_def
      split: if_splits prod.splits reply.splits attempt_end.splits dest: handle_attempts)

function segment_loop ::
  "server \<Rightarrow> segmented_download \<Rightarrow> retry_policy \<Rightarrow> nat \<Rightarrow> nat \<Rightarrow> nat \<Rightarrow> task \<Rightarrow> attempt_end \<times> task"
where
  "segment_loop server d policy idx start range_end t =
    (case segment_attempt server d policy idx start range_end t of
       (Again, t') \<Rightarrow> segment_loop server d policy idx start range_end t'
     | r \<Rightarrow> r)"
  by pat_completeness auto

termination
  by (relation "measure (\<lambda>(_, _, policy, _, _, _, t). rp_max_attempts policy - tk_attempt t)")
    (auto dest!: segment_attempts [OF sym])

declare segment_loop.simps [simp del]

section \<open>The task and the run\<close>

definition segment_task ::
  "server \<Rightarrow> segmented_download \<Rightarrow> retry_policy \<Rightarrow> nat \<Rightarrow> segment \<Rightarrow> shared \<Rightarrow> shared \<times> unit result"
where
  "segment_task server d policy idx s sh =
    (if ts_fatal sh \<or> sd_paused d then (sh, Inr ())
     else
       (let start = sg_start s; range_end = sg_end s;
            sh = sh\<lparr>ts_active := u64 (ts_active sh + 1)\<rparr> in
        if range_end < u64 (start + sg_downloaded s) then
          (sh\<lparr>ts_active := u64_sub (ts_active sh) 1\<rparr>, Inr ())
        else
          (case segment_loop server d policy idx start range_end
                  \<lparr>tk_attempt = 0, tk_bytes = sg_downloaded s, tk_shared = sh\<rparr> of
             (Stop result, t) \<Rightarrow>
               ((tk_shared t)\<lparr>ts_active := u64_sub (ts_active (tk_shared t)) 1\<rparr>, result)
           | (Escape e, t) \<Rightarrow> (tk_shared t, Inl e)
           | (Again, t) \<Rightarrow> (tk_shared t, Inr ()))))"

fun run_tasks ::
  "(nat \<Rightarrow> server) \<Rightarrow> segmented_download \<Rightarrow> retry_policy \<Rightarrow> (nat \<times> segment) list \<Rightarrow> shared
    \<Rightarrow> shared \<times> unit result list"
where
  "run_tasks servers d policy [] sh = (sh, [])"
| "run_tasks servers d policy ((idx, s) # rest) sh =
    (if segment_is_complete s then run_tasks servers d policy rest sh
     else
       (let (sh, r) = segment_task (servers idx) d policy idx s sh;
            (sh, rs) = run_tasks servers d policy rest sh
        in (sh, r # rs)))"

text \<open>The aggregate of the tasks' errors, if there are any.\<close>

definition errors_of :: "unit result list \<Rightarrow> engine_error list" where
  "errors_of rs = List.map_filter (\<lambda>r. case r of Inl e \<Rightarrow> Some e | Inr _ \<Rightarrow> None) rs"

definition collect_errors :: "unit result list \<Rightarrow> engine_error option" where
  "collect_errors rs =
    (let errors = errors_of rs in
     if errors = [] then None
     else if list_ex should_restart_without_ranges errors then
       Some (err_protocol RangeNotSupported ''Segmented download requires restart without ranges: '')
     else
       Some (err_network (if list_ex is_retryable errors then ConnectionReset else NetOther)
         (''Download failed: '' @ show_nat (length errors) @ '' segment(s) failed: '')))"

text \<open>
  The environment of a run: the partial file that is there, failures of the file operations
  around the tasks, and whether the caller's token is cancelled at the end. \<open>set_len\<close> cuts the
  file or pads it with zeros.
\<close>

record run_env =
  re_part :: "bytes option"
  re_prepare_error :: "engine_error option"
  re_sync_error :: "engine_error option"
  re_rename_error :: "engine_error option"
  re_cancelled :: bool

definition prepare_file :: "nat \<Rightarrow> bytes option \<Rightarrow> bytes" where
  "prepare_file total_size part =
    (let b = (case part of Some b \<Rightarrow> b | None \<Rightarrow> []) in
     take total_size b @ replicate (total_size - length b) 0)"

text \<open>A run returns the download, the partial file and the final file it leaves, and the result.\<close>

definition start_segments ::
  "(nat \<Rightarrow> server) \<Rightarrow> run_env \<Rightarrow> segmented_download \<Rightarrow> retry_policy
    \<Rightarrow> segmented_download \<times> bytes option \<times> bytes option \<times> unit result"
where
  "start_segments servers env d policy =
    (case re_prepare_error env of
       Some e \<Rightarrow> (d, re_part env, None, Inl e)
     | None \<Rightarrow>
         (let sh = \<lparr>ts_file = prepare_file (sd_total_size d) (re_part env), ts_downloaded = sd_downloaded d,
                    ts_progress = sd_segment_progress d, ts_active = sd_active_connections d,
                    ts_fatal = False, ts_mirrors = sd_mirrors d\<rparr>;
              (sh, rs) = run_tasks servers d policy (enumerate 0 (sd_segments d)) sh;
              d' = d\<lparr>sd_downloaded := ts_downloaded sh, sd_segment_progress := ts_progress sh,
                     sd_active_connections := ts_active sh, sd_mirrors := ts_mirrors sh\<rparr>;
              fail = (\<lambda>e. (d', Some (ts_file sh), None, Inl e))
          in case collect_errors rs of
               Some e \<Rightarrow> fail e
             | None \<Rightarrow>
                 (case re_sync_error env of
                    Some e \<Rightarrow> fail e
                  | None \<Rightarrow>
                      if sd_downloaded d' \<noteq> sd_total_size d' then
                        fail (if re_cancelled env \<or> sd_paused d' then EShutdown
                          else err_protocol InvalidResponse ''Segmented download size mismatch: received '')
                      else
                        (case re_rename_error env of
                           Some e \<Rightarrow> fail e
                         | None \<Rightarrow> (d', None, Some (ts_file sh), Inr ())))))"

section \<open>An honest server\<close>

fun event_data :: "stream_event \<Rightarrow> bytes" where
  "event_data (Chunk c) = c"
| "event_data (WriteFails c n) = c"
| "event_data _ = []"

definition stream_data :: "stream_event list \<Rightarrow> bytes" where
  "stream_data es = concat (map event_data es)"

text \<open>
  The server keeps the file \<open>D\<close>: what arrives of an answer with status 206 is an initial piece of
  the bytes that were asked for. Which answers it gives, when it breaks off and how it chops the
  stream is open.
\<close>

definition honest_script :: "bytes \<Rightarrow> nat \<Rightarrow> nat \<Rightarrow> script \<Rightarrow> bool" where
  "honest_script D pos stop scr =
    (case at_reply scr of
       Reply response es \<Rightarrow>
         hr_status response = 206 \<longrightarrow>
           take (length (stream_data es)) (slice pos (stop + 1) D) = stream_data es
     | _ \<Rightarrow> True)"

definition honest :: "bytes \<Rightarrow> server \<Rightarrow> bool" where
  "honest D server \<longleftrightarrow> (\<forall>k url pos stop. honest_script D pos stop (server k url pos stop))"

section \<open>What a task does to the file\<close>

definition sound_task :: "bytes \<Rightarrow> segmented_download \<Rightarrow> nat \<Rightarrow> nat \<Rightarrow> nat \<Rightarrow> task \<Rightarrow> bool" where
  "sound_task D d idx start stop t \<longleftrightarrow>
    start \<le> stop \<and> stop < length D \<and> length D = sd_total_size d \<and> length D < 2 ^ 64
    \<and> length (ts_file (tk_shared t)) = length D
    \<and> tk_bytes t \<le> stop + 1 - start
    \<and> idx < length (ts_progress (tk_shared t)) \<and> ts_progress (tk_shared t) ! idx = tk_bytes t
    \<and> ts_downloaded (tk_shared t) + (stop + 1 - start - tk_bytes t) \<le> length D"

text \<open>
  Going from \<open>t\<close> to \<open>t'\<close>: bytes of the range only change to those of \<open>D\<close>, the bytes that became
  accounted for are those of \<open>D\<close>, and the counters moved with them.
\<close>

definition advances :: "bytes \<Rightarrow> nat \<Rightarrow> nat \<Rightarrow> nat \<Rightarrow> task \<Rightarrow> task \<Rightarrow> bool" where
  "advances D idx start stop t t' \<longleftrightarrow>
    tk_bytes t \<le> tk_bytes t' \<and> tk_bytes t' \<le> stop + 1 - start
    \<and> length (ts_file (tk_shared t')) = length (ts_file (tk_shared t))
    \<and> (\<forall>k < length D. ts_file (tk_shared t') ! k = ts_file (tk_shared t) ! k
        \<or> start + tk_bytes t \<le> k \<and> k \<le> stop \<and> ts_file (tk_shared t') ! k = D ! k)
    \<and> (\<forall>k. start + tk_bytes t \<le> k \<and> k < start + tk_bytes t' \<longrightarrow> ts_file (tk_shared t') ! k = D ! k)
    \<and> ts_progress (tk_shared t') = (ts_progress (tk_shared t))[idx := tk_bytes t']
    \<and> ts_downloaded (tk_shared t') = ts_downloaded (tk_shared t) + (tk_bytes t' - tk_bytes t)"

lemma advances_refl:
  "sound_task D d idx start stop t \<Longrightarrow> tk_bytes t' = tk_bytes t \<Longrightarrow>
    ts_file (tk_shared t') = ts_file (tk_shared t) \<Longrightarrow>
    ts_progress (tk_shared t') = ts_progress (tk_shared t) \<Longrightarrow>
    ts_downloaded (tk_shared t') = ts_downloaded (tk_shared t) \<Longrightarrow> advances D idx start stop t t'"
  by (auto simp: advances_def sound_task_def) (metis list_update_id)

lemma advances_sound:
  "sound_task D d idx start stop t \<Longrightarrow> advances D idx start stop t t' \<Longrightarrow> sound_task D d idx start stop t'"
  by (auto simp: advances_def sound_task_def)

lemma advances_trans:
  assumes "advances D idx start stop t t'" and "advances D idx start stop t' t''"
    and "sound_task D d idx start stop t"
  shows "advances D idx start stop t t''"
  unfolding advances_def
proof (intro conjI allI impI)
  have ft: "stop < length D" using assms(3) by (simp add: sound_task_def)
  show "tk_bytes t \<le> tk_bytes t''" "tk_bytes t'' \<le> stop + 1 - start"
    "length (ts_file (tk_shared t'')) = length (ts_file (tk_shared t))"
    "ts_progress (tk_shared t'') = (ts_progress (tk_shared t))[idx := tk_bytes t'']"
    "ts_downloaded (tk_shared t'') = ts_downloaded (tk_shared t) + (tk_bytes t'' - tk_bytes t)"
    using assms(1,2) by (auto simp: advances_def)
  show "ts_file (tk_shared t'') ! k = ts_file (tk_shared t) ! k
      \<or> start + tk_bytes t \<le> k \<and> k \<le> stop \<and> ts_file (tk_shared t'') ! k = D ! k" if "k < length D" for k
  proof -
    have "tk_bytes t \<le> tk_bytes t'" using assms(1) by (simp add: advances_def)
    moreover have "ts_file (tk_shared t'') ! k = ts_file (tk_shared t') ! k
        \<or> start + tk_bytes t' \<le> k \<and> k \<le> stop \<and> ts_file (tk_shared t'') ! k = D ! k"
      using assms(2) that by (simp add: advances_def)
    moreover have "ts_file (tk_shared t') ! k = ts_file (tk_shared t) ! k
        \<or> start + tk_bytes t \<le> k \<and> k \<le> stop \<and> ts_file (tk_shared t') ! k = D ! k"
      using assms(1) that by (simp add: advances_def)
    ultimately show ?thesis by (metis add_le_cancel_left order_trans)
  qed
  show "ts_file (tk_shared t'') ! k = D ! k"
    if k: "start + tk_bytes t \<le> k \<and> k < start + tk_bytes t''" for k
  proof (cases "k < start + tk_bytes t'")
    case True
    have "tk_bytes t' \<le> stop + 1 - start" using assms(1) by (simp add: advances_def)
    moreover have "start \<le> stop" using assms(3) by (simp add: sound_task_def)
    ultimately have "k < length D" using True ft by arith
    then have "ts_file (tk_shared t'') ! k = ts_file (tk_shared t') ! k \<or> ts_file (tk_shared t'') ! k = D ! k"
      using assms(2) by (auto simp: advances_def)
    moreover have "ts_file (tk_shared t') ! k = D ! k" using assms(1) True k by (simp add: advances_def)
    ultimately show ?thesis by metis
  next
    case False
    then show ?thesis using assms(2) k by (simp add: advances_def)
  qed
qed

lemma take_slice_split:
  assumes "take (length (xs @ ys)) (slice a b D) = xs @ ys"
  shows "take (length ys) (slice (a + length xs) b D) = ys"
    and "length xs \<le> b - a" and "\<And>j. j < length xs \<Longrightarrow> D ! (a + j) = xs ! j"
proof -
  have "min (length (slice a b D)) (length (xs @ ys)) = length (xs @ ys)"
    using arg_cong [OF assms, of length] by (simp only: length_take)
  then have le: "length (xs @ ys) \<le> length (slice a b D)" by linarith
  then show "length xs \<le> b - a" by simp
  have "slice (a + length xs) b D = drop (length xs) (slice a b D)"
    by (simp add: slice_def drop_take add.commute)
  moreover have "take (length ys) (drop (length xs) (slice a b D)) = drop (length xs) (xs @ ys)"
    by (subst assms [symmetric]) (simp add: drop_take)
  ultimately show "take (length ys) (slice (a + length xs) b D) = ys" by simp
  show "D ! (a + j) = xs ! j" if "j < length xs" for j
  proof -
    have "length xs + length ys \<le> length D - a" using le by simp
    then have "a \<le> length D" using that by arith
    then have "take (length (xs @ ys)) (slice a b D) ! j = D ! (a + j)"
      using that le by (simp add: slice_def)
    then show ?thesis using that unfolding assms by (simp add: nth_append)
  qed
qed

lemma write_advances:
  assumes sound: "sound_task D d idx start stop t"
    and le: "length c \<le> stop + 1 - (start + tk_bytes t)"
    and c: "\<And>j. j < length c \<Longrightarrow> D ! (start + tk_bytes t + j) = c ! j"
    and m: "m \<le> length c"
    and t': "tk_bytes t' = tk_bytes t + m"
      "ts_file (tk_shared t') = write_at (start + tk_bytes t) c (ts_file (tk_shared t))"
      "ts_progress (tk_shared t') = (ts_progress (tk_shared t))[idx := tk_bytes t + m]"
      "ts_downloaded (tk_shared t') = ts_downloaded (tk_shared t) + m"
  shows "advances D idx start stop t t'"
proof -
  note sd = sound [unfolded sound_task_def]
  have fit: "start + tk_bytes t + length c \<le> length (ts_file (tk_shared t))" using le sd by arith
  have new: "ts_file (tk_shared t') ! k =
      (if start + tk_bytes t \<le> k \<and> k < start + tk_bytes t + length c then D ! k else ts_file (tk_shared t) ! k)"
    if "k < length D" for k
  proof (cases "start + tk_bytes t \<le> k \<and> k < start + tk_bytes t + length c")
    case True
    then have "D ! k = c ! (k - (start + tk_bytes t))" using c [of "k - (start + tk_bytes t)"] by auto
    then show ?thesis using True that sd by (simp add: t'(2) nth_write_at [OF fit])
  next
    case False
    have k: "k < length (ts_file (tk_shared t))" using that sd by simp
    show ?thesis unfolding t'(2) nth_write_at [OF fit k] using False by argo
  qed
  have len: "length (ts_file (tk_shared t')) = length (ts_file (tk_shared t))"
    using fit by (simp add: t'(2))
  have bound: "tk_bytes t + m \<le> stop + 1 - start" using le m sd by arith
  show ?thesis
    unfolding advances_def t'(1)
  proof (intro conjI allI impI)
    show "ts_file (tk_shared t') ! k = ts_file (tk_shared t) ! k
        \<or> start + tk_bytes t \<le> k \<and> k \<le> stop \<and> ts_file (tk_shared t') ! k = D ! k" if "k < length D" for k
      using new [OF that] le by auto
    show "ts_file (tk_shared t') ! k = D ! k"
      if "start + tk_bytes t \<le> k \<and> k < start + (tk_bytes t + m)" for k
    proof -
      have "k < length D" using that bound sd by arith
      then show ?thesis using new that m by auto
    qed
  qed (use len bound t' in auto)
qed

lemma stream_advances:
  assumes "sound_task D d idx start stop t"
    and "take (length (stream_data es)) (slice (start + tk_bytes t) (stop + 1) D) = stream_data es"
    and "stream_to_segment d policy idx start (stop - start + 1) es t = (r, t')"
  shows "advances D idx start stop t t'"
  using assms
proof (induction es arbitrary: t)
  case Nil
  then show ?case by (auto intro: advances_refl)
next
  case (Cons ev es)
  note sound = Cons.prems(1)
  note sd = sound [unfolded sound_task_def]
  show ?case
  proof (cases ev)
    case (StreamError e)
    then show ?thesis
      using Cons.prems
      by (auto simp: Let_def cancel_all_def split: if_splits intro!: advances_refl [OF sound])
  next
    case SeesPause
    then show ?thesis using Cons.prems by (auto intro: advances_refl)
  next
    case SeesCancel
    then show ?thesis using Cons.prems by (auto intro: advances_refl)
  next
    case (WriteFails c n)
    note ts = take_slice_split [where xs = c and ys = "stream_data es",
        OF Cons.prems(2) [unfolded WriteFails stream_data_def list.map concat.simps event_data.simps, folded stream_data_def]]
    have t': "t' = t\<lparr>tk_shared := (tk_shared t)\<lparr>ts_file := write_at (start + tk_bytes t) (take n c) (ts_file (tk_shared t))\<rparr>\<rparr>"
      using Cons.prems(3) by (simp add: WriteFails)
    have "(ts_progress (tk_shared t))[idx := tk_bytes t] = ts_progress (tk_shared t)"
      using sd by (metis list_update_id)
    then show ?thesis
      by (intro write_advances [OF sound, where c = "take n c" and m = 0])
        (use ts(2,3) in \<open>auto simp: t'\<close>)
  next
    case (Chunk c)
    note ts = take_slice_split [where xs = c and ys = "stream_data es",
        OF Cons.prems(2) [unfolded Chunk stream_data_def list.map concat.simps event_data.simps, folded stream_data_def]]
    define t1 where "t1 = t\<lparr>tk_bytes := tk_bytes t + length c,
      tk_shared := (tk_shared t)\<lparr>ts_file := write_at (start + tk_bytes t) c (ts_file (tk_shared t)),
        ts_progress := (ts_progress (tk_shared t))[idx := tk_bytes t + length c],
        ts_downloaded := ts_downloaded (tk_shared t) + length c\<rparr>\<rparr>"
    have fit: "start + tk_bytes t + length c \<le> length (ts_file (tk_shared t))"
      and nb: "tk_bytes t + length c \<le> stop - start + 1"
      and nd: "ts_downloaded (tk_shared t) + length c \<le> sd_total_size d"
      using ts(2) sd by arith+
    have small: "u64 (tk_bytes t + length c) = tk_bytes t + length c"
      "u64 (ts_downloaded (tk_shared t) + length c) = ts_downloaded (tk_shared t) + length c"
      using nb nd sd by (intro u64_id; arith)+
    have run: "stream_to_segment d policy idx start (stop - start + 1) es t1 = (r, t')"
      using Cons.prems(3) nb nd by (simp add: Chunk Let_def small t1_def)
    have adv: "advances D idx start stop t t1"
      by (rule write_advances [OF sound, where c = c and m = "length c"])
        (use ts(2,3) in \<open>auto simp: t1_def\<close>)
    have "take (length (stream_data es)) (slice (start + tk_bytes t1) (stop + 1) D) = stream_data es"
      using ts(1) by (simp add: t1_def add.assoc)
    then have "advances D idx start stop t1 t'"
      by (rule Cons.IH [OF advances_sound [OF sound adv] _ run])
    then show ?thesis by (rule advances_trans [OF adv _ sound])
  qed
qed

lemma penalize_fields [simp]:
  "tk_bytes (penalize t u) = tk_bytes t" "tk_attempt (penalize t u) = tk_attempt t"
  "ts_file (tk_shared (penalize t u)) = ts_file (tk_shared t)"
  "ts_progress (tk_shared (penalize t u)) = ts_progress (tk_shared t)"
  "ts_downloaded (tk_shared (penalize t u)) = ts_downloaded (tk_shared t)"
  by (simp_all add: penalize_def)

lemma cancel_all_fields [simp]:
  "tk_bytes (cancel_all t) = tk_bytes t"
  "ts_file (tk_shared (cancel_all t)) = ts_file (tk_shared t)"
  "ts_progress (tk_shared (cancel_all t)) = ts_progress (tk_shared t)"
  "ts_downloaded (tk_shared (cancel_all t)) = ts_downloaded (tk_shared t)"
  by (simp_all add: cancel_all_def)

definition same_data :: "task \<Rightarrow> task \<Rightarrow> bool" where
  "same_data t t' \<longleftrightarrow> tk_bytes t' = tk_bytes t \<and> ts_file (tk_shared t') = ts_file (tk_shared t)
    \<and> ts_progress (tk_shared t') = ts_progress (tk_shared t)
    \<and> ts_downloaded (tk_shared t') = ts_downloaded (tk_shared t)"

lemma same_data_advances: "sound_task D d idx start stop t \<Longrightarrow> same_data t t' \<Longrightarrow> advances D idx start stop t t'"
  by (rule advances_refl) (simp_all add: same_data_def)

lemma accepted_is_206:
  "validate_ranged_response pos stop status cr ctx = Inr u \<Longrightarrow> status = 206"
  by (auto simp: validate_ranged_response_def split: if_splits)

lemma handle_advances:
  assumes sound: "sound_task D d idx start stop t"
    and honest: "hr_status response = 206 \<Longrightarrow>
      take (length (stream_data es)) (slice (start + tk_bytes t) (stop + 1) D) = stream_data es"
    and run: "handle_response d policy idx start stop url prim scr response es t = (r, t')"
  shows "advances D idx start stop t t'"
proof (cases "same_data t t'")
  case True
  then show ?thesis by (rule same_data_advances [OF sound])
next
  case False
  with run have ok: "hr_status response = 206"
    and st: "stream_response d policy idx start stop scr es t = (r, t')"
    by (auto simp: handle_response_def Let_def same_data_def retry_after_def
        split: if_splits sum.splits option.splits dest: accepted_is_206)
  from st obtain r2 where "stream_to_segment d policy idx start (stop - start + 1) es t = (r2, t')"
    by (auto simp: stream_response_def retry_after_def split: prod.splits attempt_end.splits if_splits)
  then show ?thesis by (rule stream_advances [OF sound honest [OF ok]])
qed

lemma attempt_advances:
  assumes sound: "sound_task D d idx start stop t" and honest: "honest D server"
    and run: "segment_attempt server d policy idx start stop t = (r, t')"
  shows "advances D idx start stop t t'"
proof (cases "same_data t t'")
  case True
  then show ?thesis by (rule same_data_advances [OF sound])
next
  case False
  note sd = sound [unfolded sound_task_def]
  have pos: "u64 (start + tk_bytes t) = start + tk_bytes t" using sd by (intro u64_id) arith
  obtain url prim where cu: "choose_url d idx t = (url, prim)" by force
  from run False obtain response es where
    rep: "at_reply (server (tk_attempt t) url (start + tk_bytes t) stop) = Reply response es"
    and h: "handle_response d policy idx start stop url prim
        (server (tk_attempt t) url (start + tk_bytes t) stop) response es t = (r, t')"
    by (auto simp: segment_attempt_def Let_def cu pos same_data_def retry_after_def
        split: if_splits reply.splits)
  have "honest_script D (start + tk_bytes t) stop (server (tk_attempt t) url (start + tk_bytes t) stop)"
    using honest by (simp add: honest_def)
  then show ?thesis
    by (intro handle_advances [OF sound _ h]) (simp add: honest_script_def rep)
qed

lemma loop_advances:
  assumes "sound_task D d idx start stop t" and "honest D server"
    and "segment_loop server d policy idx start stop t = (r, t')"
  shows "advances D idx start stop t t'"
  using assms
proof (induction server d policy idx start stop t rule: segment_loop.induct)
  case (1 server d policy idx start stop t)
  obtain r1 t1 where a: "segment_attempt server d policy idx start stop t = (r1, t1)" by force
  have adv: "advances D idx start stop t t1" by (rule attempt_advances [OF "1.prems"(1,2) a])
  show ?case
  proof (cases r1)
    case Again
    then have "segment_loop server d policy idx start stop t1 = (r, t')"
      using "1.prems"(3) a by (subst (asm) segment_loop.simps) simp
    then have "advances D idx start stop t1 t'"
      by (rule "1.IH" [OF a [symmetric] Again advances_sound [OF "1.prems"(1) adv] "1.prems"(2)])
    then show ?thesis by (rule advances_trans [OF adv _ "1.prems"(1)])
  qed (use "1.prems"(3) a adv in \<open>simp_all add: segment_loop.simps\<close>)
qed

section \<open>The whole file\<close>

text \<open>
  The shared state is sound: for each segment the recorded number of bytes is at most its size
  and that many bytes of the file are those of \<open>D\<close>; the counter is the sum.
\<close>

definition sound_shared :: "bytes \<Rightarrow> segment list \<Rightarrow> shared \<Rightarrow> bool" where
  "sound_shared D ss sh \<longleftrightarrow>
    length (ts_file sh) = length D \<and> length (ts_progress sh) = length ss
    \<and> (\<forall>i < length ss. ts_progress sh ! i \<le> sg_end (ss ! i) + 1 - sg_start (ss ! i)
        \<and> (\<forall>k. sg_start (ss ! i) \<le> k \<and> k < sg_start (ss ! i) + ts_progress sh ! i
              \<longrightarrow> ts_file sh ! k = D ! k))
    \<and> ts_downloaded sh = sum_list (ts_progress sh)"

lemma tiles_sizes:
  "tiles i a b ss \<Longrightarrow> sum_list (map (\<lambda>s. sg_end s + 1 - sg_start s) ss) = b - a"
proof (induction ss arbitrary: i a)
  case (Cons s ss)
  then have "sum_list (map (\<lambda>s. sg_end s + 1 - sg_start s) ss) = b - (sg_end s + 1)"
    by (intro Cons.IH [of "Suc i"]) simp
  then show ?case using Cons.prems by auto
qed simp

lemma sum_list_mono_nth:
  fixes xs ys :: "nat list"
  shows "length xs = length ys \<Longrightarrow> (\<And>i. i < length xs \<Longrightarrow> xs ! i \<le> ys ! i) \<Longrightarrow> sum_list xs \<le> sum_list ys"
proof (induction xs ys rule: list_induct2)
  case (Cons x xs y ys)
  have "xs ! i \<le> ys ! i" if "i < length xs" for i using Cons.prems [of "Suc i"] that by simp
  then show ?case using Cons.IH Cons.prems [of 0] by (simp add: add_mono)
qed simp

lemma sum_list_eq_nth:
  fixes xs ys :: "nat list"
  shows "length xs = length ys \<Longrightarrow> (\<And>i. i < length xs \<Longrightarrow> xs ! i \<le> ys ! i) \<Longrightarrow> sum_list xs = sum_list ys \<Longrightarrow> xs = ys"
proof (induction xs ys rule: list_induct2)
  case (Cons x xs y ys)
  have le: "xs ! i \<le> ys ! i" if "i < length xs" for i using Cons.prems(1) [of "Suc i"] that by simp
  then have "sum_list xs \<le> sum_list ys" by (rule sum_list_mono_nth [OF Cons.hyps])
  then show ?case using Cons.IH [OF le] Cons.prems(1) [of 0] Cons.prems(2) by simp
qed simp

lemma sound_shared_room:
  assumes t: "tiles 0 0 (length D) ss" and s: "sound_shared D ss sh" and i: "i < length ss"
  shows "ts_downloaded sh + (sg_end (ss ! i) + 1 - sg_start (ss ! i) - ts_progress sh ! i) \<le> length D"
proof -
  let ?n = "\<lambda>s. sg_end s + 1 - sg_start s"
  let ?q = "(ts_progress sh)[i := ?n (ss ! i)]"
  have len: "length (ts_progress sh) = length ss" using s by (simp add: sound_shared_def)
  have "sum_list ?q \<le> sum_list (map ?n ss)"
  proof (rule sum_list_mono_nth)
    fix j assume "j < length ?q"
    then show "?q ! j \<le> map ?n ss ! j"
      using s len by (cases "j = i") (auto simp: sound_shared_def)
  qed (simp add: len)
  also have "\<dots> = length D" using tiles_sizes [OF t] by simp
  finally have "sum_list ?q \<le> length D" .
  moreover have "sum_list ?q = sum_list (ts_progress sh) + ?n (ss ! i) - ts_progress sh ! i"
    using i len by (intro sum_list_update) simp
  moreover have "ts_progress sh ! i \<le> ?n (ss ! i)" using s i by (simp add: sound_shared_def)
  ultimately show ?thesis using s by (simp add: sound_shared_def)
qed

lemma segment_task_sound:
  assumes t: "tiles 0 0 (length D) ss" and D: "length D = sd_total_size d" "length D < 2 ^ 64"
    and s: "sound_shared D ss sh" and i: "i < length ss"
    and p: "ts_progress sh ! i = sg_downloaded (ss ! i)" and honest: "honest D server"
    and run: "segment_task server d policy i (ss ! i) sh = (sh', r)"
  shows "sound_shared D ss sh' \<and> (\<forall>j < length ss. j \<noteq> i \<longrightarrow> ts_progress sh' ! j = ts_progress sh ! j)"
proof -
  let ?s = "ss ! i"
  define sh1 where "sh1 = sh\<lparr>ts_active := u64 (ts_active sh + 1)\<rparr>"
  define t0 where "t0 = \<lparr>tk_attempt = 0, tk_bytes = sg_downloaded ?s, tk_shared = sh1\<rparr>"
  have ti: "sg_start ?s \<le> sg_end ?s" "sg_end ?s < length D"
    using tiles_nth [OF t i] by auto
  have "sg_downloaded ?s \<le> sg_end ?s + 1 - sg_start ?s"
    using s i unfolding p [symmetric] by (simp add: sound_shared_def)
  then have sound: "sound_task D d i (sg_start ?s) (sg_end ?s) t0"
    using s i p ti D sound_shared_room [OF t s i]
    by (simp add: sound_task_def t0_def sh1_def sound_shared_def)
  consider (idle) "ts_file sh' = ts_file sh" "ts_progress sh' = ts_progress sh" "ts_downloaded sh' = ts_downloaded sh"
    | (ran) r' t' where "segment_loop server d policy i (sg_start ?s) (sg_end ?s) t0 = (r', t')"
        "ts_file sh' = ts_file (tk_shared t')" "ts_progress sh' = ts_progress (tk_shared t')"
        "ts_downloaded sh' = ts_downloaded (tk_shared t')"
  proof -
    obtain r' t' where l: "segment_loop server d policy i (sg_start ?s) (sg_end ?s) t0 = (r', t')" by force
    have "ts_file sh' = ts_file sh \<and> ts_progress sh' = ts_progress sh \<and> ts_downloaded sh' = ts_downloaded sh
      \<or> ts_file sh' = ts_file (tk_shared t') \<and> ts_progress sh' = ts_progress (tk_shared t')
        \<and> ts_downloaded sh' = ts_downloaded (tk_shared t')"
      using run l
      by (auto simp: segment_task_def Let_def t0_def sh1_def split: if_splits attempt_end.splits)
    then show thesis using that l by blast
  qed
  then show ?thesis
  proof cases
    case idle
    then show ?thesis using s by (simp add: sound_shared_def)
  next
    case ran
    have adv: "advances D i (sg_start ?s) (sg_end ?s) t0 t'"
      by (rule loop_advances [OF sound honest ran(1)])
    define n where "n = tk_bytes t'"
    have len: "length (ts_progress sh) = length ss" using s by (simp add: sound_shared_def)
    have prog: "ts_progress sh' = (ts_progress sh)[i := n]"
      using adv ran(3) by (simp add: advances_def n_def t0_def sh1_def)
    have n: "sg_downloaded ?s \<le> n" "n \<le> sg_end ?s + 1 - sg_start ?s"
      using adv by (simp_all add: advances_def n_def t0_def)
    have new: "ts_file sh' ! k = ts_file sh ! k \<or> sg_start ?s \<le> k \<and> k \<le> sg_end ?s \<and> ts_file sh' ! k = D ! k"
      if "k < length D" for k
      using adv ran(2) that by (auto simp: advances_def t0_def sh1_def)
    have own: "ts_file sh' ! k = D ! k" if k: "sg_start ?s \<le> k" "k < sg_start ?s + n" for k
    proof (cases "k < sg_start ?s + sg_downloaded ?s")
      case True
      then have "ts_file sh ! k = D ! k" using s i p k by (auto simp: sound_shared_def)
      moreover have "k < length D" using k n ti by arith
      ultimately show ?thesis using new by metis
    next
      case False
      then show ?thesis using adv ran(2) k by (simp add: advances_def t0_def sh1_def n_def)
    qed
    have other: "ts_file sh' ! k = D ! k"
      if j: "j < length ss" "j \<noteq> i" and k: "sg_start (ss ! j) \<le> k" "k < sg_start (ss ! j) + ts_progress sh ! j" for j k
    proof -
      have "ts_progress sh ! j \<le> sg_end (ss ! j) + 1 - sg_start (ss ! j)"
        and same: "ts_file sh ! k = D ! k" using s j k by (auto simp: sound_shared_def)
      then have "k \<le> sg_end (ss ! j)" using k by arith
      then have "k < length D" using tiles_nth [OF t j(1)] by simp
      then show ?thesis using new same by metis
    qed
    have sum: "ts_downloaded sh' = sum_list (ts_progress sh')"
    proof -
      have "ts_downloaded sh' = ts_downloaded sh + (n - sg_downloaded ?s)"
        using adv ran(4) by (simp add: advances_def n_def t0_def sh1_def)
      moreover have "sum_list (ts_progress sh') = sum_list (ts_progress sh) + n - ts_progress sh ! i"
        unfolding prog using i len by (intro sum_list_update) simp
      ultimately show ?thesis using s n p by (simp add: sound_shared_def)
    qed
    have "length (ts_file sh') = length D"
      using adv ran(2) s by (simp add: advances_def t0_def sh1_def sound_shared_def)
    then have "sound_shared D ss sh'"
      using s prog len n own other sum i
      by (auto simp: sound_shared_def nth_list_update)
    then show ?thesis using prog by simp
  qed
qed

lemma run_tasks_sound:
  assumes t: "tiles 0 0 (length D) ss" and D: "length D = sd_total_size d" "length D < 2 ^ 64"
    and honest: "\<And>i. honest D (servers i)"
  shows "sound_shared D ss sh \<Longrightarrow> (\<And>j. i \<le> j \<Longrightarrow> j < length ss \<Longrightarrow> ts_progress sh ! j = sg_downloaded (ss ! j)) \<Longrightarrow>
    run_tasks servers d policy (enumerate i (drop i ss)) sh = (sh', rs) \<Longrightarrow> sound_shared D ss sh'"
proof (induction "length ss - i" arbitrary: i sh rs)
  case 0
  then show ?case by simp
next
  case (Suc n)
  then have i: "i < length ss" by simp
  then have "drop i ss = ss ! i # drop (Suc i) ss" by (simp add: Cons_nth_drop_Suc)
  then have en: "enumerate i (drop i ss) = (i, ss ! i) # enumerate (Suc i) (drop (Suc i) ss)" by simp
  have n: "n = length ss - Suc i" using Suc.hyps(2) by simp
  show ?case
  proof (cases "segment_is_complete (ss ! i)")
    case True
    then have run: "run_tasks servers d policy (enumerate (Suc i) (drop (Suc i) ss)) sh = (sh', rs)"
      using Suc.prems(3) en by simp
    show ?thesis by (rule Suc.hyps(1) [OF n Suc.prems(1) _ run]) (simp add: Suc.prems(2))
  next
    case False
    obtain sh1 r where st: "segment_task (servers i) d policy i (ss ! i) sh = (sh1, r)" by force
    then obtain rs' where run: "run_tasks servers d policy (enumerate (Suc i) (drop (Suc i) ss)) sh1 = (sh', rs')"
      using Suc.prems(3) False by (auto simp: en split: prod.splits)
    note so = segment_task_sound [OF t D Suc.prems(1) i Suc.prems(2) [OF order_refl i] honest st]
    show ?thesis
      by (rule Suc.hyps(1) [OF n _ _ run]) (use so Suc.prems(2) in auto)
  qed
qed

lemma complete_file:
  assumes t: "tiles 0 0 (length D) ss" and s: "sound_shared D ss sh" and c: "ts_downloaded sh = length D"
  shows "ts_file sh = D"
proof -
  let ?n = "\<lambda>s. sg_end s + 1 - sg_start s"
  have "ts_progress sh = map ?n ss"
    by (rule sum_list_eq_nth) (use s c tiles_sizes [OF t] in \<open>auto simp: sound_shared_def\<close>)
  then have all: "ts_file sh ! k = D ! k"
    if "i < length ss" "sg_start (ss ! i) \<le> k" "k \<le> sg_end (ss ! i)" for i k
    using s that by (auto simp: sound_shared_def)
  have "ts_file sh ! k = D ! k" if "k < length D" for k
  proof -
    have "k \<in> set (concat (map span ss))" using that unfolding tiles_spans [OF t] by simp
    then obtain i where "i < length ss" "sg_start (ss ! i) \<le> k" "k \<le> sg_end (ss ! i)"
      by (auto simp: span_def in_set_conv_nth)
    then show ?thesis by (rule all)
  qed
  then show ?thesis using s by (intro nth_equalityI) (simp_all add: sound_shared_def)
qed

section \<open>A segmented download is correct\<close>

text \<open>
  Saved segments are safe to resume with a partial file: they tile the file, and the bytes each
  claims are there and are those of \<open>D\<close>.
\<close>

definition resumable :: "bytes \<Rightarrow> segment list \<Rightarrow> bytes option \<Rightarrow> bool" where
  "resumable D ss part \<longleftrightarrow>
    tiles 0 0 (length D) ss
    \<and> (\<forall>i < length ss. sg_downloaded (ss ! i) \<le> sg_end (ss ! i) + 1 - sg_start (ss ! i)
        \<and> (\<forall>k. sg_start (ss ! i) \<le> k \<and> k < sg_start (ss ! i) + sg_downloaded (ss ! i) \<longrightarrow>
              (case part of None \<Rightarrow> False | Some p \<Rightarrow> k < length p \<and> p ! k = D ! k)))"

definition in_step :: "segmented_download \<Rightarrow> bool" where
  "in_step d \<longleftrightarrow> sd_segment_progress d = map sg_downloaded (sd_segments d)
    \<and> sd_downloaded d = sum_list (sd_segment_progress d)"

lemma in_step_init:
  "sd_downloaded d = 0 \<Longrightarrow> init_segments d n m = Some d' \<Longrightarrow> in_step d'"
  by (auto simp: init_segments_def in_step_def init_segment_def segment_new_def Let_def
      intro: nth_equalityI split: option.splits)

lemma in_step_restore:
  assumes "resumable D ss part" and "length D < 2 ^ 64"
  shows "in_step (restore_segments d ss)"
proof -
  have "sum_list (map sg_downloaded ss) \<le> sum_list (map (\<lambda>s. sg_end s + 1 - sg_start s) ss)"
    by (rule sum_list_mono_nth) (use assms(1) in \<open>auto simp: resumable_def\<close>)
  then have "sum_list (map sg_downloaded ss) < 2 ^ 64"
    using tiles_sizes [of 0 0 "length D" ss] assms by (simp add: resumable_def)
  then show ?thesis by (simp add: in_step_def restore_segments_def)
qed

lemma prepare_file_nth:
  "length (prepare_file n part) = n"
  "part = Some p \<Longrightarrow> k < length p \<Longrightarrow> k < n \<Longrightarrow> prepare_file n part ! k = p ! k"
  by (auto simp: prepare_file_def nth_append split: option.splits)

lemma resumable_sound:
  assumes "resumable D ss part" and "ts_file sh = prepare_file (length D) part"
    and "ts_progress sh = map sg_downloaded ss" and "ts_downloaded sh = sum_list (ts_progress sh)"
  shows "sound_shared D ss sh"
proof -
  have "ts_file sh ! k = D ! k"
    if "i < length ss" "sg_start (ss ! i) \<le> k" "k < sg_start (ss ! i) + sg_downloaded (ss ! i)" for i k
  proof -
    have t: "tiles 0 0 (length D) ss" using assms(1) unfolding resumable_def by blast
    have r: "sg_downloaded (ss ! i) \<le> sg_end (ss ! i) + 1 - sg_start (ss ! i)"
      "case part of None \<Rightarrow> False | Some p \<Rightarrow> k < length p \<and> p ! k = D ! k"
      using assms(1) that unfolding resumable_def by blast+
    have "k < length D" using tiles_nth [OF t that(1)] r(1) that by arith
    moreover have "\<exists>p. part = Some p \<and> k < length p \<and> p ! k = D ! k"
      using r(2) by (cases part) auto
    ultimately show ?thesis using prepare_file_nth(2) assms(2) by metis
  qed
  then show ?thesis
    using assms(1) unfolding sound_shared_def resumable_def assms(2-4)
    by (simp add: prepare_file_nth(1) [of "length D"])
qed

lemma with_progress_fields [simp]:
  "sg_index (with_progress ps i s) = sg_index s" "sg_start (with_progress ps i s) = sg_start s"
  "sg_end (with_progress ps i s) = sg_end s"
  "i < length ps \<Longrightarrow> sg_downloaded (with_progress ps i s) = ps ! i"
  by (simp_all add: with_progress_def Let_def)

lemma tiles_cong:
  "length ss' = length ss \<Longrightarrow>
    (\<And>k. k < length ss \<Longrightarrow> sg_index (ss' ! k) = sg_index (ss ! k) \<and> sg_start (ss' ! k) = sg_start (ss ! k)
        \<and> sg_end (ss' ! k) = sg_end (ss ! k)) \<Longrightarrow> tiles i a b ss' = tiles i a b ss"
proof (induction ss' ss arbitrary: i a rule: list_induct2)
  case (Cons x xs y ys)
  have "tiles (Suc i) (sg_end y + 1) b xs = tiles (Suc i) (sg_end y + 1) b ys"
    by (rule Cons.IH) (use Cons.prems [of "Suc k" for k] in auto)
  then show ?case using Cons.prems [of 0] by simp
qed simp

lemma resumable_cong:
  assumes "length ss' = length ss"
    and "\<And>k. k < length ss \<Longrightarrow> sg_index (ss' ! k) = sg_index (ss ! k) \<and> sg_start (ss' ! k) = sg_start (ss ! k)
        \<and> sg_end (ss' ! k) = sg_end (ss ! k) \<and> sg_downloaded (ss' ! k) = sg_downloaded (ss ! k)"
  shows "resumable D ss' part = resumable D ss part"
proof -
  have "tiles 0 0 (length D) ss' = tiles 0 0 (length D) ss"
    by (rule tiles_cong [OF assms(1)]) (use assms(2) in blast)
  then show ?thesis unfolding resumable_def assms(1) using assms(2) by simp
qed

lemma sound_resumable:
  assumes "tiles 0 0 (length D) (sd_segments d)" and "sound_shared D (sd_segments d) sh"
    and "sd_segment_progress d = ts_progress sh"
  shows "resumable D (segments_with_progress d) (Some (ts_file sh))"
proof -
  let ?ss = "sd_segments d"
  have len: "length (segments_with_progress d) = length ?ss" by (simp add: segments_with_progress_def)
  have nth: "segments_with_progress d ! i = with_progress (ts_progress sh) i (?ss ! i)" if "i < length ?ss" for i
    using that assms(3) by (simp add: segments_with_progress_def nth_enumerate_eq)
  have pl: "length (ts_progress sh) = length ?ss" using assms(2) by (simp add: sound_shared_def)
  have "tiles 0 0 (length D) (segments_with_progress d)"
    using assms(1) by (subst tiles_cong [OF len]) (simp_all add: nth)
  moreover have "k < length D" if "i < length ?ss" "k < sg_start (?ss ! i) + ts_progress sh ! i" for i k
  proof -
    have "sg_start (?ss ! i) \<le> sg_end (?ss ! i)" "sg_end (?ss ! i) < length D"
      "ts_progress sh ! i \<le> sg_end (?ss ! i) + 1 - sg_start (?ss ! i)"
      using assms(2) tiles_nth [OF assms(1) that(1)] that(1) by (auto simp: sound_shared_def)
    then show ?thesis using that(2) by arith
  qed
  ultimately show ?thesis
    using assms(2) by (auto simp: resumable_def len nth pl sound_shared_def)
qed

text \<open>C3. Let the servers keep the file \<open>D\<close>, whatever errors, cut streams and odd answers they produce,
  and start from segments that are fresh or safe to resume. If the download succeeds, the final
  file is exactly \<open>D\<close>. Otherwise there is no final file, and the segments as they are then
  persisted are again safe to resume with the partial file that is left.\<close>

theorem segmented_download_correct:
  assumes "resumable D (sd_segments d) (re_part env)" and "in_step d"
    and "length D = sd_total_size d" and "length D < 2 ^ 64" and "\<And>i. honest D (servers i)"
    and "start_segments servers env d policy = (d', part, final, r)"
  shows "if r = Inr () then final = Some D
    else final = None \<and> resumable D (segments_with_progress d') part"
proof (cases "re_prepare_error env")
  case (Some e)
  have "segments_with_progress d = map (\<lambda>(i, s). with_progress (map sg_downloaded (sd_segments d)) i s)
      (enumerate 0 (sd_segments d))"
    using assms(2) by (simp add: segments_with_progress_def in_step_def)
  then have len: "length (segments_with_progress d) = length (sd_segments d)"
    and nth: "i < length (sd_segments d) \<Longrightarrow> segments_with_progress d ! i
      = with_progress (map sg_downloaded (sd_segments d)) i (sd_segments d ! i)" for i
    by (simp_all add: nth_enumerate_eq)
  have "resumable D (segments_with_progress d) (re_part env)"
    using assms(1) by (subst resumable_cong [OF len]) (simp_all add: nth)
  then show ?thesis using assms(6) Some by (auto simp: start_segments_def)
next
  case None
  define sh where "sh = \<lparr>ts_file = prepare_file (sd_total_size d) (re_part env), ts_downloaded = sd_downloaded d,
    ts_progress = sd_segment_progress d, ts_active = sd_active_connections d, ts_fatal = False,
    ts_mirrors = sd_mirrors d\<rparr>"
  obtain sh' rs where run: "run_tasks servers d policy (enumerate 0 (sd_segments d)) sh = (sh', rs)" by force
  have t: "tiles 0 0 (length D) (sd_segments d)" using assms(1) by (simp add: resumable_def)
  have "sound_shared D (sd_segments d) sh"
    by (rule resumable_sound [OF assms(1)]) (use assms(2,3) in \<open>simp_all add: sh_def in_step_def\<close>)
  then have sound: "sound_shared D (sd_segments d) sh'"
    using run_tasks_sound [OF t assms(3,4), of servers sh 0 policy sh' rs] assms(2,5) run
    by (simp add: sh_def in_step_def)
  define d2 where "d2 = d\<lparr>sd_downloaded := ts_downloaded sh', sd_segment_progress := ts_progress sh',
    sd_active_connections := ts_active sh', sd_mirrors := ts_mirrors sh'\<rparr>"
  have res: "resumable D (segments_with_progress d2) (Some (ts_file sh'))"
    using sound_resumable [of D d2 sh'] t sound by (simp add: d2_def)
  consider (ok) "d' = d2" "part = None" "final = Some (ts_file sh')" "r = Inr ()" "ts_downloaded sh' = length D"
    | (bad) e where "d' = d2" "part = Some (ts_file sh')" "final = None" "r = Inl e"
    using assms(3,6) None run
    by (auto simp: start_segments_def Let_def sh_def d2_def split: option.splits if_splits)
  then show ?thesis
  proof cases
    case ok
    then show ?thesis using complete_file [OF t sound] by simp
  next
    case bad
    then show ?thesis using res by simp
  qed
qed

text \<open>A server that answers every request in full, or with more than was asked for.\<close>

definition serving :: "bytes \<Rightarrow> bytes \<Rightarrow> server" where
  "serving D extra k url pos stop =
    \<lparr>at_cancelled = False,
     at_reply = Reply
       \<lparr>hr_status = 206,
        hr_header = (\<lambda>h. if h = ''content-range'' then
          Some (''bytes '' @ show_nat pos @ ''-'' @ show_nat stop @ ''/'' @ show_nat (length D)) else None)\<rparr>
       [Chunk (slice pos (stop + 1) D @ extra)],
     at_scope_error = None, at_sleep_cancelled = False\<rparr>"

lemma serving_honest: "honest D (serving D [])"
  by (simp add: honest_def honest_script_def serving_def stream_data_def)

lemma reported_total_show:
  assumes "t < 2 ^ 64"
  shows "reported_total (Some (''bytes '' @ show_nat a @ ''-'' @ show_nat b @ ''/'' @ show_nat t)) = Some t"
proof -
  have "last (split_char (CHR ''/'') ((''bytes '' @ show_nat a @ ''-'' @ show_nat b) @ CHR ''/'' # show_nat t)) = show_nat t"
    unfolding split_char_append by (simp add: show_nat_avoids)
  then show ?thesis using assms by (simp add: reported_total_def)
qed

lemma validate_show:
  "a < 2 ^ 64 \<Longrightarrow> b < 2 ^ 64 \<Longrightarrow> t < 2 ^ 64 \<Longrightarrow>
    validate_ranged_response a (Some b) 206 (Some (''bytes '' @ show_nat a @ ''-'' @ show_nat b @ ''/'' @ show_nat t)) ctx = Inr ()"
  using parse_content_range_show [of a b t]
  by (simp add: validate_ranged_response_def validate_resumed_position_def)

lemma serving_attempt:
  assumes "sd_mirrors d = None" and "ts_mirrors (tk_shared t) = None" and "\<not> ts_fatal (tk_shared t)"
    and "start + tk_bytes t \<le> stop" and "stop < 2 ^ 64" and "sd_total_size d = length D" and "length D < 2 ^ 64"
  shows "segment_attempt (serving D extra) d policy idx start stop t =
    (case stream_to_segment d policy idx start (stop - start + 1)
        [Chunk (slice (start + tk_bytes t) (stop + 1) D @ extra)] t of
       (Again, t) \<Rightarrow> (Again, t) | r \<Rightarrow> r)"
proof -
  have pos: "start + tk_bytes t < 2 ^ 64" using assms by arith
  show ?thesis
    using assms pos validate_show [OF pos assms(5,7)] reported_total_show [OF assms(7), of "start + tk_bytes t" stop]
    by (simp add: segment_attempt_def handle_response_def serving_def choose_url_def stream_response_def
        retry_after_def is_server_error_def is_success_def Let_def)
qed

definition two_bytes :: "segment_state \<Rightarrow> segmented_download" where
  "two_bytes state = restore_segments (segmented_new 0 ''http://h/f'' 2 ''f'' None None)
    [segment_new 0 0 0, \<lparr>sg_index = 1, sg_start = 1, sg_end = 1, sg_downloaded = 1, sg_state = state\<rparr>]"

definition plain_env :: "bytes option \<Rightarrow> run_env" where
  "plain_env part = \<lparr>re_part = part, re_prepare_error = None, re_sync_error = None,
    re_rename_error = None, re_cancelled = False\<rparr>"

lemma two_bytes_resumable: "resumable [1, 2] (sd_segments (two_bytes st)) (Some [x, 2])"
  by (auto simp: resumable_def two_bytes_def restore_segments_def segment_new_def less_Suc_eq numeral_2_eq_2)

lemmas two_bytes_eval =
  two_bytes_def restore_segments_def segmented_new_def plain_env_def segment_new_def start_segments_def
  segment_task_def segment_loop.simps serving_attempt segment_is_complete_def prepare_file_def
  slice_def write_at_def collect_errors_def errors_of_def List.map_filter_def err_protocol_def Let_def

lemma segmented_download_correct_witness:
  "snd (snd (start_segments (\<lambda>_. serving [1, 2] []) (plain_env (Some [0, 2])) (two_bytes SCompleted)
     default_retry_policy)) = (Some [1, 2], Inr ())"
proof -
  obtain d' part final r where run: "start_segments (\<lambda>_. serving [1, 2] []) (plain_env (Some [0, 2]))
      (two_bytes SCompleted) default_retry_policy = (d', part, final, r)"
    by (metis prod_cases4)
  have "r = Inr ()"
    using arg_cong [OF run, of "\<lambda>x. snd (snd (snd x))"] by (simp add: two_bytes_eval)
  moreover have "if r = Inr () then final = Some [1, 2]
      else final = None \<and> resumable [1, 2] (segments_with_progress d') part"
  proof (rule segmented_download_correct [OF _ _ _ _ _ run])
    show "resumable [1, 2] (sd_segments (two_bytes SCompleted)) (re_part (plain_env (Some [0, 2])))"
      by (simp add: plain_env_def two_bytes_resumable)
  qed (simp_all add: serving_honest in_step_def two_bytes_def restore_segments_def segmented_new_def segment_new_def)
  ultimately show ?thesis using run by simp
qed

text \<open>A response that carries more bytes than its range is rejected only after the chunk has been
  written: it overwrites bytes of the next segment, whose recorded progress is not taken back, so
  what is persisted is no longer safe to resume although it was before.\<close>

theorem overrun_corrupts_neighbour:
  "resumable [1, 2] (sd_segments (two_bytes SCompleted)) (Some [0, 2])
   \<and> (let (d', part, final, r) = start_segments (\<lambda>_. serving [1, 2] [9]) (plain_env (Some [0, 2]))
         (two_bytes SCompleted) default_retry_policy
      in r \<noteq> Inr () \<and> part = Some [1, 9] \<and> segment_is_complete (segments_with_progress d' ! 1)
         \<and> \<not> resumable [1, 2] (segments_with_progress d') part)"
proof -
  obtain d' part final r where run: "start_segments (\<lambda>_. serving [1, 2] [9]) (plain_env (Some [0, 2]))
      (two_bytes SCompleted) default_retry_policy = (d', part, final, r)"
    by (metis prod_cases4)
  have r: "r \<noteq> Inr ()"
    using arg_cong [OF run, of "\<lambda>x. snd (snd (snd x))"] by (auto simp: two_bytes_eval)
  have part: "part = Some [1, 9]"
    using arg_cong [OF run, of "\<lambda>x. fst (snd x)"] by (simp add: two_bytes_eval)
  have segs: "segments_with_progress d' = [segment_new 0 0 0, \<lparr>sg_index = 1, sg_start = 1, sg_end = 1,
      sg_downloaded = 1, sg_state = SCompleted\<rparr>]"
    using arg_cong [OF run, of "\<lambda>x. segments_with_progress (fst x)", symmetric]
    by (simp add: two_bytes_eval segments_with_progress_def with_progress_def segment_size_def)
  have "\<not> resumable [1, 2] (segments_with_progress d') part"
    unfolding segs part by (auto simp: resumable_def segment_new_def intro!: exI [of _ 1])
  then show ?thesis
    using r part segs two_bytes_resumable by (simp add: run segment_is_complete_def)
qed

end
