(* ===== verification/Wire.thy ===== *)
theory Wire
  imports Prelude
begin

text \<open>
  Two things the network protocols share: integers in network byte order (Rust's
  \<open>to_be_bytes\<close> and \<open>from_be_bytes\<close> at widths 16 and 32), and the ordered map
  (\<open>std::collections::BTreeMap\<close>) as an association list sorted by key.
\<close>

section \<open>Network byte order\<close>

definition be16 :: "16 word \<Rightarrow> bytes" where
  "be16 w = [ucast (drop_bit 8 w), ucast w]"

definition of_be16 :: "byte \<Rightarrow> byte \<Rightarrow> 16 word" where
  "of_be16 a b = or (push_bit 8 (ucast a)) (ucast b)"

definition be32 :: "32 word \<Rightarrow> bytes" where
  "be32 w = [ucast (drop_bit 24 w), ucast (drop_bit 16 w), ucast (drop_bit 8 w), ucast w]"

definition of_be32 :: "byte \<Rightarrow> byte \<Rightarrow> byte \<Rightarrow> byte \<Rightarrow> 32 word" where
  "of_be32 a b c d =
    or (or (push_bit 24 (ucast a)) (push_bit 16 (ucast b))) (or (push_bit 8 (ucast c)) (ucast d))"

lemma length_be [simp]: "length (be16 w) = 2" "length (be32 v) = 4"
  by (simp_all add: be16_def be32_def)

lemma of_be16_be16 [simp, codec]: "of_be16 (ucast (drop_bit 8 w)) (ucast w) = w"
  unfolding of_be16_def
  by (rule bit_word_eqI) (auto simp: bit_simps)

lemma of_be32_be32 [simp, codec]:
  "of_be32 (ucast (drop_bit 24 w)) (ucast (drop_bit 16 w)) (ucast (drop_bit 8 w)) (ucast w) = w"
proof (rule bit_word_eqI)
  fix n assume n: "n < LENGTH(32)"
  consider "n < 8" | "8 \<le> n" "n < 16" | "16 \<le> n" "n < 24" | "24 \<le> n" by linarith
  then show "bit (of_be32 (ucast (drop_bit 24 w)) (ucast (drop_bit 16 w)) (ucast (drop_bit 8 w)) (ucast w)) n
      \<longleftrightarrow> bit w n"
    using n by cases (auto simp: of_be32_def bit_simps)
qed

text \<open>Bits of a byte counted from the most significant one.\<close>

lemma bit_0x80: "bit (0x80 :: byte) n \<longleftrightarrow> n = 7"
proof (cases "n < 8")
  case True
  then have "n \<in> {0, 1, 2, 3, 4, 5, 6, 7}" by auto
  then show ?thesis by auto
next
  case False
  then show ?thesis using bit_imp_le_length [of "0x80 :: byte" n] by auto
qed

lemma bit_drop_0x80: "k < 8 \<Longrightarrow> bit (drop_bit k (0x80 :: byte)) n \<longleftrightarrow> n = 7 - k"
  unfolding bit_drop_bit_eq comp_def bit_0x80 by arith

lemma and_drop_0x80: "k < 8 \<Longrightarrow> and b (drop_bit k (0x80 :: byte)) \<noteq> 0 \<longleftrightarrow> bit b (7 - k)"
  using bit_eq_iff [of "and b (drop_bit k 0x80)" 0] by (auto simp: bit_and_iff bit_drop_0x80)

section \<open>Ordered maps\<close>

fun om_insert :: "'k::linorder \<Rightarrow> 'v \<Rightarrow> ('k \<times> 'v) list \<Rightarrow> ('k \<times> 'v) list" where
  "om_insert k v [] = [(k, v)]"
| "om_insert k v ((k', v') # m) =
    (if k < k' then (k, v) # (k', v') # m
     else if k = k' then (k, v) # m
     else (k', v') # om_insert k v m)"

definition om_remove :: "'k \<Rightarrow> ('k \<times> 'v) list \<Rightarrow> ('k \<times> 'v) list" where
  "om_remove k m = filter (\<lambda>(k', _). k' \<noteq> k) m"

abbreviation om_sorted :: "('k::linorder \<times> 'v) list \<Rightarrow> bool" where
  "om_sorted m \<equiv> sorted_wrt (<) (map fst m)"

lemma om_remove_simps [simp]:
  "om_remove k [] = []"
  "om_remove k ((k', v) # m) = (if k' = k then om_remove k m else (k', v) # om_remove k m)"
  by (simp_all add: om_remove_def)

lemma map_of_om_insert [simp]: "map_of (om_insert k v m) = (map_of m)(k \<mapsto> v)"
  by (induction m) (auto simp: fun_eq_iff)

lemma map_of_om_remove [simp]: "map_of (om_remove k m) = (map_of m)(k := None)"
  by (induction m) (auto simp: fun_eq_iff)

lemma set_om_insert: "set (om_insert k v m) \<subseteq> insert (k, v) (set m)"
  by (induction m) (auto split: if_splits)

lemma set_om_remove [simp]: "set (om_remove k m) = {(k', v) \<in> set m. k' \<noteq> k}"
  by (auto simp: om_remove_def)

lemma keys_om_insert [simp]: "fst ` set (om_insert k v m) = insert k (fst ` set m)"
  by (simp flip: dom_map_of_conv_image_fst)

lemma om_sorted_insert [simp]: "om_sorted m \<Longrightarrow> om_sorted (om_insert k v m)"
proof (induction m)
  case (Cons e m)
  obtain k' v' where e: "e = (k', v')" by (cases e)
  show ?case
  proof (cases "k' < k")
    case True
    then have "om_insert k v (e # m) = (k', v') # om_insert k v m" by (auto simp: e)
    moreover have "\<forall>x \<in> fst ` set (om_insert k v m). k' < x"
      using Cons.prems True by (auto simp: e)
    ultimately show ?thesis using Cons by (simp add: e)
  next
    case False
    then show ?thesis using Cons.prems by (auto simp: e)
  qed
qed simp

lemma om_sorted_remove [simp]: "om_sorted m \<Longrightarrow> om_sorted (om_remove k m)"
  unfolding om_remove_def by (induction m) auto

lemma om_sorted_distinct: "om_sorted m \<Longrightarrow> distinct (map fst m)"
  by (induction m) auto

lemma length_om_insert: "length (om_insert k v m) \<le> Suc (length m)"
  by (induction m) auto

lemma length_om_remove: "length (om_remove k m) \<le> length m"
  by (simp add: om_remove_def)

lemma length_om_remove_present: "map_of m k = Some v \<Longrightarrow> length (om_remove k m) < length m"
  by (induction m) (auto split: if_splits simp: less_Suc_eq_le length_om_remove)

lemma sum_om_insert:
  fixes f :: "'v \<Rightarrow> nat"
  shows "sum_list (map (f \<circ> snd) (om_insert k v m)) \<le> f v + sum_list (map (f \<circ> snd) m)"
  by (induction m) auto

lemma om_remove_absent: "k \<notin> fst ` set m \<Longrightarrow> om_remove k m = m"
  by (induction m) auto

lemma sum_om_remove:
  fixes f :: "'v \<Rightarrow> nat"
  assumes "om_sorted m" and "map_of m k = Some v"
  shows "f v + sum_list (map (f \<circ> snd) (om_remove k m)) = sum_list (map (f \<circ> snd) m)"
  using assms
proof (induction m)
  case (Cons e m)
  show ?case
  proof (cases "fst e = k")
    case True
    then have "k \<notin> fst ` set m" using Cons.prems(1) by auto
    then show ?thesis using True Cons.prems(2) by (cases e) (simp add: om_remove_absent)
  next
    case False
    then show ?thesis using Cons by (cases e) auto
  qed
qed simp

end
