(* ===== verification/UtpPacket.thy ===== *)
theory UtpPacket
  imports Wire
begin

text \<open>
  uTP packets (\<open>src/torrent/utp/packet.rs\<close>): the types, the selective-ACK bitmask, the encoder
  and the decoder. \<open>std::io::Error\<close> is a kind with its text. Header fields keep their width as
  words; the decoder's loop over extensions ends because every round consumes two bytes.
\<close>

datatype io_kind =
  IkInvalidData | IkInvalidInput | IkNotConnected | IkConnectionReset | IkConnectionRefused
  | IkTimedOut | IkUnexpectedEof

type_synonym utp_error = "io_kind \<times> string"

definition header_size :: nat where "header_size = 20"
definition max_packet_size :: nat where "max_packet_size = 1400"
definition max_payload_size :: nat where "max_payload_size = max_packet_size - header_size"
definition utp_version :: byte where "utp_version = 1"

section \<open>Packet types\<close>

datatype packet_type = PtData | PtFin | PtState | PtReset | PtSyn

fun packet_type_code :: "packet_type \<Rightarrow> byte" where
  "packet_type_code PtData = 0"
| "packet_type_code PtFin = 1"
| "packet_type_code PtState = 2"
| "packet_type_code PtReset = 3"
| "packet_type_code PtSyn = 4"

definition packet_type_try_from :: "byte \<Rightarrow> utp_error + packet_type" where
  "packet_type_try_from v =
    (if v = 0 then Inr PtData else if v = 1 then Inr PtFin else if v = 2 then Inr PtState
     else if v = 3 then Inr PtReset else if v = 4 then Inr PtSyn
     else Inl (IkInvalidData, ''Invalid packet type: '' @ show_nat (unat v)))"

datatype extension_type = EtNone | EtSelectiveAck

fun extension_type_code :: "extension_type \<Rightarrow> byte" where
  "extension_type_code EtNone = 0"
| "extension_type_code EtSelectiveAck = 1"

definition extension_type_try_from :: "byte \<Rightarrow> utp_error + extension_type" where
  "extension_type_try_from v =
    (if v = 0 then Inr EtNone else if v = 1 then Inr EtSelectiveAck
     else Inl (IkInvalidData, ''Unknown extension type: '' @ show_nat (unat v)))"

section \<open>Selective acknowledgement\<close>

record selective_ack =
  bitmask :: bytes

definition sack_default :: selective_ack where
  "sack_default = \<lparr>bitmask = []\<rparr>"

definition is_acked :: "selective_ack \<Rightarrow> 16 word \<Rightarrow> bool" where
  "is_acked s packet_offset =
    (let byte_idx = unat packet_offset div 8; bit_idx = unat packet_offset mod 8 in
     if length (bitmask s) \<le> byte_idx then False
     else and (bitmask s ! byte_idx) (drop_bit bit_idx 0x80) \<noteq> 0)"

definition set_acked :: "selective_ack \<Rightarrow> 16 word \<Rightarrow> selective_ack" where
  "set_acked s packet_offset =
    (let byte_idx = unat packet_offset div 8; bit_idx = unat packet_offset mod 8;
         mask = bitmask s @ replicate (Suc byte_idx - length (bitmask s)) 0
     in s\<lparr>bitmask := mask[byte_idx := or (mask ! byte_idx) (drop_bit bit_idx 0x80)]\<rparr>)"

definition sack_encode :: "selective_ack \<Rightarrow> bytes" where
  "sack_encode s = extension_type_code EtNone # of_nat (length (bitmask s)) # bitmask s"

section \<open>Packets\<close>

record packet =
  pk_type :: packet_type
  pk_connection_id :: "16 word"
  pk_timestamp_us :: "32 word"
  pk_timestamp_diff_us :: "32 word"
  pk_wnd_size :: "32 word"
  pk_seq_nr :: "16 word"
  pk_ack_nr :: "16 word"
  pk_selective_ack :: "selective_ack option"
  pk_payload :: bytes

definition packet_new :: "packet_type \<Rightarrow> 16 word \<Rightarrow> 16 word \<Rightarrow> 16 word \<Rightarrow> packet" where
  "packet_new packet_type connection_id seq_nr ack_nr =
    \<lparr>pk_type = packet_type, pk_connection_id = connection_id, pk_timestamp_us = 0,
     pk_timestamp_diff_us = 0, pk_wnd_size = 0, pk_seq_nr = seq_nr, pk_ack_nr = ack_nr,
     pk_selective_ack = None, pk_payload = []\<rparr>"

definition packet_syn :: "16 word \<Rightarrow> 16 word \<Rightarrow> packet" where
  "packet_syn connection_id seq_nr = packet_new PtSyn connection_id seq_nr 0"

definition packet_state :: "16 word \<Rightarrow> 16 word \<Rightarrow> 16 word \<Rightarrow> packet" where
  "packet_state = packet_new PtState"

definition packet_data :: "16 word \<Rightarrow> 16 word \<Rightarrow> 16 word \<Rightarrow> bytes \<Rightarrow> packet" where
  "packet_data connection_id seq_nr ack_nr payload =
    (packet_new PtData connection_id seq_nr ack_nr)\<lparr>pk_payload := payload\<rparr>"

definition packet_fin :: "16 word \<Rightarrow> 16 word \<Rightarrow> 16 word \<Rightarrow> packet" where
  "packet_fin = packet_new PtFin"

definition packet_reset :: "16 word \<Rightarrow> 16 word \<Rightarrow> 16 word \<Rightarrow> packet" where
  "packet_reset = packet_new PtReset"

definition with_timestamps :: "32 word \<Rightarrow> 32 word \<Rightarrow> packet \<Rightarrow> packet" where
  "with_timestamps timestamp_us timestamp_diff_us p =
    p\<lparr>pk_timestamp_us := timestamp_us, pk_timestamp_diff_us := timestamp_diff_us\<rparr>"

definition with_window :: "32 word \<Rightarrow> packet \<Rightarrow> packet" where
  "with_window wnd_size p = p\<lparr>pk_wnd_size := wnd_size\<rparr>"

definition with_selective_ack :: "selective_ack \<Rightarrow> packet \<Rightarrow> packet" where
  "with_selective_ack sack p = p\<lparr>pk_selective_ack := Some sack\<rparr>"

definition packet_encode :: "packet \<Rightarrow> bytes" where
  "packet_encode p =
    (let ext_type = (if pk_selective_ack p \<noteq> None then extension_type_code EtSelectiveAck
                     else extension_type_code EtNone)
     in [or (push_bit 4 (packet_type_code (pk_type p))) utp_version, ext_type]
        @ be16 (pk_connection_id p) @ be32 (pk_timestamp_us p) @ be32 (pk_timestamp_diff_us p)
        @ be32 (pk_wnd_size p) @ be16 (pk_seq_nr p) @ be16 (pk_ack_nr p)
        @ (case pk_selective_ack p of None \<Rightarrow> [] | Some sack \<Rightarrow> sack_encode sack)
        @ pk_payload p)"

function read_extensions ::
  "bytes \<Rightarrow> byte \<Rightarrow> nat \<Rightarrow> selective_ack option \<Rightarrow> utp_error + nat \<times> selective_ack option"
where
  "read_extensions data next_ext offset sack =
    (if next_ext \<noteq> extension_type_code EtNone \<and> offset + 2 \<le> length data then
       (let ext = next_ext;
            next_ext = data ! offset;
            ext_len = unat (data ! (offset + 1));
            offset = offset + 2
        in if length data < offset + ext_len then Inl (IkInvalidData, ''Extension data truncated'')
           else read_extensions data next_ext (offset + ext_len)
                  (if ext = extension_type_code EtSelectiveAck
                   then Some \<lparr>bitmask = slice offset (offset + ext_len) data\<rparr> else sack))
     else Inr (offset, sack))"
  by pat_completeness auto
termination by (relation "measure (\<lambda>(data, _, offset, _). length data - offset)") auto

declare read_extensions.simps [simp del]

definition packet_decode :: "bytes \<Rightarrow> utp_error + packet" where
  "packet_decode data =
    (if length data < header_size then
       Inl (IkInvalidData, ''Packet too short: '' @ show_nat (length data) @ '' bytes'')
     else
       (case packet_type_try_from (drop_bit 4 (data ! 0)) of
          Inl e \<Rightarrow> Inl e
        | Inr packet_type \<Rightarrow>
            (let version = and (data ! 0) 0x0F in
             if version \<noteq> utp_version then
               Inl (IkInvalidData, ''Unsupported uTP version: '' @ show_nat (unat version))
             else
               (case read_extensions data (data ! 1) header_size None of
                  Inl e \<Rightarrow> Inl e
                | Inr (offset, selective_ack) \<Rightarrow>
                    Inr \<lparr>pk_type = packet_type,
                         pk_connection_id = of_be16 (data ! 2) (data ! 3),
                         pk_timestamp_us = of_be32 (data ! 4) (data ! 5) (data ! 6) (data ! 7),
                         pk_timestamp_diff_us = of_be32 (data ! 8) (data ! 9) (data ! 10) (data ! 11),
                         pk_wnd_size = of_be32 (data ! 12) (data ! 13) (data ! 14) (data ! 15),
                         pk_seq_nr = of_be16 (data ! 16) (data ! 17),
                         pk_ack_nr = of_be16 (data ! 18) (data ! 19),
                         pk_selective_ack = selective_ack,
                         pk_payload = (if offset < length data then drop offset data else [])\<rparr>))))"

definition is_syn :: "packet \<Rightarrow> bool" where "is_syn p \<longleftrightarrow> pk_type p = PtSyn"
definition is_fin :: "packet \<Rightarrow> bool" where "is_fin p \<longleftrightarrow> pk_type p = PtFin"
definition is_reset :: "packet \<Rightarrow> bool" where "is_reset p \<longleftrightarrow> pk_type p = PtReset"
definition is_state :: "packet \<Rightarrow> bool" where "is_state p \<longleftrightarrow> pk_type p = PtState"
definition is_data :: "packet \<Rightarrow> bool" where "is_data p \<longleftrightarrow> pk_type p = PtData"

lemmas packet_kinds = is_syn_def is_fin_def is_reset_def is_state_def is_data_def

section \<open>The bitmask\<close>

lemma is_acked_bit:
  "is_acked s i \<longleftrightarrow>
    unat i div 8 < length (bitmask s) \<and> bit (bitmask s ! (unat i div 8)) (7 - unat i mod 8)"
  by (auto simp: is_acked_def Let_def and_drop_0x80 not_le)

lemma not_acked_default [simp]: "\<not> is_acked sack_default i"
  by (simp add: is_acked_bit sack_default_def)

lemma is_acked_set_acked: "is_acked (set_acked s i) j \<longleftrightarrow> j = i \<or> is_acked s j"
proof -
  let ?b = "\<lambda>i. unat i div 8"
  define mask where "mask = bitmask s @ replicate (Suc (?b i) - length (bitmask s)) 0"
  have bi: "?b i < length mask" by (simp add: mask_def)
  have set: "bitmask (set_acked s i) = mask[?b i := or (mask ! ?b i) (drop_bit (unat i mod 8) 0x80)]"
    by (simp add: set_acked_def Let_def mask_def)
  have old: "is_acked s j \<longleftrightarrow> ?b j < length mask \<and> bit (mask ! ?b j) (7 - unat j mod 8)"
    by (auto simp: is_acked_bit mask_def nth_append)
  show ?thesis
  proof (cases "?b j = ?b i")
    case True
    have "(7 - unat j mod 8 = 7 - unat i mod 8) \<longleftrightarrow> j = i"
    proof
      assume "7 - unat j mod 8 = 7 - unat i mod 8"
      moreover have "unat j mod 8 < 8" "unat i mod 8 < 8" by simp_all
      ultimately have "unat j mod 8 = unat i mod 8" by linarith
      then have "unat j = unat i" using True by (metis mod_mult_div_eq)
      then show "j = i" by (rule word_unat_eq_iff [THEN iffD2])
    qed simp
    then show ?thesis
      using bi True old by (auto simp: is_acked_bit [of "set_acked s i"] set bit_or_iff bit_drop_0x80)
  next
    case False
    then show ?thesis
      using bi old by (auto simp: is_acked_bit [of "set_acked s i"] set)
  qed
qed

lemma length_set_acked:
  "unat i div 8 < n \<Longrightarrow> length (bitmask s) \<le> n \<Longrightarrow> length (bitmask (set_acked s i)) \<le> n"
  by (auto simp: set_acked_def Let_def)

section \<open>Round trip\<close>

definition sack_fits :: "packet \<Rightarrow> bool" where
  "sack_fits p \<longleftrightarrow> (case pk_selective_ack p of None \<Rightarrow> True | Some s \<Rightarrow> length (bitmask s) < 256)"

lemma type_version_byte:
  "drop_bit 4 (or (push_bit 4 (packet_type_code t)) utp_version) = packet_type_code t"
  "and (or (push_bit 4 (packet_type_code t)) utp_version) 0x0F = utp_version"
  by (cases t; simp add: utp_version_def)+

lemma packet_type_round_trip [simp, codec]: "packet_type_try_from (packet_type_code t) = Inr t"
  by (cases t) (simp_all add: packet_type_try_from_def)

lemma decode_encode: "sack_fits p \<Longrightarrow> packet_decode (packet_encode p) = Inr p"
proof -
  assume fits: "sack_fits p"
  let ?d = "packet_encode p"
  let ?tail = "(case pk_selective_ack p of None \<Rightarrow> [] | Some s \<Rightarrow> sack_encode s) @ pk_payload p"
  have len: "length ?d = 20 + length ?tail" by (simp add: packet_encode_def Let_def)
  have exts: "read_extensions ?d (?d ! 1) header_size None
      = Inr (length ?d - length (pk_payload p), pk_selective_ack p)"
  proof (cases "pk_selective_ack p")
    case None
    then show ?thesis
      by (subst read_extensions.simps) (simp add: packet_encode_def header_size_def)
  next
    case (Some s)
    define m where "m = bitmask s"
    have m: "length m < 256" using fits Some by (simp add: sack_fits_def m_def)
    have d: "drop 20 ?d = 0 # of_nat (length m) # m @ pk_payload p"
      using Some by (simp add: packet_encode_def sack_encode_def m_def be16_def be32_def)
    have l: "length ?d = 22 + length m + length (pk_payload p)"
      using len Some by (simp add: sack_encode_def m_def)
    have n: "?d ! 20 = 0" "?d ! 21 = of_nat (length m)"
      using d l nth_drop [of 20 ?d 0] nth_drop [of 20 ?d 1] by simp_all
    have sl: "slice 22 (22 + length m) ?d = m"
    proof -
      have "drop 22 ?d = drop 2 (drop 20 ?d)" by simp
      then show ?thesis by (simp add: slice_def d)
    qed
    have e: "?d ! 1 = 1" using Some by (simp add: packet_encode_def)
    have u: "unat (of_nat (length m) :: byte) = length m"
      using m by (simp add: unat_of_nat)
    have "read_extensions ?d 1 20 None = read_extensions ?d 0 (22 + length m) (Some \<lparr>bitmask = m\<rparr>)"
      using n l sl by (subst read_extensions.simps) (simp add: u Let_def)
    also have "\<dots> = Inr (22 + length m, Some \<lparr>bitmask = m\<rparr>)"
      by (subst read_extensions.simps) simp
    finally show ?thesis using e l Some by (simp add: header_size_def m_def)
  qed
  have "\<exists>pre. ?d = pre @ pk_payload p" by (simp add: packet_encode_def Let_def)
  then have pay: "(if length ?d - length (pk_payload p) < length ?d
      then drop (length ?d - length (pk_payload p)) ?d else []) = pk_payload p"
    by auto
  have head: "?d ! 0 = or (push_bit 4 (packet_type_code (pk_type p))) utp_version"
    by (simp add: packet_encode_def Let_def)
  have tv: "packet_type_try_from (drop_bit 4 (?d ! 0)) = Inr (pk_type p)" "and (?d ! 0) 0x0F = utp_version"
    unfolding head type_version_byte by simp_all
  have fields: "of_be16 (?d ! 2) (?d ! 3) = pk_connection_id p"
      "of_be32 (?d ! 4) (?d ! 5) (?d ! 6) (?d ! 7) = pk_timestamp_us p"
      "of_be32 (?d ! 8) (?d ! 9) (?d ! 10) (?d ! 11) = pk_timestamp_diff_us p"
      "of_be32 (?d ! 12) (?d ! 13) (?d ! 14) (?d ! 15) = pk_wnd_size p"
      "of_be16 (?d ! 16) (?d ! 17) = pk_seq_nr p" "of_be16 (?d ! 18) (?d ! 19) = pk_ack_nr p"
    by (simp_all add: packet_encode_def be16_def be32_def)
  have "\<not> length ?d < header_size" using len by (simp add: header_size_def)
  then show ?thesis
    by (simp add: packet_decode_def tv exts fields pay del: One_nat_def)
qed

lemma length_packet_encode:
  "length (packet_encode p) = 20 + (case pk_selective_ack p of None \<Rightarrow> 0 | Some k \<Rightarrow> 2 + length (bitmask k)) + length (pk_payload p)"
  by (simp add: packet_encode_def Let_def sack_encode_def split: option.split)

text \<open>What the decoder accepts always fits the encoder, so a decoded packet encodes and decodes to itself.\<close>

lemma read_extensions_fits:
  "read_extensions data ext offset sack = Inr (n, sack') \<Longrightarrow>
    (case sack of None \<Rightarrow> True | Some s \<Rightarrow> length (bitmask s) < 256) \<Longrightarrow>
    (case sack' of None \<Rightarrow> True | Some s \<Rightarrow> length (bitmask s) < 256)"
proof (induction data ext offset sack rule: read_extensions.induct)
  case (1 data ext offset sack)
  have "unat (data ! Suc offset) < 256" using unsigned_less [of "data ! Suc offset", where ?'a = nat] by simp
  then show ?case
    using 1 by (subst (asm) (2) read_extensions.simps) (auto simp: Let_def split: if_splits)
qed

lemma decoded_fits: "packet_decode data = Inr p \<Longrightarrow> sack_fits p"
  using read_extensions_fits [of data "data ! 1" header_size None]
  by (auto simp: packet_decode_def sack_fits_def Let_def split: if_splits sum.splits prod.splits)

end
