(* ===== verification/Ledbat.thy ===== *)
theory Ledbat
  imports Prelude
begin

text \<open>
  LEDBAT congestion control (\<open>src/torrent/utp/congestion.rs\<close>). Instants are integers in
  microseconds, \<open>u32\<close> quantities naturals with the wrap-around of a release build written out.
  The window change is computed in floating point: \<open>cwnd_delta target queuing acked cwnd\<close>
  stands for its value as an \<open>i32\<close>, and nothing is assumed about it.
\<close>

definition target_delay_default :: nat where "target_delay_default = 100000"
definition max_cwnd_default :: nat where "max_cwnd_default = 1000000"
definition min_cwnd :: nat where "min_cwnd = 150"
definition initial_cwnd :: nat where "initial_cwnd = 3000"
definition mss :: nat where "mss = 1400"
definition base_delay_history_duration :: int where "base_delay_history_duration = 120000000"
definition base_delay_history_size :: nat where "base_delay_history_size = 13"

type_synonym window_change = "nat \<Rightarrow> nat \<Rightarrow> nat \<Rightarrow> nat \<Rightarrow> int"

section \<open>Delay history\<close>

record delay_history =
  dh_samples :: "(int \<times> nat) list"
  dh_max_size :: nat
  dh_window_duration :: int

definition delay_history_new :: "nat \<Rightarrow> int \<Rightarrow> delay_history" where
  "delay_history_new max_size window_duration =
    \<lparr>dh_samples = [], dh_max_size = max_size, dh_window_duration = window_duration\<rparr>"

definition add_sample :: "int \<Rightarrow> nat \<Rightarrow> delay_history \<Rightarrow> delay_history" where
  "add_sample now delay_us h =
    (let cutoff = now - dh_window_duration h;
         samples = dropWhile (\<lambda>(ts, _). ts < cutoff) (dh_samples h);
         samples = (if dh_max_size h \<le> length samples then drop 1 samples else samples)
     in h\<lparr>dh_samples := samples @ [(now, delay_us)]\<rparr>)"

fun list_min :: "nat list \<Rightarrow> nat option" where
  "list_min [] = None"
| "list_min (x # xs) = (case list_min xs of None \<Rightarrow> Some x | Some y \<Rightarrow> Some (min x y))"

definition history_min :: "delay_history \<Rightarrow> nat option" where
  "history_min h = list_min (map snd (dh_samples h))"

section \<open>The controller\<close>

record ledbat =
  lb_cwnd :: nat
  lb_ssthresh :: nat
  lb_base_delay_history :: delay_history
  lb_current_delay_filter :: "nat list"
  lb_bytes_in_flight :: nat
  lb_rtt_us :: nat
  lb_rtt_var_us :: nat
  lb_rto_us :: nat
  lb_in_slow_start :: bool
  lb_last_ack_time :: "int option"
  lb_max_cwnd :: nat
  lb_target_delay_us :: nat

definition ledbat_new :: ledbat where
  "ledbat_new =
    \<lparr>lb_cwnd = initial_cwnd, lb_ssthresh = max_cwnd_default,
     lb_base_delay_history = delay_history_new base_delay_history_size base_delay_history_duration,
     lb_current_delay_filter = [], lb_bytes_in_flight = 0, lb_rtt_us = 1000000, lb_rtt_var_us = 0,
     lb_rto_us = 3000000, lb_in_slow_start = True, lb_last_ack_time = None,
     lb_max_cwnd = max_cwnd_default, lb_target_delay_us = target_delay_default\<rparr>"

definition set_params :: "nat \<Rightarrow> nat \<Rightarrow> ledbat \<Rightarrow> ledbat" where
  "set_params max_cwnd target_delay_us l =
    (let m = max max_cwnd min_cwnd in
     l\<lparr>lb_max_cwnd := m, lb_target_delay_us := max target_delay_us 1000, lb_cwnd := min (lb_cwnd l) m\<rparr>)"

definition available_window :: "ledbat \<Rightarrow> nat" where
  "available_window l = lb_cwnd l - lb_bytes_in_flight l"

definition can_send :: "ledbat \<Rightarrow> bool" where
  "can_send l \<longleftrightarrow> lb_bytes_in_flight l < lb_cwnd l"

definition on_send :: "nat \<Rightarrow> ledbat \<Rightarrow> ledbat" where
  "on_send n l = l\<lparr>lb_bytes_in_flight := u32 (lb_bytes_in_flight l + n)\<rparr>"

definition abs_diff :: "nat \<Rightarrow> nat \<Rightarrow> nat" where
  "abs_diff a b = (if a < b then b - a else a - b)"

definition update_rtt :: "nat \<Rightarrow> ledbat \<Rightarrow> ledbat" where
  "update_rtt sample_rtt_us l =
    (let l = (if lb_rtt_us l = 1000000
              then l\<lparr>lb_rtt_us := sample_rtt_us, lb_rtt_var_us := sample_rtt_us div 2\<rparr>
              else (let diff = abs_diff sample_rtt_us (lb_rtt_us l) in
                    l\<lparr>lb_rtt_var_us := u32 (u32 (lb_rtt_var_us l * 3) div 4 + diff div 4),
                      lb_rtt_us := u32 (u32 (lb_rtt_us l * 7) div 8 + sample_rtt_us div 8)\<rparr>))
     in l\<lparr>lb_rto_us := max (u32 (lb_rtt_us l + u32 (4 * lb_rtt_var_us l))) 500000\<rparr>)"

definition adjust_window :: "window_change \<Rightarrow> nat \<Rightarrow> nat \<Rightarrow> ledbat \<Rightarrow> ledbat" where
  "adjust_window cwnd_delta bytes_acked queuing_delay_us l =
    (let l = (if lb_in_slow_start l then
                (if queuing_delay_us < lb_target_delay_us l
                 then l\<lparr>lb_cwnd := u32 (lb_cwnd l + bytes_acked)\<rparr>
                 else l\<lparr>lb_in_slow_start := False, lb_ssthresh := lb_cwnd l\<rparr>)
              else
                (let delta = cwnd_delta (lb_target_delay_us l) queuing_delay_us bytes_acked (lb_cwnd l) in
                 if 0 \<le> delta then l\<lparr>lb_cwnd := saturating_add32 (lb_cwnd l) (nat delta)\<rparr>
                 else l\<lparr>lb_cwnd := lb_cwnd l - nat (- delta)\<rparr>))
     in l\<lparr>lb_cwnd := min (max (lb_cwnd l) min_cwnd) (lb_max_cwnd l)\<rparr>)"

definition on_ack :: "window_change \<Rightarrow> int \<Rightarrow> nat \<Rightarrow> nat \<Rightarrow> nat option \<Rightarrow> ledbat \<Rightarrow> ledbat" where
  "on_ack cwnd_delta now bytes_acked delay_us rtt_us l =
    (let l = l\<lparr>lb_last_ack_time := Some now, lb_bytes_in_flight := lb_bytes_in_flight l - bytes_acked\<rparr>;
         l = (case rtt_us of Some sample_rtt \<Rightarrow> update_rtt sample_rtt l | None \<Rightarrow> l);
         l = l\<lparr>lb_base_delay_history := add_sample now delay_us (lb_base_delay_history l)\<rparr>;
         delays = (if 8 \<le> length (lb_current_delay_filter l) then drop 1 (lb_current_delay_filter l)
                   else lb_current_delay_filter l);
         l = l\<lparr>lb_current_delay_filter := delays @ [delay_us]\<rparr>;
         base_delay = (case history_min (lb_base_delay_history l) of Some d \<Rightarrow> d | None \<Rightarrow> delay_us);
         queuing_delay = delay_us - base_delay
     in adjust_window cwnd_delta bytes_acked queuing_delay l)"

definition on_loss :: "ledbat \<Rightarrow> ledbat" where
  "on_loss l = l\<lparr>lb_ssthresh := max (lb_cwnd l div 2) min_cwnd, lb_cwnd := min_cwnd, lb_in_slow_start := False\<rparr>"

definition on_timeout :: "ledbat \<Rightarrow> ledbat" where
  "on_timeout l = (let l = on_loss l in l\<lparr>lb_rto_us := min (u32 (lb_rto_us l * 2)) 60000000\<rparr>)"

definition ledbat_reset :: "ledbat \<Rightarrow> ledbat" where
  "ledbat_reset l = ledbat_new"

section \<open>Bounds\<close>

text \<open>The window stays between its floor and the configured ceiling, the histories stay short
  and the base delay never exceeds a recent sample, whatever the window change evaluates to.\<close>

definition ledbat_ok :: "ledbat \<Rightarrow> bool" where
  [inv_defs]: "ledbat_ok l \<longleftrightarrow>
    min_cwnd \<le> lb_cwnd l \<and> lb_cwnd l \<le> lb_max_cwnd l
    \<and> length (dh_samples (lb_base_delay_history l)) \<le> base_delay_history_size
    \<and> dh_max_size (lb_base_delay_history l) = base_delay_history_size
    \<and> length (lb_current_delay_filter l) \<le> 8"

lemmas ledbat_consts = min_cwnd_def initial_cwnd_def max_cwnd_default_def base_delay_history_size_def

lemma ledbat_ok_new: "ledbat_ok ledbat_new"
  by (simp add: ledbat_ok_def ledbat_new_def delay_history_new_def ledbat_consts)

lemma ledbat_ok_set_params: "ledbat_ok l \<Longrightarrow> ledbat_ok (set_params m t l)"
  by (simp add: ledbat_ok_def set_params_def Let_def)

lemma ledbat_ok_on_send [simp]: "ledbat_ok (on_send n l) \<longleftrightarrow> ledbat_ok l"
  by (simp add: ledbat_ok_def on_send_def)

lemma ledbat_ok_update_rtt [simp]: "ledbat_ok (update_rtt r l) \<longleftrightarrow> ledbat_ok l"
  by (simp add: ledbat_ok_def update_rtt_def Let_def)

lemma add_sample_short:
  "length (dh_samples h) \<le> dh_max_size h \<Longrightarrow> 0 < dh_max_size h \<Longrightarrow>
    length (dh_samples (add_sample now d h)) \<le> dh_max_size h
    \<and> dh_max_size (add_sample now d h) = dh_max_size h"
  using length_dropWhile_le [of "\<lambda>(ts, _). ts < now - dh_window_duration h" "dh_samples h"]
  by (auto simp: add_sample_def Let_def)

lemma adjust_window_frame [simp]:
  "lb_max_cwnd (adjust_window f n q l) = lb_max_cwnd l"
  "lb_base_delay_history (adjust_window f n q l) = lb_base_delay_history l"
  "lb_current_delay_filter (adjust_window f n q l) = lb_current_delay_filter l"
  "lb_bytes_in_flight (adjust_window f n q l) = lb_bytes_in_flight l"
  by (simp_all add: adjust_window_def Let_def)

lemma adjust_window_bounds:
  "min_cwnd \<le> lb_max_cwnd l \<Longrightarrow>
    min_cwnd \<le> lb_cwnd (adjust_window f n q l) \<and> lb_cwnd (adjust_window f n q l) \<le> lb_max_cwnd l"
  by (simp add: adjust_window_def Let_def)

lemma update_rtt_frame [simp]:
  "lb_max_cwnd (update_rtt r l) = lb_max_cwnd l" "lb_cwnd (update_rtt r l) = lb_cwnd l"
  "lb_base_delay_history (update_rtt r l) = lb_base_delay_history l"
  "lb_current_delay_filter (update_rtt r l) = lb_current_delay_filter l"
  "lb_bytes_in_flight (update_rtt r l) = lb_bytes_in_flight l"
  by (simp_all add: update_rtt_def Let_def)

lemma ledbat_ok_adjust_window:
  "min_cwnd \<le> lb_max_cwnd l \<Longrightarrow> length (dh_samples (lb_base_delay_history l)) \<le> base_delay_history_size \<Longrightarrow>
    dh_max_size (lb_base_delay_history l) = base_delay_history_size \<Longrightarrow>
    length (lb_current_delay_filter l) \<le> 8 \<Longrightarrow> ledbat_ok (adjust_window f n q l)"
  by (simp add: ledbat_ok_def adjust_window_bounds)

lemma ledbat_ok_on_ack: "ledbat_ok l \<Longrightarrow> ledbat_ok (on_ack f now n d r l)"
  unfolding on_ack_def Let_def
  using add_sample_short [of "lb_base_delay_history l" now d]
  by (intro ledbat_ok_adjust_window)
    (auto simp: ledbat_ok_def base_delay_history_size_def split: option.splits)

lemma ledbat_ok_on_timeout: "ledbat_ok l \<Longrightarrow> ledbat_ok (on_timeout l)"
  by (simp add: ledbat_ok_def on_timeout_def on_loss_def Let_def)

lemma bytes_in_flight_on_ack [simp]:
  "lb_bytes_in_flight (on_ack f now n d r l) = lb_bytes_in_flight l - n"
  by (cases r) (simp_all add: on_ack_def Let_def)

text \<open>The base delay is the smallest sample of the window, so the queuing delay of a sample is
  its distance above the fastest one.\<close>

lemma list_min_None: "list_min xs = None \<longleftrightarrow> xs = []"
  by (cases xs) (auto split: option.splits)

lemma list_min_Some: "list_min xs = Some m \<Longrightarrow> m \<in> set xs \<and> (\<forall>x \<in> set xs. m \<le> x)"
proof (induction xs arbitrary: m)
  case (Cons x xs)
  then show ?case
    by (cases "list_min xs") (auto simp: list_min_None min_def split: if_splits)
qed simp

lemma history_min_add_sample: "\<exists>m. history_min (add_sample now d h) = Some m \<and> m \<le> d"
proof -
  have "list_min (xs @ [d]) \<noteq> None" for xs :: "nat list"
    by (simp add: list_min_None)
  moreover have "d \<in> set (map snd (dh_samples (add_sample now d h)))"
    by (simp add: add_sample_def Let_def)
  ultimately show ?thesis
    using list_min_Some by (fastforce simp: history_min_def add_sample_def Let_def)
qed

lemma timeout_backs_off:
  "lb_rto_us l < 2 ^ 31 \<Longrightarrow> lb_rto_us (on_timeout l) = min (lb_rto_us l * 2) 60000000
    \<and> lb_cwnd (on_timeout l) = min_cwnd"
  by (simp add: on_timeout_def on_loss_def Let_def)

end
