(* ===== verification/UtpSocket.thy ===== *)
theory UtpSocket
  imports UtpPacket Ledbat
begin

text \<open>
  One uTP connection (\<open>src/torrent/utp/socket.rs\<close>, \<open>src/torrent/utp/state.rs\<close>): the state machine,
  acknowledgements, in-order delivery with a buffer for out-of-order packets, sending,
  retransmission, closing, and the driver task.

  Every operation takes an environment: the instant, the 32-bit clock that stamps packets and the
  floating-point window change of the congestion controller; one handler sees one value of each.
  The channel to the UDP socket is the list of datagrams put into it and a flag that says whether
  its receiver still exists: sending fails exactly when it does not. An operation that can fail
  returns an error or a value together with the state it leaves, as the \<open>?\<close> operator does.
\<close>

definition max_retransmits :: nat where "max_retransmits = 8"
definition max_ooo_packets :: nat where "max_ooo_packets = 256"

section \<open>States and records\<close>

datatype connection_state =
  CsIdle | CsSynSent | CsSynRecv | CsConnected | CsFinSent | CsClosing | CsClosed | CsReset | CsTimedOut

definition can_send_data :: "connection_state \<Rightarrow> bool" where
  "can_send_data s \<longleftrightarrow> s \<in> {CsConnected, CsFinSent}"

definition can_receive_data :: "connection_state \<Rightarrow> bool" where
  "can_receive_data s \<longleftrightarrow> s \<in> {CsConnected, CsSynRecv, CsFinSent, CsClosing}"

definition is_closed :: "connection_state \<Rightarrow> bool" where
  "is_closed s \<longleftrightarrow> s \<in> {CsClosed, CsReset, CsTimedOut}"

definition utp_is_active :: "connection_state \<Rightarrow> bool" where
  "utp_is_active s \<longleftrightarrow> s \<in> {CsSynSent, CsSynRecv, CsConnected, CsFinSent, CsClosing}"

fun show_state :: "connection_state \<Rightarrow> string" where
  "show_state CsIdle = ''IDLE''"
| "show_state CsSynSent = ''SYN_SENT''"
| "show_state CsSynRecv = ''SYN_RECV''"
| "show_state CsConnected = ''CONNECTED''"
| "show_state CsFinSent = ''FIN_SENT''"
| "show_state CsClosing = ''CLOSING''"
| "show_state CsClosed = ''CLOSED''"
| "show_state CsReset = ''RESET''"
| "show_state CsTimedOut = ''TIMED_OUT''"

record pending_packet =
  pp_seq_nr :: "16 word"
  pp_bytes :: bytes
  pp_payload :: bytes
  pp_first_sent :: int
  pp_last_sent :: int
  pp_retransmits :: nat
  pp_size :: nat
  pp_packet_type :: packet_type

definition pending_packet_new :: "int \<Rightarrow> 16 word \<Rightarrow> bytes \<Rightarrow> bytes \<Rightarrow> pending_packet" where
  "pending_packet_new now seq_nr data payload =
    \<lparr>pp_seq_nr = seq_nr, pp_bytes = data, pp_payload = payload, pp_first_sent = now,
     pp_last_sent = now, pp_retransmits = 0, pp_size = u32 (length data), pp_packet_type = PtData\<rparr>"

definition mark_retransmit :: "int \<Rightarrow> pending_packet \<Rightarrow> pending_packet" where
  "mark_retransmit now p = p\<lparr>pp_last_sent := now, pp_retransmits := u32 (pp_retransmits p + 1)\<rparr>"

record connection_stats =
  cs_packets_sent :: nat
  cs_packets_received :: nat
  cs_bytes_sent :: nat
  cs_bytes_received :: nat
  cs_retransmits :: nat
  cs_duplicate_acks :: nat
  cs_timeouts :: nat
  cs_packets_lost :: nat

definition connection_stats_new :: connection_stats where
  "connection_stats_new =
    \<lparr>cs_packets_sent = 0, cs_packets_received = 0, cs_bytes_sent = 0, cs_bytes_received = 0,
     cs_retransmits = 0, cs_duplicate_acks = 0, cs_timeouts = 0, cs_packets_lost = 0\<rparr>"

record utp_config =
  uc_enable_sack :: bool
  uc_max_window_size :: nat
  uc_recv_window :: nat
  uc_target_delay_us :: nat

definition utp_config_default :: utp_config where
  "utp_config_default =
    \<lparr>uc_enable_sack = True, uc_max_window_size = 1024 * 1024, uc_recv_window = 1024 * 1024,
     uc_target_delay_us = target_delay_default\<rparr>"

record utp_env =
  ue_now :: int
  ue_clock :: "32 word"
  ue_cwnd_delta :: window_change

record utp_socket =
  us_remote_addr :: string
  us_send_conn_id :: "16 word"
  us_recv_conn_id :: "16 word"
  us_state :: connection_state
  us_seq_nr :: "16 word"
  us_ack_nr :: "16 word"
  us_last_ack_sent :: "16 word"
  us_congestion :: ledbat
  us_pending :: "(16 word \<times> pending_packet) list"
  us_ooo :: "(16 word \<times> bytes) list"
  us_recv_buffer :: bytes
  us_recv_window :: nat
  us_remote_window :: nat
  us_reply_micro :: "32 word"
  us_pending_fin :: "16 word option"
  us_last_recv_time :: int
  us_last_send_time :: int
  us_stats :: connection_stats
  us_config :: utp_config
  us_tx_open :: bool
  us_outbox :: "bytes list"
  us_fin_received :: bool
  us_fin_sent :: bool

definition utp_socket_new ::
  "int \<Rightarrow> string \<Rightarrow> 16 word \<Rightarrow> 16 word \<Rightarrow> connection_state \<Rightarrow> 16 word \<Rightarrow> 16 word \<Rightarrow> utp_config \<Rightarrow> utp_socket"
where
  "utp_socket_new now remote_addr send_conn_id recv_conn_id state seq_nr ack_nr config =
    \<lparr>us_remote_addr = remote_addr, us_send_conn_id = send_conn_id, us_recv_conn_id = recv_conn_id,
     us_state = state, us_seq_nr = seq_nr, us_ack_nr = ack_nr, us_last_ack_sent = ack_nr,
     us_congestion = set_params (uc_max_window_size config) (uc_target_delay_us config) ledbat_new,
     us_pending = [], us_ooo = [], us_recv_buffer = [], us_recv_window = uc_recv_window config,
     us_remote_window = 64 * 1024, us_reply_micro = 0, us_pending_fin = None,
     us_last_recv_time = now, us_last_send_time = now, us_stats = connection_stats_new,
     us_config = config, us_tx_open = True, us_outbox = [], us_fin_received = False,
     us_fin_sent = False\<rparr>"

definition new_outgoing :: "int \<Rightarrow> string \<Rightarrow> 16 word \<Rightarrow> utp_config \<Rightarrow> utp_socket" where
  "new_outgoing now remote_addr conn_id config =
    utp_socket_new now remote_addr (conn_id + 1) conn_id CsIdle 1 0 config"

text \<open>The first sequence number is drawn at random, \<open>rnd\<close>.\<close>

definition new_incoming :: "int \<Rightarrow> 16 word \<Rightarrow> string \<Rightarrow> 16 word \<Rightarrow> 16 word \<Rightarrow> utp_config \<Rightarrow> utp_socket" where
  "new_incoming now rnd remote_addr syn_conn_id peer_seq_nr config =
    utp_socket_new now remote_addr syn_conn_id (syn_conn_id + 1) CsSynRecv (max rnd 1) peer_seq_nr config"

section \<open>Sequence numbers and windows\<close>

definition seq_before_eq :: "16 word \<Rightarrow> 16 word \<Rightarrow> bool" where
  "seq_before_eq seq_a seq_b = (let diff = seq_b - seq_a in diff = 0 \<or> diff < 32768)"

definition seq_after :: "16 word \<Rightarrow> 16 word \<Rightarrow> bool" where
  "seq_after seq_a seq_b = (let diff = seq_a - seq_b in 0 < diff \<and> diff < 32768)"

definition buffered_bytes :: "utp_socket \<Rightarrow> nat" where
  "buffered_bytes s = length (us_recv_buffer s) + sum_list (map (length \<circ> snd) (us_ooo s))"

definition fits_recv_window :: "nat \<Rightarrow> utp_socket \<Rightarrow> bool" where
  "fits_recv_window n s \<longleftrightarrow> buffered_bytes s + n \<le> us_recv_window s"

definition available_recv_window :: "utp_socket \<Rightarrow> nat" where
  "available_recv_window s = us_recv_window s - u32 (length (us_recv_buffer s))"

definition has_data :: "utp_socket \<Rightarrow> bool" where
  "has_data s \<longleftrightarrow> us_recv_buffer s \<noteq> []"

definition available_data :: "utp_socket \<Rightarrow> nat" where
  "available_data s = length (us_recv_buffer s)"

section \<open>Building and sending packets\<close>

text \<open>A step that can fail, followed by another.\<close>

fun and_then :: "('e + 'a) \<times> 's \<Rightarrow> ('a \<Rightarrow> 's \<Rightarrow> ('e + 'b) \<times> 's) \<Rightarrow> ('e + 'b) \<times> 's" where
  "and_then (Inl e, s) f = (Inl e, s)"
| "and_then (Inr x, s) f = f x s"

definition sack_step :: "16 word \<Rightarrow> 16 word \<times> bytes \<Rightarrow> selective_ack \<Rightarrow> selective_ack" where
  "sack_step ack_nr e sack =
    (let offset = fst e - ack_nr - 2 in if offset < 256 then set_acked sack offset else sack)"

definition sack_of :: "16 word \<Rightarrow> (16 word \<times> bytes) list \<Rightarrow> selective_ack" where
  "sack_of ack_nr ooo = fold (sack_step ack_nr) ooo sack_default"

definition build_packet :: "utp_env \<Rightarrow> packet_type \<Rightarrow> bytes \<Rightarrow> utp_socket \<Rightarrow> packet \<times> utp_socket" where
  "build_packet env pkt_type payload s =
    (let conn_id = (if pkt_type = PtSyn then us_recv_conn_id s else us_send_conn_id s);
         seq_nr = us_seq_nr s;
         s = (if pkt_type = PtData \<or> pkt_type = PtSyn \<or> pkt_type = PtFin
              then s\<lparr>us_seq_nr := us_seq_nr s + 1\<rparr> else s);
         pkt = with_window (of_nat (available_recv_window s))
                 (with_timestamps (ue_clock env) (us_reply_micro s)
                   (packet_new pkt_type conn_id seq_nr (us_ack_nr s)));
         pkt = (if uc_enable_sack (us_config s) \<and> us_ooo s \<noteq> [] \<and> pkt_type = PtState
                then with_selective_ack (sack_of (us_ack_nr s) (us_ooo s)) pkt else pkt)
     in (pkt\<lparr>pk_payload := payload\<rparr>, s))"

definition send_packet_direct :: "utp_env \<Rightarrow> packet \<Rightarrow> utp_socket \<Rightarrow> (utp_error + unit) \<times> utp_socket" where
  "send_packet_direct env pkt s =
    (if \<not> us_tx_open s then (Inl (IkConnectionReset, ''Send channel closed''), s)
     else
       (let st = us_stats s;
            st = st\<lparr>cs_packets_sent := u64 (cs_packets_sent st + 1)\<rparr>;
            st = (if pk_payload pkt \<noteq> []
                  then st\<lparr>cs_bytes_sent := u64 (cs_bytes_sent st + length (pk_payload pkt))\<rparr> else st)
        in (Inr (),
            s\<lparr>us_outbox := us_outbox s @ [packet_encode pkt], us_stats := st,
              us_last_send_time := ue_now env,
              us_last_ack_sent := (if is_state pkt \<or> is_data pkt \<or> is_fin pkt then pk_ack_nr pkt
                                   else us_last_ack_sent s)\<rparr>)))"

definition track_packet :: "utp_env \<Rightarrow> packet \<Rightarrow> utp_socket \<Rightarrow> utp_socket" where
  "track_packet env pkt s =
    (if is_data pkt \<or> is_syn pkt \<or> is_fin pkt then
       (let pending = (pending_packet_new (ue_now env) (pk_seq_nr pkt) (packet_encode pkt) (pk_payload pkt))
                        \<lparr>pp_packet_type := pk_type pkt\<rparr>
        in s\<lparr>us_congestion := on_send (pp_size pending) (us_congestion s),
             us_pending := om_insert (pk_seq_nr pkt) pending (us_pending s)\<rparr>)
     else s)"

definition send_packet :: "utp_env \<Rightarrow> packet \<Rightarrow> utp_socket \<Rightarrow> (utp_error + unit) \<times> utp_socket" where
  "send_packet env pkt s =
    and_then (send_packet_direct env pkt s) (\<lambda>_ s. (Inr (), track_packet env pkt s))"

text \<open>An acknowledgement, which the code builds and sends in several places.\<close>

definition send_ack :: "utp_env \<Rightarrow> utp_socket \<Rightarrow> (utp_error + unit) \<times> utp_socket" where
  "send_ack env s = (let (pkt, s) = build_packet env PtState [] s in send_packet_direct env pkt s)"

definition start_connect :: "utp_env \<Rightarrow> utp_socket \<Rightarrow> (utp_error + unit) \<times> utp_socket" where
  "start_connect env s =
    (if us_state s \<noteq> CsIdle then (Inl (IkInvalidInput, ''Connection already started''), s)
     else (let (pkt, s) = build_packet env PtSyn [] (s\<lparr>us_state := CsSynSent\<rparr>) in send_packet env pkt s))"

definition accept :: "utp_env \<Rightarrow> utp_socket \<Rightarrow> (utp_error + unit) \<times> utp_socket" where
  "accept env s =
    (if us_state s \<noteq> CsSynRecv then (Inl (IkInvalidInput, ''No incoming connection to accept''), s)
     else and_then (send_ack env s) (\<lambda>_ s. (Inr (), s\<lparr>us_state := CsConnected\<rparr>)))"

section \<open>Acknowledgements\<close>

definition ack_packet :: "utp_env \<Rightarrow> nat \<Rightarrow> bool \<Rightarrow> 16 word \<Rightarrow> utp_socket \<Rightarrow> utp_socket" where
  "ack_packet env delay_us cumulative seq s =
    (case map_of (us_pending s) seq of
       None \<Rightarrow> s
     | Some p \<Rightarrow>
         (let rtt = (if cumulative \<and> pp_retransmits p = 0
                     then Some (u32 (nat (ue_now env - pp_first_sent p))) else None)
          in s\<lparr>us_pending := om_remove seq (us_pending s),
               us_congestion := on_ack (ue_cwnd_delta env) (ue_now env) (pp_size p) delay_us rtt
                                  (us_congestion s)\<rparr>))"

definition process_acks :: "utp_env \<Rightarrow> 16 word \<Rightarrow> selective_ack option \<Rightarrow> nat \<Rightarrow> utp_socket \<Rightarrow> utp_socket" where
  "process_acks env ack_nr sack delay_us s =
    (let to_remove = filter (\<lambda>seq. seq_before_eq seq ack_nr) (map fst (us_pending s));
         s = fold (ack_packet env delay_us True) to_remove s
     in (case sack of
           None \<Rightarrow> s
         | Some sack \<Rightarrow>
             fold (\<lambda>i s. if is_acked sack (of_nat i)
                          then ack_packet env delay_us False (ack_nr + 2 + of_nat i) s else s)
               [0..<length (bitmask sack) * 8] s))"

section \<open>Receiving\<close>

function deliver_ooo :: "utp_socket \<Rightarrow> utp_socket" where
  "deliver_ooo s =
    (let next_seq = us_ack_nr s + 1 in
     case map_of (us_ooo s) next_seq of
       Some data \<Rightarrow>
         deliver_ooo (s\<lparr>us_ooo := om_remove next_seq (us_ooo s),
                       us_stats := (us_stats s)\<lparr>cs_bytes_received :=
                                      u64 (cs_bytes_received (us_stats s) + length data)\<rparr>,
                       us_recv_buffer := us_recv_buffer s @ data,
                       us_ack_nr := next_seq\<rparr>)
     | None \<Rightarrow> s)"
  by pat_completeness auto
termination
  by (relation "measure (\<lambda>s. length (us_ooo s))") (auto intro: length_om_remove_present)

declare deliver_ooo.simps [simp del]

definition receive_data :: "16 word \<Rightarrow> bytes \<Rightarrow> utp_socket \<Rightarrow> utp_socket" where
  "receive_data seq_nr payload s =
    (let expected = us_ack_nr s + 1 in
     if seq_nr = expected then
       (if \<not> fits_recv_window (length payload) s then s
        else deliver_ooo
          (s\<lparr>us_stats := (us_stats s)\<lparr>cs_bytes_received :=
                            u64 (cs_bytes_received (us_stats s) + length payload)\<rparr>,
             us_recv_buffer := us_recv_buffer s @ payload,
             us_ack_nr := seq_nr\<rparr>))
     else if seq_after seq_nr expected \<and> length (us_ooo s) < max_ooo_packets
             \<and> fits_recv_window (length payload) s
     then s\<lparr>us_ooo := om_insert seq_nr payload (us_ooo s)\<rparr>
     else s)"

text \<open>What a received FIN does: first when it arrives, then once it is reached in order.\<close>

definition see_fin :: "16 word \<Rightarrow> bool \<Rightarrow> utp_socket \<Rightarrow> utp_socket" where
  "see_fin seq_nr had_payload s =
    (if had_payload then s\<lparr>us_pending_fin := Some seq_nr\<rparr>
     else if seq_nr = us_ack_nr s + 1 then s\<lparr>us_ack_nr := seq_nr, us_fin_received := True\<rparr>
     else s\<lparr>us_pending_fin := Some seq_nr\<rparr>)"

definition release_fin :: "utp_socket \<Rightarrow> utp_socket" where
  "release_fin s =
    (case us_pending_fin s of
       Some fin_seq \<Rightarrow>
         (if fin_seq = us_ack_nr s + 1 \<or> fin_seq = us_ack_nr s then
            (if fin_seq = us_ack_nr s + 1 then s\<lparr>us_ack_nr := fin_seq\<rparr> else s)
              \<lparr>us_fin_received := True, us_pending_fin := None\<rparr>
          else s)
     | None \<Rightarrow> s)"

section \<open>The packet handler\<close>

text \<open>What every packet updates.\<close>

definition note_packet :: "utp_env \<Rightarrow> packet \<Rightarrow> utp_socket \<Rightarrow> utp_socket" where
  "note_packet env pkt s =
    (let s = s\<lparr>us_last_recv_time := ue_now env\<rparr>;
         s = (if 0 < pk_wnd_size pkt \<or> is_state pkt \<or> is_data pkt
              then s\<lparr>us_remote_window := unat (pk_wnd_size pkt)\<rparr> else s);
         s = s\<lparr>us_stats := (us_stats s)\<lparr>cs_packets_received := u64 (cs_packets_received (us_stats s) + 1)\<rparr>\<rparr>
     in if pk_timestamp_us pkt \<noteq> 0
        then s\<lparr>us_reply_micro := ue_clock env - pk_timestamp_us pkt\<rparr> else s)"

definition acks_of :: "utp_env \<Rightarrow> packet \<Rightarrow> utp_socket \<Rightarrow> utp_socket" where
  "acks_of env pkt =
    process_acks env (pk_ack_nr pkt) (pk_selective_ack pkt) (unat (pk_timestamp_diff_us pkt))"

definition process_syn_sent :: "utp_env \<Rightarrow> packet \<Rightarrow> utp_socket \<Rightarrow> utp_socket" where
  "process_syn_sent env pkt s =
    (if is_state pkt then
       (let s = s\<lparr>us_ack_nr := pk_seq_nr pkt - 1\<rparr>;
            s = s\<lparr>us_last_ack_sent := us_ack_nr s\<rparr>
        in (acks_of env pkt s)\<lparr>us_state := CsConnected\<rparr>)
     else if is_reset pkt then s\<lparr>us_state := CsReset\<rparr> else s)"

definition take_packet :: "utp_env \<Rightarrow> packet \<Rightarrow> utp_socket \<Rightarrow> utp_socket" where
  "take_packet env pkt s =
    (let s = acks_of env pkt s;
         had_payload = (pk_payload pkt \<noteq> []);
         s = (if (is_data pkt \<or> is_fin pkt) \<and> had_payload
              then receive_data (pk_seq_nr pkt) (pk_payload pkt) s else s);
         s = (if is_fin pkt then see_fin (pk_seq_nr pkt) had_payload s else s)
     in release_fin s)"

definition process_connected :: "utp_env \<Rightarrow> packet \<Rightarrow> utp_socket \<Rightarrow> (utp_error + unit) \<times> utp_socket" where
  "process_connected env pkt s =
    (if is_reset pkt then (Inr (), s\<lparr>us_state := CsReset\<rparr>)
     else if is_syn pkt then send_ack env s
     else
       (let s = take_packet env pkt s in
        and_then
          (if us_fin_received s then
             and_then (send_ack env s)
               (\<lambda>_ s. (Inr (), s\<lparr>us_state := (if us_fin_sent s then CsClosed else CsClosing)\<rparr>))
           else (Inr (), s))
          (\<lambda>_ s.
             and_then
               (if is_data pkt \<and> can_receive_data (us_state s) then send_ack env s else (Inr (), s))
               (\<lambda>_ s. (Inr (),
                  if us_fin_sent s \<and> us_state s = CsFinSent \<and> us_pending s = []
                  then s\<lparr>us_state := (if us_fin_received s then CsClosed else CsFinSent)\<rparr>
                  else s)))))"

definition process_closing :: "utp_env \<Rightarrow> packet \<Rightarrow> utp_socket \<Rightarrow> utp_socket" where
  "process_closing env pkt s =
    (if is_reset pkt then s\<lparr>us_state := CsReset\<rparr>
     else
       (let s = acks_of env pkt s in
        if us_pending s = [] \<and> us_fin_sent s then s\<lparr>us_state := CsClosed\<rparr> else s))"

definition process_packet :: "utp_env \<Rightarrow> packet \<Rightarrow> utp_socket \<Rightarrow> (utp_error + unit) \<times> utp_socket" where
  "process_packet env pkt s =
    (let s = note_packet env pkt s in
     case us_state s of
       CsSynSent \<Rightarrow> (Inr (), process_syn_sent env pkt s)
     | CsConnected \<Rightarrow> process_connected env pkt s
     | CsFinSent \<Rightarrow> process_connected env pkt s
     | CsClosing \<Rightarrow> (Inr (), process_closing env pkt s)
     | _ \<Rightarrow> (Inr (), s))"

section \<open>Sending, closing, retransmitting\<close>

function send_loop :: "utp_env \<Rightarrow> bytes \<Rightarrow> nat \<Rightarrow> utp_socket \<Rightarrow> (utp_error + nat) \<times> utp_socket" where
  "send_loop env data sent s =
    (if sent < length data \<and> can_send (us_congestion s)
        \<and> lb_bytes_in_flight (us_congestion s) < max (us_remote_window s) mss then
       (let stop = min (sent + max_payload_size) (length data);
            (pkt, s) = build_packet env PtData (slice sent stop data) s
        in case send_packet env pkt s of
             (Inl e, s) \<Rightarrow> (Inl e, s)
           | (Inr _, s) \<Rightarrow> send_loop env data stop s)
     else (Inr sent, s))"
  by pat_completeness auto
termination
  by (relation "measure (\<lambda>(_, data, sent, _). length data - sent)")
    (auto simp: max_payload_size_def max_packet_size_def header_size_def)

declare send_loop.simps [simp del]

definition send_data :: "utp_env \<Rightarrow> bytes \<Rightarrow> utp_socket \<Rightarrow> (utp_error + nat) \<times> utp_socket" where
  "send_data env data s =
    (if \<not> can_send_data (us_state s) then (Inl (IkNotConnected, ''Cannot send in current state''), s)
     else send_loop env data 0 s)"

definition read_data :: "nat \<Rightarrow> utp_socket \<Rightarrow> bytes \<times> utp_socket" where
  "read_data n s = (take n (us_recv_buffer s), s\<lparr>us_recv_buffer := drop n (us_recv_buffer s)\<rparr>)"

definition close :: "utp_env \<Rightarrow> utp_socket \<Rightarrow> (utp_error + unit) \<times> utp_socket" where
  "close env s =
    (if us_state s = CsConnected then
       (let (pkt, s) = build_packet env PtFin [] (s\<lparr>us_fin_sent := True\<rparr>) in
        and_then (send_packet env pkt s) (\<lambda>_ s. (Inr (), s\<lparr>us_state := CsFinSent\<rparr>)))
     else if us_state s = CsClosing \<and> \<not> us_fin_sent s then
       (let (pkt, s) = build_packet env PtFin [] (s\<lparr>us_fin_sent := True\<rparr>) in send_packet env pkt s)
     else (Inr (), s))"

definition retransmission :: "utp_env \<Rightarrow> pending_packet \<Rightarrow> utp_socket \<Rightarrow> packet" where
  "retransmission env p s =
    (with_window (of_nat (available_recv_window s))
      (with_timestamps (ue_clock env) (us_reply_micro s)
        (packet_new (pp_packet_type p)
          (if pp_packet_type p = PtSyn then us_recv_conn_id s else us_send_conn_id s)
          (pp_seq_nr p) (us_ack_nr s))))\<lparr>pk_payload := pp_payload p\<rparr>"

fun retransmit_loop :: "utp_env \<Rightarrow> 16 word list \<Rightarrow> utp_socket \<Rightarrow> (utp_error + unit) \<times> utp_socket" where
  "retransmit_loop env [] s = (Inr (), s)"
| "retransmit_loop env (seq # to_retransmit) s =
    (case map_of (us_pending s) seq of
       None \<Rightarrow> retransmit_loop env to_retransmit s
     | Some p \<Rightarrow>
         (if max_retransmits \<le> pp_retransmits p then
            (Inl (IkTimedOut, ''Max retransmits exceeded''), s\<lparr>us_state := CsTimedOut\<rparr>)
          else
            and_then (send_packet_direct env (retransmission env p s) s)
              (\<lambda>_ s. retransmit_loop env to_retransmit
                 (s\<lparr>us_pending := om_insert seq (mark_retransmit (ue_now env) p) (us_pending s),
                    us_stats := (us_stats s)\<lparr>cs_retransmits := u64 (cs_retransmits (us_stats s) + 1)\<rparr>\<rparr>))))"

definition overdue :: "utp_env \<Rightarrow> utp_socket \<Rightarrow> 16 word list" where
  "overdue env s =
    map fst (filter (\<lambda>(_, p). int (lb_rto_us (us_congestion s)) < ue_now env - pp_last_sent p) (us_pending s))"

definition check_retransmits :: "utp_env \<Rightarrow> utp_socket \<Rightarrow> (utp_error + unit) \<times> utp_socket" where
  "check_retransmits env s =
    (let to_retransmit = overdue env s in
     and_then (retransmit_loop env to_retransmit s)
       (\<lambda>_ s. (Inr (), if to_retransmit \<noteq> [] then s\<lparr>us_congestion := on_timeout (us_congestion s)\<rparr> else s)))"

definition maybe_send_ack :: "utp_env \<Rightarrow> utp_socket \<Rightarrow> (utp_error + unit) \<times> utp_socket" where
  "maybe_send_ack env s =
    (if us_ack_nr s \<noteq> us_last_ack_sent s \<and> can_receive_data (us_state s) then send_ack env s else (Inr (), s))"

end
