(* ===== verification/UtpDriver.thy ===== *)
theory UtpDriver
  imports UtpSocket Codec
begin

text \<open>
  The socket around a connection (\<open>UtpSocket\<close> in \<open>src/torrent/utp/socket.rs\<close>): the driver task,
  which handles packets and ticks until the connection is over, and one turn of each blocking
  call, which is ready with a result or waits for the driver's next notification. Then what these
  operations leave alone, which the proofs about a pair of sockets rest on.
\<close>

section \<open>The driver\<close>

record utp_endpoint =
  ep_inner :: utp_socket
  ep_running :: bool

definition with_driver :: "utp_socket \<Rightarrow> utp_endpoint" where
  "with_driver s = \<lparr>ep_inner = s, ep_running = True\<rparr>"

text \<open>A packet, or \<open>None\<close> once the multiplexer has gone.\<close>

definition driver_packet :: "utp_env \<Rightarrow> packet option \<Rightarrow> utp_endpoint \<Rightarrow> utp_endpoint" where
  "driver_packet env pkt e =
    (if \<not> ep_running e then e
     else
       (let s = ep_inner e;
            s = (case pkt of
                   Some pkt \<Rightarrow>
                     (let (_, s) = process_packet env pkt s; (_, s) = maybe_send_ack env s in s)
                 | None \<Rightarrow> if \<not> is_closed (us_state s) then s\<lparr>us_state := CsReset\<rparr> else s)
        in \<lparr>ep_inner = s, ep_running = (\<not> is_closed (us_state s))\<rparr>))"

definition driver_tick :: "utp_env \<Rightarrow> utp_endpoint \<Rightarrow> utp_endpoint" where
  "driver_tick env e =
    (if \<not> ep_running e then e
     else
       (let (retransmit_result, s) = check_retransmits env (ep_inner e);
            (_, s) = maybe_send_ack env s
        in \<lparr>ep_inner = s,
            ep_running = (\<not> (is_closed (us_state s) \<or> (\<exists>err. retransmit_result = Inl err)))\<rparr>))"

section \<open>Blocking calls\<close>

datatype 'a poll = Ready "utp_error + 'a" | Waiting

definition connect_poll :: "utp_socket \<Rightarrow> unit poll" where
  "connect_poll s =
    (if us_state s = CsConnected then Ready (Inr ())
     else if is_closed (us_state s)
     then Ready (Inl (IkConnectionRefused, ''Connection failed: '' @ show_state (us_state s)))
     else Waiting)"

definition connect_timed_out :: "utp_socket \<Rightarrow> (utp_error + unit) \<times> utp_socket" where
  "connect_timed_out s = (Inl (IkTimedOut, ''Connection timeout''), s\<lparr>us_state := CsTimedOut\<rparr>)"

definition read_poll :: "nat \<Rightarrow> utp_socket \<Rightarrow> bytes poll \<times> utp_socket" where
  "read_poll n s =
    (if n = 0 then (Ready (Inr []), s)
     else if has_data s then (let (bs, s) = read_data n s in (Ready (Inr bs), s))
     else if us_fin_received s then (Ready (Inr []), s)
     else if is_closed (us_state s)
     then (Ready (Inl (IkConnectionReset, ''Connection closed: '' @ show_state (us_state s))), s)
     else (Waiting, s))"

definition write_poll :: "utp_env \<Rightarrow> bytes \<Rightarrow> utp_socket \<Rightarrow> (utp_error + nat) \<times> utp_socket" where
  "write_poll env data s =
    (if is_closed (us_state s)
     then (Inl (IkConnectionReset, ''Connection closed: '' @ show_state (us_state s)), s)
     else send_data env data s)"

definition shutdown :: "utp_env \<Rightarrow> utp_socket \<Rightarrow> (utp_error + unit) \<times> utp_socket" where
  "shutdown env s = close env s"

section \<open>Packets a socket builds decode to themselves\<close>

lemma length_sack_step: "length (bitmask sack) \<le> 32 \<Longrightarrow> length (bitmask (sack_step ack e sack)) \<le> 32"
  by (auto simp: sack_step_def Let_def word_less_nat_alt intro!: length_set_acked)

lemma length_sack_of: "length (bitmask (sack_of ack ooo)) < 256"
proof -
  have "length (bitmask acc) \<le> 32 \<Longrightarrow> length (bitmask (fold (sack_step ack) ooo acc)) \<le> 32" for acc
    by (induction ooo arbitrary: acc) (simp_all add: length_sack_step)
  from this [of sack_default] show ?thesis by (simp add: sack_of_def sack_default_def)
qed

lemma is_acked_sack_step:
  "is_acked (sack_step ack e sack) i \<longleftrightarrow> is_acked sack i \<or> (i < 256 \<and> ack + 2 + i = fst e)"
proof -
  have "i = fst e - ack - 2 \<longleftrightarrow> ack + 2 + i = fst e" by (auto simp: algebra_simps)
  then show ?thesis by (auto simp: sack_step_def Let_def is_acked_set_acked)
qed

lemma is_acked_fold:
  "is_acked (fold (sack_step ack) ooo acc) i \<longleftrightarrow> is_acked acc i \<or> (i < 256 \<and> ack + 2 + i \<in> fst ` set ooo)"
  by (induction ooo arbitrary: acc) (auto simp: is_acked_sack_step)

lemma is_acked_sack_of: "is_acked (sack_of ack ooo) i \<longleftrightarrow> i < 256 \<and> ack + 2 + i \<in> fst ` set ooo"
  by (simp add: sack_of_def is_acked_fold)

lemma build_packet_fields:
  assumes "build_packet env t payload s = (pkt, s')"
  shows "pk_type pkt = t" and "pk_payload pkt = payload" and "pk_seq_nr pkt = us_seq_nr s"
    and "pk_ack_nr pkt = us_ack_nr s" and "sack_fits pkt"
    and "s' = s\<lparr>us_seq_nr := (if t \<in> {PtData, PtSyn, PtFin} then us_seq_nr s + 1 else us_seq_nr s)\<rparr>"
    and "pk_selective_ack pkt =
      (if uc_enable_sack (us_config s) \<and> us_ooo s \<noteq> [] \<and> t = PtState
       then Some (sack_of (us_ack_nr s) (us_ooo s)) else None)"
  using assms length_sack_of
  by (auto simp: build_packet_def Let_def packet_new_def with_window_def with_timestamps_def
      with_selective_ack_def sack_fits_def split: if_splits)

lemma retransmission_fields [simp]:
  "pk_type (retransmission env p s) = pp_packet_type p"
  "pk_payload (retransmission env p s) = pp_payload p"
  "pk_seq_nr (retransmission env p s) = pp_seq_nr p"
  "sack_fits (retransmission env p s)"
  by (simp_all add: retransmission_def packet_new_def with_window_def with_timestamps_def sack_fits_def)



end
