(* ===== verification/UtpFrames.thy ===== *)
theory UtpFrames
  imports UtpDriver
begin

text \<open>
  What the operations of a connection leave alone. \<open>recv_view\<close> is the part of the state that
  receiving data reads and writes; sending, acknowledging and retransmitting do not touch it.
  \<open>acks_only\<close> relates the states before and after operations that handle packets: on the sending
  side they only drop pending packets and put acknowledgements into the channel.
\<close>

section \<open>The receiving side\<close>

definition recv_view ::
  "utp_socket \<Rightarrow> 16 word \<times> (16 word \<times> bytes) list \<times> bytes \<times> 16 word option \<times> bool \<times> nat" where
  "recv_view s = (us_ack_nr s, us_ooo s, us_recv_buffer s, us_pending_fin s, us_fin_received s, us_recv_window s)"

lemma recv_view_build [simp]: "recv_view (snd (build_packet env t p s)) = recv_view s"
  by (simp add: build_packet_def Let_def recv_view_def)

lemma recv_view_state [simp]:
  "recv_view (s\<lparr>us_state := st\<rparr>) = recv_view s"
  "recv_view (s\<lparr>us_pending := m, us_stats := cs\<rparr>) = recv_view s"
  "recv_view (s\<lparr>us_congestion := c\<rparr>) = recv_view s"
  "recv_view (s\<lparr>us_fin_sent := b\<rparr>) = recv_view s"
  "recv_view (s\<lparr>us_tx_open := b\<rparr>) = recv_view s"
  by (simp_all add: recv_view_def)

lemma recv_view_direct [simp]: "recv_view (snd (send_packet_direct env pkt s)) = recv_view s"
  by (simp add: send_packet_direct_def Let_def recv_view_def)

lemma recv_view_track [simp]: "recv_view (track_packet env pkt s) = recv_view s"
  by (simp add: track_packet_def Let_def recv_view_def)

lemma recv_view_and_then:
  assumes "recv_view (snd m) = v" and "\<And>x t. recv_view t = v \<Longrightarrow> recv_view (snd (f x t)) = v"
  shows "recv_view (snd (and_then m f)) = v"
  using assms by (cases "(m, f)" rule: and_then.cases) simp_all

lemma recv_view_send_packet [simp]: "recv_view (snd (send_packet env pkt s)) = recv_view s"
  unfolding send_packet_def by (rule recv_view_and_then) simp_all

lemma recv_view_send_ack [simp]: "recv_view (snd (send_ack env s)) = recv_view s"
  by (simp add: send_ack_def split_beta)

lemma recv_view_maybe_send_ack [simp]: "recv_view (snd (maybe_send_ack env s)) = recv_view s"
  by (simp add: maybe_send_ack_def)

lemma recv_view_ack_packet [simp]: "recv_view (ack_packet env d c q s) = recv_view s"
  by (simp add: ack_packet_def Let_def recv_view_def split: option.split)

lemma recv_view_fold:
  "(\<And>x s. recv_view (f x s) = recv_view s) \<Longrightarrow> recv_view (fold f xs s) = recv_view s"
  by (induction xs arbitrary: s) simp_all

lemma recv_view_process_acks [simp]: "recv_view (process_acks env a sack d s) = recv_view s"
  by (cases sack) (simp_all add: process_acks_def Let_def recv_view_fold)

lemma recv_view_acks_of [simp]: "recv_view (acks_of env pkt s) = recv_view s"
  by (simp add: acks_of_def)

lemma recv_view_note_packet [simp]: "recv_view (note_packet env pkt s) = recv_view s"
  by (simp add: note_packet_def Let_def recv_view_def)

lemma recv_view_process_closing [simp]: "recv_view (process_closing env pkt s) = recv_view s"
  by (simp add: process_closing_def Let_def)

lemma recv_view_send_loop [simp]: "recv_view (snd (send_loop env data sent s)) = recv_view s"
proof (induction env data sent s rule: send_loop.induct)
  case (1 env data sent s)
  define stop where "stop = min (sent + max_payload_size) (length data)"
  obtain pkt t where b: "build_packet env PtData (slice sent stop data) s = (pkt, t)" by fastforce
  obtain r u where p: "send_packet env pkt t = (r, u)" by fastforce
  have t: "recv_view t = recv_view s"
    using recv_view_build [of env PtData "slice sent stop data" s] by (simp add: b)
  have u: "recv_view u = recv_view s"
    using recv_view_send_packet [of env pkt t] t by (simp add: p)
  show ?case
    by (subst send_loop.simps, cases r)
      (use 1 [OF _ stop_def refl b [symmetric] p [symmetric]] u in \<open>auto simp: Let_def b p stop_def [symmetric]\<close>)
qed

lemma recv_view_send_data [simp]: "recv_view (snd (send_data env data s)) = recv_view s"
  by (simp add: send_data_def)

lemma recv_view_write_poll [simp]: "recv_view (snd (write_poll env data s)) = recv_view s"
  by (simp add: write_poll_def)

lemma recv_view_close [simp]: "recv_view (snd (close env s)) = recv_view s"
proof -
  have v: "recv_view (snd (build_packet env PtFin [] (s\<lparr>us_fin_sent := True\<rparr>))) = recv_view s" by simp
  show ?thesis
    unfolding close_def Let_def split_beta using v
    by (auto intro: recv_view_and_then)
qed

lemma recv_view_retransmit_loop [simp]: "recv_view (snd (retransmit_loop env qs s)) = recv_view s"
  by (induction qs arbitrary: s) (auto split: option.split intro!: recv_view_and_then)

lemma recv_view_check_retransmits [simp]: "recv_view (snd (check_retransmits env s)) = recv_view s"
  by (auto simp: check_retransmits_def Let_def intro: recv_view_and_then)

text \<open>Only \<open>take_packet\<close> changes the view, and only while the connection is open.\<close>

lemma recv_view_process_connected:
  "recv_view (snd (process_connected env pkt s)) =
    recv_view (if is_reset pkt \<or> is_syn pkt then s else take_packet env pkt s)"
  by (auto simp: process_connected_def Let_def intro!: recv_view_and_then)

lemma recv_view_process_packet:
  "us_state s \<noteq> CsSynSent \<Longrightarrow> recv_view (snd (process_packet env pkt s)) =
    recv_view (if us_state s \<in> {CsConnected, CsFinSent} \<and> \<not> is_reset pkt \<and> \<not> is_syn pkt
               then take_packet env pkt (note_packet env pkt s) else s)"
proof -
  assume "us_state s \<noteq> CsSynSent"
  moreover have "us_state (note_packet env pkt s) = us_state s"
    by (simp add: note_packet_def Let_def)
  ultimately show ?thesis
    by (cases "us_state s") (simp_all add: process_packet_def recv_view_process_connected)
qed

section \<open>The sending side\<close>

definition emitted :: "(packet \<Rightarrow> bool) \<Rightarrow> utp_socket \<Rightarrow> utp_socket \<Rightarrow> bool" where
  "emitted P s s' \<longleftrightarrow>
    (\<exists>ps. us_outbox s' = us_outbox s @ map packet_encode ps \<and> (\<forall>p \<in> set ps. sack_fits p \<and> P p))"

lemma emitted_nothing: "us_outbox s' = us_outbox s \<Longrightarrow> emitted P s s'"
  unfolding emitted_def by (intro exI [of _ "[]"]) simp

lemma emitted_trans: "emitted P s t \<Longrightarrow> emitted P t u \<Longrightarrow> emitted P s u"
  unfolding emitted_def by (metis append_assoc map_append Un_iff set_append)

lemma emitted_one:
  "us_outbox s' = us_outbox s @ [packet_encode pkt] \<Longrightarrow> sack_fits pkt \<Longrightarrow> P pkt \<Longrightarrow> emitted P s s'"
  unfolding emitted_def by (intro exI [of _ "[pkt]"]) simp

lemma emitted_mono: "emitted P s t \<Longrightarrow> (\<And>p. P p \<Longrightarrow> Q p) \<Longrightarrow> emitted Q s t"
  unfolding emitted_def by blast

definition handshaking :: "connection_state \<Rightarrow> bool" where
  "handshaking st \<longleftrightarrow> st \<in> {CsIdle, CsSynSent, CsSynRecv}"

definition acks_only :: "utp_socket \<Rightarrow> utp_socket \<Rightarrow> bool" where
  "acks_only s s' \<longleftrightarrow>
    us_seq_nr s' = us_seq_nr s \<and> us_tx_open s' = us_tx_open s \<and> us_fin_sent s' = us_fin_sent s
    \<and> map_of (us_pending s') \<subseteq>\<^sub>m map_of (us_pending s) \<and> emitted is_state s s'
    \<and> (handshaking (us_state s') \<longrightarrow> us_state s' = us_state s)
    \<and> (us_state s' = CsConnected \<longrightarrow> us_state s \<in> {CsSynSent, CsConnected})"

lemma acks_only_trans:
  assumes "acks_only s t" and "acks_only t u"
  shows "acks_only s u"
proof -
  have "emitted is_state s u"
    using assms emitted_trans [of is_state s t u] unfolding acks_only_def by blast
  moreover have "map_of (us_pending u) \<subseteq>\<^sub>m map_of (us_pending s)"
    using assms unfolding acks_only_def by (blast intro: map_le_trans)
  moreover have "handshaking (us_state u) \<longrightarrow> us_state u = us_state s"
    using assms unfolding acks_only_def by metis
  moreover have "us_state u = CsConnected \<longrightarrow> us_state s \<in> {CsSynSent, CsConnected}"
    using assms unfolding acks_only_def by (metis handshaking_def insert_iff singletonD)
  ultimately show ?thesis
    using assms unfolding acks_only_def by metis
qed

lemma acks_only_same:
  "us_seq_nr s' = us_seq_nr s \<Longrightarrow> us_tx_open s' = us_tx_open s \<Longrightarrow> us_fin_sent s' = us_fin_sent s \<Longrightarrow>
    map_of (us_pending s') \<subseteq>\<^sub>m map_of (us_pending s) \<Longrightarrow> us_outbox s' = us_outbox s \<Longrightarrow>
    us_state s' = us_state s \<or> (\<not> handshaking (us_state s') \<and> us_state s' \<noteq> CsConnected) \<Longrightarrow> acks_only s s'"
  unfolding acks_only_def by (auto intro: emitted_nothing)

lemma acks_only_refl [simp]: "acks_only s s"
  by (rule acks_only_same) simp_all

lemma acks_only_and_then:
  assumes "acks_only s (snd m)" and "\<And>x t. acks_only s t \<Longrightarrow> acks_only s (snd (f x t))"
  shows "acks_only s (snd (and_then m f))"
  using assms by (cases "(m, f)" rule: and_then.cases) simp_all

lemma send_ack_outcome:
  "(if us_tx_open s
    then \<exists>pkt. fst (send_ack env s) = Inr () \<and> pk_type pkt = PtState \<and> sack_fits pkt
      \<and> us_outbox (snd (send_ack env s)) = us_outbox s @ [packet_encode pkt]
    else us_outbox (snd (send_ack env s)) = us_outbox s)
   \<and> us_seq_nr (snd (send_ack env s)) = us_seq_nr s \<and> us_tx_open (snd (send_ack env s)) = us_tx_open s
   \<and> us_fin_sent (snd (send_ack env s)) = us_fin_sent s \<and> us_pending (snd (send_ack env s)) = us_pending s
   \<and> us_state (snd (send_ack env s)) = us_state s"
proof -
  obtain pkt t where b: "build_packet env PtState [] s = (pkt, t)" by fastforce
  note f = build_packet_fields [OF b]
  show ?thesis
    using f(1,5,6) by (auto simp: send_ack_def b send_packet_direct_def Let_def)
qed

lemma acks_only_send_ack [simp]: "acks_only s (snd (send_ack env s))"
  using send_ack_outcome [of s env]
  by (auto simp: acks_only_def packet_kinds intro: emitted_one emitted_nothing split: if_splits)

lemma acks_only_maybe_send_ack [simp]: "acks_only s (snd (maybe_send_ack env s))"
  by (simp add: maybe_send_ack_def)

lemma acks_only_note_packet [simp]: "acks_only s (note_packet env pkt s)"
  by (rule acks_only_same) (simp_all add: note_packet_def Let_def)

lemma acks_only_ack_packet [simp]: "acks_only s (ack_packet env d c q s)"
  by (rule acks_only_same) (auto simp: ack_packet_def Let_def split: option.splits)

lemma acks_only_fold: "(\<And>x s. acks_only s (f x s)) \<Longrightarrow> acks_only s (fold f xs s)"
  by (induction xs arbitrary: s) (auto intro: acks_only_trans)

lemma acks_only_process_acks [simp]: "acks_only s (process_acks env a sack d s)"
proof -
  let ?t = "fold (ack_packet env d True) (filter (\<lambda>seq. seq_before_eq seq a) (map fst (us_pending s))) s"
  have t: "acks_only s ?t" by (rule acks_only_fold) simp
  show ?thesis
  proof (cases sack)
    case (Some k)
    have "acks_only ?t (process_acks env a sack d s)"
      unfolding process_acks_def Let_def Some option.case by (rule acks_only_fold) simp
    with t show ?thesis by (rule acks_only_trans)
  qed (simp add: process_acks_def t)
qed

lemma acks_only_acks_of [simp]: "acks_only s (acks_of env pkt s)"
  by (simp add: acks_of_def)

lemma acks_only_deliver_ooo [simp]: "acks_only s (deliver_ooo s)"
proof (induction s rule: deliver_ooo.induct)
  case (1 s)
  show ?case
  proof (cases "map_of (us_ooo s) (us_ack_nr s + 1)")
    case (Some data)
    show ?thesis
      by (subst deliver_ooo.simps, simp add: Let_def Some, rule acks_only_trans [OF _ 1 [OF refl Some]])
        (rule acks_only_same; simp)
  qed (subst deliver_ooo.simps, simp)
qed

lemma acks_only_receive_data [simp]: "acks_only s (receive_data q p s)"
proof -
  have "acks_only s (deliver_ooo (s\<lparr>us_stats := st, us_recv_buffer := b, us_ack_nr := a\<rparr>))" for st b a
    by (rule acks_only_trans [OF _ acks_only_deliver_ooo]) (rule acks_only_same; simp)
  moreover have "acks_only s (s\<lparr>us_ooo := m\<rparr>)" for m by (rule acks_only_same) simp_all
  ultimately show ?thesis by (simp add: receive_data_def Let_def)
qed

lemma acks_only_fin [simp]: "acks_only s (see_fin q b s)" "acks_only s (release_fin s)"
  by (auto simp: see_fin_def release_fin_def intro: acks_only_same split: option.split)

lemma acks_only_set_state:
  "acks_only s t \<Longrightarrow> \<not> handshaking st \<Longrightarrow> st \<noteq> CsConnected \<Longrightarrow> acks_only s (t\<lparr>us_state := st\<rparr>)"
  by (rule acks_only_trans) (auto intro: acks_only_same)

lemmas acks_onlyI =
  acks_only_trans [OF _ acks_only_send_ack] acks_only_trans [OF _ acks_only_acks_of]
  acks_only_trans [OF _ acks_only_receive_data] acks_only_trans [OF _ acks_only_fin(1)]
  acks_only_trans [OF _ acks_only_fin(2)] acks_only_set_state acks_only_and_then

lemma acks_only_take_packet [simp]: "acks_only s (take_packet env pkt s)"
  by (simp add: take_packet_def Let_def acks_onlyI)

lemma acks_only_process_connected: "acks_only s (snd (process_connected env pkt s))"
  unfolding process_connected_def Let_def
  by (auto intro!: acks_onlyI simp: handshaking_def)

lemma acks_only_process_packet [simp]: "acks_only s (snd (process_packet env pkt s))"
proof -
  let ?t = "note_packet env pkt s"
  have "acks_only ?t (snd (process_packet env pkt s))"
  proof (cases "us_state ?t")
    case CsSynSent
    define u where "u = acks_of env pkt (?t\<lparr>us_ack_nr := pk_seq_nr pkt - 1, us_last_ack_sent := pk_seq_nr pkt - 1\<rparr>)"
    have "acks_only (?t\<lparr>us_ack_nr := pk_seq_nr pkt - 1, us_last_ack_sent := pk_seq_nr pkt - 1\<rparr>) u"
      unfolding u_def by (rule acks_only_acks_of)
    then have "acks_only ?t u" by (rule acks_only_trans [rotated]) (rule acks_only_same; simp)
    then have "acks_only ?t (u\<lparr>us_state := CsConnected\<rparr>)"
      using CsSynSent by (auto simp: acks_only_def emitted_def handshaking_def)
    then show ?thesis
      using CsSynSent
      by (auto simp: process_packet_def Let_def process_syn_sent_def u_def handshaking_def intro: acks_only_set_state)
  next
    case CsClosing
    have "acks_only ?t (acks_of env pkt ?t)" by simp
    then show ?thesis
      using CsClosing
      by (auto simp: process_packet_def Let_def process_closing_def handshaking_def intro: acks_only_set_state)
  qed (simp_all add: process_packet_def Let_def acks_only_process_connected)
  then show ?thesis by (rule acks_only_trans [rotated]) simp
qed

section \<open>States\<close>

lemma state_build [simp]: "us_state (snd (build_packet env t p s)) = us_state s"
  by (simp add: build_packet_def Let_def)

lemma state_send_packet [simp]: "us_state (snd (send_packet env pkt s)) = us_state s"
  by (simp add: send_packet_def send_packet_direct_def track_packet_def Let_def)

lemma state_send_loop [simp]: "us_state (snd (send_loop env data sent s)) = us_state s"
proof (induction env data sent s rule: send_loop.induct)
  case (1 env data sent s)
  define stop where "stop = min (sent + max_payload_size) (length data)"
  obtain pkt t where b: "build_packet env PtData (slice sent stop data) s = (pkt, t)" by fastforce
  obtain r u where p: "send_packet env pkt t = (r, u)" by fastforce
  have u: "us_state u = us_state s"
    using state_send_packet [of env pkt t] state_build [of env PtData "slice sent stop data" s] by (simp add: b p)
  show ?case
    by (subst send_loop.simps, cases r)
      (use 1 [OF _ stop_def refl b [symmetric] p [symmetric]] u in \<open>auto simp: Let_def b p stop_def [symmetric]\<close>)
qed

lemma state_write_poll [simp]: "us_state (snd (write_poll env data s)) = us_state s"
  by (simp add: write_poll_def send_data_def)

lemma state_close: "us_state (snd (close env s)) \<in> {us_state s, CsFinSent}"
proof -
  obtain pkt t where b: "build_packet env PtFin [] (s\<lparr>us_fin_sent := True\<rparr>) = (pkt, t)" by fastforce
  have t: "us_state t = us_state s"
    using state_build [of env PtFin "[]" "s\<lparr>us_fin_sent := True\<rparr>"] by (simp add: b)
  obtain r u where p: "send_packet env pkt t = (r, u)" by fastforce
  have "us_state u = us_state s" using state_send_packet [of env pkt t] t by (simp add: p)
  then show ?thesis by (cases r) (auto simp: close_def b p)
qed

lemma state_retransmit_loop: "us_state (snd (retransmit_loop env qs s)) \<in> {us_state s, CsTimedOut}"
proof (induction qs arbitrary: s)
  case (Cons q qs)
  show ?case
  proof (cases "map_of (us_pending s) q")
    case (Some p)
    obtain r t where d: "send_packet_direct env (retransmission env p s) s = (r, t)" by fastforce
    then have t: "us_state t = us_state s" by (auto simp: send_packet_direct_def Let_def split: if_splits)
    let ?m = "om_insert q (mark_retransmit (ue_now env) p) (us_pending t)"
    let ?st = "(us_stats t)\<lparr>cs_retransmits := u64 (cs_retransmits (us_stats t) + 1)\<rparr>"
    show ?thesis
      using Cons [of "t\<lparr>us_pending := ?m, us_stats := ?st\<rparr>"] Some d t by (cases r) auto
  qed (use Cons in simp)
qed simp

lemma state_check_retransmits: "us_state (snd (check_retransmits env s)) \<in> {us_state s, CsTimedOut}"
proof -
  obtain r t where "retransmit_loop env (overdue env s) s = (r, t)" by fastforce
  then show ?thesis
    using state_retransmit_loop [of env "overdue env s" s] by (cases r) (auto simp: check_retransmits_def Let_def)
qed

lemma state_acks_only: "acks_only s s' \<Longrightarrow> us_state s \<noteq> CsSynSent \<Longrightarrow> us_state s' \<noteq> CsSynSent"
  unfolding acks_only_def handshaking_def by auto

end
