(* ===== verification/UtpSender.thy ===== *)
theory UtpSender
  imports UtpFrames
begin

text \<open>
  The sending side of a connection. What it sends is a list of items, numbered from 0: payloads
  and at the end possibly a FIN. Item \<open>k\<close> goes out under the sequence number \<open>item_seq k\<close> (the SYN
  has number 1), which repeats after 65536 items, so \<open>item_no L q\<close> names the latest of the first
  \<open>L\<close> items that has number \<open>q\<close>.
\<close>

type_synonym item = "packet_type \<times> bytes"

definition item_seq :: "nat \<Rightarrow> 16 word" where
  "item_seq k = 2 + of_nat k"

primrec item_no :: "nat \<Rightarrow> 16 word \<Rightarrow> nat option" where
  "item_no 0 q = None"
| "item_no (Suc L) q = (if q = item_seq L then Some L else item_no L q)"

lemma item_no_Some: "item_no L q = Some k \<Longrightarrow> k < L \<and> q = item_seq k"
  by (induction L) (auto split: if_splits intro: less_SucI)

lemma item_seq_eq: "item_seq j = item_seq k \<longleftrightarrow> j mod 65536 = k mod 65536"
proof -
  have "item_seq j = item_seq k \<longleftrightarrow> (of_nat j :: 16 word) = of_nat k"
    by (simp add: item_seq_def)
  also have "\<dots> \<longleftrightarrow> j mod 65536 = k mod 65536"
    unfolding word_unat_eq_iff unat_of_nat by simp
  finally show ?thesis .
qed

lemma item_seq_near:
  assumes "k \<le> j" and "j < k + 65536"
  shows "item_seq j = item_seq k \<longleftrightarrow> j = k"
proof
  assume "item_seq j = item_seq k"
  then have "65536 dvd j - k" using assms(1) by (simp add: item_seq_eq mod_eq_dvd_iff_nat)
  then show "j = k" using assms by (auto dest!: dvd_imp_le)
qed simp

lemma item_no_recent: "k < L \<Longrightarrow> L \<le> k + 65536 \<Longrightarrow> item_no L (item_seq k) = Some k"
proof (induction L)
  case (Suc L)
  then show ?case using item_seq_near [of k L] by (auto simp: less_Suc_eq)
qed simp

lemma item_seq_Suc: "item_seq (Suc k) = item_seq k + 1"
  by (simp add: item_seq_def)

fun chunk_up :: "bytes \<Rightarrow> bytes list" where
  "chunk_up [] = []"
| "chunk_up bs = take 1380 bs # chunk_up (drop 1380 bs)"


lemma chunk_up_step: "bs \<noteq> [] \<Longrightarrow> chunk_up bs = take 1380 bs # chunk_up (drop 1380 bs)"
  by (cases bs) simp_all

lemma concat_chunk_up [simp]: "concat (chunk_up bs) = bs"
  by (induction bs rule: chunk_up.induct) simp_all

lemma chunk_up_nonempty: "c \<in> set (chunk_up bs) \<Longrightarrow> c \<noteq> []"
  by (induction bs rule: chunk_up.induct) auto

lemma length_chunk_up: "length (chunk_up bs) \<le> length bs"
proof (induction bs rule: chunk_up.induct)
  case (2 b bs)
  then have "length (chunk_up (drop 1380 (b # bs))) \<le> length bs" by simp
  then show ?case by simp
qed simp

section \<open>Pending packets\<close>

definition pend_ok :: "item list \<Rightarrow> 16 word \<Rightarrow> pending_packet \<Rightarrow> bool" where
  "pend_ok items q p \<longleftrightarrow>
    pp_seq_nr p = q \<and>
    (pp_packet_type p = PtSyn \<or>
     (\<exists>k. item_no (length items) q = Some k \<and> items ! k = (pp_packet_type p, pp_payload p)))"

definition pend_inv :: "item list \<Rightarrow> utp_socket \<Rightarrow> bool" where
  [inv_defs]: "pend_inv items s \<longleftrightarrow>
    (us_tx_open s \<longrightarrow> us_seq_nr s = item_seq (length items))
    \<and> (\<forall>q p. map_of (us_pending s) q = Some p \<longrightarrow> pend_ok items q p)"

definition carries :: "item list \<Rightarrow> nat \<Rightarrow> packet \<Rightarrow> bool" where
  "carries items L pkt \<longleftrightarrow>
    (\<exists>k. item_no L (pk_seq_nr pkt) = Some k \<and> k < length items \<and> items ! k = (pk_type pkt, pk_payload pkt))"

lemma pend_inv_acks_only:
  assumes "acks_only s s'" and "pend_inv items s"
  shows "pend_inv items s'"
proof -
  have le: "map_of (us_pending s') \<subseteq>\<^sub>m map_of (us_pending s)"
    and sq: "us_seq_nr s' = us_seq_nr s" "us_tx_open s' = us_tx_open s"
    using assms(1) unfolding acks_only_def by blast+
  have "map_of (us_pending s) q = Some p" if "map_of (us_pending s') q = Some p" for q p
    using le that unfolding map_le_def by force
  then show ?thesis using assms(2) sq by (simp add: pend_inv_def)
qed

lemma pend_ok_snoc:
  assumes "pend_ok items q p" and "q \<noteq> item_seq (length items)"
  shows "pend_ok (items @ [x]) q p"
proof -
  have "k < length items" if "item_no (length items) q = Some k" for k
    using item_no_Some [OF that] by blast
  then show ?thesis using assms by (auto simp: pend_ok_def nth_append)
qed

lemma send_item:
  assumes "us_tx_open s" and "pend_inv items s" and "t \<in> {PtData, PtFin}"
    and b: "build_packet env t payload s = (pkt, u)"
  shows "\<exists>v. send_packet env pkt u = (Inr (), v) \<and> us_outbox v = us_outbox s @ [packet_encode pkt]
    \<and> pend_inv (items @ [(t, payload)]) v \<and> us_tx_open v \<and> us_fin_sent v = us_fin_sent s
    \<and> us_state v = us_state s"
proof -
  note f = build_packet_fields [OF b]
  have u: "u = s\<lparr>us_seq_nr := us_seq_nr s + 1\<rparr>" using f(6) assms(3) by auto
  have q: "pk_seq_nr pkt = item_seq (length items)" using f(3) assms(1,2) by (simp add: pend_inv_def)
  obtain w where w: "send_packet_direct env pkt u = (Inr (), w)"
    and wo: "us_outbox w = us_outbox s @ [packet_encode pkt]" and wp: "us_pending w = us_pending s"
    and wf: "us_tx_open w" "us_fin_sent w = us_fin_sent s" "us_state w = us_state s"
      "us_seq_nr w = us_seq_nr s + 1"
    using assms(1) by (auto simp: send_packet_direct_def Let_def u)
  let ?p = "(pending_packet_new (ue_now env) (pk_seq_nr pkt) (packet_encode pkt) (pk_payload pkt))
              \<lparr>pp_packet_type := pk_type pkt\<rparr>"
  have tr: "track_packet env pkt w = w\<lparr>us_congestion := on_send (pp_size ?p) (us_congestion w),
      us_pending := om_insert (pk_seq_nr pkt) ?p (us_pending w)\<rparr>"
    using f(1) assms(3) by (auto simp: track_packet_def packet_kinds)
  have "pend_ok (items @ [(t, payload)]) (pk_seq_nr pkt) ?p"
    using f(1,2) q by (simp add: pend_ok_def pending_packet_new_def)
  moreover have "pend_ok (items @ [(t, payload)]) q' p'"
    if "map_of (us_pending s) q' = Some p'" "q' \<noteq> pk_seq_nr pkt" for q' p'
    using that assms(2) q pend_ok_snoc by (auto simp: pend_inv_def)
  ultimately have "pend_inv (items @ [(t, payload)]) (track_packet env pkt w)"
    using assms(1,2) wp wf(1,4) by (auto simp: pend_inv_def tr item_seq_Suc)
  then show ?thesis
    using w wo wf by (simp add: send_packet_def tr)
qed

section \<open>Sending\<close>

text \<open>The packets \<open>ps\<close> carry consecutive items from number \<open>L\<close> on.\<close>

fun numbered :: "nat \<Rightarrow> item list \<Rightarrow> packet list \<Rightarrow> bool" where
  "numbered L [] ps \<longleftrightarrow> ps = []"
| "numbered L (x # xs) ps \<longleftrightarrow>
    (\<exists>p qs. ps = p # qs \<and> pk_seq_nr p = item_seq L \<and> (pk_type p, pk_payload p) = x \<and> sack_fits p
      \<and> numbered (Suc L) xs qs)"

lemma numbered_length: "numbered L xs ps \<Longrightarrow> length ps = length xs"
  by (induction L xs ps rule: numbered.induct) auto

lemma numbered_nth:
  "numbered L xs ps \<Longrightarrow> i < length xs \<Longrightarrow>
    pk_seq_nr (ps ! i) = item_seq (L + i) \<and> (pk_type (ps ! i), pk_payload (ps ! i)) = xs ! i \<and> sack_fits (ps ! i)"
proof (induction L xs ps arbitrary: i rule: numbered.induct)
  case (2 L x xs ps)
  then show ?case by (cases i) auto
qed simp

definition data_items :: "bytes \<Rightarrow> item list" where
  "data_items bs = map (Pair PtData) (chunk_up bs)"

lemma send_loop_spec:
  assumes "us_tx_open s" and "pend_inv items s" and "sent \<le> length data"
  shows "\<exists>n s' ps. send_loop env data sent s = (Inr n, s') \<and> sent \<le> n \<and> n \<le> length data
    \<and> us_outbox s' = us_outbox s @ map packet_encode ps
    \<and> numbered (length items) (data_items (slice sent n data)) ps
    \<and> pend_inv (items @ data_items (slice sent n data)) s'
    \<and> us_tx_open s' \<and> us_fin_sent s' = us_fin_sent s \<and> us_state s' = us_state s"
  using assms
proof (induction env data sent s arbitrary: items rule: send_loop.induct)
  case (1 env data sent s)
  let ?c = "sent < length data \<and> can_send (us_congestion s)
    \<and> lb_bytes_in_flight (us_congestion s) < max (us_remote_window s) mss"
  show ?case
  proof (cases ?c)
    case False
    then show ?thesis
      using "1.prems" by (subst send_loop.simps) (auto simp: data_items_def intro!: exI [of _ "[]"])
  next
    case True
    define stop where "stop = min (sent + max_payload_size) (length data)"
    obtain pkt u where b: "build_packet env PtData (slice sent stop data) s = (pkt, u)" by fastforce
    note f = build_packet_fields [OF b]
    let ?new = "items @ [(PtData, slice sent stop data)]"
    obtain v where v: "send_packet env pkt u = (Inr (), v)" "us_outbox v = us_outbox s @ [packet_encode pkt]"
        "pend_inv ?new v" "us_tx_open v" "us_fin_sent v = us_fin_sent s" "us_state v = us_state s"
      using send_item [OF "1.prems"(1,2) _ b] by blast
    have stop: "sent < stop" "stop \<le> length data"
      using True by (auto simp: stop_def max_payload_size_def max_packet_size_def header_size_def)
    obtain n s' ps where r: "send_loop env data stop v = (Inr n, s')" "stop \<le> n" "n \<le> length data"
        "us_outbox s' = us_outbox v @ map packet_encode ps"
        "numbered (length ?new) (data_items (slice stop n data)) ps"
        "pend_inv (?new @ data_items (slice stop n data)) s'"
        "us_tx_open s'" "us_fin_sent s' = us_fin_sent v" "us_state s' = us_state v"
      using "1.IH" [OF True stop_def refl b [symmetric] v(1) [symmetric] refl v(4,3) stop(2)] by blast
    have sl: "slice sent n data = slice sent stop data @ slice stop n data"
      using stop r(2) by (simp add: slice_join)
    have "chunk_up (slice sent n data) = slice sent stop data # chunk_up (slice stop n data)"
    proof (cases "stop = length data")
      case True
      then have "n = stop" using r(2,3) by simp
      moreover have "length (slice sent stop data) \<le> 1380"
        by (simp add: stop_def max_payload_size_def max_packet_size_def header_size_def)
      moreover have "slice sent stop data \<noteq> []" using stop by (simp add: slice_def)
      ultimately show ?thesis by (simp add: chunk_up_step)
    next
      case False
      then have st: "stop = sent + 1380"
        using stop by (auto simp: stop_def max_payload_size_def max_packet_size_def header_size_def min_def split: if_splits)
      then have l: "length (slice sent stop data) = 1380" using stop by simp
      then have "slice sent stop data \<noteq> []" by (metis list.size(3) zero_neq_numeral)
      then have "slice sent n data \<noteq> []" by (simp add: sl)
      then show ?thesis by (subst chunk_up_step) (simp_all add: sl l del: length_slice)
    qed
    then have d: "data_items (slice sent n data) = (PtData, slice sent stop data) # data_items (slice stop n data)"
      by (simp add: data_items_def)
    have "send_loop env data sent s = (Inr n, s')"
      using True b v(1) r(1) by (subst send_loop.simps) (simp add: Let_def stop_def)
    moreover have "numbered (length items) (data_items (slice sent n data)) (pkt # ps)"
      using r(5) f(1,2,3,5) "1.prems"(1,2) by (simp add: d pend_inv_def)
    ultimately show ?thesis
      using r v stop by (intro exI [of _ n] exI [of _ s'] exI [of _ "pkt # ps"]) (simp add: d)
  qed
qed

lemma write_poll_spec:
  assumes "pend_inv items s"
  shows "(\<exists>n s' ps. write_poll env data s = (Inr n, s') \<and> n \<le> length data
      \<and> us_outbox s' = us_outbox s @ map packet_encode ps
      \<and> numbered (length items) (data_items (take n data)) ps
      \<and> pend_inv (items @ data_items (take n data)) s'
      \<and> us_tx_open s' = us_tx_open s \<and> us_fin_sent s' = us_fin_sent s \<and> us_state s' = us_state s)
    \<or> (\<exists>e s'. write_poll env data s = (Inl e, s') \<and> us_outbox s' = us_outbox s \<and> pend_inv items s'
      \<and> us_tx_open s' = us_tx_open s \<and> us_fin_sent s' = us_fin_sent s \<and> us_state s' = us_state s)"
proof (cases "us_tx_open s")
  case True
  then show ?thesis
    using send_loop_spec [OF True assms, of 0 data env] assms
    by (auto simp: write_poll_def send_data_def slice_def)
next
  case False
  obtain r s' where w: "send_loop env data 0 s = (r, s')" by fastforce
  have "(r = Inr 0 \<and> s' = s) \<or> ((\<exists>e. r = Inl e) \<and> us_outbox s' = us_outbox s \<and> us_pending s' = us_pending s
      \<and> us_tx_open s' = us_tx_open s \<and> us_fin_sent s' = us_fin_sent s \<and> us_state s' = us_state s)"
    using w False
    by (subst (asm) send_loop.simps)
      (auto simp: Let_def send_packet_def send_packet_direct_def build_packet_def split: if_splits prod.splits)
  then show ?thesis
    using w False assms by (auto simp: write_poll_def send_data_def data_items_def pend_inv_def)
qed

section \<open>Closing and retransmitting\<close>

lemma close_spec:
  assumes "pend_inv items s"
  shows "(us_outbox (snd (close env s)) = us_outbox s \<and> pend_inv items (snd (close env s))
      \<and> us_tx_open (snd (close env s)) = us_tx_open s
      \<and> (us_fin_sent (snd (close env s)) = us_fin_sent s \<or> \<not> us_tx_open s)
      \<and> (us_fin_sent s \<longrightarrow> us_fin_sent (snd (close env s)))
      \<and> us_state (snd (close env s)) = us_state s)
    \<or> (\<exists>pkt. us_outbox (snd (close env s)) = us_outbox s @ [packet_encode pkt]
      \<and> numbered (length items) [(PtFin, [])] [pkt]
      \<and> pend_inv (items @ [(PtFin, [])]) (snd (close env s))
      \<and> us_tx_open (snd (close env s)) \<and> us_tx_open s \<and> us_fin_sent (snd (close env s))
      \<and> (us_state s = CsConnected \<or> us_state s = CsClosing \<and> \<not> us_fin_sent s)
      \<and> us_state (snd (close env s)) \<in> {CsFinSent, CsClosing})"
proof -
  let ?s = "s\<lparr>us_fin_sent := True\<rparr>"
  have inv: "pend_inv items ?s" using assms by (simp add: pend_inv_def)
  obtain pkt u where b: "build_packet env PtFin [] ?s = (pkt, u)" by fastforce
  note f = build_packet_fields [OF b]
  show ?thesis
  proof (cases "us_tx_open s")
    case True
    obtain v where v: "send_packet env pkt u = (Inr (), v)" "us_outbox v = us_outbox s @ [packet_encode pkt]"
        "pend_inv (items @ [(PtFin, [])]) v" "us_tx_open v" "us_fin_sent v" "us_state v = us_state s"
      using send_item [OF _ inv _ b] True by auto
    have "numbered (length items) [(PtFin, [])] [pkt]"
      using f(1,2,3,5) True assms by (simp add: pend_inv_def)
    moreover have "pend_inv (items @ [(PtFin, [])]) (v\<lparr>us_state := st\<rparr>)" for st
      using v(3) by (simp add: pend_inv_def)
    ultimately show ?thesis
      using True assms v by (auto simp: close_def b)
  next
    case False
    then have u: "send_packet env pkt u = (Inl (IkConnectionReset, ''Send channel closed''), u)"
      using f(6) by (simp add: send_packet_def send_packet_direct_def)
    have "pend_inv items u" using assms False f(6) by (simp add: pend_inv_def)
    then show ?thesis using False u f(6) assms by (auto simp: close_def b)
  qed
qed

lemma retransmit_loop_spec:
  assumes "pend_inv items s"
  shows "pend_inv items (snd (retransmit_loop env qs s))
    \<and> emitted (\<lambda>p. is_syn p \<or> carries items (length items) p) s (snd (retransmit_loop env qs s))
    \<and> us_tx_open (snd (retransmit_loop env qs s)) = us_tx_open s
    \<and> us_fin_sent (snd (retransmit_loop env qs s)) = us_fin_sent s
    \<and> us_state (snd (retransmit_loop env qs s)) \<in> {us_state s, CsTimedOut}"
  using assms
proof (induction qs arbitrary: s)
  case Nil
  then show ?case by (simp add: emitted_nothing)
next
  case (Cons q qs)
  show ?case
  proof (cases "map_of (us_pending s) q")
    case None
    then show ?thesis using Cons by simp
  next
    case (Some p)
    let ?pkt = "retransmission env p s"
    show ?thesis
    proof (cases "max_retransmits \<le> pp_retransmits p \<or> \<not> us_tx_open s")
      case True
      then show ?thesis
        using Cons.prems Some
        by (auto simp: send_packet_direct_def pend_inv_def emitted_nothing)
    next
      case False
      have p: "pend_ok items q p" using Cons.prems Some by (simp add: pend_inv_def)
      then have c: "is_syn ?pkt \<or> carries items (length items) ?pkt"
        by (auto simp: pend_ok_def is_syn_def carries_def dest: item_no_Some)
      obtain w where w: "send_packet_direct env ?pkt s = (Inr (), w)"
          "us_outbox w = us_outbox s @ [packet_encode ?pkt]" "us_pending w = us_pending s"
          "us_tx_open w = us_tx_open s" "us_fin_sent w = us_fin_sent s" "us_state w = us_state s"
          "us_seq_nr w = us_seq_nr s"
        using False by (auto simp: send_packet_direct_def Let_def)
      let ?t = "w\<lparr>us_pending := om_insert q (mark_retransmit (ue_now env) p) (us_pending w),
          us_stats := (us_stats w)\<lparr>cs_retransmits := u64 (cs_retransmits (us_stats w) + 1)\<rparr>\<rparr>"
      have "pend_ok items q (mark_retransmit (ue_now env) p)"
        using p by (simp add: pend_ok_def mark_retransmit_def)
      then have t: "pend_inv items ?t" using Cons.prems w by (simp add: pend_inv_def)
      have e: "emitted (\<lambda>p. is_syn p \<or> carries items (length items) p) s ?t"
        using w(2) c by (intro emitted_one [of _ _ ?pkt]) simp_all
      show ?thesis
        using Cons.IH [OF t] e Some False w by (auto intro: emitted_trans)
    qed
  qed
qed

lemma check_retransmits_spec:
  assumes "pend_inv items s"
  shows "pend_inv items (snd (check_retransmits env s))
    \<and> emitted (\<lambda>p. is_syn p \<or> carries items (length items) p) s (snd (check_retransmits env s))
    \<and> us_tx_open (snd (check_retransmits env s)) = us_tx_open s
    \<and> us_fin_sent (snd (check_retransmits env s)) = us_fin_sent s
    \<and> us_state (snd (check_retransmits env s)) \<in> {us_state s, CsTimedOut}"
proof -
  obtain r t where r: "retransmit_loop env (overdue env s) s = (r, t)" by fastforce
  have "pend_inv items (t\<lparr>us_congestion := c\<rparr>) = pend_inv items t" for c
    by (simp add: pend_inv_def)
  moreover have "emitted P s (t\<lparr>us_congestion := c\<rparr>) = emitted P s t" for c P
    by (simp add: emitted_def)
  ultimately show ?thesis
    using retransmit_loop_spec [OF assms, of env "overdue env s"]
    by (cases r) (auto simp: check_retransmits_def Let_def r)
qed

end
