(* ===== verification/UtpReceiver.thy ===== *)
theory UtpReceiver
  imports UtpSender
begin

text \<open>
  The receiving side of a connection against the items of its peer. After \<open>n\<close> items the reader has
  been given, or can be given, exactly the payloads of the first \<open>n\<close>; what is buffered out of order
  are later items under their numbers; and the buffers stay within the advertised window.
\<close>

definition near :: "nat \<Rightarrow> nat \<Rightarrow> bool" where
  "near n k \<longleftrightarrow> k < n + 32768 \<and> n < k + 32768"

lemma near_refl [simp]: "near n n"
  by (simp add: near_def)

lemma near_eq: "near n k \<Longrightarrow> item_seq k = item_seq n \<longleftrightarrow> k = n"
  using item_seq_near [of n k] item_seq_near [of k n] by (cases "n \<le> k") (auto simp: near_def)

lemma near_after: "near n k \<Longrightarrow> seq_after (item_seq k) (item_seq n) \<longleftrightarrow> n < k"
proof -
  assume nr: "near n k"
  show ?thesis
  proof (cases "n \<le> k")
    case True
    then obtain d where k: "k = n + d" by (auto simp: le_iff_add)
    have "d < 32768" using nr k by (simp add: near_def)
    moreover have "item_seq k - item_seq n = of_nat d" by (simp add: item_seq_def k)
    moreover have "unat (of_nat d :: 16 word) = d" using \<open>d < 32768\<close> by (simp add: unat_of_nat)
    ultimately show ?thesis by (simp add: seq_after_def Let_def k word_less_nat_alt)
  next
    case False
    then obtain d where n: "n = k + d" "0 < d" by (metis less_imp_add_positive not_le)
    have d: "d < 32768" using nr n by (simp add: near_def)
    have "item_seq k - item_seq n = - of_nat d" by (simp add: item_seq_def n)
    moreover have "(- of_nat d :: 16 word) = of_nat (65536 - d)"
      using d by (simp add: of_nat_diff)
    moreover have "unat (of_nat (65536 - d) :: 16 word) = 65536 - d"
      using n(2) d unfolding unat_of_nat by simp
    ultimately have "unat (item_seq k - item_seq n) = 65536 - d" by metis
    then have "\<not> item_seq k - item_seq n < 32768" using d by (simp add: word_less_nat_alt)
    then show ?thesis using False by (simp add: seq_after_def Let_def)
  qed
qed

section \<open>The invariant\<close>

definition items_ok :: "item list \<Rightarrow> bool" where
  "items_ok items \<longleftrightarrow>
    (\<forall>k < length items. (fst (items ! k) = PtData \<and> snd (items ! k) \<noteq> [])
      \<or> (items ! k = (PtFin, []) \<and> Suc k = length items))"

definition payloads :: "item list \<Rightarrow> bytes" where
  "payloads items = concat (map snd items)"

text \<open>\<open>ahead items lo hi m\<close>: the buffer \<open>m\<close> holds data items numbered from \<open>lo\<close> up to below \<open>hi\<close>.\<close>

definition ahead :: "item list \<Rightarrow> nat \<Rightarrow> nat \<Rightarrow> (16 word \<times> bytes) list \<Rightarrow> bool" where
  "ahead items lo hi m \<longleftrightarrow>
    (\<forall>(q, p) \<in> set m. \<exists>k. q = item_seq k \<and> lo \<le> k \<and> k < hi \<and> k < length items \<and> items ! k = (PtData, p))"

definition recv_inv :: "item list \<Rightarrow> bytes \<Rightarrow> nat \<Rightarrow> utp_socket \<Rightarrow> bool" where
  [inv_defs]: "recv_inv items given n s \<longleftrightarrow>
    us_ack_nr s + 1 = item_seq n \<and> n \<le> length items
    \<and> given @ us_recv_buffer s = payloads (take n items)
    \<and> om_sorted (us_ooo s) \<and> ahead items (Suc n) (n + 32768) (us_ooo s)
    \<and> buffered_bytes s \<le> us_recv_window s
    \<and> (\<forall>q. us_pending_fin s = Some q \<longrightarrow>
         (\<exists>k < length items. q = item_seq k \<and> items ! k = (PtFin, []) \<and> k < n + 32768))
    \<and> (us_fin_received s \<longrightarrow> 0 < n \<and> items ! (n - 1) = (PtFin, []))"

lemma recv_inv_view: "recv_view s' = recv_view s \<Longrightarrow> recv_inv items given n s' = recv_inv items given n s"
  by (simp add: recv_inv_def recv_view_def buffered_bytes_def)

lemma payloads_take_Suc: "n < length items \<Longrightarrow> payloads (take (Suc n) items) = payloads (take n items) @ snd (items ! n)"
  by (simp add: payloads_def take_Suc_conv_app_nth)

lemma ahead_remove:
  assumes "ahead items n hi m" and "om_sorted m" and "hi \<le> n + 65536"
  shows "ahead items (Suc n) hi (om_remove (item_seq n) m)"
  unfolding ahead_def
proof clarify
  fix q p assume "(q, p) \<in> set (om_remove (item_seq n) m)"
  then have "(q, p) \<in> set m" "q \<noteq> item_seq n" by auto
  then obtain k where "q = item_seq k" "n \<le> k" "k < hi" "k < length items" "items ! k = (PtData, p)"
    using assms(1) by (auto simp: ahead_def)
  moreover from this \<open>q \<noteq> item_seq n\<close> have "Suc n \<le> k" by (cases "n = k") auto
  ultimately show "\<exists>k. q = item_seq k \<and> Suc n \<le> k \<and> k < hi \<and> k < length items \<and> items ! k = (PtData, p)"
    by blast
qed

section \<open>Delivery\<close>

definition deliver_inv :: "item list \<Rightarrow> bytes \<Rightarrow> nat \<Rightarrow> nat \<Rightarrow> utp_socket \<Rightarrow> bool" where
  "deliver_inv items given n hi s \<longleftrightarrow>
    us_ack_nr s + 1 = item_seq n \<and> n \<le> length items \<and> n \<le> hi
    \<and> given @ us_recv_buffer s = payloads (take n items)
    \<and> om_sorted (us_ooo s) \<and> ahead items n hi (us_ooo s) \<and> buffered_bytes s \<le> us_recv_window s"

lemma deliver_ooo_frame:
  "us_recv_window (deliver_ooo s) = us_recv_window s \<and> us_pending_fin (deliver_ooo s) = us_pending_fin s
   \<and> us_fin_received (deliver_ooo s) = us_fin_received s"
proof (induction s rule: deliver_ooo.induct)
  case (1 s)
  show ?case
  proof (cases "map_of (us_ooo s) (us_ack_nr s + 1)")
    case None
    then show ?thesis by (subst (1 2 3) deliver_ooo.simps) simp
  next
    case (Some data)
    then show ?thesis using 1 [OF refl Some] by (subst (1 2 3) deliver_ooo.simps) (simp add: Let_def)
  qed
qed

lemma deliver_ooo_inv:
  assumes "deliver_inv items given n hi s" and "hi \<le> n + 65536"
  shows "\<exists>n'. n \<le> n' \<and> deliver_inv items given n' hi (deliver_ooo s)
    \<and> ahead items (Suc n') hi (us_ooo (deliver_ooo s))"
  using assms
proof (induction s arbitrary: n rule: deliver_ooo.induct)
  case (1 s)
  note inv = "1.prems"(1) [unfolded deliver_inv_def]
  show ?case
  proof (cases "map_of (us_ooo s) (us_ack_nr s + 1)")
    case None
    then have d: "deliver_ooo s = s" by (subst deliver_ooo.simps) simp
    have "item_seq n \<notin> fst ` set (us_ooo s)"
      using None inv by (metis map_of_eq_None_iff)
    then have "om_remove (item_seq n) (us_ooo s) = us_ooo s" by (rule om_remove_absent)
    then show ?thesis
      using "1.prems" d ahead_remove [of items n hi "us_ooo s"] inv by (intro exI [of _ n]) auto
  next
    case (Some data)
    let ?q = "us_ack_nr s + 1"
    let ?t = "s\<lparr>us_ooo := om_remove ?q (us_ooo s),
                us_stats := (us_stats s)\<lparr>cs_bytes_received := u64 (cs_bytes_received (us_stats s) + length data)\<rparr>,
                us_recv_buffer := us_recv_buffer s @ data, us_ack_nr := ?q\<rparr>"
    have d: "deliver_ooo s = deliver_ooo ?t" by (subst deliver_ooo.simps) (simp add: Some Let_def)
    have q: "?q = item_seq n" using inv by blast
    obtain k where k: "item_seq n = item_seq k" "n \<le> k" "k < hi" "k < length items" "items ! k = (PtData, data)"
      using inv map_of_SomeD [OF Some] q by (auto simp: ahead_def)
    have "k = n" using item_seq_near [of n k] k "1.prems"(2) by simp
    then have n: "n < length items" "n < hi" "items ! n = (PtData, data)" using k by auto
    have "deliver_inv items given (Suc n) hi ?t"
      using inv n q ahead_remove [of items n hi "us_ooo s"] "1.prems"(2)
        sum_om_remove [of "us_ooo s" ?q data length] Some
      by (simp add: deliver_inv_def item_seq_Suc payloads_take_Suc buffered_bytes_def)
    then obtain n' where "Suc n \<le> n'" "deliver_inv items given n' hi (deliver_ooo ?t)"
        "ahead items (Suc n') hi (us_ooo (deliver_ooo ?t))"
      using "1.IH" [OF refl Some, of "Suc n"] "1.prems"(2) by auto
    then show ?thesis unfolding d by (intro exI [of _ n']) simp
  qed
qed

section \<open>Receiving items\<close>

lemma fin_is_last: "items_ok items \<Longrightarrow> k < length items \<Longrightarrow> fst (items ! k) = PtFin \<Longrightarrow> Suc k = length items"
  unfolding items_ok_def by (metis packet_type.distinct(1))

lemma fin_received_all:
  assumes "recv_inv items given n s" and "items_ok items" and "us_fin_received s"
  shows "n = length items"
proof -
  have n: "0 < n" "n \<le> length items" "items ! (n - 1) = (PtFin, [])"
    using assms(1,3) by (simp_all add: recv_inv_def)
  then have "Suc (n - 1) = length items" by (intro fin_is_last [OF assms(2)]) auto
  then show ?thesis using n by simp
qed

lemma receive_data_inv:
  assumes inv: "recv_inv items given n s" and ok: "items_ok items" and k: "k < length items" "items ! k = (PtData, p)" "near n k"
  shows "\<exists>n'. n \<le> n' \<and> n' \<le> n + 32768 \<and> recv_inv items given n' (receive_data (item_seq k) p s)
    \<and> us_pending_fin (receive_data (item_seq k) p s) = us_pending_fin s
    \<and> us_fin_received (receive_data (item_seq k) p s) = us_fin_received s"
proof -
  note r = inv [unfolded recv_inv_def]
  have exp: "us_ack_nr s + 1 = item_seq n" using r by blast
  show ?thesis
  proof (cases "k = n")
    case True
    show ?thesis
    proof (cases "fits_recv_window (length p) s")
      case False
      then have "receive_data (item_seq k) p s = s" using True exp by (simp add: receive_data_def)
      then show ?thesis using inv by (intro exI [of _ n]) simp
    next
      case fits: True
      let ?t = "s\<lparr>us_stats := (us_stats s)\<lparr>cs_bytes_received := u64 (cs_bytes_received (us_stats s) + length p)\<rparr>,
             us_recv_buffer := us_recv_buffer s @ p, us_ack_nr := item_seq n\<rparr>"
      have d: "receive_data (item_seq k) p s = deliver_ooo ?t"
        using True exp fits by (simp add: receive_data_def)
      have "deliver_inv items given (Suc n) (n + 32768) ?t"
        using r k True fits
        by (simp add: deliver_inv_def item_seq_Suc payloads_take_Suc buffered_bytes_def fits_recv_window_def)
      from deliver_ooo_inv [OF this]
      obtain n' where n': "Suc n \<le> n'" "deliver_inv items given n' (n + 32768) (deliver_ooo ?t)"
          "ahead items (Suc n') (n + 32768) (us_ooo (deliver_ooo ?t))" by auto
      have "ahead items (Suc n') (n' + 32768) (us_ooo (deliver_ooo ?t))"
        using n'(1,3) by (fastforce simp: ahead_def)
      moreover have "\<not> us_fin_received s"
        using fin_received_all [OF inv ok] k(1) True by auto
      moreover have "\<exists>k < length items. q = item_seq k \<and> items ! k = (PtFin, []) \<and> k < n' + 32768"
        if "us_pending_fin s = Some q" for q
        using r that n'(1) by (fastforce dest: spec [of _ q])
      ultimately have "recv_inv items given n' (deliver_ooo ?t)"
        using n'(2) deliver_ooo_frame [of ?t] by (simp add: recv_inv_def deliver_inv_def)
      then show ?thesis
        using n' deliver_ooo_frame [of ?t] unfolding d deliver_inv_def by (intro exI [of _ n']) simp
    qed
  next
    case False
    then have "item_seq k \<noteq> item_seq n" using near_eq [OF k(3)] by simp
    then have d: "receive_data (item_seq k) p s =
        (if n < k \<and> length (us_ooo s) < max_ooo_packets \<and> fits_recv_window (length p) s
         then s\<lparr>us_ooo := om_insert (item_seq k) p (us_ooo s)\<rparr> else s)"
      using exp near_after [OF k(3)] by (simp add: receive_data_def Let_def)
    have "recv_inv items given n (s\<lparr>us_ooo := om_insert (item_seq k) p (us_ooo s)\<rparr>)"
      if "n < k" "fits_recv_window (length p) s"
    proof -
      have "ahead items (Suc n) (n + 32768) (om_insert (item_seq k) p (us_ooo s))"
        unfolding ahead_def
      proof clarify
        fix q v assume "(q, v) \<in> set (om_insert (item_seq k) p (us_ooo s))"
        then have "(q, v) = (item_seq k, p) \<or> (q, v) \<in> set (us_ooo s)" using set_om_insert by fastforce
        then show "\<exists>j. q = item_seq j \<and> Suc n \<le> j \<and> j < n + 32768 \<and> j < length items \<and> items ! j = (PtData, v)"
          using r k that(1) by (auto simp: ahead_def near_def)
      qed
      moreover have "sum_list (map (length \<circ> snd) (om_insert (item_seq k) p (us_ooo s)))
          \<le> length p + sum_list (map (length \<circ> snd) (us_ooo s))" by (rule sum_om_insert)
      ultimately show ?thesis
        using r that(2) by (simp add: recv_inv_def buffered_bytes_def fits_recv_window_def)
    qed
    then show ?thesis using inv unfolding d by (intro exI [of _ n]) simp
  qed
qed

lemma reach_fin:
  assumes inv: "recv_inv items given n s" and ok: "items_ok items"
    and n: "n < length items" "items ! n = (PtFin, [])"
  shows "recv_inv items given (Suc n) (s\<lparr>us_ack_nr := item_seq n, us_fin_received := True\<rparr>)"
proof -
  have last: "Suc n = length items" using fin_is_last [OF ok n(1)] n(2) by simp
  have "us_ooo s = []"
  proof (rule ccontr)
    assume "us_ooo s \<noteq> []"
    then obtain q p where "(q, p) \<in> set (us_ooo s)" by (cases "us_ooo s") auto
    then show False using inv last by (fastforce simp: recv_inv_def ahead_def)
  qed
  moreover have "\<exists>k < length items. q = item_seq k \<and> items ! k = (PtFin, []) \<and> k < Suc n + 32768"
    if "us_pending_fin s = Some q" for q
    using inv that by (fastforce simp: recv_inv_def)
  ultimately show ?thesis
    using inv n by (simp add: recv_inv_def item_seq_Suc payloads_take_Suc ahead_def buffered_bytes_def)
qed

lemma recv_inv_drop_fin:
  "recv_inv items given n s \<Longrightarrow> recv_inv items given n (s\<lparr>us_pending_fin := None\<rparr>)"
  by (simp add: recv_inv_def buffered_bytes_def)

lemma release_fin_inv:
  assumes inv: "recv_inv items given n s" and ok: "items_ok items"
  shows "\<exists>n'. n \<le> n' \<and> n' \<le> Suc n \<and> recv_inv items given n' (release_fin s)"
proof (cases "us_pending_fin s")
  case None
  then show ?thesis using inv by (intro exI [of _ n]) (simp add: release_fin_def)
next
  case (Some q)
  obtain k where k: "k < length items" "q = item_seq k" "items ! k = (PtFin, [])" "k < n + 32768"
    using inv Some by (auto simp: recv_inv_def)
  have last: "Suc k = length items" using fin_is_last [OF ok k(1)] k(3) by simp
  have n: "n \<le> Suc k" and ack: "us_ack_nr s + 1 = item_seq n" using inv last by (simp_all add: recv_inv_def)
  show ?thesis
  proof (cases "n = Suc k")
    case True
    then have "us_ack_nr s = q" using ack k(2) by (simp add: item_seq_Suc)
    then have r: "release_fin s = s\<lparr>us_fin_received := True, us_pending_fin := None\<rparr>"
      by (simp add: release_fin_def Some)
    have "recv_inv items given n (s\<lparr>us_fin_received := True, us_pending_fin := None\<rparr>)"
      using inv True k(3) by (simp add: recv_inv_def buffered_bytes_def)
    then show ?thesis unfolding r by (intro exI [of _ n]) simp
  next
    case False
    then have le: "n \<le> k" using n by simp
    have a: "us_ack_nr s \<noteq> q"
    proof
      assume "us_ack_nr s = q"
      then have "item_seq (Suc k) = item_seq n" using ack k(2) by (simp add: item_seq_Suc)
      then show False using item_seq_near [of n "Suc k"] le k(4) by simp
    qed
    show ?thesis
    proof (cases "n = k")
      case True
      then have r: "release_fin s =
          s\<lparr>us_ack_nr := item_seq n, us_fin_received := True\<rparr>\<lparr>us_pending_fin := None\<rparr>"
        using ack k(2) by (simp add: release_fin_def Some)
      show ?thesis
        using recv_inv_drop_fin [OF reach_fin [OF inv ok]] k True unfolding r by (intro exI [of _ "Suc n"]) simp
    next
      case False
      then have "q \<noteq> us_ack_nr s + 1" using item_seq_near [of n k] le k(2,4) ack by simp
      then show ?thesis using inv a by (intro exI [of _ n]) (auto simp: release_fin_def Some)
    qed
  qed
qed

lemma see_fin_inv:
  assumes inv: "recv_inv items given n s" and ok: "items_ok items"
    and k: "k < length items" "items ! k = (PtFin, [])" "near n k"
  shows "\<exists>n'. n \<le> n' \<and> n' \<le> Suc n \<and> recv_inv items given n' (see_fin (item_seq k) False s)"
proof (cases "k = n")
  case True
  have "us_ack_nr s + 1 = item_seq n" using inv by (simp add: recv_inv_def)
  then have "see_fin (item_seq k) False s = s\<lparr>us_ack_nr := item_seq n, us_fin_received := True\<rparr>"
    using True by (simp add: see_fin_def)
  then show ?thesis
    using reach_fin [OF inv ok] k True by (intro exI [of _ "Suc n"]) simp
next
  case False
  then have "item_seq k \<noteq> us_ack_nr s + 1" using near_eq [OF k(3)] inv by (auto simp: recv_inv_def)
  then have "see_fin (item_seq k) False s = s\<lparr>us_pending_fin := Some (item_seq k)\<rparr>" by (simp add: see_fin_def)
  moreover have "recv_inv items given n (s\<lparr>us_pending_fin := Some (item_seq k)\<rparr>)"
    using inv k by (auto simp: recv_inv_def buffered_bytes_def near_def)
  ultimately show ?thesis by (intro exI [of _ n]) simp
qed

text \<open>A packet that carries an item near the next expected one, or none.\<close>

definition item_packet :: "item list \<Rightarrow> nat \<Rightarrow> packet \<Rightarrow> bool" where
  "item_packet items n pkt \<longleftrightarrow>
    (is_data pkt \<or> is_fin pkt \<longrightarrow>
      (\<exists>k < length items. pk_seq_nr pkt = item_seq k \<and> near n k \<and> items ! k = (pk_type pkt, pk_payload pkt)))"

lemma take_packet_inv:
  assumes inv: "recv_inv items given n s" and ok: "items_ok items" and pkt: "item_packet items n pkt"
  shows "\<exists>n'. n \<le> n' \<and> n' < n + 65536 \<and> recv_inv items given n' (take_packet env pkt s)"
proof -
  let ?t = "acks_of env pkt s"
  have t: "recv_inv items given n ?t" using inv recv_inv_view [OF recv_view_acks_of] by blast
  have "\<exists>u m. take_packet env pkt s = release_fin u \<and> n \<le> m \<and> m \<le> n + 32768 \<and> recv_inv items given m u"
  proof (cases "is_data pkt \<or> is_fin pkt")
    case False
    then have "take_packet env pkt s = release_fin ?t" by (simp add: take_packet_def Let_def)
    then show ?thesis using t by (intro exI [of _ ?t] exI [of _ n]) simp
  next
    case True
    then obtain k where k: "k < length items" "pk_seq_nr pkt = item_seq k" "near n k"
        "items ! k = (pk_type pkt, pk_payload pkt)"
      using pkt by (auto simp: item_packet_def)
    have shape: "fst (items ! k) = PtData \<and> snd (items ! k) \<noteq> [] \<or> items ! k = (PtFin, [])"
      using ok k(1) by (auto simp: items_ok_def)
    show ?thesis
    proof (cases "is_fin pkt")
      case False
      then have d: "is_data pkt" "pk_payload pkt \<noteq> []" "items ! k = (PtData, pk_payload pkt)"
        using True shape k(4) by (auto simp: packet_kinds)
      have "take_packet env pkt s = release_fin (receive_data (item_seq k) (pk_payload pkt) ?t)"
        using d False by (simp add: take_packet_def Let_def k(2))
      then show ?thesis
        using receive_data_inv [OF t ok k(1) d(3) k(3)] by blast
    next
      case True
      then have f: "pk_payload pkt = []" "items ! k = (PtFin, [])"
        using shape k(4) by (auto simp: packet_kinds)
      have "take_packet env pkt s = release_fin (see_fin (item_seq k) False ?t)"
        using f True by (simp add: take_packet_def Let_def k(2))
      then show ?thesis
        using see_fin_inv [OF t ok k(1) f(2) k(3)]
        by (elim exE conjE) (intro exI conjI; (assumption | linarith))
    qed
  qed
  then obtain u m where u: "take_packet env pkt s = release_fin u" "n \<le> m" "m \<le> n + 32768" "recv_inv items given m u"
    by blast
  obtain n' where n': "m \<le> n'" "n' \<le> Suc m" "recv_inv items given n' (release_fin u)"
    using release_fin_inv [OF u(4) ok] by blast
  have "n \<le> n'" "n' < n + 65536" using u(2,3) n'(1,2) by linarith+
  then show ?thesis using u(1) n'(3) by metis
qed

end
