(* ===== verification/UtpStream.thy ===== *)
theory UtpStream
  imports UtpReceiver "HOL-Library.Sublist"
begin

text \<open>
  Two sockets with their drivers and the network between them. Socket \<open>a\<close> connects and writes,
  socket \<open>b\<close> accepts and reads. The network delivers any datagram \<open>a\<close> ever sent, in any order, any
  number of times or never; \<open>a\<close> may be handed any packet at all, so nothing is assumed about what
  \<open>b\<close>, or someone who forges its packets, tells \<open>a\<close>.

  The other fields are history: what was written and accepted, what was read, the items \<open>a\<close> has
  sent, for every datagram how many items there were when it was sent, and how many items \<open>b\<close> has
  taken. No operation reads them.
\<close>

section \<open>The pair\<close>

record utp_link =
  lk_a :: utp_endpoint
  lk_b :: utp_endpoint
  lk_written :: bytes
  lk_given :: bytes
  lk_items :: "item list"
  lk_tags :: "nat list"
  lk_count :: nat

datatype link_event =
  AWrite utp_env bytes | AShutdown utp_env | APacket utp_env packet | ATick utp_env
  | AMuxGone utp_env | AChannelClosed
  | BDatagram utp_env nat | BRead nat | BWrite utp_env bytes | BShutdown utp_env | BTick utp_env
  | BMuxGone utp_env | BChannelClosed

text \<open>\<open>a\<close> has moved to \<open>e\<close> and sent \<open>new\<close> items; \<open>b\<close> has moved to \<open>e\<close>.\<close>

definition a_moves :: "utp_endpoint \<Rightarrow> item list \<Rightarrow> utp_link \<Rightarrow> utp_link" where
  "a_moves e new l =
    l\<lparr>lk_a := e, lk_items := lk_items l @ new,
      lk_tags := lk_tags l @ replicate (length (us_outbox (ep_inner e)) - length (lk_tags l))
                               (length (lk_items l) + length new)\<rparr>"

definition b_moves :: "utp_endpoint \<Rightarrow> utp_link \<Rightarrow> utp_link" where
  "b_moves e l =
    l\<lparr>lk_b := e, lk_count := lk_count l + unat (us_ack_nr (ep_inner e) - us_ack_nr (ep_inner (lk_b l)))\<rparr>"

abbreviation inner_of :: "utp_endpoint \<Rightarrow> utp_socket \<Rightarrow> utp_endpoint" where
  "inner_of e s \<equiv> e\<lparr>ep_inner := s\<rparr>"

fun link_step :: "utp_link \<Rightarrow> link_event \<Rightarrow> utp_link" where
  "link_step l (AWrite env data) =
    (case write_poll env data (ep_inner (lk_a l)) of
       (Inr n, s) \<Rightarrow>
         (a_moves (inner_of (lk_a l) s) (data_items (take n data)) l)
           \<lparr>lk_written := lk_written l @ take n data\<rparr>
     | (Inl _, s) \<Rightarrow> a_moves (inner_of (lk_a l) s) [] l)"
| "link_step l (AShutdown env) =
    (let s = snd (shutdown env (ep_inner (lk_a l))) in
     a_moves (inner_of (lk_a l) s)
       (if length (us_outbox (ep_inner (lk_a l))) < length (us_outbox s) then [(PtFin, [])] else []) l)"
| "link_step l (APacket env pkt) = a_moves (driver_packet env (Some pkt) (lk_a l)) [] l"
| "link_step l (ATick env) = a_moves (driver_tick env (lk_a l)) [] l"
| "link_step l (AMuxGone env) = a_moves (driver_packet env None (lk_a l)) [] l"
| "link_step l AChannelClosed = a_moves (inner_of (lk_a l) ((ep_inner (lk_a l))\<lparr>us_tx_open := False\<rparr>)) [] l"
| "link_step l (BDatagram env i) =
    (case packet_decode (us_outbox (ep_inner (lk_a l)) ! i) of
       Inl _ \<Rightarrow> l
     | Inr pkt \<Rightarrow> b_moves (driver_packet env (Some pkt) (lk_b l)) l)"
| "link_step l (BRead n) =
    (case read_poll n (ep_inner (lk_b l)) of
       (Ready (Inr bs), s) \<Rightarrow> (b_moves (inner_of (lk_b l) s) l)\<lparr>lk_given := lk_given l @ bs\<rparr>
     | (_, s) \<Rightarrow> b_moves (inner_of (lk_b l) s) l)"
| "link_step l (BWrite env data) = b_moves (inner_of (lk_b l) (snd (write_poll env data (ep_inner (lk_b l))))) l"
| "link_step l (BShutdown env) = b_moves (inner_of (lk_b l) (snd (shutdown env (ep_inner (lk_b l))))) l"
| "link_step l (BTick env) = b_moves (driver_tick env (lk_b l)) l"
| "link_step l (BMuxGone env) = b_moves (driver_packet env None (lk_b l)) l"
| "link_step l BChannelClosed = b_moves (inner_of (lk_b l) ((ep_inner (lk_b l))\<lparr>us_tx_open := False\<rparr>)) l"

text \<open>What is asked of the application and the network: nothing is written after the stream was
  shut down, a write call is shorter than 65536 bytes, and a datagram does not stay in the network
  until its sequence number is within reach again: the item it carried when it was sent lies within
  32768 of the next one \<open>b\<close> expects.\<close>

fun link_guard :: "utp_link \<Rightarrow> link_event \<Rightarrow> bool" where
  "link_guard l (AWrite env data) \<longleftrightarrow> length data < 65536 \<and> \<not> us_fin_sent (ep_inner (lk_a l))"
| "link_guard l (BDatagram env i) \<longleftrightarrow>
    i < length (us_outbox (ep_inner (lk_a l))) \<and>
    (case packet_decode (us_outbox (ep_inner (lk_a l)) ! i) of
       Inl _ \<Rightarrow> True
     | Inr pkt \<Rightarrow>
         (case item_no (lk_tags l ! i) (pk_seq_nr pkt) of None \<Rightarrow> True | Some k \<Rightarrow> near (lk_count l) k))"
| "link_guard l _ \<longleftrightarrow> True"

text \<open>The start: \<open>a\<close> has sent its SYN and \<open>b\<close> has accepted it.\<close>

definition link_start :: "utp_env \<Rightarrow> 16 word \<Rightarrow> 16 word \<Rightarrow> utp_config \<Rightarrow> utp_config \<Rightarrow> utp_link" where
  "link_start env conn_id rnd config_a config_b =
    (let a = snd (start_connect env (new_outgoing (ue_now env) ''b'' conn_id config_a));
         b = snd (accept env (new_incoming (ue_now env) rnd ''a'' conn_id 1 config_b))
     in \<lparr>lk_a = with_driver a, lk_b = with_driver b, lk_written = [], lk_given = [], lk_items = [],
         lk_tags = [0], lk_count = 0\<rparr>)"

section \<open>The invariant\<close>

definition sent_ok :: "item list \<Rightarrow> nat list \<Rightarrow> bytes list \<Rightarrow> bool" where
  "sent_ok items tags outbox \<longleftrightarrow>
    length tags = length outbox \<and>
    (\<forall>i < length outbox. tags ! i \<le> length items \<and>
       (\<exists>pkt. outbox ! i = packet_encode pkt \<and> sack_fits pkt
          \<and> (is_data pkt \<or> is_fin pkt \<longrightarrow> carries items (tags ! i) pkt)))"

definition send_inv :: "item list \<Rightarrow> nat list \<Rightarrow> bytes \<Rightarrow> utp_socket \<Rightarrow> bool" where
  [inv_defs]: "send_inv items tags written s \<longleftrightarrow>
    pend_inv items s \<and> items_ok items \<and> payloads items = written \<and> sent_ok items tags (us_outbox s)
    \<and> (\<not> us_fin_sent s \<longrightarrow> (\<forall>x \<in> set items. fst x = PtData))
    \<and> (us_tx_open s \<and> us_fin_sent s \<longrightarrow> \<not> handshaking (us_state s) \<and> us_state s \<noteq> CsConnected)"

definition link_inv :: "utp_link \<Rightarrow> bool" where
  [inv_defs]: "link_inv l \<longleftrightarrow>
    send_inv (lk_items l) (lk_tags l) (lk_written l) (ep_inner (lk_a l))
    \<and> recv_inv (lk_items l) (lk_given l) (lk_count l) (ep_inner (lk_b l))
    \<and> us_state (ep_inner (lk_b l)) \<noteq> CsSynSent"

lemma carries_append: "carries items L pkt \<Longrightarrow> carries (items @ new) L pkt"
  by (auto simp: carries_def nth_append)

lemma items_ok_data: "\<forall>x \<in> set items. fst x = PtData \<and> snd x \<noteq> [] \<Longrightarrow> items_ok items"
  by (auto simp: items_ok_def)

lemma payloads_append [simp]: "payloads (xs @ ys) = payloads xs @ payloads ys"
  by (simp add: payloads_def)

lemma payloads_data_items [simp]: "payloads (data_items bs) = bs"
  by (simp add: payloads_def data_items_def comp_def)

lemma data_items_data: "x \<in> set (data_items bs) \<Longrightarrow> fst x = PtData \<and> snd x \<noteq> []"
  by (auto simp: data_items_def dest: chunk_up_nonempty)

lemma items_all_data:
  assumes "items_ok items" and "\<forall>x \<in> set items. fst x = PtData"
  shows "\<forall>x \<in> set items. fst x = PtData \<and> snd x \<noteq> []"
  using assms by (fastforce simp: items_ok_def in_set_conv_nth)

lemma items_ok_append:
  assumes "items_ok items" and "\<forall>x \<in> set items. fst x = PtData"
    and "(\<forall>x \<in> set new. fst x = PtData \<and> snd x \<noteq> []) \<or> new = [(PtFin, [])]"
  shows "items_ok (items @ new)"
proof (cases "new = [(PtFin, [])]")
  case True
  then show ?thesis
    using items_all_data [OF assms(1,2)] by (auto simp: items_ok_def nth_append)
next
  case False
  then show ?thesis
    using items_all_data [OF assms(1,2)] assms(3) by (intro items_ok_data) auto
qed

lemma recv_inv_append:
  assumes "recv_inv items given n s"
  shows "recv_inv (items @ new) given n s"
proof -
  note r = assms [unfolded recv_inv_def]
  have "ahead (items @ new) (Suc n) (n + 32768) (us_ooo s)"
    using r by (fastforce simp: ahead_def nth_append)
  moreover have "\<exists>k < length (items @ new). q = item_seq k \<and> (items @ new) ! k = (PtFin, []) \<and> k < n + 32768"
    if "us_pending_fin s = Some q" for q
    using r that by (fastforce simp: nth_append)
  ultimately show ?thesis using r by (auto simp: recv_inv_def nth_append)
qed

text \<open>What \<open>a\<close> sends anew: datagrams that carry no item, or an item that is recent.\<close>

lemma sent_ok_append:
  assumes "sent_ok items tags outbox" and "outbox' = outbox @ map packet_encode ps"
    and "\<And>p. p \<in> set ps \<Longrightarrow> sack_fits p \<and> (is_data p \<or> is_fin p \<longrightarrow> carries (items @ new) T p)"
    and "T = length items + length new"
  shows "sent_ok (items @ new) (tags @ replicate (length outbox' - length tags) T) outbox'"
proof -
  have l: "length tags = length outbox" using assms(1) by (simp add: sent_ok_def)
  have "\<exists>pkt. outbox' ! i = packet_encode pkt \<and> sack_fits pkt
      \<and> (is_data pkt \<or> is_fin pkt \<longrightarrow> carries (items @ new) ((tags @ replicate (length ps) T) ! i) pkt)"
    if "i < length outbox + length ps" for i
  proof (cases "i < length outbox")
    case True
    then show ?thesis
      using assms(1,2) l carries_append unfolding sent_ok_def by (metis nth_append)
  next
    case False
    then have "i - length outbox < length ps" using that by linarith
    then show ?thesis
      using assms(2) assms(3) [OF nth_mem, of "i - length outbox"] False l by (auto simp: nth_append)
  qed
  moreover have "tags ! i \<le> length items" if "i < length outbox" for i
    using assms(1) that by (simp add: sent_ok_def)
  ultimately show ?thesis
    using assms(2,4) l by (auto simp: sent_ok_def nth_append le_SucI trans_le_add1)
qed

section \<open>Steps of the sender\<close>

text \<open>The invariant after \<open>a\<close> moved without writing or closing.\<close>

lemma send_inv_emitted:
  assumes "send_inv items tags written s"
    and "emitted (\<lambda>p. is_data p \<or> is_fin p \<longrightarrow> carries items (length items) p) s s'"
    and "pend_inv items s'" and "us_fin_sent s' = us_fin_sent s" and "us_tx_open s' \<longrightarrow> us_tx_open s"
    and "handshaking (us_state s') \<or> us_state s' = CsConnected \<longrightarrow> handshaking (us_state s) \<or> us_state s = CsConnected"
  shows "send_inv items (tags @ replicate (length (us_outbox s') - length tags) (length items)) written s'"
proof -
  obtain ps where ps: "us_outbox s' = us_outbox s @ map packet_encode ps"
      "\<forall>p \<in> set ps. sack_fits p \<and> (is_data p \<or> is_fin p \<longrightarrow> carries items (length items) p)"
    using assms(2) by (auto simp: emitted_def)
  have "sent_ok (items @ []) (tags @ replicate (length (us_outbox s') - length tags) (length items)) (us_outbox s')"
    by (rule sent_ok_append [where ps = ps]) (use assms(1) ps in \<open>auto simp: send_inv_def\<close>)
  then show ?thesis using assms by (auto simp: send_inv_def)
qed

lemma send_inv_acks_only:
  assumes "send_inv items tags written s" and "acks_only s s'"
  shows "send_inv items (tags @ replicate (length (us_outbox s') - length tags) (length items)) written s'"
proof (rule send_inv_emitted [OF assms(1)])
  show "emitted (\<lambda>p. is_data p \<or> is_fin p \<longrightarrow> carries items (length items) p) s s'"
    using assms(2) unfolding acks_only_def by (auto intro: emitted_mono simp: packet_kinds)
  show "pend_inv items s'"
    using assms pend_inv_acks_only by (simp add: send_inv_def)
  show "us_fin_sent s' = us_fin_sent s" "us_tx_open s' \<longrightarrow> us_tx_open s"
    using assms(2) by (simp_all add: acks_only_def)
  show "handshaking (us_state s') \<or> us_state s' = CsConnected \<longrightarrow> handshaking (us_state s) \<or> us_state s = CsConnected"
    using assms(2) by (auto simp: acks_only_def handshaking_def)
qed

lemma driver_packet_acks_only: "acks_only (ep_inner e) (ep_inner (driver_packet env pkt e))"
proof (cases pkt)
  case None
  then show ?thesis
    by (auto simp: driver_packet_def Let_def handshaking_def is_closed_def intro: acks_only_set_state)
next
  case (Some p)
  obtain r s where p: "process_packet env p (ep_inner e) = (r, s)" by fastforce
  obtain r' s' where m: "maybe_send_ack env s = (r', s')" by fastforce
  have "acks_only (ep_inner e) s" using acks_only_process_packet [of "ep_inner e" env p] by (simp add: p)
  moreover have "acks_only s s'" using acks_only_maybe_send_ack [of s env] by (simp add: m)
  ultimately show ?thesis
    using Some by (auto simp: driver_packet_def Let_def p m intro: acks_only_trans)
qed

lemma driver_tick_send_inv:
  assumes "send_inv items tags written (ep_inner e)"
  shows "send_inv items (tags @ replicate (length (us_outbox (ep_inner (driver_tick env e))) - length tags) (length items))
    written (ep_inner (driver_tick env e))"
proof (cases "ep_running e")
  case False
  then show ?thesis using send_inv_acks_only [OF assms acks_only_refl] by (simp add: driver_tick_def)
next
  case True
  let ?s = "ep_inner e" and ?P = "\<lambda>p. is_data p \<or> is_fin p \<longrightarrow> carries items (length items) p"
  obtain r t where t: "check_retransmits env ?s = (r, t)" by fastforce
  obtain r' u where u: "maybe_send_ack env t = (r', u)" by fastforce
  have inv: "pend_inv items ?s" using assms by (simp add: send_inv_def)
  note c = check_retransmits_spec [OF inv, of env, unfolded t snd_conv]
  have a: "acks_only t u" using acks_only_maybe_send_ack [of t env] by (simp add: u)
  have "emitted ?P ?s t" using c by (auto intro: emitted_mono simp: packet_kinds)
  moreover have "emitted ?P t u"
    using a unfolding acks_only_def by (auto intro: emitted_mono simp: packet_kinds)
  ultimately have e: "emitted ?P ?s u" by (rule emitted_trans)
  have "send_inv items (tags @ replicate (length (us_outbox u) - length tags) (length items)) written u"
  proof (rule send_inv_emitted [OF assms e])
    show "pend_inv items u" using pend_inv_acks_only [OF a] c by simp
    show "us_fin_sent u = us_fin_sent ?s" "us_tx_open u \<longrightarrow> us_tx_open ?s"
      using a c by (simp_all add: acks_only_def)
    show "handshaking (us_state u) \<or> us_state u = CsConnected \<longrightarrow> handshaking (us_state ?s) \<or> us_state ?s = CsConnected"
      using a c by (auto simp: acks_only_def handshaking_def)
  qed
  then show ?thesis using True by (simp add: driver_tick_def t u)
qed

lemma numbered_carries:
  assumes "numbered (length items) new ps" and "length new \<le> 65536" and "p \<in> set ps"
  shows "sack_fits p \<and> carries (items @ new) (length items + length new) p"
proof -
  obtain i where i: "i < length new" "p = ps ! i"
    using assms(1,3) numbered_length by (metis in_set_conv_nth)
  have "item_no (length items + length new) (item_seq (length items + i)) = Some (length items + i)"
    using i(1) assms(2) by (intro item_no_recent) auto
  then show ?thesis
    using numbered_nth [OF assms(1) i(1)] i by (auto simp: carries_def nth_append)
qed

lemma send_inv_new_items:
  assumes inv: "send_inv items tags written s" and data: "\<not> us_fin_sent s \<or> (\<forall>x \<in> set items. fst x = PtData)"
    and out: "us_outbox s' = us_outbox s @ map packet_encode ps"
    and num: "numbered (length items) new ps" "length new \<le> 65536"
    and new: "(\<forall>x \<in> set new. fst x = PtData \<and> snd x \<noteq> []) \<or> (new = [(PtFin, [])] \<and> us_fin_sent s')"
    and pend: "pend_inv (items @ new) s'" and fin: "us_fin_sent s \<longrightarrow> us_fin_sent s'"
    and st: "us_tx_open s' \<and> us_fin_sent s' \<longrightarrow> \<not> handshaking (us_state s') \<and> us_state s' \<noteq> CsConnected"
  shows "send_inv (items @ new)
    (tags @ replicate (length (us_outbox s') - length tags) (length items + length new))
    (written @ payloads new) s'"
proof -
  have all: "\<forall>x \<in> set items. fst x = PtData" using inv data by (auto simp: send_inv_def)
  have "sent_ok (items @ new) (tags @ replicate (length (us_outbox s') - length tags) (length items + length new)) (us_outbox s')"
    by (rule sent_ok_append [OF _ out]) (use inv numbered_carries [OF num] in \<open>auto simp: send_inv_def\<close>)
  moreover have "items_ok (items @ new)"
    using inv all new by (intro items_ok_append) (auto simp: send_inv_def)
  ultimately show ?thesis
    using inv all new pend st by (auto simp: send_inv_def)
qed

lemma shutdown_send_inv:
  assumes inv: "send_inv items tags written s"
    and s': "s' = snd (shutdown env s)"
  defines "new \<equiv> (if length (us_outbox s) < length (us_outbox s') then [(PtFin, [])] else [])"
  shows "send_inv (items @ new)
    (tags @ replicate (length (us_outbox s') - length tags) (length items + length new)) written s'"
proof -
  have pend: "pend_inv items s" using inv by (simp add: send_inv_def)
  consider (quiet) "us_outbox s' = us_outbox s" "pend_inv items s'" "us_tx_open s' = us_tx_open s"
      "us_fin_sent s' = us_fin_sent s \<or> \<not> us_tx_open s" "us_fin_sent s \<longrightarrow> us_fin_sent s'" "us_state s' = us_state s"
    | (fin) pkt where "us_outbox s' = us_outbox s @ [packet_encode pkt]"
      "numbered (length items) [(PtFin, [])] [pkt]" "pend_inv (items @ [(PtFin, [])]) s'"
      "us_tx_open s'" "us_tx_open s" "us_fin_sent s'"
      "us_state s = CsConnected \<or> us_state s = CsClosing \<and> \<not> us_fin_sent s" "us_state s' \<in> {CsFinSent, CsClosing}"
    using close_spec [OF pend, of env] unfolding s' shutdown_def by blast
  then show ?thesis
  proof cases
    case quiet
    have "send_inv items tags written s'"
    proof (cases "us_tx_open s")
      case True
      then have "send_inv items (tags @ replicate (length (us_outbox s') - length tags) (length items)) written s'"
        using quiet by (intro send_inv_emitted [OF inv]) (auto intro: emitted_nothing)
      then show ?thesis using quiet(1) inv by (simp add: send_inv_def sent_ok_def)
    next
      case False
      then show ?thesis using quiet inv by (auto simp: send_inv_def)
    qed
    moreover have "length (us_outbox s') = length tags" using quiet(1) inv by (simp add: send_inv_def sent_ok_def)
    ultimately show ?thesis using quiet(1) by (simp add: new_def)
  next
    case fin
    have "\<not> us_fin_sent s" using fin(5,7) inv by (auto simp: send_inv_def)
    then have "send_inv (items @ [(PtFin, [])])
        (tags @ replicate (length (us_outbox s') - length tags) (length items + length [(PtFin, [] :: byte list)]))
        (written @ payloads [(PtFin, [])]) s'"
      using fin inv by (intro send_inv_new_items [where s = s and ps = "[pkt]"]) (auto simp: handshaking_def)
    then show ?thesis using fin(1) by (simp add: new_def payloads_def)
  qed
qed

lemma length_data_items: "length (data_items bs) \<le> length bs"
  by (simp add: data_items_def length_chunk_up)

lemma link_inv_a_moves:
  assumes "link_inv l"
    and "send_inv (lk_items l @ new)
      (lk_tags l @ replicate (length (us_outbox (ep_inner e)) - length (lk_tags l)) (length (lk_items l) + length new))
      written (ep_inner e)"
  shows "link_inv ((a_moves e new l)\<lparr>lk_written := written\<rparr>)"
  using assms recv_inv_append by (simp add: link_inv_def a_moves_def)

lemma link_inv_a_quiet:
  assumes "link_inv l" and "acks_only (ep_inner (lk_a l)) (ep_inner e)"
  shows "link_inv (a_moves e [] l)"
  using link_inv_a_moves [OF assms(1), of "[]" e "lk_written l"] send_inv_acks_only [OF _ assms(2)] assms(1)
  by (simp add: link_inv_def a_moves_def)

lemma link_inv_write:
  assumes inv: "link_inv l" and g: "link_guard l (AWrite env data)"
  shows "link_inv (link_step l (AWrite env data))"
proof -
  let ?s = "ep_inner (lk_a l)"
  have s: "send_inv (lk_items l) (lk_tags l) (lk_written l) ?s" using inv by (simp add: link_inv_def)
  have pend: "pend_inv (lk_items l) ?s" using s by (simp add: send_inv_def)
  from write_poll_spec [OF pend, of env data] show ?thesis
  proof (elim disjE exE conjE)
    fix n s' ps
    let ?new = "data_items (take n data)"
    assume w: "write_poll env data ?s = (Inr n, s')" and out: "us_outbox s' = us_outbox ?s @ map packet_encode ps"
      and num: "numbered (length (lk_items l)) ?new ps" and p: "pend_inv (lk_items l @ ?new) s'"
      and f: "us_tx_open s' = us_tx_open ?s" "us_fin_sent s' = us_fin_sent ?s" "us_state s' = us_state ?s"
    have "length ?new \<le> 65536" using length_data_items [of "take n data"] g by simp
    then have "send_inv (lk_items l @ ?new)
        (lk_tags l @ replicate (length (us_outbox s') - length (lk_tags l)) (length (lk_items l) + length ?new))
        (lk_written l @ payloads ?new) s'"
      using s out num p f g data_items_data
      by (intro send_inv_new_items [where s = ?s and ps = ps]) (auto simp: send_inv_def)
    then show ?thesis
      using link_inv_a_moves [OF inv, of ?new "inner_of (lk_a l) s'"] by (simp add: w)
  next
    fix e s'
    assume w: "write_poll env data ?s = (Inl e, s')" and f: "us_outbox s' = us_outbox ?s"
        "pend_inv (lk_items l) s'" "us_tx_open s' = us_tx_open ?s" "us_fin_sent s' = us_fin_sent ?s"
        "us_state s' = us_state ?s"
    have "send_inv (lk_items l) (lk_tags l @ replicate (length (us_outbox s') - length (lk_tags l)) (length (lk_items l)))
        (lk_written l) s'"
      using f by (intro send_inv_emitted [OF s]) (auto intro: emitted_nothing)
    then show ?thesis
      using link_inv_a_moves [OF inv, of "[]" "inner_of (lk_a l) s'" "lk_written l"] by (simp add: w a_moves_def)
  qed
qed

section \<open>Steps of the receiver\<close>

lemma count_advances:
  assumes "recv_inv items given n s" and "recv_inv items given' n' s'" and "n \<le> n'" and "n' < n + 65536"
  shows "n + unat (us_ack_nr s' - us_ack_nr s) = n'"
proof -
  have "us_ack_nr s = item_seq n - 1" "us_ack_nr s' = item_seq n' - 1"
    using assms(1,2) unfolding recv_inv_def by (metis add_diff_cancel_right')+
  then have "us_ack_nr s' - us_ack_nr s = item_seq n' - item_seq n" by simp
  moreover obtain d where d: "n' = n + d" using assms(3) by (auto simp: le_iff_add)
  ultimately have "us_ack_nr s' - us_ack_nr s = of_nat d" by (simp add: item_seq_def)
  then show ?thesis using assms(4) d by (simp add: unat_of_nat)
qed

lemma link_inv_b_moves:
  assumes "link_inv l" and "recv_inv (lk_items l) (lk_given l) n' (ep_inner e)"
    and "lk_count l \<le> n'" and "n' < lk_count l + 65536" and "us_state (ep_inner e) \<noteq> CsSynSent"
  shows "link_inv (b_moves e l)"
  using assms count_advances [of "lk_items l" "lk_given l" "lk_count l" "ep_inner (lk_b l)" "lk_given l" n' "ep_inner e"]
  by (simp add: link_inv_def b_moves_def)

lemma link_inv_b_quiet:
  assumes "link_inv l" and "recv_view (ep_inner e) = recv_view (ep_inner (lk_b l))"
    and "us_state (ep_inner e) \<noteq> CsSynSent"
  shows "link_inv (b_moves e l)"
  using assms recv_inv_view [OF assms(2)]
  by (intro link_inv_b_moves [where n' = "lk_count l"]) (auto simp: link_inv_def)

lemma datagram_item_packet:
  assumes "link_inv l" and "link_guard l (BDatagram env i)"
    and "packet_decode (us_outbox (ep_inner (lk_a l)) ! i) = Inr pkt"
  shows "item_packet (lk_items l) (lk_count l) pkt"
proof -
  obtain p where p: "us_outbox (ep_inner (lk_a l)) ! i = packet_encode p" "sack_fits p"
      "is_data p \<or> is_fin p \<longrightarrow> carries (lk_items l) (lk_tags l ! i) p"
    using assms(1,2) by (auto simp: link_inv_def send_inv_def sent_ok_def)
  have "pkt = p" using assms(3) decode_encode [OF p(2)] by (simp add: p(1))
  show ?thesis
    unfolding item_packet_def
  proof
    assume "is_data pkt \<or> is_fin pkt"
    then obtain k where k: "item_no (lk_tags l ! i) (pk_seq_nr pkt) = Some k" "k < length (lk_items l)"
        "lk_items l ! k = (pk_type pkt, pk_payload pkt)"
      using p(3) \<open>pkt = p\<close> by (auto simp: carries_def)
    moreover have "near (lk_count l) k" using assms(2,3) k(1) by simp
    moreover have "pk_seq_nr pkt = item_seq k" using item_no_Some [OF k(1)] by blast
    ultimately show "\<exists>k < length (lk_items l). pk_seq_nr pkt = item_seq k \<and> near (lk_count l) k
        \<and> lk_items l ! k = (pk_type pkt, pk_payload pkt)" by blast
  qed
qed

lemma driver_packet_view:
  "recv_view (ep_inner (driver_packet env pkt e)) =
    (case pkt of None \<Rightarrow> recv_view (ep_inner e)
     | Some p \<Rightarrow> if ep_running e then recv_view (snd (process_packet env p (ep_inner e))) else recv_view (ep_inner e))"
proof (cases pkt)
  case (Some p)
  obtain r s where p: "process_packet env p (ep_inner e) = (r, s)" by fastforce
  show ?thesis
    using recv_view_maybe_send_ack [of env s] Some by (simp add: driver_packet_def Let_def p split_beta)
qed (simp add: driver_packet_def Let_def)

lemma link_inv_datagram:
  assumes inv: "link_inv l" and g: "link_guard l (BDatagram env i)"
  shows "link_inv (link_step l (BDatagram env i))"
proof (cases "packet_decode (us_outbox (ep_inner (lk_a l)) ! i)")
  case (Inl e)
  then show ?thesis using inv by simp
next
  case (Inr pkt)
  let ?s = "ep_inner (lk_b l)" and ?e = "driver_packet env (Some pkt) (lk_b l)"
  have ok: "items_ok (lk_items l)" and r: "recv_inv (lk_items l) (lk_given l) (lk_count l) ?s"
    and st: "us_state ?s \<noteq> CsSynSent"
    using inv by (simp_all add: link_inv_def send_inv_def)
  have st': "us_state (ep_inner ?e) \<noteq> CsSynSent"
    by (rule state_acks_only [OF driver_packet_acks_only st])
  have "link_inv (b_moves ?e l)"
  proof (cases "recv_view (ep_inner ?e) = recv_view ?s")
    case True
    then show ?thesis by (rule link_inv_b_quiet [OF inv _ st'])
  next
    case False
    then have v: "recv_view (ep_inner ?e) = recv_view (take_packet env pkt (note_packet env pkt ?s))"
      using recv_view_process_packet [OF st, of env pkt] by (auto simp: driver_packet_view split: if_splits)
    have "recv_inv (lk_items l) (lk_given l) (lk_count l) (note_packet env pkt ?s)"
      using r recv_inv_view [OF recv_view_note_packet] by blast
    then obtain n' where n': "lk_count l \<le> n'" "n' < lk_count l + 65536"
        "recv_inv (lk_items l) (lk_given l) n' (take_packet env pkt (note_packet env pkt ?s))"
      using take_packet_inv [OF _ ok datagram_item_packet [OF inv g Inr]] by blast
    then show ?thesis
      using recv_inv_view [OF v] st' by (intro link_inv_b_moves [OF inv]) auto
  qed
  then show ?thesis by (simp add: Inr)
qed

lemma link_inv_read:
  assumes inv: "link_inv l"
  shows "link_inv (link_step l (BRead n))"
proof -
  let ?s = "ep_inner (lk_b l)"
  have quiet: "link_inv (b_moves (inner_of (lk_b l) ?s) l)"
    using inv by (intro link_inv_b_quiet) (auto simp: link_inv_def)
  then have given: "link_inv ((b_moves (inner_of (lk_b l) ?s) l)\<lparr>lk_given := lk_given l\<rparr>)"
    by (simp add: link_inv_def b_moves_def)
  show ?thesis
  proof (cases "n \<noteq> 0 \<and> has_data ?s")
    case True
    let ?t = "?s\<lparr>us_recv_buffer := drop n (us_recv_buffer ?s)\<rparr>"
    have "recv_inv (lk_items l) (lk_given l @ take n (us_recv_buffer ?s)) (lk_count l) ?t"
      using inv by (auto simp: link_inv_def recv_inv_def buffered_bytes_def)
    then show ?thesis
      using inv True by (simp add: read_poll_def read_data_def link_inv_def b_moves_def)
  next
    case False
    then show ?thesis
      using quiet given by (auto simp: read_poll_def)
  qed
qed

lemma link_inv_b_tick:
  assumes inv: "link_inv l"
  shows "link_inv (link_step l (BTick env))"
proof -
  let ?s = "ep_inner (lk_b l)"
  obtain r t where t: "check_retransmits env ?s = (r, t)" by fastforce
  obtain r' u where u: "maybe_send_ack env t = (r', u)" by fastforce
  have "recv_view u = recv_view ?s"
    using recv_view_check_retransmits [of env ?s] recv_view_maybe_send_ack [of env t] by (simp add: t u)
  moreover have "us_state t \<noteq> CsSynSent"
    using state_check_retransmits [of env ?s] inv by (auto simp: t link_inv_def)
  then have "us_state u \<noteq> CsSynSent"
    using state_acks_only [OF acks_only_maybe_send_ack, of t env] by (simp add: u)
  moreover have "us_state ?s \<noteq> CsSynSent" using inv by (simp add: link_inv_def)
  ultimately show ?thesis
    by (auto simp: driver_tick_def t u intro: link_inv_b_quiet [OF inv])
qed

lemma link_inv_a_tick:
  assumes inv: "link_inv l"
  shows "link_inv (link_step l (ATick env))"
proof -
  have "send_inv (lk_items l) (lk_tags l) (lk_written l) (ep_inner (lk_a l))"
    using inv by (simp add: link_inv_def)
  from driver_tick_send_inv [OF this, of env] show ?thesis
    using link_inv_a_moves [OF inv, of "[]" "driver_tick env (lk_a l)" "lk_written l"]
    by (simp add: a_moves_def)
qed

lemma link_inv_a_shutdown:
  assumes inv: "link_inv l"
  shows "link_inv (link_step l (AShutdown env))"
proof -
  have "send_inv (lk_items l) (lk_tags l) (lk_written l) (ep_inner (lk_a l))"
    using inv by (simp add: link_inv_def)
  from shutdown_send_inv [OF this refl, of env] show ?thesis
    using link_inv_a_moves [OF inv, of _ "inner_of (lk_a l) (snd (shutdown env (ep_inner (lk_a l))))" "lk_written l"]
    by (simp add: Let_def a_moves_def)
qed

lemma link_inv_a_channel_closed:
  assumes inv: "link_inv l"
  shows "link_inv (link_step l AChannelClosed)"
proof -
  let ?s = "ep_inner (lk_a l)"
  let ?t = "?s\<lparr>us_tx_open := False\<rparr>"
  have "send_inv (lk_items l) (lk_tags l) (lk_written l) ?s" using inv by (simp add: link_inv_def)
  then have "send_inv (lk_items l) (lk_tags l @ replicate (length (us_outbox ?t) - length (lk_tags l)) (length (lk_items l)))
      (lk_written l) ?t"
    by (rule send_inv_emitted)
      (use inv in \<open>auto simp: link_inv_def send_inv_def pend_inv_def intro: emitted_nothing\<close>)
  then show ?thesis
    using link_inv_a_moves [OF inv, of "[]" "inner_of (lk_a l) ?t" "lk_written l"] by (simp add: a_moves_def)
qed

lemma link_inv_step:
  assumes inv: "link_inv l" and g: "link_guard l ev"
  shows "link_inv (link_step l ev)"
proof -
  have b: "us_state (ep_inner (lk_b l)) \<noteq> CsSynSent" using inv by (simp add: link_inv_def)
  have packet: "link_inv (b_moves (driver_packet env None (lk_b l)) l)" for env
    using state_acks_only [OF driver_packet_acks_only b] by (intro link_inv_b_quiet [OF inv]) (simp_all add: driver_packet_view)
  have close: "link_inv (link_step l (BShutdown env))" for env
    using state_close [of env "ep_inner (lk_b l)"] b
    by (auto simp: shutdown_def intro!: link_inv_b_quiet [OF inv])
  show ?thesis
  proof (cases ev)
    case (AWrite env data)
    then show ?thesis using link_inv_write [OF inv] g by blast
  next
    case (BDatagram env i)
    then show ?thesis using link_inv_datagram [OF inv] g by blast
  qed (use close packet b inv in \<open>simp_all add: link_inv_a_quiet driver_packet_acks_only link_inv_read
      link_inv_b_tick link_inv_a_tick link_inv_a_shutdown link_inv_a_channel_closed link_inv_b_quiet
      del: link_step.simps(2,4,6,8,10,11)\<close>)
qed

interpretation utp: guarded_system link_step link_guard link_inv
  by unfold_locales (rule link_inv_step)

section \<open>The start\<close>

lemma start_connect_run:
  "\<exists>pkt s. start_connect env (new_outgoing now addr conn_id config) = (Inr (), s)
    \<and> pk_type pkt = PtSyn \<and> sack_fits pkt \<and> us_outbox s = [packet_encode pkt] \<and> pend_inv [] s
    \<and> \<not> us_fin_sent s"
proof -
  let ?s = "(new_outgoing now addr conn_id config)\<lparr>us_state := CsSynSent\<rparr>"
  have idle: "us_state (new_outgoing now addr conn_id config) = CsIdle"
    by (simp add: new_outgoing_def utp_socket_new_def)
  obtain pkt u where b: "build_packet env PtSyn [] ?s = (pkt, u)" by fastforce
  note f = build_packet_fields [OF b]
  obtain s where s: "send_packet env pkt u = (Inr (), s)" by
    (simp add: send_packet_def send_packet_direct_def f(6) new_outgoing_def utp_socket_new_def Let_def)
  have "us_outbox s = [packet_encode pkt] \<and> pend_inv [] s \<and> \<not> us_fin_sent s"
    using s f(1,3,6)
    by (auto simp: send_packet_def send_packet_direct_def track_packet_def packet_kinds new_outgoing_def
        utp_socket_new_def Let_def pend_inv_def pend_ok_def item_seq_def pending_packet_new_def split: if_splits)
  then show ?thesis
    using s f(1,5) by (intro exI [of _ pkt] exI [of _ s]) (simp add: start_connect_def b idle)
qed

lemma accept_run:
  "recv_view (snd (accept env (new_incoming now rnd addr conn_id peer_seq config)))
      = (peer_seq, [], [], None, False, uc_recv_window config)
   \<and> us_state (snd (accept env (new_incoming now rnd addr conn_id peer_seq config))) = CsConnected"
proof -
  let ?s = "new_incoming now rnd addr conn_id peer_seq config"
  obtain r t where a: "send_ack env ?s = (r, t)" by fastforce
  have st: "us_state ?s = CsSynRecv" "us_tx_open ?s" by (simp_all add: new_incoming_def utp_socket_new_def)
  have "recv_view t = recv_view ?s" using recv_view_send_ack [of env ?s] by (simp add: a)
  moreover have "r = Inr ()" using send_ack_outcome [of ?s env] st by (simp add: a)
  ultimately show ?thesis
    using st by (simp add: accept_def a) (simp add: recv_view_def new_incoming_def utp_socket_new_def)
qed

lemma link_inv_start: "link_inv (link_start env conn_id rnd config_a config_b)"
proof -
  let ?b = "snd (accept env (new_incoming (ue_now env) rnd ''a'' conn_id 1 config_b))"
  obtain pkt s where s: "start_connect env (new_outgoing (ue_now env) ''b'' conn_id config_a) = (Inr (), s)"
      "pk_type pkt = PtSyn" "sack_fits pkt" "us_outbox s = [packet_encode pkt]" "pend_inv [] s" "\<not> us_fin_sent s"
    using start_connect_run by blast
  have "send_inv [] [0] [] s"
    using s by (auto simp: send_inv_def sent_ok_def items_ok_def payloads_def packet_kinds)
  moreover have "recv_inv [] [] 0 ?b"
    using accept_run [of env "ue_now env" rnd "''a''" conn_id 1 config_b]
    by (simp add: recv_inv_def recv_view_def item_seq_def payloads_def ahead_def buffered_bytes_def)
  moreover have "us_state ?b = CsConnected" using accept_run by blast
  ultimately show ?thesis
    by (simp add: link_start_def Let_def s link_inv_def with_driver_def)
qed

section \<open>An example run\<close>

lemma can_send_on_ack:
  "ledbat_ok l \<Longrightarrow> lb_bytes_in_flight l \<le> n \<Longrightarrow> can_send (on_ack f now n d r l)"
  using ledbat_ok_on_ack [of l f now n d r] by (simp add: can_send_def ledbat_ok_def min_cwnd_def)

definition example_env :: utp_env where
  "example_env = \<lparr>ue_now = 0, ue_clock = 5, ue_cwnd_delta = (\<lambda>_ _ _ _. 0)\<rparr>"

definition example_start :: utp_link where
  "example_start = link_start example_env 7 9 utp_config_default utp_config_default"

lemmas start_eval = example_start_def link_start_def start_connect_def accept_def new_outgoing_def new_incoming_def
  utp_socket_new_def build_packet_def send_packet_def send_packet_direct_def track_packet_def send_ack_def packet_kinds
  with_window_def with_timestamps_def packet_new_def pending_packet_new_def set_params_def ledbat_new_def on_send_def
  utp_config_default_def available_recv_window_def delay_history_new_def ledbat_consts target_delay_default_def
  example_env_def with_driver_def length_packet_encode

lemmas packet_eval = driver_packet_def process_packet_def note_packet_def process_syn_sent_def acks_of_def
  process_acks_def ack_packet_def maybe_send_ack_def can_receive_data_def is_closed_def a_moves_def seq_before_eq_def
  packet_state_def

lemma example_connected:
  "\<exists>s. link_step example_start (APacket example_env (with_window 5000 (packet_state 7 10 1)))
      = example_start\<lparr>lk_a := \<lparr>ep_inner = s, ep_running = True\<rparr>\<rparr>
    \<and> us_state s = CsConnected \<and> us_tx_open s \<and> \<not> us_fin_sent s \<and> us_seq_nr s = 2
    \<and> us_remote_window s = 5000 \<and> can_send (us_congestion s) \<and> lb_bytes_in_flight (us_congestion s) = 0
    \<and> length (us_outbox s) = 1"
  by (simp add: start_eval packet_eval Let_def can_send_on_ack ledbat_ok_def del: One_nat_def)


lemma write_once:
  assumes "us_state s = CsConnected" "us_tx_open s" "can_send (us_congestion s)"
    and "lb_bytes_in_flight (us_congestion s) = 0" "data \<noteq> []" "length data \<le> 1380"
  shows "\<exists>t pkt. write_poll env data s = (Inr (length data), t) \<and> us_outbox t = us_outbox s @ [packet_encode pkt]
    \<and> pk_type pkt = PtData \<and> pk_seq_nr pkt = us_seq_nr s \<and> pk_payload pkt = data
    \<and> pk_selective_ack pkt = None \<and> us_fin_sent t = us_fin_sent s"
proof -
  obtain pkt u where b: "build_packet env PtData data s = (pkt, u)" by fastforce
  note f = build_packet_fields [OF b]
  obtain t where t: "send_packet env pkt u = (Inr (), t)" "us_outbox t = us_outbox s @ [packet_encode pkt]"
      "us_fin_sent t = us_fin_sent s"
    using assms(2) f(6) by (auto simp: send_packet_def send_packet_direct_def track_packet_def Let_def)
  have stop: "min (0 + max_payload_size) (length data) = length data"
    using assms(6) by (simp add: max_payload_size_def max_packet_size_def header_size_def)
  have "send_loop env data (length data) t = (Inr (length data), t)"
    by (subst send_loop.simps) simp
  then have "send_loop env data 0 s = (Inr (length data), t)"
    using assms b t(1) stop by (subst send_loop.simps) (simp add: mss_def)
  then show ?thesis
    using assms(1) t f(1-3,7) by (intro exI [of _ t] exI [of _ pkt])
      (simp add: write_poll_def send_data_def can_send_data_def is_closed_def)
qed

lemma example_received:
  assumes "pk_type pkt = PtData" "pk_seq_nr pkt = 2" "pk_payload pkt = [7, 8, 9]" "pk_selective_ack pkt = None"
  shows "us_recv_buffer (ep_inner (driver_packet example_env (Some pkt) (lk_b example_start))) = [7, 8, 9]"
  using assms
  by (simp add: start_eval packet_eval Let_def process_connected_def take_packet_def receive_data_def
      fits_recv_window_def buffered_bytes_def deliver_ooo.simps release_fin_def del: One_nat_def)

section \<open>The stream\<close>



text \<open>The stream from the accepting socket to the connecting one can lose its beginning. The
  accepting socket counts as connected once its acknowledgement of the SYN is sent, and may write.
  If that acknowledgement is lost, the SYN comes again and is acknowledged with the number of
  the \<^emph>\<open>next\<close> packet, the data already counted. The connecting socket takes what precedes that
  number as received: the data are dropped when they arrive, and acknowledged, so they are not
  sent again either.\<close>

theorem lost_syn_ack_skips_data:
  assumes d: "build_packet env PtData payload b0 = (d, b1)"
    and b2: "us_state b2 = CsConnected" "us_tx_open b2" "us_seq_nr b2 = us_seq_nr b1"
    and syn: "is_syn syn"
    and a: "us_state a = CsSynSent" "us_pending_fin a = None"
  shows "\<exists>ack. us_outbox (snd (process_packet env2 syn b2)) = us_outbox b2 @ [packet_encode ack]
    \<and> packet_decode (packet_encode ack) = Inr ack
    \<and> (let a1 = snd (process_packet env3 ack a); a2 = snd (process_packet env4 d a1) in
       us_state a1 = CsConnected \<and> us_ack_nr a1 = pk_seq_nr d \<and> recv_view a2 = recv_view a1
       \<and> us_recv_buffer a2 = us_recv_buffer a \<and> us_ack_nr a2 = pk_seq_nr d)"
proof -
  let ?b = "note_packet env2 syn b2"
  obtain ack b3 where ack: "build_packet env2 PtState [] ?b = (ack, b3)" by fastforce
  note f = build_packet_fields [OF ack]
  have nb: "us_tx_open ?b = us_tx_open b2" "us_seq_nr ?b = us_seq_nr b2" "us_outbox ?b = us_outbox b2"
      "us_state ?b = us_state b2"
    by (simp_all add: note_packet_def Let_def)
  have out: "us_outbox (snd (process_packet env2 syn b2)) = us_outbox b2 @ [packet_encode ack]"
    using syn b2(1,2) nb f(6) ack
    by (simp add: process_packet_def process_connected_def packet_kinds send_ack_def send_packet_direct_def Let_def)
  have seq: "pk_seq_nr ack = pk_seq_nr d + 1"
    using f(3) nb b2(3) build_packet_fields(3,6) [OF d] by simp
  let ?n = "note_packet env3 ack a"
  define a1 where "a1 = snd (process_packet env3 ack a)"
  let ?m = "?n\<lparr>us_ack_nr := pk_seq_nr d, us_last_ack_sent := pk_seq_nr d\<rparr>"
  have "us_state ?n = CsSynSent" using a(1) by (simp add: note_packet_def Let_def)
  then have a1: "a1 = (acks_of env3 ack ?m)\<lparr>us_state := CsConnected\<rparr>"
    using f(1) seq by (simp add: a1_def process_packet_def process_syn_sent_def packet_kinds Let_def)
  have v: "us_state a1 = CsConnected" "recv_view a1 = recv_view ?m" by (simp_all add: a1)
  have vn: "recv_view ?n = recv_view a" by simp
  have v1: "us_ack_nr a1 = pk_seq_nr d" "us_pending_fin a1 = None" "us_recv_buffer a1 = us_recv_buffer a"
    using v(2) vn a(2) by (simp_all add: recv_view_def)
  define a2 where "a2 = snd (process_packet env4 d a1)"
  note df = build_packet_fields [OF d]
  let ?k = "note_packet env4 d a1"
  let ?t = "acks_of env4 d ?k"
  have t: "recv_view ?t = recv_view a1" by simp
  have ackt: "us_ack_nr ?t = pk_seq_nr d" "us_pending_fin ?t = None" using t v1 by (simp_all add: recv_view_def)
  have "\<not> seq_after (pk_seq_nr d) (pk_seq_nr d + 1)" by (simp add: seq_after_def Let_def)
  then have "receive_data (pk_seq_nr d) (pk_payload d) ?t = ?t"
    using ackt(1) by (simp add: receive_data_def Let_def)
  then have "take_packet env4 d ?k = ?t"
    using df(1) ackt(2) by (simp add: take_packet_def Let_def packet_kinds release_fin_def)
  moreover have "recv_view a2 = recv_view (take_packet env4 d ?k)"
    using v(1) df(1) recv_view_process_packet [of a1 env4 d] by (auto simp: a2_def packet_kinds)
  ultimately have a2: "recv_view a2 = recv_view a1" using t by simp
  then have "us_recv_buffer a2 = us_recv_buffer a" "us_ack_nr a2 = pk_seq_nr d"
    using v1 by (simp_all add: recv_view_def)
  then show ?thesis
    using out v(1) v1(1) a2 decode_encode [OF f(5)]
    by (intro exI [of _ ack]) (simp add: Let_def flip: a1_def a2_def)
qed

text \<open>A FIN that carries data is lost when its data do not fit: a FIN with a payload that arrives in
  order while the receive buffer is full has its payload dropped for the peer to send again, but
  the FIN itself is then taken in order, so the payload is acknowledged and the reader is told
  that the stream has ended, without ever seeing it.\<close>

theorem fin_payload_lost:
  assumes "us_state s \<in> {CsConnected, CsFinSent}" and "pk_type pkt = PtFin" and "pk_payload pkt \<noteq> []"
    and "pk_seq_nr pkt = us_ack_nr s + 1" and "\<not> fits_recv_window (length (pk_payload pkt)) s"
    and s': "s' = snd (process_packet env pkt s)"
  shows "us_ack_nr s' = pk_seq_nr pkt \<and> us_fin_received s' \<and> us_recv_buffer s' = us_recv_buffer s \<and> us_ooo s' = us_ooo s"
proof -
  let ?t = "acks_of env pkt (note_packet env pkt s)"
  have t: "recv_view ?t = recv_view s" by simp
  then have nofit: "\<not> fits_recv_window (length (pk_payload pkt)) ?t" and ack: "us_ack_nr ?t + 1 = pk_seq_nr pkt"
    using assms(4,5) by (simp_all add: recv_view_def fits_recv_window_def buffered_bytes_def)
  have "take_packet env pkt (note_packet env pkt s)
      = ?t\<lparr>us_pending_fin := None, us_ack_nr := pk_seq_nr pkt, us_fin_received := True\<rparr>"
    using assms(2,3) nofit ack
    by (simp add: take_packet_def Let_def packet_kinds receive_data_def see_fin_def release_fin_def)
  moreover have "recv_view s' = recv_view (take_packet env pkt (note_packet env pkt s))"
    using assms(1,2) recv_view_process_packet [of s env pkt] by (auto simp: s' packet_kinds)
  ultimately show ?thesis using t by (simp add: recv_view_def)
qed

lemma fin_payload_lost_witness:
  "\<exists>s pkt. us_recv_buffer s = [1, 2, 3] \<and> pk_payload pkt = [4, 5]
    \<and> us_fin_received (snd (process_packet example_env pkt s))
    \<and> us_recv_buffer (snd (process_packet example_env pkt s)) = [1, 2, 3]"
proof -
  let ?s = "(ep_inner (lk_b example_start))\<lparr>us_recv_buffer := [1, 2, 3], us_recv_window := 4\<rparr>"
  let ?p = "(packet_fin 7 2 9)\<lparr>pk_payload := [4, 5]\<rparr>"
  have b: "us_state (ep_inner (lk_b example_start)) = CsConnected" "us_ack_nr (ep_inner (lk_b example_start)) = 1"
      "us_ooo (ep_inner (lk_b example_start)) = []"
    by (simp_all add: start_eval Let_def)
  have "us_fin_received (snd (process_packet example_env ?p ?s))
      \<and> us_recv_buffer (snd (process_packet example_env ?p ?s)) = [1, 2, 3]"
    using fin_payload_lost [of ?s ?p "snd (process_packet example_env ?p ?s)" example_env] b
    by (simp add: packet_fin_def packet_new_def fits_recv_window_def buffered_bytes_def)
  then show ?thesis by (intro exI [of _ ?s] exI [of _ ?p]) simp
qed

end
