(* ===== verification/SockAddr.thy ===== *)
theory SockAddr
  imports Wire
begin

text \<open>
  Socket addresses of the standard library, and their compact form in which trackers, peer
  exchange and the DHT send them: the address and the port in network byte order.
\<close>

datatype sock_addr =
    SockV4 "32 word" "16 word"
  | SockV6 "128 word" "16 word" "32 word" "32 word"

fun is_ipv4 :: "sock_addr \<Rightarrow> bool" where
  "is_ipv4 (SockV4 _ _) = True"
| "is_ipv4 _ = False"

fun sa_port :: "sock_addr \<Rightarrow> 16 word" where
  "sa_port (SockV4 _ p) = p"
| "sa_port (SockV6 _ p _ _) = p"

definition be128 :: "128 word \<Rightarrow> bytes" where
  "be128 w = be32 (ucast (drop_bit 96 w)) @ be32 (ucast (drop_bit 64 w)) @ be32 (ucast (drop_bit 32 w)) @ be32 (ucast w)"

definition u32_from :: "bytes \<Rightarrow> 32 word" where
  "u32_from b = of_be32 (b ! 0) (b ! 1) (b ! 2) (b ! 3)"

definition of_be128 :: "bytes \<Rightarrow> 128 word" where
  "of_be128 b = or (push_bit 96 (ucast (u32_from b))) (or (push_bit 64 (ucast (u32_from (drop 4 b))))
     (or (push_bit 32 (ucast (u32_from (drop 8 b)))) (ucast (u32_from (drop 12 b)))))"

lemma length_be128 [simp]: "length (be128 w) = 16"
  by (simp add: be128_def)

lemma u32_from_be32 [simp]: "u32_from (be32 w @ r) = w" "u32_from (be32 w) = w"
  by (simp_all add: u32_from_def be32_def numeral_2_eq_2 numeral_3_eq_3)

lemma drop_be32 [simp]: "drop 4 (be32 w @ r) = r" "drop 8 (be32 w @ r) = drop 4 r" "drop 12 (be32 w @ r) = drop 8 r"
  by simp_all

lemma or_push_take:
  fixes w :: "'a::len word"
  shows "or (push_bit n (take_bit m (drop_bit n w))) (take_bit n w) = take_bit (m + n) w"
  by (rule bit_word_eqI) (auto simp: bit_simps)

lemma ucast_32_128: "ucast (ucast w :: 32 word) = take_bit 32 (w :: 128 word)"
  by (rule bit_word_eqI) (auto simp: bit_simps)

lemma of_be128_be128 [simp, codec]: "of_be128 (be128 w @ r) = w"
proof -
  let ?t = "\<lambda>k. take_bit 32 (drop_bit k w)"
  have "of_be128 (be128 w @ r) = or (push_bit 96 (ucast (ucast (drop_bit 96 w) :: 32 word)))
      (or (push_bit 64 (ucast (ucast (drop_bit 64 w) :: 32 word)))
      (or (push_bit 32 (ucast (ucast (drop_bit 32 w) :: 32 word))) (ucast (ucast w :: 32 word))))"
    by (simp only: of_be128_def be128_def append_assoc drop_be32 u32_from_be32)
  also have "\<dots> = or (push_bit 96 (?t 96)) (or (push_bit 64 (?t 64)) (or (push_bit 32 (?t 32)) (take_bit 32 w)))"
    by (simp only: ucast_32_128)
  also have "\<dots> = take_bit 128 w"
    using or_push_take [of 32 32 w] or_push_take [of 64 32 w] or_push_take [of 96 32 w] by simp
  finally show ?thesis by (simp add: take_bit_word_eq_self)
qed

section \<open>Compact peers\<close>

fun compact :: "sock_addr \<Rightarrow> bytes" where
  "compact (SockV4 ip p) = be32 ip @ be16 p"
| "compact (SockV6 ip p _ _) = be128 ip @ be16 p"

definition compact_v4 :: "bytes \<Rightarrow> sock_addr" where
  "compact_v4 b = SockV4 (u32_from b) (of_be16 (b ! 4) (b ! 5))"

definition compact_v6 :: "bytes \<Rightarrow> sock_addr" where
  "compact_v6 b = SockV6 (of_be128 b) (of_be16 (b ! 16) (b ! 17)) 0 0"

text \<open>What the compact form keeps of an address.\<close>

fun plain :: "sock_addr \<Rightarrow> sock_addr" where
  "plain (SockV4 ip p) = SockV4 ip p"
| "plain (SockV6 ip p _ _) = SockV6 ip p 0 0"

lemma length_compact [simp]: "length (compact a) = (if is_ipv4 a then 6 else 18)"
  by (cases a) simp_all

lemma compact_v4_compact: "is_ipv4 a \<Longrightarrow> compact_v4 (compact a) = plain a"
  by (cases a) (simp_all add: compact_v4_def nth_append be16_def)

lemma compact_v6_compact: "\<not> is_ipv4 a \<Longrightarrow> compact_v6 (compact a) = plain a"
  by (cases a) (simp_all add: compact_v6_def nth_append be16_def)

lemma nth_chunks_exact: "i < length xs div n \<Longrightarrow> chunks_exact n xs ! i = take n (drop (i * n) xs)"
  by (simp add: chunks_exact_def)

lemma chunks_exact_concat:
  assumes "0 < n" and "\<And>x. x \<in> set xs \<Longrightarrow> length (f x) = n"
  shows "chunks_exact n (concat (map f xs)) = map f xs"
  using assms(2)
proof (induction xs)
  case Nil
  then show ?case by (simp add: chunks_exact_def)
next
  case (Cons x xs)
  have l: "length (f x) = n" using Cons.prems by simp
  have "chunks_exact n (f x @ r) = f x # chunks_exact n r" for r
  proof (rule nth_equalityI)
    show "length (chunks_exact n (f x @ r)) = length (f x # chunks_exact n r)"
      using assms(1) l by (simp add: div_add_self1)
    fix i assume "i < length (chunks_exact n (f x @ r))"
    then have "i < length (f x @ r) div n" by simp
    then show "chunks_exact n (f x @ r) ! i = (f x # chunks_exact n r) ! i"
      unfolding nth_chunks_exact [OF \<open>i < length (f x @ r) div n\<close>]
      using assms(1) l by (cases i) (simp_all add: nth_chunks_exact div_add_self1)
  qed
  then show ?case using Cons by simp
qed

end
