(* ===== verification/Pex.thy ===== *)
theory Pex
  imports SockAddr Bencode
begin

text \<open>
  Peer exchange and the extension handshake (\<open>src/torrent/pex.rs\<close>). A \<open>HashSet\<close> is the list of its
  elements in iteration order; instants are milliseconds.
\<close>

definition pex_extension_name :: string where "pex_extension_name = ''ut_pex''"
definition max_peers_per_list :: nat where "max_peers_per_list = 100"

definition prefers_encryption :: byte where "prefers_encryption = 0x01"
definition flag_is_seeder :: byte where "flag_is_seeder = 0x02"
definition supports_utp :: byte where "supports_utp = 0x04"
definition supports_holepunch :: byte where "supports_holepunch = 0x08"
definition flag_is_outgoing :: byte where "flag_is_outgoing = 0x10"

section \<open>Compact peer lists\<close>

definition parse_compact_peers_v4 :: "bytes \<Rightarrow> sock_addr list" where
  "parse_compact_peers_v4 data = map compact_v4 (take max_peers_per_list (chunks_exact 6 data))"

definition parse_compact_peers_v6 :: "bytes \<Rightarrow> sock_addr list" where
  "parse_compact_peers_v6 data = map compact_v6 (take max_peers_per_list (chunks_exact 18 data))"

definition encode_compact_peers_v4 :: "sock_addr list \<Rightarrow> bytes" where
  "encode_compact_peers_v4 peers = concat (map (\<lambda>a. if is_ipv4 a then compact a else []) peers)"

definition encode_compact_peers_v6 :: "sock_addr list \<Rightarrow> bytes" where
  "encode_compact_peers_v6 peers = concat (map (\<lambda>a. if is_ipv4 a then [] else compact a) peers)"

section \<open>Messages\<close>

record pex_message =
  px_added :: "sock_addr list"
  px_added_flags :: bytes
  px_dropped :: "sock_addr list"
  px_added6 :: "sock_addr list"
  px_added6_flags :: bytes
  px_dropped6 :: "sock_addr list"

definition pex_message_new :: pex_message where
  "pex_message_new = \<lparr>px_added = [], px_added_flags = [], px_dropped = [], px_added6 = [],
     px_added6_flags = [], px_dropped6 = []\<rparr>"

text \<open>A field of the dictionary read as bytes, or the default.\<close>

definition bytes_field :: "(bytes \<times> bencode) list \<Rightarrow> string \<Rightarrow> (bytes \<Rightarrow> 'a list) \<Rightarrow> 'a list" where
  "bytes_field d key f = (case Option.bind (map_of d (as_bytes key)) as_raw of Some b \<Rightarrow> f b | None \<Rightarrow> [])"

definition pex_parse :: "bytes \<Rightarrow> pex_message result" where
  "pex_parse data =
    rbind (parse_exact data) (\<lambda>value.
    rbind (ok_or (err_protocol PexError ''PEX message must be a dict'') (as_dict value)) (\<lambda>d.
    Inr \<lparr>px_added = bytes_field d ''added'' parse_compact_peers_v4,
         px_added_flags = bytes_field d ''added.f'' (take max_peers_per_list),
         px_dropped = bytes_field d ''dropped'' parse_compact_peers_v4,
         px_added6 = bytes_field d ''added6'' parse_compact_peers_v6,
         px_added6_flags = bytes_field d ''added6.f'' (take max_peers_per_list),
         px_dropped6 = bytes_field d ''dropped6'' parse_compact_peers_v6\<rparr>))"

definition put_bytes :: "string \<Rightarrow> bool \<Rightarrow> bytes \<Rightarrow> (bytes \<times> bencode) list \<Rightarrow> (bytes \<times> bencode) list" where
  "put_bytes key present b d = (if present then btree_insert (as_bytes key) (BBytes b) d else d)"

definition pex_dict :: "pex_message \<Rightarrow> (bytes \<times> bencode) list" where
  "pex_dict m =
    (let v4_added = filter is_ipv4 (px_added m);
         v6_added = filter (Not \<circ> is_ipv4) (px_added m) @ px_added6 m;
         v4_dropped = filter is_ipv4 (px_dropped m);
         v6_dropped = filter (Not \<circ> is_ipv4) (px_dropped m) @ px_dropped6 m;
         d = put_bytes ''added'' (v4_added \<noteq> []) (encode_compact_peers_v4 v4_added) [];
         d = put_bytes ''added.f'' (px_added_flags m \<noteq> []) (px_added_flags m) d;
         d = put_bytes ''dropped'' (v4_dropped \<noteq> []) (encode_compact_peers_v4 v4_dropped) d;
         d = put_bytes ''added6'' (v6_added \<noteq> []) (encode_compact_peers_v6 v6_added) d;
         d = put_bytes ''added6.f'' (px_added6_flags m \<noteq> []) (px_added6_flags m) d
     in put_bytes ''dropped6'' (v6_dropped \<noteq> []) (encode_compact_peers_v6 v6_dropped) d)"

definition pex_encode :: "pex_message \<Rightarrow> bytes" where
  "pex_encode m = encode (BDict (pex_dict m))"

definition pex_is_empty :: "pex_message \<Rightarrow> bool" where
  "pex_is_empty m \<longleftrightarrow> px_added m = [] \<and> px_dropped m = [] \<and> px_added6 m = [] \<and> px_dropped6 m = []"

definition all_added :: "pex_message \<Rightarrow> sock_addr list" where
  "all_added m = px_added m @ px_added6 m"

definition all_dropped :: "pex_message \<Rightarrow> sock_addr list" where
  "all_dropped m = px_dropped m @ px_dropped6 m"

section \<open>The state of a connection\<close>

record pex_state =
  px_shared_peers :: "sock_addr list"
  px_last_send :: int
  px_min_interval :: nat
  px_our_extension_id :: byte
  px_peer_extension_id :: "byte option"

definition pex_state_new :: "int \<Rightarrow> byte \<Rightarrow> pex_state" where
  "pex_state_new now our_extension_id =
    \<lparr>px_shared_peers = [], px_last_send = now - 120000, px_min_interval = 60000,
     px_our_extension_id = our_extension_id, px_peer_extension_id = None\<rparr>"

definition set_peer_extension_id :: "byte \<Rightarrow> pex_state \<Rightarrow> pex_state" where
  "set_peer_extension_id i s = s\<lparr>px_peer_extension_id := Some i\<rparr>"

definition is_supported :: "pex_state \<Rightarrow> bool" where
  "is_supported s \<longleftrightarrow> px_peer_extension_id s \<noteq> None"

definition pex_can_send :: "int \<Rightarrow> pex_state \<Rightarrow> bool" where
  "pex_can_send now s \<longleftrightarrow> px_min_interval s \<le> nat (now - px_last_send s)"

definition build_message :: "int \<Rightarrow> sock_addr list \<Rightarrow> pex_state \<Rightarrow> pex_message option \<times> pex_state" where
  "build_message now current_peers s =
    (if \<not> pex_can_send now s then (None, s)
     else
       (let added = filter (\<lambda>a. a \<notin> set (px_shared_peers s)) current_peers;
            dropped = filter (\<lambda>a. a \<notin> set current_peers) (px_shared_peers s)
        in if added = [] \<and> dropped = [] then (None, s)
           else (Some \<lparr>px_added = filter is_ipv4 added, px_added_flags = [],
                       px_dropped = filter is_ipv4 dropped,
                       px_added6 = filter (Not \<circ> is_ipv4) added, px_added6_flags = [],
                       px_dropped6 = filter (Not \<circ> is_ipv4) dropped\<rparr>,
                 s\<lparr>px_shared_peers := current_peers, px_last_send := now\<rparr>)))"

definition process_received :: "pex_message \<Rightarrow> sock_addr list \<Rightarrow> sock_addr list" where
  "process_received msg known_peers = filter (\<lambda>a. a \<notin> set known_peers) (all_added msg)"

definition pex_reset :: "int \<Rightarrow> pex_state \<Rightarrow> pex_state" where
  "pex_reset now s = s\<lparr>px_shared_peers := [], px_last_send := now - 120000\<rparr>"

section \<open>The extension handshake\<close>

record extension_handshake =
  eh_extensions :: "string \<rightharpoonup> byte"
  eh_listen_port :: "16 word option"
  eh_client :: "string option"
  eh_request_queue_size :: "nat option"

definition extension_dict :: "byte \<Rightarrow> byte option \<Rightarrow> 16 word option \<Rightarrow> bencode" where
  "extension_dict pex_id metadata_id listen_port =
    (let m = btree_insert (as_bytes ''ut_pex'') (BInteger (uint pex_id)) [];
         m = (case metadata_id of Some i \<Rightarrow> btree_insert (as_bytes ''ut_metadata'') (BInteger (uint i)) m | None \<Rightarrow> m);
         d = btree_insert (as_bytes ''m'') (BDict m) [];
         d = (case listen_port of Some port \<Rightarrow> btree_insert (as_bytes ''p'') (BInteger (uint port)) d | None \<Rightarrow> d)
     in BDict (btree_insert (as_bytes ''v'') (BBytes (as_bytes ''gosh-dl/0.1.0'')) d))"

definition build_extension_handshake :: "byte \<Rightarrow> byte option \<Rightarrow> 16 word option \<Rightarrow> bytes" where
  "build_extension_handshake pex_id metadata_id listen_port = encode (extension_dict pex_id metadata_id listen_port)"

text \<open>The \<open>HashMap\<close> the dictionary of extension ids is read into.\<close>

definition insert_extension :: "bytes \<times> bencode \<Rightarrow> (string \<rightharpoonup> byte) \<Rightarrow> (string \<rightharpoonup> byte)" where
  "insert_extension e m =
    (case as_uint (snd e) of Some i \<Rightarrow> m(from_utf8_lossy (fst e) \<mapsto> of_nat i) | None \<Rightarrow> m)"

definition parse_extension_handshake :: "bytes \<Rightarrow> extension_handshake result" where
  "parse_extension_handshake data =
    rbind (parse_exact data) (\<lambda>value.
    rbind (ok_or (err_protocol PexError ''Extension handshake must be a dict'') (as_dict value)) (\<lambda>d.
    Inr \<lparr>eh_extensions = (case Option.bind (map_of d (as_bytes ''m'')) as_dict of
                            Some m \<Rightarrow> fold insert_extension m Map.empty | None \<Rightarrow> Map.empty),
         eh_listen_port = map_option of_nat (Option.bind (map_of d (as_bytes ''p'')) as_uint),
         eh_client = Option.bind (map_of d (as_bytes ''v'')) as_string,
         eh_request_queue_size = Option.bind (map_of d (as_bytes ''reqq'')) as_uint\<rparr>))"

definition eh_pex_id :: "extension_handshake \<Rightarrow> byte option" where
  "eh_pex_id h = eh_extensions h pex_extension_name"

definition eh_supports_pex :: "extension_handshake \<Rightarrow> bool" where
  "eh_supports_pex h \<longleftrightarrow> eh_pex_id h \<noteq> None"

section \<open>Round trips\<close>

lemma btree_insert_om: "btree_insert k v m = om_insert k v m"
  by (induction m) auto

lemma compact_list_v4:
  "parse_compact_peers_v4 (encode_compact_peers_v4 xs) = map plain (take max_peers_per_list (filter is_ipv4 xs))"
proof -
  have "encode_compact_peers_v4 xs = concat (map compact (filter is_ipv4 xs))"
    unfolding encode_compact_peers_v4_def by (induction xs) simp_all
  then have "chunks_exact 6 (encode_compact_peers_v4 xs) = map compact (filter is_ipv4 xs)"
    by (simp only:) (rule chunks_exact_concat; simp)
  then show ?thesis
    by (auto simp: parse_compact_peers_v4_def take_map compact_v4_compact dest!: in_set_takeD)
qed

lemma compact_list_v6:
  "parse_compact_peers_v6 (encode_compact_peers_v6 xs) = map plain (take max_peers_per_list (filter (Not \<circ> is_ipv4) xs))"
proof -
  have "encode_compact_peers_v6 xs = concat (map compact (filter (Not \<circ> is_ipv4) xs))"
    unfolding encode_compact_peers_v6_def by (induction xs) simp_all
  then have "chunks_exact 18 (encode_compact_peers_v6 xs) = map compact (filter (Not \<circ> is_ipv4) xs)"
    by (simp only:) (rule chunks_exact_concat; simp)
  then show ?thesis
    by (auto simp: parse_compact_peers_v6_def take_map compact_v6_compact dest!: in_set_takeD)
qed

lemma length_encode_compact:
  "length (encode_compact_peers_v4 xs) \<le> 6 * length xs" "length (encode_compact_peers_v6 xs) \<le> 18 * length xs"
  unfolding encode_compact_peers_v4_def encode_compact_peers_v6_def by (induction xs) auto

definition pex_fits :: "pex_message \<Rightarrow> bool" where
  "pex_fits m \<longleftrightarrow> 18 * (length (px_added m) + length (px_added6 m)) \<le> max_string_length \<and>
    18 * (length (px_dropped m) + length (px_dropped6 m)) \<le> max_string_length \<and>
    length (px_added_flags m) \<le> max_string_length \<and> length (px_added6_flags m) \<le> max_string_length"

definition flat_ok :: "(bytes \<times> bencode) list \<Rightarrow> bool" where
  "flat_ok d \<longleftrightarrow> om_sorted d \<and> (\<forall>e \<in> set d. length (fst e) \<le> max_string_length \<and> wf_bencode (snd e) \<and> nesting (snd e) \<le> 1)"

lemma flat_ok_encodable: "flat_ok d \<Longrightarrow> encodable (BDict d)"
  by (fastforce simp: flat_ok_def encodable_def max_list_le_iff max_parse_depth_def)

lemma flat_ok_insert:
  assumes "flat_ok d" and "length k \<le> max_string_length" and "wf_bencode v" and "nesting v \<le> 1"
  shows "flat_ok (btree_insert k v d)"
  using assms set_om_insert [of k v d] by (fastforce simp: flat_ok_def btree_insert_om)

lemma flat_ok_put:
  assumes "flat_ok d" and "length key \<le> 100" and "length b \<le> max_string_length"
  shows "flat_ok (put_bytes key p b d)"
  using assms by (auto simp: put_bytes_def max_string_length_def intro!: flat_ok_insert)

lemma map_of_put:
  "map_of (put_bytes key p b d) = (if p then (map_of d)(as_bytes key \<mapsto> BBytes b) else map_of d)"
  by (simp add: put_bytes_def btree_insert_om)

lemma flat_ok_pex_dict:
  assumes "pex_fits m"
  shows "flat_ok (pex_dict m)"
proof -
  have f: "length (filter P xs) \<le> length xs" for P and xs :: "sock_addr list" by simp
  have "length (encode_compact_peers_v4 (filter P xs)) \<le> 6 * length xs" for P xs
    using length_encode_compact(1) [of "filter P xs"] f [of P xs] by linarith
  moreover have "length (encode_compact_peers_v6 (filter P xs @ ys)) \<le> 18 * (length xs + length ys)" for P xs ys
    by (rule order_trans [OF length_encode_compact(2)]) (simp add: f)
  ultimately show ?thesis
    using assms unfolding pex_dict_def Let_def pex_fits_def
    by (intro flat_ok_put) (fastforce simp: flat_ok_def intro: order_trans)+
qed

lemma bytes_field_put:
  "bytes_field (put_bytes key p b d) key' f = (if key = key' \<and> p then f b else bytes_field d key' f)"
  by (simp add: bytes_field_def map_of_put)

lemma bytes_field_Nil [simp]: "bytes_field [] key f = []"
  by (simp add: bytes_field_def)

lemmas pex_fields = pex_dict_def Let_def bytes_field_put

lemma filter_v6_again: "filter (Not \<circ> is_ipv4) (filter (Not \<circ> is_ipv4) xs @ ys) = filter (Not \<circ> is_ipv4) (xs @ ys)"
  by (simp add: comp_def)

lemma take_filter_empty: "(if xs \<noteq> [] then map plain (take n (filter P xs)) else []) = map plain (take n (filter P xs))"
  "(if xs \<noteq> [] then take n xs else []) = take n xs"
  by simp_all

lemma pex_parse_encode:
  assumes "pex_fits m"
  shows "pex_parse (pex_encode m) = Inr
    \<lparr>px_added = map plain (take max_peers_per_list (filter is_ipv4 (px_added m))),
     px_added_flags = take max_peers_per_list (px_added_flags m),
     px_dropped = map plain (take max_peers_per_list (filter is_ipv4 (px_dropped m))),
     px_added6 = map plain (take max_peers_per_list
       (filter (Not \<circ> is_ipv4) (px_added m @ px_added6 m))),
     px_added6_flags = take max_peers_per_list (px_added6_flags m),
     px_dropped6 = map plain (take max_peers_per_list
       (filter (Not \<circ> is_ipv4) (px_dropped m @ px_dropped6 m)))\<rparr>"
proof -
  have p: "parse_exact (pex_encode m) = Inr (BDict (pex_dict m))"
    using parse_encode [OF flat_ok_encodable [OF flat_ok_pex_dict [OF assms]], of "[]"]
    unfolding pex_encode_def parse_exact_iff append_Nil2 .
  have "bytes_field (pex_dict m) ''added'' parse_compact_peers_v4 = map plain (take max_peers_per_list (filter is_ipv4 (px_added m)))"
    "bytes_field (pex_dict m) ''dropped'' parse_compact_peers_v4 = map plain (take max_peers_per_list (filter is_ipv4 (px_dropped m)))"
    "bytes_field (pex_dict m) ''added.f'' (take max_peers_per_list) = take max_peers_per_list (px_added_flags m)"
    "bytes_field (pex_dict m) ''added6.f'' (take max_peers_per_list) = take max_peers_per_list (px_added6_flags m)"
    by (simp_all add: pex_fields compact_list_v4)
  moreover define va vd where "va = filter (Not \<circ> is_ipv4) (px_added m) @ px_added6 m"
    and "vd = filter (Not \<circ> is_ipv4) (px_dropped m) @ px_dropped6 m"
  then have "bytes_field (pex_dict m) ''added6'' parse_compact_peers_v6 = map plain (take max_peers_per_list (filter (Not \<circ> is_ipv4) va))"
    "bytes_field (pex_dict m) ''dropped6'' parse_compact_peers_v6 = map plain (take max_peers_per_list (filter (Not \<circ> is_ipv4) vd))"
    unfolding pex_dict_def Let_def va_def [symmetric] vd_def [symmetric]
    by (simp_all add: bytes_field_put compact_list_v6)
  ultimately show ?thesis
    unfolding pex_parse_def p va_def vd_def filter_v6_again by simp
qed

section \<open>The view of the other end\<close>

text \<open>
  One round of an exchange: the peers known when the sender builds a message, and the set of
  addresses the other end keeps by adding and dropping what it reads.
\<close>

type_synonym pex_view = "pex_state \<times> sock_addr set"

definition pex_round :: "pex_view \<Rightarrow> int \<times> sock_addr list \<Rightarrow> pex_view" where
  "pex_round v r =
    (case build_message (fst r) (snd r) (fst v) of
       (None, s) \<Rightarrow> (s, snd v)
     | (Some m, s) \<Rightarrow>
         (case pex_parse (pex_encode m) of
            Inl _ \<Rightarrow> (s, snd v)
          | Inr m \<Rightarrow> (s, snd v - set (all_dropped m) \<union> set (all_added m))))"

definition pex_run :: "(int \<times> sock_addr list) list \<Rightarrow> pex_view \<Rightarrow> pex_view" where
  "pex_run rounds v = foldl pex_round v rounds"

definition exchangeable :: "sock_addr list \<Rightarrow> bool" where
  "exchangeable peers \<longleftrightarrow> (\<forall>a \<in> set peers. plain a = a) \<and>
    length (filter is_ipv4 peers) \<le> max_peers_per_list \<and> length (filter (Not \<circ> is_ipv4) peers) \<le> max_peers_per_list"

definition in_step :: "pex_view \<Rightarrow> bool" where
  "in_step v \<longleftrightarrow> exchangeable (px_shared_peers (fst v)) \<and> snd v = set (px_shared_peers (fst v))"

lemma length_filter_filter: "length (filter P (filter Q xs)) \<le> length (filter P xs)"
  by (induction xs) auto

lemma exchangeable_filter: "exchangeable xs \<Longrightarrow> exchangeable (filter P xs)"
  unfolding exchangeable_def by (auto intro: order_trans [OF length_filter_filter] simp del: filter_filter)

lemma map_plain_take:
  assumes "exchangeable xs"
  shows "map plain (take max_peers_per_list (filter is_ipv4 xs)) = filter is_ipv4 xs"
    "map plain (take max_peers_per_list (filter (Not \<circ> is_ipv4) xs)) = filter (Not \<circ> is_ipv4) xs"
  using assms unfolding exchangeable_def by (auto intro!: map_idI)

lemma exchangeable_length: "exchangeable xs \<Longrightarrow> length xs \<le> 2 * max_peers_per_list"
  unfolding exchangeable_def using sum_length_filter_compl [of is_ipv4 xs] by (simp add: comp_def)

definition pex_diff :: "sock_addr list \<Rightarrow> sock_addr list \<Rightarrow> pex_message" where
  "pex_diff added dropped = \<lparr>px_added = filter is_ipv4 added, px_added_flags = [],
     px_dropped = filter is_ipv4 dropped, px_added6 = filter (Not \<circ> is_ipv4) added, px_added6_flags = [],
     px_dropped6 = filter (Not \<circ> is_ipv4) dropped\<rparr>"

lemma pex_diff_read_back:
  assumes "exchangeable added" and "exchangeable dropped"
  shows "pex_parse (pex_encode (pex_diff added dropped)) = Inr (pex_diff added dropped)"
proof -
  have l: "length (filter P xs) + length (filter (Not \<circ> P) xs) = length xs" for P and xs :: "sock_addr list"
    using sum_length_filter_compl [of P xs] by (simp add: comp_def)
  have "pex_fits (pex_diff added dropped)"
    using exchangeable_length [OF assms(1)] exchangeable_length [OF assms(2)]
    by (simp add: pex_fits_def pex_diff_def l max_string_length_def max_peers_per_list_def)
  then show ?thesis
    using map_plain_take [OF assms(1)] map_plain_take [OF assms(2)]
    by (simp add: pex_parse_encode) (simp add: pex_diff_def comp_def)
qed

lemma set_pex_diff [simp]:
  "set (all_added (pex_diff added dropped)) = set added"
  "set (all_dropped (pex_diff added dropped)) = set dropped"
  by (auto simp: pex_diff_def all_added_def all_dropped_def)

lemma build_message_cases:
  obtains "build_message now peers s = (None, s)" and "\<not> pex_can_send now s \<or> set peers = set (px_shared_peers s)"
  | "build_message now peers s =
      (Some (pex_diff (filter (\<lambda>a. a \<notin> set (px_shared_peers s)) peers) (filter (\<lambda>a. a \<notin> set peers) (px_shared_peers s))),
       s\<lparr>px_shared_peers := peers, px_last_send := now\<rparr>)"
    and "pex_can_send now s"
proof (cases "fst (build_message now peers s)")
  case None
  then show ?thesis
    by (intro that(1)) (auto simp: build_message_def Let_def filter_empty_conv split: if_splits)
next
  case (Some m)
  then show ?thesis
    by (intro that(2)) (auto simp: build_message_def Let_def pex_diff_def split: if_splits)
qed

lemma pex_round_in_step:
  assumes "in_step v" and "exchangeable (snd r)"
  shows "in_step (pex_round v r) \<and> (pex_can_send (fst r) (fst v) \<longrightarrow> snd (pex_round v r) = set (snd r))"
proof (cases rule: build_message_cases [of "fst r" "snd r" "fst v"])
  case 1
  then show ?thesis using assms(1) by (auto simp: pex_round_def in_step_def)
next
  case 2
  then show ?thesis
    using assms pex_diff_read_back [OF exchangeable_filter exchangeable_filter, of "snd r" "px_shared_peers (fst v)"]
    by (auto simp: pex_round_def in_step_def)
qed

lemma pex_round_times:
  "px_min_interval (fst (pex_round v r)) = px_min_interval (fst v)"
  "px_last_send (fst (pex_round v r)) \<in> {px_last_send (fst v), fst r}"
  by (auto simp: pex_round_def build_message_def Let_def split: sum.split)

lemma pex_run_in_step: "in_step v \<Longrightarrow> \<forall>r \<in> set rounds. exchangeable (snd r) \<Longrightarrow> in_step (pex_run rounds v)"
  unfolding pex_run_def by (induction rounds arbitrary: v) (simp_all add: pex_round_in_step)

text \<open>C25. Peer exchange tracks the peers: over any sequence of rounds, at any times, with peer sets that
  differ as they like but hold at most a hundred addresses of each family, the other end, which only reads
  the encoded differences, knows exactly the addresses the sender counts as shared; and after a round at
  which the interval has passed these are exactly the sender's peers at that moment.\<close>

theorem peer_exchange_tracks:
  assumes "\<forall>r \<in> set rounds. exchangeable (snd r)" and "exchangeable peers"
    and "(s, known) = pex_run rounds (pex_state_new t0 i, {})"
  shows "known = set (px_shared_peers s) \<and>
    (pex_can_send now s \<longrightarrow> snd (pex_run (rounds @ [(now, peers)]) (pex_state_new t0 i, {})) = set peers)"
proof -
  have "in_step (pex_state_new t0 i, {})" by (simp add: in_step_def pex_state_new_def exchangeable_def)
  from pex_run_in_step [OF this assms(1)] have v: "in_step (s, known)" by (simp add: assms(3))
  then show ?thesis
    using pex_round_in_step [OF v, of "(now, peers)"] assms(2)
    by (auto simp: in_step_def pex_run_def assms(3) [unfolded pex_run_def, symmetric])
qed

lemma peer_exchange_tracks_witness:
  "snd (pex_run [(0, [SockV4 1 80, SockV4 2 80]), (60000, [SockV4 2 80, SockV6 3 80 0 0])] (pex_state_new 0 1, {})) =
    {SockV4 2 80, SockV6 3 80 0 0}"
proof -
  let ?v = "pex_run [(0, [SockV4 1 80, SockV4 2 80])] (pex_state_new 0 1, {})"
  have "px_last_send (fst ?v) \<le> 0 \<and> px_min_interval (fst ?v) = 60000"
    using pex_round_times [of "(pex_state_new 0 1, {})" "(0, [SockV4 1 80, SockV4 2 80])"]
    by (auto simp: pex_run_def pex_state_new_def)
  then have "pex_can_send 60000 (fst ?v)" unfolding pex_can_send_def by arith
  with peer_exchange_tracks [of "[(0, [SockV4 1 80, SockV4 2 80])]" "[SockV4 2 80, SockV6 3 80 0 0]" "fst ?v" "snd ?v" 0 1 60000]
  show ?thesis by (simp add: exchangeable_def max_peers_per_list_def)
qed

text \<open>The receiver reads at most a hundred addresses of a list, the sender marks them all as shared.\<close>

lemma pex_excess_never_sent:
  assumes "distinct peers" and "\<forall>a \<in> set peers. is_ipv4 a" and "max_peers_per_list < length peers"
    and "18 * length peers \<le> max_string_length" and "(s, known) = pex_round (pex_state_new t0 i, {}) (t0, peers)"
  shows "\<exists>a \<in> set peers. a \<notin> known" and "build_message later peers s = (None, s)"
proof -
  have f: "filter is_ipv4 peers = peers" "filter (Not \<circ> is_ipv4) peers = []"
    using assms(2) by (auto simp: filter_empty_conv)
  have b: "build_message t0 peers (pex_state_new t0 i) =
      (Some (pex_diff peers []), (pex_state_new t0 i)\<lparr>px_shared_peers := peers, px_last_send := t0\<rparr>)"
    using assms(3) by (auto simp: build_message_def pex_can_send_def pex_state_new_def pex_diff_def f)
  have "pex_fits (pex_diff peers [])"
    using assms(4) by (simp add: pex_fits_def pex_diff_def f)
  then have "(s, known) = ((pex_state_new t0 i)\<lparr>px_shared_peers := peers, px_last_send := t0\<rparr>,
      set (map plain (take max_peers_per_list peers)))"
    using assms(5) by (simp add: pex_round_def b pex_parse_encode) (simp add: pex_diff_def f all_added_def)
  then have s: "s = (pex_state_new t0 i)\<lparr>px_shared_peers := peers, px_last_send := t0\<rparr>"
    and k: "known = set (map plain (take max_peers_per_list peers))" by simp_all
  show "build_message later peers s = (None, s)" by (simp add: s build_message_def)
  have "plain a = a" if "is_ipv4 a" for a using that by (cases a) simp_all
  then have "known = set (take max_peers_per_list peers)"
    using assms(2) by (force simp: k dest: in_set_takeD)
  moreover have "card (set (take max_peers_per_list peers)) < card (set peers)"
    using assms(1,3) by (simp add: distinct_card)
  ultimately show "\<exists>a \<in> set peers. a \<notin> known"
    by (metis card_mono finite_set not_less subsetI)
qed

section \<open>The extension handshake\<close>

lemma extension_handshake_read_back:
  "parse_extension_handshake (build_extension_handshake pex_id metadata_id listen_port) = Inr
    \<lparr>eh_extensions = (case metadata_id of Some i \<Rightarrow> [''ut_pex'' \<mapsto> pex_id, ''ut_metadata'' \<mapsto> i] | None \<Rightarrow> [''ut_pex'' \<mapsto> pex_id]),
     eh_listen_port = listen_port, eh_client = Some ''gosh-dl/0.1.0'', eh_request_queue_size = None\<rparr>"
proof -
  let ?v = "extension_dict pex_id metadata_id listen_port"
  have w: "wf_bencode (BInteger (uint x))" "wf_bencode (BInteger (uint y))" for x :: byte and y :: "16 word"
    using uint_lt2p [of x] uint_lt2p [of y] by (auto intro: order_trans [OF _ uint_ge_0])
  have "encodable ?v"
    using w by (auto simp: extension_dict_def Let_def encodable_def max_parse_depth_def btree_insert_om
        max_string_length_def byte_of_def split: option.split)
  from parse_encode [OF this, of "[]"] have p: "parse_exact (build_extension_handshake pex_id metadata_id listen_port) = Inr ?v"
    unfolding build_extension_handshake_def parse_exact_iff append_Nil2 .
  have lt: "as_bytes ''ut_metadata'' < as_bytes ''ut_pex''" "as_bytes ''m'' < as_bytes ''p''"
    "as_bytes ''p'' < as_bytes ''v''" "as_bytes ''m'' < as_bytes ''v''"
    by (simp_all add: byte_of_def)
  have "is_ascii ''ut_pex''" "is_ascii ''ut_metadata''" "is_ascii ''gosh-dl/0.1.0''"
    by (simp_all add: byte_of_def)
  then show ?thesis
    unfolding parse_extension_handshake_def p
    using lt lt [THEN less_not_sym] lt [THEN less_imp_neq]
    by (auto simp: extension_dict_def Let_def btree_insert_om insert_extension_def fun_eq_iff
        simp del: as_bytes_simps split: option.split)
qed

end
