(* ===== verification/PeerWire.thy ===== *)
theory PeerWire
  imports Errors Pex Codec
begin

text \<open>
  The peer wire protocol (\<open>src/torrent/peer.rs\<close>): messages with their encoder and decoder, the
  handshake, and a connection that sends and receives them. The stream of a connection is a
  script: bytes that arrive, points where nothing arrives until the timeout of the read under way
  expires, and a break. A read that times out has consumed what had arrived. Writes end as a
  second script says; encryption and transport are transparent to this layer.
\<close>

definition protocol_string :: bytes where
  "protocol_string = as_bytes ''BitTorrent protocol''"

definition handshake_size :: nat where "handshake_size = 68"
definition max_message_size_default :: nat where "max_message_size_default = 32 * 1024"
definition block_size_u32 :: "32 word" where "block_size_u32 = 16384"

definition max_message_size :: "nat \<Rightarrow> nat" where
  "max_message_size num_pieces = max max_message_size_default (div_ceil num_pieces 8 + 5)"

section \<open>Reserved bytes\<close>

definition with_extensions :: bytes where
  "with_extensions = (replicate 8 0)[5 := 0x10, 7 := 0x04]"

definition supports_extension_protocol :: "bytes \<Rightarrow> bool" where
  "supports_extension_protocol r \<longleftrightarrow> and (r ! 5) 0x10 \<noteq> 0"

definition reserved_supports_dht :: "bytes \<Rightarrow> bool" where
  "reserved_supports_dht r \<longleftrightarrow> and (r ! 7) 0x01 \<noteq> 0"

definition supports_fast :: "bytes \<Rightarrow> bool" where
  "supports_fast r \<longleftrightarrow> and (r ! 7) 0x04 \<noteq> 0"

section \<open>Messages\<close>

datatype peer_message =
  KeepAlive | Choke | Unchoke | Interested | NotInterested
  | Have "32 word" | Bitfield bytes
  | Request "32 word" "32 word" "32 word" | Piece "32 word" "32 word" bytes
  | Cancel "32 word" "32 word" "32 word" | Port "16 word"
  | SuggestPiece "32 word" | HaveAll | HaveNone
  | RejectRequest "32 word" "32 word" "32 word" | AllowedFast "32 word"
  | Extended byte bytes | UnknownMsg byte bytes

fun message_id :: "peer_message \<Rightarrow> byte option" where
  "message_id KeepAlive = None"
| "message_id Choke = Some 0"
| "message_id Unchoke = Some 1"
| "message_id Interested = Some 2"
| "message_id NotInterested = Some 3"
| "message_id (Have _) = Some 4"
| "message_id (Bitfield _) = Some 5"
| "message_id (Request _ _ _) = Some 6"
| "message_id (Piece _ _ _) = Some 7"
| "message_id (Cancel _ _ _) = Some 8"
| "message_id (Port _) = Some 9"
| "message_id (SuggestPiece _) = Some 0x0D"
| "message_id HaveAll = Some 0x0E"
| "message_id HaveNone = Some 0x0F"
| "message_id (RejectRequest _ _ _) = Some 0x10"
| "message_id (AllowedFast _) = Some 0x11"
| "message_id (Extended _ _) = Some 20"
| "message_id (UnknownMsg i _) = Some i"

fun message_encode :: "peer_message \<Rightarrow> bytes" where
  "message_encode KeepAlive = [0, 0, 0, 0]"
| "message_encode Choke = [0, 0, 0, 1, 0]"
| "message_encode Unchoke = [0, 0, 0, 1, 1]"
| "message_encode Interested = [0, 0, 0, 1, 2]"
| "message_encode NotInterested = [0, 0, 0, 1, 3]"
| "message_encode (Have piece_index) = [0, 0, 0, 5, 4] @ be32 piece_index"
| "message_encode (Bitfield bitfield) = be32 (1 + of_nat (length bitfield)) @ [5] @ bitfield"
| "message_encode (Request index begin len) = [0, 0, 0, 13, 6] @ be32 index @ be32 begin @ be32 len"
| "message_encode (Piece index begin block) =
    be32 (9 + of_nat (length block)) @ [7] @ be32 index @ be32 begin @ block"
| "message_encode (Cancel index begin len) = [0, 0, 0, 13, 8] @ be32 index @ be32 begin @ be32 len"
| "message_encode (Port port) = [0, 0, 0, 3, 9] @ be16 port"
| "message_encode (SuggestPiece piece_index) = [0, 0, 0, 5, 0x0D] @ be32 piece_index"
| "message_encode HaveAll = [0, 0, 0, 1, 0x0E]"
| "message_encode HaveNone = [0, 0, 0, 1, 0x0F]"
| "message_encode (RejectRequest index begin len) =
    [0, 0, 0, 13, 0x10] @ be32 index @ be32 begin @ be32 len"
| "message_encode (AllowedFast piece_index) = [0, 0, 0, 5, 0x11] @ be32 piece_index"
| "message_encode (Extended i payload) = be32 (2 + of_nat (length payload)) @ [20, i] @ payload"
| "message_encode (UnknownMsg i payload) = be32 (1 + of_nat (length payload)) @ [i] @ payload"

definition u32_at :: "nat \<Rightarrow> bytes \<Rightarrow> 32 word" where
  "u32_at k p = of_be32 (p ! k) (p ! (k + 1)) (p ! (k + 2)) (p ! (k + 3))"

definition too_short :: "string \<Rightarrow> 'a result" where
  "too_short name = Inl (err_protocol PeerProtocol (name @ '' message too short''))"

definition message_decode :: "bytes \<Rightarrow> peer_message result" where
  "message_decode data =
    (case data of
       [] \<Rightarrow> Inr KeepAlive
     | i # p \<Rightarrow>
         (if i = 0 then Inr Choke
          else if i = 1 then Inr Unchoke
          else if i = 2 then Inr Interested
          else if i = 3 then Inr NotInterested
          else if i = 4 then (if length p < 4 then too_short ''Have'' else Inr (Have (u32_at 0 p)))
          else if i = 5 then Inr (Bitfield p)
          else if i = 6 then
            (if length p < 12 then too_short ''Request''
             else Inr (Request (u32_at 0 p) (u32_at 4 p) (u32_at 8 p)))
          else if i = 7 then
            (if length p < 8 then too_short ''Piece''
             else Inr (Piece (u32_at 0 p) (u32_at 4 p) (drop 8 p)))
          else if i = 8 then
            (if length p < 12 then too_short ''Cancel''
             else Inr (Cancel (u32_at 0 p) (u32_at 4 p) (u32_at 8 p)))
          else if i = 9 then
            (if length p < 2 then too_short ''Port'' else Inr (Port (of_be16 (p ! 0) (p ! 1))))
          else if i = 0x0D then
            (if length p < 4 then too_short ''SuggestPiece'' else Inr (SuggestPiece (u32_at 0 p)))
          else if i = 0x0E then Inr HaveAll
          else if i = 0x0F then Inr HaveNone
          else if i = 0x10 then
            (if length p < 12 then too_short ''RejectRequest''
             else Inr (RejectRequest (u32_at 0 p) (u32_at 4 p) (u32_at 8 p)))
          else if i = 0x11 then
            (if length p < 4 then too_short ''AllowedFast'' else Inr (AllowedFast (u32_at 0 p)))
          else if i = 20 then
            (if p = [] then too_short ''Extended'' else Inr (Extended (p ! 0) (drop 1 p)))
          else Inr (UnknownMsg i p)))"

section \<open>Connections\<close>

datatype wire_event = Arrive byte | Stall | Break

datatype write_outcome = WriteOk | WriteTimeout | WriteFails

datatype peer_conn_state = PcConnecting | PcHandshaking | PcConnected | PcDisconnected

record peer_connection =
  pc_input :: "wire_event list"
  pc_output :: bytes
  pc_writes :: "write_outcome list"
  pc_addr :: string
  pc_info_hash :: bytes
  pc_our_peer_id :: bytes
  pc_peer_id :: "bytes option"
  pc_reserved :: bytes
  pc_peer_reserved :: bytes
  pc_state :: peer_conn_state
  pc_am_choking :: bool
  pc_am_interested :: bool
  pc_peer_choking :: bool
  pc_peer_interested :: bool
  pc_peer_pieces :: "bool list"
  pc_num_pieces :: nat
  pc_uploaded :: nat
  pc_downloaded :: nat
  pc_last_activity :: int
  pc_extension_handshake_done :: bool
  pc_peer_extensions :: "string \<rightharpoonup> byte"
  pc_peer_client :: "string option"
  pc_peer_listen_port :: "16 word option"
  pc_encrypted :: bool

text \<open>The connection before its handshake; \<open>connect\<close>, \<open>connect_utp\<close> and \<open>accept\<close> build the same.\<close>

definition peer_connection_new ::
  "int \<Rightarrow> wire_event list \<Rightarrow> write_outcome list \<Rightarrow> string \<Rightarrow> bytes \<Rightarrow> bytes \<Rightarrow> nat \<Rightarrow> bool \<Rightarrow> peer_connection"
where
  "peer_connection_new now input writes addr info_hash peer_id num_pieces encrypted =
    \<lparr>pc_input = input, pc_output = [], pc_writes = writes, pc_addr = addr, pc_info_hash = info_hash,
     pc_our_peer_id = peer_id, pc_peer_id = None, pc_reserved = with_extensions,
     pc_peer_reserved = replicate 8 0, pc_state = PcConnecting, pc_am_choking = True,
     pc_am_interested = False, pc_peer_choking = True, pc_peer_interested = False,
     pc_peer_pieces = replicate num_pieces False, pc_num_pieces = num_pieces, pc_uploaded = 0,
     pc_downloaded = 0, pc_last_activity = now, pc_extension_handshake_done = False,
     pc_peer_extensions = Map.empty, pc_peer_client = None, pc_peer_listen_port = None,
     pc_encrypted = encrypted\<rparr>"

datatype read_failure = ReadTimeout | ReadBroken

fun read_exact :: "nat \<Rightarrow> wire_event list \<Rightarrow> (read_failure + bytes) \<times> wire_event list" where
  "read_exact 0 evs = (Inr [], evs)"
| "read_exact (Suc n) [] = (Inl ReadBroken, [])"
| "read_exact (Suc n) (Stall # evs) = (Inl ReadTimeout, evs)"
| "read_exact (Suc n) (Break # evs) = (Inl ReadBroken, evs)"
| "read_exact (Suc n) (Arrive b # evs) =
    (case read_exact n evs of
       (Inl f, evs) \<Rightarrow> (Inl f, evs)
     | (Inr bs, evs) \<Rightarrow> (Inr (b # bs), evs))"

text \<open>A read or write by a connection, with the error texts of the code.\<close>

definition read_input :: "string \<Rightarrow> string \<Rightarrow> nat \<Rightarrow> peer_connection \<Rightarrow> bytes result \<times> peer_connection" where
  "read_input on_timeout on_failure n c =
    (case read_exact n (pc_input c) of
       (Inr bs, evs) \<Rightarrow> (Inr bs, c\<lparr>pc_input := evs\<rparr>)
     | (Inl ReadTimeout, evs) \<Rightarrow> (Inl (err_network Timeout on_timeout), c\<lparr>pc_input := evs\<rparr>)
     | (Inl ReadBroken, evs) \<Rightarrow> (Inl (err_network ConnectionReset on_failure), c\<lparr>pc_input := evs\<rparr>))"

definition write_output :: "string \<Rightarrow> string \<Rightarrow> bytes \<Rightarrow> peer_connection \<Rightarrow> unit result \<times> peer_connection" where
  "write_output on_timeout on_failure bs c =
    (let c' = c\<lparr>pc_writes := drop 1 (pc_writes c)\<rparr> in
     case pc_writes c of
       WriteTimeout # _ \<Rightarrow> (Inl (err_network Timeout on_timeout), c')
     | WriteFails # _ \<Rightarrow> (Inl (err_network ConnectionReset on_failure), c')
     | _ \<Rightarrow> (Inr (), c'\<lparr>pc_output := pc_output c @ bs\<rparr>))"

definition handshake_bytes :: "peer_connection \<Rightarrow> bytes" where
  "handshake_bytes c =
    of_nat (length protocol_string) # protocol_string @ pc_reserved c @ pc_info_hash c @ pc_our_peer_id c"

definition handshake :: "int \<Rightarrow> peer_connection \<Rightarrow> unit result \<times> peer_connection" where
  "handshake now c =
    (case write_output ''Handshake send timeout'' ''Handshake send failed'' (handshake_bytes c)
            (c\<lparr>pc_state := PcHandshaking\<rparr>) of
       (Inl e, c) \<Rightarrow> (Inl e, c)
     | (Inr _, c) \<Rightarrow>
         (case read_input ''Handshake receive timeout'' ''Handshake receive failed'' handshake_size c of
            (Inl e, c) \<Rightarrow> (Inl e, c)
          | (Inr response, c) \<Rightarrow>
              (let pstrlen = unat (response ! 0) in
               if pstrlen \<noteq> length protocol_string then
                 (Inl (err_protocol PeerProtocol (''Invalid protocol string length: '' @ show_nat pstrlen)), c)
               else if slice 1 (1 + pstrlen) response \<noteq> protocol_string then
                 (Inl (err_protocol PeerProtocol ''Invalid protocol string''), c)
               else
                 (let c = c\<lparr>pc_peer_reserved := slice 20 28 response\<rparr> in
                  if slice 28 48 response \<noteq> pc_info_hash c then
                    (Inl (err_protocol PeerProtocol ''Info hash mismatch''), c)
                  else (Inr (), c\<lparr>pc_peer_id := Some (slice 48 68 response), pc_state := PcConnected,
                                 pc_last_activity := now\<rparr>)))))"

definition send :: "int \<Rightarrow> peer_message \<Rightarrow> peer_connection \<Rightarrow> unit result \<times> peer_connection" where
  "send now msg c =
    (case write_output ''Send timeout'' ''Send failed'' (message_encode msg) c of
       (Inl e, c) \<Rightarrow> (Inl e, c)
     | (Inr _, c) \<Rightarrow>
         (let c = (case msg of Piece _ _ block \<Rightarrow> c\<lparr>pc_uploaded := u64 (pc_uploaded c + length block)\<rparr> | _ \<Rightarrow> c)
          in (Inr (), c\<lparr>pc_last_activity := now\<rparr>)))"

text \<open>The pieces a bitfield announces: bit \<open>i\<close> counted from the most significant bit of its byte.\<close>

definition take_bitfield :: "bytes \<Rightarrow> nat \<Rightarrow> bool list \<Rightarrow> bool list" where
  "take_bitfield bitfield num_pieces pieces =
    (let max_bytes = min (div_ceil num_pieces 8) (length bitfield) in
     map (\<lambda>i. if i div 8 < max_bytes then and (bitfield ! (i div 8)) (drop_bit (i mod 8) 0x80) \<noteq> 0
               else pieces ! i)
       [0..<length pieces])"

fun handle_message :: "peer_message \<Rightarrow> peer_connection \<Rightarrow> peer_connection" where
  "handle_message Choke c = c\<lparr>pc_peer_choking := True\<rparr>"
| "handle_message Unchoke c = c\<lparr>pc_peer_choking := False\<rparr>"
| "handle_message Interested c = c\<lparr>pc_peer_interested := True\<rparr>"
| "handle_message NotInterested c = c\<lparr>pc_peer_interested := False\<rparr>"
| "handle_message (Have i) c =
    (if unat i < pc_num_pieces c then c\<lparr>pc_peer_pieces := (pc_peer_pieces c)[unat i := True]\<rparr> else c)"
| "handle_message (Bitfield b) c =
    c\<lparr>pc_peer_pieces := take_bitfield b (pc_num_pieces c) (pc_peer_pieces c)\<rparr>"
| "handle_message (Piece _ _ block) c = c\<lparr>pc_downloaded := u64 (pc_downloaded c + length block)\<rparr>"
| "handle_message HaveAll c = c\<lparr>pc_peer_pieces := replicate (length (pc_peer_pieces c)) True\<rparr>"
| "handle_message HaveNone c = c\<lparr>pc_peer_pieces := replicate (length (pc_peer_pieces c)) False\<rparr>"
| "handle_message _ c = c"

definition recv :: "int \<Rightarrow> peer_connection \<Rightarrow> peer_message result \<times> peer_connection" where
  "recv now c =
    (case read_input ''Receive timeout'' ''Receive failed'' 4 c of
       (Inl e, c) \<Rightarrow> (Inl e, c)
     | (Inr len_buf, c) \<Rightarrow>
         (let len = unat (u32_at 0 len_buf) in
          if len = 0 then (Inr KeepAlive, c\<lparr>pc_last_activity := now\<rparr>)
          else if max_message_size (pc_num_pieces c) < len then
            (Inl (err_protocol PeerProtocol (''Message too large: '' @ show_nat len @ '' bytes'')), c)
          else
            (case read_input ''Receive body timeout'' ''Receive body failed'' len c of
               (Inl e, c) \<Rightarrow> (Inl e, c)
             | (Inr body, c) \<Rightarrow>
                 (case message_decode body of
                    Inl e \<Rightarrow> (Inl e, c)
                  | Inr msg \<Rightarrow> (Inr msg, (handle_message msg c)\<lparr>pc_last_activity := now\<rparr>)))))"

definition choke :: "int \<Rightarrow> peer_connection \<Rightarrow> unit result \<times> peer_connection" where
  "choke now c = send now Choke (c\<lparr>pc_am_choking := True\<rparr>)"

definition unchoke :: "int \<Rightarrow> peer_connection \<Rightarrow> unit result \<times> peer_connection" where
  "unchoke now c = send now Unchoke (c\<lparr>pc_am_choking := False\<rparr>)"

definition interested :: "int \<Rightarrow> peer_connection \<Rightarrow> unit result \<times> peer_connection" where
  "interested now c = send now Interested (c\<lparr>pc_am_interested := True\<rparr>)"

definition not_interested :: "int \<Rightarrow> peer_connection \<Rightarrow> unit result \<times> peer_connection" where
  "not_interested now c = send now NotInterested (c\<lparr>pc_am_interested := False\<rparr>)"

definition request_block :: "int \<Rightarrow> 32 word \<Rightarrow> 32 word \<Rightarrow> 32 word \<Rightarrow> peer_connection \<Rightarrow> unit result \<times> peer_connection" where
  "request_block now index begin len = send now (Request index begin len)"

definition cancel_request :: "int \<Rightarrow> 32 word \<Rightarrow> 32 word \<Rightarrow> 32 word \<Rightarrow> peer_connection \<Rightarrow> unit result \<times> peer_connection" where
  "cancel_request now index begin len = send now (Cancel index begin len)"

definition send_have :: "int \<Rightarrow> 32 word \<Rightarrow> peer_connection \<Rightarrow> unit result \<times> peer_connection" where
  "send_have now piece_index = send now (Have piece_index)"

text \<open>The raw bytes of a bit vector, most significant bit first.\<close>

definition pack_byte :: "bool list \<Rightarrow> byte" where
  "pack_byte bits = foldr or (map (\<lambda>j. if bits ! j then drop_bit j 0x80 else 0) [0..<min 8 (length bits)]) 0"

definition pack_bits :: "bool list \<Rightarrow> bytes" where
  "pack_bits bits = map (\<lambda>i. pack_byte (slice (8 * i) (8 * i + 8) bits)) [0..<div_ceil (length bits) 8]"

definition send_bitfield :: "int \<Rightarrow> bool list \<Rightarrow> peer_connection \<Rightarrow> unit result \<times> peer_connection" where
  "send_bitfield now bits = send now (Bitfield (pack_bits bits))"

definition send_piece :: "int \<Rightarrow> 32 word \<Rightarrow> 32 word \<Rightarrow> bytes \<Rightarrow> peer_connection \<Rightarrow> unit result \<times> peer_connection" where
  "send_piece now index begin block = send now (Piece index begin block)"

definition keep_alive :: "int \<Rightarrow> peer_connection \<Rightarrow> unit result \<times> peer_connection" where
  "keep_alive now = send now KeepAlive"

definition peer_has_piece :: "nat \<Rightarrow> peer_connection \<Rightarrow> bool" where
  "peer_has_piece i c \<longleftrightarrow> i < length (pc_peer_pieces c) \<and> pc_peer_pieces c ! i"

definition idle_time :: "int \<Rightarrow> peer_connection \<Rightarrow> nat" where
  "idle_time now c = nat (now - pc_last_activity c)"

definition supports_extensions :: "peer_connection \<Rightarrow> bool" where
  "supports_extensions c \<longleftrightarrow> supports_extension_protocol (pc_peer_reserved c)"

definition peer_supports_dht :: "peer_connection \<Rightarrow> bool" where
  "peer_supports_dht c \<longleftrightarrow> reserved_supports_dht (pc_peer_reserved c)"

definition disconnect :: "peer_connection \<Rightarrow> unit result \<times> peer_connection" where
  "disconnect c = (Inr (), c\<lparr>pc_state := PcDisconnected\<rparr>)"

definition client_names :: "(string \<times> string) list" where
  "client_names =
    [(''AZ'', ''Azureus''), (''BC'', ''BitComet''), (''BS'', ''BTSlave''), (''DE'', ''Deluge''),
     (''LT'', ''libtorrent''), (''QD'', ''QQDownload''), (''UT'', ''uTorrent''), (''TR'', ''Transmission''),
     (''GD'', ''Gosh Downloader''), (''qB'', ''qBittorrent''), (''AR'', ''Arctic''),
     (''FD'', ''Free Download Manager'')]"

definition peer_id_to_client :: "bytes \<Rightarrow> string option" where
  "peer_id_to_client peer_id =
    (if peer_id ! 0 \<noteq> byte_of CHR ''-'' \<or> peer_id ! 7 \<noteq> byte_of CHR ''-'' then None
     else
       (case (from_utf8 (slice 1 3 peer_id), from_utf8 (slice 3 7 peer_id)) of
          (Some client_id, Some version) \<Rightarrow>
            Some ((case map_of client_names client_id of Some client_name \<Rightarrow> client_name | None \<Rightarrow> client_id)
                  @ '' '' @ version)
        | _ \<Rightarrow> None))"

section \<open>Extension messages\<close>

definition our_pex_extension_id :: byte where "our_pex_extension_id = 1"

definition send_extension_handshake ::
  "int \<Rightarrow> byte option \<Rightarrow> 16 word option \<Rightarrow> peer_connection \<Rightarrow> unit result \<times> peer_connection" where
  "send_extension_handshake now metadata_id listen_port c =
    (if \<not> supports_extensions c then (Inr (), c)
     else send now (Extended 0 (build_extension_handshake our_pex_extension_id metadata_id listen_port)) c)"

definition handle_extension_handshake :: "bytes \<Rightarrow> peer_connection \<Rightarrow> unit result \<times> peer_connection" where
  "handle_extension_handshake payload c =
    (case parse_extension_handshake payload of
       Inl e \<Rightarrow> (Inl e, c)
     | Inr h \<Rightarrow>
         (Inr (), c\<lparr>pc_peer_extensions := eh_extensions h, pc_peer_client := eh_client h,
                    pc_peer_listen_port := eh_listen_port h, pc_extension_handshake_done := True\<rparr>))"

definition handle_extension_message ::
  "byte \<Rightarrow> bytes \<Rightarrow> peer_connection \<Rightarrow> sock_addr list option result \<times> peer_connection" where
  "handle_extension_message i payload c =
    (if i = 0 then
       (case handle_extension_handshake payload c of (Inl e, c) \<Rightarrow> (Inl e, c) | (Inr _, c) \<Rightarrow> (Inr None, c))
     else if pc_peer_extensions c pex_extension_name = Some i then
       (case pex_parse payload of Inl e \<Rightarrow> (Inl e, c) | Inr m \<Rightarrow> (Inr (Some (all_added m)), c))
     else (Inr None, c))"

definition supports_pex :: "peer_connection \<Rightarrow> bool" where
  "supports_pex c \<longleftrightarrow> pc_peer_extensions c pex_extension_name \<noteq> None"

definition peer_pex_id :: "peer_connection \<Rightarrow> byte option" where
  "peer_pex_id c = pc_peer_extensions c pex_extension_name"

definition send_pex :: "int \<Rightarrow> pex_message \<Rightarrow> peer_connection \<Rightarrow> unit result \<times> peer_connection" where
  "send_pex now msg c =
    (case peer_pex_id c of
       None \<Rightarrow> (Inr (), c)
     | Some pex_id \<Rightarrow> send now (Extended pex_id (pex_encode msg)) c)"

definition send_extension_message :: "int \<Rightarrow> byte \<Rightarrow> bytes \<Rightarrow> peer_connection \<Rightarrow> unit result \<times> peer_connection" where
  "send_extension_message now extension_id payload = send now (Extended extension_id payload)"

section \<open>Messages on the wire\<close>

definition known_ids :: "byte set" where
  "known_ids = {0, 1, 2, 3, 4, 5, 6, 7, 8, 9, 0x0D, 0x0E, 0x0F, 0x10, 0x11, 20}"

text \<open>Messages the encoding can carry: the length fits the prefix, and what is sent as unknown has an
  id the decoder does not know.\<close>

definition message_ok :: "peer_message \<Rightarrow> bool" where
  "message_ok m \<longleftrightarrow> length (message_encode m) < 2 ^ 32 \<and> (case m of UnknownMsg i _ \<Rightarrow> i \<notin> known_ids | _ \<Rightarrow> True)"

lemma length_message_encode [simp]: "4 \<le> length (message_encode m)"
  by (cases m) simp_all

lemma u32_at_be32 [simp]: "u32_at 0 (be32 w @ r) = w" "u32_at 0 (be32 w) = w"
  by (simp_all add: u32_at_def be32_def numeral_2_eq_2 numeral_3_eq_3)

lemma u32_at_skip [simp]: "u32_at 4 (be32 v @ r) = u32_at 0 r" "u32_at 8 (be32 v @ r) = u32_at 4 r"
  by (simp_all add: u32_at_def be32_def numeral_2_eq_2)

lemma message_prefix:
  assumes "message_ok m"
  shows "u32_at 0 (take 4 (message_encode m)) = of_nat (length (message_encode m) - 4)"
proof -
  have t: "take 4 (be32 w @ r) = be32 w" for w r by simp
  have c: "u32_at 0 [0, 0, 0, b] = ucast b" for b
    by (simp add: u32_at_def of_be32_def)
  show ?thesis
    by (cases m) (simp_all add: c)
qed

lemma message_body:
  assumes "message_ok m"
  shows "message_decode (drop 4 (message_encode m)) = Inr m"
proof (cases m)
  case (UnknownMsg i p)
  then have "i \<notin> known_ids" using assms by (simp add: message_ok_def)
  then show ?thesis by (simp add: UnknownMsg message_decode_def known_ids_def)
next
  case (Port w)
  then show ?thesis by (simp add: message_decode_def be16_def)
qed (simp_all add: message_decode_def)

section \<open>Receiving what was sent\<close>

lemma read_exact_arrives:
  "read_exact (length bs) (map Arrive bs @ evs) = (Inr bs, evs)"
  by (induction bs) simp_all

lemma read_exact_stalls:
  "length bs < n \<Longrightarrow> read_exact n (map Arrive bs @ Stall # evs) = (Inl ReadTimeout, evs)"
proof (induction bs arbitrary: n)
  case Nil
  then show ?case by (cases n) simp_all
next
  case (Cons b bs)
  then show ?case by (cases n) simp_all
qed

definition fits_connection :: "nat \<Rightarrow> peer_message \<Rightarrow> bool" where
  "fits_connection num_pieces m \<longleftrightarrow> message_ok m \<and> length (message_encode m) - 4 \<le> max_message_size num_pieces"

lemma unat_of_nat32: "k < 2 ^ 32 \<Longrightarrow> unat (of_nat k :: 32 word) = k"
  by (simp add: unat_of_nat)

text \<open>Split a message into its prefix and its body.\<close>

lemma message_split:
  "map Arrive (message_encode m) @ evs = map Arrive (take 4 (message_encode m)) @ map Arrive (drop 4 (message_encode m)) @ evs"
  by (metis append_assoc append_take_drop_id map_append)

lemma message_body_empty: "message_ok m \<Longrightarrow> length (message_encode m) = 4 \<longleftrightarrow> m = KeepAlive"
  by (cases m) simp_all

lemma handle_keep_alive_frame [simp]:
  "pc_num_pieces (handle_message m c) = pc_num_pieces c" "pc_input (handle_message m c) = pc_input c"
  by (cases m; simp)+

lemma recv_message:
  assumes "fits_connection (pc_num_pieces c) m" and "pc_input c = map Arrive (message_encode m) @ evs"
  shows "recv now c = (Inr m, (handle_message m (c\<lparr>pc_input := evs\<rparr>))\<lparr>pc_last_activity := now\<rparr>)"
proof -
  let ?e = "message_encode m"
  have ok: "message_ok m" and size: "length ?e - 4 \<le> max_message_size (pc_num_pieces c)"
    using assms(1) by (simp_all add: fits_connection_def)
  have l4: "length (take 4 ?e) = 4" by simp
  have r1: "read_exact 4 (pc_input c) = (Inr (take 4 ?e), map Arrive (drop 4 ?e) @ evs)"
    unfolding assms(2) message_split using read_exact_arrives [of "take 4 ?e"] unfolding l4 by simp
  have "length ?e < 2 ^ 32" using ok by (simp add: message_ok_def)
  then have len: "unat (u32_at 0 (take 4 ?e)) = length ?e - 4"
    unfolding message_prefix [OF ok] by (intro unat_of_nat32) simp
  show ?thesis
  proof (cases "length ?e = 4")
    case True
    then have "m = KeepAlive" using message_body_empty [OF ok] by simp
    then show ?thesis using r1 len True by (simp add: recv_def read_input_def Let_def)
  next
    case False
    have r2: "read_exact (length ?e - 4) (map Arrive (drop 4 ?e) @ evs) = (Inr (drop 4 ?e), evs)"
      using read_exact_arrives [of "drop 4 ?e" evs] by simp
    have "length ?e - 4 \<noteq> 0" using False length_message_encode [of m] by linarith
    then show ?thesis
      using r1 r2 len size message_body [OF ok] by (simp add: recv_def read_input_def Let_def del: message_encode.simps)
  qed
qed

text \<open>Receiving \<open>n\<close> messages.\<close>

fun recv_all :: "int \<Rightarrow> nat \<Rightarrow> peer_connection \<Rightarrow> peer_message list result \<times> peer_connection" where
  "recv_all now 0 c = (Inr [], c)"
| "recv_all now (Suc n) c =
    (case recv now c of
       (Inl e, c) \<Rightarrow> (Inl e, c)
     | (Inr m, c) \<Rightarrow>
         (case recv_all now n c of (Inl e, c) \<Rightarrow> (Inl e, c) | (Inr ms, c) \<Rightarrow> (Inr (m # ms), c)))"

lemma recv_all_messages:
  assumes "list_all (fits_connection (pc_num_pieces c)) ms"
    and "pc_input c = map Arrive (concat (map message_encode ms)) @ evs"
  shows "fst (recv_all now (length ms) c) = Inr ms \<and> pc_input (snd (recv_all now (length ms) c)) = evs"
  using assms
proof (induction ms arbitrary: c)
  case (Cons m ms)
  let ?c = "(handle_message m (c\<lparr>pc_input := map Arrive (concat (map message_encode ms)) @ evs\<rparr>))\<lparr>pc_last_activity := now\<rparr>"
  have r: "recv now c = (Inr m, ?c)" using Cons.prems by (intro recv_message) simp_all
  have "fst (recv_all now (length ms) ?c) = Inr ms \<and> pc_input (snd (recv_all now (length ms) ?c)) = evs"
    using Cons.prems by (intro Cons.IH) simp_all
  then show ?case by (auto simp: r split: prod.splits sum.splits)
qed simp

section \<open>Timeouts inside a message\<close>

lemma recv_stall:
  assumes "fits_connection (pc_num_pieces c) m" and "0 < j" and "j < length (message_encode m)"
    and "pc_input c = map Arrive (take j (message_encode m)) @ Stall # evs"
  shows "\<exists>text. recv now c = (Inl (err_network Timeout text), c\<lparr>pc_input := evs\<rparr>)"
proof -
  let ?e = "message_encode m"
  show ?thesis
  proof (cases "j < 4")
    case True
    then have "read_exact 4 (pc_input c) = (Inl ReadTimeout, evs)"
      using assms(3) unfolding assms(4) by (intro read_exact_stalls) simp
    then show ?thesis by (auto simp: recv_def read_input_def)
  next
    case False
    have ok: "message_ok m" and size: "length ?e - 4 \<le> max_message_size (pc_num_pieces c)"
      using assms(1) by (simp_all add: fits_connection_def)
    have "take j ?e = take 4 ?e @ take (j - 4) (drop 4 ?e)"
      using False by (metis append_take_drop_id le_add_diff_inverse not_less take_add)
    then have i: "pc_input c = map Arrive (take 4 ?e) @ map Arrive (take (j - 4) (drop 4 ?e)) @ Stall # evs"
      using assms(4) by simp
    have l4: "length (take 4 ?e) = 4" by simp
    have r1: "read_exact 4 (pc_input c) = (Inr (take 4 ?e), map Arrive (take (j - 4) (drop 4 ?e)) @ Stall # evs)"
      unfolding i using read_exact_arrives [of "take 4 ?e"] unfolding l4 by simp
    have "length ?e < 2 ^ 32" using ok by (simp add: message_ok_def)
    then have len: "unat (u32_at 0 (take 4 ?e)) = length ?e - 4"
      unfolding message_prefix [OF ok] by (intro unat_of_nat32) simp
    have r2: "read_exact (length ?e - 4) (map Arrive (take (j - 4) (drop 4 ?e)) @ Stall # evs) = (Inl ReadTimeout, evs)"
      using assms(3) False by (intro read_exact_stalls) simp
    have "length ?e - 4 \<noteq> 0" using assms(3) False by simp
    then show ?thesis
      using r1 r2 len size by (auto simp: recv_def read_input_def Let_def)
  qed
qed

section \<open>Bitfields\<close>

lemma bit_foldr_or: "bit (foldr or xs (0 :: byte)) n \<longleftrightarrow> (\<exists>x \<in> set xs. bit x n)"
  by (induction xs) (auto simp: bit_or_iff)

lemma pack_byte_bit:
  assumes "j < 8"
  shows "and (pack_byte bits) (drop_bit j 0x80) \<noteq> 0 \<longleftrightarrow> j < length bits \<and> bits ! j"
proof -
  have eq: "(7 - j = 7 - k) = (k = j)" if "k < 8" for k using that assms by linarith
  have "bit (if b then drop_bit k 0x80 else 0 :: byte) n \<longleftrightarrow> b \<and> bit (drop_bit k 0x80 :: byte) n" for b k n
    by simp
  then have "bit (pack_byte bits) (7 - j) \<longleftrightarrow>
      (\<exists>k < min 8 (length bits). bits ! k \<and> bit (drop_bit k 0x80 :: byte) (7 - j))"
    unfolding pack_byte_def bit_foldr_or set_map bex_simps set_upt by auto
  also have "\<dots> \<longleftrightarrow> (\<exists>k < min 8 (length bits). bits ! k \<and> 7 - j = 7 - k)"
    by (intro ex_cong1 conj_cong refl) (simp add: bit_drop_0x80)
  also have "\<dots> \<longleftrightarrow> j < length bits \<and> bits ! j"
    using assms eq by auto
  finally show ?thesis using assms by (simp add: and_drop_0x80)
qed

lemma length_pack_bits [simp]: "length (pack_bits bits) = div_ceil (length bits) 8"
  by (simp add: pack_bits_def)

lemma take_bitfield_pack_bits:
  assumes "length pieces = length bits"
  shows "take_bitfield (pack_bits bits) (length bits) pieces = bits"
proof (rule nth_equalityI)
  show "length (take_bitfield (pack_bits bits) (length bits) pieces) = length bits"
    using assms by (simp add: take_bitfield_def Let_def)
  fix i assume "i < length (take_bitfield (pack_bits bits) (length bits) pieces)"
  then have i: "i < length bits" using assms by (simp add: take_bitfield_def Let_def)
  have d: "i div 8 < div_ceil (length bits) 8" 
    using less_le_trans [OF i div_ceil_le [of 8 "length bits"]] by (intro less_mult_imp_div_less) simp
  define q j where "q = i div 8" and "j = i mod 8"
  have qj: "i = 8 * q + j" "j < 8" by (simp_all add: q_def j_def)
  let ?s = "slice (8 * q) (8 * q + 8) bits"
  have j: "j < length ?s" and nth: "?s ! j = bits ! i"
    using i qj by (simp_all add: slice_def)
  have "pack_bits bits ! q = pack_byte ?s" using d by (simp add: pack_bits_def q_def)
  then have "and (pack_bits bits ! q) (drop_bit j 0x80) \<noteq> 0 \<longleftrightarrow> bits ! i"
    using pack_byte_bit [OF qj(2), of ?s] j nth by simp
  then show "take_bitfield (pack_bits bits) (length bits) pieces ! i = bits ! i"
    using i d assms by (simp add: take_bitfield_def Let_def q_def j_def)
qed

text \<open>Receiving never learns the peer's extensions, so a connection that only receives never sends PEX.\<close>

lemma recv_keeps_extensions: "pc_peer_extensions (snd (recv now c)) = pc_peer_extensions c"
proof -
  have "pc_peer_extensions (handle_message m c) = pc_peer_extensions c" for m c by (cases m) simp_all
  then show ?thesis
    by (auto simp: recv_def read_input_def Let_def split: prod.splits sum.splits read_failure.splits)
qed

lemma pex_not_sent: "pc_peer_extensions c = Map.empty \<Longrightarrow> send_pex now msg c = (Inr (), c)"
  by (simp add: send_pex_def peer_pex_id_def)

section \<open>Two ends of a connection\<close>

fun send_all :: "int \<Rightarrow> peer_message list \<Rightarrow> peer_connection \<Rightarrow> unit result \<times> peer_connection" where
  "send_all now [] c = (Inr (), c)"
| "send_all now (m # ms) c =
    (case send now m c of (Inl e, c) \<Rightarrow> (Inl e, c) | (Inr _, c) \<Rightarrow> send_all now ms c)"

lemma write_output_ok:
  "write_output t f bs c = (Inr (), c') \<Longrightarrow> pc_output c' = pc_output c @ bs \<and> pc_input c' = pc_input c"
  by (auto simp: write_output_def Let_def split: list.splits write_outcome.splits)

lemma send_ok: "send now m c = (Inr (), c') \<Longrightarrow> pc_output c' = pc_output c @ message_encode m"
  by (auto simp: send_def Let_def split: prod.splits sum.splits peer_message.splits dest!: write_output_ok)

lemma send_all_ok:
  "send_all now ms c = (Inr (), c') \<Longrightarrow> pc_output c' = pc_output c @ concat (map message_encode ms)"
proof (induction ms arbitrary: c)
  case (Cons m ms)
  then obtain c1 where "send now m c = (Inr (), c1)" and "send_all now ms c1 = (Inr (), c')"
    by (auto split: prod.splits sum.splits)
  then show ?case using Cons.IH [of c1] send_ok [of now m c c1] by simp
qed simp

definition identity_ok :: "peer_connection \<Rightarrow> bool" where
  "identity_ok c \<longleftrightarrow> length (pc_reserved c) = 8 \<and> length (pc_info_hash c) = 20 \<and> length (pc_our_peer_id c) = 20"

lemma length_protocol_string [simp]: "length protocol_string = 19"
  by (simp add: protocol_string_def)

lemma length_handshake_bytes: "identity_ok c \<Longrightarrow> length (handshake_bytes c) = handshake_size"
  by (simp add: handshake_bytes_def identity_ok_def handshake_size_def)

lemma handshake_fields:
  assumes "identity_ok c"
  shows "handshake_bytes c ! 0 = 19" "slice 1 20 (handshake_bytes c) = protocol_string"
    "slice 20 28 (handshake_bytes c) = pc_reserved c" "slice 28 48 (handshake_bytes c) = pc_info_hash c"
    "slice 48 68 (handshake_bytes c) = pc_our_peer_id c"
  using assms by (simp_all add: handshake_bytes_def identity_ok_def slice_def)

lemma handshake_sent:
  assumes "handshake now c = (Inr (), c')"
  shows "pc_output c' = pc_output c @ handshake_bytes c"
  using assms
  by (auto simp: handshake_def read_input_def Let_def handshake_bytes_def
      split: prod.splits sum.splits if_splits read_failure.splits dest!: write_output_ok)

lemma handshake_received:
  assumes "pc_input c = map Arrive (handshake_bytes a) @ evs" and "take 1 (pc_writes c) \<in> {[], [WriteOk]}"
    and "identity_ok a" and "pc_info_hash a = pc_info_hash c"
  shows "\<exists>out w. handshake now c =
    (Inr (), c\<lparr>pc_input := evs, pc_output := out, pc_writes := w, pc_peer_reserved := pc_reserved a,
      pc_peer_id := Some (pc_our_peer_id a), pc_state := PcConnected, pc_last_activity := now\<rparr>)"
proof -
  have w: "write_output t f bs (c\<lparr>pc_state := PcHandshaking\<rparr>) =
      (Inr (), c\<lparr>pc_state := PcHandshaking, pc_writes := drop 1 (pc_writes c), pc_output := pc_output c @ bs\<rparr>)" for t f bs
    using assms(2) by (auto simp: write_output_def Let_def split: list.splits write_outcome.splits)
  have "read_exact handshake_size (pc_input c) = (Inr (handshake_bytes a), evs)"
    using read_exact_arrives [of "handshake_bytes a" evs] assms by (simp add: length_handshake_bytes)
  then show ?thesis
    using handshake_fields [OF assms(3)] assms(4)
    by (simp add: handshake_def w read_input_def Let_def)
       (rule exI [of _ "pc_output c @ handshake_bytes c"],
        rule exI [of _ "drop 1 (pc_writes c)"], cases c, simp add: handshake_bytes_def)
qed

section \<open>Correctness\<close>

text \<open>A reader that goes on after a timeout, as the connection loop does: \<open>n\<close> calls of \<open>recv\<close>.\<close>

fun timed_out :: "engine_error \<Rightarrow> bool" where
  "timed_out (ENetwork Timeout _ _) \<longleftrightarrow> True"
| "timed_out _ \<longleftrightarrow> False"

fun recv_calls :: "int \<Rightarrow> nat \<Rightarrow> peer_connection \<Rightarrow> peer_message list result \<times> peer_connection" where
  "recv_calls now 0 c = (Inr [], c)"
| "recv_calls now (Suc n) c =
    (case recv now c of
       (Inl e, c) \<Rightarrow> if timed_out e then recv_calls now n c else (Inl e, c)
     | (Inr m, c) \<Rightarrow>
         (case recv_calls now n c of (Inl e, c) \<Rightarrow> (Inl e, c) | (Inr ms, c) \<Rightarrow> (Inr (m # ms), c)))"

text \<open>Messages that arrive with pauses, longer than the read timeout, only before a message.\<close>

fun paced :: "(nat \<times> peer_message) list \<Rightarrow> wire_event list" where
  "paced [] = []"
| "paced ((pauses, m) # ms) = replicate pauses Stall @ map Arrive (message_encode m) @ paced ms"

lemma recv_calls_paced:
  assumes "list_all (fits_connection (pc_num_pieces c)) (map snd pms)"
    and "pc_input c = paced pms @ evs" and "n = sum_list (map (Suc \<circ> fst) pms)"
  shows "fst (recv_calls now n c) = Inr (map snd pms) \<and> pc_input (snd (recv_calls now n c)) = evs"
  using assms
proof (induction n arbitrary: c pms)
  case 0
  then show ?case by (cases pms) auto
next
  case (Suc n)
  then obtain k m rest where pms: "pms = (k, m) # rest" by (cases pms) auto
  show ?case
  proof (cases k)
    case 0
    let ?c = "(handle_message m (c\<lparr>pc_input := paced rest @ evs\<rparr>))\<lparr>pc_last_activity := now\<rparr>"
    have r: "recv now c = (Inr m, ?c)" using Suc.prems pms 0 by (intro recv_message) simp_all
    have "fst (recv_calls now n ?c) = Inr (map snd rest) \<and> pc_input (snd (recv_calls now n ?c)) = evs"
      using Suc.prems pms 0 by (intro Suc.IH) simp_all
    then show ?thesis by (auto simp: r pms split: prod.splits sum.splits)
  next
    case (Suc j)
    let ?c = "c\<lparr>pc_input := paced ((j, m) # rest) @ evs\<rparr>"
    have "pc_input c = Stall # (paced ((j, m) # rest) @ evs)" using Suc.prems pms Suc by simp
    then have r: "recv now c = (Inl (err_network Timeout ''Receive timeout''), ?c)"
      by (simp add: recv_def read_input_def numeral_eq_Suc)
    have "fst (recv_calls now n ?c) = Inr (map snd ((j, m) # rest)) \<and> pc_input (snd (recv_calls now n ?c)) = evs"
      using Suc.prems pms Suc by (intro Suc.IH) simp_all
    then show ?thesis by (simp add: r pms err_network_def)
  qed
qed


definition demo_messages :: "peer_message list" where
  "demo_messages = [Interested, Request 1 0 16384]"

definition demo_sender :: peer_connection where
  "demo_sender = peer_connection_new 0
     (map Arrive (19 # protocol_string @ with_extensions @ replicate 20 3 @ replicate 20 9)) [] ''a''
     (replicate 20 3) (replicate 20 7) 4 False"

definition demo_wrote :: bytes where
  "demo_wrote = pc_output (snd (send_all 1 demo_messages (snd (handshake 0 demo_sender))))"

definition demo_reader :: peer_connection where
  "demo_reader = peer_connection_new 0
     (map Arrive (take handshake_size demo_wrote) @ paced [(1, Interested), (2, Request 1 0 16384)]) []
     ''b'' (replicate 20 3) (replicate 20 9) 4 False"

lemma demo_sender_steps:
  "handshake 0 demo_sender = (Inr (), snd (handshake 0 demo_sender)) \<and>
   send_all 1 demo_messages (snd (handshake 0 demo_sender)) =
     (Inr (), snd (send_all 1 demo_messages (snd (handshake 0 demo_sender))))"
  by (simp add: prod_eq_iff) code_simp


text \<open>C24. A peer's bitfield arrives intact: when one end sends the bitfield of a torrent with as many
  pieces as the receiver has, the receiver accepts it whatever the number of pieces (the size limit
  follows it), and then holds the peer to have exactly the pieces announced.\<close>

theorem bitfield_announced:
  assumes "send_bitfield t0 bits a = (Inr (), a')" and "pc_output a = []"
    and "pc_input b = map Arrive (pc_output a') @ evs"
    and "length bits = pc_num_pieces b" and "length (pc_peer_pieces b) = pc_num_pieces b"
    and "pc_num_pieces b < 2 ^ 32"
  shows "\<exists>msg b'. recv t1 b = (Inr msg, b') \<and> pc_peer_pieces b' = bits \<and> pc_input b' = evs \<and>
    (\<forall>i. peer_has_piece i b' \<longleftrightarrow> i < pc_num_pieces b \<and> bits ! i)"
proof -
  let ?m = "Bitfield (pack_bits bits)"
  have "8 * div_ceil n 8 \<le> n + 7" for n by (simp add: div_ceil_def) presburger
  from this [of "length bits"] have "div_ceil (length bits) 8 + 5 < 2 ^ 32"
    using assms(4,6) by simp
  then have "fits_connection (pc_num_pieces b) ?m"
    using assms(4) by (simp add: fits_connection_def message_ok_def max_message_size_def le_max_iff_disj)
  then have "recv t1 b = (Inr ?m, (handle_message ?m (b\<lparr>pc_input := evs\<rparr>))\<lparr>pc_last_activity := t1\<rparr>)"
    using send_ok assms(1-3) by (intro recv_message) (auto simp: send_bitfield_def)
  then show ?thesis
    using assms(4,5) take_bitfield_pack_bits [of "pc_peer_pieces b" bits]
    by (simp add: peer_has_piece_def)
qed

text \<open>A timeout inside a message desynchronises the stream: when the block of a piece message is
  late, \<open>recv\<close> reports a timeout with the header already consumed, and the calls after it (the
  connection loop goes on after a timeout) read the bytes of the block as messages of their own.\<close>

theorem late_block_read_as_messages:
  assumes "m = Piece i off (concat (map message_encode ms))" and "ms \<noteq> []"
    and "list_all (fits_connection (pc_num_pieces c)) (m # ms)"
    and "pc_input c = map Arrive (take 13 (message_encode m)) @ Stall # map Arrive (drop 13 (message_encode m)) @ evs"
  shows "\<exists>text c'. recv now c = (Inl (err_network Timeout text), c') \<and>
    fst (recv_all now (length ms) c') = Inr ms \<and> pc_input (snd (recv_all now (length ms) c')) = evs"
proof -
  obtain m' ms' where ms: "ms = m' # ms'" using assms(2) by (cases ms) auto
  then have "13 < length (message_encode m)"
    using length_message_encode [of m'] by (cases "message_encode m'") (simp_all add: assms(1))
  then obtain t where "recv now c = (Inl (err_network Timeout t), c\<lparr>pc_input := map Arrive (drop 13 (message_encode m)) @ evs\<rparr>)"
    using recv_stall [of c m 13] assms(3,4) by auto
  moreover have "drop 13 (message_encode m) = concat (map message_encode ms)"
    by (simp add: assms(1))
  ultimately show ?thesis
    using assms(3) recv_all_messages [of "c\<lparr>pc_input := map Arrive (drop 13 (message_encode m)) @ evs\<rparr>" ms evs now]
    by auto
qed

definition demo_block :: peer_message where
  "demo_block = Piece 0 0 (message_encode HaveAll)"

lemma late_block_witness:
  "fst (recv_all 0 1 (snd (recv 0 (peer_connection_new 0
     (map Arrive (take 13 (message_encode demo_block)) @ Stall # map Arrive (message_encode HaveAll)) []
     ''p'' [] [] 2 False)))) = Inr [HaveAll]"
proof -
  let ?c = "peer_connection_new 0
     (map Arrive (take 13 (message_encode demo_block)) @ Stall # map Arrive (message_encode HaveAll)) []
     ''p'' [] [] 2 False"
  have "list_all (fits_connection (pc_num_pieces ?c)) [demo_block, HaveAll]"
    by (simp add: demo_block_def fits_connection_def message_ok_def max_message_size_def
        max_message_size_default_def peer_connection_new_def le_max_iff_disj)
  moreover have "pc_input ?c = map Arrive (take 13 (message_encode demo_block)) @ Stall #
      map Arrive (drop 13 (message_encode demo_block)) @ []"
    by (simp add: demo_block_def peer_connection_new_def)
  ultimately show ?thesis
    using late_block_read_as_messages [of demo_block 0 0 "[HaveAll]" ?c "[]" 0] by (auto simp: demo_block_def)
qed

lemma bitfield_announced_witness:
  "peer_has_piece 9 (snd (recv 1 (peer_connection_new 0
     (map Arrive (pc_output (snd (send_bitfield 0 (replicate 9 False @ [True])
       (peer_connection_new 0 [] [] ''a'' [] [] 10 False))))) [] ''b'' [] [] 10 False)))"
proof -
  let ?a = "peer_connection_new 0 [] [] ''a'' [] [] 10 False"
  let ?bits = "replicate 9 False @ [True]"
  let ?b = "peer_connection_new 0 (map Arrive (pc_output (snd (send_bitfield 0 ?bits ?a)))) [] ''b'' [] [] 10 False"
  have "send_bitfield 0 ?bits ?a = (Inr (), snd (send_bitfield 0 ?bits ?a))"
    by (simp add: send_bitfield_def send_def write_output_def peer_connection_new_def)
  from bitfield_announced [OF this, of ?b "[]" 1]
  have "\<exists>msg b'. recv 1 ?b = (Inr msg, b') \<and> (\<forall>i. peer_has_piece i b' \<longleftrightarrow> i < 10 \<and> ?bits ! i)"
    by (fastforce simp: peer_connection_new_def simp del: replicate.simps)
  then obtain msg b' where "recv 1 ?b = (Inr msg, b')" "peer_has_piece 9 b' \<longleftrightarrow> 9 < (10::nat) \<and> ?bits ! 9"
    by blast
  moreover have "?bits ! 9" by (simp add: nth_append)
  ultimately show ?thesis by simp
qed

end
