(* ===== verification/Metadata.thy ===== *)
theory Metadata
  imports Metainfo Wire Codec
begin

text \<open>
  Fetching the metadata of a magnet link from peers (\<open>src/torrent/metadata.rs\<close>): the messages, the
  fetcher that collects the pieces of the info dictionary, and the torrent made of them. A \<open>HashMap\<close>
  is the list of its entries by key; SHA-1 is a parameter; instants are milliseconds.
\<close>

definition metadata_piece_size :: nat where "metadata_piece_size = 16 * 1024"
definition max_metadata_size :: nat where "max_metadata_size = 16 * 1024 * 1024"
definition metadata_extension_name :: string where "metadata_extension_name = ''ut_metadata''"
definition our_metadata_extension_id :: byte where "our_metadata_extension_id = 2"

abbreviation metadata_err :: "string \<Rightarrow> engine_error" where
  "metadata_err \<equiv> err_protocol MetadataError"

section \<open>Messages\<close>

datatype metadata_message_type = MtRequest | MtData | MtReject

fun message_type_code :: "metadata_message_type \<Rightarrow> nat" where
  "message_type_code MtRequest = 0"
| "message_type_code MtData = 1"
| "message_type_code MtReject = 2"

definition message_type_from :: "byte \<Rightarrow> metadata_message_type option" where
  "message_type_from v =
    (if v = 0 then Some MtRequest else if v = 1 then Some MtData else if v = 2 then Some MtReject else None)"

record metadata_message =
  mm_type :: metadata_message_type
  mm_piece :: nat
  mm_total_size :: "nat option"
  mm_data :: "bytes option"

definition metadata_request :: "nat \<Rightarrow> metadata_message" where
  "metadata_request piece = \<lparr>mm_type = MtRequest, mm_piece = piece, mm_total_size = None, mm_data = None\<rparr>"

definition metadata_data :: "nat \<Rightarrow> nat \<Rightarrow> bytes \<Rightarrow> metadata_message" where
  "metadata_data piece total_size data =
    \<lparr>mm_type = MtData, mm_piece = piece, mm_total_size = Some total_size, mm_data = Some data\<rparr>"

definition metadata_reject :: "nat \<Rightarrow> metadata_message" where
  "metadata_reject piece = \<lparr>mm_type = MtReject, mm_piece = piece, mm_total_size = None, mm_data = None\<rparr>"

text \<open>\<open>as i64\<close> of a \<open>usize\<close>.\<close>

definition as_i64 :: "nat \<Rightarrow> int" where
  "as_i64 n = (if n < 2 ^ 63 then int n else int n - 2 ^ 64)"

definition metadata_dict :: "metadata_message \<Rightarrow> (bytes \<times> bencode) list" where
  "metadata_dict m =
    (let d = btree_insert (as_bytes ''msg_type'') (BInteger (int (message_type_code (mm_type m)))) [];
         d = btree_insert (as_bytes ''piece'') (BInteger (as_i64 (mm_piece m))) d
     in case mm_total_size m of
          Some claimed \<Rightarrow> btree_insert (as_bytes ''total_size'') (BInteger (as_i64 claimed)) d
        | None \<Rightarrow> d)"

definition metadata_encode :: "metadata_message \<Rightarrow> bytes" where
  "metadata_encode m = encode (BDict (metadata_dict m)) @ (case mm_data m of Some data \<Rightarrow> data | None \<Rightarrow> [])"

definition metadata_parse :: "bytes \<Rightarrow> metadata_message result" where
  "metadata_parse data =
    rbind (parse data) (\<lambda>(v, remaining).
    let consumed = length data - length remaining in
    rbind (ok_or (metadata_err ''Metadata message must be a dict'') (as_dict v)) (\<lambda>d.
    rbind (ok_or (metadata_err ''Invalid or missing msg_type'')
             (Option.bind (Option.bind (dget d ''msg_type'') as_uint) (\<lambda>v. message_type_from (of_nat v)))) (\<lambda>msg_type.
    rbind (ok_or (metadata_err ''Invalid or missing piece'') (Option.bind (dget d ''piece'') as_uint)) (\<lambda>piece.
    Inr \<lparr>mm_type = msg_type, mm_piece = piece,
         mm_total_size = Option.bind (dget d ''total_size'') as_uint,
         mm_data = (if msg_type = MtData \<and> consumed < length data then Some (drop consumed data) else None)\<rparr>))))"

section \<open>The fetcher\<close>

record metadata_fetcher =
  mf_info_hash :: sha1_hash
  mf_total_size :: "nat option"
  mf_pieces :: "(nat \<times> bytes) list"
  mf_pending :: "(nat \<times> int) list"
  mf_metadata :: "bytes option"

definition fetcher_new :: "sha1_hash \<Rightarrow> metadata_fetcher" where
  "fetcher_new info_hash =
    \<lparr>mf_info_hash = info_hash, mf_total_size = None, mf_pieces = [], mf_pending = [], mf_metadata = None\<rparr>"

definition fetch_complete :: "metadata_fetcher \<Rightarrow> bool" where
  "fetch_complete f \<longleftrightarrow> mf_metadata f \<noteq> None"

definition num_metadata_pieces :: "metadata_fetcher \<Rightarrow> nat option" where
  "num_metadata_pieces f = map_option (\<lambda>size. div_ceil size metadata_piece_size) (mf_total_size f)"

definition get_needed_pieces :: "int \<Rightarrow> metadata_fetcher \<Rightarrow> nat list" where
  "get_needed_pieces now f =
    (case num_metadata_pieces f of
       None \<Rightarrow> [0]
     | Some n \<Rightarrow>
         filter (\<lambda>i. map_of (mf_pieces f) i = None \<and>
             \<not> (case map_of (mf_pending f) i of Some t \<Rightarrow> nat (now - t) < 30000 | None \<Rightarrow> False))
           [0..<n])"

definition mark_requested :: "int \<Rightarrow> nat \<Rightarrow> metadata_fetcher \<Rightarrow> metadata_fetcher" where
  "mark_requested now piece f = f\<lparr>mf_pending := om_insert piece now (mf_pending f)\<rparr>"

text \<open>The pieces \<open>0..<n\<close> joined, \<open>None\<close> when one is missing.\<close>

definition assemble :: "nat \<Rightarrow> (nat \<times> bytes) list \<Rightarrow> bytes option" where
  "assemble n pieces =
    (if \<exists>i \<in> set [0..<n]. map_of pieces i = None then None
     else Some (concat (map (\<lambda>i. the (map_of pieces i)) [0..<n])))"

definition assemble_and_verify :: "(bytes \<Rightarrow> bytes) \<Rightarrow> metadata_fetcher \<Rightarrow> bool result \<times> metadata_fetcher" where
  "assemble_and_verify sha1 f =
    (case mf_total_size f of
       None \<Rightarrow> (Inr False, f)
     | Some total_size \<Rightarrow>
         (case assemble (div_ceil total_size metadata_piece_size) (mf_pieces f) of
            None \<Rightarrow> (Inr False, f)
          | Some assembled \<Rightarrow>
              (let assembled = take total_size assembled in
               if sha1 assembled \<noteq> mf_info_hash f
               then (Inr False, f\<lparr>mf_pieces := [], mf_total_size := None\<rparr>)
               else (Inr True, f\<lparr>mf_metadata := Some assembled\<rparr>))))"

definition expected_piece_size :: "nat \<Rightarrow> nat \<Rightarrow> nat" where
  "expected_piece_size total_size piece =
    (if piece < total_size div metadata_piece_size then metadata_piece_size else total_size mod metadata_piece_size)"

definition process_data ::
  "(bytes \<Rightarrow> bytes) \<Rightarrow> nat \<Rightarrow> nat \<Rightarrow> bytes \<Rightarrow> metadata_fetcher \<Rightarrow> bool result \<times> metadata_fetcher" where
  "process_data sha1 piece total_size data f =
    (if total_size = 0 \<or> max_metadata_size < total_size then
       (Inl (metadata_err (''Peer-claimed metadata size '' @ show_nat total_size @ '' outside allowed range 1..=''
          @ show_nat max_metadata_size)), f)
     else if div_ceil total_size metadata_piece_size \<le> piece then
       (Inl (metadata_err (''Metadata piece index '' @ show_nat piece @ '' out of range for size '' @ show_nat total_size)), f)
     else if length data \<noteq> expected_piece_size total_size piece \<and> expected_piece_size total_size piece \<noteq> 0 then
       (Inl (metadata_err (''Piece '' @ show_nat piece @ '' has wrong size: '' @ show_nat (length data) @ '' (expected ''
          @ show_nat (expected_piece_size total_size piece) @ '')'')), f)
     else if mf_total_size f \<noteq> None \<and> mf_total_size f \<noteq> Some total_size then
       (Inl (metadata_err (''Metadata total_size '' @ show_nat total_size @ '' conflicts with known size ''
          @ show_nat (the (mf_total_size f)))), f)
     else
       (let f = f\<lparr>mf_total_size := Some total_size, mf_pieces := om_insert piece data (mf_pieces f),
                   mf_pending := om_remove piece (mf_pending f)\<rparr> in
        if div_ceil total_size metadata_piece_size \<le> length (mf_pieces f) then assemble_and_verify sha1 f
        else (Inr False, f)))"

definition process_message ::
  "(bytes \<Rightarrow> bytes) \<Rightarrow> metadata_message \<Rightarrow> metadata_fetcher \<Rightarrow> bool result \<times> metadata_fetcher" where
  "process_message sha1 msg f =
    (case mm_type msg of
       MtRequest \<Rightarrow> (Inr False, f)
     | MtReject \<Rightarrow> (Inr False, f\<lparr>mf_pending := om_remove (mm_piece msg) (mf_pending f)\<rparr>)
     | MtData \<Rightarrow>
         (if mf_metadata f \<noteq> None then (Inr False, f)
          else
            (case mm_total_size msg of
               None \<Rightarrow> (Inl (metadata_err ''Data message missing total_size''), f)
             | Some total_size \<Rightarrow>
                 (case mm_data msg of
                    None \<Rightarrow> (Inl (metadata_err ''Data message missing piece data''), f)
                  | Some data \<Rightarrow> process_data sha1 (mm_piece msg) total_size data f))))"

text \<open>A torrent made of the info dictionary alone.\<close>

definition torrent_of_info :: "bencode \<Rightarrow> bytes" where
  "torrent_of_info info_value = encode (BDict [(as_bytes ''info'', info_value)])"

definition fetched_metainfo :: "(bytes \<Rightarrow> bytes) \<Rightarrow> metadata_fetcher \<Rightarrow> metainfo option result" where
  "fetched_metainfo sha1 f =
    (case mf_metadata f of
       None \<Rightarrow> Inr None
     | Some data \<Rightarrow>
         rbind (parse_exact data) (\<lambda>info_value.
         rbind (parse_metainfo sha1 (torrent_of_info info_value)) (\<lambda>m. Inr (Some m))))"

definition raw_torrent_bytes :: "metadata_fetcher \<Rightarrow> bytes option" where
  "raw_torrent_bytes f =
    (case mf_metadata f of
       None \<Rightarrow> None
     | Some data \<Rightarrow> (case parse_exact data of Inl _ \<Rightarrow> None | Inr v \<Rightarrow> Some (torrent_of_info v)))"

definition build_metadata_extension_handshake :: "nat option \<Rightarrow> (bytes \<times> bencode) list" where
  "build_metadata_extension_handshake metadata_size =
    (let r = [(as_bytes ''m'', BDict [(as_bytes ''ut_metadata'', BInteger (uint our_metadata_extension_id))])] in
     case metadata_size of
       Some claimed \<Rightarrow> btree_insert (as_bytes ''metadata_size'') (BInteger (as_i64 claimed)) r
     | None \<Rightarrow> r)"

definition parse_metadata_size :: "bytes \<Rightarrow> nat option" where
  "parse_metadata_size handshake =
    (case parse_exact handshake of
       Inl _ \<Rightarrow> None
     | Inr v \<Rightarrow> Option.bind (as_dict v) (\<lambda>d. Option.bind (dget d ''metadata_size'') as_uint))"

definition parse_metadata_extension_id :: "bytes \<Rightarrow> byte option" where
  "parse_metadata_extension_id handshake =
    (case parse_exact handshake of
       Inl _ \<Rightarrow> None
     | Inr v \<Rightarrow> Option.bind (as_dict v) (\<lambda>d. Option.bind (Option.bind (dget d ''m'') as_dict)
                 (\<lambda>m. map_option of_nat (Option.bind (dget m ''ut_metadata'') as_uint))))"

section \<open>Messages read back\<close>

lemma dget_insert: "dget (btree_insert k v d) key = (if as_bytes key = k then Some v else dget d key)"
proof -
  have "map_of (btree_insert k v d) = (map_of d)(k \<mapsto> v)"
    by (induction d) (auto simp: fun_eq_iff)
  then show ?thesis by (simp add: dget_def)
qed

definition message_sizes_ok :: "metadata_message \<Rightarrow> bool" where
  "message_sizes_ok m \<longleftrightarrow> mm_piece m < 2 ^ 63 \<and> (\<forall>n. mm_total_size m = Some n \<longrightarrow> n < 2 ^ 63) \<and>
    (if mm_type m = MtData then mm_data m \<noteq> Some [] else mm_data m = None)"

lemma metadata_parse_encode:
  assumes "message_sizes_ok m"
  shows "metadata_parse (metadata_encode m) = Inr m"
proof -
  let ?rest = "case mm_data m of Some data \<Rightarrow> data | None \<Rightarrow> []"
  have lt: "as_bytes ''msg_type'' < as_bytes ''piece''" "as_bytes ''piece'' < as_bytes ''total_size''"
    "as_bytes ''msg_type'' < as_bytes ''total_size''"
    by (simp_all add: byte_of_def)
  have t: "int (message_type_code k) \<le> 2" for k by (cases k) simp_all
  have "encodable (BDict (metadata_dict m))"
    using assms lt lt [THEN less_not_sym] lt [THEN less_imp_neq] t [of "mm_type m"]
    by (auto simp: metadata_dict_def Let_def encodable_def max_parse_depth_def message_sizes_ok_def
        max_string_length_def as_i64_def simp del: as_bytes_simps split: option.split)
  from parse_encode [OF this, of ?rest]
  have p: "parse (metadata_encode m) = Inr (BDict (metadata_dict m), ?rest)"
    by (simp only: metadata_encode_def)
  have c: "length (metadata_encode m) - length ?rest = length (encode (BDict (metadata_dict m)))"
    by (simp add: metadata_encode_def del: encode.simps)
  have k: "message_type_from (of_nat (message_type_code k)) = Some k" for k
    by (cases k) (simp_all add: message_type_from_def)
  have d: "dget (metadata_dict m) ''msg_type'' = Some (BInteger (int (message_type_code (mm_type m))))"
    "dget (metadata_dict m) ''piece'' = Some (BInteger (int (mm_piece m)))"
    "Option.bind (dget (metadata_dict m) ''total_size'') as_uint = mm_total_size m"
    using assms
    by (auto simp: metadata_dict_def Let_def dget_insert message_sizes_ok_def as_i64_def simp del: as_bytes_simps
        split: option.split) (simp_all add: dget_def)
  have "length (encode (BDict (metadata_dict m))) < length (metadata_encode m) \<longleftrightarrow> ?rest \<noteq> []"
    "drop (length (encode (BDict (metadata_dict m)))) (metadata_encode m) = ?rest"
    by (simp_all add: metadata_encode_def del: encode.simps)
  then show ?thesis
    unfolding metadata_parse_def p using assms
    by (auto simp: c d k Let_def message_sizes_ok_def simp del: encode.simps split: option.splits if_splits)
qed

section \<open>The pieces collected\<close>

definition fetcher_ok :: "metadata_fetcher \<Rightarrow> bool" where
  "fetcher_ok f \<longleftrightarrow> om_sorted (mf_pieces f) \<and>
    (case mf_total_size f of
       None \<Rightarrow> mf_pieces f = []
     | Some t \<Rightarrow> 0 < t \<and> t \<le> max_metadata_size \<and>
         (\<forall>(i, data) \<in> set (mf_pieces f). i < div_ceil t metadata_piece_size \<and> length data = expected_piece_size t i))"

datatype fetch_event = Asked int nat | Told metadata_message

fun fetch_step :: "(bytes \<Rightarrow> bytes) \<Rightarrow> metadata_fetcher \<Rightarrow> fetch_event \<Rightarrow> metadata_fetcher" where
  "fetch_step sha1 f (Asked now piece) = mark_requested now piece f"
| "fetch_step sha1 f (Told msg) = snd (process_message sha1 msg f)"

lemma piece_index_below: "0 < t \<Longrightarrow> i < div_ceil t metadata_piece_size \<Longrightarrow> expected_piece_size t i \<noteq> 0"
proof -
  assume t: "0 < t" and i: "i < div_ceil t metadata_piece_size"
  have "i < t div metadata_piece_size \<or> t mod metadata_piece_size \<noteq> 0"
    using i by (auto simp: div_ceil_def split: if_splits)
  then show ?thesis by (auto simp: expected_piece_size_def metadata_piece_size_def)
qed

text \<open>What a data message does: it is refused and changes nothing, or its piece is stored, and a full
  set of pieces is assembled.\<close>

lemma process_data_cases:
  assumes "process_data sha1 piece t data f = (r, f')"
  obtains e where "r = Inl e" and "f' = f"
  | f1 where "f1 = f\<lparr>mf_total_size := Some t, mf_pieces := om_insert piece data (mf_pieces f),
        mf_pending := om_remove piece (mf_pending f)\<rparr>"
    and "0 < t" and "t \<le> max_metadata_size" and "piece < div_ceil t metadata_piece_size"
    and "length data = expected_piece_size t piece" and "mf_total_size f \<in> {None, Some t}"
    and "(r, f') = (if div_ceil t metadata_piece_size \<le> length (mf_pieces f1) then assemble_and_verify sha1 f1 else (Inr False, f1))"
proof (cases "t = 0 \<or> max_metadata_size < t \<or> div_ceil t metadata_piece_size \<le> piece \<or>
    length data \<noteq> expected_piece_size t piece \<and> expected_piece_size t piece \<noteq> 0 \<or>
    mf_total_size f \<noteq> None \<and> mf_total_size f \<noteq> Some t")
  case True
  then have "\<exists>e. process_data sha1 piece t data f = (Inl e, f)"
    unfolding process_data_def by (elim disjE) simp_all
  then show ?thesis using that(1) assms by auto
next
  case False
  then show ?thesis
    using assms piece_index_below [of t piece] by (intro that(2) [OF refl]) (auto simp: process_data_def Let_def)
qed

lemma assemble_cases:
  assumes "assemble_and_verify sha1 f = (r, f')"
  obtains "f' = f" and "r = Inr False" | "f' = f\<lparr>mf_pieces := [], mf_total_size := None\<rparr>" and "r = Inr False"
  | t d where "mf_total_size f = Some t" and "assemble (div_ceil t metadata_piece_size) (mf_pieces f) = Some d"
    and "sha1 (take t d) = mf_info_hash f" and "f' = f\<lparr>mf_metadata := Some (take t d)\<rparr>" and "r = Inr True"
proof (cases "mf_total_size f")
  case None
  then show ?thesis using assms by (intro that(1)) (simp_all add: assemble_and_verify_def)
next
  case (Some t)
  note t = this
  show ?thesis
  proof (cases "assemble (div_ceil t metadata_piece_size) (mf_pieces f)")
    case None
    then show ?thesis using assms t by (intro that(1)) (simp_all add: assemble_and_verify_def)
  next
    case (Some d)
    then show ?thesis
      using assms t that(3) [OF t Some] that(2)
      by (cases "sha1 (take t d) = mf_info_hash f") (simp_all add: assemble_and_verify_def Let_def)
  qed
qed

lemma fetcher_ok_insert:
  assumes "fetcher_ok f" and "0 < t" and "t \<le> max_metadata_size" and "i < div_ceil t metadata_piece_size"
    and "length data = expected_piece_size t i" and "mf_total_size f \<in> {None, Some t}"
  shows "fetcher_ok (f\<lparr>mf_total_size := Some t, mf_pieces := om_insert i data (mf_pieces f), mf_pending := p\<rparr>)"
  using assms set_om_insert [of i data "mf_pieces f"]
  by (fastforce simp: fetcher_ok_def split: option.splits)

text \<open>What holds of a fetcher whatever its peers send.\<close>

definition fetcher_inv :: "(bytes \<Rightarrow> bytes) \<Rightarrow> sha1_hash \<Rightarrow> metadata_fetcher \<Rightarrow> bool" where
  "fetcher_inv sha1 h f \<longleftrightarrow> fetcher_ok f \<and> mf_info_hash f = h \<and>
    (\<forall>d. mf_metadata f = Some d \<longrightarrow> sha1 d = h \<and> length d \<le> max_metadata_size)"

lemma fetcher_ok_clear: "fetcher_ok (f\<lparr>mf_pieces := [], mf_total_size := None\<rparr>)"
  by (simp add: fetcher_ok_def)

lemma fetcher_ok_fields:
  "fetcher_ok (f\<lparr>mf_pending := p\<rparr>) = fetcher_ok f" "fetcher_ok (f\<lparr>mf_metadata := d\<rparr>) = fetcher_ok f"
  by (auto simp: fetcher_ok_def split: option.split)

lemma fetcher_inv_data:
  assumes "fetcher_inv sha1 h f" and "mf_metadata f = None"
  shows "fetcher_inv sha1 h (snd (process_data sha1 piece t data f))"
proof -
  obtain r f' where p: "process_data sha1 piece t data f = (r, f')" by (rule prod.exhaust)
  then have "fetcher_inv sha1 h f'"
  proof (cases rule: process_data_cases)
    case (2 f1)
    have ok: "fetcher_ok f1" using assms(1) 2 by (simp add: fetcher_inv_def fetcher_ok_insert)
    have f1: "mf_info_hash f1 = h" "mf_metadata f1 = None" "mf_total_size f1 = Some t"
      using assms 2(1) by (simp_all add: fetcher_inv_def)
    show ?thesis
    proof (cases "div_ceil t metadata_piece_size \<le> length (mf_pieces f1)")
      case True
      then have "assemble_and_verify sha1 f1 = (r, f')" using 2(7) by simp
      then show ?thesis
        by (cases rule: assemble_cases)
           (use ok f1 2(3) in \<open>auto simp: fetcher_inv_def fetcher_ok_fields fetcher_ok_clear\<close>)
    qed (use 2(7) ok f1 in \<open>simp add: fetcher_inv_def\<close>)
  qed (use assms in simp)
  then show ?thesis by (simp add: p)
qed

lemma fetcher_inv_step: "fetcher_inv sha1 h f \<Longrightarrow> fetcher_inv sha1 h (fetch_step sha1 f e)"
proof (cases e)
  case (Told msg)
  assume "fetcher_inv sha1 h f"
  then show ?thesis
    by (auto simp: Told process_message_def fetcher_inv_data split: metadata_message_type.split option.split)
       (auto simp: fetcher_inv_def fetcher_ok_fields)
qed (auto simp: fetcher_inv_def fetcher_ok_fields mark_requested_def)

lemma fetcher_inv_new: "fetcher_inv sha1 h (fetcher_new h)"
  by (simp add: fetcher_inv_def fetcher_ok_def fetcher_new_def)

interpretation metadata_fetch: guarded_system "fetch_step sha1" "\<lambda>f e. True" "fetcher_inv sha1 h" for sha1 h
  by unfold_locales (rule fetcher_inv_step)

lemmas fetch_authentic = metadata_fetch.inv_run [OF fetcher_inv_new ops_ok_True]

section \<open>Honest peers\<close>

definition metadata_slice :: "bytes \<Rightarrow> nat \<Rightarrow> bytes" where
  "metadata_slice d i = slice (i * metadata_piece_size) (Suc i * metadata_piece_size) d"

lemma concat_slices: "concat (map (metadata_slice d) [0..<n]) = slice 0 (n * metadata_piece_size) d"
proof (induction n)
  case (Suc n)
  have "slice 0 (n * metadata_piece_size) d @ slice (n * metadata_piece_size) (Suc n * metadata_piece_size) d =
      slice 0 (Suc n * metadata_piece_size) d"
    by (rule slice_join) simp_all
  then show ?case using Suc by (simp add: metadata_slice_def)
qed simp

lemma concat_all_slices: "concat (map (metadata_slice d) [0..<div_ceil (length d) metadata_piece_size]) = d"
  using div_ceil_le [of metadata_piece_size "length d"] by (simp add: concat_slices metadata_piece_size_def)

text \<open>A fetcher that has heard only of \<open>d\<close>, and has not completed it.\<close>

definition collecting :: "bytes \<Rightarrow> nat set \<Rightarrow> metadata_fetcher \<Rightarrow> bool" where
  "collecting d got f \<longleftrightarrow> mf_metadata f = None \<and> mf_total_size f \<in> {None, Some (length d)} \<and> om_sorted (mf_pieces f) \<and>
    fst ` set (mf_pieces f) = got \<and> got \<subseteq> {..<div_ceil (length d) metadata_piece_size} \<and>
    got \<noteq> {..<div_ceil (length d) metadata_piece_size} \<and>
    (\<forall>(i, b) \<in> set (mf_pieces f). b = metadata_slice d i)"

definition honest_event :: "bytes \<Rightarrow> fetch_event \<Rightarrow> bool" where
  "honest_event d e \<longleftrightarrow>
    (case e of
       Asked _ _ \<Rightarrow> True
     | Told msg \<Rightarrow> mm_type msg \<noteq> MtData \<or>
         (\<exists>i < div_ceil (length d) metadata_piece_size. msg = metadata_data i (length d) (metadata_slice d i)))"

fun delivered :: "fetch_event \<Rightarrow> nat set" where
  "delivered (Told msg) = (if mm_type msg = MtData then {mm_piece msg} else {})"
| "delivered (Asked _ _) = {}"

lemma length_metadata_slice:
  assumes "i < div_ceil (length d) metadata_piece_size"
  shows "length (metadata_slice d i) = expected_piece_size (length d) i"
proof -
  let ?k = metadata_piece_size
  have k: "0 < ?k" by (simp add: metadata_piece_size_def)
  have e: "length d = length d div ?k * ?k + length d mod ?k" by simp
  show ?thesis
  proof (cases "i < length d div ?k")
    case True
    then have "Suc i * ?k \<le> length d"
      by (metis Suc_leI div_times_less_eq_dividend le_trans mult_le_mono1)
    then show ?thesis using True by (simp add: metadata_slice_def expected_piece_size_def)
  next
    case False
    then have "i = length d div ?k" using assms by (auto simp: div_ceil_def split: if_splits)
    moreover have "length d - length d div ?k * ?k = length d mod ?k" using e by linarith
    ultimately show ?thesis using mod_less_divisor [OF k, of "length d"] by (simp add: metadata_slice_def expected_piece_size_def)
  qed
qed

lemma assemble_slices:
  assumes "fst ` set pieces = {..<div_ceil (length d) metadata_piece_size}" and "om_sorted pieces"
    and "\<forall>(i, b) \<in> set pieces. b = metadata_slice d i"
  shows "assemble (div_ceil (length d) metadata_piece_size) pieces = Some d"
proof -
  have "map_of pieces i = Some (metadata_slice d i)" if i: "i < div_ceil (length d) metadata_piece_size" for i
  proof -
    have "i \<in> fst ` set pieces" using assms(1) i by simp
    then obtain b where "(i, b) \<in> set pieces" by force
    then show ?thesis using assms(3) om_sorted_distinct [OF assms(2)] by (auto simp: map_of_is_SomeI)
  qed
  then have "assemble (div_ceil (length d) metadata_piece_size) pieces =
      Some (concat (map (metadata_slice d) [0..<div_ceil (length d) metadata_piece_size]))"
    by (auto simp: assemble_def intro!: arg_cong [where f = concat])
  then show ?thesis by (simp add: concat_all_slices)
qed

lemma honest_data_step:
  assumes "collecting d got f" and "0 < length d" and "length d \<le> max_metadata_size" and "sha1 d = mf_info_hash f"
    and "i < div_ceil (length d) metadata_piece_size"
    and "f' = snd (process_data sha1 i (length d) (metadata_slice d i) f)"
  shows "mf_info_hash f' = mf_info_hash f \<and> (mf_metadata f' = Some d \<or> collecting d (insert i got) f')"
proof -
  let ?n = "div_ceil (length d) metadata_piece_size"
  define f1 where "f1 = f\<lparr>mf_total_size := Some (length d), mf_pieces := om_insert i (metadata_slice d i) (mf_pieces f),
    mf_pending := om_remove i (mf_pending f)\<rparr>"
  have p: "process_data sha1 i (length d) (metadata_slice d i) f =
      (if ?n \<le> length (mf_pieces f1) then assemble_and_verify sha1 f1 else (Inr False, f1))"
    using assms(1-3,5) length_metadata_slice [OF assms(5)] by (auto simp: process_data_def f1_def collecting_def Let_def)
  have keys: "fst ` set (mf_pieces f1) = insert i got" and sorted: "om_sorted (mf_pieces f1)"
    and sub: "insert i got \<subseteq> {..<?n}" and slices: "\<forall>(i, b) \<in> set (mf_pieces f1). b = metadata_slice d i"
    using assms(1,5) set_om_insert [of i "metadata_slice d i" "mf_pieces f"] by (auto simp: f1_def collecting_def)
  have len: "length (mf_pieces f1) = card (insert i got)"
    using distinct_card [OF om_sorted_distinct [OF sorted]] by (simp add: keys)
  show ?thesis
  proof (cases "?n \<le> length (mf_pieces f1)")
    case True
    then have "insert i got = {..<?n}"
      using sub len card_subset_eq [of "{..<?n}" "insert i got"] card_mono [OF _ sub] by simp
    then have "assemble ?n (mf_pieces f1) = Some d"
      using keys sorted slices by (intro assemble_slices) simp_all
    moreover have "mf_total_size f1 = Some (length d)" "mf_info_hash f1 = mf_info_hash f" by (simp_all add: f1_def)
    ultimately have "assemble_and_verify sha1 f1 = (Inr True, f1\<lparr>mf_metadata := Some d\<rparr>)"
      using assms(4) by (simp add: assemble_and_verify_def)
    then show ?thesis using True by (simp add: assms(6) p f1_def)
  next
    case False
    have "insert i got \<noteq> {..<?n}"
    proof
      assume "insert i got = {..<?n}"
      with len False show False by simp
    qed
    then have "collecting d (insert i got) f1"
      using assms(1) keys sorted sub slices by (simp add: collecting_def) (simp add: f1_def)
    then show ?thesis using False by (simp add: assms(6) p) (simp add: f1_def)
  qed
qed

lemma honest_step:
  assumes "collecting d got f" and "0 < length d" and "length d \<le> max_metadata_size" and "sha1 d = mf_info_hash f"
    and "honest_event d e" and "f' = fetch_step sha1 f e"
  shows "mf_info_hash f' = mf_info_hash f \<and> (mf_metadata f' = Some d \<or> collecting d (got \<union> delivered e) f')"
proof (cases "\<exists>msg. e = Told msg \<and> mm_type msg = MtData")
  case True
  then obtain i where i: "i < div_ceil (length d) metadata_piece_size"
    and e: "e = Told (metadata_data i (length d) (metadata_slice d i))"
    using assms(5) by (auto simp: honest_event_def)
  have "mf_metadata f = None" using assms(1) by (simp add: collecting_def)
  then have "f' = snd (process_data sha1 i (length d) (metadata_slice d i) f)"
    by (simp add: assms(6) e process_message_def metadata_data_def)
  from honest_data_step [OF assms(1-4) i this] show ?thesis by (simp add: e metadata_data_def)
next
  case False
  have frame: "collecting d got (f\<lparr>mf_pending := p\<rparr>)" for p using assms(1) by (simp add: collecting_def)
  show ?thesis
  proof (cases e)
    case (Told msg)
    then have "mm_type msg \<noteq> MtData" using False by simp
    then show ?thesis
      using assms(1) frame by (cases "mm_type msg") (simp_all add: assms(6) Told process_message_def)
  qed (use frame in \<open>simp add: assms(6) mark_requested_def\<close>)
qed

lemma complete_stays: "mf_metadata f = Some d \<Longrightarrow> mf_metadata (run_ops (fetch_step sha1) f es) = Some d"
proof (induction es arbitrary: f)
  case (Cons e es)
  have "mf_metadata (fetch_step sha1 f e) = Some d"
    using Cons.prems by (cases e) (auto simp: process_message_def mark_requested_def split: metadata_message_type.split)
  then show ?case using Cons.IH by simp
qed simp

lemma honest_run:
  assumes "collecting d got f" and "0 < length d" and "length d \<le> max_metadata_size" and "sha1 d = mf_info_hash f"
    and "\<forall>e \<in> set es. honest_event d e" and "{..<div_ceil (length d) metadata_piece_size} \<subseteq> got \<union> (\<Union>e \<in> set es. delivered e)"
  shows "mf_metadata (run_ops (fetch_step sha1) f es) = Some d"
  using assms
proof (induction es arbitrary: f got)
  case Nil
  then show ?case by (auto simp: collecting_def)
next
  case (Cons e es)
  let ?f = "fetch_step sha1 f e"
  from honest_step [of d got f sha1 e ?f] Cons.prems
  have h: "mf_info_hash ?f = mf_info_hash f" and c: "mf_metadata ?f = Some d \<or> collecting d (got \<union> delivered e) ?f"
    by simp_all
  show ?case
  proof (cases "mf_metadata ?f = Some d")
    case True
    then show ?thesis using complete_stays by simp
  next
    case False
    then have "collecting d (got \<union> delivered e) ?f" using c by simp
    moreover have "{..<div_ceil (length d) metadata_piece_size} \<subseteq> got \<union> delivered e \<union> (\<Union>e \<in> set es. delivered e)"
      using Cons.prems(6) by auto
    ultimately show ?thesis using Cons.IH [of "got \<union> delivered e" ?f] Cons.prems h by simp
  qed
qed

lemma collecting_new: "0 < length d \<Longrightarrow> collecting d {} (fetcher_new h)"
proof -
  assume "0 < length d"
  then have "{..<div_ceil (length d) metadata_piece_size} \<noteq> {}"
    using div_ceil_le [of metadata_piece_size "length d"]
    by (cases "div_ceil (length d) metadata_piece_size") (auto simp: metadata_piece_size_def)
  then show ?thesis by (auto simp: collecting_def fetcher_new_def)
qed

section \<open>The torrent made of the metadata\<close>

lemma find_info_of_wrapped:
  assumes v: "encodable v"
  shows "find_info_loop (torrent_of_info v) 1 =
    (if is_dict v then Inr (encode v) else Inl (info_err (quoted ''info'' @ '' value is not a dict'')))"
proof -
  let ?k = "encode_bytes (as_bytes ''info'')" and ?e = "[byte_of CHR ''e'']"
  have data: "torrent_of_info v = byte_of CHR ''d'' # ?k @ encode v @ ?e"
    by (simp add: torrent_of_info_def)
  have hd: "hd (encode v) = byte_of CHR ''d'' \<longleftrightarrow> is_dict v"
    using parse_dict_marker [OF parse_encode [OF v, of "[]"]] by simp
  have k: "?k \<noteq> []" "?k ! 0 \<noteq> byte_of CHR ''e''"
    using encode_bytes_hd [of "as_bytes ''info''"] by auto
  have pk: "parse_bytes (?k @ encode v @ ?e) = Inr (as_bytes ''info'', encode v @ ?e)"
    by (rule parse_bytes_encode_bytes) (simp add: max_string_length_def)
  have pv: "parse (encode v @ ?e) = Inr (v, ?e)" by (rule parse_encode [OF v])
  have drop1: "drop 1 (torrent_of_info v) = ?k @ encode v @ ?e" by (simp add: data)
  have pos: "length (torrent_of_info v) - length (encode v @ ?e) = Suc (length ?k)"
    and stop: "length (torrent_of_info v) - length ?e = Suc (length ?k) + length (encode v)"
    by (simp_all add: data)
  have dropk: "drop (Suc (length ?k)) (torrent_of_info v) = encode v @ ?e" by (simp add: data)
  have nth: "torrent_of_info v ! Suc (length ?k) = byte_of CHR ''d'' \<longleftrightarrow> is_dict v"
    using hd by (simp add: data nth_append hd_conv_nth)
  have first: "torrent_of_info v ! 1 \<noteq> byte_of CHR ''e''" using k by (simp add: data nth_append)
  have inner: "1 < length (torrent_of_info v)" "Suc (length ?k) < length (torrent_of_info v)" using k by (simp_all add: data)
  show ?thesis
    unfolding find_info_loop.simps [of "torrent_of_info v" 1]
    by (simp only: drop1 pk sum.case prod.case Let_def pos dropk pv stop nth first inner if_True simp_thms) simp
qed

text \<open>The torrent file made of the metadata is parsed again, and its info hash taken of the bytes found
  in it: of the encoding of the parsed metadata, not of the metadata themselves.\<close>

lemma fetched_metainfo_Inr:
  assumes "mf_metadata f = Some d" and "fetched_metainfo sha1 f = Inr (Some m)"
  obtains v where "parse_exact d = Inr v" and "parse_info v = Inr (mi_info m)"
    and "mi_info_hash m = sha1 (encode v)"
proof -
  obtain v where v: "parse_exact d = Inr v" and m: "parse_metainfo sha1 (torrent_of_info v) = Inr m"
    using assms by (auto simp: fetched_metainfo_def rbind_Inr_iff)
  have ev: "encodable v" using v parse_encodable [of d v "[]"] by (simp add: parse_exact_iff)
  from m obtain dict v' where t: "parse_exact (torrent_of_info v) = Inr (BDict dict)"
      and v': "dget dict ''info'' = Some v'" and i: "parse_info v' = Inr (mi_info m)"
      and h: "\<And>b. find_info_dict_bytes (torrent_of_info v) = Inr b \<Longrightarrow> mi_info_hash m = sha1 b"
    by (rule parse_metainfo_Inr) blast
  have "is_dict v'" using i by (cases v') (simp_all add: parse_info_def)
  moreover have at: "map_of dict (as_bytes ''info'') = Some v'" using v' by (simp add: dget_def)
  ultimately obtain span where span: "find_info_dict_bytes (torrent_of_info v) = Inr span" "parse_exact span = Inr v'"
    using find_info_span [OF t at] by auto
  have loop: "find_info_dict_bytes (torrent_of_info v) = find_info_loop (torrent_of_info v) 1"
    using t at by (simp add: find_info_dict_bytes_def)
  have "span = encode v" using span(1) loop find_info_of_wrapped [OF ev] by (simp split: if_splits)
  moreover from this have "v' = v" using span(2) parse_encode [OF ev, of "[]"] by (simp add: parse_exact_iff)
  ultimately show thesis using that [OF v] i h [OF span(1)] by simp
qed

section \<open>Correctness\<close>


text \<open>C27. Metadata fetching completes: when peers deliver every piece of the info dictionary, in any order,
  repeatedly, and among any requests and rejections, the fetcher ends with exactly the dictionary whose
  hash the magnet link names.\<close>

theorem metadata_fetch_completes:
  assumes "sha1 d = h" and "0 < length d" and "length d \<le> max_metadata_size"
    and "\<forall>e \<in> set es. honest_event d e"
    and "{..<div_ceil (length d) metadata_piece_size} \<subseteq> (\<Union>e \<in> set es. delivered e)"
  shows "mf_metadata (run_ops (fetch_step sha1) (fetcher_new h) es) = Some d"
  using collecting_new [OF assms(2)] assms honest_run [of d "{}" "fetcher_new h"] by (simp add: fetcher_new_def)

lemma size_conflict:
  assumes "mf_metadata f = None" and "mf_total_size f = Some t" and "t \<noteq> length d" and "honest_event d e"
  shows "mf_metadata (fetch_step sha1 f e) = None \<and> mf_total_size (fetch_step sha1 f e) = Some t"
proof (cases e)
  case (Told msg)
  then show ?thesis
    using assms by (auto simp: honest_event_def process_message_def process_data_def metadata_data_def
        split: metadata_message_type.split)
qed (use assms in \<open>simp add: mark_requested_def\<close>)

lemma size_conflict_run:
  "mf_metadata f = None \<Longrightarrow> mf_total_size f = Some t \<Longrightarrow> t \<noteq> length d \<Longrightarrow> \<forall>e \<in> set es. honest_event d e \<Longrightarrow>
    mf_metadata (run_ops (fetch_step sha1) f es) = None"
proof (induction es arbitrary: f)
  case (Cons e es)
  then show ?case using size_conflict [of f t d e sha1] by simp
qed simp

text \<open>One lying peer blocks the fetch: after a single message that claims another size of more than one
  piece, every piece the honest peers send is refused, and the metadata is never completed.\<close>

theorem lying_size_blocks_fetch:
  assumes "length b = metadata_piece_size" and "metadata_piece_size < t" and "t \<le> max_metadata_size"
    and "t \<noteq> length d" and "\<forall>e \<in> set es. honest_event d e"
  shows "mf_metadata (run_ops (fetch_step sha1) (fetcher_new h) (Told (metadata_data 0 t b) # es)) = None"
proof -
  let ?f = "fetch_step sha1 (fetcher_new h) (Told (metadata_data 0 t b))"
  have k: "0 < metadata_piece_size" by (simp add: metadata_piece_size_def)
  then have "0 < t div metadata_piece_size" using assms(2) by (simp add: div_greater_zero_iff)
  moreover have "2 \<le> div_ceil t metadata_piece_size"
    using assms(2) div_ceil_le [OF k, of t] less_le_trans [of metadata_piece_size t]
    by (cases "div_ceil t metadata_piece_size" rule: nat.exhaust; cases "div_ceil t metadata_piece_size - 1") auto
  ultimately have "mf_metadata ?f = None \<and> mf_total_size ?f = Some t"
    using assms(1-3) k
    by (auto simp: process_message_def metadata_data_def process_data_def fetcher_new_def expected_piece_size_def Let_def)
  then show ?thesis using size_conflict_run [of ?f t d es] assms(4,5) by simp
qed

section \<open>Witnesses\<close>

definition demo_metadata :: bytes where
  "demo_metadata = replicate (metadata_piece_size + 3) 7"

definition demo_delivery :: "fetch_event list" where
  "demo_delivery = [Asked 0 0, Told (metadata_data 1 (length demo_metadata) (metadata_slice demo_metadata 1)),
     Told (metadata_reject 0), Told (metadata_data 0 (length demo_metadata) (metadata_slice demo_metadata 0))]"

lemma demo_pieces: "div_ceil (length demo_metadata) metadata_piece_size = 2"
  by (simp add: demo_metadata_def metadata_piece_size_def div_ceil_def)

lemma demo_delivery_honest:
  "\<forall>e \<in> set demo_delivery. honest_event demo_metadata e" "(\<Union>e \<in> set demo_delivery. delivered e) = {0, 1}"
  by (auto simp: demo_delivery_def honest_event_def demo_pieces metadata_reject_def metadata_data_def)

lemma metadata_fetch_completes_witness:
  "mf_metadata (run_ops (fetch_step (take 20)) (fetcher_new (replicate 20 7)) demo_delivery) = Some demo_metadata"
proof -
  have "{..<(2::nat)} = {0, 1}" by auto
  then show ?thesis
    using demo_delivery_honest
    by (intro metadata_fetch_completes)
       (simp_all add: demo_pieces, simp_all add: demo_metadata_def metadata_piece_size_def max_metadata_size_def)
qed


lemma lying_size_blocks_fetch_witness:
  "mf_metadata (run_ops (fetch_step (take 20)) (fetcher_new (replicate 20 7))
     (Told (metadata_data 0 (2 * metadata_piece_size) (replicate metadata_piece_size 0)) # demo_delivery)) = None"
  using demo_delivery_honest(1)
  by (intro lying_size_blocks_fetch)
     (simp_all add: demo_metadata_def metadata_piece_size_def max_metadata_size_def)

end
