(* ===== verification/Magnet.thy ===== *)
theory Magnet
  imports Metainfo Types
begin

text \<open>
  Magnet links (\<open>src/torrent/magnet.rs\<close>): parsing a URI into the info hash and its parameters, and
  writing it back. Strings are their UTF-8 bytes; a character above the ASCII range is copied
  by the decoder and escaped byte by byte by the encoder, so both work on bytes.
\<close>

section \<open>Percent encoding\<close>

definition is_hex :: "char \<Rightarrow> bool" where
  "is_hex c \<longleftrightarrow> hex_val c \<noteq> None"

text \<open>The bytes of a decoded value, before they are read as UTF-8.\<close>

fun url_decode_bytes :: "string \<Rightarrow> bytes" where
  "url_decode_bytes [] = []"
| "url_decode_bytes (c # s) =
    (if c = CHR ''%'' then
       (case s of
          a # r \<Rightarrow>
            (if is_hex a then
               (case r of
                  b # t \<Rightarrow>
                    (if is_hex b then
                       (case radix16_pair a b of
                          Some w \<Rightarrow> w # url_decode_bytes t
                        | None \<Rightarrow> [byte_of CHR ''%'', byte_of a, byte_of b] @ url_decode_bytes t)
                     else [byte_of CHR ''%'', byte_of a] @ url_decode_bytes r)
                | [] \<Rightarrow> [byte_of CHR ''%'', byte_of a])
             else byte_of CHR ''%'' # url_decode_bytes s)
        | [] \<Rightarrow> [byte_of CHR ''%''])
     else if c = CHR ''+'' then byte_of CHR '' '' # url_decode_bytes s
     else byte_of c # url_decode_bytes s)"

definition url_decode :: "string \<Rightarrow> string" where
  "url_decode s =
    (case from_utf8 (url_decode_bytes s) of
       Some t \<Rightarrow> t
     | None \<Rightarrow> from_utf8_lossy (url_decode_bytes s))"

definition unreserved :: "char \<Rightarrow> bool" where
  "unreserved c \<longleftrightarrow> (CHR ''A'' \<le> c \<and> c \<le> CHR ''Z'') \<or> (CHR ''a'' \<le> c \<and> c \<le> CHR ''z'') \<or>
    (CHR ''0'' \<le> c \<and> c \<le> CHR ''9'') \<or> c \<in> {CHR ''-'', CHR ''_'', CHR ''.'', CHR ''~''}"

definition percent_byte :: "byte \<Rightarrow> string" where
  "percent_byte b = [CHR ''%'', upper_hex_char (unat b div 16), upper_hex_char (unat b mod 16)]"

definition url_encode :: "string \<Rightarrow> string" where
  "url_encode s = concat (map (\<lambda>c. if unreserved c then [c] else percent_byte (byte_of c)) s)"

section \<open>Info hashes\<close>

definition hex_hash :: "string \<Rightarrow> sha1_hash option" where
  "hex_hash s =
    (let bytes = List.map_filter (\<lambda>i. radix16_pair (s ! (2 * i)) (s ! (2 * i + 1))) [0..<20] in
     if length bytes = 20 then Some bytes else None)"

definition upper_char :: "char \<Rightarrow> char" where
  "upper_char c = (if CHR ''a'' \<le> c \<and> c \<le> CHR ''z'' then char_of (of_char c - (32::nat)) else c)"

definition base32_alphabet :: string where
  "base32_alphabet = ''ABCDEFGHIJKLMNOPQRSTUVWXYZ234567''"

text \<open>One turn of the loop: \<open>bits\<close> holds the \<open>bit_count < 8\<close> bits not yet output (never more than 12,
  so the 64-bit arithmetic of the code is exact).\<close>

definition base32_step :: "nat \<Rightarrow> nat \<times> nat \<times> bytes \<Rightarrow> nat \<times> nat \<times> bytes" where
  "base32_step val st =
    (case st of
       (bits, bit_count, output) \<Rightarrow>
         (let bits = 32 * bits + val; bit_count = bit_count + 5 in
          if 8 \<le> bit_count
          then (bits mod 2 ^ (bit_count - 8), bit_count - 8, output @ [of_nat (bits div 2 ^ (bit_count - 8))])
          else (bits, bit_count, output)))"

fun base32_loop :: "string \<Rightarrow> nat \<times> nat \<times> bytes \<Rightarrow> bytes option" where
  "base32_loop [] st = Some (snd (snd st))"
| "base32_loop (c # s) st =
    (case position_of (\<lambda>x. x = c) base32_alphabet of
       None \<Rightarrow> None
     | Some val \<Rightarrow> base32_loop s (base32_step val st))"

definition base32_decode :: "string \<Rightarrow> sha1_hash option" where
  "base32_decode input =
    (if length input \<noteq> 32 then None
     else
       (case base32_loop (map upper_char input) (0, 0, []) of
          None \<Rightarrow> None
        | Some output \<Rightarrow> if length output = 20 then Some output else None))"

definition parse_btih :: "string \<Rightarrow> sha1_hash option" where
  "parse_btih xt =
    (case strip_prefix ''urn:btih:'' xt of
       None \<Rightarrow> None
     | Some s \<Rightarrow>
         (if \<not> is_ascii s then None
          else if length s = 40 then hex_hash s
          else if length s = 32 then base32_decode s
          else None))"

section \<open>Magnet links\<close>

record magnet_uri =
  mg_info_hash :: sha1_hash
  mg_display_name :: "string option"
  mg_trackers :: "string list"
  mg_web_seeds :: "string list"
  mg_exact_length :: "nat option"
  mg_exact_source :: "string option"
  mg_keyword_topic :: "string option"
  mg_acceptable_sources :: "string list"
  mg_manifest_topic :: "string option"
  mg_original_uri :: string

text \<open>The info hash seen so far, and the other parameters.\<close>

type_synonym magnet_params = "sha1_hash option \<times> magnet_uri"

definition magnet_param :: "string \<Rightarrow> magnet_params \<Rightarrow> magnet_params" where
  "magnet_param param st =
    (case st of
       (info_hash, m) \<Rightarrow>
         (if param = [] then (info_hash, m)
          else
            (case split_once CHR ''='' param of
               None \<Rightarrow> (info_hash, m)
             | Some (key, v) \<Rightarrow>
                 (let v = url_decode v in
                  if key = ''xt'' then (case parse_btih v of Some h \<Rightarrow> (Some h, m) | None \<Rightarrow> (info_hash, m))
                  else if key = ''dn'' then (info_hash, m\<lparr>mg_display_name := Some v\<rparr>)
                  else if key = ''tr'' \<and> v \<noteq> [] then (info_hash, m\<lparr>mg_trackers := mg_trackers m @ [v]\<rparr>)
                  else if key = ''ws'' \<and> v \<noteq> [] then (info_hash, m\<lparr>mg_web_seeds := mg_web_seeds m @ [v]\<rparr>)
                  else if key = ''xl'' then (info_hash, m\<lparr>mg_exact_length := parse_unsigned (2 ^ 64) v\<rparr>)
                  else if key = ''xs'' then (info_hash, m\<lparr>mg_exact_source := Some v\<rparr>)
                  else if key = ''kt'' then (info_hash, m\<lparr>mg_keyword_topic := Some v\<rparr>)
                  else if key = ''as'' \<and> v \<noteq> []
                  then (info_hash, m\<lparr>mg_acceptable_sources := mg_acceptable_sources m @ [v]\<rparr>)
                  else if key = ''mt'' then (info_hash, m\<lparr>mg_manifest_topic := Some v\<rparr>)
                  else (info_hash, m)))))"

definition magnet_empty :: "string \<Rightarrow> magnet_uri" where
  "magnet_empty uri =
    \<lparr>mg_info_hash = [], mg_display_name = None, mg_trackers = [], mg_web_seeds = [], mg_exact_length = None,
     mg_exact_source = None, mg_keyword_topic = None, mg_acceptable_sources = [], mg_manifest_topic = None,
     mg_original_uri = uri\<rparr>"

definition magnet_parse :: "string \<Rightarrow> magnet_uri result" where
  "magnet_parse uri =
    (if \<not> starts_with ''magnet:?'' uri then
       Inl (err_protocol InvalidMagnet (''URI must start with '' @ quoted ''magnet:?''))
     else
       (case fold magnet_param (split_char CHR ''&'' (drop 8 uri)) (None, magnet_empty uri) of
          (None, _) \<Rightarrow> Inl (err_protocol InvalidMagnet (''Missing or invalid '' @ quoted ''xt'' @ '' parameter (info hash)''))
        | (Some h, m) \<Rightarrow> Inr (m\<lparr>mg_info_hash := h\<rparr>)))"

definition magnet_hash_hex :: "magnet_uri \<Rightarrow> string" where
  "magnet_hash_hex m = concat (map hex_byte (mg_info_hash m))"

definition magnet_hash_urlencoded :: "magnet_uri \<Rightarrow> string" where
  "magnet_hash_urlencoded m = concat (map percent_byte (mg_info_hash m))"

definition magnet_name :: "magnet_uri \<Rightarrow> string" where
  "magnet_name m = (case mg_display_name m of Some n \<Rightarrow> n | None \<Rightarrow> magnet_hash_hex m)"

definition to_uri :: "magnet_uri \<Rightarrow> string" where
  "to_uri m = ''magnet:?xt=urn:btih:'' @ magnet_hash_hex m
     @ (case mg_display_name m of Some name \<Rightarrow> ''&dn='' @ url_encode name | None \<Rightarrow> [])
     @ concat (map (\<lambda>tracker. ''&tr='' @ url_encode tracker) (mg_trackers m))
     @ concat (map (\<lambda>ws. ''&ws='' @ url_encode ws) (mg_web_seeds m))
     @ (case mg_exact_length m of Some len \<Rightarrow> ''&xl='' @ show_nat len | None \<Rightarrow> [])
     @ (case mg_exact_source m of Some src \<Rightarrow> ''&xs='' @ url_encode src | None \<Rightarrow> [])"

definition has_trackers :: "magnet_uri \<Rightarrow> bool" where
  "has_trackers m \<longleftrightarrow> mg_trackers m \<noteq> []"

definition is_trackerless :: "magnet_uri \<Rightarrow> bool" where
  "is_trackerless m \<longleftrightarrow> mg_trackers m = []"

section \<open>Encoded values read back\<close>

lemma upper_hex_char: "d < 16 \<Longrightarrow> hex_val (upper_hex_char d) = Some d"
  by (erule lt16_cases) (simp_all add: hex_val_def upper_hex_char_def)

lemma upper_hex_not_plus: "d < 16 \<Longrightarrow> upper_hex_char d \<noteq> CHR ''+''"
  by (erule lt16_cases) (simp_all add: upper_hex_char_def)

lemma url_decode_percent: "url_decode_bytes (percent_byte b @ s) = b # url_decode_bytes s"
  by (simp add: percent_byte_def is_hex_def radix16_pair_def upper_hex_char upper_hex_not_plus)

lemma url_decode_plain: "unreserved c \<Longrightarrow> url_decode_bytes (c # s) = byte_of c # url_decode_bytes s"
  by (auto simp: unreserved_def less_eq_char_def)

lemma url_decode_encode_bytes: "url_decode_bytes (url_encode s) = as_bytes s"
proof (induction s)
  case (Cons c s)
  then show ?case
    by (cases "unreserved c") (simp_all add: url_encode_def url_decode_plain url_decode_percent del: url_decode_bytes.simps)
qed (simp add: url_encode_def)

definition is_str :: "string \<Rightarrow> bool" where
  "is_str s \<longleftrightarrow> utf8_valid (as_bytes s)"

lemma url_decode_encode: "is_str s \<Longrightarrow> url_decode (url_encode s) = s"
  by (simp add: url_decode_def url_decode_encode_bytes from_utf8_def is_str_def)

lemma url_encode_chars: "c \<in> set (url_encode s) \<Longrightarrow> unreserved c \<or> c = CHR ''%''"
proof -
  have "unreserved (upper_hex_char d)" if "d < 16" for d
    using that by (rule lt16_cases) (simp_all add: upper_hex_char_def unreserved_def)
  then have "\<forall>x \<in> set (percent_byte b). unreserved x \<or> x = CHR ''%''" for b
    by (simp add: percent_byte_def)
  then show "c \<in> set (url_encode s) \<Longrightarrow> unreserved c \<or> c = CHR ''%''"
    by (auto simp: url_encode_def split: if_splits)
qed

lemma url_encode_no_amp [simp]: "CHR ''&'' \<notin> set (url_encode s)"
  using url_encode_chars [of "CHR ''&''" s] by (auto simp: unreserved_def less_eq_char_def)

section \<open>Links read back\<close>

definition params_of :: "magnet_uri \<Rightarrow> string list" where
  "params_of m = (case mg_display_name m of Some name \<Rightarrow> [''dn='' @ url_encode name] | None \<Rightarrow> [])
     @ map (\<lambda>tracker. ''tr='' @ url_encode tracker) (mg_trackers m)
     @ map (\<lambda>ws. ''ws='' @ url_encode ws) (mg_web_seeds m)
     @ (case mg_exact_length m of Some len \<Rightarrow> [''xl='' @ show_nat len] | None \<Rightarrow> [])
     @ (case mg_exact_source m of Some src \<Rightarrow> [''xs='' @ url_encode src] | None \<Rightarrow> [])"

lemma to_uri_params:
  "to_uri m = ''magnet:?xt=urn:btih:'' @ magnet_hash_hex m @ concat (map ((#) CHR ''&'') (params_of m))"
  by (simp add: to_uri_def params_of_def comp_def split: option.split)

lemma split_joined:
  assumes "x \<notin> set p" and "\<forall>q \<in> set ps. x \<notin> set q"
  shows "split_char x (p @ concat (map ((#) x) ps)) = p # ps"
  using assms
proof (induction ps arbitrary: p)
  case (Cons q ps)
  have "split_char x (p @ x # (q @ concat (map ((#) x) ps))) = [p] @ (q # ps)"
    unfolding split_char_append using Cons by (simp add: split_char_absent)
  then show ?case by simp
qed (simp add: split_char_absent)

definition magnet_ok :: "magnet_uri \<Rightarrow> bool" where
  "magnet_ok m \<longleftrightarrow> length (mg_info_hash m) = 20 \<and> (\<forall>t \<in> set (mg_trackers m). t \<noteq> [] \<and> is_str t) \<and>
    (\<forall>w \<in> set (mg_web_seeds m). w \<noteq> [] \<and> is_str w) \<and> (\<forall>n. mg_exact_length m = Some n \<longrightarrow> n < 2 ^ 64) \<and>
    (\<forall>n. mg_display_name m = Some n \<longrightarrow> is_str n) \<and> (\<forall>n. mg_exact_source m = Some n \<longrightarrow> is_str n)"

lemma hex_byte_chars: "c \<in> set (hex_byte b) \<Longrightarrow> \<exists>d < 16. c = hex_char d"
proof -
  assume "c \<in> set (hex_byte b)"
  then consider "c = hex_char (unat b div 16)" | "c = hex_char (unat b mod 16)" by (auto simp: hex_byte_def)
  then show "\<exists>d < 16. c = hex_char d"
    by cases (rule exI [of _ "unat b div 16"], simp, rule exI [of _ "unat b mod 16"], simp)
qed

lemma map_filter_all: "(\<And>x. x \<in> set xs \<Longrightarrow> f x = Some (g x)) \<Longrightarrow> List.map_filter f xs = map g xs"
  by (induction xs) (simp_all add: map_filter_simps)

lemma hash_hex_chars: "c \<in> set (magnet_hash_hex m) \<Longrightarrow> \<exists>d < 16. c = hex_char d"
  by (auto simp: magnet_hash_hex_def dest: hex_byte_chars)

lemma hex_char_unreserved: "d < 16 \<Longrightarrow> unreserved (hex_char d)"
  by (erule lt16_cases) (simp_all add: hex_char_def unreserved_def)

lemma params_no_amp: "q \<in> set (params_of m) \<Longrightarrow> CHR ''&'' \<notin> set q"
  by (auto simp: params_of_def is_digit_def show_nat_non_digit split: option.splits)

lemma url_decode_unreserved: "\<forall>c \<in> set s. unreserved c \<Longrightarrow> url_decode_bytes s = as_bytes s"
  by (induction s) (simp_all add: url_decode_plain del: url_decode_bytes.simps(2))

lemma unreserved_ascii: "unreserved c \<Longrightarrow> byte_of c < 0x80"
  by (auto simp: unreserved_def less_eq_char_def byte_of_ascii_iff)

lemma url_decode_self: "\<forall>c \<in> set s. unreserved c \<or> c = CHR '':'' \<Longrightarrow> url_decode s = s"
proof -
  assume a: "\<forall>c \<in> set s. unreserved c \<or> c = CHR '':''"
  then have "url_decode_bytes s = as_bytes s"
    by (induction s) (auto simp: url_decode_plain simp del: url_decode_bytes.simps(2), auto)
  moreover have "byte_of CHR '':'' < 0x80" by (simp add: byte_of_def)
  then have "is_ascii s" unfolding is_ascii_def using a unreserved_ascii by metis
  ultimately show ?thesis by (simp add: url_decode_def)
qed

lemma parse_btih_hex: "length h = 20 \<Longrightarrow> parse_btih (''urn:btih:'' @ concat (map hex_byte h)) = Some h"
proof -
  assume h: "length h = 20"
  have len: "length (concat (map hex_byte xs)) = 2 * length xs" for xs by (induction xs) simp_all
  have nth: "concat (map hex_byte xs) ! (2 * i) = hex_char (unat (xs ! i) div 16)
      \<and> concat (map hex_byte xs) ! (2 * i + 1) = hex_char (unat (xs ! i) mod 16)" if "i < length xs" for xs i
    using that
  proof (induction xs arbitrary: i)
    case (Cons x xs)
    then show ?case by (cases i) (simp_all add: hex_byte_def)
  qed simp
  have "is_ascii (concat (map hex_byte h))"
    by (auto simp: is_ascii_def dest!: hex_byte_chars)
  moreover have "hex_hash (concat (map hex_byte h)) = Some h"
  proof -
    have "List.map_filter (\<lambda>i. radix16_pair (concat (map hex_byte h) ! (2 * i)) (concat (map hex_byte h) ! (2 * i + 1))) [0..<20]
        = map (\<lambda>i. h ! i) [0..<20]"
      using nth [of _ h] h by (intro map_filter_all) simp
    also have "\<dots> = h" using map_nth [of h] h by simp
    finally show ?thesis by (simp add: hex_hash_def h)
  qed
  ultimately show ?thesis by (simp add: parse_btih_def strip_prefix_Some len h)
qed

lemma magnet_param_simps:
  "url_decode v = v' \<Longrightarrow> magnet_param (''dn='' @ v) (h, m) = (h, m\<lparr>mg_display_name := Some v'\<rparr>)"
  "url_decode v = v' \<Longrightarrow> v' \<noteq> [] \<Longrightarrow> magnet_param (''tr='' @ v) (h, m) = (h, m\<lparr>mg_trackers := mg_trackers m @ [v']\<rparr>)"
  "url_decode v = v' \<Longrightarrow> v' \<noteq> [] \<Longrightarrow> magnet_param (''ws='' @ v) (h, m) = (h, m\<lparr>mg_web_seeds := mg_web_seeds m @ [v']\<rparr>)"
  "url_decode v = v' \<Longrightarrow> magnet_param (''xl='' @ v) (h, m) = (h, m\<lparr>mg_exact_length := parse_unsigned (2 ^ 64) v'\<rparr>)"
  "url_decode v = v' \<Longrightarrow> magnet_param (''xs='' @ v) (h, m) = (h, m\<lparr>mg_exact_source := Some v'\<rparr>)"
  "url_decode v = v' \<Longrightarrow> parse_btih v' = Some i \<Longrightarrow> magnet_param (''xt='' @ v) (h, m) = (Some i, m)"
  by (simp_all add: magnet_param_def)

lemma fold_trackers:
  assumes "\<forall>t \<in> set ts. t \<noteq> [] \<and> is_str t"
  shows "fold magnet_param (map (\<lambda>t. ''tr='' @ url_encode t) ts) (h, m) = (h, m\<lparr>mg_trackers := mg_trackers m @ ts\<rparr>)"
  using assms
proof (induction ts arbitrary: m)
  case (Cons t ts)
  then show ?case
    using magnet_param_simps(2) [OF url_decode_encode, of t h m] by simp
qed simp

lemma fold_web_seeds:
  assumes "\<forall>t \<in> set ts. t \<noteq> [] \<and> is_str t"
  shows "fold magnet_param (map (\<lambda>t. ''ws='' @ url_encode t) ts) (h, m) = (h, m\<lparr>mg_web_seeds := mg_web_seeds m @ ts\<rparr>)"
  using assms
proof (induction ts arbitrary: m)
  case (Cons t ts)
  then show ?case
    using magnet_param_simps(3) [OF url_decode_encode, of t h m] by simp
qed simp

lemma show_nat_decodes: "url_decode (show_nat n) = show_nat n"
  using show_nat_digits [of n] by (intro url_decode_self) (auto simp: unreserved_def is_digit_def)

lemma fold_name:
  assumes "\<forall>n. d = Some n \<longrightarrow> is_str n" and "mg_display_name m = None"
  shows "fold magnet_param (case d of Some name \<Rightarrow> [''dn='' @ url_encode name] | None \<Rightarrow> []) (h, m) =
    (h, m\<lparr>mg_display_name := d\<rparr>)"
proof (cases d)
  case (Some n)
  then show ?thesis using assms magnet_param_simps(1) [OF url_decode_encode, of n h m] by simp
qed (use assms in simp)

lemma fold_source:
  assumes "\<forall>n. d = Some n \<longrightarrow> is_str n" and "mg_exact_source m = None"
  shows "fold magnet_param (case d of Some src \<Rightarrow> [''xs='' @ url_encode src] | None \<Rightarrow> []) (h, m) =
    (h, m\<lparr>mg_exact_source := d\<rparr>)"
proof (cases d)
  case (Some n)
  then show ?thesis using assms magnet_param_simps(5) [OF url_decode_encode, of n h m] by simp
qed (use assms in simp)

lemma fold_length:
  assumes "\<forall>n. d = Some n \<longrightarrow> n < 2 ^ 64" and "mg_exact_length m = None"
  shows "fold magnet_param (case d of Some len \<Rightarrow> [''xl='' @ show_nat len] | None \<Rightarrow> []) (h, m) =
    (h, m\<lparr>mg_exact_length := d\<rparr>)"
proof (cases d)
  case (Some n)
  then show ?thesis using assms magnet_param_simps(4) [OF show_nat_decodes, of n h m] by simp
qed (use assms in simp)

text \<open>C28. A magnet link written by \<open>to_uri\<close> parses back to the same info hash, name, trackers, web seeds,
  length and source, in order, whatever characters they contain; the keyword topic, the acceptable
  sources and the manifest topic are not written.\<close>

theorem magnet_round_trip:
  assumes "magnet_ok m"
  shows "magnet_parse (to_uri m) = Inr (m\<lparr>mg_keyword_topic := None, mg_acceptable_sources := [],
    mg_manifest_topic := None, mg_original_uri := to_uri m\<rparr>)"
proof -
  let ?x = "''xt='' @ ''urn:btih:'' @ magnet_hash_hex m"
  let ?e = "magnet_empty (to_uri m)"
  have hash: "unreserved c" if "c \<in> set (magnet_hash_hex m)" for c
    using hash_hex_chars [OF that] hex_char_unreserved by blast
  have "\<forall>c \<in> set ''urn:btih:''. unreserved c \<or> c = CHR '':''" by (simp add: unreserved_def)
  then have "\<forall>c \<in> set (''urn:btih:'' @ magnet_hash_hex m). unreserved c \<or> c = CHR '':''"
    unfolding set_append using hash by blast
  then have d: "url_decode (''urn:btih:'' @ magnet_hash_hex m) = ''urn:btih:'' @ magnet_hash_hex m"
    by (rule url_decode_self)
  have b: "parse_btih (''urn:btih:'' @ magnet_hash_hex m) = Some (mg_info_hash m)"
    unfolding magnet_hash_hex_def using assms by (intro parse_btih_hex) (simp add: magnet_ok_def)
  have "CHR ''&'' \<notin> set ?x"
    using hash [of "CHR ''&''"] by (auto simp: unreserved_def)
  then have "split_char CHR ''&'' (drop 8 (to_uri m)) = ?x # params_of m"
    using split_joined [of "CHR ''&''" ?x "params_of m"] params_no_amp by (simp add: to_uri_params)
  moreover have "magnet_param ?x (None, ?e) = (Some (mg_info_hash m), ?e)" by (rule magnet_param_simps(6) [OF d b])
  moreover have "fold magnet_param (params_of m) (Some (mg_info_hash m), ?e) = (Some (mg_info_hash m),
      ?e\<lparr>mg_display_name := mg_display_name m, mg_trackers := mg_trackers m, mg_web_seeds := mg_web_seeds m,
         mg_exact_length := mg_exact_length m, mg_exact_source := mg_exact_source m\<rparr>)"
    using assms unfolding params_of_def magnet_ok_def fold_append comp_def
    by (simp add: fold_name fold_trackers fold_web_seeds fold_length fold_source magnet_empty_def del: append.simps)
  ultimately show ?thesis
    by (cases m) (simp add: magnet_parse_def starts_with_iff magnet_empty_def to_uri_params)
qed

definition demo_link :: magnet_uri where
  "demo_link = (magnet_empty [])\<lparr>mg_info_hash := replicate 20 0xAB, mg_display_name := Some ''a b&c=100%'',
     mg_trackers := [''http://t/a?x=1&y=2''], mg_exact_length := Some 12\<rparr>"

lemma magnet_round_trip_witness:
  "magnet_parse (to_uri demo_link) = Inr (demo_link\<lparr>mg_original_uri := to_uri demo_link\<rparr>)"
proof -
  have "magnet_ok demo_link"
    by (simp add: magnet_ok_def demo_link_def magnet_empty_def is_str_def byte_of_ascii_iff)
  from magnet_round_trip [OF this] show ?thesis by (simp add: demo_link_def magnet_empty_def)
qed

section \<open>Base 32\<close>

definition horner :: "nat \<Rightarrow> nat list \<Rightarrow> nat" where
  "horner b ds = foldl (\<lambda>a d. b * a + d) 0 ds"

lemma horner_snoc: "horner b (ds @ [d]) = b * horner b ds + d"
  by (simp add: horner_def)

definition base32_inv :: "nat list \<Rightarrow> nat \<times> nat \<times> bytes \<Rightarrow> bool" where
  "base32_inv ds st \<longleftrightarrow>
    (case st of (bits, n, out) \<Rightarrow> horner 256 (map unat out) * 2 ^ n + bits = horner 32 ds \<and> bits < 2 ^ n \<and>
       n < 8 \<and> 8 * length out + n = 5 * length ds)"

lemma base32_step_inv:
  assumes "base32_inv ds st" and "val < 32"
  shows "base32_inv (ds @ [val]) (base32_step val st)"
proof -
  obtain bits n out where st: "st = (bits, n, out)" by (cases st)
  let ?b = "32 * bits + val" and ?v = "horner 256 (map unat out)"
  have i: "?v * 2 ^ n + bits = horner 32 ds" "bits < 2 ^ n" "n < 8" "8 * length out + n = 5 * length ds"
    using assms(1) by (simp_all add: base32_inv_def st)
  have b: "?b < 2 ^ (n + 5)" using i(2) assms(2) by (simp add: power_add)
  have total: "?v * 2 ^ (n + 5) + ?b = horner 32 (ds @ [val])"
    using i(1) by (simp add: horner_snoc power_add algebra_simps flip: i(1))
  show ?thesis
  proof (cases "8 \<le> n + 5")
    case True
    define k where "k = n - 3"
    have k: "n + 5 - 8 = k" "n + 5 = k + 8" using True by (simp_all add: k_def)
    have "?b div 2 ^ k < 256" using b by (simp add: k power_add less_mult_imp_div_less mult.commute)
    then have u: "unat (of_nat (?b div 2 ^ k) :: byte) = ?b div 2 ^ k" by (simp add: unat_of_nat)
    have "(256 * ?v + ?b div 2 ^ k) * 2 ^ k + ?b mod 2 ^ k = ?v * 2 ^ (k + 8) + ?b"
      by (simp add: power_add algebra_simps)
    moreover have "base32_step val st = (?b mod 2 ^ k, k, out @ [of_nat (?b div 2 ^ k)])"
      using True unfolding base32_step_def st prod.case Let_def k(1) by simp
    moreover have "k < 8" "8 * length (out @ [of_nat (?b div 2 ^ k)]) + k = 5 * length (ds @ [val])"
      using i(3,4) True by (simp_all add: k_def)
    ultimately show ?thesis
      using total unfolding base32_inv_def by (simp add: u horner_snoc k(2))
  next
    case False
    then show ?thesis using total i b by (simp add: base32_inv_def base32_step_def st Let_def)
  qed
qed

lemma position_of_lt: "position_of P xs = Some k \<Longrightarrow> k < length xs"
  by (induction xs arbitrary: k) (auto split: if_splits)

lemma base32_loop_inv:
  assumes "base32_loop s st = Some out" and "base32_inv ds st"
  shows "\<exists>vs st'. map (\<lambda>c. position_of (\<lambda>x. x = c) base32_alphabet) s = map Some vs \<and>
    base32_inv (ds @ vs) st' \<and> out = snd (snd st')"
  using assms
proof (induction s arbitrary: st ds)
  case (Cons c s)
  then obtain v where v: "position_of (\<lambda>x. x = c) base32_alphabet = Some v"
    and l: "base32_loop s (base32_step v st) = Some out"
    by (auto split: option.splits)
  have "v < 32" using position_of_lt [OF v] by (simp add: base32_alphabet_def)
  from Cons.IH [OF l base32_step_inv [OF Cons.prems(2) this]] v show ?case
    by (metis append.assoc append_Cons append_Nil list.simps(9))
qed fastforce

text \<open>A decoded base 32 hash has twenty bytes, which as a number in base 256 are the number the
  characters write in base 32.\<close>

lemma base32_decode_value:
  assumes "base32_decode s = Some h"
  shows "length h = 20 \<and> (\<exists>vs. map (\<lambda>c. position_of (\<lambda>x. x = upper_char c) base32_alphabet) s = map Some vs \<and>
    horner 256 (map unat h) = horner 32 vs)"
proof -
  have len: "length s = 32" "length h = 20" and l: "base32_loop (map upper_char s) (0, 0, []) = Some h"
    using assms by (auto simp: base32_decode_def split: if_splits option.splits)
  have "base32_inv [] (0, 0, [])" by (simp add: base32_inv_def horner_def)
  from base32_loop_inv [OF l this] obtain vs bits n where
    vs: "map (\<lambda>c. position_of (\<lambda>x. x = c) base32_alphabet) (map upper_char s) = map Some vs"
    and i: "base32_inv vs (bits, n, h)" by auto
  have "length vs = 32" using arg_cong [OF vs, of length] len by simp
  then have n: "n = 0" using i len by (simp add: base32_inv_def)
  then have "bits = 0" using i by (simp add: base32_inv_def)
  then show ?thesis using vs i len n by (auto simp: base32_inv_def comp_def)
qed

section \<open>Reading URLs\<close>

text \<open>What a client requests of a URL, and a server reads from it: the part before the query names
  the resource; the query is what follows the first question mark; a fragment is not sent. The
  query is split into parameters.\<close>

definition url_resource :: "string \<Rightarrow> string" where
  "url_resource url = takeWhile (\<lambda>c. c \<noteq> CHR ''?'') (takeWhile (\<lambda>c. c \<noteq> CHR ''#'') url)"

definition url_query :: "string \<Rightarrow> string option" where
  "url_query url =
    (let sent = takeWhile (\<lambda>c. c \<noteq> CHR ''#'') url in
     if CHR ''?'' \<in> set sent then Some (tl (dropWhile (\<lambda>c. c \<noteq> CHR ''?'') sent)) else None)"

definition query_param :: "string \<Rightarrow> string \<times> bytes" where
  "query_param p = (takeWhile (\<lambda>c. c \<noteq> CHR ''='') p, url_decode_bytes (drop 1 (dropWhile (\<lambda>c. c \<noteq> CHR ''='') p)))"

definition query_params :: "string \<Rightarrow> (string \<times> bytes) list" where
  "query_params q = map query_param (split_char (CHR ''&'') q)"

definition url_params :: "string \<Rightarrow> (string \<times> bytes) list" where
  "url_params url = (case url_query url of None \<Rightarrow> [] | Some q \<Rightarrow> query_params q)"

text \<open>What \<open>urlencoding::encode\<close> documents: the result decodes to the bytes of the string, and holds only
  unreserved characters and percent signs.\<close>

definition url_encoder :: "(string \<Rightarrow> string) \<Rightarrow> bool" where
  "url_encoder enc \<longleftrightarrow> (\<forall>s. url_decode_bytes (enc s) = as_bytes s \<and> (\<forall>c \<in> set (enc s). unreserved c \<or> c = CHR ''%''))"

lemma url_encode_encoder: "url_encoder url_encode"
  by (simp add: url_encoder_def url_decode_encode_bytes url_encode_chars)

lemma percent_bytes_decode: "url_decode_bytes (concat (map percent_byte bs)) = bs"
  by (induction bs) (simp_all add: url_decode_percent)

lemma percent_byte_chars: "c \<in> set (percent_byte b) \<Longrightarrow> unreserved c \<or> c = CHR ''%''"
proof -
  have "unreserved (upper_hex_char d)" if "d < 16" for d
    using that by (rule lt16_cases) (simp_all add: upper_hex_char_def unreserved_def)
  moreover have "unat b div 16 < 16" using unsigned_less [of b] by simp
  ultimately show "c \<in> set (percent_byte b) \<Longrightarrow> unreserved c \<or> c = CHR ''%''" by (auto simp: percent_byte_def)
qed

lemma query_param_join: "CHR ''='' \<notin> set k \<Longrightarrow> query_param (k @ CHR ''='' # v) = (k, url_decode_bytes v)"
  by (simp add: query_param_def takeWhile_append takeWhile_tail dropWhile_append)

lemma takeWhile_absent: "x \<notin> set s \<Longrightarrow> takeWhile (\<lambda>c. c \<noteq> x) s = s"
  by (simp add: takeWhile_eq_all_conv) blast

lemma query_params_append: "query_params (q @ CHR ''&'' # r) = query_params q @ query_params r"
  by (simp add: query_params_def split_char_append)

lemma url_add_query:
  assumes "CHR ''#'' \<notin> set url" and "CHR ''#'' \<notin> set q"
  shows "url_params (url @ (if CHR ''?'' \<in> set url then ''&'' else ''?'') @ q) = url_params url @ query_params q"
    and "url_resource (url @ (if CHR ''?'' \<in> set url then ''&'' else ''?'') @ q) = url_resource url"
proof -
  let ?all = "url @ (if CHR ''?'' \<in> set url then ''&'' else ''?'') @ q"
  have sent: "takeWhile (\<lambda>c. c \<noteq> CHR ''#'') ?all = ?all" "takeWhile (\<lambda>c. c \<noteq> CHR ''#'') url = url"
    using assms by (auto intro!: takeWhile_absent)
  have "url_params ?all = url_params url @ query_params q \<and> url_resource ?all = url_resource url"
  proof (cases "CHR ''?'' \<in> set url")
    case True
    then obtain base own where u: "url = base @ CHR ''?'' # own" "CHR ''?'' \<notin> set base"
      by (meson split_list_first)
    then show ?thesis
      using sent by (simp add: url_params_def url_query_def url_resource_def
          query_params_append takeWhile_append takeWhile_absent dropWhile_append)
  next
    case False
    then show ?thesis
      using assms by (simp add: url_params_def url_query_def url_resource_def
          takeWhile_append takeWhile_absent dropWhile_append del: takeWhile_eq_all_conv)
  qed
  then show "url_params ?all = url_params url @ query_params q" "url_resource ?all = url_resource url" by simp_all
qed

end
