(* ===== verification/Lifecycle.thy ===== *)
theory Lifecycle
  imports PriorityQueue Storage Paths
begin

text \<open>
  The life of HTTP downloads in the engine (\<open>src/engine.rs\<close>): adding, pausing, resuming, cancelling and
  prioritising them, the worker task of each, and the background tasks that persist them.

  The engine is a transition system whose steps are the sections that run without waiting: a call
  of the API is a first section and, after each wait, a further one kept in \<open>en_calls\<close>; a
  worker moves through its phases; a spawned save waits in \<open>en_saves\<close>. Steps of different calls,
  workers and saves interleave in any order. A \<open>JoinHandle\<close> with its cancellation token and
  segment cell is the number of its worker. The fetch of a file is a black box that reports
  progress and then a path or an error. Storage operations succeed. Recursive jobs are not part of this model;
  a torrent that is resumed is handed to the torrent code, of which \<open>EngineApi\<close> has the beginning.
\<close>

section \<open>Options\<close>

record download_options =
  do_start_paused :: bool
  do_priority :: download_priority
  do_save_dir :: "string option"
  do_filename :: "string option"
  do_user_agent :: "string option"
  do_referer :: "string option"
  do_headers :: "(string \<times> string) list"
  do_cookies :: "string list option"
  do_checksum :: "expected_checksum option"
  do_mirrors :: "string list"
  do_max_connections :: "nat option"
  do_max_download_speed :: "nat option"
  do_max_upload_speed :: "nat option"
  do_seed_ratio :: "float_bits option"
  do_selected_files :: "nat list option"
  do_sequential :: "bool option"

definition options_new :: download_options where
  "options_new =
    \<lparr>do_start_paused = False, do_priority = download_priority.Normal, do_save_dir = None, do_filename = None,
     do_user_agent = None, do_referer = None, do_headers = [], do_cookies = None, do_checksum = None,
     do_mirrors = [], do_max_connections = None, do_max_download_speed = None, do_max_upload_speed = None,
     do_seed_ratio = None, do_selected_files = None, do_sequential = None\<rparr>"

section \<open>The state\<close>

record managed_download =
  md_status :: download_status
  md_handle :: "nat option"
  md_options :: "download_options option"
  md_cached_segments :: "segment list option"
  md_draining :: "nat option"

datatype worker_phase =
    WSpawned | WWaiting | WGranted | WStarting | WConnecting | WFetching
  | WSaving | WFailing engine_error string string | WFailed engine_error string string | WDone

record worker =
  wk_download :: download_id
  wk_priority :: download_priority
  wk_phase :: worker_phase
  wk_cancelled :: bool
  wk_segments :: "segment list option"
  wk_saved_segments :: "segment list option"

text \<open>What is left of a call after a wait: the workers it still has to drain come first.\<close>

datatype call =
    AddCall download_id download_status string download_options bool
  | PauseCall download_id "nat list" download_status "segment list option"
  | ResumeCall download_id download_options
  | StartCall download_id download_priority "segment list option" "nat list" bool
  | HandleCall download_id nat bool
  | CancelCall download_id "nat list"

datatype event =
    EvAdded download_id | EvStarted download_id | EvProgress download_id download_progress
  | EvStateChanged download_id download_state download_state | EvCompleted download_id
  | EvFailed download_id string bool | EvRemoved download_id | EvPaused download_id | EvResumed download_id

record 's engine =
  en_downloads :: "(download_id \<times> managed_download) list"
  en_workers :: "worker list"
  en_queue :: "'s priority_queue"
  en_store :: "store option"
  en_calls :: "call list"
  en_saves :: "storage_op list list"
  en_events :: "event list"
  en_shutdown :: bool

definition engine_new :: "'s semaphore_api \<Rightarrow> nat \<Rightarrow> store option \<Rightarrow> 's engine" where
  "engine_new api n storage =
    \<lparr>en_downloads = [], en_workers = [], en_queue = pq_new api n, en_store = storage,
     en_calls = [], en_saves = [], en_events = [], en_shutdown = False\<rparr>"

section \<open>Access\<close>

definition find_download :: "download_id \<Rightarrow> 's engine \<Rightarrow> managed_download option" where
  "find_download i e = map_of (en_downloads e) i"

definition set_download :: "download_id \<Rightarrow> managed_download \<Rightarrow> 's engine \<Rightarrow> 's engine" where
  "set_download i d e = e\<lparr>en_downloads := AList.update i d (en_downloads e)\<rparr>"

definition emit :: "event \<Rightarrow> 's engine \<Rightarrow> 's engine" where
  "emit ev e = e\<lparr>en_events := en_events e @ [ev]\<rparr>"

definition store_op :: "storage_op \<Rightarrow> 's engine \<Rightarrow> 's engine" where
  "store_op op e = e\<lparr>en_store := map_option (\<lambda>s. store_step s op) (en_store e)\<rparr>"

definition set_worker :: "nat \<Rightarrow> worker \<Rightarrow> 's engine \<Rightarrow> 's engine" where
  "set_worker w wk e = e\<lparr>en_workers := (en_workers e)[w := wk]\<rparr>"

definition cancel_worker :: "nat \<Rightarrow> 's engine \<Rightarrow> 's engine" where
  "cancel_worker w e =
    (if w < length (en_workers e) then set_worker w ((en_workers e ! w)\<lparr>wk_cancelled := True\<rparr>) e else e)"

definition worker_done :: "'s engine \<Rightarrow> nat \<Rightarrow> bool" where
  "worker_done e w \<longleftrightarrow> w < length (en_workers e) \<longrightarrow> wk_phase (en_workers e ! w) = WDone"

fun opt_list :: "'a option \<Rightarrow> 'a list" where
  "opt_list None = []"
| "opt_list (Some x) = [x]"

definition not_found :: "download_id \<Rightarrow> 'a result" where
  "not_found i = Inl (ENotFound (to_gid i))"

definition update_state :: "download_id \<Rightarrow> download_state \<Rightarrow> 's engine \<Rightarrow> 's engine result" where
  "update_state i new_state e =
    (case find_download i e of
       None \<Rightarrow> not_found i
     | Some d \<Rightarrow>
         Inr (emit (EvStateChanged i (ds_state (md_status d)) new_state)
               (set_download i (d\<lparr>md_status := (md_status d)\<lparr>ds_state := new_state\<rparr>\<rparr>) e)))"

section \<open>Calls\<close>

text \<open>\<open>Debug\<close> of a state, but for the escaping of the strings in an error.\<close>

fun debug_state :: "download_state \<Rightarrow> string" where
  "debug_state Queued = ''Queued''"
| "debug_state Connecting = ''Connecting''"
| "debug_state Downloading = ''Downloading''"
| "debug_state Seeding = ''Seeding''"
| "debug_state Paused = ''Paused''"
| "debug_state Completed = ''Completed''"
| "debug_state (StError k m r) =
    ''Error { kind: '' @ k @ '', message: '' @ m @ '', retryable: '' @ (if r then ''true }'' else ''false }'')"

text \<open>\<open>start_download\<close> begins by taking the previous worker and one still draining.\<close>

definition retire_http_worker :: "download_id \<Rightarrow> 's engine \<Rightarrow> 's engine \<times> nat list" where
  "retire_http_worker i e =
    (case find_download i e of
       None \<Rightarrow> (e, [])
     | Some d \<Rightarrow>
         (fold cancel_worker (opt_list (md_handle d)) (set_download i (d\<lparr>md_handle := None, md_draining := None\<rparr>) e),
          opt_list (md_handle d) @ opt_list (md_draining d)))"

definition start_download ::
  "download_id \<Rightarrow> download_priority \<Rightarrow> segment list option \<Rightarrow> bool \<Rightarrow> 's engine \<Rightarrow> 's engine \<times> call" where
  "start_download i priority saved resumed e =
    (case retire_http_worker i e of (e, ws) \<Rightarrow> (e, StartCall i priority saved ws resumed))"

text \<open>\<open>drain_http_worker\<close>: the wait ends when the worker is done, or after ten seconds, and then the
  worker is left in the slot for draining workers.\<close>

definition drained :: "download_id \<Rightarrow> nat \<Rightarrow> bool \<Rightarrow> 's engine \<Rightarrow> 's engine option" where
  "drained i w timed_out e =
    (if worker_done e w then Some e
     else if timed_out then
       Some (case find_download i e of
               Some d \<Rightarrow> set_download i (d\<lparr>md_draining := Some w\<rparr>) e
             | None \<Rightarrow> e)
     else None)"

definition start_paused_of :: "download_options \<Rightarrow> download_state" where
  "start_paused_of options = (if do_start_paused options then Paused else Queued)"

definition new_status :: "download_id \<Rightarrow> string \<Rightarrow> string \<Rightarrow> string option \<Rightarrow> download_options \<Rightarrow> timestamp \<Rightarrow> download_status" where
  "new_status i url save_dir filename options now =
    \<lparr>ds_id = i, ds_kind = KHttp, ds_state = start_paused_of options, ds_priority = do_priority options,
     ds_progress = default_progress,
     ds_metadata = \<lparr>dm_name = (case filename of Some n \<Rightarrow> n | None \<Rightarrow> ''download''), dm_url = Some url,
       dm_magnet_uri = None, dm_info_hash = None, dm_save_dir = save_dir, dm_filename = filename,
       dm_user_agent = do_user_agent options, dm_referer = do_referer options, dm_headers = do_headers options,
       dm_cookies = (case do_cookies options of Some c \<Rightarrow> c | None \<Rightarrow> []), dm_checksum = do_checksum options,
       dm_mirrors = do_mirrors options, dm_etag = None, dm_last_modified = None\<rparr>,
     ds_torrent_info = None, ds_peers = None, ds_created_at = now, ds_completed_at = None\<rparr>"

text \<open>\<open>add_http\<close> after the URL has been parsed, up to its first wait, which is for the save of the status;
  \<open>runtime\<close> is the encoded runtime metadata.\<close>

definition add_http ::
  "download_id \<Rightarrow> string \<Rightarrow> string \<Rightarrow> string option \<Rightarrow> download_options \<Rightarrow> string \<Rightarrow> timestamp \<Rightarrow> 's engine \<Rightarrow> 's engine result"
where
  "add_http i url save_dir filename options runtime now e =
    (if en_shutdown e then Inl EShutdown
     else if do_max_connections options = Some 0 then Inl (err_invalid_input ''max_connections'' ''Must be at least 1'')
     else
       rbind (validate_output_name (case filename of Some n \<Rightarrow> n | None \<Rightarrow> ''download'')) (\<lambda>_.
         let status = new_status i url save_dir filename options now;
             e = set_download i \<lparr>md_status = status, md_handle = None, md_options = Some options,
                                 md_cached_segments = None, md_draining = None\<rparr> e
         in Inr (e\<lparr>en_calls := en_calls e @ [AddCall i status runtime options False]\<rparr>)))"

text \<open>The rest of it, after that save and after the save of the runtime metadata.\<close>

definition add_saved :: "download_id \<Rightarrow> string \<Rightarrow> download_options \<Rightarrow> 's engine \<Rightarrow> 's engine \<times> call option" where
  "add_saved i runtime options e =
    (let e = emit (EvAdded i) (store_op (SaveRuntimeMetadata i runtime) e) in
     if do_start_paused options then (e, None)
     else (case start_download i (do_priority options) None False e of (e, c) \<Rightarrow> (e, Some c)))"

definition pause :: "download_id \<Rightarrow> 's engine \<Rightarrow> 's engine result" where
  "pause i e =
    (case find_download i e of
       None \<Rightarrow> not_found i
     | Some d \<Rightarrow>
         (let st = ds_state (md_status d) in
          if \<not> is_active st \<and> st \<noteq> Queued then Inl (EInvalidState ''pause'' (debug_state st))
          else
            (let segments = Option.bind (md_handle d) (\<lambda>w. wk_segments (en_workers e ! w));
                 status = (md_status d)\<lparr>ds_state := Paused\<rparr>;
                 e = fold cancel_worker (opt_list (md_handle d)) e;
                 e = set_download i (d\<lparr>md_status := status, md_handle := None, md_cached_segments := segments\<rparr>) e;
                 e = emit (EvPaused i) (emit (EvStateChanged i st Paused) e)
             in Inr (e\<lparr>en_calls := en_calls e @ [PauseCall i (opt_list (md_handle d)) status segments]\<rparr>))))"

text \<open>The options of a resumed download: the original ones, with what the engine may have changed.\<close>

definition resume_options :: "managed_download \<Rightarrow> download_options" where
  "resume_options d =
    (let m = ds_metadata (md_status d) in
     (case md_options d of Some original \<Rightarrow> original | None \<Rightarrow> options_new)
       \<lparr>do_priority := ds_priority (md_status d), do_save_dir := Some (dm_save_dir m), do_filename := dm_filename m,
        do_user_agent := dm_user_agent m, do_referer := dm_referer m, do_headers := dm_headers m,
        do_cookies := (if dm_cookies m = [] then None else Some (dm_cookies m)), do_checksum := dm_checksum m,
        do_mirrors := dm_mirrors m\<rparr>)"

text \<open>\<open>resume\<close>: the test of the state, then the choice by kind. An HTTP download must have its URL; a torrent is
  handed over.\<close>

definition can_resume :: "download_state \<Rightarrow> bool" where
  "can_resume st \<longleftrightarrow> st = Paused \<or> (\<exists>k m r. st = StError k m r)"

lemma can_resume_simps [simp, code]:
  "can_resume Paused \<longleftrightarrow> True" "can_resume (StError k m r) \<longleftrightarrow> True" "can_resume Queued \<longleftrightarrow> False"
  "can_resume Connecting \<longleftrightarrow> False" "can_resume Downloading \<longleftrightarrow> False" "can_resume Seeding \<longleftrightarrow> False"
  "can_resume Completed \<longleftrightarrow> False"
  by (simp_all add: can_resume_def)

definition resume :: "download_id \<Rightarrow> 's engine \<Rightarrow> 's engine result" where
  "resume i e =
    (if en_shutdown e then Inl EShutdown
     else
       (case find_download i e of
          None \<Rightarrow> not_found i
        | Some d \<Rightarrow>
            (let st = md_status d in
             if \<not> can_resume (ds_state st) then Inl (EInvalidState ''resume'' (debug_state (ds_state st)))
             else if ds_kind st = KHttp then
               (case dm_url (ds_metadata st) of
                  None \<Rightarrow> Inl (EInternal ''HTTP download missing URL'')
                | Some url \<Rightarrow> Inr (e\<lparr>en_calls := en_calls e @ [ResumeCall i (resume_options d)]\<rparr>))
             else Inr e)))"

text \<open>The segments a resumed download starts from: those stored, or else those cached.\<close>

definition load_saved_segments :: "download_id \<Rightarrow> 's engine \<Rightarrow> segment list option \<times> 's engine" where
  "load_saved_segments i e =
    (case en_store e of
       Some s \<Rightarrow>
         if se_segments (fst s i) \<noteq> [] then (Some (se_segments (fst s i)), e)
         else (case find_download i e of
                 Some d \<Rightarrow> (md_cached_segments d, set_download i (d\<lparr>md_cached_segments := None\<rparr>) e)
               | None \<Rightarrow> (None, e))
     | None \<Rightarrow>
         (case find_download i e of
            Some d \<Rightarrow> (md_cached_segments d, set_download i (d\<lparr>md_cached_segments := None\<rparr>) e)
          | None \<Rightarrow> (None, e)))"

text \<open>What \<open>cancel\<close> may delete: the path below the save directory, whether it is a torrent, and whether
  it had completed.\<close>

definition cancel_target :: "bool \<Rightarrow> download_status \<Rightarrow> (string \<times> bool \<times> bool) option" where
  "cancel_target delete_files st =
    (if \<not> delete_files then None
     else
       (let is_torrent = ds_kind st \<noteq> KHttp;
            name = (if is_torrent then dm_filename (ds_metadata st)
                    else Some (case dm_filename (ds_metadata st) of Some n \<Rightarrow> n | None \<Rightarrow> ''download''))
        in case name of
             None \<Rightarrow> None
           | Some n \<Rightarrow> (case validate_output_name n of
                          Inl _ \<Rightarrow> None
                        | Inr _ \<Rightarrow> Some (n, is_torrent, ds_state st = Completed))))"

text \<open>The files removed for a target, given what exists.\<close>

datatype removal = RemoveTree string | RemoveFile string

definition cancel_removals :: "(string \<Rightarrow> string) \<Rightarrow> (string \<Rightarrow> bool) \<Rightarrow> (string \<Rightarrow> bool) \<Rightarrow> string \<times> bool \<times> bool \<Rightarrow> removal list" where
  "cancel_removals partial_path is_file is_directory target =
    (case target of
       (path, is_torrent, completed) \<Rightarrow>
         if is_torrent then
           (if is_directory path then [RemoveTree path] else if is_file path then [RemoveFile path] else [])
         else
           (if completed \<and> is_file path then [RemoveFile path] else []) @
           (if is_file (partial_path path) then [RemoveFile (partial_path path)] else []))"

definition cancel :: "download_id \<Rightarrow> 's engine \<Rightarrow> 's engine result" where
  "cancel i e =
    (case find_download i e of
       None \<Rightarrow> not_found i
     | Some d \<Rightarrow>
         (let ws = opt_list (md_handle d);
              e = fold cancel_worker ws (e\<lparr>en_downloads := AList.delete i (en_downloads e)\<rparr>)
          in Inr (e\<lparr>en_calls := en_calls e @ [CancelCall i (ws @ opt_list (md_draining d))]\<rparr>)))"

definition eng_set_priority :: "download_id \<Rightarrow> download_priority \<Rightarrow> 's engine \<Rightarrow> 's engine result" where
  "eng_set_priority i p e =
    (case find_download i e of
       None \<Rightarrow> not_found i
     | Some d \<Rightarrow>
         (let status = (md_status d)\<lparr>ds_priority := p\<rparr>;
              e = set_download i (d\<lparr>md_status := status\<rparr>) e;
              e = e\<lparr>en_queue := fst (set_priority i p (en_queue e))\<rparr>
          in Inr (if en_store e = None then e else e\<lparr>en_saves := en_saves e @ [[SaveDownload status]]\<rparr>)))"

text \<open>\<open>persist_active_downloads\<close>: a snapshot, saved afterwards.\<close>

definition persist_active_downloads :: "'s engine \<Rightarrow> 's engine" where
  "persist_active_downloads e =
    (if en_store e = None then e
     else e\<lparr>en_saves := en_saves e @
       [concat (map (\<lambda>(i, d).
          SaveDownload (md_status d) #
          (case Option.bind (md_handle d) (\<lambda>w. wk_segments (en_workers e ! w)) of
             Some segments \<Rightarrow> [SaveSegments (ds_id (md_status d)) segments]
           | None \<Rightarrow> []))
        (filter (\<lambda>(i, d). is_active (ds_state (md_status d))) (en_downloads e)))]\<rparr>)"

text \<open>\<open>shutdown\<close>, after its save of a snapshot. It then waits for the workers, at most five seconds each,
  and changes nothing more.\<close>

definition shutdown :: "'s engine \<Rightarrow> 's engine" where
  "shutdown e =
    fold cancel_worker (concat (map (\<lambda>(i, d). opt_list (md_handle d)) (en_downloads e)))
      (e\<lparr>en_shutdown := True, en_downloads := map (\<lambda>(i, d). (i, d\<lparr>md_handle := None\<rparr>)) (en_downloads e)\<rparr>)"

section \<open>Workers\<close>

datatype worker_event =
    Poll | SeeCancel | Go | Report download_progress "segment list option" "string option" "string option" | FetchOk "string option" timestamp
  | FetchErr engine_error string string

definition set_phase :: "nat \<Rightarrow> worker_phase \<Rightarrow> 's engine \<Rightarrow> 's engine" where
  "set_phase w ph e = set_worker w ((en_workers e ! w)\<lparr>wk_phase := ph\<rparr>) e"

text \<open>A worker that holds a permit ends: the permit is released.\<close>

definition finish :: "'s semaphore_api \<Rightarrow> nat \<Rightarrow> 's engine \<Rightarrow> 's engine" where
  "finish api w e =
    (let e = set_phase w WDone e
     in e\<lparr>en_queue := permit_drop api (wk_download (en_workers e ! w)) (en_queue e)\<rparr>)"

text \<open>One that was cancelled while it waited for a permit.\<close>

definition leave_queue :: "nat \<Rightarrow> 's engine \<Rightarrow> 's engine" where
  "leave_queue w e =
    (let e = set_phase w WDone e in e\<lparr>en_queue := pq_remove (wk_download (en_workers e ! w)) (en_queue e)\<rparr>)"

definition report ::
  "nat \<Rightarrow> download_progress \<Rightarrow> segment list option \<Rightarrow> string option \<Rightarrow> string option \<Rightarrow> 's engine \<Rightarrow> 's engine"
where
  "report w p segments etag modified e =
    (let wk = en_workers e ! w; i = wk_download wk; e = set_worker w (wk\<lparr>wk_segments := segments\<rparr>) e
     in emit (EvProgress i p)
          (case find_download i e of
             Some d \<Rightarrow>
               set_download i (d\<lparr>md_status := (md_status d)\<lparr>ds_progress := p,
                 ds_metadata := (ds_metadata (md_status d))\<lparr>dm_etag := etag, dm_last_modified := modified\<rparr>\<rparr>\<rparr>) e
           | None \<Rightarrow> e))"

text \<open>The fetch succeeded: the download completes unless it was paused or removed meanwhile.\<close>

definition fetch_ok :: "'s semaphore_api \<Rightarrow> nat \<Rightarrow> string option \<Rightarrow> timestamp \<Rightarrow> 's engine \<Rightarrow> 's engine" where
  "fetch_ok api w filename now e =
    (let i = wk_download (en_workers e ! w) in
     case find_download i e of
       None \<Rightarrow> finish api w e
     | Some d \<Rightarrow>
         (if ds_state (md_status d) = Paused then finish api w e
          else
            (let st = md_status d;
                 st = st\<lparr>ds_state := Completed, ds_completed_at := Some now,
                         ds_metadata := (ds_metadata st)\<lparr>dm_filename := filename\<rparr>\<rparr>
             in set_phase w WSaving (set_download i (d\<lparr>md_status := st\<rparr>) e))))"

definition save_completed :: "'s semaphore_api \<Rightarrow> nat \<Rightarrow> 's engine \<Rightarrow> 's engine" where
  "save_completed api w e =
    (let i = wk_download (en_workers e ! w);
         e = (case find_download i e of Some d \<Rightarrow> store_op (SaveDownload (md_status d)) e | None \<Rightarrow> e)
     in finish api w (emit (EvCompleted i) (store_op (DeleteSegments i) e)))"

text \<open>The fetch failed and the worker has not seen a cancellation: its segments are kept, then the
  error becomes the state.\<close>

definition keep_segments :: "nat \<Rightarrow> worker_phase \<Rightarrow> 's engine \<Rightarrow> 's engine" where
  "keep_segments w ph e =
    (let wk = en_workers e ! w; i = wk_download wk in
     set_phase w ph
       (case wk_segments wk of
          None \<Rightarrow> e
        | Some segments \<Rightarrow>
            store_op (SaveSegments i segments)
              (case find_download i e of
                 Some d \<Rightarrow> set_download i (d\<lparr>md_cached_segments := Some segments\<rparr>) e
               | None \<Rightarrow> e)))"

definition save_error :: "'s semaphore_api \<Rightarrow> nat \<Rightarrow> engine_error \<Rightarrow> string \<Rightarrow> string \<Rightarrow> 's engine \<Rightarrow> 's engine" where
  "save_error api w err kind message e =
    (let i = wk_download (en_workers e ! w) in
     case update_state i (StError kind message (is_retryable err)) e of
       Inl _ \<Rightarrow> finish api w e
     | Inr e \<Rightarrow>
         (let e = (case find_download i e of Some d \<Rightarrow> store_op (SaveDownload (md_status d)) e | None \<Rightarrow> e)
          in finish api w (emit (EvFailed i message (is_retryable err)) e)))"

text \<open>A step of worker \<open>w\<close>; \<open>None\<close> when it cannot do this now.\<close>

definition worker_step :: "'s semaphore_api \<Rightarrow> nat \<Rightarrow> worker_event \<Rightarrow> 's engine \<Rightarrow> 's engine option" where
  "worker_step api w ev e =
    (if length (en_workers e) \<le> w then None
     else
       (let wk = en_workers e ! w; i = wk_download wk in
        case (wk_phase wk, ev) of
          (WSpawned, Poll) \<Rightarrow> Some (set_phase w WWaiting (e\<lparr>en_queue := acquire_enqueue i (wk_priority wk) (en_queue e)\<rparr>))
        | (WSpawned, SeeCancel) \<Rightarrow> if wk_cancelled wk then Some (leave_queue w e) else None
        | (WWaiting, Poll) \<Rightarrow>
            map_option (\<lambda>q. set_phase w WGranted (e\<lparr>en_queue := q\<rparr>)) (acquire_poll api i (wk_priority wk) (en_queue e))
        | (WWaiting, SeeCancel) \<Rightarrow> if wk_cancelled wk then Some (leave_queue w e) else None
        | (WGranted, Go) \<Rightarrow> Some (if wk_cancelled wk then finish api w e else set_phase w WStarting e)
        | (WStarting, Go) \<Rightarrow>
            Some (case update_state i Connecting e of Inl _ \<Rightarrow> finish api w e | Inr e \<Rightarrow> set_phase w WConnecting e)
        | (WConnecting, Go) \<Rightarrow>
            Some (case update_state i Downloading e of
                    Inl _ \<Rightarrow> finish api w e
                  | Inr e \<Rightarrow> set_phase w WFetching (emit (EvStarted i) e))
        | (WFetching, Report p segments etag modified) \<Rightarrow> Some (report w p segments etag modified e)
        | (WFetching, FetchOk filename now) \<Rightarrow> Some (fetch_ok api w filename now e)
        | (WFetching, FetchErr err kind message) \<Rightarrow>
            Some (if wk_cancelled wk then finish api w e else set_phase w (WFailing err kind message) e)
        | (WSaving, Go) \<Rightarrow> Some (save_completed api w e)
        | (WFailing err kind message, Go) \<Rightarrow> Some (keep_segments w (WFailed err kind message) e)
        | (WFailed err kind message, Go) \<Rightarrow> Some (save_error api w err kind message e)
        | _ \<Rightarrow> None))"

section \<open>The transition system\<close>

datatype action =
    AddHttp download_id string string "string option" download_options string timestamp
  | Pause download_id | Resume download_id | Cancel download_id | SetPriority download_id download_priority
  | SetConfig nat | PersistActive | Shutdown
  | Proceed nat bool | Work nat worker_event | SaveNext nat

definition put_call :: "nat \<Rightarrow> call \<Rightarrow> 's engine \<Rightarrow> 's engine" where
  "put_call k c e = e\<lparr>en_calls := (en_calls e)[k := c]\<rparr>"

definition end_call :: "nat \<Rightarrow> 's engine \<Rightarrow> 's engine" where
  "end_call k e = e\<lparr>en_calls := take k (en_calls e) @ drop (Suc k) (en_calls e)\<rparr>"

definition spawn_worker :: "download_id \<Rightarrow> download_priority \<Rightarrow> segment list option \<Rightarrow> 's engine \<Rightarrow> 's engine" where
  "spawn_worker i p saved e =
    e\<lparr>en_workers := en_workers e @ [\<lparr>wk_download = i, wk_priority = p, wk_phase = WSpawned, wk_cancelled = False,
        wk_segments = None, wk_saved_segments = saved\<rparr>]\<rparr>"

definition store_handle :: "download_id \<Rightarrow> nat \<Rightarrow> 's engine \<Rightarrow> 's engine" where
  "store_handle i w e =
    (case find_download i e of
       Some d \<Rightarrow> set_download i (d\<lparr>md_handle := Some w\<rparr>) e
     | None \<Rightarrow> e)"

text \<open>The sections that follow the waits of the calls.\<close>

definition pause_save :: "download_id \<Rightarrow> download_status \<Rightarrow> segment list option \<Rightarrow> 's engine \<Rightarrow> 's engine" where
  "pause_save i st segs e =
    (case segs of
       Some segments \<Rightarrow> store_op (SaveSegments i segments) (store_op (SaveDownload st) e)
     | None \<Rightarrow> store_op (SaveDownload st) e)"

definition resume_start :: "download_id \<Rightarrow> download_options \<Rightarrow> 's engine \<Rightarrow> 's engine \<times> call" where
  "resume_start i options e =
    (case load_saved_segments i e of
       (saved, e) \<Rightarrow> start_download i (do_priority options) saved True e)"

definition start_worker :: "download_id \<Rightarrow> download_priority \<Rightarrow> segment list option \<Rightarrow> 's engine \<Rightarrow> 's engine result" where
  "start_worker i p saved e = rbind (update_state i Queued e) (\<lambda>e. Inr (spawn_worker i p saved e))"

definition started :: "download_id \<Rightarrow> nat \<Rightarrow> bool \<Rightarrow> 's engine \<Rightarrow> 's engine" where
  "started i w resumed e = (if resumed then emit (EvResumed i) else id) (store_handle i w e)"

definition cancel_finish :: "download_id \<Rightarrow> 's engine \<Rightarrow> 's engine" where
  "cancel_finish i e =
    (let e = e\<lparr>en_queue := pq_remove i (en_queue e)\<rparr>;
         e = store_op (DeleteDownload i) (store_op (DeleteSegments i) e)
     in emit (EvRemoved i) e)"

definition proceed :: "nat \<Rightarrow> bool \<Rightarrow> 's engine \<Rightarrow> 's engine option" where
  "proceed k timed_out e =
    (if length (en_calls e) \<le> k then None
     else
       (case en_calls e ! k of
          AddCall i st runtime options False \<Rightarrow>
            Some (put_call k (AddCall i st runtime options True) (store_op (SaveDownload st) e))
        | AddCall i st runtime options True \<Rightarrow>
            (case add_saved i runtime options e of
               (e, None) \<Rightarrow> Some (end_call k e)
             | (e, Some c) \<Rightarrow> Some (put_call k c e))
        | PauseCall i (w # ws) st segs \<Rightarrow> map_option (put_call k (PauseCall i ws st segs)) (drained i w timed_out e)
        | PauseCall i [] st segs \<Rightarrow> Some (end_call k (pause_save i st segs e))
        | ResumeCall i options \<Rightarrow> (case resume_start i options e of (e, c) \<Rightarrow> Some (put_call k c e))
        | StartCall i p saved (w # ws) resumed \<Rightarrow>
            map_option (put_call k (StartCall i p saved ws resumed)) (drained i w timed_out e)
        | StartCall i p saved [] resumed \<Rightarrow>
            (case start_worker i p saved e of
               Inl _ \<Rightarrow> Some (end_call k e)
             | Inr e' \<Rightarrow> Some (put_call k (HandleCall i (length (en_workers e)) resumed) e'))
        | HandleCall i w resumed \<Rightarrow> Some (end_call k (started i w resumed e))
        | CancelCall i (w # ws) \<Rightarrow> map_option (put_call k (CancelCall i ws)) (drained i w timed_out e)
        | CancelCall i [] \<Rightarrow> Some (end_call k (cancel_finish i e))))"

lemmas proceed_defs = proceed_def add_saved_def start_download_def pause_save_def resume_start_def start_worker_def started_def cancel_finish_def

definition save_next :: "nat \<Rightarrow> 's engine \<Rightarrow> 's engine option" where
  "save_next k e =
    (if length (en_saves e) \<le> k then None
     else (case en_saves e ! k of
             [] \<Rightarrow> None
           | op # ops \<Rightarrow> Some (store_op op (e\<lparr>en_saves := (en_saves e)[k := ops]\<rparr>))))"

text \<open>The state after a call, which an error leaves unchanged.\<close>

fun after :: "'s engine \<Rightarrow> 's engine result \<Rightarrow> 's engine" where
  "after e (Inl _) = e"
| "after e (Inr e') = e'"

fun engine_step :: "'s semaphore_api \<Rightarrow> action \<Rightarrow> 's engine \<Rightarrow> 's engine option" where
  "engine_step api (AddHttp i url dir filename options runtime now) e =
    Some (after e (add_http i url dir filename options runtime now e))"
| "engine_step api (Pause i) e = Some (after e (pause i e))"
| "engine_step api (Resume i) e = Some (after e (resume i e))"
| "engine_step api (Cancel i) e = Some (after e (cancel i e))"
| "engine_step api (SetPriority i p) e = Some (after e (eng_set_priority i p e))"
| "engine_step api (SetConfig n) e = Some (e\<lparr>en_queue := set_max_concurrent api n (en_queue e)\<rparr>)"
| "engine_step api PersistActive e = Some (persist_active_downloads e)"
| "engine_step api Shutdown e = Some (shutdown e)"
| "engine_step api (Proceed k timed_out) e = proceed k timed_out e"
| "engine_step api (Work w ev) e = worker_step api w ev e"
| "engine_step api (SaveNext k) e = save_next k e"

fun call_id :: "call \<Rightarrow> download_id" where
  "call_id (AddCall i _ _ _ _) = i"
| "call_id (PauseCall i _ _ _) = i"
| "call_id (ResumeCall i _) = i"
| "call_id (StartCall i _ _ _ _) = i"
| "call_id (HandleCall i _ _) = i"
| "call_id (CancelCall i _) = i"

text \<open>Identifiers of new downloads are random, so they are new to the engine.\<close>

definition fresh_id :: "download_id \<Rightarrow> 's engine \<Rightarrow> bool" where
  "fresh_id i e \<longleftrightarrow> find_download i e = None \<and> i \<notin> call_id ` set (en_calls e) \<and> i \<notin> wk_download ` set (en_workers e)"

fun possible :: "action \<Rightarrow> 's engine \<Rightarrow> bool" where
  "possible (AddHttp i _ _ _ _ _ _) e \<longleftrightarrow> fresh_id i e"
| "possible _ e \<longleftrightarrow> True"

text \<open>An orderly client starts a call on a download when none is under way on it, and no worker takes
  longer to stop than the engine waits. Its runs end before the shutdown.\<close>

fun orderly :: "action \<Rightarrow> 's engine \<Rightarrow> bool" where
  "orderly (AddHttp i _ _ _ _ _ _) e \<longleftrightarrow> fresh_id i e"
| "orderly (Pause i) e \<longleftrightarrow> i \<notin> call_id ` set (en_calls e)"
| "orderly (Resume i) e \<longleftrightarrow> i \<notin> call_id ` set (en_calls e)"
| "orderly (Cancel i) e \<longleftrightarrow> i \<notin> call_id ` set (en_calls e)"
| "orderly Shutdown e \<longleftrightarrow> False"
| "orderly (Proceed k timed_out) e \<longleftrightarrow> \<not> timed_out"
| "orderly _ e \<longleftrightarrow> True"

text \<open>Runs of actions that satisfy a condition, and the states they reach.\<close>

fun engine_run ::
  "'s semaphore_api \<Rightarrow> (action \<Rightarrow> 's engine \<Rightarrow> bool) \<Rightarrow> action list \<Rightarrow> 's engine \<Rightarrow> 's engine option"
where
  "engine_run api ok [] e = Some e"
| "engine_run api ok (a # as) e =
    (if ok a e then Option.bind (engine_step api a e) (engine_run api ok as) else None)"

inductive reachable_engine ::
  "'s semaphore_api \<Rightarrow> (action \<Rightarrow> 's engine \<Rightarrow> bool) \<Rightarrow> nat \<Rightarrow> store option \<Rightarrow> 's engine \<Rightarrow> bool"
  for api ok n storage
where
  start: "reachable_engine api ok n storage (engine_new api n storage)"
| step: "reachable_engine api ok n storage e \<Longrightarrow> ok a e \<Longrightarrow> engine_step api a e = Some e' \<Longrightarrow>
    reachable_engine api ok n storage e'"

lemma reachable_run:
  "reachable_engine api ok n storage e \<Longrightarrow> engine_run api ok as e = Some e' \<Longrightarrow> reachable_engine api ok n storage e'"
  by (induction as arbitrary: e) (auto split: if_splits bind_splits intro: reachable_engine.step)

section \<open>Frames\<close>

definition handle_of :: "download_id \<Rightarrow> 's engine \<Rightarrow> nat list" where
  "handle_of i e = (case find_download i e of Some d \<Rightarrow> opt_list (md_handle d) | None \<Rightarrow> [])"

definition draining_of :: "download_id \<Rightarrow> 's engine \<Rightarrow> nat list" where
  "draining_of i e = (case find_download i e of Some d \<Rightarrow> opt_list (md_draining d) | None \<Rightarrow> [])"

text \<open>The same handles, calls and workers; workers may only have ended.\<close>

definition same_control :: "'s engine \<Rightarrow> 's engine \<Rightarrow> bool" where
  "same_control e e' \<longleftrightarrow> en_calls e' = en_calls e \<and> (\<forall>i. handle_of i e' = handle_of i e) \<and>
    (\<forall>i. draining_of i e' = draining_of i e) \<and> (\<forall>i. find_download i e = None \<longleftrightarrow> find_download i e' = None) \<and>
    map wk_download (en_workers e') = map wk_download (en_workers e) \<and>
    (\<forall>w. worker_done e w \<longrightarrow> worker_done e' w)"

lemma same_control_refl [simp]: "same_control e e"
  by (simp add: same_control_def)

lemma same_control_trans [trans]: "same_control e e' \<Longrightarrow> same_control e' e'' \<Longrightarrow> same_control e e''"
  by (simp add: same_control_def)

lemma same_control_fields [simp]:
  "same_control e (e'\<lparr>en_queue := q\<rparr>) \<longleftrightarrow> same_control e e'"
  "same_control e (e'\<lparr>en_saves := sv\<rparr>) \<longleftrightarrow> same_control e e'"
  "same_control e (e'\<lparr>en_shutdown := b\<rparr>) \<longleftrightarrow> same_control e e'"
  "same_control e (emit ev e') \<longleftrightarrow> same_control e e'"
  "same_control e (store_op op e') \<longleftrightarrow> same_control e e'"
  by (simp_all add: same_control_def handle_of_def draining_of_def find_download_def worker_done_def emit_def store_op_def)

lemma find_set_download [simp]:
  "find_download j (set_download i d e) = (if j = i then Some d else find_download j e)"
  by (simp add: find_download_def set_download_def update_conv')

lemma set_download_fields [simp]:
  "en_calls (set_download i d e) = en_calls e" "en_workers (set_download i d e) = en_workers e"
  "en_queue (set_download i d e) = en_queue e" "en_store (set_download i d e) = en_store e"
  "en_saves (set_download i d e) = en_saves e" "en_shutdown (set_download i d e) = en_shutdown e"
  by (simp_all add: set_download_def)

lemma same_control_set_download:
  assumes "find_download i e = Some d" and "md_handle d' = md_handle d" and "md_draining d' = md_draining d"
  shows "same_control e (set_download i d' e)"
  using assms by (auto simp: same_control_def handle_of_def draining_of_def worker_done_def)

lemma set_worker_fields [simp]:
  "en_calls (set_worker w wk e) = en_calls e" "find_download i (set_worker w wk e) = find_download i e"
  "en_workers (set_worker w wk e) = (en_workers e)[w := wk]" "en_queue (set_worker w wk e) = en_queue e"
  "en_store (set_worker w wk e) = en_store e" "en_saves (set_worker w wk e) = en_saves e"
  by (simp_all add: set_worker_def find_download_def)

lemma same_control_set_worker:
  assumes "wk_download wk = wk_download (en_workers e ! w)" and "wk_phase (en_workers e ! w) = WDone \<Longrightarrow> wk_phase wk = WDone"
  shows "same_control e (set_worker w wk e)"
proof -
  have "map wk_download ((en_workers e)[w := wk]) = map wk_download (en_workers e)"
    using assms(1) by (cases "w < length (en_workers e)") (simp_all add: map_update list_update_same_conv list_update_beyond)
  then show ?thesis
    using assms(2) by (auto simp: same_control_def handle_of_def draining_of_def worker_done_def)
      (metis nth_list_update nth_list_update_neq)
qed

lemma same_control_set_phase:
  "wk_phase (en_workers e ! w) \<noteq> WDone \<or> ph = WDone \<Longrightarrow> same_control e (set_phase w ph e)"
  unfolding set_phase_def by (rule same_control_set_worker) auto

lemma same_control_finish [simp]: "same_control e (finish api w e)" "same_control e (leave_queue w e)"
  by (simp_all add: finish_def leave_queue_def Let_def same_control_set_phase)

lemma same_control_update_state: "update_state i st e = Inr e' \<Longrightarrow> same_control e e' \<and> en_workers e' = en_workers e"
  by (auto simp: update_state_def not_found_def split: option.splits intro!: same_control_set_download) (simp add: emit_def)

lemma emit_fields [simp]:
  "en_calls (emit ev e) = en_calls e" "find_download i (emit ev e) = find_download i e"
  "en_workers (emit ev e) = en_workers e" "en_queue (emit ev e) = en_queue e" "en_store (emit ev e) = en_store e"
  by (simp_all add: emit_def find_download_def)

lemma store_op_fields [simp]:
  "en_calls (store_op op e) = en_calls e" "find_download i (store_op op e) = find_download i e"
  "en_workers (store_op op e) = en_workers e" "en_queue (store_op op e) = en_queue e"
  by (simp_all add: store_op_def find_download_def)

lemma find_download_fields [simp]:
  "find_download i (e\<lparr>en_queue := q\<rparr>) = find_download i e" "find_download i (e\<lparr>en_calls := cs\<rparr>) = find_download i e"
  "find_download i (e\<lparr>en_saves := sv\<rparr>) = find_download i e" "find_download i (e\<lparr>en_workers := ws\<rparr>) = find_download i e"
  by (simp_all add: find_download_def)

lemma same_control_report: "same_control e (report w p segs etag modified e)"
proof -
  have "same_control e (set_worker w ((en_workers e ! w)\<lparr>wk_segments := segs\<rparr>) e)"
    by (rule same_control_set_worker) simp_all
  also have "same_control \<dots> (report w p segs etag modified e)"
    by (auto simp: report_def Let_def split: option.split intro!: same_control_set_download)
  finally show ?thesis .
qed

lemma same_control_fetch_ok:
  assumes "wk_phase (en_workers e ! w) \<noteq> WDone"
  shows "same_control e (fetch_ok api w filename now e)"
proof (cases "find_download (wk_download (en_workers e ! w)) e")
  case (Some d)
  let ?st = "md_status d" and ?i = "wk_download (en_workers e ! w)"
  let ?e = "set_download ?i (d\<lparr>md_status := ?st\<lparr>ds_state := Completed, ds_completed_at := Some now,
    ds_metadata := (ds_metadata ?st)\<lparr>dm_filename := filename\<rparr>\<rparr>\<rparr>) e"
  have "same_control e ?e" by (rule same_control_set_download [OF Some]) simp_all
  also have "same_control ?e (set_phase w WSaving ?e)"
    using assms by (intro same_control_set_phase) simp
  finally show ?thesis using Some by (simp add: fetch_ok_def Let_def)
qed (simp add: fetch_ok_def Let_def)

lemma same_control_save_completed: "same_control e (save_completed api w e)"
proof -
  let ?i = "wk_download (en_workers e ! w)"
  let ?e = "emit (EvCompleted ?i) (store_op (DeleteSegments ?i)
    (case find_download ?i e of Some d \<Rightarrow> store_op (SaveDownload (md_status d)) e | None \<Rightarrow> e))"
  have "same_control e ?e" by (auto split: option.split)
  also have "same_control ?e (finish api w ?e)" by simp
  finally show ?thesis unfolding save_completed_def Let_def .
qed

lemma same_control_keep_segments:
  assumes "wk_phase (en_workers e ! w) \<noteq> WDone"
  shows "same_control e (keep_segments w ph e)"
proof (cases "wk_segments (en_workers e ! w)")
  case (Some segs)
  let ?i = "wk_download (en_workers e ! w)"
  let ?e = "store_op (SaveSegments ?i segs)
    (case find_download ?i e of Some d \<Rightarrow> set_download ?i (d\<lparr>md_cached_segments := Some segs\<rparr>) e | None \<Rightarrow> e)"
  have "same_control e ?e" by (auto split: option.split intro!: same_control_set_download)
  also have "same_control ?e (set_phase w ph ?e)"
    using assms by (intro same_control_set_phase) (auto split: option.split)
  finally show ?thesis by (simp add: keep_segments_def Let_def Some)
qed (use assms in \<open>simp add: keep_segments_def Let_def same_control_set_phase\<close>)

lemma same_control_save_error: "same_control e (save_error api w err k m e)"
proof (cases "update_state (wk_download (en_workers e ! w)) (StError k m (is_retryable err)) e")
  case (Inr e1)
  let ?i = "wk_download (en_workers e ! w)"
  let ?e = "emit (EvFailed ?i m (is_retryable err))
    (case find_download ?i e1 of Some d \<Rightarrow> store_op (SaveDownload (md_status d)) e1 | None \<Rightarrow> e1)"
  have "same_control e ?e" using same_control_update_state [OF Inr] by (auto split: option.split)
  also have "same_control ?e (finish api w ?e)" by simp
  finally show ?thesis by (simp add: save_error_def Let_def Inr)
qed (simp add: save_error_def)

lemma same_control_then_phase:
  assumes "same_control e e1" and "en_workers e1 = en_workers e" and "wk_phase (en_workers e ! w) \<noteq> WDone"
  shows "same_control e (set_phase w ph e1)"
proof -
  have "same_control e1 (set_phase w ph e1)" using assms by (intro same_control_set_phase) simp
  then show ?thesis by (rule same_control_trans [OF assms(1)])
qed

lemma same_control_step_state:
  assumes "wk_phase (en_workers e ! w) \<noteq> WDone"
  shows "same_control e (case update_state i st e of Inl _ \<Rightarrow> finish api w e | Inr e \<Rightarrow> set_phase w ph e)"
    "same_control e (case update_state i st e of Inl _ \<Rightarrow> finish api w e | Inr e \<Rightarrow> set_phase w ph (emit ev e))"
proof -
  show "same_control e (case update_state i st e of Inl _ \<Rightarrow> finish api w e | Inr e \<Rightarrow> set_phase w ph e)"
    by (cases "update_state i st e") (simp_all add: same_control_then_phase assms same_control_update_state)
  show "same_control e (case update_state i st e of Inl _ \<Rightarrow> finish api w e | Inr e \<Rightarrow> set_phase w ph (emit ev e))"
  proof (cases "update_state i st e")
    case (Inr e1)
    have "same_control e (emit ev e1)" "en_workers (emit ev e1) = en_workers e"
      using same_control_update_state [OF Inr] by simp_all
    then have "same_control e (set_phase w ph (emit ev e1))" using assms by (rule same_control_then_phase)
    then show ?thesis by (simp add: Inr)
  qed simp
qed

lemma worker_step_control:
  assumes "worker_step api w ev e = Some e'"
  shows "same_control e e'"
proof -
  let ?wk = "en_workers e ! w"
  have w: "\<not> length (en_workers e) \<le> w" using assms by (auto simp: worker_step_def)
  note step = assms [unfolded worker_step_def Let_def, simplified w if_False]
  show ?thesis
  proof (cases "wk_phase ?wk")
    case WStarting
    then show ?thesis using step same_control_step_state(1) [of e w] by (cases ev) auto
  next
    case WConnecting
    then show ?thesis using step same_control_step_state(2) [of e w] by (cases ev) auto
  qed (use step in \<open>auto simp: same_control_set_phase same_control_report same_control_fetch_ok
      same_control_save_completed same_control_keep_segments same_control_save_error
      split: if_splits worker_event.splits intro!: same_control_then_phase\<close>)
qed

section \<open>One writer per download\<close>

definition live :: "download_id \<Rightarrow> 's engine \<Rightarrow> nat set" where
  "live i e = {w. w < length (en_workers e) \<and> wk_download (en_workers e ! w) = i \<and> wk_phase (en_workers e ! w) \<noteq> WDone}"

definition calls_of :: "download_id \<Rightarrow> 's engine \<Rightarrow> call list" where
  "calls_of i e = filter (\<lambda>c. call_id c = i) (en_calls e)"

text \<open>The workers a call under way has still to drain or to record.\<close>

fun held :: "call \<Rightarrow> nat list" where
  "held (AddCall _ _ _ _ _) = []"
| "held (PauseCall _ ws _ _) = ws"
| "held (ResumeCall _ _) = []"
| "held (StartCall _ _ _ ws _) = ws"
| "held (HandleCall _ w _) = [w]"
| "held (CancelCall _ ws) = ws"

fun starting :: "call \<Rightarrow> bool" where
  "starting (HandleCall _ _ _) = True"
| "starting _ = False"

text \<open>The calls during which the record of the download keeps its worker.\<close>

fun is_resume :: "call \<Rightarrow> bool" where
  "is_resume (ResumeCall _ _) = True"
| "is_resume (AddCall _ _ _ _ _) = True"
| "is_resume _ = False"

text \<open>Every worker that has not ended is held by the record of its download, or by the only call on it.\<close>

definition writer_inv :: "download_id \<Rightarrow> 's engine \<Rightarrow> bool" where
  "writer_inv i e \<longleftrightarrow> draining_of i e = [] \<and>
    (case calls_of i e of
       [] \<Rightarrow> live i e \<subseteq> set (handle_of i e)
     | [c] \<Rightarrow> if is_resume c then live i e \<subseteq> set (handle_of i e)
             else handle_of i e = [] \<and> live i e \<subseteq> set (held c) \<and> length (held c) \<le> 1 \<and>
               (starting c \<longrightarrow> find_download i e \<noteq> None)
     | _ \<Rightarrow> False)"

lemma length_opt_list: "length (opt_list x) \<le> 1"
  by (cases x) simp_all

lemma handle_of_single: "length (handle_of i e) \<le> 1"
  using length_opt_list by (auto simp: handle_of_def simp del: One_nat_def split: option.split)

lemma subset_single: "A \<subseteq> set xs \<Longrightarrow> length xs \<le> 1 \<Longrightarrow> x \<in> A \<Longrightarrow> y \<in> A \<Longrightarrow> x = y"
  by (cases xs) auto

lemma writer_inv_single:
  assumes "writer_inv i e" and "w \<in> live i e" and "w' \<in> live i e"
  shows "w = w'"
proof -
  have "\<exists>ws. live i e \<subseteq> set ws \<and> length ws \<le> 1"
    using assms(1) handle_of_single [of i e]
    by (cases "calls_of i e" rule: remdups_adj.cases) (auto simp: writer_inv_def split: if_splits)
  then show ?thesis using subset_single assms(2, 3) by metis
qed

lemma same_control_live:
  assumes "same_control e e'"
  shows "live i e' \<subseteq> live i e"
proof
  fix w assume w: "w \<in> live i e'"
  have same: "map wk_download (en_workers e') = map wk_download (en_workers e)"
    using assms by (simp add: same_control_def)
  note len = map_eq_imp_length_eq [OF same]
  have "wk_download (en_workers e' ! w) = wk_download (en_workers e ! w)" if "w < length (en_workers e)"
    using arg_cong [OF same, of "\<lambda>xs. xs ! w"] that len by simp
  moreover have "worker_done e w \<longrightarrow> worker_done e' w" using assms by (simp add: same_control_def)
  ultimately show "w \<in> live i e" using w len by (auto simp: live_def worker_done_def)
qed

lemma same_control_inv: "same_control e e' \<Longrightarrow> writer_inv i e \<Longrightarrow> writer_inv i e'"
  using same_control_live [of e e' i]
  by (auto simp: writer_inv_def same_control_def calls_of_def split: list.splits if_splits)

text \<open>A step that leaves alone what the invariant of another download reads.\<close>

lemma writer_inv_cong:
  "draining_of i e' = draining_of i e \<Longrightarrow> handle_of i e' = handle_of i e \<Longrightarrow> calls_of i e' = calls_of i e \<Longrightarrow>
   live i e' \<subseteq> live i e \<Longrightarrow> (find_download i e' = None) = (find_download i e = None) \<Longrightarrow>
   writer_inv i e \<Longrightarrow> writer_inv i e'"
  by (auto simp: writer_inv_def split: list.splits if_splits)

lemma calls_of_nil: "calls_of i e = [] \<longleftrightarrow> i \<notin> call_id ` set (en_calls e)"
  by (auto simp: calls_of_def filter_empty_conv)

lemma writer_inv_call:
  assumes "writer_inv i e" and "k < length (en_calls e)" and "call_id (en_calls e ! k) = i"
  shows "calls_of i e = [en_calls e ! k]"
proof -
  have "en_calls e ! k \<in> set (calls_of i e)" using assms by (auto simp: calls_of_def)
  moreover have "length (calls_of i e) \<le> 1" using assms(1) by (auto simp: writer_inv_def split: list.splits)
  ultimately show ?thesis by (cases "calls_of i e") auto
qed

lemma calls_split:
  assumes "k < length cs" and "filter P cs = [cs ! k]" and "P (cs ! k)"
  shows "filter P (take k cs) = []" "filter P (drop (Suc k) cs) = []"
proof -
  have "filter P cs = filter P (take k cs) @ (cs ! k) # filter P (drop (Suc k) cs)"
    by (subst id_take_nth_drop [OF assms(1)]) (simp add: assms(3))
  then have "length (filter P (take k cs)) + length (filter P (drop (Suc k) cs)) = 0" using assms(2)
    by (metis add_Suc_right length_Cons length_append list.size(3) old.nat.inject)
  then show "filter P (take k cs) = []" "filter P (drop (Suc k) cs) = []" by simp_all
qed

lemma calls_of_put:
  assumes "k < length (en_calls e)" and "calls_of (call_id c) e = [en_calls e ! k]"
    and "call_id c = call_id (en_calls e ! k)"
  shows "calls_of j (put_call k c e) = (if j = call_id c then [c] else calls_of j e)"
    and "calls_of j (end_call k e) = (if j = call_id c then [] else calls_of j e)"
proof -
  have put: "(en_calls e)[k := c] = take k (en_calls e) @ c # drop (Suc k) (en_calls e)"
    using assms(1) by (rule upd_conv_take_nth_drop)
  have all: "en_calls e = take k (en_calls e) @ en_calls e ! k # drop (Suc k) (en_calls e)"
    using assms(1) by (rule id_take_nth_drop)
  have other: "calls_of j e = filter (\<lambda>c. call_id c = j) (take k (en_calls e)) @
      filter (\<lambda>c. call_id c = j) (drop (Suc k) (en_calls e))" if "j \<noteq> call_id c"
    unfolding calls_of_def using that assms(3) by (subst all) simp
  note nil = calls_split [OF assms(1) assms(2) [unfolded calls_of_def]]
  show "calls_of j (put_call k c e) = (if j = call_id c then [c] else calls_of j e)"
    using other nil assms(3) by (simp add: calls_of_def put_call_def put)
  show "calls_of j (end_call k e) = (if j = call_id c then [] else calls_of j e)"
    using other nil assms(3) by (simp add: calls_of_def end_call_def)
qed

lemma handle_of_simps [simp]:
  "handle_of j (set_download i d e) = (if j = i then opt_list (md_handle d) else handle_of j e)"
  "handle_of j (e\<lparr>en_calls := cs\<rparr>) = handle_of j e" "handle_of j (e\<lparr>en_workers := ws\<rparr>) = handle_of j e"
  "handle_of j (emit ev e) = handle_of j e" "handle_of j (store_op op e) = handle_of j e"
  "handle_of j (e\<lparr>en_queue := q\<rparr>) = handle_of j e"
  "handle_of j (e\<lparr>en_downloads := AList.delete i (en_downloads e)\<rparr>) = (if j = i then [] else handle_of j e)"
  by (simp_all add: handle_of_def) (simp add: find_download_def delete_conv')

lemma draining_of_simps [simp]:
  "draining_of j (set_download i d e) = (if j = i then opt_list (md_draining d) else draining_of j e)"
  "draining_of j (e\<lparr>en_calls := cs\<rparr>) = draining_of j e" "draining_of j (e\<lparr>en_workers := ws\<rparr>) = draining_of j e"
  "draining_of j (emit ev e) = draining_of j e" "draining_of j (store_op op e) = draining_of j e"
  "draining_of j (e\<lparr>en_queue := q\<rparr>) = draining_of j e"
  "draining_of j (e\<lparr>en_downloads := AList.delete i (en_downloads e)\<rparr>) = (if j = i then [] else draining_of j e)"
  by (simp_all add: draining_of_def) (simp add: find_download_def delete_conv')

lemma calls_of_simps [simp]:
  "calls_of j (set_download i d e) = calls_of j e" "calls_of j (e\<lparr>en_workers := ws\<rparr>) = calls_of j e"
  "calls_of j (emit ev e) = calls_of j e" "calls_of j (store_op op e) = calls_of j e"
  "calls_of j (e\<lparr>en_queue := q\<rparr>) = calls_of j e" "calls_of j (e\<lparr>en_downloads := ds\<rparr>) = calls_of j e"
  by (simp_all add: calls_of_def)

lemma live_simps [simp]:
  "live j (set_download i d e) = live j e" "live j (e\<lparr>en_calls := cs\<rparr>) = live j e"
  "live j (emit ev e) = live j e" "live j (store_op op e) = live j e"
  "live j (e\<lparr>en_queue := q\<rparr>) = live j e" "live j (e\<lparr>en_downloads := ds\<rparr>) = live j e"
  by (simp_all add: live_def)

lemma same_control_cancel: "same_control e (cancel_worker w e)"
  by (simp add: cancel_worker_def same_control_set_worker)

lemma same_control_cancels: "same_control e (fold cancel_worker ws e)"
  by (induction ws arbitrary: e) (auto intro: same_control_trans same_control_cancel)

lemma find_cancels [simp]: "find_download i (fold cancel_worker ws e) = find_download i e"
  by (induction ws arbitrary: e) (simp_all add: cancel_worker_def)

lemma calls_cancels [simp]: "en_calls (fold cancel_worker ws e) = en_calls e"
  using same_control_cancels [of e ws] by (simp add: same_control_def)

lemma cancels_simps [simp]:
  "handle_of i (fold cancel_worker ws e) = handle_of i e" "draining_of i (fold cancel_worker ws e) = draining_of i e"
  "calls_of i (fold cancel_worker ws e) = calls_of i e"
  by (simp_all add: handle_of_def draining_of_def calls_of_def)

lemma live_cancels: "live i (fold cancel_worker ws e) \<subseteq> live i e"
  by (rule same_control_live [OF same_control_cancels])

lemma calls_of_new [simp]:
  "calls_of j (e\<lparr>en_calls := en_calls e @ [c]\<rparr>) = calls_of j e @ (if call_id c = j then [c] else [])"
  by (simp add: calls_of_def)

lemma writer_inv_elsewhere:
  assumes "\<forall>j. writer_inv j e" and "\<And>j. j \<noteq> i \<Longrightarrow> draining_of j e' = draining_of j e"
    and "\<And>j. j \<noteq> i \<Longrightarrow> handle_of j e' = handle_of j e" and "\<And>j. j \<noteq> i \<Longrightarrow> calls_of j e' = calls_of j e"
    and "\<And>j. j \<noteq> i \<Longrightarrow> live j e' \<subseteq> live j e"
    and "\<And>j. j \<noteq> i \<Longrightarrow> (find_download j e' = None) = (find_download j e = None)" and "writer_inv i e'"
  shows "\<forall>j. writer_inv j e'"
proof
  fix j show "writer_inv j e'"
  proof (cases "j = i")
    case False
    with assms show ?thesis using writer_inv_cong [of j e' e] by blast
  qed (simp add: assms)
qed

lemma writer_inv_idle:
  "calls_of i e = [] \<Longrightarrow> writer_inv i e \<longleftrightarrow> draining_of i e = [] \<and> live i e \<subseteq> set (handle_of i e)"
  by (simp add: writer_inv_def)

lemma writer_inv_busy:
  "calls_of i e = [c] \<Longrightarrow> \<not> is_resume c \<Longrightarrow>
   writer_inv i e \<longleftrightarrow> draining_of i e = [] \<and> handle_of i e = [] \<and> live i e \<subseteq> set (held c) \<and>
     length (held c) \<le> 1 \<and> (starting c \<longrightarrow> find_download i e \<noteq> None)"
  by (simp add: writer_inv_def)

lemma writer_inv_resuming:
  "calls_of i e = [c] \<Longrightarrow> is_resume c \<Longrightarrow>
   writer_inv i e \<longleftrightarrow> draining_of i e = [] \<and> live i e \<subseteq> set (handle_of i e)"
  by (simp add: writer_inv_def)

lemma find_delete [simp]:
  "find_download j (e\<lparr>en_downloads := AList.delete i (en_downloads e)\<rparr>) = (if j = i then None else find_download j e)"
  by (simp add: find_download_def delete_conv')

lemma found_handle: "find_download i e = Some d \<Longrightarrow> handle_of i e = opt_list (md_handle d)"
  and found_draining: "find_download i e = Some d \<Longrightarrow> draining_of i e = opt_list (md_draining d)"
  by (simp_all add: handle_of_def draining_of_def)

lemma pause_writers:
  assumes inv: "\<forall>j. writer_inv j e" and idle: "calls_of i e = []" and ok: "pause i e = Inr e'"
  shows "\<forall>j. writer_inv j e'"
proof -
  obtain d where d: "find_download i e = Some d" using ok by (auto simp: pause_def not_found_def split: option.splits)
  let ?ws = "opt_list (md_handle d)"
  have own: "draining_of i e = []" "live i e \<subseteq> set ?ws"
    using inv writer_inv_idle [OF idle] found_handle [OF d] by auto
  define status where "status = (md_status d)\<lparr>ds_state := Paused\<rparr>"
  define segs where "segs = Option.bind (md_handle d) (\<lambda>w. wk_segments (en_workers e ! w))"
  have e': "e' = emit (EvPaused i) (emit (EvStateChanged i (ds_state (md_status d)) Paused)
      (set_download i (d\<lparr>md_status := status, md_handle := None, md_cached_segments := segs\<rparr>) (fold cancel_worker ?ws e)))
      \<lparr>en_calls := en_calls e @ [PauseCall i ?ws status segs]\<rparr>"
    using ok by (auto simp: pause_def d Let_def status_def segs_def split: if_splits)
  have calls: "calls_of j e' = calls_of j e @ (if i = j then [PauseCall i ?ws status segs] else [])" for j
    by (simp add: e') (simp add: calls_of_def)
  show ?thesis
  proof (rule writer_inv_elsewhere [OF inv, of i])
    show "writer_inv i e'"
      using own live_cancels [of i ?ws e] length_opt_list [of "md_handle d"] found_draining [OF d]
      by (subst writer_inv_busy [OF calls [of i, unfolded idle, simplified]]) (auto simp: e')
  qed (simp_all add: calls, simp_all add: e' live_cancels)
qed

lemma resume_writers:
  assumes inv: "\<forall>j. writer_inv j e" and idle: "calls_of i e = []" and ok: "resume i e = Inr e'"
  shows "\<forall>j. writer_inv j e'"
proof -
  have "e' = e \<or> (\<exists>opts. e' = e\<lparr>en_calls := en_calls e @ [ResumeCall i opts]\<rparr>)"
    using ok by (auto simp: resume_def not_found_def Let_def split: if_splits option.splits)
  then show ?thesis
  proof (elim disjE exE)
    fix opts assume e': "e' = e\<lparr>en_calls := en_calls e @ [ResumeCall i opts]\<rparr>"
    show ?thesis
    proof (rule writer_inv_elsewhere [OF inv, of i])
      show "writer_inv i e'"
        using inv writer_inv_idle [OF idle] by (subst writer_inv_resuming [of i e' "ResumeCall i opts"]) (simp_all add: e' idle)
    qed (simp_all add: e')
  qed (simp add: inv)
qed

lemma cancel_writers:
  assumes inv: "\<forall>j. writer_inv j e" and idle: "calls_of i e = []" and ok: "cancel i e = Inr e'"
  shows "\<forall>j. writer_inv j e'"
proof -
  obtain d where d: "find_download i e = Some d" using ok by (auto simp: cancel_def not_found_def split: option.splits)
  let ?ws = "opt_list (md_handle d)"
  have own: "draining_of i e = []" "live i e \<subseteq> set ?ws"
    using inv writer_inv_idle [OF idle] found_handle [OF d] by auto
  then have none: "opt_list (md_draining d) = []" using found_draining [OF d] by simp
  have e': "e' = (fold cancel_worker ?ws (e\<lparr>en_downloads := AList.delete i (en_downloads e)\<rparr>))
      \<lparr>en_calls := en_calls e @ [CancelCall i ?ws]\<rparr>"
    using ok by (auto simp: cancel_def d Let_def none)
  have calls: "calls_of j e' = calls_of j e @ (if i = j then [CancelCall i ?ws] else [])" for j
    by (simp add: e') (simp add: calls_of_def)
  have live: "live j e' \<subseteq> live j e" for j
    using live_cancels [of j ?ws "e\<lparr>en_downloads := AList.delete i (en_downloads e)\<rparr>"] by (simp add: e')
  show ?thesis
  proof (rule writer_inv_elsewhere [OF inv, of i])
    show "writer_inv i e'"
      using own live [of i] length_opt_list [of "md_handle d"]
      by (subst writer_inv_busy [OF calls [of i, unfolded idle, simplified]]) (auto simp: e')
  qed (simp_all add: calls live, simp_all add: e')
qed

lemma fresh_parts:
  "fresh_id i e \<Longrightarrow> find_download i e = None" "fresh_id i e \<Longrightarrow> calls_of i e = []" "fresh_id i e \<Longrightarrow> live i e = {}"
  "fresh_id i e \<Longrightarrow> handle_of i e = []" "fresh_id i e \<Longrightarrow> draining_of i e = []"
  by (auto simp: fresh_id_def calls_of_nil live_def handle_of_def draining_of_def)

lemma add_http_Inr:
  assumes "add_http i url dir filename options runtime now e = Inr e'"
  shows "\<exists>d st. md_handle d = None \<and> md_draining d = None \<and>
    e' = (set_download i d e)\<lparr>en_calls := en_calls e @ [AddCall i st runtime options False]\<rparr>"
  using assms by (intro exI [of _ "\<lparr>md_status = new_status i url dir filename options now, md_handle = None,
    md_options = Some options, md_cached_segments = None, md_draining = None\<rparr>"])
    (cases "validate_output_name (case filename of Some n \<Rightarrow> n | None \<Rightarrow> ''download'')",
      auto simp: add_http_def Let_def split: if_splits)

lemma add_writers:
  assumes inv: "\<forall>j. writer_inv j e" and fresh: "fresh_id i e"
    and ok: "add_http i url dir filename options runtime now e = Inr e'"
  shows "\<forall>j. writer_inv j e'"
proof -
  obtain d st where d: "md_handle d = None" "md_draining d = None"
    and e': "e' = (set_download i d e)\<lparr>en_calls := en_calls e @ [AddCall i st runtime options False]\<rparr>"
    using add_http_Inr [OF ok] by blast
  let ?c = "AddCall i st runtime options False"
  note new = fresh_parts [OF fresh]
  have calls: "calls_of j e' = calls_of j e @ (if i = j then [?c] else [])" for j
    by (simp add: e') (simp add: calls_of_def)
  show ?thesis
  proof (rule writer_inv_elsewhere [OF inv, of i])
    show "writer_inv i e'"
      by (subst writer_inv_resuming [OF calls [of i, unfolded new(2), simplified]]) (simp_all add: e' d new)
  qed (simp_all add: calls, simp_all add: e')
qed

lemma put_simps [simp]:
  "handle_of j (put_call k c e) = handle_of j e" "draining_of j (put_call k c e) = draining_of j e"
  "live j (put_call k c e) = live j e" "find_download j (put_call k c e) = find_download j e"
  "find_download j (end_call k e) = find_download j e" "handle_of j (end_call k e) = handle_of j e"
  "draining_of j (end_call k e) = draining_of j e" "live j (end_call k e) = live j e"
  by (simp_all add: put_call_def end_call_def)

lemma drain_writers:
  assumes inv: "\<forall>j. writer_inv j e" and k: "k < length (en_calls e)"
    and c: "call_id c = call_id (en_calls e ! k)" "held (en_calls e ! k) = w # held c"
      "\<not> is_resume (en_calls e ! k)" "\<not> is_resume c" "\<not> starting c"
    and ok: "map_option (put_call k c) (drained i w False e) = Some e'"
  shows "\<forall>j. writer_inv j e'"
proof -
  have done_w: "worker_done e w" and e': "e' = put_call k c e" using ok by (auto simp: drained_def split: if_splits)
  let ?i = "call_id c"
  have one: "calls_of ?i e = [en_calls e ! k]" using inv k c(1) by (intro writer_inv_call) auto
  note after_put = calls_of_put(1) [OF k one c(1)]
  have own: "draining_of ?i e = []" "handle_of ?i e = []" "live ?i e \<subseteq> set (w # held c)" "length (w # held c) \<le> 1"
    using inv writer_inv_busy [OF one c(3)] by (auto simp: c(2))
  have "w \<notin> live ?i e" using done_w by (auto simp: live_def worker_done_def)
  then have "writer_inv ?i e'"
    using own by (subst writer_inv_busy [of _ _ c]) (auto simp: e' after_put c(4, 5))
  then show ?thesis by (intro writer_inv_elsewhere [OF inv, of ?i]) (auto simp: e' after_put)
qed

lemma done_writers:
  assumes inv: "\<forall>j. writer_inv j e" and k: "k < length (en_calls e)" and i: "i = call_id (en_calls e ! k)"
    and busy: "\<not> is_resume (en_calls e ! k)" "held (en_calls e ! k) = []" and same: "same_control e e1"
  shows "\<forall>j. writer_inv j (end_call k e1)"
proof -
  have calls1: "en_calls e1 = en_calls e" using same by (simp add: same_control_def)
  have inv1: "\<forall>j. writer_inv j e1" using inv same_control_inv [OF same] by blast
  have one: "calls_of i e1 = [en_calls e1 ! k]" using inv1 k by (intro writer_inv_call) (auto simp: calls1 i)
  have k1: "k < length (en_calls e1)" using k by (simp add: calls1)
  have one': "calls_of (call_id (en_calls e1 ! k)) e1 = [en_calls e1 ! k]" using one by (simp add: i calls1)
  note ended = calls_of_put(2) [OF k1 one' refl]
  have own: "draining_of i e1 = []" "handle_of i e1 = []" "live i e1 = {}"
    using inv1 writer_inv_busy [OF one] busy by (auto simp: calls1)
  show ?thesis
    by (rule writer_inv_elsewhere [OF inv1, of i])
      (use own in \<open>auto simp: ended calls1 i writer_inv_idle\<close>)
qed

text \<open>A call that kept the worker of its download now takes it, to start another.\<close>

lemma retire_writers:
  assumes inv: "\<forall>j. writer_inv j e" and k: "k < length (en_calls e)" and same: "same_control e e1"
    and call: "call_id (en_calls e ! k) = i" "is_resume (en_calls e ! k)"
    and start: "start_download i p saved resumed e1 = (e2, c)"
  shows "\<forall>j. writer_inv j (put_call k c e2)"
proof -
  have calls1: "en_calls e1 = en_calls e" using same by (simp add: same_control_def)
  have inv1: "\<forall>j. writer_inv j e1" using inv same_control_inv [OF same] by blast
  have one: "calls_of i e1 = [en_calls e1 ! k]" using inv1 k by (intro writer_inv_call) (auto simp: calls1 call)
  have own: "draining_of i e1 = []" "live i e1 \<subseteq> set (handle_of i e1)"
    using inv1 writer_inv_resuming [OF one] by (auto simp: calls1 call)
  obtain ws where retire: "retire_http_worker i e1 = (e2, ws)" and c: "c = StartCall i p saved ws resumed"
    using start by (auto simp: start_download_def split: prod.splits)
  have ws: "ws = handle_of i e1"
    using retire own(1) by (auto simp: retire_http_worker_def handle_of_def draining_of_def split: option.splits)
  have part: "handle_of j e2 = (if j = i then [] else handle_of j e1)"
      "draining_of j e2 = (if j = i then [] else draining_of j e1)" "en_calls e2 = en_calls e1"
      "(find_download j e2 = None) = (find_download j e1 = None)" for j
    using retire by (auto simp: retire_http_worker_def handle_of_def draining_of_def split: option.splits if_splits)
  have live: "live j e2 \<subseteq> live j e1" for j
    using retire live_cancels [of j _ "set_download i _ e1"] by (auto simp: retire_http_worker_def split: option.splits)
  let ?e' = "put_call k c e2"
  have calls: "calls_of j ?e' = (if j = i then [c] else calls_of j e1)" for j
  proof -
    have "calls_of j e2 = calls_of j e1" by (simp add: calls_of_def part)
    moreover have "calls_of (call_id c) e2 = [en_calls e2 ! k]" using one by (simp add: calls_of_def part c)
    ultimately show ?thesis
      using calls_of_put(1) [of k e2 c j] k call by (simp add: part calls1 c)
  qed
  have frame: "handle_of j ?e' = (if j = i then [] else handle_of j e1)"
      "draining_of j ?e' = (if j = i then [] else draining_of j e1)"
      "(find_download j ?e' = None) = (find_download j e1 = None)" for j
    by (simp_all add: part)
  have live': "live j ?e' \<subseteq> live j e1" for j using live by simp
  have "calls_of i ?e' = [c]" by (simp add: calls)
  from writer_inv_busy [OF this] have "writer_inv i ?e'"
    using own live' [of i] handle_of_single [of i e1] by (simp add: frame part ws c)
  then show ?thesis
    by (intro writer_inv_elsewhere [OF inv1, of i]) (simp_all add: calls frame part live)
qed

lemma resume_call_writers:
  assumes inv: "\<forall>j. writer_inv j e" and k: "k < length (en_calls e)" and call: "en_calls e ! k = ResumeCall i options"
    and ok: "proceed k False e = Some e'"
  shows "\<forall>j. writer_inv j e'"
proof -
  obtain saved e1 where load: "load_saved_segments i e = (saved, e1)" by (cases "load_saved_segments i e")
  have same: "same_control e e1"
    using load by (auto simp: load_saved_segments_def split: option.splits if_splits intro!: same_control_set_download)
  obtain e2 c where start: "start_download i (do_priority options) saved True e1 = (e2, c)"
    by (cases "start_download i (do_priority options) saved True e1")
  have "e' = put_call k c e2"
    using ok k start by (simp add: proceed_def resume_start_def call load)
  then show ?thesis using retire_writers [OF inv k same _ _ start] by (simp add: call)
qed

lemma add_call_writers:
  assumes inv: "\<forall>j. writer_inv j e" and k: "k < length (en_calls e)"
    and call: "en_calls e ! k = AddCall i st runtime options saved" and ok: "proceed k False e = Some e'"
  shows "\<forall>j. writer_inv j e'"
proof -
  have one: "calls_of i e = [en_calls e ! k]" using inv k by (intro writer_inv_call) (auto simp: call)
  have own: "draining_of i e = []" "live i e \<subseteq> set (handle_of i e)"
    using inv writer_inv_resuming [OF one] by (auto simp: call)
  show ?thesis
  proof (cases saved)
    case False
    let ?e = "store_op (SaveDownload st) e" and ?c = "AddCall i st runtime options True"
    have e': "e' = put_call k ?c ?e" using ok k by (simp add: proceed_def call False)
    have calls: "calls_of j e' = (if j = i then [?c] else calls_of j e)" for j
      using calls_of_put(1) [of k ?e ?c j] k one by (simp add: e' call)
    have "calls_of i e' = [?c]" by (simp add: calls)
    from writer_inv_resuming [OF this] have "writer_inv i e'" using own by (simp add: e')
    then show ?thesis by (intro writer_inv_elsewhere [OF inv, of i]) (simp_all add: calls, simp_all add: e')
  next
    case True
    let ?e = "emit (EvAdded i) (store_op (SaveRuntimeMetadata i runtime) e)"
    show ?thesis
    proof (cases "do_start_paused options")
      case paused: True
      have e': "e' = end_call k ?e" using ok k paused by (simp add: proceed_def add_saved_def call True Let_def)
      have calls: "calls_of j e' = (if j = i then [] else calls_of j e)" for j
        using calls_of_put(2) [of k ?e "en_calls e ! k" j] k one by (simp add: e' call)
      have "calls_of i e' = []" by (simp add: calls)
      from writer_inv_idle [OF this] have "writer_inv i e'" using own by (simp add: e')
      then show ?thesis by (intro writer_inv_elsewhere [OF inv, of i]) (simp_all add: calls, simp_all add: e')
    next
      case False
      obtain e2 c where start: "start_download i (do_priority options) None False ?e = (e2, c)"
        by (cases "start_download i (do_priority options) None False ?e")
      have "e' = put_call k c e2" using ok k False start by (simp add: proceed_def add_saved_def call True Let_def)
      moreover have "same_control e ?e" by simp
      ultimately show ?thesis using retire_writers [OF inv k _ _ _ start] by (simp add: call)
    qed
  qed
qed

lemma start_call_writers:
  assumes inv: "\<forall>j. writer_inv j e" and k: "k < length (en_calls e)" and call: "en_calls e ! k = StartCall i p saved [] resumed"
    and ok: "proceed k False e = Some e'"
  shows "\<forall>j. writer_inv j e'"
proof (cases "update_state i Queued e")
  case (Inl err)
  then have "e' = end_call k e" using ok k by (simp add: proceed_defs call)
  then show ?thesis using done_writers [OF inv k _ _ _ same_control_refl] by (simp add: call)
next
  case (Inr e1)
  let ?w = "length (en_workers e1)" and ?e2 = "spawn_worker i p saved e1"
  let ?c = "HandleCall i ?w resumed"
  have same: "same_control e e1" using same_control_update_state [OF Inr] by simp
  have calls1: "en_calls e1 = en_calls e" using same by (simp add: same_control_def)
  have inv1: "\<forall>j. writer_inv j e1" using inv same_control_inv [OF same] by blast
  have one: "calls_of i e1 = [en_calls e1 ! k]" using inv1 k by (intro writer_inv_call) (auto simp: calls1 call)
  have own: "draining_of i e1 = []" "handle_of i e1 = []" "live i e1 = {}"
    using inv1 writer_inv_busy [OF one] by (auto simp: calls1 call)
  have e': "e' = put_call k ?c ?e2" using ok k same_control_update_state [OF Inr] by (simp add: proceed_defs call Inr)
  have frame: "handle_of j ?e2 = handle_of j e1" "draining_of j ?e2 = draining_of j e1" "en_calls ?e2 = en_calls e1"
      "live j ?e2 = (if j = i then {?w} \<union> live j e1 else live j e1)" "find_download j ?e2 = find_download j e1" for j
    by (simp_all add: spawn_worker_def) (auto simp: live_def nth_append less_Suc_eq)
  have calls: "calls_of j e' = (if j = i then [?c] else calls_of j e1)" for j
  proof -
    have "calls_of j ?e2 = calls_of j e1" by (simp add: calls_of_def frame)
    moreover have "calls_of (call_id ?c) ?e2 = [en_calls ?e2 ! k]" using one by (simp add: calls_of_def frame)
    ultimately show ?thesis
      using calls_of_put(1) [of k ?e2 ?c j] k by (simp add: e' frame calls1 call)
  qed
  have found: "find_download i e1 \<noteq> None"
    using Inr by (auto simp: update_state_def not_found_def split: option.splits)
  have frame': "handle_of j e' = handle_of j e1" "draining_of j e' = draining_of j e1"
      "live j e' = (if j = i then {?w} \<union> live j e1 else live j e1)" "find_download j e' = find_download j e1" for j
    by (simp_all add: e' frame)
  have "calls_of i e' = [?c]" by (simp add: calls)
  from writer_inv_busy [OF this] have "writer_inv i e'" using own found by (simp add: frame')
  then show ?thesis
    by (intro writer_inv_elsewhere [OF inv1, of i]) (simp_all add: calls frame')
qed

lemma handle_call_writers:
  assumes inv: "\<forall>j. writer_inv j e" and k: "k < length (en_calls e)" and call: "en_calls e ! k = HandleCall i w resumed"
    and ok: "proceed k False e = Some e'"
  shows "\<forall>j. writer_inv j e'"
proof -
  have one: "calls_of i e = [en_calls e ! k]" using inv k by (intro writer_inv_call) (auto simp: call)
  obtain d where d: "find_download i e = Some d"
    using inv writer_inv_busy [OF one] by (auto simp: call)
  have own: "draining_of i e = []" "live i e \<subseteq> {w}"
    using inv writer_inv_busy [OF one] by (auto simp: call)
  let ?e = "(if resumed then emit (EvResumed i) else id) (set_download i (d\<lparr>md_handle := Some w\<rparr>) e)"
  have e': "e' = end_call k ?e" using ok k by (simp add: proceed_defs call store_handle_def d)
  have ecalls: "en_calls ?e = en_calls e" by simp
  have calls: "calls_of j e' = (if j = i then [] else calls_of j e)" for j
  proof -
    have "calls_of j ?e = calls_of j e" by (simp only: calls_of_def ecalls)
    moreover have "calls_of (call_id (HandleCall i w resumed)) ?e = [en_calls ?e ! k]"
      using one by (simp only: calls_of_def ecalls call_id.simps)
    ultimately show ?thesis
      using calls_of_put(2) [of k ?e "HandleCall i w resumed" j] k call by (simp only: e' ecalls call_id.simps if_True simp_thms) 
  qed
  have frame: "handle_of j e' = (if j = i then [w] else handle_of j e)" "draining_of j e' = draining_of j e"
      "live j e' = live j e" "(find_download j e' = None) = (find_download j e = None)" for j
    using found_draining [OF d] by (simp_all add: e' d)
  have "writer_inv i e'" using own by (subst writer_inv_idle) (simp_all add: calls frame)
  then show ?thesis
    by (intro writer_inv_elsewhere [OF inv, of i]) (simp_all add: calls frame)
qed

lemma proceed_writers:
  assumes inv: "\<forall>j. writer_inv j e" and ok: "proceed k False e = Some e'"
  shows "\<forall>j. writer_inv j e'"
proof -
  have k: "k < length (en_calls e)" using ok by (auto simp: proceed_defs split: if_splits)
  note step = ok [unfolded proceed_defs, simplified k not_le [symmetric] if_False]
  show ?thesis
  proof (cases "en_calls e ! k")
    case (PauseCall i ws st segs)
    show ?thesis
    proof (cases ws)
      case Nil
      have "e' = end_call k (case segs of Some segments \<Rightarrow> store_op (SaveSegments i segments) (store_op (SaveDownload st) e)
          | None \<Rightarrow> store_op (SaveDownload st) e)"
        using ok k by (simp add: proceed_defs PauseCall Nil)
      then show ?thesis using done_writers [OF inv k refl] by (simp add: PauseCall Nil split: option.split)
    next
      case (Cons w ws')
      show ?thesis
        by (rule drain_writers [OF inv k, of "PauseCall i ws' st segs" w])
          (use ok k in \<open>simp_all add: proceed_defs PauseCall Cons\<close>)
    qed
  next
    case (ResumeCall i options)
    then show ?thesis by (rule resume_call_writers [OF inv k _ ok])
  next
    case (AddCall i st runtime options saved)
    then show ?thesis by (rule add_call_writers [OF inv k _ ok])
  next
    case (StartCall i p saved ws resumed)
    show ?thesis
    proof (cases ws)
      case Nil
      then show ?thesis using start_call_writers [OF inv k _ ok] StartCall by simp
    next
      case (Cons w ws')
      show ?thesis
        by (rule drain_writers [OF inv k, of "StartCall i p saved ws' resumed" w])
          (use ok k in \<open>simp_all add: proceed_defs StartCall Cons\<close>)
    qed
  next
    case (HandleCall i w resumed)
    then show ?thesis by (rule handle_call_writers [OF inv k _ ok])
  next
    case (CancelCall i ws)
    show ?thesis
    proof (cases ws)
      case Nil
      have "e' = end_call k (emit (EvRemoved i) (store_op (DeleteDownload i) (store_op (DeleteSegments i)
          (e\<lparr>en_queue := pq_remove i (en_queue e)\<rparr>))))"
        using ok k by (simp add: proceed_defs CancelCall Nil Let_def)
      then show ?thesis using done_writers [OF inv k refl] by (simp add: CancelCall Nil)
    next
      case (Cons w ws')
      show ?thesis
        by (rule drain_writers [OF inv k, of "CancelCall i ws'" w])
          (use ok k in \<open>simp_all add: proceed_defs CancelCall Cons\<close>)
    qed
  qed
qed

lemma same_control_set_priority: "eng_set_priority i p e = Inr e' \<Longrightarrow> same_control e e'"
  by (auto simp: eng_set_priority_def not_found_def Let_def split: option.splits if_splits intro!: same_control_set_download)

lemma same_control_persist: "same_control e (persist_active_downloads e)"
  by (simp add: persist_active_downloads_def)

lemma same_control_save_next: "save_next k e = Some e' \<Longrightarrow> same_control e e'"
  by (auto simp: save_next_def split: if_splits list.splits)

lemma engine_step_writers:
  assumes inv: "\<forall>j. writer_inv j e" and ok: "orderly a e" and step: "engine_step api a e = Some e'"
  shows "\<forall>j. writer_inv j e'"
proof (cases a)
  case (AddHttp i url dir filename options runtime now)
  show ?thesis
    using step ok inv add_writers [OF inv]
    by (cases "add_http i url dir filename options runtime now e") (auto simp: AddHttp)
next
  case (Pause i)
  then show ?thesis using step ok inv pause_writers [OF inv] by (cases "pause i e") (auto simp: calls_of_nil)
next
  case (Resume i)
  then show ?thesis using step ok inv resume_writers [OF inv] by (cases "resume i e") (auto simp: calls_of_nil)
next
  case (Cancel i)
  then show ?thesis using step ok inv cancel_writers [OF inv] by (cases "cancel i e") (auto simp: calls_of_nil)
next
  case (SetPriority i p)
  then show ?thesis
    using step inv by (cases "eng_set_priority i p e") (auto dest!: same_control_set_priority intro: same_control_inv)
next
  case (Proceed k timed_out)
  then show ?thesis using step ok proceed_writers [OF inv] by simp
next
  case (Work w ev)
  then show ?thesis using step inv worker_step_control same_control_inv by fastforce
next
  case (SaveNext k)
  then show ?thesis using step inv same_control_save_next same_control_inv by fastforce
next
  case (SetConfig m)
  have "same_control e e'" using step by (auto simp: SetConfig)
  then show ?thesis using inv same_control_inv by blast
next
  case PersistActive
  then show ?thesis using step inv same_control_inv [OF same_control_persist] by auto
next
  case Shutdown
  then show ?thesis using ok by simp
qed

lemma reachable_writers: "reachable_engine api orderly n storage e \<Longrightarrow> \<forall>j. writer_inv j e"
proof (induction rule: reachable_engine.induct)
  case start
  show ?case by (simp add: writer_inv_def engine_new_def draining_of_def calls_of_def live_def find_download_def)
next
  case (step e a e')
  from step.IH step.hyps(2, 3) show ?case by (rule engine_step_writers)
qed

text \<open>C2. At most one worker per download is ever alive, that is may still write the partial file, in every
  interleaving of calls, workers and background saves, also over several pauses and resumes, as long as three
  things hold: the client starts a call on a download only when none is under way on it, every worker that is
  told to stop does so within the ten seconds that the engine waits for it, and the engine has not been shut
  down.\<close>

theorem one_writer_per_download:
  assumes "reachable_engine api orderly n storage e" and "w \<in> live i e" and "w' \<in> live i e"
  shows "w = w'"
  using reachable_writers [OF assms(1)] assms(2, 3) writer_inv_single by blast

section \<open>The permits\<close>

fun holds_permit :: "worker_phase \<Rightarrow> bool" where
  "holds_permit WSpawned = False"
| "holds_permit WWaiting = False"
| "holds_permit WDone = False"
| "holds_permit _ = True"

definition running :: "'s engine \<Rightarrow> nat" where
  "running e = length (filter holds_permit (map wk_phase (en_workers e)))"

text \<open>The same permits and the same phases of the workers.\<close>

definition same_permits :: "'s engine \<Rightarrow> 's engine \<Rightarrow> bool" where
  "same_permits e e' \<longleftrightarrow> semaphore (en_queue e') = semaphore (en_queue e) \<and>
    max_concurrent (en_queue e') = max_concurrent (en_queue e) \<and>
    map wk_phase (en_workers e') = map wk_phase (en_workers e)"

lemma same_permits_refl [simp]: "same_permits e e"
  by (simp add: same_permits_def)

lemma same_permits_trans: "same_permits e e' \<Longrightarrow> same_permits e' e'' \<Longrightarrow> same_permits e e''"
  by (simp add: same_permits_def)

lemma same_permits_simps [simp]:
  "same_permits e (set_download i d e') \<longleftrightarrow> same_permits e e'" "same_permits e (emit ev e') \<longleftrightarrow> same_permits e e'"
  "same_permits e (store_op op e') \<longleftrightarrow> same_permits e e'" "same_permits e (put_call k c e') \<longleftrightarrow> same_permits e e'"
  "same_permits e (end_call k e') \<longleftrightarrow> same_permits e e'" "same_permits e (e'\<lparr>en_calls := cs\<rparr>) \<longleftrightarrow> same_permits e e'"
  "same_permits e (e'\<lparr>en_saves := sv\<rparr>) \<longleftrightarrow> same_permits e e'"
  "same_permits e (e'\<lparr>en_downloads := ds\<rparr>) \<longleftrightarrow> same_permits e e'"
  "same_permits e (e'\<lparr>en_shutdown := b\<rparr>) \<longleftrightarrow> same_permits e e'"
  by (simp_all add: same_permits_def put_call_def end_call_def)

lemma same_permits_queue [simp]:
  "semaphore q = semaphore (en_queue e') \<Longrightarrow> max_concurrent q = max_concurrent (en_queue e') \<Longrightarrow> same_permits e (e'\<lparr>en_queue := q\<rparr>) \<longleftrightarrow> same_permits e e'"
  by (simp add: same_permits_def)

lemma semaphore_simps [simp]:
  "semaphore (pq_remove i q) = semaphore q" "semaphore (fst (set_priority i p q)) = semaphore q"
  "semaphore (acquire_enqueue i p q) = semaphore q"
  "max_concurrent (pq_remove i q) = max_concurrent q" "max_concurrent (fst (set_priority i p q)) = max_concurrent q"
  "max_concurrent (acquire_enqueue i p q) = max_concurrent q"
  by (simp_all add: pq_remove_def set_priority_def acquire_enqueue_def)

lemma map_update_same: "f x = f (xs ! w) \<Longrightarrow> map f (xs[w := x]) = map f xs"
  by (cases "w < length xs") (simp_all add: map_update list_update_same_conv list_update_beyond)

lemma same_permits_set_worker [simp]:
  "wk_phase wk = wk_phase (en_workers e ! w) \<Longrightarrow> same_permits e (set_worker w wk e)"
  by (simp add: same_permits_def map_update_same)

lemma same_permits_cancels [simp]: "same_permits e (fold cancel_worker ws e)"
proof (induction ws arbitrary: e)
  case (Cons w ws)
  have "same_permits e (cancel_worker w e)" by (simp add: cancel_worker_def)
  then show ?case using Cons [of "cancel_worker w e"] by (auto intro: same_permits_trans)
qed simp

lemma same_permits_cancels' [simp]: "same_permits e e' \<Longrightarrow> same_permits e (fold cancel_worker ws e')"
  using same_permits_cancels same_permits_trans by blast

lemma same_permits_retire: "retire_http_worker i e = (e', ws) \<Longrightarrow> same_permits e e'"
  by (auto simp: retire_http_worker_def split: option.splits)

lemma same_permits_start: "start_download i p saved resumed e1 = (e2, c) \<Longrightarrow> same_permits e e1 \<Longrightarrow> same_permits e e2"
  by (cases "retire_http_worker i e1")
    (auto simp: start_download_def dest: same_permits_retire intro: same_permits_trans)

lemma same_permits_update_state: "update_state i st e = Inr e' \<Longrightarrow> same_permits e e'"
  by (auto simp: update_state_def not_found_def split: option.splits)

lemma same_permits_api:
  "add_http i url dir filename options runtime now e = Inr e' \<Longrightarrow> same_permits e e'"
  "pause i e = Inr e' \<Longrightarrow> same_permits e e'" "resume i e = Inr e' \<Longrightarrow> same_permits e e'"
  "cancel i e = Inr e' \<Longrightarrow> same_permits e e'" "eng_set_priority i p e = Inr e' \<Longrightarrow> same_permits e e'"
proof -
  assume "add_http i url dir filename options runtime now e = Inr e'"
  from add_http_Inr [OF this] show "same_permits e e'"
    by auto
next
  show "pause i e = Inr e' \<Longrightarrow> same_permits e e'"
    by (auto simp: pause_def not_found_def Let_def split: option.splits if_splits)
  show "resume i e = Inr e' \<Longrightarrow> same_permits e e'"
    by (auto simp: resume_def not_found_def Let_def split: if_splits option.splits)
  show "cancel i e = Inr e' \<Longrightarrow> same_permits e e'"
    by (auto simp: cancel_def not_found_def Let_def split: option.splits)
  show "eng_set_priority i p e = Inr e' \<Longrightarrow> same_permits e e'"
    by (auto simp: eng_set_priority_def not_found_def Let_def split: option.splits if_splits)
qed

lemma same_permits_drained: "drained i w timed_out e = Some e' \<Longrightarrow> same_permits e e'"
  by (auto simp: drained_def split: if_splits option.splits)

lemma same_permits_load: "load_saved_segments i e = (saved, e') \<Longrightarrow> same_permits e e'"
  by (auto simp: load_saved_segments_def split: option.splits if_splits)

text \<open>The permits taken and those left are \<open>n\<close>, under a ceiling of \<open>c\<close>.\<close>

definition permits_inv :: "('s \<Rightarrow> nat) \<Rightarrow> nat \<times> nat \<Rightarrow> 's engine \<Rightarrow> bool" where
  "permits_inv avail n e \<longleftrightarrow>
    avail (semaphore (en_queue e)) + running e = snd n \<and> max_concurrent (en_queue e) = fst n"

lemma permits_frame: "same_permits e e' \<Longrightarrow> permits_inv avail n e \<Longrightarrow> permits_inv avail n e'"
  by (simp add: same_permits_def permits_inv_def running_def)

lemma proceed_permits:
  assumes "proceed k timed_out e = Some e'" and inv: "permits_inv avail n e"
  shows "permits_inv avail n e'"
proof -
  have k: "k < length (en_calls e)" using assms by (auto simp: proceed_defs split: if_splits)
  have spawn: "permits_inv avail n (put_call k c (spawn_worker i p saved e1))" if "same_permits e e1" for i p saved e1 c
    using permits_frame [OF that inv] by (simp add: permits_inv_def running_def spawn_worker_def put_call_def)
  have frame: "same_permits e e' \<Longrightarrow> ?thesis" using permits_frame [OF _ inv] .
  show ?thesis
  proof (cases "en_calls e ! k")
    case (PauseCall i ws st segs)
    with assms k show ?thesis
      by (intro frame) (cases ws, auto simp: proceed_defs split: option.splits dest: same_permits_drained)
  next
    case (ResumeCall i options)
    with assms k show ?thesis
      by (intro frame) (auto simp: proceed_def resume_start_def split: prod.splits
          dest!: same_permits_load same_permits_start intro: same_permits_trans)
  next
    case (AddCall i st runtime options saved)
    with assms k show ?thesis
      by (intro frame) (cases saved; auto simp: proceed_def add_saved_def Let_def split: prod.splits if_splits
          dest!: same_permits_start)
  next
    case (StartCall i p saved ws resumed)
    show ?thesis
    proof (cases ws)
      case Nil
      with assms k StartCall show ?thesis
        using spawn frame same_permits_refl [of e]
        by (cases "update_state i Queued e") (auto simp: proceed_defs same_permits_update_state)
    next
      case (Cons w ws')
      with assms k StartCall show ?thesis
        by (intro frame) (auto simp: proceed_defs dest: same_permits_drained)
    qed
  next
    case (HandleCall i w resumed)
    with assms k show ?thesis
      by (intro frame) (auto simp: proceed_defs store_handle_def split: option.splits)
  next
    case (CancelCall i ws)
    with assms k show ?thesis
      by (intro frame) (cases ws, auto simp: proceed_defs Let_def dest: same_permits_drained)
  qed
qed

lemma length_filter_exchange:
  "w < length xs \<Longrightarrow> length (filter P (xs[w := x])) + (if P (xs ! w) then 1 else 0) =
    length (filter P xs) + (if P x then 1 else 0)"
proof (induction xs arbitrary: w)
  case (Cons y xs)
  then show ?case by (cases w) auto
qed simp

lemma running_set_phase:
  assumes "w < length (en_workers e)"
  shows "running (set_phase w ph e) + (if holds_permit (wk_phase (en_workers e ! w)) then 1 else 0) =
    running e + (if holds_permit ph then 1 else 0)"
proof -
  have "wk_phase ((en_workers e ! w)\<lparr>wk_phase := ph\<rparr>) = ph" by simp
  then show ?thesis
    using assms length_filter_exchange [of w "map wk_phase (en_workers e)" holds_permit ph]
    by (simp add: running_def set_phase_def map_update)
qed

lemma set_phase_queue [simp]: "en_queue (set_phase w ph e) = en_queue e"
  by (simp add: set_phase_def)

text \<open>A step of a worker is one of three: it keeps the permit it has or lacks, it takes one, or it gives
  its permit back.\<close>

lemma phase_frame:
  assumes "same_permits e e1" and "w < length (en_workers e)"
    and "holds_permit (wk_phase (en_workers e ! w)) = holds_permit ph" and inv: "permits_inv avail n e"
  shows "permits_inv avail n (set_phase w ph e1)"
proof -
  have len: "length (en_workers e1) = length (en_workers e)"
    using assms(1) map_eq_imp_length_eq by (auto simp: same_permits_def)
  have "wk_phase (en_workers e1 ! w) = wk_phase (en_workers e ! w)"
    using assms(1, 2) len unfolding same_permits_def by (metis nth_map)
  then show ?thesis
    using running_set_phase [of w e1 ph] assms(2, 3) len permits_frame [OF assms(1) inv]
    by (simp add: permits_inv_def)
qed

lemma finish_permits:
  assumes "same_permits e e1" and "w < length (en_workers e)" and "holds_permit (wk_phase (en_workers e ! w))"
    and laws: "semaphore_laws api avail" and inv: "permits_inv avail n e"
  shows "permits_inv avail n (finish api w e1)"
proof -
  have len: "length (en_workers e1) = length (en_workers e)"
    using assms(1) map_eq_imp_length_eq by (auto simp: same_permits_def)
  have "wk_phase (en_workers e1 ! w) = wk_phase (en_workers e ! w)"
    using assms(1, 2) len unfolding same_permits_def by (metis nth_map)
  then show ?thesis
    using running_set_phase [of w e1 WDone] assms(2, 3) len laws permits_frame [OF assms(1) inv]
    by (simp add: permits_inv_def finish_def Let_def permit_drop_def add_permits_def permit_leave_def
        semaphore_laws_def running_def)
qed

lemma granted_permits:
  assumes w: "w < length (en_workers e)" and phase: "wk_phase (en_workers e ! w) = WWaiting"
    and laws: "semaphore_laws api avail" and inv: "permits_inv avail n e"
    and poll: "acquire_poll api i p (en_queue e) = Some q"
  shows "permits_inv avail n (set_phase w WGranted (e\<lparr>en_queue := q\<rparr>))"
proof -
  obtain s where s: "sem_try_acquire api (semaphore (en_queue e)) = Some s" and q: "semaphore q = s"
    by (rule acquire_poll_Some [OF poll]) simp
  have "max_concurrent q = max_concurrent (en_queue e)" by (rule acquire_poll_Some [OF poll]) simp
  moreover have "avail (semaphore (en_queue e)) = Suc (avail s)" using laws s by (auto simp: semaphore_laws_def)
  moreover have "running (set_phase w WGranted (e\<lparr>en_queue := q\<rparr>)) = Suc (running e)"
    using running_set_phase [of w "e\<lparr>en_queue := q\<rparr>" WGranted] w phase by (simp add: running_def)
  ultimately show ?thesis using inv q by (simp add: permits_inv_def)
qed

lemma worker_permits:
  assumes step: "worker_step api w ev e = Some e'" and laws: "semaphore_laws api avail" and inv: "permits_inv avail n e"
  shows "permits_inv avail n e'"
proof -
  let ?wk = "en_workers e ! w" and ?i = "wk_download (en_workers e ! w)"
  have w: "w < length (en_workers e)" using step by (auto simp: worker_step_def split: if_splits)
  note step' = step [unfolded worker_step_def Let_def, simplified w not_le [symmetric] if_False]
  note fin = finish_permits [OF _ w _ laws inv] and phase = phase_frame [OF _ w _ inv]
  have wait: "permits_inv avail n (leave_queue w e)" if "\<not> holds_permit (wk_phase ?wk)"
    using phase [of e WDone] that by (simp add: leave_queue_def Let_def permits_inv_def running_def)
  have state: "permits_inv avail n (case update_state i st e of Inl _ \<Rightarrow> finish api w e | Inr e1 \<Rightarrow> set_phase w ph (f e1))"
    if "holds_permit (wk_phase ?wk)" "holds_permit ph" "\<And>e1. same_permits e e1 \<Longrightarrow> same_permits e (f e1)" for i st ph f
    using that by (cases "update_state i st e") (auto intro: fin phase same_permits_update_state)
  have saved: "same_permits e (case find_download ?i e1 of Some d \<Rightarrow> store_op (SaveDownload (md_status d)) e1 | None \<Rightarrow> e1)"
    if "same_permits e e1" for e1 using that by (simp split: option.split)
  show ?thesis
  proof (cases "wk_phase ?wk")
    case WSpawned
    with step w show ?thesis
      by (cases ev) (auto simp: worker_step_def Let_def wait intro!: phase split: if_splits)
  next
    case WWaiting
    with step w show ?thesis
      by (cases ev) (auto simp: worker_step_def Let_def wait intro: granted_permits [OF w _ laws inv] split: if_splits)
  next
    case WGranted
    with step w show ?thesis by (cases ev) (auto simp: worker_step_def Let_def intro!: fin phase)
  next
    case WStarting
    with step w show ?thesis
      using state [of WConnecting "\<lambda>e. e"] by (cases ev) (auto simp: worker_step_def Let_def)
  next
    case WConnecting
    with step w show ?thesis
      using state [of WFetching "emit (EvStarted ?i)"] by (cases ev) (auto simp: worker_step_def Let_def)
  next
    case WFetching
    show ?thesis
    proof (cases ev)
      case (Report p segs etag modified)
      have "same_permits e (report w p segs etag modified e)" by (simp add: report_def Let_def split: option.split)
      with step w WFetching Report show ?thesis
        using permits_frame [of e e' avail n] inv by (auto simp: worker_step_def Let_def)
    next
      case (FetchOk filename now)
      with step w WFetching show ?thesis
        by (auto simp: worker_step_def fetch_ok_def Let_def split: option.splits if_splits intro!: fin phase)
    next
      case (FetchErr err k m)
      with step w WFetching show ?thesis
        by (auto simp: worker_step_def Let_def intro!: fin phase)
    qed (use step w WFetching in \<open>simp_all add: worker_step_def Let_def\<close>)
  next
    case WSaving
    with step w show ?thesis
      using saved [of e] by (cases ev) (auto simp: worker_step_def save_completed_def Let_def intro!: fin)
  next
    case (WFailing err k m)
    with step w show ?thesis
      by (cases ev) (auto simp: worker_step_def keep_segments_def Let_def intro!: phase split: option.split)
  next
    case (WFailed err k m)
    with step w show ?thesis
      using saved same_permits_update_state [of ?i _ e]
      by (cases ev; cases "update_state ?i (StError k m (is_retryable err)) e")
        (auto simp: worker_step_def save_error_def Let_def intro!: fin)
  next
    case WDone
    with step w show ?thesis by (simp add: worker_step_def Let_def)
  qed
qed

text \<open>The ceiling and the permits in existence after an action: only a new configuration changes them.\<close>

fun permits_after :: "nat \<times> nat \<Rightarrow> action \<Rightarrow> nat \<times> nat" where
  "permits_after (c, n) (SetConfig m) = (m, n + (m - c))"
| "permits_after cn _ = cn"

lemma set_config_permits:
  assumes "permits_inv avail n e" and "semaphore_laws api avail"
  shows "permits_inv avail (permits_after n (SetConfig m)) (e\<lparr>en_queue := set_max_concurrent api m (en_queue e)\<rparr>)"
  using assms
  by (cases n) (auto simp: permits_inv_def running_def set_max_concurrent_def swap_ceiling_def add_permits_def
      semaphore_laws_def Let_def)

lemma engine_step_permits:
  assumes inv: "permits_inv avail n e" and laws: "semaphore_laws api avail" and step: "engine_step api a e = Some e'"
  shows "permits_inv avail (permits_after n a) e'"
proof -
  have frame: "same_permits e e1 \<Longrightarrow> permits_inv avail n e1" for e1 using permits_frame [OF _ inv] .
  have api: "permits_inv avail n (after e r)" if "\<And>e1. r = Inr e1 \<Longrightarrow> same_permits e e1" for r
    using that frame inv by (cases r) auto
  show ?thesis
  proof (cases a)
    case (SaveNext k)
    with step show ?thesis by (auto simp: save_next_def split: if_splits list.splits intro!: frame)
  next
    case (Proceed k timed_out)
    with step proceed_permits inv show ?thesis by simp
  next
    case (Work w ev)
    with step worker_permits [OF _ laws inv] show ?thesis by simp
  next
    case (SetConfig m)
    with step set_config_permits [OF inv laws, of m] show ?thesis by simp
  next
    case PersistActive
    with step show ?thesis by (auto simp: persist_active_downloads_def intro!: frame)
  next
    case Shutdown
    with step show ?thesis by (auto simp: shutdown_def intro!: frame)
  qed (use step in \<open>auto intro!: api dest: same_permits_api\<close>)
qed

lemma run_permits:
  "engine_run api ok as e = Some e' \<Longrightarrow> semaphore_laws api avail \<Longrightarrow> permits_inv avail n e \<Longrightarrow>
    permits_inv avail (fold (\<lambda>a n. permits_after n a) as n) e'"
proof (induction as arbitrary: e n)
  case (Cons a as)
  then obtain e1 where e1: "engine_step api a e = Some e1" "engine_run api ok as e1 = Some e'"
    by (auto split: if_splits bind_splits)
  show ?case using Cons.IH [OF e1(2) Cons.prems(2) engine_step_permits [OF Cons.prems(3, 2) e1(1)]] by simp
qed simp

text \<open>C29. Whatever clients call (new configurations included) and however calls, workers and saves interleave,
  the workers that hold a permit and the permits left add up to the initial limit and all increases of it by
  new configurations: no permit is ever lost or made up, on any way a worker ends. (A lower limit withdraws
  no permit; it only keeps \<open>acquire\<close> from granting.)\<close>

theorem permits_conserved:
  assumes "semaphore_laws api avail" and "engine_run api ok as (engine_new api n storage) = Some e"
  shows "length (filter holds_permit (map wk_phase (en_workers e))) + avail (semaphore (en_queue e)) =
    snd (fold (\<lambda>a cn. permits_after cn a) as (n, n))"
proof -
  have "permits_inv avail (n, n) (engine_new api n storage)"
    using assms(1) by (simp add: permits_inv_def running_def engine_new_def pq_new_def semaphore_laws_def)
  from run_permits [OF assms(2, 1) this] show ?thesis by (simp add: permits_inv_def running_def)
qed

section \<open>Runs\<close>

lemmas lifecycle_eval =
  add_http_def retire_http_worker_def pause_def resume_def cancel_def eng_set_priority_def
  proceed_defs worker_step_def drained_def worker_done_def update_state_def find_download_def set_download_def emit_def
  store_op_def set_worker_def cancel_worker_def put_call_def end_call_def spawn_worker_def store_handle_def
  set_phase_def finish_def leave_queue_def report_def fetch_ok_def save_completed_def keep_segments_def
  save_error_def save_next_def engine_new_def options_new_def new_status_def start_paused_of_def fresh_id_def
  load_saved_segments_def resume_options_def not_found_def Let_def pq_remove_def set_priority_def permit_drop_def add_permits_def permit_leave_def
  set_max_concurrent_def swap_ceiling_def pq_eval

lemma download_name_ok [simp]: "validate_output_name ''download'' = Inr ()"
  by code_simp

text \<open>Adding a download, up to its worker, and that worker up to its permit.\<close>

definition start_a :: "action list" where
  "start_a = [AddHttp id_a ''u'' ''d'' None options_new '''' 0, Proceed 0 False, Proceed 0 False, Proceed 0 False,
     Proceed 0 False]"

definition permit_a :: "action list" where
  "permit_a = start_a @ [Work 0 Poll, Work 0 Poll]"

text \<open>A download that is paused while its worker waits, and resumed.\<close>

definition pause_resume_a :: "action list" where
  "pause_resume_a = start_a @ [Work 0 Poll, Pause id_a, Work 0 SeeCancel, Proceed 0 False, Proceed 0 False,
     Resume id_a, Proceed 0 False, Proceed 0 False, Proceed 0 False, Work 1 Poll, Work 1 Poll]"

definition run_a :: "action list \<Rightarrow> nat engine option" where
  "run_a as = engine_run counter_api orderly as (engine_new counter_api 1 None)"

lemma reachable_a: "run_a as = Some e \<Longrightarrow> reachable_engine counter_api orderly 1 None e"
  unfolding run_a_def by (rule reachable_run [OF reachable_engine.start])

lemma pause_resume_run:
  "\<exists>e. run_a pause_resume_a = Some e \<and> map wk_phase (en_workers e) = [WDone, WGranted] \<and> live id_a e = {1}"
  by (auto simp: run_a_def pause_resume_a_def start_a_def lifecycle_eval live_def less_Suc_eq)

lemma one_writer_per_download_witness: "\<exists>e. run_a pause_resume_a = Some e \<and> (\<forall>w\<in>live id_a e. w = 1)"
proof -
  obtain e where e: "run_a pause_resume_a = Some e" "live id_a e = {1}" using pause_resume_run by blast
  have "w = 1" if "w \<in> live id_a e" for w
    by (rule one_writer_per_download [OF reachable_a [OF e(1)] that]) (simp add: e(2))
  with e(1) show ?thesis by blast
qed

text \<open>A run in which the limit grows by one and shrinks again.\<close>

definition resized_a :: "action list" where
  "resized_a = pause_resume_a @ [SetConfig 2, SetConfig 1]"

lemma permits_conserved_witness:
  "\<exists>e. run_a resized_a = Some e \<and>
    length (filter holds_permit (map wk_phase (en_workers e))) + semaphore (en_queue e) = 2 \<and>
    map wk_phase (en_workers e) = [WDone, WGranted]"
proof -
  obtain e where e: "run_a resized_a = Some e" "map wk_phase (en_workers e) = [WDone, WGranted]"
    by (simp add: run_a_def resized_a_def pause_resume_a_def start_a_def lifecycle_eval)
  have "fold (\<lambda>a cn. permits_after cn a) resized_a (1, 1) = (1, 2)"
    by (simp add: resized_a_def pause_resume_a_def start_a_def)
  then show ?thesis
    using permits_conserved [OF counter_laws e(1) [unfolded run_a_def]] e by (auto simp: run_a_def)
qed

text \<open>A pause that finds the worker between the test of its token and its first change of state.\<close>

definition late_pause :: "action list" where
  "late_pause = permit_a @ [Work 0 Go, Pause id_a, Work 0 Go, Work 0 Go, Work 0 (FetchErr EShutdown ''k'' ''m''),
     Proceed 0 False, Proceed 0 False]"

text \<open>What the two steps of a worker that is starting do.\<close>

lemma starting_steps:
  assumes "w < length (en_workers e)" and "wk_download (en_workers e ! w) = i"
    and "wk_phase (en_workers e ! w) = WStarting" and "find_download i e = Some d"
  shows "\<exists>e1 e2. worker_step api w Go e = Some e1 \<and> worker_step api w Go e1 = Some e2 \<and>
    find_download i e2 = Some (d\<lparr>md_status := (md_status d)\<lparr>ds_state := Downloading\<rparr>\<rparr>) \<and>
    en_workers e2 = (en_workers e)[w := (en_workers e ! w)\<lparr>wk_phase := WFetching\<rparr>] \<and> en_shutdown e2 = en_shutdown e"
  using assms
  by (simp add: worker_step_def update_state_def set_phase_def set_worker_def set_download_def emit_def find_download_def
      Let_def update_conv')

text \<open>C30. A pause is lost on every download whose worker has just found that it is not cancelled and is about to
  set its state: the pause returns without an error and cancels the worker, but with its next two steps the
  worker puts Downloading over Paused. The download then shows as running without a handle, its only worker is
  cancelled, and a resume is refused.\<close>

theorem pause_lost_at_start:
  assumes "find_download i e = Some d" and "ds_state (md_status d) = Queued" and "md_handle d = Some w"
    and "w < length (en_workers e)" and "wk_download (en_workers e ! w) = i"
    and "wk_phase (en_workers e ! w) = WStarting" and "\<not> en_shutdown e"
  shows "\<exists>e1 e2 e3 d'. pause i e = Inr e1 \<and> worker_step api w Go e1 = Some e2 \<and> worker_step api w Go e2 = Some e3 \<and>
    find_download i e3 = Some d' \<and> ds_state (md_status d') = Downloading \<and> md_handle d' = None \<and>
    wk_cancelled (en_workers e3 ! w) \<and> resume i e3 = Inl (EInvalidState ''resume'' ''Downloading'')"
proof -
  obtain e1 where e1: "pause i e = Inr e1" by (simp add: pause_def assms(1, 2) Let_def)
  have paused: "en_workers e1 = (en_workers e)[w := (en_workers e ! w)\<lparr>wk_cancelled := True\<rparr>]" "en_shutdown e1 = en_shutdown e"
    and d1: "\<exists>d1. find_download i e1 = Some d1 \<and> md_handle d1 = None \<and> ds_state (md_status d1) = Paused"
    using e1 assms
    by (auto simp: pause_def Let_def cancel_worker_def set_worker_def set_download_def emit_def find_download_def update_conv')
  obtain d1 where d1: "find_download i e1 = Some d1" "md_handle d1 = None" using d1 by blast
  have "w < length (en_workers e1)" "wk_download (en_workers e1 ! w) = i" "wk_phase (en_workers e1 ! w) = WStarting"
    using assms(4-6) by (simp_all add: paused)
  from starting_steps [OF this d1(1), of api] obtain e2 e3 where
    go: "worker_step api w Go e1 = Some e2" "worker_step api w Go e2 = Some e3"
    and d3: "find_download i e3 = Some (d1\<lparr>md_status := (md_status d1)\<lparr>ds_state := Downloading\<rparr>\<rparr>)"
    and w3: "en_workers e3 = (en_workers e1)[w := (en_workers e1 ! w)\<lparr>wk_phase := WFetching\<rparr>]"
      "en_shutdown e3 = en_shutdown e1"
    by blast
  have "wk_cancelled (en_workers e3 ! w)" using assms(4) by (simp add: w3 paused)
  moreover have "resume i e3 = Inl (EInvalidState ''resume'' ''Downloading'')"
    using assms(7) by (simp add: resume_def d3 w3 paused Let_def)
  ultimately show ?thesis using e1 go d3 d1(2) by (intro exI conjI) (assumption | simp)+
qed

lemma pause_lost_at_start_witness:
  "\<exists>e e1 e2 e3 d'. run_a (permit_a @ [Work 0 Go]) = Some e \<and> pause id_a e = Inr e1 \<and>
    worker_step counter_api 0 Go e1 = Some e2 \<and> worker_step counter_api 0 Go e2 = Some e3 \<and>
    find_download id_a e3 = Some d' \<and> ds_state (md_status d') = Downloading"
proof -
  obtain e d where e: "run_a (permit_a @ [Work 0 Go]) = Some e" "find_download id_a e = Some d"
    "ds_state (md_status d) = Queued" "md_handle d = Some 0" "0 < length (en_workers e)"
    "wk_download (en_workers e ! 0) = id_a" "wk_phase (en_workers e ! 0) = WStarting" "\<not> en_shutdown e"
    by (simp add: run_a_def permit_a_def start_a_def lifecycle_eval)
  show ?thesis using pause_lost_at_start [OF e(2-8), of counter_api] e(1) by blast
qed

text \<open>In such a run no call is left and no worker is alive in the end, and the download still shows as running.\<close>

lemma pause_lost_for_good:
  "\<exists>e d. run_a late_pause = Some e \<and> EvPaused id_a \<in> set (en_events e) \<and> en_calls e = [] \<and> live id_a e = {} \<and>
    find_download id_a e = Some d \<and> ds_state (md_status d) = Downloading \<and> md_handle d = None"
  by (simp add: run_a_def late_pause_def permit_a_def start_a_def lifecycle_eval live_def)

text \<open>Two resumes of one download, which both find it paused before either has started its worker.\<close>

definition two_resumes :: "action list" where
  "two_resumes = [AddHttp id_a ''u'' ''d'' None (options_new\<lparr>do_start_paused := True\<rparr>) '''' 0,
     Proceed 0 False, Proceed 0 False, Resume id_a, Resume id_a,
     Proceed 0 False, Proceed 1 False, Proceed 0 False, Proceed 1 False, Proceed 0 False, Proceed 0 False,
     Work 0 Poll, Work 0 Poll, Work 0 Go, Work 0 Go, Work 0 Go, Work 1 Poll, Work 1 Poll, Work 1 Go, Work 1 Go, Work 1 Go]"

text \<open>Without that discipline the engine does not keep to one worker: two overlapping resumes of a paused
  download both pass the check of its state and each starts a worker; the second handle replaces the first, so
  nothing can cancel the first worker any more, and both fetch into the same partial file.\<close>

theorem overlapping_resumes_two_writers:
  "\<exists>e d. engine_run counter_api possible two_resumes (engine_new counter_api 2 None) = Some e \<and> en_calls e = [] \<and>
    map wk_phase (en_workers e) = [WFetching, WFetching] \<and> map wk_download (en_workers e) = [id_a, id_a] \<and>
    map wk_cancelled (en_workers e) = [False, False] \<and> find_download id_a e = Some d \<and> md_handle d = Some 1"
  by (simp add: two_resumes_def lifecycle_eval)

text \<open>A background save that was started before a cancellation and runs after it.\<close>

definition late_save :: "action list" where
  "late_save = start_a @ [SetPriority id_a High, Cancel id_a, Work 0 SeeCancel, Proceed 0 False, Proceed 0 False, SaveNext 0]"

lemma late_save_resurrects:
  "\<exists>e s st. engine_run counter_api orderly late_save (engine_new counter_api 1 (Some empty_store)) = Some e \<and>
    find_download id_a e = None \<and> en_calls e = [] \<and> en_store e = Some s \<and> se_status (fst s id_a) = Some st"
  by (simp add: late_save_def start_a_def lifecycle_eval empty_store_def)

text \<open>What \<open>cancel\<close> deletes: the final file of an HTTP download only when it had completed.\<close>

lemma cancel_keeps_unfinished:
  assumes "cancel_target delete_files st = Some target" and "ds_kind st = KHttp" and "ds_state st \<noteq> Completed"
    and "r \<in> set (cancel_removals partial_path is_file is_directory target)"
  shows "r = RemoveFile (partial_path (fst target)) \<and> is_file (partial_path (fst target))"
  using assms by (auto simp: cancel_target_def cancel_removals_def Let_def split: if_splits option.splits sum.splits)

end
