(* ===== verification/EngineApi.thy ===== *)
theory EngineApi
  imports Lifecycle Magnet
begin

text \<open>
  The rest of the interface of \<open>src/engine.rs\<close> that concerns single downloads: the lists and statistics, the
  snapshots and outcomes of the batch operations, the restoration of persisted downloads at start-up, and the
  builder of \<open>src/protocol/options.rs\<close>. A \<open>HashMap\<close> is iterated in the order of the association list.
\<close>

section \<open>The builder of the options\<close>

definition opt_priority :: "download_priority \<Rightarrow> download_options \<Rightarrow> download_options" where
  "opt_priority p opts = opts\<lparr>do_priority := p\<rparr>"

definition opt_save_dir :: "string \<Rightarrow> download_options \<Rightarrow> download_options" where
  "opt_save_dir dir opts = opts\<lparr>do_save_dir := Some dir\<rparr>"

definition opt_filename :: "string \<Rightarrow> download_options \<Rightarrow> download_options" where
  "opt_filename name opts = opts\<lparr>do_filename := Some name\<rparr>"

definition opt_user_agent :: "string \<Rightarrow> download_options \<Rightarrow> download_options" where
  "opt_user_agent ua opts = opts\<lparr>do_user_agent := Some ua\<rparr>"

definition opt_referer :: "string \<Rightarrow> download_options \<Rightarrow> download_options" where
  "opt_referer referer opts = opts\<lparr>do_referer := Some referer\<rparr>"

definition opt_header :: "string \<Rightarrow> string \<Rightarrow> download_options \<Rightarrow> download_options" where
  "opt_header key val opts = opts\<lparr>do_headers := do_headers opts @ [(key, val)]\<rparr>"

definition opt_cookies :: "string list \<Rightarrow> download_options \<Rightarrow> download_options" where
  "opt_cookies cookies opts = opts\<lparr>do_cookies := Some cookies\<rparr>"

definition opt_checksum :: "expected_checksum \<Rightarrow> download_options \<Rightarrow> download_options" where
  "opt_checksum checksum opts = opts\<lparr>do_checksum := Some checksum\<rparr>"

definition opt_mirror :: "string \<Rightarrow> download_options \<Rightarrow> download_options" where
  "opt_mirror url opts = opts\<lparr>do_mirrors := do_mirrors opts @ [url]\<rparr>"

definition opt_max_connections :: "nat \<Rightarrow> download_options \<Rightarrow> download_options" where
  "opt_max_connections n opts = opts\<lparr>do_max_connections := Some n\<rparr>"

definition opt_max_download_speed :: "nat \<Rightarrow> download_options \<Rightarrow> download_options" where
  "opt_max_download_speed bps opts = opts\<lparr>do_max_download_speed := Some bps\<rparr>"

definition opt_max_upload_speed :: "nat \<Rightarrow> download_options \<Rightarrow> download_options" where
  "opt_max_upload_speed bps opts = opts\<lparr>do_max_upload_speed := Some bps\<rparr>"

definition opt_seed_ratio :: "float_bits \<Rightarrow> download_options \<Rightarrow> download_options" where
  "opt_seed_ratio ratio opts = opts\<lparr>do_seed_ratio := Some ratio\<rparr>"

definition opt_selected_files :: "nat list \<Rightarrow> download_options \<Rightarrow> download_options" where
  "opt_selected_files indices opts = opts\<lparr>do_selected_files := Some indices\<rparr>"

definition opt_sequential :: "bool \<Rightarrow> download_options \<Rightarrow> download_options" where
  "opt_sequential enabled opts = opts\<lparr>do_sequential := Some enabled\<rparr>"

section \<open>Lists and statistics\<close>

definition statuses :: "'s engine \<Rightarrow> download_status list" where
  "statuses e = map (\<lambda>(i, d). md_status d) (en_downloads e)"

definition status :: "download_id \<Rightarrow> 's engine \<Rightarrow> download_status option" where
  "status i e = map_option md_status (find_download i e)"

definition list_downloads :: "'s engine \<Rightarrow> download_status list" where
  "list_downloads e = statuses e"

definition active_downloads :: "'s engine \<Rightarrow> download_status list" where
  "active_downloads e = filter (\<lambda>st. is_active (ds_state st)) (statuses e)"

definition waiting_downloads :: "'s engine \<Rightarrow> download_status list" where
  "waiting_downloads e = filter (\<lambda>st. ds_state st = Queued) (statuses e)"

fun is_stopped :: "download_state \<Rightarrow> bool" where
  "is_stopped Paused = True"
| "is_stopped Completed = True"
| "is_stopped (StError _ _ _) = True"
| "is_stopped _ = False"

definition stopped_downloads :: "'s engine \<Rightarrow> download_status list" where
  "stopped_downloads e = filter (\<lambda>st. is_stopped (ds_state st)) (statuses e)"

definition download_priority_of :: "download_id \<Rightarrow> 's engine \<Rightarrow> download_priority option" where
  "download_priority_of i e = map_option (\<lambda>d. ds_priority (md_status d)) (find_download i e)"

record global_stats =
  gs_download_speed :: nat
  gs_upload_speed :: nat
  gs_num_active :: nat
  gs_num_waiting :: nat
  gs_num_stopped :: nat

definition default_stats :: global_stats where
  "default_stats = \<lparr>gs_download_speed = 0, gs_upload_speed = 0, gs_num_active = 0, gs_num_waiting = 0, gs_num_stopped = 0\<rparr>"

text \<open>One turn of the loop of \<open>global_stats\<close>; the speeds are added as \<open>u64\<close>.\<close>

fun add_stats :: "download_status \<Rightarrow> global_stats \<Rightarrow> global_stats" where
  "add_stats st g =
    (let p = ds_progress st;
         active = g\<lparr>gs_num_active := gs_num_active g + 1,
                    gs_download_speed := u64 (gs_download_speed g + dp_download_speed p),
                    gs_upload_speed := u64 (gs_upload_speed g + dp_upload_speed p)\<rparr>;
         stopped = g\<lparr>gs_num_stopped := gs_num_stopped g + 1\<rparr>
     in case ds_state st of
          Downloading \<Rightarrow> active
        | Seeding \<Rightarrow> active
        | Connecting \<Rightarrow> active
        | Queued \<Rightarrow> g\<lparr>gs_num_waiting := gs_num_waiting g + 1\<rparr>
        | Paused \<Rightarrow> stopped
        | Completed \<Rightarrow> stopped
        | StError _ _ _ \<Rightarrow> stopped)"

definition global_stats_of :: "'s engine \<Rightarrow> global_stats" where
  "global_stats_of e = fold add_stats (statuses e) default_stats"

text \<open>Every download is in exactly one of the three lists, and the counters are their lengths.\<close>

lemma lists_partition:
  "mset (list_downloads e) = mset (active_downloads e) + mset (waiting_downloads e) + mset (stopped_downloads e)"
proof -
  have "mset sts = mset (filter (\<lambda>st. is_active (ds_state st)) sts) + mset (filter (\<lambda>st. ds_state st = Queued) sts) +
      mset (filter (\<lambda>st. is_stopped (ds_state st)) sts)" for sts :: "download_status list"
  proof (induction sts)
    case (Cons st sts)
    then show ?case by (cases "ds_state st") auto
  qed simp
  then show ?thesis
    by (simp add: list_downloads_def active_downloads_def waiting_downloads_def stopped_downloads_def)
qed

lemma fold_add_stats:
  fixes sts :: "download_status list"
  defines "act \<equiv> filter (\<lambda>st. is_active (ds_state st)) sts"
  shows "gs_num_active (fold add_stats sts g) = gs_num_active g + length act"
    and "gs_num_waiting (fold add_stats sts g) = gs_num_waiting g + length (filter (\<lambda>st. ds_state st = Queued) sts)"
    and "gs_num_stopped (fold add_stats sts g) = gs_num_stopped g + length (filter (\<lambda>st. is_stopped (ds_state st)) sts)"
    and "gs_download_speed g < 2 ^ 64 \<Longrightarrow>
      gs_download_speed (fold add_stats sts g) =
        u64 (gs_download_speed g + (\<Sum>st\<leftarrow>act. dp_download_speed (ds_progress st)))"
  unfolding act_def
proof (induction sts arbitrary: g)
  case (Cons st sts)
  case 1 show ?case using Cons.IH(1) by (cases "ds_state st") (auto simp: Let_def)
  case 2 show ?case using Cons.IH(2) by (cases "ds_state st") (auto simp: Let_def)
  case 3 show ?case using Cons.IH(3) by (cases "ds_state st") (auto simp: Let_def)
  case 4 then show ?case using Cons.IH(4)
    by (cases "ds_state st") (auto simp: Let_def u64_def mod_simps add.assoc)
qed (simp_all add: u64_def)

lemma global_stats_exact:
  "gs_num_active (global_stats_of e) = length (active_downloads e)"
  "gs_num_waiting (global_stats_of e) = length (waiting_downloads e)"
  "gs_num_stopped (global_stats_of e) = length (stopped_downloads e)"
  by (simp_all add: global_stats_of_def fold_add_stats default_stats_def active_downloads_def waiting_downloads_def
      stopped_downloads_def)

section \<open>Batches\<close>

record batch_result =
  br_succeeded :: "download_id list"
  br_skipped :: "download_id list"
  br_failed :: "(download_id \<times> engine_error) list"

definition batch_empty :: batch_result where
  "batch_empty = \<lparr>br_succeeded = [], br_skipped = [], br_failed = []\<rparr>"

text \<open>The downloads a batch is applied to, as the snapshot at its start has them.\<close>

definition pause_all_ids :: "'s engine \<Rightarrow> download_id list" where
  "pause_all_ids e =
    map fst (filter (\<lambda>(i, d). is_active (ds_state (md_status d)) \<or> ds_state (md_status d) = Queued) (en_downloads e))"

definition resume_all_ids :: "'s engine \<Rightarrow> download_id list" where
  "resume_all_ids e = map fst (filter (\<lambda>(i, d). ds_state (md_status d) = Paused) (en_downloads e))"

definition cancel_all_ids :: "'s engine \<Rightarrow> download_id list" where
  "cancel_all_ids e = map fst (en_downloads e)"

text \<open>How the outcome for one download is recorded: by \<open>pause_all\<close> and \<open>resume_all\<close>, and by \<open>cancel_all\<close>.\<close>

fun batch_note :: "download_id \<Rightarrow> 'a result \<Rightarrow> batch_result \<Rightarrow> batch_result" where
  "batch_note i (Inr _) b = b\<lparr>br_succeeded := br_succeeded b @ [i]\<rparr>"
| "batch_note i (Inl (EInvalidState _ _)) b = b\<lparr>br_skipped := br_skipped b @ [i]\<rparr>"
| "batch_note i (Inl (ENotFound _)) b = b\<lparr>br_skipped := br_skipped b @ [i]\<rparr>"
| "batch_note i (Inl err) b = b\<lparr>br_failed := br_failed b @ [(i, err)]\<rparr>"

fun cancel_note :: "download_id \<Rightarrow> 'a result \<Rightarrow> batch_result \<Rightarrow> batch_result" where
  "cancel_note i (Inr _) b = b\<lparr>br_succeeded := br_succeeded b @ [i]\<rparr>"
| "cancel_note i (Inl (ENotFound _)) b = b\<lparr>br_skipped := br_skipped b @ [i]\<rparr>"
| "cancel_note i (Inl err) b = b\<lparr>br_failed := br_failed b @ [(i, err)]\<rparr>"

text \<open>What a snapshot selects is what the operation accepts at that moment.\<close>

lemma snapshot_accepted:
  assumes "distinct (map fst (en_downloads e))"
  shows "i \<in> set (pause_all_ids e) \<longleftrightarrow> (\<exists>e'. pause i e = Inr e')"
    and "\<not> en_shutdown e \<Longrightarrow> i \<in> set (resume_all_ids e) \<Longrightarrow>
      (\<exists>e'. resume i e = Inr e') \<or> resume i e = Inl (EInternal ''HTTP download missing URL'')"
    and "i \<in> set (cancel_all_ids e) \<longleftrightarrow> (\<exists>e'. cancel i e = Inr e')"
proof -
  have found: "find_download i e = Some d \<longleftrightarrow> (i, d) \<in> set (en_downloads e)" for d
    using map_of_eq_Some_iff [OF assms, of i d] by (simp add: find_download_def)
  have "(\<exists>e'. pause i e = Inr e') \<longleftrightarrow>
      (\<exists>d. find_download i e = Some d \<and> (is_active (ds_state (md_status d)) \<or> ds_state (md_status d) = Queued))"
    by (simp add: pause_def not_found_def Let_def split: option.split)
  then show "i \<in> set (pause_all_ids e) \<longleftrightarrow> (\<exists>e'. pause i e = Inr e')"
    unfolding found by (auto simp: pause_all_ids_def image_iff)
  show "(\<exists>e'. resume i e = Inr e') \<or> resume i e = Inl (EInternal ''HTTP download missing URL'')" if run: "\<not> en_shutdown e" and i: "i \<in> set (resume_all_ids e)"
  proof -
    obtain d where "find_download i e = Some d" "ds_state (md_status d) = Paused"
      using i found by (auto simp: resume_all_ids_def)
    with run show ?thesis by (simp add: resume_def Let_def split: option.split)
  qed
  have "(\<exists>e'. cancel i e = Inr e') \<longleftrightarrow> (\<exists>d. find_download i e = Some d)"
    by (simp add: cancel_def not_found_def Let_def split: option.split)
  then show "i \<in> set (cancel_all_ids e) \<longleftrightarrow> (\<exists>e'. cancel i e = Inr e')"
    unfolding found by (force simp: cancel_all_ids_def)
qed

section \<open>Start-up\<close>

fun restored_state :: "download_state \<Rightarrow> download_state" where
  "restored_state Downloading = Paused"
| "restored_state Connecting = Paused"
| "restored_state Seeding = Paused"
| "restored_state Queued = Paused"
| "restored_state st = st"

definition restored_status :: "download_status \<Rightarrow> download_status" where
  "restored_status st =
    st\<lparr>ds_state := restored_state (ds_state st),
       ds_progress := (ds_progress st)\<lparr>dp_download_speed := 0, dp_upload_speed := 0, dp_connections := 0\<rparr>\<rparr>"

text \<open>One turn of \<open>load_persisted_downloads\<close>: \<open>runtime\<close> gives the options in the persisted runtime metadata,
  if they can be read, \<open>saved\<close> the persisted segments or the error of loading them, which ends the start-up.
  Recursive groups are left out.\<close>

definition restored_download :: "download_options option \<Rightarrow> segment list option \<Rightarrow> download_status \<Rightarrow> managed_download" where
  "restored_download options segs st =
    \<lparr>md_status = restored_status st, md_handle = None, md_options = options, md_cached_segments = segs,
     md_draining = None\<rparr>"

definition load_cached :: "(download_id \<Rightarrow> segment list result) \<Rightarrow> download_status \<Rightarrow> segment list option result" where
  "load_cached saved st =
    (if ds_kind st = KHttp
     then rbind (saved (ds_id st)) (\<lambda>segs. Inr (if segs = [] then None else Some segs))
     else Inr None)"

fun restore_all ::
  "(download_id \<Rightarrow> download_options option) \<Rightarrow> (download_id \<Rightarrow> segment list result) \<Rightarrow> download_status list \<Rightarrow> 's engine
    \<Rightarrow> 's engine result"
where
  "restore_all runtime saved [] e = Inr e"
| "restore_all runtime saved (st # sts) e =
    rbind (load_cached saved st) (\<lambda>segs.
      restore_all runtime saved sts (set_download (ds_id st) (restored_download (runtime (ds_id st)) segs st) e))"

text \<open>\<open>persisted\<close> and \<open>runtime\<close> are the outcomes of \<open>load_all\<close> and \<open>load_all_runtime_metadata\<close>. The ids returned
  are those that \<open>build\<close> resumes next.\<close>

definition load_persisted_downloads ::
  "download_status list result \<Rightarrow> (download_id \<Rightarrow> download_options option) result \<Rightarrow> (download_id \<Rightarrow> segment list result)
    \<Rightarrow> 's engine \<Rightarrow> (download_id list \<times> 's engine) result"
where
  "load_persisted_downloads persisted runtime saved e =
    rbind persisted (\<lambda>sts. rbind runtime (\<lambda>runtime. rbind (restore_all runtime saved sts e) (\<lambda>e.
      Inr (map ds_id (filter (\<lambda>st. ds_state st = Queued) sts), e))))"

text \<open>What \<open>resume\<close> starts: the URL of an HTTP download, or, for a torrent without a handle, its stored metainfo
  or else its magnet link. \<open>stored\<close> is the outcome of \<open>load_torrent_data\<close>.\<close>

datatype resume_start = StartHttp string download_options | StartTorrent metainfo | StartMagnet magnet_uri

definition torrent_recovery ::
  "(bytes \<Rightarrow> bytes) \<Rightarrow> bytes option result \<Rightarrow> download_status \<Rightarrow> resume_start result" where
  "torrent_recovery sha1 stored st =
    rbind stored (\<lambda>data.
      case data of
        Some bytes \<Rightarrow> rbind (parse_metainfo sha1 bytes) (\<lambda>m. Inr (StartTorrent m))
      | None \<Rightarrow>
          (case dm_magnet_uri (ds_metadata st) of
             Some uri \<Rightarrow> rbind (magnet_parse uri) (\<lambda>m. Inr (StartMagnet m))
           | None \<Rightarrow> Inl (EInternal ''Torrent download has no handle and no stored data for recovery'')))"

definition resume_target ::
  "(bytes \<Rightarrow> bytes) \<Rightarrow> (download_id \<Rightarrow> bytes option result) \<Rightarrow> download_id \<Rightarrow> 's engine \<Rightarrow> resume_start result" where
  "resume_target sha1 stored i e =
    rbind (resume i e) (\<lambda>_.
      case find_download i e of
        None \<Rightarrow> not_found i
      | Some d \<Rightarrow>
          (case (ds_kind (md_status d), dm_url (ds_metadata (md_status d))) of
             (KHttp, Some url) \<Rightarrow> Inr (StartHttp url (resume_options d))
           | (KHttp, None) \<Rightarrow> Inl (EInternal ''HTTP download missing URL'')
           | _ \<Rightarrow> torrent_recovery sha1 (stored i) (md_status d)))"

text \<open>What there is to start a persisted download from, and what it is.\<close>

definition startable :: "(bytes \<Rightarrow> bytes) \<Rightarrow> (download_id \<Rightarrow> bytes option result) \<Rightarrow> download_status \<Rightarrow> bool" where
  "startable sha1 stored st \<longleftrightarrow>
    (if ds_kind st = KHttp then dm_url (ds_metadata st) \<noteq> None
     else (\<exists>bytes m. stored (ds_id st) = Inr (Some bytes) \<and> parse_metainfo sha1 bytes = Inr m) \<or>
       (\<exists>uri m. stored (ds_id st) = Inr None \<and> dm_magnet_uri (ds_metadata st) = Some uri \<and> magnet_parse uri = Inr m))"

lemma restore_others:
  "restore_all runtime saved sts e = Inr e' \<Longrightarrow> i \<notin> ds_id ` set sts \<Longrightarrow> find_download i e' = find_download i e"
  by (induction sts arbitrary: e) (auto simp: rbind_Inr_iff)

lemma restore_shutdown:
  "restore_all runtime saved sts e = Inr e' \<Longrightarrow> en_shutdown e' = en_shutdown e \<and> en_calls e' = en_calls e"
  by (induction sts arbitrary: e) (fastforce simp: rbind_Inr_iff)+

lemma restored_found:
  assumes "restore_all runtime saved sts e = Inr e'" and "distinct (map ds_id sts)" and "st \<in> set sts"
  shows "\<exists>segs. load_cached saved st = Inr segs \<and>
    find_download (ds_id st) e' = Some (restored_download (runtime (ds_id st)) segs st)"
  using assms
proof (induction sts arbitrary: e)
  case (Cons s sts)
  obtain segs where segs: "load_cached saved s = Inr segs" and rest: "restore_all runtime saved sts
      (set_download (ds_id s) (restored_download (runtime (ds_id s)) segs s) e) = Inr e'"
    using Cons.prems(1) by (auto simp: rbind_Inr_iff)
  show ?case
  proof (cases "st = s")
    case True
    then have "ds_id st \<notin> ds_id ` set sts" using Cons.prems(2) by simp
    then show ?thesis using restore_others [OF rest] segs by (simp add: True)
  next
    case False
    then show ?thesis using Cons.IH [OF rest] Cons.prems(2, 3) by simp
  qed
qed simp

text \<open>The start-up succeeds exactly when the statuses, the runtime metadata and the segments of every HTTP
  download can be loaded: one unreadable list of segments keeps the engine from starting.\<close>

lemma start_up_iff:
  "(\<exists>r. load_persisted_downloads persisted runtime saved e = Inr r) \<longleftrightarrow>
    (\<exists>sts rt. persisted = Inr sts \<and> runtime = Inr rt \<and>
      (\<forall>st \<in> set sts. ds_kind st = KHttp \<longrightarrow> (\<exists>segs. saved (ds_id st) = Inr segs)))"
proof -
  have all: "(\<exists>e'. restore_all rt saved sts e = Inr e') \<longleftrightarrow>
      (\<forall>st \<in> set sts. ds_kind st = KHttp \<longrightarrow> (\<exists>segs. saved (ds_id st) = Inr segs))" for rt sts
  proof (induction sts arbitrary: e)
    case (Cons st sts)
    have "(\<exists>x. load_cached saved st = Inr x) \<longleftrightarrow> (ds_kind st = KHttp \<longrightarrow> (\<exists>segs. saved (ds_id st) = Inr segs))"
      by (auto simp: load_cached_def rbind_Inr_iff)
    then show ?case using Cons.IH by (simp add: rbind_Inr_iff) blast
  qed simp
  show ?thesis
    by (cases persisted; cases runtime) (simp_all add: load_persisted_downloads_def rbind_Inr_iff all)
qed

lemma restored_state_cases: "restored_state st = Paused \<or> restored_state st = Completed \<or> (\<exists>k m r. restored_state st = StError k m r)"
  by (cases st) simp_all

lemma restored_resumable: "st \<noteq> Completed \<Longrightarrow> can_resume (restored_state st)"
  by (cases st) simp_all

lemma restored_metadata [simp]:
  "ds_metadata (restored_status st) = ds_metadata st" "ds_kind (restored_status st) = ds_kind st"
  "ds_state (restored_status st) = restored_state (ds_state st)"
  by (simp_all add: restored_status_def)

text \<open>C31. After a start-up that succeeds on what a previous run persisted, in whatever states a crash left it, no
  download is stuck: each is known under its id, stopped, without a worker, with its saved segments at hand. Unless
  it had completed, a resume starts it, provided there is something to start it from: the URL of an HTTP download,
  for a torrent its stored metainfo or, where none is stored, its magnet link. The ids to be resumed at once are
  exactly those that were queued.\<close>

theorem restart_strands_nothing:
  assumes "distinct (map ds_id sts)" and "\<not> en_shutdown e" and "st \<in> set sts"
    and "load_persisted_downloads (Inr sts) runtime saved e = Inr (queued, e')"
  shows "(\<exists>d. find_download (ds_id st) e' = Some d \<and> is_stopped (ds_state (md_status d)) \<and>
      md_handle d = None \<and> md_draining d = None \<and>
      (ds_state st = Completed \<longleftrightarrow> ds_state (md_status d) = Completed) \<and>
      (ds_kind st = KHttp \<longrightarrow> Inr (case md_cached_segments d of None \<Rightarrow> [] | Some x \<Rightarrow> x) = saved (ds_id st))) \<and>
    (ds_state st \<noteq> Completed \<and> startable sha1 stored st \<longrightarrow>
      (\<exists>target e''. resume_target sha1 stored (ds_id st) e' = Inr target \<and> resume (ds_id st) e' = Inr e'' \<and>
        (ds_kind st = KHttp \<longrightarrow> (\<exists>opts. en_calls e'' = en_calls e' @ [ResumeCall (ds_id st) opts])))) \<and>
    (ds_id st \<in> set queued \<longleftrightarrow> ds_state st = Queued)"
proof -
  obtain rt where restore: "restore_all rt saved sts e = Inr e'"
    and queued: "queued = map ds_id (filter (\<lambda>st. ds_state st = Queued) sts)"
    using assms(4) by (auto simp: load_persisted_downloads_def rbind_Inr_iff)
  let ?i = "ds_id st"
  obtain segs where cached: "load_cached saved st = Inr segs"
    and found: "find_download ?i e' = Some (restored_download (rt ?i) segs st)"
    using restored_found [OF restore assms(1, 3)] by blast
  let ?d = "restored_download (rt ?i) segs st"
  have running: "\<not> en_shutdown e'" using restore_shutdown [OF restore] assms(2) by simp
  have same_segs: "ds_kind st = KHttp \<longrightarrow> Inr (case segs of None \<Rightarrow> [] | Some x \<Rightarrow> x) = saved ?i"
    using cached by (auto simp: load_cached_def rbind_Inr_iff)
  have state: "is_stopped (restored_state (ds_state st))" "ds_state st = Completed \<longleftrightarrow> restored_state (ds_state st) = Completed"
    by (cases "ds_state st"; simp)+
  have d: "is_stopped (ds_state (md_status ?d)) \<and> md_handle ?d = None \<and> md_draining ?d = None \<and>
      (ds_state st = Completed \<longleftrightarrow> ds_state (md_status ?d) = Completed) \<and>
      (ds_kind st = KHttp \<longrightarrow> Inr (case md_cached_segments ?d of None \<Rightarrow> [] | Some x \<Rightarrow> x) = saved ?i)"
    using same_segs state by (simp add: restored_download_def)
  have started: "\<exists>target e''. resume_target sha1 stored ?i e' = Inr target \<and> resume ?i e' = Inr e'' \<and>
        (ds_kind st = KHttp \<longrightarrow> (\<exists>opts. en_calls e'' = en_calls e' @ [ResumeCall ?i opts]))"
    if open_state: "ds_state st \<noteq> Completed" and source: "startable sha1 stored st"
  proof (cases "ds_kind st = KHttp")
    case True
    then obtain url where url: "dm_url (ds_metadata st) = Some url" using source by (auto simp: startable_def)
    then have "resume ?i e' = Inr (e'\<lparr>en_calls := en_calls e' @ [ResumeCall ?i (resume_options ?d)]\<rparr>)"
      using running restored_resumable [OF open_state] True by (simp add: resume_def found restored_download_def Let_def)
    then show ?thesis using True url by (simp add: resume_target_def found restored_download_def)
  next
    case False
    then have resumed: "resume ?i e' = Inr e'"
      using running restored_resumable [OF open_state] by (simp add: resume_def found restored_download_def Let_def)
    have "\<exists>target. torrent_recovery sha1 (stored ?i) (restored_status st) = Inr target"
      using source False by (auto simp: startable_def torrent_recovery_def)
    then show ?thesis
      using False by (cases "ds_kind st") (simp_all add: resume_target_def resumed found restored_download_def)
  qed
  have "?i \<in> set queued \<longleftrightarrow> ds_state st = Queued"
    using assms(1, 3) by (auto simp: queued distinct_map dest: inj_onD)
  then show ?thesis using d started found by blast
qed

definition crashed :: "download_status list" where
  "crashed = [(new_status id_a ''u'' ''d'' None options_new 0)\<lparr>ds_state := Downloading\<rparr>,
    new_status id_b ''v'' ''d'' None options_new 0]"

lemma restart_strands_nothing_witness:
  "\<exists>q e' target e''. load_persisted_downloads (Inr crashed) (Inr (\<lambda>_. None)) (\<lambda>_. Inr []) (engine_new counter_api 1 None) =
      Inr (q, e') \<and> resume_target id (\<lambda>_. Inr None) id_b e' = Inr target \<and> resume id_b e' = Inr e''"
proof -
  let ?st = "new_status id_b ''v'' ''d'' None options_new 0"
  have st: "distinct (map ds_id crashed)" "?st \<in> set crashed" "ds_id ?st = id_b" "ds_state ?st \<noteq> Completed"
      "startable id (\<lambda>_. Inr None) ?st"
    by (simp_all add: crashed_def new_status_def start_paused_of_def options_new_def startable_def)
  have "\<not> en_shutdown (engine_new counter_api 1 None)" by (simp add: engine_new_def)
  moreover obtain q e' where load: "load_persisted_downloads (Inr crashed) (Inr (\<lambda>_. None)) (\<lambda>_. Inr [])
      (engine_new counter_api 1 None) = Inr (q, e')"
    using start_up_iff [of "Inr crashed" "Inr (\<lambda>_. None)" "\<lambda>_. Inr []" "engine_new counter_api 1 None"] by auto
  ultimately show ?thesis
    using restart_strands_nothing [OF st(1) _ st(2) load, of id "\<lambda>_. Inr None"] st(3-5) by auto
qed

end
