(* ===== verification/Tracker.thy ===== *)
theory Tracker
  imports Metainfo Magnet SockAddr HttpResume
begin

text \<open>
  The tracker client (\<open>src/torrent/tracker.rs\<close>): announces and scrapes over HTTP (BEP 3) and UDP (BEP 15).
  The answer of the HTTP library and the datagrams a socket receives are arguments; transaction ids
  and instants too. \<open>urlencoding::encode\<close> and \<open>hex::decode\<close> are parameters. The WebSocket announce
  is not modelled but for its binary strings.
\<close>

section \<open>Requests and responses\<close>

datatype announce_event = AnnNone | AnnStarted | AnnStopped | AnnCompleted

fun to_http_string :: "announce_event \<Rightarrow> string" where
  "to_http_string AnnNone = ''''"
| "to_http_string AnnStarted = ''started''"
| "to_http_string AnnStopped = ''stopped''"
| "to_http_string AnnCompleted = ''completed''"

fun to_udp_id :: "announce_event \<Rightarrow> 32 word" where
  "to_udp_id AnnNone = 0"
| "to_udp_id AnnCompleted = 1"
| "to_udp_id AnnStarted = 2"
| "to_udp_id AnnStopped = 3"

record announce_request =
  ar_info_hash :: sha1_hash
  ar_peer_id :: bytes
  ar_port :: "16 word"
  ar_uploaded :: "64 word"
  ar_downloaded :: "64 word"
  ar_left :: "64 word"
  ar_event :: announce_event
  ar_compact :: bool
  ar_numwant :: "32 word option"
  ar_key :: "32 word option"
  ar_tracker_id :: "string option"

record peer_addr =
  pa_ip :: string
  pa_port :: nat
  pa_peer_id :: "bytes option"

record announce_response =
  rs_interval :: nat
  rs_min_interval :: "nat option"
  rs_tracker_id :: "string option"
  rs_complete :: "nat option"
  rs_incomplete :: "nat option"
  rs_peers :: "peer_addr list"
  rs_warning :: "string option"

record scrape_info =
  si_info_hash :: sha1_hash
  si_complete :: nat
  si_incomplete :: nat
  si_downloaded :: nat
  si_name :: "string option"

definition max_peers :: nat where "max_peers = 1000"

text \<open>The clamp to the least and the greatest announce interval, one minute and one hour.\<close>

definition clamp_interval :: "nat \<Rightarrow> nat" where
  "clamp_interval n = (if n < 60 then 60 else if 3600 < n then 3600 else n)"

definition tracker_error :: "string \<Rightarrow> engine_error" where
  "tracker_error m = err_protocol TrackerError m"

section \<open>HTTP announces\<close>

text \<open>\<open>enc\<close> is \<open>urlencoding::encode\<close>.\<close>

definition build_http_announce_url :: "(string \<Rightarrow> string) \<Rightarrow> string \<Rightarrow> announce_request \<Rightarrow> string" where
  "build_http_announce_url enc tracker_url r =
    tracker_url @ (if CHR ''?'' \<in> set tracker_url then ''&'' else ''?'')
     @ ''info_hash='' @ concat (map percent_byte (ar_info_hash r))
     @ ''&peer_id='' @ concat (map percent_byte (ar_peer_id r))
     @ ''&port='' @ show_nat (unat (ar_port r))
     @ ''&uploaded='' @ show_nat (unat (ar_uploaded r))
     @ ''&downloaded='' @ show_nat (unat (ar_downloaded r))
     @ ''&left='' @ show_nat (unat (ar_left r))
     @ (if ar_compact r then ''&compact=1'' else [])
     @ (if to_http_string (ar_event r) \<noteq> [] then ''&event='' @ to_http_string (ar_event r) else [])
     @ (case ar_numwant r of Some n \<Rightarrow> ''&numwant='' @ show_nat (unat n) | None \<Rightarrow> [])
     @ (case ar_key r of Some k \<Rightarrow> ''&key='' @ show_nat (unat k) | None \<Rightarrow> [])
     @ (case ar_tracker_id r of Some t \<Rightarrow> ''&trackerid='' @ enc t | None \<Rightarrow> [])"

text \<open>\<open>Ipv4Addr\<close> and \<open>Ipv6Addr\<close> as text; an IPv6 address is written with its longest run of two or
  more zero segments, the first of the longest, as a double colon.\<close>

definition show_ipv4 :: "bytes \<Rightarrow> string" where
  "show_ipv4 c = show_nat (unat (c ! 0)) @ ''.'' @ show_nat (unat (c ! 1)) @ ''.'' @ show_nat (unat (c ! 2)) @ ''.''
    @ show_nat (unat (c ! 3))"

fun show_hex :: "nat \<Rightarrow> string" where
  "show_hex n = (if n < 16 then [hex_char n] else show_hex (n div 16) @ [hex_char (n mod 16)])"

declare show_hex.simps [simp del]

definition ipv6_segments :: "bytes \<Rightarrow> nat list" where
  "ipv6_segments c = map (\<lambda>p. unat (of_be16 (p ! 0) (p ! 1))) (chunks_exact 2 c)"

text \<open>The loop over the segments: the index, the longest span so far and the current one (start, length).\<close>

fun zero_span :: "nat \<Rightarrow> nat \<times> nat \<Rightarrow> nat \<times> nat \<Rightarrow> nat list \<Rightarrow> nat \<times> nat" where
  "zero_span i longest current [] = longest"
| "zero_span i longest current (s # ss) =
    (if s = 0 then
       (let current = (if snd current = 0 then (i, 1) else (fst current, snd current + 1));
            longest = (if snd longest < snd current then current else longest)
        in zero_span (i + 1) longest current ss)
     else zero_span (i + 1) longest (0, 0) ss)"

fun join_with :: "string \<Rightarrow> string list \<Rightarrow> string" where
  "join_with sep [] = []"
| "join_with sep [s] = s"
| "join_with sep (s # ss) = s @ sep @ join_with sep ss"

definition show_ipv6 :: "bytes \<Rightarrow> string" where
  "show_ipv6 c =
    (if take 12 c = replicate 10 0 @ [0xff, 0xff] then ''::ffff:'' @ show_ipv4 (drop 12 c)
     else
       (let ss = ipv6_segments c; hex = (\<lambda>ss. join_with '':'' (map show_hex ss)) in
        case zero_span 0 (0, 0) (0, 0) ss of
          (start, len) \<Rightarrow>
            if 1 < len then hex (take start ss) @ ''::'' @ hex (drop (start + len) ss) else hex ss))"

definition peer_v4 :: "bytes \<Rightarrow> peer_addr" where
  "peer_v4 c = \<lparr>pa_ip = show_ipv4 c, pa_port = unat (of_be16 (c ! 4) (c ! 5)), pa_peer_id = None\<rparr>"

definition peer_v6 :: "bytes \<Rightarrow> peer_addr" where
  "peer_v6 c = \<lparr>pa_ip = show_ipv6 (take 16 c), pa_port = unat (of_be16 (c ! 16) (c ! 17)), pa_peer_id = None\<rparr>"

text \<open>One entry of a list of peers; \<open>None\<close> for a malformed one, which is skipped.\<close>

definition dict_peer :: "bencode \<Rightarrow> peer_addr option" where
  "dict_peer item =
    Option.bind (as_dict item) (\<lambda>d.
      Option.bind (Option.bind (dget d ''ip'') as_string) (\<lambda>ip.
        Option.bind (Option.bind (dget d ''port'') as_uint) (\<lambda>p.
          if p < 2 ^ 16 then
            Some \<lparr>pa_ip = ip, pa_port = p,
              pa_peer_id = Option.bind (Option.bind (dget d ''peer id'') as_raw) (\<lambda>b. if length b = 20 then Some b else None)\<rparr>
          else None)))"

fun dict_peers :: "nat \<Rightarrow> bencode list \<Rightarrow> peer_addr list" where
  "dict_peers n [] = []"
| "dict_peers n (item # items) =
    (if max_peers \<le> n then []
     else case dict_peer item of
            None \<Rightarrow> dict_peers n items
          | Some p \<Rightarrow> p # dict_peers (n + 1) items)"

definition parse_peers :: "bencode option \<Rightarrow> peer_addr list result" where
  "parse_peers v =
    (case v of
       None \<Rightarrow> Inr []
     | Some (BBytes data) \<Rightarrow>
         if length data mod 6 \<noteq> 0 then Inl (tracker_error ''Invalid compact peers length'')
         else Inr (map peer_v4 (take max_peers (chunks_exact 6 data)))
     | Some (BList items) \<Rightarrow> Inr (dict_peers 0 items)
     | Some _ \<Rightarrow> Inl (tracker_error ''Invalid peers format''))"

definition parse_peers_ipv6 :: "bencode option \<Rightarrow> peer_addr list result" where
  "parse_peers_ipv6 v =
    (case v of
       Some (BBytes data) \<Rightarrow>
         if length data mod 18 \<noteq> 0 then Inl (tracker_error ''Invalid compact peers6 length'')
         else Inr (map peer_v6 (take max_peers (chunks_exact 18 data)))
     | _ \<Rightarrow> Inr [])"

definition parse_http_response :: "bytes \<Rightarrow> announce_response result" where
  "parse_http_response data =
    (case parse_exact data of
       Inl _ \<Rightarrow> Inl (tracker_error ''Invalid tracker response encoding'')
     | Inr v \<Rightarrow>
         rbind (ok_or (tracker_error ''Tracker response must be a dictionary'') (as_dict v)) (\<lambda>d.
           case Option.bind (dget d ''failure reason'') as_string of
             Some msg \<Rightarrow> Inl (tracker_error (''Tracker error: '' @ msg))
           | None \<Rightarrow>
               rbind (ok_or (tracker_error (''Missing '' @ quoted ''interval'' @ '' in tracker response'')) (Option.bind (dget d ''interval'') as_uint)) (\<lambda>raw.
                 rbind (parse_peers (dget d ''peers'')) (\<lambda>peers.
                   rbind (parse_peers_ipv6 (dget d ''peers6'')) (\<lambda>peers6.
                     Inr \<lparr>rs_interval = clamp_interval (u32 raw),
                          rs_min_interval = map_option (\<lambda>v. clamp_interval (u32 v)) (Option.bind (dget d ''min interval'') as_uint),
                          rs_tracker_id = Option.bind (dget d ''tracker id'') as_string,
                          rs_complete = map_option u32 (Option.bind (dget d ''complete'') as_uint),
                          rs_incomplete = map_option u32 (Option.bind (dget d ''incomplete'') as_uint),
                          rs_peers = take max_peers (peers @ peers6),
                          rs_warning = Option.bind (dget d ''warning message'') as_string\<rparr>)))))"

text \<open>What the HTTP library answers to a GET: an error while sending, or whether the status is a
  success, the status as text, and the body or an error while reading it.\<close>

type_synonym http_fetch = "string \<Rightarrow> string + (bool \<times> string \<times> (string + bytes))"

fun map_err :: "(string \<Rightarrow> engine_error) \<Rightarrow> string + 'a \<Rightarrow> 'a result" where
  "map_err f (Inl e) = Inl (f e)"
| "map_err f (Inr x) = Inr x"

definition announce_http :: "(string \<Rightarrow> string) \<Rightarrow> http_fetch \<Rightarrow> string \<Rightarrow> announce_request \<Rightarrow> announce_response result" where
  "announce_http enc fetch tracker_url r =
    rbind (map_err (\<lambda>e. err_network NetOther (''Tracker request failed: '' @ e)) (fetch (build_http_announce_url enc tracker_url r)))
      (\<lambda>(success, status, body).
        if \<not> success then Inl (tracker_error (''Tracker returned status: '' @ status))
        else rbind (map_err (\<lambda>e. err_network NetOther (''Failed to read tracker response: '' @ e)) body) parse_http_response)"

section \<open>HTTP scrapes\<close>

text \<open>\<open>str::replace\<close> of a non-empty pattern.\<close>

function replace_all :: "string \<Rightarrow> string \<Rightarrow> string \<Rightarrow> string" where
  "replace_all p q s =
    (if p = [] then s
     else case s of
       [] \<Rightarrow> []
     | c # t \<Rightarrow> if starts_with p s then q @ replace_all p q (drop (length p) s) else c # replace_all p q t)"
  by pat_completeness auto

termination by (relation "measure (\<lambda>(p, q, s). length s)") auto

declare replace_all.simps [simp del]

definition scrape_url :: "string \<Rightarrow> sha1_hash list \<Rightarrow> string result" where
  "scrape_url tracker_url hashes =
    (if str_contains ''/announce'' tracker_url then
       Inr (replace_all ''/announce'' ''/scrape'' tracker_url @
         concat (map (\<lambda>(i, h). (if i = 0 then ''?'' else ''&'') @ ''info_hash='' @ concat (map percent_byte h))
           (enumerate 0 hashes)))
     else Inl (tracker_error ''Cannot determine scrape URL from announce URL''))"

definition scrape_entry :: "bytes \<times> bencode \<Rightarrow> scrape_info option" where
  "scrape_entry entry =
    (case entry of
       (hash, v) \<Rightarrow>
         if length hash \<noteq> 20 then None
         else map_option (\<lambda>d. \<lparr>si_info_hash = hash,
                si_complete = u32 (case Option.bind (dget d ''complete'') as_uint of Some n \<Rightarrow> n | None \<Rightarrow> 0),
                si_incomplete = u32 (case Option.bind (dget d ''incomplete'') as_uint of Some n \<Rightarrow> n | None \<Rightarrow> 0),
                si_downloaded = u32 (case Option.bind (dget d ''downloaded'') as_uint of Some n \<Rightarrow> n | None \<Rightarrow> 0),
                si_name = Option.bind (dget d ''name'') as_string\<rparr>) (as_dict v))"

definition parse_scrape :: "bytes \<Rightarrow> scrape_info list result" where
  "parse_scrape body =
    (case parse_exact body of
       Inl _ \<Rightarrow> Inl (tracker_error ''Invalid scrape response encoding'')
     | Inr v \<Rightarrow>
         rbind (ok_or (tracker_error ''Scrape response must be a dictionary'') (as_dict v)) (\<lambda>d.
           Inr (case Option.bind (dget d ''files'') as_dict of
                  None \<Rightarrow> []
                | Some files \<Rightarrow> List.map_filter scrape_entry files)))"

definition scrape_http :: "http_fetch \<Rightarrow> string \<Rightarrow> sha1_hash list \<Rightarrow> scrape_info list result" where
  "scrape_http fetch tracker_url hashes =
    rbind (scrape_url tracker_url hashes) (\<lambda>url.
      rbind (map_err (\<lambda>e. err_network NetOther (''Scrape request failed: '' @ e)) (fetch url)) (\<lambda>(success, status, body).
        if \<not> success then Inl (tracker_error (''Scrape returned status: '' @ status))
        else rbind (map_err (\<lambda>e. err_network NetOther (''Failed to read scrape response: '' @ e)) body) parse_scrape))"

section \<open>UDP\<close>

definition be64 :: "64 word \<Rightarrow> bytes" where
  "be64 w = be32 (ucast (drop_bit 32 w)) @ be32 (ucast w)"

definition of_be64 :: "bytes \<Rightarrow> 64 word" where
  "of_be64 b = or (push_bit 32 (ucast (u32_from b))) (ucast (u32_from (drop 4 b)))"

text \<open>What a socket yields while an answer is awaited: datagrams and errors; the end of the list is the
  deadline. A datagram is cut to the size of the buffer.\<close>

datatype udp_input = Datagram bytes | RecvError string

fun udp_recv_matching :: "nat \<Rightarrow> 32 word \<Rightarrow> string \<Rightarrow> udp_input list \<Rightarrow> bytes result" where
  "udp_recv_matching cap tid timeout_msg [] = Inl (err_network Timeout timeout_msg)"
| "udp_recv_matching cap tid timeout_msg (RecvError e # rest) = Inl (err_network NetOther (''UDP recv failed: '' @ e))"
| "udp_recv_matching cap tid timeout_msg (Datagram d # rest) =
    (let b = take cap d in
     if length b < 8 \<or> u32_from (drop 4 b) \<noteq> tid then udp_recv_matching cap tid timeout_msg rest
     else Inr b)"

definition udp_error_text :: "bytes \<Rightarrow> string" where
  "udp_error_text b = (if 8 < length b then from_utf8_lossy (drop 8 b) else ''(no message)'')"

definition udp_connect_request :: "32 word \<Rightarrow> bytes" where
  "udp_connect_request tid = be64 0x41727101980 @ be32 0 @ be32 tid"

definition udp_connect_reply :: "bytes \<Rightarrow> 64 word result" where
  "udp_connect_reply b =
    (let action = u32_from b in
     if action = 3 then Inl (tracker_error (''UDP tracker error: '' @ udp_error_text b))
     else if action \<noteq> 0 then Inl (tracker_error (''UDP connect error: action '' @ show_int (sint action)))
     else if length b < 16 then Inl (tracker_error ''UDP connect response too short'')
     else Inr (of_be64 (drop 8 b)))"

text \<open>The answer to one request: sending may fail, else what the socket then yields.\<close>

type_synonym udp_answer = "string + udp_input list"

definition udp_connect :: "32 word \<Rightarrow> udp_answer \<Rightarrow> 64 word result" where
  "udp_connect tid answer =
    rbind (map_err (\<lambda>e. err_network NetOther (''UDP send failed: '' @ e)) answer) (\<lambda>inputs.
      rbind (udp_recv_matching 512 tid ''UDP tracker connect timeout'' inputs) udp_connect_reply)"

definition udp_announce_request :: "64 word \<Rightarrow> 32 word \<Rightarrow> announce_request \<Rightarrow> bytes" where
  "udp_announce_request cid tid r =
    be64 cid @ be32 1 @ be32 tid @ ar_info_hash r @ ar_peer_id r @ be64 (ar_downloaded r) @ be64 (ar_left r)
     @ be64 (ar_uploaded r) @ be32 (to_udp_id (ar_event r)) @ be32 0
     @ be32 (case ar_key r of Some k \<Rightarrow> k | None \<Rightarrow> 0)
     @ be32 (case ar_numwant r of Some n \<Rightarrow> n | None \<Rightarrow> - 1) @ be16 (ar_port r)"

definition udp_announce_reply :: "bytes \<Rightarrow> announce_response result" where
  "udp_announce_reply b =
    (let action = u32_from b in
     if action = 3 then Inl (tracker_error (''UDP tracker error: '' @ udp_error_text b))
     else if action \<noteq> 1 then Inl (tracker_error (''UDP announce unexpected action: '' @ show_int (sint action)))
     else if length b < 20 then Inl (tracker_error ''UDP announce response too short (< 20 bytes)'')
     else Inr \<lparr>rs_interval = clamp_interval (unat (u32_from (drop 8 b))), rs_min_interval = None, rs_tracker_id = None,
               rs_complete = Some (unat (u32_from (drop 16 b))), rs_incomplete = Some (unat (u32_from (drop 12 b))),
               rs_peers = map peer_v4 (take max_peers (chunks_exact 6 (drop 20 b))), rs_warning = None\<rparr>)"

definition udp_announce :: "32 word \<Rightarrow> udp_answer \<Rightarrow> announce_response result" where
  "udp_announce tid answer =
    rbind (map_err (\<lambda>e. err_network NetOther (''UDP announce send failed: '' @ e)) answer) (\<lambda>inputs.
      rbind (udp_recv_matching 4096 tid ''UDP tracker announce timeout'' inputs) udp_announce_reply)"

text \<open>Instants are in milliseconds; the difference saturates at zero.\<close>

definition udp_connection_id_fresh :: "nat \<Rightarrow> nat \<Rightarrow> bool" where
  "udp_connection_id_fresh obtained_at now \<longleftrightarrow> now - obtained_at < 60000"

definition udp_retry_timeouts :: "nat list" where
  "udp_retry_timeouts = [5, 10, 20]"

fun is_timeout :: "engine_error \<Rightarrow> bool" where
  "is_timeout (ENetwork Timeout _ _) = True"
| "is_timeout _ = False"

text \<open>What happens around one attempt: the instants when the cached connection id is checked and when a new
  one arrives, the transaction ids, and the answers, the announce's by the connection id it was sent with.\<close>

record udp_attempt =
  ua_checked_at :: nat
  ua_connected_at :: nat
  ua_connect_tid :: "32 word"
  ua_connect :: udp_answer
  ua_announce_tid :: "32 word"
  ua_announce :: "64 word \<Rightarrow> udp_answer"

text \<open>The connection id of an attempt, and when it was obtained.\<close>

definition udp_connection :: "udp_attempt \<Rightarrow> (64 word \<times> nat) option \<Rightarrow> (64 word \<times> nat) result" where
  "udp_connection a cached =
    (case cached of
       Some (cid, at) \<Rightarrow>
         if udp_connection_id_fresh at (ua_checked_at a) then Inr (cid, at)
         else rbind (udp_connect (ua_connect_tid a) (ua_connect a)) (\<lambda>cid. Inr (cid, ua_connected_at a))
     | None \<Rightarrow> rbind (udp_connect (ua_connect_tid a) (ua_connect a)) (\<lambda>cid. Inr (cid, ua_connected_at a)))"

fun announce_udp_loop ::
  "(nat \<Rightarrow> udp_attempt) \<Rightarrow> nat list \<Rightarrow> (64 word \<times> nat) option \<Rightarrow> engine_error option \<Rightarrow> announce_response result"
where
  "announce_udp_loop env [] cached latest =
    Inl (case latest of Some e \<Rightarrow> e | None \<Rightarrow> err_network Timeout ''UDP tracker retries exhausted'')"
| "announce_udp_loop env (t # ts) cached latest =
    (case udp_connection (env t) cached of
       Inl e \<Rightarrow> if is_timeout e then announce_udp_loop env ts cached (Some e) else Inl e
     | Inr (cid, at) \<Rightarrow>
         (case udp_announce (ua_announce_tid (env t)) (ua_announce (env t) cid) of
            Inr r \<Rightarrow> Inr r
          | Inl e \<Rightarrow> if is_timeout e then announce_udp_loop env ts (Some (cid, at)) (Some e) else Inl e))"

text \<open>\<open>open_socket\<close> resolves a host and port and connects a socket, or gives the error.\<close>

definition announce_udp ::
  "(string \<Rightarrow> unit result) \<Rightarrow> (nat \<Rightarrow> udp_attempt) \<Rightarrow> string \<Rightarrow> announce_response result"
where
  "announce_udp open_socket env tracker_url =
    rbind (ok_or (tracker_error ''Invalid UDP tracker URL'') (strip_prefix ''udp://'' tracker_url)) (\<lambda>url.
      rbind (open_socket (hd (split_char (CHR ''/'') url))) (\<lambda>_.
        announce_udp_loop env udp_retry_timeouts None None))"

definition udp_scrape_request :: "64 word \<Rightarrow> 32 word \<Rightarrow> sha1_hash list \<Rightarrow> bytes" where
  "udp_scrape_request cid tid hashes = be64 cid @ be32 2 @ be32 tid @ concat hashes"

definition udp_scrape_reply :: "sha1_hash list \<Rightarrow> bytes \<Rightarrow> scrape_info list result" where
  "udp_scrape_reply hashes b =
    (let action = u32_from b in
     if action = 3 then Inl (tracker_error (''UDP tracker error: '' @ udp_error_text b))
     else if action \<noteq> 2 then Inl (tracker_error (''UDP scrape unexpected action: '' @ show_int (sint action)))
     else Inr (map (\<lambda>(h, c). \<lparr>si_info_hash = h, si_complete = unat (u32_from c),
                 si_incomplete = unat (u32_from (drop 8 c)), si_downloaded = unat (u32_from (drop 4 c)), si_name = None\<rparr>)
            (zip hashes (chunks_exact 12 (drop 8 b)))))"

definition scrape_udp ::
  "(string \<Rightarrow> unit result) \<Rightarrow> 32 word \<Rightarrow> udp_answer \<Rightarrow> 32 word \<Rightarrow> (64 word \<Rightarrow> udp_answer) \<Rightarrow> string \<Rightarrow> sha1_hash list
    \<Rightarrow> scrape_info list result"
where
  "scrape_udp open_socket connect_tid connect tid answer tracker_url hashes =
    rbind (ok_or (tracker_error ''Invalid UDP tracker URL'') (strip_prefix ''udp://'' tracker_url)) (\<lambda>url.
      rbind (open_socket (hd (split_char (CHR ''/'') url))) (\<lambda>_.
        rbind (udp_connect connect_tid connect) (\<lambda>cid.
          rbind (map_err (\<lambda>e. err_network NetOther (''UDP scrape send failed: '' @ e)) (answer cid)) (\<lambda>inputs.
            rbind (udp_recv_matching 1024 tid ''UDP scrape timeout'' inputs) (udp_scrape_reply hashes)))))"

section \<open>Dispatch\<close>

text \<open>The scheme chooses the protocol; the three announces are given for the URL.\<close>

definition announce ::
  "(string \<Rightarrow> announce_response result) \<Rightarrow> (string \<Rightarrow> announce_response result) \<Rightarrow>
   (string \<Rightarrow> announce_response result) \<Rightarrow> string \<Rightarrow> announce_response result"
where
  "announce http udp ws url =
    (if starts_with ''http://'' url \<or> starts_with ''https://'' url then http url
     else if starts_with ''udp://'' url then udp url
     else if starts_with ''wss://'' url \<or> starts_with ''ws://'' url then ws url
     else Inl (tracker_error (''Unsupported tracker protocol: '' @ url)))"

definition scrape ::
  "(string \<Rightarrow> scrape_info list result) \<Rightarrow> (string \<Rightarrow> scrape_info list result) \<Rightarrow> string \<Rightarrow> scrape_info list result"
where
  "scrape http udp url =
    (if starts_with ''http://'' url \<or> starts_with ''https://'' url then http url
     else if starts_with ''udp://'' url then udp url
     else Inl (tracker_error (''Unsupported tracker protocol: '' @ url)))"

section \<open>Identifiers\<close>

definition generate_peer_id :: "bytes \<Rightarrow> bytes" where
  "generate_peer_id random = as_bytes ''-GD0001-'' @ take 12 random"

text \<open>The binary strings of the WebSocket protocol: a byte is the character with that code point, in UTF-8.\<close>

definition binary_char :: "byte \<Rightarrow> bytes" where
  "binary_char b = (if b < 0x80 then [b] else [or 0xC0 (drop_bit 6 b), or 0x80 (and 0x3F b)])"

definition binary_string :: "bytes \<Rightarrow> string" where
  "binary_string bs = map char_of_byte (concat (map binary_char bs))"

text \<open>The inverse, on the bytes of a well-formed string: characters beyond 255 begin with a byte above C3.\<close>

fun latin_bytes :: "bytes \<Rightarrow> bytes option" where
  "latin_bytes [] = Some []"
| "latin_bytes (b # bs) =
    (if b < 0x80 then map_option ((#) b) (latin_bytes bs)
     else (case bs of
             c # r \<Rightarrow> if b \<le> 0xC3 then map_option ((#) (or (push_bit 6 b) (and 0x3F c))) (latin_bytes r) else None
           | [] \<Rightarrow> None))"

definition binary_string_bytes :: "string \<Rightarrow> bytes option" where
  "binary_string_bytes s = latin_bytes (as_bytes s)"

text \<open>\<open>hex\<close> is \<open>hex::decode\<close>.\<close>

definition decode_ws_peer_id :: "(string \<Rightarrow> bytes option) \<Rightarrow> string \<Rightarrow> bytes option" where
  "decode_ws_peer_id hex s =
    (case binary_string_bytes s of
       Some b \<Rightarrow> if length b = 20 then Some b
                 else Option.bind (hex s) (\<lambda>b. if length b = 20 then Some b else None)
     | None \<Rightarrow> Option.bind (hex s) (\<lambda>b. if length b = 20 then Some b else None))"

section \<open>What a tracker can make us accept\<close>

lemma clamp_interval_range: "60 \<le> clamp_interval n \<and> clamp_interval n \<le> 3600"
  by (simp add: clamp_interval_def)

lemma dict_peers_wf: "p \<in> set (dict_peers n items) \<Longrightarrow> \<exists>item \<in> set items. dict_peer item = Some p"
  by (induction n items rule: dict_peers.induct) (auto split: if_splits option.splits)

definition wf_peer :: "peer_addr \<Rightarrow> bool" where
  "wf_peer p \<longleftrightarrow> pa_port p < 2 ^ 16 \<and> (\<forall>b. pa_peer_id p = Some b \<longrightarrow> length b = 20)"

lemma wf_peer_bytes [simp]: "wf_peer (peer_v4 c)" "wf_peer (peer_v6 c)"
  using unsigned_less [of "of_be16 (c ! 4) (c ! 5)"] unsigned_less [of "of_be16 (c ! 16) (c ! 17)"]
  by (simp_all add: wf_peer_def peer_v4_def peer_v6_def)

lemma wf_dict_peer: "dict_peer item = Some p \<Longrightarrow> wf_peer p"
  by (auto simp: dict_peer_def wf_peer_def bind_eq_Some_conv split: if_splits)

lemma parse_peers_wf: "parse_peers v = Inr ps \<Longrightarrow> p \<in> set ps \<Longrightarrow> wf_peer p"
  by (auto simp: parse_peers_def split: option.splits bencode.splits if_splits dest!: dict_peers_wf intro: wf_dict_peer)

lemma parse_peers_ipv6_wf: "parse_peers_ipv6 v = Inr ps \<Longrightarrow> p \<in> set ps \<Longrightarrow> wf_peer p"
  by (auto simp: parse_peers_ipv6_def split: option.splits bencode.splits if_splits)

definition bounded_response :: "announce_response \<Rightarrow> bool" where
  "bounded_response r \<longleftrightarrow> 60 \<le> rs_interval r \<and> rs_interval r \<le> 3600 \<and>
    (\<forall>m. rs_min_interval r = Some m \<longrightarrow> 60 \<le> m \<and> m \<le> 3600) \<and>
    length (rs_peers r) \<le> 1000 \<and> (\<forall>p \<in> set (rs_peers r). wf_peer p)"

lemma parse_http_bounded: "parse_http_response data = Inr r \<Longrightarrow> bounded_response r"
  by (auto simp: parse_http_response_def rbind_Inr_iff bounded_response_def clamp_interval_range max_peers_def
      split: sum.splits option.splits if_splits dest!: in_set_takeD intro: parse_peers_wf parse_peers_ipv6_wf)

lemma udp_announce_bounded: "udp_announce tid answer = Inr r \<Longrightarrow> bounded_response r"
  by (auto simp: udp_announce_def udp_announce_reply_def rbind_Inr_iff bounded_response_def clamp_interval_range
      max_peers_def Let_def split: if_splits)

lemma announce_udp_loop_bounded: "announce_udp_loop env ts cached latest = Inr r \<Longrightarrow> bounded_response r"
  by (induction env ts cached latest rule: announce_udp_loop.induct)
    (auto split: sum.splits if_splits intro: udp_announce_bounded)

text \<open>Whatever bytes a tracker answers, over HTTP or in whatever datagrams over UDP: an accepted answer has an
  interval between a minute and an hour, at most a thousand peers, ports below 65536 and peer ids of twenty
  bytes.\<close>

lemma tracker_answers_bounded:
  "(announce_http enc fetch url request = Inr r \<longrightarrow> bounded_response r) \<and>
    (announce_udp open_socket env url = Inr r \<longrightarrow> bounded_response r)"
proof -
  have "announce_http enc fetch url request = Inr r \<Longrightarrow> bounded_response r"
    by (auto simp: announce_http_def rbind_Inr_iff split: prod.splits if_splits intro: parse_http_bounded)
  moreover have "announce_udp open_socket env url = Inr r \<Longrightarrow> bounded_response r"
    by (auto simp: announce_udp_def rbind_Inr_iff intro: announce_udp_loop_bounded)
  ultimately show ?thesis by blast
qed

text \<open>The interval is cut to 32 bits before it is clamped.\<close>

lemma interval_wraps: "clamp_interval (u32 (2 ^ 32)) = 60 \<and> clamp_interval (2 ^ 32) = 3600"
  by (simp add: clamp_interval_def u32_def)

section \<open>UDP answers are understood\<close>

lemma of_be64_be64 [simp]: "of_be64 (be64 w @ r) = w" "of_be64 (be64 w) = w"
proof -
  have ucast: "ucast (ucast w :: 32 word) = take_bit 32 (w :: 64 word)" for w
    by (rule bit_word_eqI) (auto simp: bit_simps)
  have join: "or (push_bit 32 (take_bit 32 (drop_bit 32 w))) (take_bit 32 w) = w"
    using or_push_take [of 32 32 w] by (simp add: take_bit_word_eq_self)
  show "of_be64 (be64 w @ r) = w" using join by (simp add: of_be64_def be64_def ucast)
  show "of_be64 (be64 w) = w" using join by (simp add: of_be64_def be64_def ucast)
qed

lemma length_be64 [simp]: "length (be64 w) = 8"
  by (simp add: be64_def)

text \<open>A datagram that is no answer to a request: too short, or with another transaction id.\<close>

definition stray :: "32 word \<Rightarrow> bytes \<Rightarrow> bool" where
  "stray tid d \<longleftrightarrow> length d < 8 \<or> u32_from (drop 4 d) \<noteq> tid"

lemma u32_from_take: "8 \<le> cap \<Longrightarrow> 8 \<le> length d \<Longrightarrow> u32_from (drop 4 (take cap d)) = u32_from (drop 4 d)"
  by (simp add: u32_from_def nth_append)

lemma recv_past_strays:
  assumes "8 \<le> cap" and "\<forall>d \<in> set noise. stray tid d" and "\<not> stray tid d"
  shows "udp_recv_matching cap tid m (map Datagram noise @ Datagram d # rest) = Inr (take cap d)"
  using assms(2)
proof (induction noise)
  case Nil
  have "8 \<le> length d" "u32_from (drop 4 d) = tid" using assms(3) by (auto simp: stray_def)
  then show ?case using assms(1) u32_from_take [of cap d] by (simp add: Let_def min_def)
next
  case (Cons n noise)
  then have "stray tid n" by simp
  then have "length (take cap n) < 8 \<or> u32_from (drop 4 (take cap n)) \<noteq> tid"
    using assms(1) u32_from_take [of cap n] by (cases "length n < 8") (auto simp: stray_def)
  with Cons show ?case by (simp add: Let_def)
qed

text \<open>The tracker's side of BEP 15: how it reads a request and writes its answers.\<close>

definition tracker_reads ::
  "bytes \<Rightarrow> (64 word \<times> 32 word \<times> 32 word) \<times> (bytes \<times> bytes) \<times> (64 word \<times> 64 word \<times> 64 word) \<times> (32 word \<times> 32 word \<times> 32 word) \<times> 16 word"
where
  "tracker_reads b =
    ((of_be64 b, u32_from (drop 8 b), u32_from (drop 12 b)),
     (slice 16 36 b, slice 36 56 b),
     (of_be64 (drop 56 b), of_be64 (drop 64 b), of_be64 (drop 72 b)),
     (u32_from (drop 80 b), u32_from (drop 88 b), u32_from (drop 92 b)), of_be16 (b ! 96) (b ! 97))"

definition tracker_connects :: "32 word \<Rightarrow> 64 word \<Rightarrow> bytes" where
  "tracker_connects tid cid = be32 0 @ be32 tid @ be64 cid"

definition tracker_writes :: "32 word \<Rightarrow> 32 word \<Rightarrow> 32 word \<Rightarrow> 32 word \<Rightarrow> sock_addr list \<Rightarrow> bytes" where
  "tracker_writes tid interval leechers seeders peers =
    be32 1 @ be32 tid @ be32 interval @ be32 leechers @ be32 seeders @ concat (map compact peers)"

fun dotted :: "sock_addr \<Rightarrow> peer_addr" where
  "dotted (SockV4 ip p) = \<lparr>pa_ip = show_ipv4 (be32 ip), pa_port = unat p, pa_peer_id = None\<rparr>"
| "dotted (SockV6 ip p f s) = \<lparr>pa_ip = show_ipv6 (be128 ip), pa_port = unat p, pa_peer_id = None\<rparr>"

lemma peer_v4_compact: "is_ipv4 a \<Longrightarrow> peer_v4 (compact a) = dotted a"
  by (cases a) (simp_all add: peer_v4_def show_ipv4_def nth_append be16_def)

lemma stray_own:
  "\<not> stray tid (tracker_connects tid cid)" "\<not> stray tid (tracker_writes tid i l s ps)"
  by (simp_all add: stray_def tracker_connects_def tracker_writes_def)

lemma chunks_compact:
  "\<forall>a \<in> set peers. is_ipv4 a \<Longrightarrow> chunks_exact 6 (concat (map compact peers)) = map compact peers"
  by (rule chunks_exact_concat) auto

lemma length_writes:
  "\<forall>a \<in> set peers. is_ipv4 a \<Longrightarrow> length (tracker_writes tid i l s peers) = 20 + 6 * length peers"
  by (induction peers) (simp_all add: tracker_writes_def)

text \<open>C32. A UDP tracker and the client understand each other: the tracker reads from the announce exactly the
  connection id, the torrent, the peer id, the counters, the event, the key, the number of peers wanted and
  the port; and its answer, after whatever stray datagrams, gives exactly its interval (clamped), its
  counters and its peers, as long as the datagram fits the buffer (679 peers).\<close>

theorem udp_tracker_understood:
  assumes "length (ar_info_hash r) = 20" and "length (ar_peer_id r) = 20"
    and "\<forall>d \<in> set noise. stray tid d" and "\<forall>a \<in> set peers. is_ipv4 a" and "length peers \<le> 679"
  shows "tracker_reads (udp_announce_request cid tid r) =
      ((cid, 1, tid), (ar_info_hash r, ar_peer_id r), (ar_downloaded r, ar_left r, ar_uploaded r),
       (to_udp_id (ar_event r), case ar_key r of Some k \<Rightarrow> k | None \<Rightarrow> 0, case ar_numwant r of Some n \<Rightarrow> n | None \<Rightarrow> - 1),
       ar_port r) \<and>
    udp_connect tid (Inr (map Datagram noise @ Datagram (tracker_connects tid cid) # rest)) = Inr cid \<and>
    udp_announce tid (Inr (map Datagram noise @ Datagram (tracker_writes tid interval leechers seeders peers) # rest)) =
      Inr \<lparr>rs_interval = clamp_interval (unat interval), rs_min_interval = None, rs_tracker_id = None,
           rs_complete = Some (unat seeders), rs_incomplete = Some (unat leechers), rs_peers = map dotted peers, rs_warning = None\<rparr>"
proof (intro conjI)
  show "tracker_reads (udp_announce_request cid tid r) =
      ((cid, 1, tid), (ar_info_hash r, ar_peer_id r), (ar_downloaded r, ar_left r, ar_uploaded r),
       (to_udp_id (ar_event r), case ar_key r of Some k \<Rightarrow> k | None \<Rightarrow> 0, case ar_numwant r of Some n \<Rightarrow> n | None \<Rightarrow> - 1),
       ar_port r)"
    using assms(1, 2) by (simp add: tracker_reads_def udp_announce_request_def slice_def nth_append be16_def)
  have "udp_recv_matching 512 tid ''UDP tracker connect timeout'' (map Datagram noise @ Datagram (tracker_connects tid cid) # rest) =
      Inr (tracker_connects tid cid)"
    using recv_past_strays [OF _ assms(3) stray_own(1)] by (simp add: tracker_connects_def)
  then show "udp_connect tid (Inr (map Datagram noise @ Datagram (tracker_connects tid cid) # rest)) = Inr cid"
    by (simp add: udp_connect_def udp_connect_reply_def tracker_connects_def)
  let ?d = "tracker_writes tid interval leechers seeders peers"
  have "length ?d \<le> 4096" using assms(5) length_writes [OF assms(4)] by simp
  then have "udp_recv_matching 4096 tid ''UDP tracker announce timeout'' (map Datagram noise @ Datagram ?d # rest) = Inr ?d"
    using recv_past_strays [OF _ assms(3) stray_own(2)] by simp
  moreover have "drop 20 ?d = concat (map compact peers)" by (simp add: tracker_writes_def)
  moreover have "map peer_v4 (take max_peers (map compact peers)) = map dotted peers"
    using assms(4, 5) by (simp add: max_peers_def peer_v4_compact)
  ultimately show "udp_announce tid (Inr (map Datagram noise @ Datagram ?d # rest)) =
      Inr \<lparr>rs_interval = clamp_interval (unat interval), rs_min_interval = None, rs_tracker_id = None,
           rs_complete = Some (unat seeders), rs_incomplete = Some (unat leechers), rs_peers = map dotted peers, rs_warning = None\<rparr>"
    using length_writes [OF assms(4), of tid interval leechers seeders] chunks_compact [OF assms(4)]
    by (simp add: udp_announce_def udp_announce_reply_def) (simp add: tracker_writes_def)
qed

definition demo_request :: announce_request where
  "demo_request = \<lparr>ar_info_hash = replicate 20 7, ar_peer_id = generate_peer_id (replicate 12 65), ar_port = 6881,
     ar_uploaded = 0, ar_downloaded = 0, ar_left = 5000000000, ar_event = AnnStarted, ar_compact = True,
     ar_numwant = Some 50, ar_key = None, ar_tracker_id = Some ''a&b=c''\<rparr>"

lemma udp_tracker_understood_witness:
  "udp_connect 9 (Inr (map Datagram [[1, 2, 3]] @ [Datagram (tracker_connects 9 77)])) = Inr 77"
  using udp_tracker_understood [of demo_request "[[1, 2, 3]]" 9 "[]" 77 "[]"]
  by (simp add: demo_request_def generate_peer_id_def stray_def)

section \<open>HTTP announces are understood\<close>

fun opt_param :: "string \<Rightarrow> string option \<Rightarrow> (string \<times> bytes) list" where
  "opt_param key None = []"
| "opt_param key (Some v) = [(key, as_bytes v)]"

definition request_params :: "announce_request \<Rightarrow> (string \<times> bytes) list" where
  "request_params r =
    [(''info_hash'', ar_info_hash r), (''peer_id'', ar_peer_id r), (''port'', as_bytes (show_nat (unat (ar_port r)))),
     (''uploaded'', as_bytes (show_nat (unat (ar_uploaded r)))), (''downloaded'', as_bytes (show_nat (unat (ar_downloaded r)))),
     (''left'', as_bytes (show_nat (unat (ar_left r))))]
    @ opt_param ''compact'' (if ar_compact r then Some ''1'' else None)
    @ opt_param ''event'' (if ar_event r = AnnNone then None else Some (to_http_string (ar_event r)))
    @ opt_param ''numwant'' (map_option (\<lambda>n. show_nat (unat n)) (ar_numwant r))
    @ opt_param ''key'' (map_option (\<lambda>n. show_nat (unat n)) (ar_key r))
    @ opt_param ''trackerid'' (ar_tracker_id r)"

text \<open>The parameters as the code writes them: key and encoded value.\<close>

fun opt_raw :: "string \<Rightarrow> string option \<Rightarrow> (string \<times> string) list" where
  "opt_raw key None = []"
| "opt_raw key (Some v) = [(key, v)]"

definition raw_params :: "(string \<Rightarrow> string) \<Rightarrow> announce_request \<Rightarrow> (string \<times> string) list" where
  "raw_params enc r =
    [(''info_hash'', concat (map percent_byte (ar_info_hash r))), (''peer_id'', concat (map percent_byte (ar_peer_id r))),
     (''port'', show_nat (unat (ar_port r))), (''uploaded'', show_nat (unat (ar_uploaded r))),
     (''downloaded'', show_nat (unat (ar_downloaded r))), (''left'', show_nat (unat (ar_left r)))]
    @ opt_raw ''compact'' (if ar_compact r then Some ''1'' else None)
    @ opt_raw ''event'' (if ar_event r = AnnNone then None else Some (to_http_string (ar_event r)))
    @ opt_raw ''numwant'' (map_option (\<lambda>n. show_nat (unat n)) (ar_numwant r))
    @ opt_raw ''key'' (map_option (\<lambda>n. show_nat (unat n)) (ar_key r))
    @ opt_raw ''trackerid'' (map_option enc (ar_tracker_id r))"

definition raw_query :: "(string \<Rightarrow> string) \<Rightarrow> announce_request \<Rightarrow> string" where
  "raw_query enc r =
    ''info_hash='' @ snd (hd (raw_params enc r)) @
      concat (map (\<lambda>(k, v). CHR ''&'' # k @ CHR ''='' # v) (tl (raw_params enc r)))"

lemma announce_url_params:
  "build_http_announce_url enc u r = u @ (if CHR ''?'' \<in> set u then ''&'' else ''?'') @ raw_query enc r"
  by (cases "ar_event r"; cases "ar_numwant r"; cases "ar_key r"; cases "ar_tracker_id r")
    (simp_all add: build_http_announce_url_def raw_params_def raw_query_def)

lemma plain_decode: "\<forall>c \<in> set s. unreserved c \<Longrightarrow> url_decode_bytes s = as_bytes s"
  by (rule url_decode_unreserved)

lemma digit_unreserved: "is_digit c \<Longrightarrow> unreserved c"
  by (simp add: is_digit_def unreserved_def)

lemma show_nat_plain: "\<forall>c \<in> set (show_nat n). unreserved c"
  using show_nat_digits digit_unreserved by blast

lemma to_http_string_plain: "\<forall>c \<in> set (to_http_string e). unreserved c"
  by (cases e) (simp_all add: unreserved_def)

lemma raw_params_safe:
  assumes "url_encoder enc" and "(k, v) \<in> set (raw_params enc r)"
  shows "CHR ''='' \<notin> set k" and "CHR ''&'' \<notin> set k" and "CHR ''#'' \<notin> set k"
    and "\<forall>c \<in> set v. unreserved c \<or> c = CHR ''%''"
proof -
  have opt: "(k, v) \<in> set (opt_raw key w) \<longleftrightarrow> k = key \<and> w = Some v" for key w by (cases w) auto
  have one: "unreserved CHR ''1''" by (simp add: unreserved_def)
  show "CHR ''='' \<notin> set k" "CHR ''&'' \<notin> set k" "CHR ''#'' \<notin> set k"
    using assms(2) by (auto simp: raw_params_def opt)
  show "\<forall>c \<in> set v. unreserved c \<or> c = CHR ''%''"
    using assms show_nat_plain to_http_string_plain one
    by (auto simp: raw_params_def opt url_encoder_def split: if_splits dest!: percent_byte_chars)
qed

lemma raw_params_decode:
  assumes "url_encoder enc"
  shows "map (\<lambda>(k, v). (k, url_decode_bytes v)) (raw_params enc r) = request_params r"
proof -
  have one: "url_decode_bytes ''1'' = as_bytes ''1''" by (rule plain_decode) (simp add: unreserved_def)
  have num: "url_decode_bytes (show_nat n) = as_bytes (show_nat n)" for n by (rule plain_decode [OF show_nat_plain])
  have ev: "url_decode_bytes (to_http_string e) = as_bytes (to_http_string e)" for e
    by (rule plain_decode [OF to_http_string_plain])
  have enc: "url_decode_bytes (enc s) = as_bytes s" for s using assms by (simp add: url_encoder_def)
  show ?thesis
    by (cases "ar_numwant r"; cases "ar_key r"; cases "ar_tracker_id r")
      (simp_all add: raw_params_def request_params_def percent_bytes_decode one num ev enc del: as_bytes_simps url_decode_bytes.simps)
qed

lemma raw_query_params:
  assumes "url_encoder enc"
  shows "query_params (raw_query enc r) = request_params r" and "CHR ''#'' \<notin> set (raw_query enc r)"
proof -
  let ?raw = "raw_params enc r"
  let ?join = "\<lambda>(k, v). k @ CHR ''='' # v"
  obtain v0 ps where raw: "?raw = (''info_hash'', v0) # ps" by (simp add: raw_params_def)
  define first where "first = ?join (''info_hash'', v0)"
  define others where "others = map ?join ps"
  have joined: "map ?join ?raw = first # others" by (simp add: raw first_def others_def)
  have query: "raw_query enc r = first @ concat (map ((#) CHR ''&'') others)"
    by (simp add: raw_query_def raw first_def others_def comp_def case_prod_unfold)
  have chars: "CHR ''&'' \<notin> set (?join p) \<and> CHR ''#'' \<notin> set (?join p)" if "p \<in> set ?raw" for p
  proof -
    obtain k v where p: "p = (k, v)" by (cases p)
    have "CHR ''&'' \<notin> set k" "CHR ''#'' \<notin> set k" "\<forall>c \<in> set v. unreserved c \<or> c = CHR ''%''"
      using raw_params_safe [OF assms, of k v r] that p by blast+
    moreover have "\<not> unreserved CHR ''&''" "\<not> unreserved CHR ''#''" by (simp_all add: unreserved_def)
    ultimately show ?thesis by (auto simp: p)
  qed
  then have no: "\<forall>q \<in> set (first # others). CHR ''&'' \<notin> set q \<and> CHR ''#'' \<notin> set q"
    unfolding joined [symmetric] by auto
  then have "split_char (CHR ''&'') (raw_query enc r) = map ?join ?raw"
    unfolding joined query by (intro split_joined) auto
  moreover have "map query_param (map ?join ?raw) = map (\<lambda>(k, v). (k, url_decode_bytes v)) ?raw"
    using raw_params_safe(1) [OF assms] by (auto simp: query_param_join)
  ultimately show "query_params (raw_query enc r) = request_params r"
    using raw_params_decode [OF assms] by (simp add: query_params_def)
  show "CHR ''#'' \<notin> set (raw_query enc r)" unfolding query using no by auto
qed

text \<open>C33. From an announce a server reads the parameters that the tracker URL already had, a pass key
  for one, and then exactly those of the request, in order and with exactly the values meant, at the
  resource the tracker URL names; whatever bytes the info hash and the peer id hold, and whatever text
  a tracker chose as its tracker id: it cannot add a parameter or change another. The tracker URL may
  have a query or not, but no fragment.\<close>

theorem announce_url_exact:
  assumes "url_encoder enc" and "CHR ''#'' \<notin> set tracker_url"
  shows "url_params (build_http_announce_url enc tracker_url request)
      = url_params tracker_url @ request_params request
    \<and> url_resource (build_http_announce_url enc tracker_url request) = url_resource tracker_url"
  using url_add_query [OF assms(2) raw_query_params(2) [OF assms(1)]] raw_query_params(1) [OF assms(1)]
  by (simp add: announce_url_params)

lemma announce_url_exact_witness:
  "let url = build_http_announce_url url_encode ''http://t/announce?key=1'' demo_request in
   url_params url = (''key'', as_bytes ''1'') # request_params demo_request
    \<and> url_resource url = ''http://t/announce''"
  using announce_url_exact [OF url_encode_encoder, of "''http://t/announce?key=1''" demo_request]
  by (simp add: Let_def url_params_def url_query_def url_resource_def query_params_def query_param_def)

text \<open>A fragment swallows the request: with one, the parameters are appended to the fragment, and the
  server is sent the tracker URL's own query.\<close>

lemma announce_lost_in_fragment:
  assumes "CHR ''#'' \<in> set tracker_url"
  shows "url_params (build_http_announce_url enc tracker_url request) = url_params tracker_url"
proof -
  have "takeWhile (\<lambda>c. c \<noteq> CHR ''#'') (tracker_url @ q) = takeWhile (\<lambda>c. c \<noteq> CHR ''#'') tracker_url" for q
    using assms by (auto simp: takeWhile_append)
  then show ?thesis by (simp add: announce_url_params url_params_def url_query_def)
qed

section \<open>Retries and binary strings\<close>

text \<open>A UDP announce fails with a timeout only when every attempt of the schedule timed out.\<close>

fun attempt_times_out :: "udp_attempt \<Rightarrow> (64 word \<times> nat) option \<Rightarrow> bool" where
  "attempt_times_out a cached =
    (case udp_connection a cached of
       Inl e \<Rightarrow> is_timeout e
     | Inr (cid, at) \<Rightarrow>
         (case udp_announce (ua_announce_tid a) (ua_announce a cid) of Inl e \<Rightarrow> is_timeout e | Inr _ \<Rightarrow> False))"

lemma answer_ends_schedule:
  assumes "udp_connection (env t) cached = Inr (cid, at)"
    and "udp_announce (ua_announce_tid (env t)) (ua_announce (env t) cid) = Inr r"
  shows "announce_udp_loop env (t # ts) cached latest = Inr r"
  using assms by simp

lemma timeout_goes_on:
  assumes "attempt_times_out (env t) cached"
  shows "\<exists>cached' e. is_timeout e \<and> announce_udp_loop env (t # ts) cached latest = announce_udp_loop env ts cached' (Some e)"
  using assms by (auto split: sum.splits prod.splits)

text \<open>A connection id is reused only within a minute of its arrival.\<close>

lemma connection_id_fresh:
  "udp_connection a cached = Inr (cid, at) \<Longrightarrow> at = ua_connected_at a \<or> ua_checked_at a - at < 60000"
  by (auto simp: udp_connection_def udp_connection_id_fresh_def rbind_Inr_iff split: option.splits prod.splits if_splits)

lemma latin_binary_char: "latin_bytes (binary_char b @ bs) = map_option ((#) b) (latin_bytes bs)"
proof (cases "b < 0x80")
  case False
  have lead: "or 0xC0 (drop_bit 6 b) = 0xC2 \<or> or 0xC0 (drop_bit 6 b) = 0xC3"
  proof -
    have "unat (drop_bit 6 b) = unat b div 64" using unat_drop_bit_eq [of 6 b] by (simp add: drop_bit_eq_div)
    moreover have "unat b div 64 = 2 \<or> unat b div 64 = 3"
    proof -
      have "(unat b :: nat) < 2 ^ LENGTH(8)" by (rule unsigned_less)
      then have "unat b < 256" unfolding len_num0 len_bit0 by (simp del: unsigned_less)
      moreover have "128 \<le> unat b" using False by (simp add: word_less_nat_alt)
      ultimately show ?thesis by linarith
    qed
    ultimately have "unat (drop_bit 6 b) = unat (2 :: byte) \<or> unat (drop_bit 6 b) = unat (3 :: byte)" by simp
    then have "drop_bit 6 b = 2 \<or> drop_bit 6 b = 3" by (metis word_unat_eq_iff)
    then show ?thesis by auto
  qed
  have joined: "or (push_bit 6 (or 0xC0 (drop_bit 6 b))) (and 0x3F (or 0x80 (and 0x3F b))) = b"
  proof (rule bit_word_eqI)
    fix n assume "n < LENGTH(8)"
    then have "n \<in> {0, 1, 2, 3, 4, 5, 6, 7}" by auto
    then show "bit (or (push_bit 6 (or 0xC0 (drop_bit 6 b))) (and 0x3F (or 0x80 (and 0x3F b)))) n = bit b n"
      by (auto simp: bit_simps)
  qed
  have ge: "\<not> or 0xC0 (drop_bit 6 b) < 0x80" "or 0xC0 (drop_bit 6 b) \<le> 0xC3" using lead by auto
  show ?thesis using False ge joined by (simp add: binary_char_def)
qed (simp add: binary_char_def)

lemma binary_string_round_trip: "binary_string_bytes (binary_string bs) = Some bs"
proof -
  have "as_bytes (map char_of_byte xs) = xs" for xs by (induction xs) (simp_all add: as_bytes_def)
  moreover have "latin_bytes (concat (map binary_char bs)) = Some bs"
    by (induction bs) (simp_all add: latin_binary_char)
  ultimately show ?thesis by (simp add: binary_string_bytes_def binary_string_def)
qed

end
