(* ===== verification/Config.thy ===== *)
theory Config
  imports Schedule Status Paths
begin

text \<open>
  The configuration (\<open>src/config.rs\<close>): its records, defaults, texts, setters and validation. The file
  system, the directories of the platform and the version of the crate are arguments. An \<open>f64\<close> is
  given by its bits.
\<close>

section \<open>Policies\<close>

datatype allocation_mode = AllocNone | Sparse | Full

fun show_allocation :: "allocation_mode \<Rightarrow> string" where
  "show_allocation AllocNone = ''none''"
| "show_allocation Sparse = ''sparse''"
| "show_allocation Full = ''full''"

text \<open>Lower case of the ASCII letters. No other character has a lower case made of letters of the words
  below.\<close>

definition parse_allocation :: "string \<Rightarrow> string + allocation_mode" where
  "parse_allocation s =
    (let l = to_lower s in
     if l = ''none'' then Inr AllocNone
     else if l = ''sparse'' then Inr Sparse
     else if l = ''full'' \<or> l = ''preallocate'' then Inr Full
     else Inl (''Invalid allocation mode: '' @ s))"

datatype encryption_policy = EncDisabled | EncAllowed | EncPreferred | EncRequired

fun show_encryption :: "encryption_policy \<Rightarrow> string" where
  "show_encryption EncDisabled = ''disabled''"
| "show_encryption EncAllowed = ''allowed''"
| "show_encryption EncPreferred = ''preferred''"
| "show_encryption EncRequired = ''required''"

datatype transport_policy = TcpOnly | UtpOnly | PreferUtp | PreferTcp

fun show_transport :: "transport_policy \<Rightarrow> string" where
  "show_transport TcpOnly = ''tcp-only''"
| "show_transport UtpOnly = ''utp-only''"
| "show_transport PreferUtp = ''prefer-utp''"
| "show_transport PreferTcp = ''prefer-tcp''"

section \<open>Records and defaults\<close>

record webseed_config =
  wc_enabled :: bool
  wc_max_connections :: nat
  wc_timeout_seconds :: nat
  wc_max_failures :: nat

definition default_webseed :: webseed_config where
  "default_webseed = \<lparr>wc_enabled = True, wc_max_connections = 4, wc_timeout_seconds = 30, wc_max_failures = 5\<rparr>"

record encryption_config =
  ec_policy :: encryption_policy
  ec_allow_plaintext :: bool
  ec_allow_rc4 :: bool
  ec_min_padding :: nat
  ec_max_padding :: nat

definition default_encryption :: encryption_config where
  "default_encryption =
    \<lparr>ec_policy = EncPreferred, ec_allow_plaintext = True, ec_allow_rc4 = True, ec_min_padding = 0, ec_max_padding = 512\<rparr>"

record utp_settings =
  us_enabled :: bool
  us_policy :: transport_policy
  us_tcp_fallback :: bool
  us_target_delay_us :: nat
  us_max_window_size :: nat
  us_recv_window :: nat
  us_enable_sack :: bool

definition default_utp :: utp_settings where
  "default_utp =
    \<lparr>us_enabled = False, us_policy = PreferUtp, us_tcp_fallback = True, us_target_delay_us = 100000,
     us_max_window_size = 1024 * 1024, us_recv_window = 1024 * 1024, us_enable_sack = True\<rparr>"

record torrent_config =
  tc_listen_port_range :: "nat \<times> nat"
  tc_dht_bootstrap_nodes :: "string list"
  tc_allocation_mode :: allocation_mode
  tc_tracker_update_interval :: nat
  tc_peer_timeout :: nat
  tc_max_pending_requests :: nat
  tc_enable_endgame :: bool
  tc_tick_interval_ms :: nat
  tc_connect_interval_secs :: nat
  tc_choking_interval_secs :: nat
  tc_webseed :: webseed_config
  tc_encryption :: encryption_config
  tc_utp :: utp_settings

definition default_torrent :: torrent_config where
  "default_torrent =
    \<lparr>tc_listen_port_range = (6881, 6889),
     tc_dht_bootstrap_nodes = [''router.bittorrent.com:6881'', ''router.utorrent.com:6881'', ''dht.transmissionbt.com:6881''],
     tc_allocation_mode = AllocNone, tc_tracker_update_interval = 1800, tc_peer_timeout = 120,
     tc_max_pending_requests = 16, tc_enable_endgame = True, tc_tick_interval_ms = 100, tc_connect_interval_secs = 5,
     tc_choking_interval_secs = 10, tc_webseed = default_webseed, tc_encryption = default_encryption, tc_utp = default_utp\<rparr>"

record http_config =
  hc_connect_timeout :: nat
  hc_read_timeout :: nat
  hc_max_redirects :: nat
  hc_max_retries :: nat
  hc_retry_delay_ms :: nat
  hc_max_retry_delay_ms :: nat
  hc_accept_invalid_certs :: bool
  hc_proxy_url :: "string option"

definition default_http :: http_config where
  "default_http =
    \<lparr>hc_connect_timeout = 30, hc_read_timeout = 60, hc_max_redirects = 10, hc_max_retries = 5, hc_retry_delay_ms = 1000,
     hc_max_retry_delay_ms = 30000, hc_accept_invalid_certs = False, hc_proxy_url = None\<rparr>"

record engine_config =
  cf_download_dir :: string
  cf_max_concurrent_downloads :: nat
  cf_max_connections_per_download :: nat
  cf_min_segment_size :: nat
  cf_global_download_limit :: "nat option"
  cf_global_upload_limit :: "nat option"
  cf_schedule_rules :: "schedule_rule list"
  cf_user_agent :: string
  cf_enable_dht :: bool
  cf_enable_pex :: bool
  cf_enable_lpd :: bool
  cf_max_peers :: nat
  cf_seed_ratio :: float_bits
  cf_database_path :: "string option"
  cf_http :: http_config
  cf_torrent :: torrent_config

definition f64_one :: float_bits where "f64_one = 0x3FF0000000000000"

definition default_config :: "string option \<Rightarrow> string \<Rightarrow> engine_config" where
  "default_config platform_downloads version =
    \<lparr>cf_download_dir = (case platform_downloads of Some d \<Rightarrow> d | None \<Rightarrow> ''.''),
     cf_max_concurrent_downloads = 5, cf_max_connections_per_download = 16, cf_min_segment_size = 1024 * 1024,
     cf_global_download_limit = None, cf_global_upload_limit = None, cf_schedule_rules = [],
     cf_user_agent = ''gosh-dl/'' @ version, cf_enable_dht = True, cf_enable_pex = True, cf_enable_lpd = True,
     cf_max_peers = 55, cf_seed_ratio = f64_one, cf_database_path = None, cf_http = default_http, cf_torrent = default_torrent\<rparr>"

section \<open>Setters\<close>

definition with_download_dir :: "string \<Rightarrow> engine_config \<Rightarrow> engine_config" where
  "with_download_dir path c = c\<lparr>cf_download_dir := path\<rparr>"

definition with_max_concurrent_downloads :: "nat \<Rightarrow> engine_config \<Rightarrow> engine_config" where
  "with_max_concurrent_downloads n c = c\<lparr>cf_max_concurrent_downloads := n\<rparr>"

definition with_max_connections_per_download :: "nat \<Rightarrow> engine_config \<Rightarrow> engine_config" where
  "with_max_connections_per_download n c = c\<lparr>cf_max_connections_per_download := n\<rparr>"

definition with_download_limit :: "nat option \<Rightarrow> engine_config \<Rightarrow> engine_config" where
  "with_download_limit limit c = c\<lparr>cf_global_download_limit := limit\<rparr>"

definition with_upload_limit :: "nat option \<Rightarrow> engine_config \<Rightarrow> engine_config" where
  "with_upload_limit limit c = c\<lparr>cf_global_upload_limit := limit\<rparr>"

definition with_user_agent :: "string \<Rightarrow> engine_config \<Rightarrow> engine_config" where
  "with_user_agent ua c = c\<lparr>cf_user_agent := ua\<rparr>"

definition with_schedule_rules :: "schedule_rule list \<Rightarrow> engine_config \<Rightarrow> engine_config" where
  "with_schedule_rules rules c = c\<lparr>cf_schedule_rules := rules\<rparr>"

definition with_schedule_rule :: "schedule_rule \<Rightarrow> engine_config \<Rightarrow> engine_config" where
  "with_schedule_rule rule c = c\<lparr>cf_schedule_rules := cf_schedule_rules c @ [rule]\<rparr>"

definition with_database_path :: "string \<Rightarrow> engine_config \<Rightarrow> engine_config" where
  "with_database_path path c = c\<lparr>cf_database_path := Some path\<rparr>"

definition get_database_path :: "string option \<Rightarrow> engine_config \<Rightarrow> string" where
  "get_database_path data_dir c =
    (case cf_database_path c of
       Some p \<Rightarrow> p
     | None \<Rightarrow> path_push (path_push (case data_dir of Some d \<Rightarrow> d | None \<Rightarrow> ''.'') ''gosh-dl'') ''gosh-dl.db'')"

section \<open>Validation\<close>

text \<open>Comparison of an \<open>f64\<close> with zero: neither a not-a-number nor minus zero is below it.\<close>

definition f64_nan :: "float_bits \<Rightarrow> bool" where
  "f64_nan x \<longleftrightarrow> 0x7FF0000000000000 < and x 0x7FFFFFFFFFFFFFFF"

definition f64_negative :: "float_bits \<Rightarrow> bool" where
  "f64_negative x \<longleftrightarrow> bit x 63 \<and> \<not> f64_nan x \<and> and x 0x7FFFFFFFFFFFFFFF \<noteq> 0"

text \<open>\<open>debug\<close> writes a path with quotes and escapes.\<close>

definition validate ::
  "(string \<Rightarrow> string) \<Rightarrow> (string \<Rightarrow> bool) \<Rightarrow> (string \<Rightarrow> bool) \<Rightarrow> engine_config \<Rightarrow> unit result"
where
  "validate debug path_exists is_dir c =
    (if \<not> path_exists (cf_download_dir c) then
       Inl (err_invalid_input ''download_dir'' (''Directory does not exist: '' @ debug (cf_download_dir c)))
     else if \<not> is_dir (cf_download_dir c) then
       Inl (err_invalid_input ''download_dir'' (''Path is not a directory: '' @ debug (cf_download_dir c)))
     else if cf_max_concurrent_downloads c = 0 then
       Inl (err_invalid_input ''max_concurrent_downloads'' ''Must be at least 1'')
     else if cf_max_connections_per_download c = 0 then
       Inl (err_invalid_input ''max_connections_per_download'' ''Must be at least 1'')
     else if cf_min_segment_size c = 0 then Inl (err_invalid_input ''min_segment_size'' ''Must be at least 1 byte'')
     else if f64_negative (cf_seed_ratio c) then Inl (err_invalid_input ''seed_ratio'' ''Must be non-negative'')
     else if wc_max_connections (tc_webseed (cf_torrent c)) = 0 then
       Inl (err_invalid_input ''torrent.webseed.max_connections'' ''Must be at least 1'')
     else if snd (tc_listen_port_range (cf_torrent c)) < fst (tc_listen_port_range (cf_torrent c)) then
       Inl (err_invalid_input ''listen_port_range'' ''Start port must be <= end port'')
     else Inr ())"

text \<open>What an accepted configuration guarantees, among it what the divisions of the segment computation and
  the queue need.\<close>

lemma validate_iff:
  "validate debug path_exists is_dir c = Inr () \<longleftrightarrow>
    path_exists (cf_download_dir c) \<and> is_dir (cf_download_dir c) \<and> 0 < cf_max_concurrent_downloads c \<and>
    0 < cf_max_connections_per_download c \<and> 0 < cf_min_segment_size c \<and> \<not> f64_negative (cf_seed_ratio c) \<and>
    0 < wc_max_connections (tc_webseed (cf_torrent c)) \<and>
    fst (tc_listen_port_range (cf_torrent c)) \<le> snd (tc_listen_port_range (cf_torrent c))"
  by (auto simp: validate_def)

lemma default_config_valid:
  assumes "path_exists (cf_download_dir (default_config dir version))" and "is_dir (cf_download_dir (default_config dir version))"
  shows "validate debug path_exists is_dir (default_config dir version) = Inr ()"
proof -
  have "\<not> bit (0x3FF0000000000000 :: float_bits) 63" by simp
  then show ?thesis
    using assms unfolding validate_iff
    by (simp add: default_config_def f64_negative_def f64_one_def default_torrent_def default_webseed_def)
qed

lemma allocation_round_trip: "parse_allocation (show_allocation m) = Inr m"
  by (cases m) (simp_all add: parse_allocation_def to_lower_def lower_char_def)

text \<open>A seed ratio that is not a number passes the check for a negative ratio.\<close>

lemma nan_ratio_accepted:
  "f64_nan 0x7FF8000000000000 \<and> \<not> f64_negative 0x7FF8000000000000 \<and> \<not> f64_negative 0xFFF8000000000000 \<and> f64_negative 0xBFF0000000000000"
  by (simp add: f64_nan_def f64_negative_def)

end
