(* ===== verification/WebSeed.thy ===== *)
theory WebSeed
  imports PieceManager HttpResume Magnet
begin

text \<open>
  Web seeds (\<open>src/torrent/webseed.rs\<close>): HTTP servers that hold the files of a torrent (BEP 19) or serve its
  pieces (BEP 17). The answers of the servers, the time, the result of the floating-point jitter and
  \<open>urlencoding::encode\<close> (\<open>enc\<close>) are arguments. The download loop is a set of steps: claiming a piece for
  an idle seed, recording the outcome of a download, and releasing the piece and the seed.
\<close>

section \<open>One web seed\<close>

datatype webseed_type = GetRight | Hoffman

datatype webseed_state = WsIdle | WsDownloading | WsBackoff | WsFailed

record webseed_stats =
  wst_downloaded :: nat
  wst_pieces_completed :: nat
  wst_failures :: nat
  wst_avg_speed :: nat
  wst_last_error :: "string option"

record webseed =
  ws_url :: string
  ws_type :: webseed_type
  ws_state :: webseed_state
  ws_stats :: webseed_stats
  ws_backoff_until :: "nat option"
  ws_consecutive :: nat
  ws_current :: "nat option"

definition webseed_new :: "string \<Rightarrow> webseed_type \<Rightarrow> webseed" where
  "webseed_new url ty =
    \<lparr>ws_url = url, ws_type = ty, ws_state = WsIdle,
     ws_stats = \<lparr>wst_downloaded = 0, wst_pieces_completed = 0, wst_failures = 0, wst_avg_speed = 0, wst_last_error = None\<rparr>,
     ws_backoff_until = None, ws_consecutive = 0, ws_current = None\<rparr>"

text \<open>\<open>is_available\<close> ends a backoff that is over; instants are in milliseconds.\<close>

definition is_available :: "nat \<Rightarrow> webseed \<Rightarrow> bool \<times> webseed" where
  "is_available now s =
    (case ws_state s of
       WsIdle \<Rightarrow> (True, s)
     | WsBackoff \<Rightarrow>
         (case ws_backoff_until s of
            Some until \<Rightarrow> if until \<le> now then (True, s\<lparr>ws_state := WsIdle\<rparr>) else (False, s)
          | None \<Rightarrow> (False, s))
     | WsDownloading \<Rightarrow> (False, s)
     | WsFailed \<Rightarrow> (False, s))"

definition set_downloading :: "nat \<Rightarrow> webseed \<Rightarrow> webseed" where
  "set_downloading i s = s\<lparr>ws_state := WsDownloading, ws_current := Some i\<rparr>"

definition clear_downloading :: "webseed \<Rightarrow> webseed" where
  "clear_downloading s =
    (let s = s\<lparr>ws_current := None\<rparr> in if ws_state s = WsDownloading then s\<lparr>ws_state := WsIdle\<rparr> else s)"

definition record_success :: "nat \<Rightarrow> webseed \<Rightarrow> webseed" where
  "record_success bytes s =
    s\<lparr>ws_stats := (ws_stats s)\<lparr>wst_downloaded := u64 (wst_downloaded (ws_stats s) + bytes),
                              wst_pieces_completed := u32 (wst_pieces_completed (ws_stats s) + 1)\<rparr>,
      ws_consecutive := 0, ws_state := WsIdle\<rparr>"

definition backoff_base :: "nat \<Rightarrow> nat \<Rightarrow> nat \<Rightarrow> nat" where
  "backoff_base initial max_backoff consecutive = min max_backoff (initial * 2 ^ min (consecutive - 1) 6)"

text \<open>\<open>jitter\<close> is the floating-point factor of about a quarter up or down, applied to milliseconds.\<close>

definition record_failure ::
  "(nat \<Rightarrow> nat) \<Rightarrow> nat \<Rightarrow> string \<Rightarrow> nat \<Rightarrow> nat \<Rightarrow> nat \<Rightarrow> webseed \<Rightarrow> webseed"
where
  "record_failure jitter now error max_failures initial max_backoff s =
    (let s = s\<lparr>ws_stats := (ws_stats s)\<lparr>wst_failures := u32 (wst_failures (ws_stats s) + 1), wst_last_error := Some error\<rparr>,
               ws_consecutive := u32 (ws_consecutive s + 1)\<rparr>
     in if max_failures \<le> ws_consecutive s then s\<lparr>ws_state := WsFailed\<rparr>
        else s\<lparr>ws_backoff_until :=
                 Some (now + min max_backoff (jitter (backoff_base initial max_backoff (ws_consecutive s)))),
               ws_state := WsBackoff\<rparr>)"

section \<open>URLs\<close>

definition getright_single_file_url :: "(string \<Rightarrow> string) \<Rightarrow> string \<Rightarrow> string \<Rightarrow> string" where
  "getright_single_file_url enc base name = (if ends_with_slash base then base @ enc name else base)"

definition getright_multi_file_url :: "(string \<Rightarrow> string) \<Rightarrow> string \<Rightarrow> string \<Rightarrow> string \<Rightarrow> string" where
  "getright_multi_file_url enc base name path =
    trim_slashes base @ ''/'' @ enc name @ ''/'' @ join_slash (map enc (split_char (CHR ''/'') path))"

definition hoffman_piece_url :: "string \<Rightarrow> string \<Rightarrow> nat \<Rightarrow> string" where
  "hoffman_piece_url base hash i =
    base @ (if CHR ''?'' \<in> set base then ''&'' else ''?'') @ ''info_hash='' @ hash @ ''&piece='' @ show_nat i"

definition build_piece_url :: "(string \<Rightarrow> string) \<Rightarrow> metainfo \<Rightarrow> webseed \<Rightarrow> nat \<Rightarrow> string result" where
  "build_piece_url enc m s i =
    (case ws_type s of
       GetRight \<Rightarrow>
         if in_is_single_file (mi_info m) then Inr (getright_single_file_url enc (ws_url s) (in_name (mi_info m)))
         else Inl (err_protocol InvalidTorrent (''Piece '' @ show_nat i @ '' of a multi-file torrent has no single URL''))
     | Hoffman \<Rightarrow> Inr (hoffman_piece_url (ws_url s) (info_hash_urlencoded m) i))"

definition build_file_url :: "(string \<Rightarrow> string) \<Rightarrow> metainfo \<Rightarrow> webseed \<Rightarrow> file_info \<Rightarrow> string" where
  "build_file_url enc m s f = getright_multi_file_url enc (ws_url s) (in_name (mi_info m)) (fi_path f)"

section \<open>Downloading a piece\<close>

text \<open>A response: status code, its text, the declared length, and the chunks of the body or an error.\<close>

record web_response =
  wr_status :: "16 word"
  wr_text :: string
  wr_declared :: "nat option"
  wr_chunks :: "(string + bytes) list"

text \<open>The answer to a GET of a URL with a byte range, both ends included.\<close>

type_synonym web = "string \<Rightarrow> nat \<Rightarrow> nat \<Rightarrow> string + web_response"

fun read_chunks :: "nat \<Rightarrow> bytes \<Rightarrow> (string + bytes) list \<Rightarrow> bytes result" where
  "read_chunks max_len body [] = Inr body"
| "read_chunks max_len body (Inl e # cs) = Inl (err_network ConnectionReset (''Failed to read response: '' @ e))"
| "read_chunks max_len body (Inr c # cs) =
    (if max_len < min (2 ^ 64 - 1) (length body + length c)
     then Inl (err_protocol InvalidResponse (''WebSeed response too large: exceeds '' @ show_nat max_len @ '' bytes''))
     else read_chunks max_len (body @ c) cs)"

definition read_body_bounded :: "nat \<Rightarrow> web_response \<Rightarrow> bytes result" where
  "read_body_bounded max_len r =
    (case wr_declared r of
       Some n \<Rightarrow>
         if max_len < n
         then Inl (err_protocol InvalidResponse (''WebSeed response too large: Content-Length '' @ show_nat n @ '' exceeds '' @ show_nat max_len))
         else read_chunks max_len [] (wr_chunks r)
     | None \<Rightarrow> read_chunks max_len [] (wr_chunks r))"

definition extract_file_range :: "bytes \<Rightarrow> bool \<Rightarrow> nat \<Rightarrow> nat \<Rightarrow> bytes result" where
  "extract_file_range body partial file_offset len =
    (if partial then
       (if length body \<noteq> len
        then Inl (err_protocol InvalidResponse (''WebSeed returned wrong range size: expected '' @ show_nat len @ '', got '' @ show_nat (length body)))
        else Inr body)
     else
       (let range_end = u64 (file_offset + len) in
        if length body < range_end
        then Inl (err_protocol InvalidResponse (''WebSeed full response too short: need '' @ show_nat range_end @ '' bytes, got '' @ show_nat (length body)))
        else Inr (slice file_offset range_end body)))"

definition web_error :: "string \<Rightarrow> string \<Rightarrow> engine_error" where
  "web_error what e = err_network NetOther (what @ e)"

text \<open>The loop over the files of a piece.\<close>

fun multifile_loop ::
  "(string \<Rightarrow> string) \<Rightarrow> web \<Rightarrow> metainfo \<Rightarrow> webseed \<Rightarrow> (nat \<times> nat \<times> nat) list \<Rightarrow> bytes \<Rightarrow> bytes result"
where
  "multifile_loop enc web m s [] piece = Inr piece"
| "multifile_loop enc web m s ((idx, off, len) # segs) piece =
    (if len = 0 then multifile_loop enc web m s segs piece
     else
       (let f = in_files (mi_info m) ! idx; end_byte = u64_sub (u64 (off + len)) 1 in
        case web (build_file_url enc m s f) off end_byte of
          Inl e \<Rightarrow> Inl (web_error ''WebSeed cross-file request failed: '' e)
        | Inr r \<Rightarrow>
            if \<not> is_success (wr_status r) \<and> wr_status r \<noteq> 206
            then Inl (err_network (HttpStatus (wr_status r)) (''WebSeed HTTP error for file '' @ fi_path f @ '': '' @ wr_text r))
            else
              rbind (read_body_bounded (if wr_status r = 206 then len else fi_length f) r) (\<lambda>body.
                rbind (extract_file_range body (wr_status r = 206) off len) (\<lambda>chunk.
                  multifile_loop enc web m s segs (piece @ chunk)))))"

definition check_piece :: "(bytes \<Rightarrow> bytes) \<Rightarrow> metainfo \<Rightarrow> nat \<Rightarrow> (bytes \<Rightarrow> bytes \<Rightarrow> string) \<Rightarrow> bytes \<Rightarrow> bytes result" where
  "check_piece sha1 m i mismatch piece =
    (case piece_hash m i of
       None \<Rightarrow> Inl (err_protocol InvalidTorrent (''No hash for piece '' @ show_nat i))
     | Some h \<Rightarrow> if sha1 piece \<noteq> h then Inl (err_protocol HashMismatch (mismatch h (sha1 piece))) else Inr piece)"

definition download_multifile_piece ::
  "(string \<Rightarrow> string) \<Rightarrow> (bytes \<Rightarrow> bytes) \<Rightarrow> web \<Rightarrow> metainfo \<Rightarrow> webseed \<Rightarrow> nat \<Rightarrow> bytes result"
where
  "download_multifile_piece enc sha1 web m s i =
    rbind (multifile_loop enc web m s (files_for_piece m i) [])
      (check_piece sha1 m i (\<lambda>_ _. ''WebSeed cross-file piece '' @ show_nat i @ '' hash mismatch''))"

text \<open>What is taken from the body of a response for a whole piece.\<close>

definition take_piece :: "metainfo \<Rightarrow> nat \<Rightarrow> nat \<Rightarrow> bytes \<Rightarrow> bytes result" where
  "take_piece m start e body =
    (let piece_len = u64_sub e start in
     if length body = piece_len then Inr body
     else if length body = in_total_size (mi_info m) then Inr (slice start e body)
     else if piece_len < length body then Inr (take piece_len body)
     else Inl (err_protocol InvalidResponse
       (''WebSeed returned wrong size: expected '' @ show_nat piece_len @ '', got '' @ show_nat (length body))))"

text \<open>\<open>show_hashes\<close> prints a mismatch of hashes, the expected and the actual one.\<close>

definition download_whole_piece ::
  "(bytes \<Rightarrow> bytes) \<Rightarrow> (nat \<Rightarrow> bytes \<Rightarrow> bytes \<Rightarrow> string) \<Rightarrow> web \<Rightarrow> metainfo \<Rightarrow> nat \<Rightarrow> nat \<Rightarrow> nat \<Rightarrow> string \<Rightarrow> bytes result"
where
  "download_whole_piece sha1 show_hashes web m i start e url =
    (case web url start (u64_sub e 1) of
       Inl err \<Rightarrow> Inl (web_error ''WebSeed request failed: '' err)
     | Inr r \<Rightarrow>
         if wr_status r \<noteq> 206 \<and> \<not> is_success (wr_status r) then
           (if wr_status r = 416 then Inl (web_error ''WebSeed does not support range requests'' [])
            else Inl (err_network (HttpStatus (wr_status r)) (''WebSeed HTTP error: '' @ wr_text r)))
         else
           rbind (read_body_bounded (if wr_status r = 206 then u64_sub e start else in_total_size (mi_info m)) r) (\<lambda>body.
             rbind (take_piece m start e body) (check_piece sha1 m i (show_hashes i))))"

definition do_download_piece ::
  "(string \<Rightarrow> string) \<Rightarrow> (bytes \<Rightarrow> bytes) \<Rightarrow> (nat \<Rightarrow> bytes \<Rightarrow> bytes \<Rightarrow> string) \<Rightarrow> web \<Rightarrow> metainfo \<Rightarrow> webseed \<Rightarrow> nat \<Rightarrow> bytes result"
where
  "do_download_piece enc sha1 show_hashes web m s i =
    (case piece_range m i of
       None \<Rightarrow> Inl (err_protocol InvalidTorrent (''Invalid piece index: '' @ show_nat i))
     | Some (start, e) \<Rightarrow>
         if ws_type s = GetRight \<and> \<not> in_is_single_file (mi_info m) then download_multifile_piece enc sha1 web m s i
         else rbind (build_piece_url enc m s i) (download_whole_piece sha1 show_hashes web m i start e))"

section \<open>The manager\<close>

record ws_config =
  wsc_max_connections :: nat
  wsc_initial_backoff :: nat
  wsc_max_backoff :: nat
  wsc_max_failures :: nat

definition default_ws_config :: ws_config where
  "default_ws_config =
    \<lparr>wsc_max_connections = 4, wsc_initial_backoff = 5000, wsc_max_backoff = 300000, wsc_max_failures = 5\<rparr>"

text \<open>A task in flight: its seed, its piece, and whether its outcome has been recorded.\<close>

record webseed_manager =
  wm_config :: ws_config
  wm_seeds :: "webseed list"
  wm_pending :: "nat set"
  wm_downloaded :: nat
  wm_shutdown :: bool
  wm_tasks :: "(nat \<times> nat \<times> bool) list"

fun add_httpseeds :: "webseed list \<Rightarrow> string list \<Rightarrow> webseed list" where
  "add_httpseeds seeds [] = seeds"
| "add_httpseeds seeds (url # urls) =
    (if url \<in> ws_url ` set seeds then add_httpseeds seeds urls
     else add_httpseeds (seeds @ [webseed_new url Hoffman]) urls)"

definition seeds_from_metainfo :: "metainfo \<Rightarrow> webseed list" where
  "seeds_from_metainfo m = add_httpseeds (map (\<lambda>url. webseed_new url GetRight) (mi_url_list m)) (mi_httpseeds m)"

definition webseed_manager_new :: "metainfo \<Rightarrow> ws_config \<Rightarrow> webseed_manager" where
  "webseed_manager_new m c =
    \<lparr>wm_config = c\<lparr>wsc_max_connections := max (wsc_max_connections c) 1\<rparr>, wm_seeds = seeds_from_metainfo m,
     wm_pending = {}, wm_downloaded = 0, wm_shutdown = False, wm_tasks = []\<rparr>"

text \<open>The first piece that is missing, wanted, and fetched neither from peers nor from web seeds.\<close>

definition select_piece_for_webseed :: "piece_manager \<Rightarrow> webseed_manager \<Rightarrow> nat option" where
  "select_piece_for_webseed pm w =
    List.find (\<lambda>i. \<not> bit_at (pm_bitfield pm) i \<and> i \<notin> pending_pieces pm \<and> i \<notin> wm_pending w \<and> is_piece_wanted i pm)
      [0..<pm_num_pieces pm]"

text \<open>\<open>find_work\<close> from the seed with number \<open>j\<close> on.\<close>

fun find_work_from :: "nat \<Rightarrow> piece_manager \<Rightarrow> nat \<Rightarrow> webseed list \<Rightarrow> webseed_manager \<Rightarrow> (nat \<times> nat) option \<times> webseed_manager" where
  "find_work_from now pm j [] w = (None, w)"
| "find_work_from now pm j (s # ss) w =
    (case is_available now s of
       (False, _) \<Rightarrow> find_work_from now pm (j + 1) ss w
     | (True, s) \<Rightarrow>
         (let w = w\<lparr>wm_seeds := (wm_seeds w)[j := s]\<rparr> in
          case select_piece_for_webseed pm w of
            None \<Rightarrow> find_work_from now pm (j + 1) ss w
          | Some i \<Rightarrow>
              (Some (j, i), w\<lparr>wm_pending := insert i (wm_pending w), wm_seeds := (wm_seeds w)[j := set_downloading i s]\<rparr>)))"

definition find_work :: "nat \<Rightarrow> piece_manager \<Rightarrow> webseed_manager \<Rightarrow> (nat \<times> nat) option \<times> webseed_manager" where
  "find_work now pm w = find_work_from now pm 0 (wm_seeds w) w"

text \<open>One turn of \<open>run\<close>, which changes nothing once the loop has ended; a task holds its permit until it
  is over.\<close>

definition run_turn :: "nat \<Rightarrow> piece_manager \<Rightarrow> webseed_manager \<Rightarrow> webseed_manager" where
  "run_turn now pm w =
    (if wm_shutdown w then w\<lparr>wm_tasks := []\<rparr>
     else if pm_is_complete pm \<or> wsc_max_connections (wm_config w) \<le> length (wm_tasks w) then w
     else (case find_work now pm w of
             (Some (j, i), w) \<Rightarrow> w\<lparr>wm_tasks := wm_tasks w @ [(j, i, False)]\<rparr>
           | (None, w) \<Rightarrow> w))"

text \<open>\<open>download_piece\<close> when the fetch has ended, up to the event it sends.\<close>

definition record_outcome :: "(nat \<Rightarrow> nat) \<Rightarrow> nat \<Rightarrow> (engine_error \<Rightarrow> string) \<Rightarrow> nat \<Rightarrow> bytes result \<Rightarrow> webseed_manager \<Rightarrow> webseed_manager" where
  "record_outcome jitter now show_error k outcome w =
    (case wm_tasks w ! k of
       (j, i, recorded) \<Rightarrow>
         (let w = w\<lparr>wm_tasks := (wm_tasks w)[k := (j, i, True)]\<rparr>; s = wm_seeds w ! j; c = wm_config w in
          case outcome of
            Inr piece \<Rightarrow>
              w\<lparr>wm_seeds := (wm_seeds w)[j := record_success (length piece) s],
                wm_downloaded := u64 (wm_downloaded w + length piece)\<rparr>
          | Inl e \<Rightarrow>
              w\<lparr>wm_seeds := (wm_seeds w)[j := record_failure jitter now (show_error e) (wsc_max_failures c)
                  (wsc_initial_backoff c) (wsc_max_backoff c) s]\<rparr>))"

text \<open>The end of \<open>download_piece\<close>, once the event has been sent.\<close>

definition release_task :: "nat \<Rightarrow> webseed_manager \<Rightarrow> webseed_manager" where
  "release_task k w =
    (case wm_tasks w ! k of
       (j, i, recorded) \<Rightarrow>
         w\<lparr>wm_pending := wm_pending w - {i}, wm_seeds := (wm_seeds w)[j := clear_downloading (wm_seeds w ! j)],
           wm_tasks := take k (wm_tasks w) @ drop (Suc k) (wm_tasks w)\<rparr>)"

text \<open>\<open>shutdown\<close> aborts every task: its permit is freed, its piece stays marked.\<close>

definition webseed_shutdown :: "webseed_manager \<Rightarrow> webseed_manager" where
  "webseed_shutdown w = w\<lparr>wm_shutdown := True, wm_tasks := []\<rparr>"

definition all_stats :: "webseed_manager \<Rightarrow> (string \<times> webseed_stats) list" where
  "all_stats w = map (\<lambda>s. (ws_url s, ws_stats s)) (wm_seeds w)"

definition has_seeds :: "webseed_manager \<Rightarrow> bool" where
  "has_seeds w \<longleftrightarrow> wm_seeds w \<noteq> []"

definition active_seed_count :: "webseed_manager \<Rightarrow> nat" where
  "active_seed_count w = length (filter (\<lambda>s. ws_state s \<noteq> WsFailed) (wm_seeds w))"

section \<open>What a download returns\<close>

lemma check_piece_Inr:
  "check_piece sha1 m i f p = Inr q \<longleftrightarrow> q = p \<and> piece_hash m i = Some (sha1 p)"
  by (auto simp: check_piece_def split: option.splits if_splits)

text \<open>Whatever the servers answer, a piece that is returned has its hash.\<close>

lemma whole_piece_authentic:
  "download_whole_piece sha1 show_hashes web m i start e url = Inr p \<Longrightarrow> piece_hash m i = Some (sha1 p)"
  by (cases "web url start (u64_sub e 1)")
    (auto simp: download_whole_piece_def rbind_Inr_iff check_piece_Inr split: if_splits)

lemma downloaded_piece_authentic:
  assumes "do_download_piece enc sha1 show_hashes web m s i = Inr p"
  shows "piece_hash m i = Some (sha1 p)"
  using assms
  by (auto simp: do_download_piece_def download_multifile_piece_def rbind_Inr_iff check_piece_Inr
      split: option.splits if_splits intro: whole_piece_authentic)

lemma read_chunks_all:
  "length body + length (concat cs) \<le> max_len \<Longrightarrow> max_len < 2 ^ 64 \<Longrightarrow>
   read_chunks max_len body (map Inr cs) = Inr (body @ concat cs)"
  by (induction cs arbitrary: body) auto

text \<open>Answers of a server that holds \<open>content\<close>: the range asked for, or all of it.\<close>

definition honest_answer :: "bytes \<Rightarrow> nat \<Rightarrow> nat \<Rightarrow> string + web_response \<Rightarrow> bool" where
  "honest_answer content start e answer \<longleftrightarrow>
    (\<exists>r cs. answer = Inr r \<and> wr_chunks r = map Inr cs \<and> wr_declared r \<in> {None, Some (length (concat cs))} \<and>
      (wr_status r = 206 \<and> concat cs = slice start e content \<or> wr_status r = 200 \<and> concat cs = content))"

text \<open>A piece server (BEP 17) answers a request for a piece with the piece, whatever \<open>Range\<close> it is sent.\<close>

definition honest_piece :: "bytes \<Rightarrow> string + web_response \<Rightarrow> bool" where
  "honest_piece piece answer \<longleftrightarrow>
    (\<exists>r cs. answer = Inr r \<and> wr_chunks r = map Inr cs \<and> wr_declared r \<in> {None, Some (length (concat cs))} \<and>
      wr_status r = 200 \<and> concat cs = piece)"

lemma read_body_all:
  assumes "wr_chunks r = map Inr cs" and "wr_declared r \<in> {None, Some (length (concat cs))}"
    and "length (concat cs) \<le> max_len" and "max_len < 2 ^ 64"
  shows "read_body_bounded max_len r = Inr (concat cs)"
  using assms read_chunks_all [of "[]" cs max_len] by (auto simp: read_body_bounded_def)

lemma multifile_honest:
  assumes "\<forall>(idx, off, len) \<in> set segs. off + len \<le> length (F idx) \<and> length (F idx) < 2 ^ 64 \<and>
      fi_length (in_files (mi_info m) ! idx) = length (F idx) \<and>
      (len \<noteq> 0 \<longrightarrow> honest_answer (F idx) off (off + len) (web (build_file_url enc m s (in_files (mi_info m) ! idx)) off (off + len - 1)))"
  shows "multifile_loop enc web m s segs piece = Inr (piece @ segments F segs)"
  using assms
proof (induction segs arbitrary: piece)
  case (Cons seg segs)
  obtain idx off len where seg: "seg = (idx, off, len)" by (cases seg)
  have IH: "multifile_loop enc web m s segs piece' = Inr (piece' @ segments F segs)" for piece'
    using Cons by simp
  show ?case
  proof (cases "len = 0")
    case True
    then show ?thesis by (simp add: seg IH)
  next
    case False
    let ?f = "in_files (mi_info m) ! idx"
    have fits: "off + len \<le> length (F idx)" "length (F idx) < 2 ^ 64" "fi_length ?f = length (F idx)"
      and answer: "honest_answer (F idx) off (off + len) (web (build_file_url enc m s ?f) off (off + len - 1))"
      using Cons.prems False by (auto simp: seg)
    have sum: "u64 (off + len) = off + len" and last_byte: "u64_sub (u64 (off + len)) 1 = off + len - 1"
      using fits(1, 2) False u64_sub_le [of 1 "off + len"] by simp_all
    obtain r cs where r: "web (build_file_url enc m s ?f) off (off + len - 1) = Inr r"
      and cs: "wr_chunks r = map Inr cs" "wr_declared r \<in> {None, Some (length (concat cs))}"
      and body: "wr_status r = 206 \<and> concat cs = slice off (off + len) (F idx) \<or> wr_status r = 200 \<and> concat cs = F idx"
      using answer by (auto simp: honest_answer_def)
    have read: "read_body_bounded (if wr_status r = 206 then len else fi_length ?f) r = Inr (concat cs)"
      using body fits by (intro read_body_all [OF cs]) auto
    have window: "extract_file_range (concat cs) (wr_status r = 206) off len = Inr (slice off (off + len) (F idx))"
      using body fits sum by (auto simp: extract_file_range_def Let_def)
    have success: "is_success (wr_status r)" using body by (auto simp: is_success_def)
    show ?thesis
      using r success by (simp add: seg False Let_def last_byte read window IH del: One_nat_def)
  qed
qed simp

text \<open>
  Servers, without the code's URLs. \<open>serves\<close>: the resource at \<open>url\<close> is \<open>content\<close>, and its byte
  ranges can be requested. \<open>serves_at\<close>: below \<open>root\<close> the server splits the path of a request at
  the slashes, decodes each part, and finds \<open>content\<close> at \<open>path\<close>. \<open>serves_pieces\<close>: at the resource
  of \<open>base\<close>, a request whose parameters are those of \<open>base\<close> followed by the info hash and a piece
  number is for that piece.
\<close>

definition serves :: "web \<Rightarrow> string \<Rightarrow> bytes \<Rightarrow> bool" where
  "serves web url content \<longleftrightarrow>
    (\<forall>start last. start \<le> last \<and> last < length content \<longrightarrow> honest_answer content start (Suc last) (web url start last))"

definition serves_at :: "web \<Rightarrow> string \<Rightarrow> bytes list \<Rightarrow> bytes \<Rightarrow> bool" where
  "serves_at web root path content \<longleftrightarrow>
    (\<forall>rest. map url_decode_bytes (split_char (CHR ''/'') rest) = path \<longrightarrow> serves web (root @ rest) content)"

definition serves_pieces :: "web \<Rightarrow> string \<Rightarrow> bytes \<Rightarrow> nat \<Rightarrow> bytes \<Rightarrow> bool" where
  "serves_pieces web base info_hash i piece \<longleftrightarrow>
    (\<forall>url start last. url_resource url = url_resource base \<and>
       url_params url = url_params base @ [(''info_hash'', info_hash), (''piece'', as_bytes (show_nat i))]
       \<longrightarrow> honest_piece piece (web url start last))"

text \<open>A web seed that holds the files \<open>F\<close>, as far as piece \<open>i\<close> is concerned: under BEP 19 the URL of a
  single file is that of the file, or of its directory when it ends in a slash; the files of a
  larger torrent are below its name in the directory. A piece server's URL has no fragment.\<close>

definition file_location :: "info \<Rightarrow> nat \<Rightarrow> bytes list" where
  "file_location info j =
    as_bytes (in_name info) # map as_bytes (split_char (CHR ''/'') (fi_path (in_files info ! j)))"

definition honest_webseed :: "web \<Rightarrow> metainfo \<Rightarrow> webseed \<Rightarrow> (nat \<Rightarrow> bytes) \<Rightarrow> nat \<Rightarrow> bool" where
  "honest_webseed web m s F i \<longleftrightarrow>
    (let info = mi_info m; content = concat (map F [0..<length (in_files info)]) in
     case ws_type s of
       GetRight \<Rightarrow>
         if in_is_single_file info then
           (if ends_with_slash (ws_url s) then serves_at web (ws_url s) [as_bytes (in_name info)] content
            else serves web (ws_url s) content)
         else
           (\<forall>j < length (in_files info). serves_at web (trim_slashes (ws_url s) @ ''/'') (file_location info j) (F j))
     | Hoffman \<Rightarrow>
         CHR ''#'' \<notin> set (ws_url s) \<and>
         serves_pieces web (ws_url s) (mi_info_hash m) i (piece_slice m content i))"

text \<open>The URLs that the code builds are read as meant.\<close>

lemma encoded_segments:
  assumes "url_encoder enc"
  shows "map url_decode_bytes (split_char (CHR ''/'') (join_slash (map enc (s # ss)))) = map as_bytes (s # ss)"
proof -
  have "\<not> unreserved CHR ''/''" by (simp add: unreserved_def)
  then have no: "CHR ''/'' \<notin> set (enc x)" and dec: "url_decode_bytes (enc x) = as_bytes x" for x
    using assms by (auto simp: url_encoder_def)
  show ?thesis
  proof (induction ss arbitrary: s)
    case Nil
    then show ?case by (simp add: split_char_absent [OF no] dec)
  next
    case (Cons t ss)
    have "split_char (CHR ''/'') (enc s @ CHR ''/'' # join_slash (map enc (t # ss)))
        = [enc s] @ split_char (CHR ''/'') (join_slash (map enc (t # ss)))"
      by (simp only: split_char_append split_char_absent [OF no])
    then show ?case using Cons [of t] dec by simp
  qed
qed

lemma single_file_url:
  assumes "url_encoder enc"
  shows "map url_decode_bytes (split_char (CHR ''/'') (enc name)) = [as_bytes name]"
  using encoded_segments [OF assms, of name "[]"] by simp

lemma multi_file_url:
  assumes "url_encoder enc"
  obtains rest where "build_file_url enc m s (in_files (mi_info m) ! j) = (trim_slashes (ws_url s) @ ''/'') @ rest"
    and "map url_decode_bytes (split_char (CHR ''/'') rest) = file_location (mi_info m) j"
proof -
  let ?ps = "split_char (CHR ''/'') (fi_path (in_files (mi_info m) ! j))" and ?name = "in_name (mi_info m)"
  obtain q qs where q: "?ps = q # qs" by (cases ?ps) simp_all
  let ?rest = "join_slash (map enc (?name # ?ps))"
  have "build_file_url enc m s (in_files (mi_info m) ! j) = (trim_slashes (ws_url s) @ ''/'') @ ?rest"
    by (simp add: build_file_url_def getright_multi_file_url_def q)
  moreover have "map url_decode_bytes (split_char (CHR ''/'') ?rest) = file_location (mi_info m) j"
    unfolding file_location_def using encoded_segments [OF assms, of ?name ?ps] by simp
  ultimately show thesis by (rule that)
qed

lemma no_equals: "CHR ''='' \<notin> set ''info_hash''" "CHR ''='' \<notin> set ''piece''"
  by simp_all

lemma piece_url_params:
  assumes "CHR ''#'' \<notin> set base"
  shows "url_params (hoffman_piece_url base (info_hash_urlencoded m) i)
      = url_params base @ [(''info_hash'', mi_info_hash m), (''piece'', as_bytes (show_nat i))]
    \<and> url_resource (hoffman_piece_url base (info_hash_urlencoded m) i) = url_resource base"
proof -
  let ?h = "info_hash_urlencoded m"
  let ?q = "''info_hash='' @ ?h @ ''&piece='' @ show_nat i"
  have h: "?h = concat (map percent_byte (mi_info_hash m))"
    unfolding info_hash_urlencoded_def by (rule arg_cong [of _ _ concat], rule map_cong) (simp_all add: percent_byte_def)
  have chars: "unreserved c \<or> c = CHR ''%''" if "c \<in> set ?h" for c
    using that percent_byte_chars by (auto simp: h)
  have num: "unreserved c" if "c \<in> set (show_nat i)" for c
    using that show_nat_digits by (auto simp: unreserved_def is_digit_def)
  have no: "CHR ''&'' \<notin> set ?h" "CHR ''#'' \<notin> set ?h" "CHR ''&'' \<notin> set (show_nat i)" "CHR ''#'' \<notin> set (show_nat i)"
    using chars [of "CHR ''&''"] chars [of "CHR ''#''"] num [of "CHR ''&''"] num [of "CHR ''#''"]
    by (auto simp: unreserved_def)
  have "split_char (CHR ''&'') ((''info_hash='' @ ?h) @ CHR ''&'' # (''piece='' @ show_nat i))
      = [''info_hash='' @ ?h, ''piece='' @ show_nat i]"
    unfolding split_char_append using no by (simp add: split_char_absent del: split_char.simps)
  then have "query_params ?q = map query_param [''info_hash'' @ CHR ''='' # ?h, ''piece'' @ CHR ''='' # show_nat i]"
    by (simp add: query_params_def)
  also have "\<dots> = [(''info_hash'', url_decode_bytes ?h), (''piece'', url_decode_bytes (show_nat i))]"
    by (simp only: list.map) (simp only: query_param_join [OF no_equals(1)] query_param_join [OF no_equals(2)])
  also have "\<dots> = [(''info_hash'', mi_info_hash m), (''piece'', as_bytes (show_nat i))]"
    using url_decode_unreserved [of "show_nat i"] num by (simp add: h percent_bytes_decode)
  finally have "query_params ?q = \<dots>" .
  moreover have "CHR ''#'' \<notin> set ?q" using no by simp
  ultimately show ?thesis
    using url_add_query [OF assms, of ?q] by (simp add: hoffman_piece_url_def)
qed

lemma take_piece_honest:
  assumes "e \<le> in_total_size (mi_info m)" and "a < e" and "in_total_size (mi_info m) < 2 ^ 64"
    and "length content = in_total_size (mi_info m)" and "body = slice a e content \<or> body = content"
  shows "take_piece m a e body = Inr (slice a e content)"
proof -
  have len: "u64_sub e a = e - a" using assms(1-3) by simp
  have whole: "length content = e - a \<Longrightarrow> slice a e content = content" using assms(1, 2, 4) by (cases "a = 0") simp_all
  show ?thesis using assms(1, 2, 4, 5) whole by (auto simp: take_piece_def Let_def len)
qed

lemma whole_piece_honest:
  assumes "e \<le> in_total_size (mi_info m)" and "a < e" and "in_total_size (mi_info m) < 2 ^ 64"
    and "length content = in_total_size (mi_info m)" and "piece_hash m i = Some (sha1 (slice a e content))"
    and "honest_answer content a e (web url a (e - 1)) \<or> honest_piece (slice a e content) (web url a (e - 1))"
  shows "download_whole_piece sha1 show_hashes web m i a e url = Inr (slice a e content)"
proof -
  obtain r cs where r: "web url a (e - 1) = Inr r" and cs: "wr_chunks r = map Inr cs" "wr_declared r \<in> {None, Some (length (concat cs))}"
    and body: "wr_status r = 206 \<and> concat cs = slice a e content \<or> wr_status r = 200 \<and> (concat cs = content \<or> concat cs = slice a e content)"
    using assms(6) by (auto simp: honest_answer_def honest_piece_def)
  have last_byte: "u64_sub e 1 = e - 1" "u64_sub e a = e - a" using assms(1-3) by simp_all
  have "length (concat cs) \<le> (if wr_status r = 206 then e - a else in_total_size (mi_info m))"
    using body assms(1, 2, 4) by auto
  then have read: "read_body_bounded (if wr_status r = 206 then u64_sub e a else in_total_size (mi_info m)) r = Inr (concat cs)"
    using assms(1, 3) by (intro read_body_all [OF cs]) (auto simp: last_byte)
  have taken: "take_piece m a e (concat cs) = Inr (slice a e content)"
    using body by (intro take_piece_honest [OF assms(1-4)]) auto
  have "is_success (wr_status r)" using body by (auto simp: is_success_def)
  then show ?thesis
    using r read taken assms(5) by (simp add: download_whole_piece_def last_byte(1) check_piece_def del: One_nat_def)
qed


definition demo_web :: web where
  "demo_web url a e =
    (let path = map url_decode_bytes (split_char (CHR ''/'') (drop 2 url)) in
     if path = map as_bytes [''d'', ''a'']
     then Inr \<lparr>wr_status = 200, wr_text = ''200 OK'', wr_declared = Some 3, wr_chunks = [Inr [10], Inr [11, 12]]\<rparr>
     else if path = map as_bytes [''d'', ''b'', ''c'']
     then Inr \<lparr>wr_status = 206, wr_text = ''206 Partial Content'', wr_declared = None, wr_chunks = [Inr (slice a (e + 1) [13, 14])]\<rparr>
     else Inl ''not found'')"


text \<open>
  A piece server that honours ranges fails: the range it is sent counts bytes of the torrent, but the
  resource is one piece, so from the second piece on the range starts behind its end and is refused.
\<close>

definition range_refused :: "nat \<Rightarrow> bytes \<Rightarrow> string + web_response \<Rightarrow> bool" where
  "range_refused start resource answer \<longleftrightarrow>
    (length resource \<le> start \<longrightarrow> (\<exists>r. answer = Inr r \<and> wr_status r = 416))"

theorem piece_server_with_ranges_fails:
  assumes "parse_metainfo digest data = Inr m" and "0 < i" and "i < num_pieces (mi_info m)"
    and "ws_type s = Hoffman" and "length content = in_total_size (mi_info m)"
    and "\<And>url start last. range_refused start (piece_slice m content i) (web url start last)"
  shows "do_download_piece enc sha1 show_hashes web m s i
    = Inl (web_error ''WebSeed does not support range requests'' [])"
proof -
  let ?i = "mi_info m"
  let ?a = "i * in_piece_length ?i" and ?e = "min ((i + 1) * in_piece_length ?i) (in_total_size ?i)"
  have wf: "wf_info ?i" by (rule parse_metainfo_wf [OF assms(1)])
  note range = piece_range_wf(1) [OF wf assms(3)]
  have "length (piece_slice m content i) \<le> ?e - ?a"
    by (simp add: piece_slice_def range slice_def)
  moreover have "?e - ?a \<le> in_piece_length ?i" by (simp add: algebra_simps)
  moreover have "in_piece_length ?i \<le> ?a" using assms(2) by (cases i) simp_all
  ultimately have "length (piece_slice m content i) \<le> ?a" by linarith
  then obtain r where "web (hoffman_piece_url (ws_url s) (info_hash_urlencoded m) i) ?a (u64_sub ?e 1) = Inr r" "wr_status r = 416"
    using assms(6) unfolding range_refused_def by blast
  then show ?thesis
    by (simp add: do_download_piece_def range assms(4) build_piece_url_def download_whole_piece_def is_success_def)
qed

section \<open>The tasks of the manager\<close>

lemma find_work_from_spec:
  assumes "find_work_from now pm j ss w = (r, w')"
  shows "wm_tasks w' = wm_tasks w \<and> wm_config w' = wm_config w \<and>
    (case r of
       None \<Rightarrow> wm_pending w' = wm_pending w
     | Some (j', i) \<Rightarrow> wm_pending w' = insert i (wm_pending w) \<and> select_piece_for_webseed pm w = Some i)"
  using assms
proof (induction ss arbitrary: j w)
  case (Cons s ss)
  obtain ok s' where av: "is_available now s = (ok, s')" by (cases "is_available now s")
  let ?w = "w\<lparr>wm_seeds := (wm_seeds w)[j := s']\<rparr>"
  have same: "select_piece_for_webseed pm ?w = select_piece_for_webseed pm w"
    by (simp add: select_piece_for_webseed_def)
  show ?case
  proof (cases ok)
    case True
    show ?thesis
    proof (cases "select_piece_for_webseed pm ?w")
      case None
      have "find_work_from now pm (j + 1) ss ?w = (r, w')" using Cons.prems av True None by (simp add: Let_def)
      from Cons.IH [OF this] same show ?thesis by (auto split: option.splits)
    next
      case (Some i)
      then show ?thesis using Cons.prems av True same by (auto simp: Let_def)
    qed
  next
    case False
    then have "find_work_from now pm (j + 1) ss w = (r, w')" using Cons.prems av by simp
    from Cons.IH [OF this] show ?thesis .
  qed
qed simp

lemma select_piece_for_webseed_Some:
  "select_piece_for_webseed pm w = Some i \<Longrightarrow>
   i < pm_num_pieces pm \<and> \<not> bit_at (pm_bitfield pm) i \<and> i \<notin> pending_pieces pm \<and> i \<notin> wm_pending w \<and> is_piece_wanted i pm"
  by (auto simp: select_piece_for_webseed_def find_Some_iff)

inductive webseed_reach :: "metainfo \<Rightarrow> ws_config \<Rightarrow> webseed_manager \<Rightarrow> bool" for m c where
  start: "webseed_reach m c (webseed_manager_new m c)"
| turn: "webseed_reach m c w \<Longrightarrow> webseed_reach m c (run_turn now pm w)"
| outcome: "webseed_reach m c w \<Longrightarrow> k < length (wm_tasks w) \<Longrightarrow>
    webseed_reach m c (record_outcome jitter now show_error k result w)"
| release: "webseed_reach m c w \<Longrightarrow> k < length (wm_tasks w) \<Longrightarrow> webseed_reach m c (release_task k w)"
| shutdown: "webseed_reach m c w \<Longrightarrow> webseed_reach m c (webseed_shutdown w)"

definition task_pieces :: "webseed_manager \<Rightarrow> nat list" where
  "task_pieces w = map (\<lambda>(j, i, recorded). i) (wm_tasks w)"

definition tasks_inv :: "ws_config \<Rightarrow> webseed_manager \<Rightarrow> bool" where
  "tasks_inv c w \<longleftrightarrow> distinct (task_pieces w) \<and> set (task_pieces w) \<subseteq> wm_pending w \<and>
    length (wm_tasks w) \<le> max 1 (wsc_max_connections c) \<and> wsc_max_connections (wm_config w) = max 1 (wsc_max_connections c)"

lemma run_turn_inv:
  assumes "tasks_inv c w"
  shows "tasks_inv c (run_turn now pm w)"
proof (cases "wm_shutdown w \<or> pm_is_complete pm \<or> wsc_max_connections (wm_config w) \<le> length (wm_tasks w)")
  case False
  obtain r w' where work: "find_work now pm w = (r, w')" by (cases "find_work now pm w")
  note spec = find_work_from_spec [OF work [unfolded find_work_def]]
  show ?thesis
  proof (cases r)
    case None
    then show ?thesis using assms spec work False by (simp add: run_turn_def tasks_inv_def task_pieces_def)
  next
    case (Some ji)
    obtain j i where ji: "ji = (j, i)" by (cases ji)
    have "i \<notin> wm_pending w" using spec select_piece_for_webseed_Some by (auto simp: Some ji)
    then show ?thesis
      using assms spec work False by (auto simp: run_turn_def Some ji tasks_inv_def task_pieces_def)
  qed
qed (use assms in \<open>auto simp: run_turn_def tasks_inv_def task_pieces_def\<close>)

lemma record_outcome_frame:
  assumes "k < length (wm_tasks w)"
  shows "task_pieces (record_outcome jitter now show_error k result w) = task_pieces w"
    and "wm_pending (record_outcome jitter now show_error k result w) = wm_pending w"
    and "length (wm_tasks (record_outcome jitter now show_error k result w)) = length (wm_tasks w)"
    and "wm_config (record_outcome jitter now show_error k result w) = wm_config w"
proof -
  obtain j i d where k: "wm_tasks w ! k = (j, i, d)" by (cases "wm_tasks w ! k") auto
  have "map (\<lambda>(j, i, recorded). i) ((wm_tasks w)[k := (j, i, True)]) = task_pieces w"
    using assms k by (simp add: task_pieces_def map_update list_update_same_conv)
  then show "task_pieces (record_outcome jitter now show_error k result w) = task_pieces w"
    by (simp add: record_outcome_def k Let_def task_pieces_def split: sum.split)
qed (auto simp: record_outcome_def Let_def split: prod.split sum.split)

lemma release_task_inv:
  assumes "tasks_inv c w" and k: "k < length (wm_tasks w)"
  shows "tasks_inv c (release_task k w)"
proof -
  obtain j i d where t: "wm_tasks w ! k = (j, i, d)" by (cases "wm_tasks w ! k") auto
  let ?f = "\<lambda>(j, i, recorded). i"
  have all: "wm_tasks w = take k (wm_tasks w) @ (j, i, d) # drop (Suc k) (wm_tasks w)"
    using id_take_nth_drop [OF k] t by simp
  obtain xs ys where xs: "map ?f (take k (wm_tasks w)) = xs" and ys: "map ?f (drop (Suc k) (wm_tasks w)) = ys" by blast
  have before: "task_pieces w = xs @ i # ys"
    unfolding task_pieces_def xs [symmetric] ys [symmetric] by (subst all) simp
  have after: "task_pieces (release_task k w) = xs @ ys"
    by (simp add: release_task_def t task_pieces_def xs ys)
  have frame: "wm_pending (release_task k w) = wm_pending w - {i}" "wm_config (release_task k w) = wm_config w"
      "length (wm_tasks (release_task k w)) \<le> length (wm_tasks w)"
    using k by (simp_all add: release_task_def t)
  show ?thesis
    using assms(1) frame(3) unfolding tasks_inv_def before after frame(1, 2) by auto
qed

lemma reach_tasks: "webseed_reach m c w \<Longrightarrow> tasks_inv c w"
proof (induction rule: webseed_reach.induct)
  case start
  show ?case by (simp add: tasks_inv_def task_pieces_def webseed_manager_new_def)
next
  case (outcome w k jitter now show_error result)
  then show ?case using record_outcome_frame [OF outcome.hyps(2)] by (simp add: tasks_inv_def)
next
  case (shutdown w)
  then show ?case by (simp add: tasks_inv_def webseed_shutdown_def task_pieces_def)
qed (simp_all add: run_turn_inv release_task_inv)

text \<open>C35. However turns of the loop, outcomes, releases and shutdown interleave, no piece is ever fetched from
  two web seeds at once, and no more tasks run than connections are allowed, at least one being allowed.\<close>

theorem webseed_tasks_disjoint:
  assumes "webseed_reach m c w"
  shows "distinct (map (\<lambda>(j, i, recorded). i) (wm_tasks w)) \<and> length (wm_tasks w) \<le> max 1 (wsc_max_connections c)"
  using reach_tasks [OF assms] by (simp add: tasks_inv_def task_pieces_def)

text \<open>One seed and two turns of the loop, the second between the outcome of the first download and its end.\<close>

definition one_seed_meta :: metainfo where
  "one_seed_meta = two_file_meta\<lparr>mi_url_list := [''u'']\<rparr>"

definition first_turn :: webseed_manager where
  "first_turn = run_turn 0 (pm_new one_seed_meta ''d'') (webseed_manager_new one_seed_meta default_ws_config)"

definition overlap_run :: webseed_manager where
  "overlap_run = run_turn 2 (pm_new one_seed_meta ''d'') (record_outcome id 1 (\<lambda>_. []) 0 (Inr [1, 2]) first_turn)"

lemmas webseed_eval =
  first_turn_def overlap_run_def one_seed_meta_def two_file_meta_def two_file_info_def pm_new_def run_turn_def
  webseed_manager_new_def default_ws_config_def seeds_from_metainfo_def webseed_new_def find_work_def is_available_def
  select_piece_for_webseed_def set_downloading_def pm_is_complete_def count_ones_def pm_num_pieces_def bit_at_def
  pm_bitfield_def pending_pieces_def is_piece_wanted_def record_outcome_def record_success_def release_task_def
  clear_downloading_def upt_rec u32_def u64_def

lemma webseed_tasks_disjoint_witness:
  "webseed_reach one_seed_meta default_ws_config overlap_run \<and> distinct (map (\<lambda>(j, i, recorded). i) (wm_tasks overlap_run))"
proof -
  have one: "length (wm_tasks first_turn) = 1" by (simp add: webseed_eval)
  have "webseed_reach one_seed_meta default_ws_config first_turn"
    unfolding first_turn_def by (intro webseed_reach.turn webseed_reach.start)
  then have "webseed_reach one_seed_meta default_ws_config overlap_run"
    unfolding overlap_run_def by (intro webseed_reach.turn webseed_reach.outcome) (simp_all add: one)
  then show ?thesis using webseed_tasks_disjoint [of one_seed_meta default_ws_config overlap_run] by simp
qed

text \<open>A seed is idle again before its task has ended: it is given a second piece, and the end of the first
  task then marks it idle while the second download is under way.\<close>

lemma seed_serves_two:
  "map (\<lambda>(j, i, recorded). (j, i)) (wm_tasks overlap_run) = [(0, 0), (0, 1)] \<and>
   ws_state (wm_seeds (release_task 0 overlap_run) ! 0) = WsIdle \<and>
   map (\<lambda>(j, i, recorded). (j, i)) (wm_tasks (release_task 0 overlap_run)) = [(0, 1)]"
  by (simp add: webseed_eval)

text \<open>A seed that was disabled for good is idle again after a download that succeeded meanwhile.\<close>

lemma failed_seed_returns:
  "ws_state (record_success n (record_failure jitter now e 1 initial most s)) = WsIdle"
  by (simp add: record_success_def)

text \<open>The backoff doubles with each failure up to 64 times the initial one, and never exceeds the maximum.\<close>

lemma backoff_bounded:
  "record_failure jitter now e max_failures initial most s = s' \<Longrightarrow> ws_backoff_until s' \<noteq> ws_backoff_until s \<Longrightarrow>
   \<exists>d. ws_backoff_until s' = Some (now + d) \<and> d \<le> most \<and> d \<le> jitter (min most (initial * 2 ^ min (ws_consecutive s' - 1) 6))"
  by (auto simp: record_failure_def Let_def backoff_base_def split: if_splits)

end
