(* ===== verification/Mse.thy ===== *)
theory Mse
  imports PeerWire
begin

text \<open>
  Message stream encryption (\<open>src/torrent/mse.rs\<close>): RC4 with its first 1024 bytes dropped, the
  Diffie-Hellman exchange, the handshake of the side that connects, and the streams that encrypt what is
  written and decrypt what is read. A big number is a natural; \<open>BigUint::modpow\<close>, SHA-1, the random
  bytes and the text of an I/O error (\<open>io\<close>) are arguments. A TCP stream is a script of what arrives and of
  how writes end, as in \<open>PeerWire\<close>.
\<close>

definition dh_prime_bytes :: bytes where
  "dh_prime_bytes =
    [0xFF, 0xFF, 0xFF, 0xFF, 0xFF, 0xFF, 0xFF, 0xFF, 0xC9, 0x0F, 0xDA, 0xA2, 0x21, 0x68, 0xC2, 0x34,
     0xC4, 0xC6, 0x62, 0x8B, 0x80, 0xDC, 0x1C, 0xD1, 0x29, 0x02, 0x4E, 0x08, 0x8A, 0x67, 0xCC, 0x74,
     0x02, 0x0B, 0xBE, 0xA6, 0x3B, 0x13, 0x9B, 0x22, 0x51, 0x4A, 0x08, 0x79, 0x8E, 0x34, 0x04, 0xDD,
     0xEF, 0x95, 0x19, 0xB3, 0xCD, 0x3A, 0x43, 0x1B, 0x30, 0x2B, 0x0A, 0x6D, 0xF2, 0x5F, 0x14, 0x37,
     0x4F, 0xE1, 0x35, 0x6D, 0x6D, 0x51, 0xC2, 0x45, 0xE4, 0x85, 0xB5, 0x76, 0x62, 0x5E, 0x7E, 0xC6,
     0xF4, 0x4C, 0x42, 0xE9, 0xA6, 0x37, 0xED, 0x6B, 0x0B, 0xFF, 0x5C, 0xB6, 0xF4, 0x06, 0xB7, 0xED]"

definition dh_generator :: nat where "dh_generator = 2"
definition vc :: bytes where "vc = replicate 8 0"
definition max_padding :: nat where "max_padding = 512"
definition rc4_discard :: nat where "rc4_discard = 1024"
definition crypto_plaintext :: "32 word" where "crypto_plaintext = 0x01"
definition crypto_rc4 :: "32 word" where "crypto_rc4 = 0x02"

section \<open>Configuration\<close>

datatype mse_policy = MseDisabled | MseAllowed | MsePreferred | MseRequired

record mse_config =
  mse_policy :: mse_policy
  mse_allow_plaintext :: bool
  mse_allow_rc4 :: bool
  mse_min_padding :: nat
  mse_max_padding :: nat

definition default_mse :: mse_config where
  "default_mse =
    \<lparr>mse_policy = MsePreferred, mse_allow_plaintext = True, mse_allow_rc4 = True, mse_min_padding = 0,
     mse_max_padding = max_padding\<rparr>"

definition crypto_provide :: "mse_config \<Rightarrow> 32 word" where
  "crypto_provide c =
    or (if mse_allow_plaintext c then crypto_plaintext else 0) (if mse_allow_rc4 c then crypto_rc4 else 0)"

section \<open>RC4\<close>

record rc4 =
  rc4_state :: bytes
  rc4_i :: byte
  rc4_j :: byte

definition swap_at :: "nat \<Rightarrow> nat \<Rightarrow> 'a list \<Rightarrow> 'a list" where
  "swap_at i j xs = xs[i := xs ! j, j := xs ! i]"

definition rc4_byte :: "rc4 \<Rightarrow> byte \<times> rc4" where
  "rc4_byte c =
    (let i = rc4_i c + 1; j = rc4_j c + rc4_state c ! unat i; s = swap_at (unat i) (unat j) (rc4_state c)
     in (s ! unat (s ! unat i + s ! unat j), \<lparr>rc4_state = s, rc4_i = i, rc4_j = j\<rparr>))"

fun rc4_process :: "rc4 \<Rightarrow> bytes \<Rightarrow> bytes \<times> rc4" where
  "rc4_process c [] = ([], c)"
| "rc4_process c (b # bs) =
    (let (k, c) = rc4_byte c; (bs, c) = rc4_process c bs in (xor b k # bs, c))"

definition rc4_schedule :: "bytes \<Rightarrow> bytes" where
  "rc4_schedule key =
    fst (foldl (\<lambda>(s, j :: byte) i. let j = j + s ! i + key ! (i mod length key) in (swap_at i (unat j) s, j))
      (map of_nat [0..<256], 0) [0..<256])"

text \<open>\<open>Rc4Cipher::new\<close>, for a key that is not empty.\<close>

definition rc4_new :: "bytes \<Rightarrow> rc4" where
  "rc4_new key = snd (rc4_process \<lparr>rc4_state = rc4_schedule key, rc4_i = 0, rc4_j = 0\<rparr> (replicate rc4_discard 0))"

section \<open>Diffie-Hellman\<close>

definition be_nat :: "bytes \<Rightarrow> nat" where
  "be_nat bs = foldl (\<lambda>n b. n * 256 + unat b) 0 bs"

fun to_bytes_be :: "nat \<Rightarrow> bytes" where
  "to_bytes_be n = (if n < 256 then [of_nat n] else to_bytes_be (n div 256) @ [of_nat (n mod 256)])"

declare to_bytes_be.simps [simp del]

definition pad96 :: "bytes \<Rightarrow> bytes" where
  "pad96 bs = replicate (96 - min (length bs) 96) 0 @ take (min (length bs) 96) bs"

definition dh_prime :: nat where
  "dh_prime = be_nat dh_prime_bytes"

type_synonym modpow = "nat \<Rightarrow> nat \<Rightarrow> nat \<Rightarrow> nat"

definition dh_public :: "modpow \<Rightarrow> bytes \<Rightarrow> bytes" where
  "dh_public modpow private = pad96 (to_bytes_be (modpow dh_generator (be_nat private) dh_prime))"

definition compute_shared_secret :: "modpow \<Rightarrow> bytes \<Rightarrow> bytes \<Rightarrow> bytes" where
  "compute_shared_secret modpow private peer_public =
    pad96 (to_bytes_be (modpow (be_nat peer_public) (be_nat private) dh_prime))"

definition is_degenerate_dh_public :: "bytes \<Rightarrow> bool" where
  "is_degenerate_dh_public public \<longleftrightarrow> be_nat public \<le> 1 \<or> dh_prime - 1 \<le> be_nat public"

definition derive_rc4_keys :: "(bytes \<Rightarrow> bytes) \<Rightarrow> bytes \<Rightarrow> bytes \<Rightarrow> bool \<Rightarrow> rc4 \<times> rc4" where
  "derive_rc4_keys sha1 secret info_hash is_initiator =
    (let key_a = sha1 (as_bytes ''keyA'' @ secret @ info_hash); key_b = sha1 (as_bytes ''keyB'' @ secret @ info_hash)
     in if is_initiator then (rc4_new key_a, rc4_new key_b) else (rc4_new key_b, rc4_new key_a))"

section \<open>Streams\<close>

record tcp =
  tcp_input :: "wire_event list"
  tcp_output :: bytes
  tcp_writes :: "write_outcome list"

definition tcp_read :: "nat \<Rightarrow> tcp \<Rightarrow> (read_failure + bytes) \<times> tcp" where
  "tcp_read n s = (case read_exact n (tcp_input s) of (r, evs) \<Rightarrow> (r, s\<lparr>tcp_input := evs\<rparr>))"

definition tcp_write :: "bytes \<Rightarrow> tcp \<Rightarrow> (read_failure + unit) \<times> tcp" where
  "tcp_write bs s =
    (let s' = s\<lparr>tcp_writes := drop 1 (tcp_writes s)\<rparr> in
     case tcp_writes s of
       WriteTimeout # _ \<Rightarrow> (Inl ReadTimeout, s')
     | WriteFails # _ \<Rightarrow> (Inl ReadBroken, s')
     | _ \<Rightarrow> (Inr (), s'\<lparr>tcp_output := tcp_output s @ bs\<rparr>))"

record enc_stream =
  es_inner :: tcp
  es_encrypt :: rc4
  es_decrypt :: rc4
  es_method :: "32 word"

text \<open>\<open>read\<close> takes what the socket gives, \<open>n\<close> bytes; \<open>read_exact\<close> fills its buffer.\<close>

definition es_read :: "nat \<Rightarrow> enc_stream \<Rightarrow> (read_failure + bytes) \<times> enc_stream" where
  "es_read n e =
    (case tcp_read n (es_inner e) of
       (Inl f, s) \<Rightarrow> (Inl f, e\<lparr>es_inner := s\<rparr>)
     | (Inr bs, s) \<Rightarrow>
         (if 0 < n \<and> es_method e = crypto_rc4 then
            (let (bs, d) = rc4_process (es_decrypt e) bs in (Inr bs, e\<lparr>es_inner := s, es_decrypt := d\<rparr>))
          else (Inr bs, e\<lparr>es_inner := s\<rparr>)))"

definition es_read_exact :: "nat \<Rightarrow> enc_stream \<Rightarrow> (read_failure + bytes) \<times> enc_stream" where
  "es_read_exact n e =
    (case tcp_read n (es_inner e) of
       (Inl f, s) \<Rightarrow> (Inl f, e\<lparr>es_inner := s\<rparr>)
     | (Inr bs, s) \<Rightarrow>
         (if es_method e = crypto_rc4 then
            (let (bs, d) = rc4_process (es_decrypt e) bs in (Inr bs, e\<lparr>es_inner := s, es_decrypt := d\<rparr>))
          else (Inr bs, e\<lparr>es_inner := s\<rparr>)))"

definition es_write_all :: "bytes \<Rightarrow> enc_stream \<Rightarrow> (read_failure + unit) \<times> enc_stream" where
  "es_write_all bs e =
    (if es_method e = crypto_rc4 then
       (let (encrypted, k) = rc4_process (es_encrypt e) bs; (r, s) = tcp_write encrypted (es_inner e)
        in (r, e\<lparr>es_inner := s, es_encrypt := k\<rparr>))
     else (let (r, s) = tcp_write bs (es_inner e) in (r, e\<lparr>es_inner := s\<rparr>)))"

section \<open>The handshake\<close>

datatype mse_result = MseEncrypted enc_stream | MsePlaintext tcp bytes | MseFailed engine_error

text \<open>The error of a step that timed out, or that the socket failed.\<close>

fun step_error :: "string \<Rightarrow> string \<Rightarrow> string \<Rightarrow> read_failure \<Rightarrow> engine_error" where
  "step_error io on_timeout on_failure ReadTimeout = err_network Timeout on_timeout"
| "step_error io on_timeout on_failure ReadBroken = err_network ConnectionReset (on_failure @ io)"

lemma tcp_read_consumes: "(Inr bs, s') = tcp_read (Suc n) s \<Longrightarrow> length (tcp_input s') < length (tcp_input s)"
proof -
  have "read_exact k evs = (Inr bs, evs') \<Longrightarrow> length evs' + k = length evs" for k evs evs' and bs :: bytes
    by (induction k evs arbitrary: bs rule: read_exact.induct) (auto split: prod.splits sum.splits)
  from this [of "Suc n" "tcp_input s"] show "(Inr bs, s') = tcp_read (Suc n) s \<Longrightarrow> length (tcp_input s') < length (tcp_input s)"
    by (auto simp: tcp_read_def split: prod.splits)
qed

text \<open>The search for the encrypted VC behind the padding, byte by byte.\<close>

function scan_vc :: "string \<Rightarrow> bytes \<Rightarrow> bytes \<Rightarrow> nat \<Rightarrow> tcp \<Rightarrow> bytes result \<times> tcp" where
  "scan_vc io expected window skipped s =
    (if length window = length expected \<and> window = expected then (Inr window, s)
     else if 512 < skipped then
       (Inl (err_protocol PeerProtocol ''Invalid VC in response (not found within PadB window)''), s)
     else
       (case tcp_read 1 s of
          (Inl f, s) \<Rightarrow> (Inl (step_error io ''Timeout reading response'' ''Failed to read response: '' f), s)
        | (Inr bs, s) \<Rightarrow>
            (if length window = length expected
             then scan_vc io expected (drop 1 window @ [bs ! 0]) (skipped + 1) s
             else scan_vc io expected (window @ [bs ! 0]) skipped s)))"
  by pat_completeness auto

termination by (relation "measure (\<lambda>(_, _, _, _, s). length (tcp_input s))") (auto intro: tcp_read_consumes)

declare scan_vc.simps [simp del]

definition receive_crypto_response :: "string \<Rightarrow> rc4 \<Rightarrow> tcp \<Rightarrow> (32 word \<times> rc4) result \<times> tcp" where
  "receive_crypto_response io decrypt s =
    (case scan_vc io (fst (rc4_process decrypt vc)) [] 0 s of
       (Inl e, s) \<Rightarrow> (Inl e, s)
     | (Inr window, s) \<Rightarrow>
         (let decrypt = snd (rc4_process decrypt window) in
          case tcp_read 6 s of
            (Inl f, s) \<Rightarrow> (Inl (step_error io ''Timeout reading response'' ''Failed to read response: '' f), s)
          | (Inr buf, s) \<Rightarrow>
              (let (buf, decrypt) = rc4_process decrypt buf; crypto_select = u32_at 0 buf;
                   padd_len = unat (of_be16 (buf ! 4) (buf ! 5))
               in if 0 < padd_len then
                    (case tcp_read padd_len s of
                       (Inl f, s) \<Rightarrow> (Inl (step_error io ''Timeout reading PadD'' ''Failed to read PadD: '' f), s)
                     | (Inr padd, s) \<Rightarrow> (Inr (crypto_select, snd (rc4_process decrypt padd)), s))
                  else (Inr (crypto_select, decrypt), s))))"

definition outgoing_provide :: "mse_config \<Rightarrow> 32 word" where
  "outgoing_provide c =
    or (if mse_allow_rc4 c then crypto_rc4 else 0) (if mse_allow_plaintext c then crypto_plaintext else 0)"

definition handshake_hashes :: "(bytes \<Rightarrow> bytes) \<Rightarrow> bytes \<Rightarrow> bytes \<Rightarrow> bytes" where
  "handshake_hashes sha1 secret info_hash =
    (let req1 = sha1 (as_bytes ''req1'' @ secret); req2 = sha1 (as_bytes ''req2'' @ info_hash);
         req3 = sha1 (as_bytes ''req3'' @ secret)
     in req1 @ map (\<lambda>i. xor (req2 ! i) (req3 ! i)) [0..<20])"

definition handshake_payload :: "mse_config \<Rightarrow> bytes \<Rightarrow> bytes" where
  "handshake_payload c padc = vc @ be32 (outgoing_provide c) @ be16 (of_nat (length padc)) @ padc @ be16 0"

definition mse_handshake_outgoing ::
  "(bytes \<Rightarrow> bytes) \<Rightarrow> modpow \<Rightarrow> string \<Rightarrow> bytes \<Rightarrow> bytes \<Rightarrow> bytes \<Rightarrow> bytes \<Rightarrow> mse_config \<Rightarrow> tcp \<Rightarrow> mse_result"
where
  "mse_handshake_outgoing sha1 modpow io private padding padc info_hash config s =
    (case tcp_write (dh_public modpow private @ padding) s of
       (Inl f, s) \<Rightarrow>
         MseFailed (step_error io ''MSE handshake timeout sending DH public key'' ''Failed to send DH public key: '' f)
     | (Inr _, s) \<Rightarrow>
         (case tcp_read 96 s of
            (Inl f, s) \<Rightarrow> MseFailed (step_error io ''Timeout receiving Yb'' ''Failed to receive Yb: '' f)
          | (Inr yb, s) \<Rightarrow>
              (if is_degenerate_dh_public yb then
                 MseFailed (err_protocol PeerProtocol ''Peer sent a degenerate DH public value'')
               else
                 (let secret = compute_shared_secret modpow private yb;
                      encrypt = fst (derive_rc4_keys sha1 secret info_hash True);
                      (encrypted_part, encrypt) = rc4_process encrypt (handshake_payload config padc)
                  in case tcp_write (handshake_hashes sha1 secret info_hash @ encrypted_part) s of
                       (Inl f, s) \<Rightarrow>
                         MseFailed (step_error io ''Timeout sending crypto handshake'' ''Failed to send crypto handshake: '' f)
                     | (Inr _, s) \<Rightarrow>
                         (case receive_crypto_response io (snd (derive_rc4_keys sha1 secret info_hash True)) s of
                            (Inr (crypto_method, final_decrypt), s) \<Rightarrow>
                              MseEncrypted \<lparr>es_inner = s, es_encrypt = encrypt, es_decrypt = final_decrypt, es_method = crypto_method\<rparr>
                          | (Inl e, s) \<Rightarrow> MseFailed e)))))"

section \<open>Peer streams\<close>

text \<open>The uTP stream is that of \<open>UtpDriver\<close>; here it is a type parameter with its operations as arguments.\<close>

datatype 'u peer_stream = PlainStream tcp | EncryptedStream enc_stream | UtpPeerStream 'u

fun is_encrypted :: "'u peer_stream \<Rightarrow> bool" where
  "is_encrypted (EncryptedStream _) = True"
| "is_encrypted _ = False"

fun ps_read ::
  "(nat \<Rightarrow> 'u \<Rightarrow> (read_failure + bytes) \<times> 'u) \<Rightarrow> nat \<Rightarrow> 'u peer_stream \<Rightarrow> (read_failure + bytes) \<times> 'u peer_stream"
where
  "ps_read utp n (PlainStream s) = (let (r, s) = tcp_read n s in (r, PlainStream s))"
| "ps_read utp n (EncryptedStream e) = (let (r, e) = es_read n e in (r, EncryptedStream e))"
| "ps_read utp n (UtpPeerStream u) = (let (r, u) = utp n u in (r, UtpPeerStream u))"

fun ps_read_exact ::
  "(nat \<Rightarrow> 'u \<Rightarrow> (read_failure + bytes) \<times> 'u) \<Rightarrow> nat \<Rightarrow> 'u peer_stream \<Rightarrow> (read_failure + bytes) \<times> 'u peer_stream"
where
  "ps_read_exact utp n (PlainStream s) = (let (r, s) = tcp_read n s in (r, PlainStream s))"
| "ps_read_exact utp n (EncryptedStream e) = (let (r, e) = es_read_exact n e in (r, EncryptedStream e))"
| "ps_read_exact utp n (UtpPeerStream u) = (let (r, u) = utp n u in (r, UtpPeerStream u))"

fun ps_write_all ::
  "(bytes \<Rightarrow> 'u \<Rightarrow> (read_failure + unit) \<times> 'u) \<Rightarrow> bytes \<Rightarrow> 'u peer_stream \<Rightarrow> (read_failure + unit) \<times> 'u peer_stream"
where
  "ps_write_all utp bs (PlainStream s) = (let (r, s) = tcp_write bs s in (r, PlainStream s))"
| "ps_write_all utp bs (EncryptedStream e) = (let (r, e) = es_write_all bs e in (r, EncryptedStream e))"
| "ps_write_all utp bs (UtpPeerStream u) = (let (r, u) = utp bs u in (r, UtpPeerStream u))"

text \<open>\<open>connect_with_mse\<close>; \<open>outcome\<close> is the handshake, which runs unless encryption is disabled.\<close>

definition connect_with_mse :: "mse_result \<Rightarrow> mse_config \<Rightarrow> tcp \<Rightarrow> 'u peer_stream result" where
  "connect_with_mse outcome config s =
    (case mse_policy config of
       MseDisabled \<Rightarrow> Inr (PlainStream s)
     | _ \<Rightarrow>
         (case outcome of
            MseEncrypted e \<Rightarrow> Inr (EncryptedStream e)
          | MsePlaintext s _ \<Rightarrow>
              (if mse_policy config = MseRequired
               then Inl (err_protocol PeerProtocol ''Encryption required but peer doesn't support it'')
               else Inr (PlainStream s))
          | MseFailed e \<Rightarrow> Inl e))"

section \<open>The cipher\<close>

lemma length_rc4_process [simp]: "length (fst (rc4_process c bs)) = length bs"
  by (induction c bs rule: rc4_process.induct) (auto simp: Let_def split: prod.splits)

lemma rc4_process_append:
  "rc4_process c (xs @ ys) =
    (fst (rc4_process c xs) @ fst (rc4_process (snd (rc4_process c xs)) ys),
     snd (rc4_process (snd (rc4_process c xs)) ys))"
  by (induction c xs rule: rc4_process.induct) (auto simp: Let_def split: prod.splits)

text \<open>A cipher in the same state decrypts, and ends in the same state.\<close>

lemma rc4_symmetric: "rc4_process c (fst (rc4_process c xs)) = (xs, snd (rc4_process c xs))"
proof (induction xs arbitrary: c)
  case (Cons b bs)
  obtain k c' where k: "rc4_byte c = (k, c')" by (cases "rc4_byte c")
  have "xor (xor b k) k = b" by (simp add: xor.assoc)
  then show ?case using Cons [of c'] by (auto simp: k Let_def split: prod.splits)
qed simp

section \<open>Big numbers\<close>

lemma be_nat_append: "be_nat (xs @ ys) = be_nat xs * 256 ^ length ys + be_nat ys"
proof -
  have "foldl (\<lambda>n b. n * 256 + unat b) k ys = k * 256 ^ length ys + foldl (\<lambda>n b. n * 256 + unat b) 0 ys"
    for k :: nat and ys :: bytes
  proof (induction ys arbitrary: k)
    case (Cons y ys)
    show ?case
      unfolding foldl_Cons Cons [of "k * 256 + unat y"] Cons [of "0 * 256 + unat y"]
      by (simp only: list.size power_add power_one_right distrib_right mult_0 add_0 add.assoc mult.assoc power_Suc0_right)
  qed simp
  then show ?thesis unfolding be_nat_def foldl_append .
qed

lemma be_nat_zeros [simp]: "be_nat (replicate k 0 @ bs) = be_nat bs"
proof -
  have "be_nat (replicate k 0) = 0" by (induction k) (simp_all add: be_nat_def)
  then show ?thesis by (simp add: be_nat_append)
qed

lemma be_nat_less: "be_nat bs < 256 ^ length bs"
proof (induction bs rule: rev_induct)
  case (snoc b bs)
  have b: "unat b < 256" using unsigned_less [of b, where ?'a = nat] by simp
  have "be_nat (bs @ [b]) = be_nat bs * 256 + unat b" by (simp add: be_nat_append be_nat_def)
  moreover have "(be_nat bs + 1) * 256 \<le> 256 ^ length bs * 256" using snoc by (intro mult_le_mono1) simp
  ultimately show ?case using b by simp
qed (simp add: be_nat_def)

lemma be_nat_to_bytes: "be_nat (to_bytes_be n) = n"
proof (induction n rule: to_bytes_be.induct)
  case (1 n)
  show ?case
  proof (cases "n < 256")
    case True
    then show ?thesis by (subst to_bytes_be.simps) (simp add: be_nat_def unat_of_nat)
  next
    case False
    have be_nat_byte: "be_nat [of_nat (n mod 256)] = n mod 256" by (simp add: be_nat_def unat_of_nat)
    then show ?thesis
      using 1 False by (subst to_bytes_be.simps) (simp add: be_nat_append be_nat_byte)
  qed
qed

lemma length_to_bytes: "n < 256 ^ k \<Longrightarrow> 0 < k \<Longrightarrow> length (to_bytes_be n) \<le> k"
proof (induction n arbitrary: k rule: to_bytes_be.induct)
  case (1 n)
  show ?case
  proof (cases "n < 256")
    case True
    then show ?thesis using 1 by (subst to_bytes_be.simps) simp
  next
    case False
    then obtain k' where k: "k = Suc k'" "0 < k'" using 1(2, 3) by (cases k; cases "k - 1") auto
    have "n div 256 < 256 ^ k'" using 1(2) k by (simp add: less_mult_imp_div_less mult.commute)
    from 1(1) [OF False this k(2)] show ?thesis using False k by (subst to_bytes_be.simps) simp
  qed
qed

lemma be_nat_pad96: "n < 256 ^ 96 \<Longrightarrow> be_nat (pad96 (to_bytes_be n)) = n"
proof -
  assume n: "n < 256 ^ 96"
  have "length (to_bytes_be n) \<le> 96" by (rule length_to_bytes [OF n]) simp
  then show ?thesis by (simp add: pad96_def be_nat_to_bytes)
qed

lemma length_pad96 [simp]: "length (pad96 bs) = 96"
  by (simp add: pad96_def)

lemma dh_prime_bounds: "0 < dh_prime" "dh_prime \<le> 256 ^ 96"
proof -
  have split: "dh_prime_bytes = [0xFF] @ tl dh_prime_bytes" "length dh_prime_bytes = 96"
    by (simp_all add: dh_prime_bytes_def)
  have "be_nat dh_prime_bytes = be_nat [0xFF] * 256 ^ length (tl dh_prime_bytes) + be_nat (tl dh_prime_bytes)"
    by (subst split(1)) (simp only: be_nat_append)
  moreover have "be_nat [0xFF] = 255" by (simp add: be_nat_def)
  ultimately show "0 < dh_prime" unfolding dh_prime_def by simp
  show "dh_prime \<le> 256 ^ 96"
    using be_nat_less [of dh_prime_bytes] unfolding dh_prime_def split(2) by simp
qed

text \<open>What the code relies on of \<open>BigUint::modpow\<close>.\<close>

definition modpow_law :: "modpow \<Rightarrow> bool" where
  "modpow_law modpow \<longleftrightarrow> (\<forall>b e m. 0 < m \<longrightarrow> modpow b e m = b ^ e mod m)"

lemma dh_public_value: "modpow_law modpow \<Longrightarrow> be_nat (dh_public modpow a) = 2 ^ be_nat a mod dh_prime"
proof -
  assume law: "modpow_law modpow"
  have "2 ^ be_nat a mod dh_prime < 256 ^ 96"
    using dh_prime_bounds mod_less_divisor [of dh_prime "2 ^ be_nat a"] by linarith
  then show ?thesis
    using law dh_prime_bounds by (simp add: dh_public_def dh_generator_def modpow_law_def be_nat_pad96)
qed

lemma secrets_agree:
  "modpow_law modpow \<Longrightarrow>
   compute_shared_secret modpow a (dh_public modpow b) = compute_shared_secret modpow b (dh_public modpow a)"
proof -
  assume law: "modpow_law modpow"
  have "(2 ^ be_nat b mod dh_prime) ^ be_nat a mod dh_prime = (2 ^ be_nat a mod dh_prime) ^ be_nat b mod dh_prime"
    by (simp add: power_mod flip: power_mult) (simp add: mult.commute)
  then show ?thesis
    using law dh_prime_bounds by (simp add: compute_shared_secret_def dh_public_value [OF law]) (simp add: modpow_law_def)
qed

lemma length_dh_public [simp]: "length (dh_public modpow a) = 96"
  by (simp add: dh_public_def)

section \<open>The search for VC\<close>

lemma tcp_read_arrives:
  "tcp_input s = map Arrive (bs @ bs') @ rest \<Longrightarrow> length bs = n \<Longrightarrow>
   tcp_read n s = (Inr bs, s\<lparr>tcp_input := map Arrive bs' @ rest\<rparr>)"
  using read_exact_arrives [of bs "map Arrive bs' @ rest"] by (auto simp: tcp_read_def)

lemma window_step:
  fixes xs :: "'a list"
  assumes "m < length xs"
  defines "w \<equiv> drop (m - 8) (take m xs)"
  shows "(if length w = 8 then drop 1 w @ [xs ! m] else w @ [xs ! m]) = drop (Suc m - 8) (take (Suc m) xs)"
    and "(if length w = 8 then m - 8 + 1 else m - 8) = Suc m - 8"
proof -
  have w: "length w = min m 8" using assms by simp
  show "(if length w = 8 then drop 1 w @ [xs ! m] else w @ [xs ! m]) = drop (Suc m - 8) (take (Suc m) xs)"
  proof (cases "m < 8")
    case False
    then obtain k where "m = 8 + k" using le_Suc_ex not_less by blast
    then show ?thesis using assms(1) take_Suc_conv_app_nth [of "8 + k" xs] unfolding w by (simp add: w_def)
  qed (use assms(1) in \<open>simp add: w w_def take_Suc_conv_app_nth\<close>)
  show "(if length w = 8 then m - 8 + 1 else m - 8) = Suc m - 8"
    unfolding w by auto
qed

lemma scan_vc_finds:
  assumes pat: "length pat = 8" and pad: "length pad \<le> 512"
    and early: "\<forall>k < length pad. take 8 (drop k (pad @ pat)) \<noteq> pat"
    and m: "m \<le> length (pad @ pat)"
    and input: "tcp_input s = map Arrive (drop m (pad @ pat)) @ rest"
  shows "scan_vc io pat (drop (m - 8) (take m (pad @ pat))) (m - 8) s = (Inr pat, s\<lparr>tcp_input := rest\<rparr>)"
  using m input
proof (induction "length (pad @ pat) - m" arbitrary: m s)
  case 0
  then have "m = length pad + 8" using pat by simp
  then show ?case using 0 pat by (subst scan_vc.simps) simp
next
  case (Suc d)
  let ?all = "pad @ pat" and ?w = "drop (m - 8) (take m (pad @ pat))"
  have less: "m < length ?all" using Suc.hyps(2) by simp
  have no: "\<not> (length ?w = length pat \<and> ?w = pat)"
  proof (cases "m < 8")
    case True
    then have "length ?w = m" using less by simp
    then show ?thesis using True pat by simp
  next
    case False
    then have "?w = take 8 (drop (m - 8) ?all)" by (simp add: drop_take del: take_append drop_append)
    moreover have "m - 8 < length pad" using False less pat by simp
    ultimately show ?thesis using early by simp
  qed
  have bound: "\<not> 512 < m - 8" using less pad pat by simp
  have cons: "drop m ?all = ?all ! m # drop (Suc m) ?all" using less by (rule Cons_nth_drop_Suc [symmetric])
  let ?s = "s\<lparr>tcp_input := map Arrive (drop (Suc m) ?all) @ rest\<rparr>"
  have read: "tcp_read 1 s = (Inr [?all ! m], ?s)"
    by (rule tcp_read_arrives [of s "[?all ! m]" "drop (Suc m) ?all" rest]) (simp_all only: Suc.prems(2) cons append_Cons append_Nil list.size One_nat_def add_0 plus_1_eq_Suc)
  note next_window = window_step [OF less]
  have "scan_vc io pat ?w (m - 8) s =
      scan_vc io pat (if length ?w = length pat then drop 1 ?w @ [?all ! m] else ?w @ [?all ! m])
        (if length ?w = length pat then m - 8 + 1 else m - 8) ?s"
    unfolding scan_vc.simps [of io pat ?w "m - 8" s] if_not_P [OF no] if_not_P [OF bound] read
      prod.case sum.case nth_Cons_0
    by (cases "length ?w = length pat") (simp_all only: if_True if_False refl)
  also have "\<dots> = (Inr pat, ?s\<lparr>tcp_input := rest\<rparr>)"
    unfolding pat next_window using less Suc.hyps(2) by (intro Suc.hyps(1)) auto
  finally show ?case by simp
qed

section \<open>The handshake with a peer that follows the protocol\<close>

lemma be16_at_4: "of_be16 ((be32 w @ be16 v @ bs) ! 4) ((be32 w @ be16 v @ bs) ! 5) = v"
  by (simp add: be32_def be16_def)

text \<open>What the answering side sends after its public key and padding.\<close>

definition crypto_answer :: "32 word \<Rightarrow> bytes \<Rightarrow> bytes" where
  "crypto_answer sel padd = vc @ be32 sel @ be16 (of_nat (length padd)) @ padd"

definition hides_vc :: "rc4 \<Rightarrow> bytes \<Rightarrow> bool" where
  "hides_vc e padb \<longleftrightarrow>
    (\<forall>k < length padb. take 8 (drop k (padb @ fst (rc4_process e vc))) \<noteq> fst (rc4_process e vc))"

lemma receive_crypto_answer:
  assumes pad: "length padb \<le> 512" "hides_vc e padb" "length padd < 2 ^ 16"
    and input: "tcp_input s = map Arrive (padb @ fst (rc4_process e (crypto_answer sel padd))) @ later"
  shows "receive_crypto_response io e s =
    (Inr (sel, snd (rc4_process e (crypto_answer sel padd))), s\<lparr>tcp_input := later\<rparr>)"
proof -
  let ?vc = "fst (rc4_process e vc)" and ?e1 = "snd (rc4_process e vc)"
  let ?mid = "be32 sel @ be16 (of_nat (length padd))"
  let ?e2 = "snd (rc4_process ?e1 ?mid)"
  have parts: "rc4_process e (crypto_answer sel padd) =
      (?vc @ fst (rc4_process ?e1 ?mid) @ fst (rc4_process ?e2 padd), snd (rc4_process ?e2 padd))"
    unfolding crypto_answer_def using rc4_process_append [of e vc "?mid @ padd"] rc4_process_append [of ?e1 ?mid padd]
    by simp
  have len: "unat (of_nat (length padd) :: 16 word) = length padd" using pad(3) by (simp add: unat_of_nat)
  have vc8: "length vc = 8" by (simp add: vc_def)
  let ?rest1 = "map Arrive (fst (rc4_process ?e1 ?mid) @ fst (rc4_process ?e2 padd)) @ later"
  have scan: "scan_vc io ?vc [] 0 s = (Inr ?vc, s\<lparr>tcp_input := ?rest1\<rparr>)"
    using scan_vc_finds [of ?vc padb 0 s ?rest1 io] pad vc8 input parts by (simp add: hides_vc_def)
  have read6: "tcp_read 6 (s\<lparr>tcp_input := ?rest1\<rparr>) =
      (Inr (fst (rc4_process ?e1 ?mid)), s\<lparr>tcp_input := map Arrive (fst (rc4_process ?e2 padd)) @ later\<rparr>)"
    using tcp_read_arrives [of "s\<lparr>tcp_input := ?rest1\<rparr>" "fst (rc4_process ?e1 ?mid)" "fst (rc4_process ?e2 padd)" later 6]
    by simp
  have read_pad: "tcp_read (length padd) (s\<lparr>tcp_input := map Arrive (fst (rc4_process ?e2 padd)) @ later\<rparr>) =
      (Inr (fst (rc4_process ?e2 padd)), s\<lparr>tcp_input := later\<rparr>)"
    using tcp_read_arrives [of "s\<lparr>tcp_input := map Arrive (fst (rc4_process ?e2 padd)) @ later\<rparr>" "fst (rc4_process ?e2 padd)" "[]" later]
    by simp
  have sel: "u32_at 0 ?mid = sel" by simp
  have padd_len: "unat (of_be16 (?mid ! 4) (?mid ! 5)) = length padd"
    using be16_at_4 [of sel "of_nat (length padd)" "[]"] len by simp
  show ?thesis
    unfolding receive_crypto_response_def scan prod.case sum.case rc4_symmetric snd_conv Let_def read6 sel padd_len read_pad parts
    by (cases padd) (simp_all add: sel padd_len read_pad)
qed

lemma tcp_write_ok:
  "set (tcp_writes s) \<subseteq> {WriteOk} \<Longrightarrow>
   tcp_write bs s = (Inr (), s\<lparr>tcp_writes := drop 1 (tcp_writes s), tcp_output := tcp_output s @ bs\<rparr>)"
  by (cases "tcp_writes s") (auto simp: tcp_write_def)

lemma handshake_completes:
  assumes "modpow_law modpow" and "\<not> is_degenerate_dh_public (dh_public modpow pb)"
    and keys: "derive_rc4_keys sha1 (compute_shared_secret modpow pb (dh_public modpow pa)) info_hash False = (e, d)"
    and "length padb \<le> 512" "hides_vc e padb" "length padd < 2 ^ 16"
    and "set (tcp_writes s) \<subseteq> {WriteOk}"
    and input: "tcp_input s = map Arrive (dh_public modpow pb @ padb @ fst (rc4_process e (crypto_answer sel padd))) @ later"
    and hello_is: "hello = fst (rc4_process d (handshake_payload config padc))"
  shows "mse_handshake_outgoing sha1 modpow io pa padding padc info_hash config s =
    MseEncrypted \<lparr>es_inner = s\<lparr>tcp_input := later, tcp_writes := drop 2 (tcp_writes s),
        tcp_output := tcp_output s @ dh_public modpow pa @ padding @
          handshake_hashes sha1 (compute_shared_secret modpow pa (dh_public modpow pb)) info_hash @ hello\<rparr>,
      es_encrypt = snd (rc4_process d hello), es_decrypt = snd (rc4_process e (crypto_answer sel padd)), es_method = sel\<rparr>"
proof -
  let ?secret = "compute_shared_secret modpow pa (dh_public modpow pb)"
  let ?reply = "fst (rc4_process e (crypto_answer sel padd))"
  have ours: "derive_rc4_keys sha1 ?secret info_hash True = (d, e)"
    using keys secrets_agree [OF assms(1), of pa pb] by (simp add: derive_rc4_keys_def Let_def)
  let ?s1 = "s\<lparr>tcp_writes := drop 1 (tcp_writes s), tcp_output := tcp_output s @ dh_public modpow pa @ padding\<rparr>"
  have w1: "tcp_write (dh_public modpow pa @ padding) s = (Inr (), ?s1)" using tcp_write_ok [OF assms(7)] by simp
  let ?s2 = "?s1\<lparr>tcp_input := map Arrive (padb @ ?reply) @ later\<rparr>"
  have r: "tcp_read 96 ?s1 = (Inr (dh_public modpow pb), ?s2)"
    using tcp_read_arrives [of ?s1 "dh_public modpow pb" "padb @ ?reply" later 96] input by simp
  let ?out = "handshake_hashes sha1 ?secret info_hash @ hello"
  let ?s3 = "?s2\<lparr>tcp_writes := drop 1 (tcp_writes ?s2), tcp_output := tcp_output ?s2 @ ?out\<rparr>"
  have "set (tcp_writes ?s2) \<subseteq> {WriteOk}" using assms(7) set_drop_subset [of 1 "tcp_writes s"] by auto
  then have w2: "tcp_write ?out ?s2 = (Inr (), ?s3)" by (rule tcp_write_ok)
  have hello: "rc4_process d (handshake_payload config padc) = (hello, snd (rc4_process d hello))"
    using rc4_symmetric [of d "handshake_payload config padc"] by (simp add: hello_is)
  have answer: "receive_crypto_response io e ?s3 =
      (Inr (sel, snd (rc4_process e (crypto_answer sel padd))), ?s3\<lparr>tcp_input := later\<rparr>)"
    by (rule receive_crypto_answer [OF assms(4-6)]) simp
  show ?thesis
    unfolding mse_handshake_outgoing_def w1 r prod.case sum.case if_not_P [OF assms(2)] Let_def ours fst_conv snd_conv hello w2 answer
    by (simp add: numeral_2_eq_2)
qed

section \<open>The conversation that follows\<close>

fun es_writes :: "bytes list \<Rightarrow> enc_stream \<Rightarrow> enc_stream" where
  "es_writes [] e = e"
| "es_writes (bs # rest) e = es_writes rest (snd (es_write_all bs e))"

fun es_reads :: "nat list \<Rightarrow> enc_stream \<Rightarrow> (read_failure + bytes list) \<times> enc_stream" where
  "es_reads [] e = (Inr [], e)"
| "es_reads (n # ns) e =
    (case es_read_exact n e of
       (Inl f, e) \<Rightarrow> (Inl f, e)
     | (Inr bs, e) \<Rightarrow>
         (case es_reads ns e of (Inl f, e) \<Rightarrow> (Inl f, e) | (Inr bss, e) \<Rightarrow> (Inr (bs # bss), e)))"

text \<open>What a side with the cipher \<open>c\<close> makes of data, in either direction.\<close>

definition crypt :: "32 word \<Rightarrow> rc4 \<Rightarrow> bytes \<Rightarrow> bytes" where
  "crypt sel c bs = (if sel = crypto_rc4 then fst (rc4_process c bs) else bs)"

lemma es_writes_wire:
  "set (tcp_writes (es_inner e)) \<subseteq> {WriteOk} \<Longrightarrow>
   tcp_output (es_inner (es_writes bss e)) = tcp_output (es_inner e) @ crypt (es_method e) (es_encrypt e) (concat bss)"
proof (induction bss arbitrary: e)
  case (Cons bs bss)
  have drop: "set (drop 1 (tcp_writes (es_inner e))) \<subseteq> {WriteOk}"
    using Cons.prems set_drop_subset [of 1 "tcp_writes (es_inner e)"] by auto
  show ?case
  proof (cases "es_method e = crypto_rc4")
    case True
    let ?e = "snd (es_write_all bs e)"
    have e: "?e = e\<lparr>es_inner := (es_inner e)\<lparr>tcp_writes := drop 1 (tcp_writes (es_inner e)),
        tcp_output := tcp_output (es_inner e) @ fst (rc4_process (es_encrypt e) bs)\<rparr>,
        es_encrypt := snd (rc4_process (es_encrypt e) bs)\<rparr>"
      using True tcp_write_ok [OF Cons.prems] by (simp add: es_write_all_def Let_def split: prod.splits)
    have "set (tcp_writes (es_inner ?e)) \<subseteq> {WriteOk}" using drop by (simp add: e)
    from Cons.IH [OF this] show ?thesis by (simp add: e crypt_def True rc4_process_append)
  next
    case False
    let ?e = "snd (es_write_all bs e)"
    have e: "?e = e\<lparr>es_inner := (es_inner e)\<lparr>tcp_writes := drop 1 (tcp_writes (es_inner e)),
        tcp_output := tcp_output (es_inner e) @ bs\<rparr>\<rparr>"
      using False tcp_write_ok [OF Cons.prems] by (simp add: es_write_all_def)
    have "set (tcp_writes (es_inner ?e)) \<subseteq> {WriteOk}" using drop by (simp add: e)
    from Cons.IH [OF this] show ?thesis by (simp add: e crypt_def False)
  qed
qed (simp add: crypt_def)

lemma es_reads_wire:
  "tcp_input (es_inner e) = map Arrive (crypt (es_method e) (es_decrypt e) (concat bss)) @ rest \<Longrightarrow>
   fst (es_reads (map length bss) e) = Inr bss"
proof (induction bss arbitrary: e)
  case (Cons bs bss)
  show ?case
  proof (cases "es_method e = crypto_rc4")
    case True
    let ?d = "snd (rc4_process (es_decrypt e) bs)" and ?wire = "fst (rc4_process (es_decrypt e) bs)"
    let ?e = "e\<lparr>es_inner := (es_inner e)\<lparr>tcp_input := map Arrive (fst (rc4_process ?d (concat bss))) @ rest\<rparr>, es_decrypt := ?d\<rparr>"
    have "tcp_read (length bs) (es_inner e) = (Inr ?wire, es_inner ?e)"
      using tcp_read_arrives [of "es_inner e" ?wire "fst (rc4_process ?d (concat bss))" rest "length bs"] Cons.prems True
      by (simp add: crypt_def rc4_process_append)
    then have "es_read_exact (length bs) e = (Inr bs, ?e)"
      using True by (simp add: es_read_exact_def rc4_symmetric)
    moreover have "fst (es_reads (map length bss) ?e) = Inr bss"
      by (rule Cons.IH) (simp add: crypt_def True)
    ultimately show ?thesis by (auto split: prod.splits sum.splits)
  next
    case False
    let ?e = "e\<lparr>es_inner := (es_inner e)\<lparr>tcp_input := map Arrive (concat bss) @ rest\<rparr>\<rparr>"
    have "tcp_read (length bs) (es_inner e) = (Inr bs, es_inner ?e)"
      using tcp_read_arrives [of "es_inner e" bs "concat bss" rest "length bs"] Cons.prems False by (simp add: crypt_def)
    then have "es_read_exact (length bs) e = (Inr bs, ?e)" using False by (simp add: es_read_exact_def)
    moreover have "fst (es_reads (map length bss) ?e) = Inr bss"
      by (rule Cons.IH) (simp add: crypt_def False)
    ultimately show ?thesis by (auto split: prod.splits sum.splits)
  qed
qed simp

lemma crypt_involution: "crypt sel c (crypt sel c bs) = bs"
  by (simp add: crypt_def rc4_symmetric)

text \<open>C36. Whatever private keys and paddings the two sides choose, a handshake with a peer that follows the
  protocol leads to one conversation: both sides hold the same secret, the peer decrypts the opening to
  exactly what was offered, and from then on it reads precisely what is written, however it is cut into
  writes, and what it writes is read precisely, under the method it selected.\<close>

theorem mse_conversation:
  assumes "modpow_law modpow" and "\<not> is_degenerate_dh_public (dh_public modpow pb)"
    and "derive_rc4_keys sha1 (compute_shared_secret modpow pb (dh_public modpow pa)) info_hash False = (e, d)"
    and "length padb \<le> 512" and "hides_vc e padb" and "length padd < 2 ^ 16"
    and "set (tcp_writes s) \<subseteq> {WriteOk}"
    and "rc4_process e (crypto_answer sel padd) = (answer, e')"
    and "tcp_input s = map Arrive (dh_public modpow pb @ padb @ answer @ crypt sel e' (concat theirs)) @ later"
  shows "\<exists>enc hello d'.
    mse_handshake_outgoing sha1 modpow io pa padding padc info_hash config s = MseEncrypted enc \<and>
    tcp_output (es_inner enc) = tcp_output s @ dh_public modpow pa @ padding @
      handshake_hashes sha1 (compute_shared_secret modpow pb (dh_public modpow pa)) info_hash @ hello \<and>
    rc4_process d hello = (handshake_payload config padc, d') \<and>
    (\<exists>wire. tcp_output (es_inner (es_writes ours enc)) = tcp_output (es_inner enc) @ wire \<and>
      crypt sel d' wire = concat ours) \<and>
    fst (es_reads (map length theirs) enc) = Inr theirs"
proof -
  let ?hello = "fst (rc4_process d (handshake_payload config padc))"
  have answer: "answer = fst (rc4_process e (crypto_answer sel padd))" "e' = snd (rc4_process e (crypto_answer sel padd))"
    using assms(8) by simp_all
  have input: "tcp_input s = map Arrive (dh_public modpow pb @ padb @ fst (rc4_process e (crypto_answer sel padd))) @
      map Arrive (crypt sel e' (concat theirs)) @ later"
    using assms(9) by (simp add: answer)
  note done_is = handshake_completes [OF assms(1-7) input refl, where io = io and padding = padding and config = config and padc = padc]
  obtain enc where enc: "mse_handshake_outgoing sha1 modpow io pa padding padc info_hash config s = MseEncrypted enc"
    and inner: "tcp_output (es_inner enc) = tcp_output s @ dh_public modpow pa @ padding @
        handshake_hashes sha1 (compute_shared_secret modpow pb (dh_public modpow pa)) info_hash @ ?hello"
      "tcp_input (es_inner enc) = map Arrive (crypt sel e' (concat theirs)) @ later"
      "tcp_writes (es_inner enc) = drop 2 (tcp_writes s)"
    and ciphers: "es_encrypt enc = snd (rc4_process d ?hello)" "es_decrypt enc = e'" "es_method enc = sel"
    by (rule that [OF done_is]) (simp_all add: answer secrets_agree [OF assms(1), of pa pb])
  have ok: "set (tcp_writes (es_inner enc)) \<subseteq> {WriteOk}"
    using assms(7) set_drop_subset [of 2 "tcp_writes s"] by (auto simp: inner)
  have reads: "fst (es_reads (map length theirs) enc) = Inr theirs"
    by (rule es_reads_wire [where rest = later]) (simp add: inner ciphers)
  have "rc4_process d ?hello = (handshake_payload config padc, snd (rc4_process d ?hello))"
    using rc4_symmetric [of d "handshake_payload config padc"] by simp
  then show ?thesis
    using enc inner(1) reads es_writes_wire [OF ok, of ours] crypt_involution [of sel "snd (rc4_process d ?hello)" "concat ours"]
    unfolding ciphers by blast
qed

lemma dh_prime_big: "256 ^ 95 \<le> dh_prime"
proof -
  have split: "dh_prime_bytes = [0xFF] @ tl dh_prime_bytes" "length (tl dh_prime_bytes) = 95"
    by (simp_all add: dh_prime_bytes_def)
  have "be_nat dh_prime_bytes = be_nat [0xFF] * 256 ^ length (tl dh_prime_bytes) + be_nat (tl dh_prime_bytes)"
    by (subst split(1)) (simp only: be_nat_append)
  then show ?thesis unfolding dh_prime_def split(2) by (simp add: be_nat_def)
qed

lemma small_key_fine:
  assumes "modpow_law modpow"
  shows "\<not> is_degenerate_dh_public (dh_public modpow [2])"
proof -
  have "(256 :: nat) \<le> 256 ^ 95" by (rule self_le_power) simp_all
  then have big: "256 \<le> dh_prime" using dh_prime_big by linarith
  have "be_nat [2] = 2" by (simp add: be_nat_def)
  then have "be_nat (dh_public modpow [2]) = 4"
    using big by (simp add: dh_public_value [OF assms])
  then show ?thesis using big by (simp add: is_degenerate_dh_public_def)
qed

definition power_mod :: modpow where
  "power_mod b e m = b ^ e mod m"

lemma power_mod_law: "modpow_law power_mod"
  by (simp add: modpow_law_def power_mod_def)

definition demo_keys :: "rc4 \<times> rc4" where
  "demo_keys = derive_rc4_keys (\<lambda>_. replicate 20 7) (compute_shared_secret power_mod [2] (dh_public power_mod [3])) [] False"

definition demo_tcp :: "32 word \<Rightarrow> bytes \<Rightarrow> tcp" where
  "demo_tcp sel sent =
    (let (answer, e') = rc4_process (fst demo_keys) (crypto_answer sel [9, 9]) in
     \<lparr>tcp_input = map Arrive (dh_public power_mod [2] @ answer @ crypt sel e' sent), tcp_output = [],
      tcp_writes = []\<rparr>)"

lemma mse_conversation_witness:
  "\<exists>enc. mse_handshake_outgoing (\<lambda>_. replicate 20 7) power_mod [] [3] [1, 2] [5] [] default_mse
      (demo_tcp crypto_rc4 [10, 11, 12]) = MseEncrypted enc \<and>
    fst (es_reads [1, 2] enc) = Inr [[10], [11, 12]]"
proof -
  obtain e d where keys: "demo_keys = (e, d)" by (cases demo_keys)
  obtain answer e' where answer: "rc4_process e (crypto_answer crypto_rc4 [9, 9]) = (answer, e')"
    by (cases "rc4_process e (crypto_answer crypto_rc4 [9, 9])")
  have "\<exists>enc hello d'.
    mse_handshake_outgoing (\<lambda>_. replicate 20 7) power_mod [] [3] [1, 2] [5] [] default_mse
      (demo_tcp crypto_rc4 [10, 11, 12]) = MseEncrypted enc \<and>
    tcp_output (es_inner enc) = tcp_output (demo_tcp crypto_rc4 [10, 11, 12]) @ dh_public power_mod [3] @ [1, 2] @
      handshake_hashes (\<lambda>_. replicate 20 7) (compute_shared_secret power_mod [2] (dh_public power_mod [3])) [] @ hello \<and>
    rc4_process d hello = (handshake_payload default_mse [5], d') \<and>
    (\<exists>wire. tcp_output (es_inner (es_writes [] enc)) = tcp_output (es_inner enc) @ wire \<and> crypt crypto_rc4 d' wire = concat []) \<and>
    fst (es_reads (map length [[10], [11, 12 :: byte]]) enc) = Inr [[10], [11, 12]]"
    by (rule mse_conversation [OF power_mod_law small_key_fine [OF power_mod_law] _ _ _ _ _ answer, where padb = "[]" and later = "[]"])
      (simp_all add: hides_vc_def demo_tcp_def keys answer flip: demo_keys_def)
  then show ?thesis by (auto simp: numeral_2_eq_2)
qed

text \<open>C37. The method a peer selects is not compared with what was offered or with the policy. Even with a
  configuration that requires encryption and offers RC4 only, a peer that selects plaintext is accepted:
  the stream counts as encrypted, and everything written to it goes out in the clear.\<close>

theorem required_encryption_downgraded:
  assumes "modpow_law modpow" and "\<not> is_degenerate_dh_public (dh_public modpow pb)"
    and "derive_rc4_keys sha1 (compute_shared_secret modpow pb (dh_public modpow pa)) info_hash False = (e, d)"
    and "length padb \<le> 512" and "hides_vc e padb" and "length padd < 2 ^ 16"
    and "set (tcp_writes s) \<subseteq> {WriteOk}"
    and "tcp_input s = map Arrive (dh_public modpow pb @ padb @ fst (rc4_process e (crypto_answer crypto_plaintext padd))) @ later"
    and "mse_policy config = MseRequired" and "\<not> mse_allow_plaintext config"
  shows "\<exists>enc. connect_with_mse (mse_handshake_outgoing sha1 modpow io pa padding padc info_hash config s) config s =
      (Inr (EncryptedStream enc) :: unit peer_stream result) \<and>
    tcp_output (es_inner (es_writes ours enc)) = tcp_output (es_inner enc) @ concat ours"
proof -
  note done_is = handshake_completes [OF assms(1-8) refl, where io = io and padding = padding and config = config and padc = padc]
  obtain enc where enc: "mse_handshake_outgoing sha1 modpow io pa padding padc info_hash config s = MseEncrypted enc"
    and inner: "tcp_writes (es_inner enc) = drop 2 (tcp_writes s)" "es_method enc = crypto_plaintext"
    by (rule that [OF done_is]) simp_all
  have ok: "set (tcp_writes (es_inner enc)) \<subseteq> {WriteOk}"
    using assms(7) set_drop_subset [of 2 "tcp_writes s"] by (auto simp: inner)
  have "crypto_plaintext \<noteq> crypto_rc4" by (simp add: crypto_plaintext_def crypto_rc4_def)
  then have "tcp_output (es_inner (es_writes ours enc)) = tcp_output (es_inner enc) @ concat ours"
    using es_writes_wire [OF ok, of ours] inner(2) by (simp add: crypt_def)
  then show ?thesis using enc assms(9) by (simp add: connect_with_mse_def)
qed

lemma required_encryption_downgraded_witness:
  "\<exists>enc. connect_with_mse (mse_handshake_outgoing (\<lambda>_. replicate 20 7) power_mod [] [3] [1, 2] [5] []
      (default_mse\<lparr>mse_policy := MseRequired, mse_allow_plaintext := False\<rparr>) (demo_tcp crypto_plaintext []))
      (default_mse\<lparr>mse_policy := MseRequired, mse_allow_plaintext := False\<rparr>) (demo_tcp crypto_plaintext []) =
      (Inr (EncryptedStream enc) :: unit peer_stream result) \<and>
    tcp_output (es_inner (es_writes [[1], [2, 3]] enc)) = tcp_output (es_inner enc) @ [1, 2, 3]"
proof -
  obtain e d where keys: "demo_keys = (e, d)" by (cases demo_keys)
  have "\<exists>enc. connect_with_mse (mse_handshake_outgoing (\<lambda>_. replicate 20 7) power_mod [] [3] [1, 2] [5] []
      (default_mse\<lparr>mse_policy := MseRequired, mse_allow_plaintext := False\<rparr>) (demo_tcp crypto_plaintext []))
      (default_mse\<lparr>mse_policy := MseRequired, mse_allow_plaintext := False\<rparr>) (demo_tcp crypto_plaintext []) =
      (Inr (EncryptedStream enc) :: unit peer_stream result) \<and>
    tcp_output (es_inner (es_writes [[1], [2, 3]] enc)) = tcp_output (es_inner enc) @ concat [[1], [2, 3]]"
    by (rule required_encryption_downgraded [OF power_mod_law small_key_fine [OF power_mod_law],
          where padb = "[]" and padd = "[9, 9]" and later = "[]" and e = e and d = d])
      (simp_all add: hides_vc_def demo_tcp_def keys crypt_def crypto_plaintext_def crypto_rc4_def split: prod.splits flip: demo_keys_def)
  then show ?thesis by simp
qed

text \<open>A handshake never ends in plaintext of its own accord, so the fallback to a fresh plaintext connection
  is always the caller's decision.\<close>

lemma never_plaintext: "mse_handshake_outgoing sha1 modpow io pa padding padc info_hash config s \<noteq> MsePlaintext s' bs"
  by (auto simp: mse_handshake_outgoing_def Let_def split: prod.splits sum.splits)

end
