(* ===== verification/Glob.thy ===== *)
theory Glob
  imports Main
begin

text \<open>
  The wildcard patterns that select files of a recursive download (\<open>pattern_matches\<close> of
  \<open>src/http/crawl.rs\<close>): a loop over two indices that remembers the last star and falls back to it. The
  loop is a partial function; that it always ends, and what it decides, is proved against the recursive
  meaning of a pattern. Strings count bytes.
\<close>

section \<open>The loop\<close>

text \<open>The last loop of the code, which skips trailing stars.\<close>

function skip_stars :: "string \<Rightarrow> nat \<Rightarrow> nat" where
  "skip_stars p pi = (if pi < length p \<and> p ! pi = CHR ''*'' then skip_stars p (pi + 1) else pi)"
  by pat_completeness auto
termination by (relation "measure (\<lambda>(p, pi). length p - pi)") auto

declare skip_stars.simps [simp del]

partial_function (option) glob_loop :: "string \<Rightarrow> string \<Rightarrow> nat \<Rightarrow> nat \<Rightarrow> nat option \<Rightarrow> nat \<Rightarrow> bool option" where
  "glob_loop p c pi ci star bt =
    (if ci < length c then
       (if pi < length p \<and> (p ! pi = CHR ''?'' \<or> p ! pi = c ! ci) then glob_loop p c (pi + 1) (ci + 1) star bt
        else if pi < length p \<and> p ! pi = CHR ''*'' then glob_loop p c (pi + 1) ci (Some pi) ci
        else (case star of
                Some s \<Rightarrow> glob_loop p c (s + 1) (bt + 1) star (bt + 1)
              | None \<Rightarrow> Some False))
     else Some (skip_stars p pi = length p))"

definition pattern_matches :: "string \<Rightarrow> string \<Rightarrow> bool option" where
  "pattern_matches pattern candidate = glob_loop pattern candidate 0 0 None 0"

section \<open>What a pattern means\<close>

fun glob :: "string \<Rightarrow> string \<Rightarrow> bool" where
  "glob [] c \<longleftrightarrow> c = []"
| "glob (x # p) [] \<longleftrightarrow> x = CHR ''*'' \<and> glob p []"
| "glob (x # p) (y # c) \<longleftrightarrow>
    (if x = CHR ''*'' then glob p (y # c) \<or> glob (x # p) c
     else (x = CHR ''?'' \<or> x = y) \<and> glob p c)"

lemma glob_star: "glob (CHR ''*'' # p) c \<longleftrightarrow> (\<exists>k \<le> length c. glob p (drop k c))"
proof (induction c)
  case (Cons y c)
  have "(\<exists>k \<le> length (y # c). glob p (drop k (y # c))) \<longleftrightarrow> glob p (y # c) \<or> (\<exists>k \<le> length c. glob p (drop k c))"
    by (metis Suc_le_mono drop0 drop_Suc_Cons length_Cons less_eq_nat.simps(1) not0_implies_Suc)
  then show ?case using Cons by simp
qed simp

lemma glob_literal:
  assumes "x = CHR ''?'' \<or> x = y" and "glob p c"
  shows "glob (x # p) (y # c)"
proof (cases "x = CHR ''*''")
  case True
  have "glob (CHR ''*'' # p) c" unfolding glob_star using assms(2) by (intro exI [of _ 0]) simp
  then show ?thesis by (simp add: True)
qed (use assms in simp)

lemma glob_end: "glob (drop pi p) [] \<longleftrightarrow> skip_stars p pi = length p" if "pi \<le> length p"
  using that
proof (induction p pi rule: skip_stars.induct)
  case (1 p pi)
  show ?case
  proof (cases "pi < length p")
    case True
    then have "drop pi p = p ! pi # drop (pi + 1) p" by (simp add: Cons_nth_drop_Suc)
    then show ?thesis using 1 True by (subst skip_stars.simps) auto
  next
    case False
    then show ?thesis using 1 by (subst skip_stars.simps) simp
  qed
qed

text \<open>A stretch of a pattern without stars consumes one character for each of its own.\<close>

lemma glob_plain:
  "glob (q @ r) c \<Longrightarrow> CHR ''*'' \<notin> set q \<Longrightarrow> length q \<le> length c \<and> glob r (drop (length q) c)"
proof (induction q arbitrary: c)
  case (Cons x q)
  then show ?case by (cases c) auto
qed simp

section \<open>The loop decides the meaning\<close>

text \<open>The attempts that are left at the last star.\<close>

definition retries :: "string \<Rightarrow> string \<Rightarrow> nat option \<Rightarrow> nat \<Rightarrow> bool" where
  "retries p c star bt \<longleftrightarrow>
    (case star of None \<Rightarrow> False | Some s \<Rightarrow> (\<exists>k. bt < k \<and> k \<le> length c \<and> glob (drop (s + 1) p) (drop k c)))"

definition loop_inv :: "string \<Rightarrow> string \<Rightarrow> nat \<Rightarrow> nat \<Rightarrow> nat option \<Rightarrow> nat \<Rightarrow> bool" where
  "loop_inv p c pi ci star bt \<longleftrightarrow> pi \<le> length p \<and> ci \<le> length c \<and> bt \<le> ci \<and>
    (case star of
       None \<Rightarrow> True
     | Some s \<Rightarrow> s < pi \<and> p ! s = CHR ''*'' \<and>
         (CHR ''*'' \<notin> set c \<longrightarrow> pi = s + 1 + (ci - bt) \<and> CHR ''*'' \<notin> set (take (ci - bt) (drop (s + 1) p))))"

definition loop_measure :: "string \<Rightarrow> string \<Rightarrow> nat \<Rightarrow> nat option \<Rightarrow> nat \<Rightarrow> nat \<times> nat \<times> nat" where
  "loop_measure p c ci star bt =
    (case star of None \<Rightarrow> length p + 1 | Some s \<Rightarrow> length p - s, length c - bt, length c - ci)"

text \<open>When a star is met, the attempts left at the previous one are not needed any more.\<close>

lemma retries_dropped:
  assumes inv: "loop_inv p c pi ci star bt" and no: "CHR ''*'' \<notin> set c"
    and pi: "pi < length p" "p ! pi = CHR ''*''" and old: "retries p c star bt"
  shows "glob (drop pi p) (drop ci c)"
proof -
  obtain s k where s: "star = Some s" and k: "bt < k" "k \<le> length c" "glob (drop (s + 1) p) (drop k c)"
    using old by (auto simp: retries_def split: option.splits)
  let ?q = "take (ci - bt) (drop (s + 1) p)"
  have at: "pi = s + 1 + (ci - bt)" and plain: "CHR ''*'' \<notin> set ?q" and bt: "bt \<le> ci"
    using inv no by (auto simp: loop_inv_def s)
  have len: "length ?q = ci - bt" using at pi(1) by simp
  have "drop (s + 1) p = ?q @ drop pi p" using append_take_drop_id [of "ci - bt" "drop (s + 1) p"] at by (simp add: add.commute)
  then have fits: "ci - bt \<le> length (drop k c)" and rest: "glob (drop pi p) (drop (ci - bt) (drop k c))"
    using glob_plain [of ?q "drop pi p" "drop k c"] k(3) plain len by auto
  have split: "drop pi p = CHR ''*'' # drop (pi + 1) p" using pi by (simp add: Cons_nth_drop_Suc [symmetric])
  obtain k' where k': "k' \<le> length (drop (ci - bt + k) c)" "glob (drop (pi + 1) p) (drop k' (drop (ci - bt + k) c))"
    using rest unfolding split by (auto simp: glob_star)
  have "drop k' (drop (ci - bt + k) c) = drop (k' + (ci - bt + k) - ci) (drop ci c)"
    using k(1) bt by (simp add: add.commute add.left_commute)
  moreover have "k' + (ci - bt + k) - ci \<le> length (drop ci c)" using k' k fits bt by simp
  ultimately show ?thesis unfolding split glob_star using k'(2) by metis
qed

lemma later_step:
  fixes n l :: nat
  assumes "n < l"
  shows "(\<exists>k. n < k \<and> k \<le> l \<and> P k) \<longleftrightarrow> P (n + 1) \<or> (\<exists>k. n + 1 < k \<and> k \<le> l \<and> P k)"
proof
  assume "\<exists>k. n < k \<and> k \<le> l \<and> P k"
  then obtain k where k: "n < k" "k \<le> l" "P k" by blast
  then show "P (n + 1) \<or> (\<exists>k. n + 1 < k \<and> k \<le> l \<and> P k)" by (cases "k = n + 1") auto
next
  assume "P (n + 1) \<or> (\<exists>k. n + 1 < k \<and> k \<le> l \<and> P k)"
  then show "\<exists>k. n < k \<and> k \<le> l \<and> P k" using assms Suc_lessD by fastforce
qed

lemma glob_loop_decides:
  "loop_inv p c pi ci star bt \<Longrightarrow>
   \<exists>b. glob_loop p c pi ci star bt = Some b \<and>
     (b \<longrightarrow> glob (drop pi p) (drop ci c) \<or> retries p c star bt) \<and>
     (CHR ''*'' \<notin> set c \<longrightarrow> glob (drop pi p) (drop ci c) \<or> retries p c star bt \<longrightarrow> b)"
proof (induction "loop_measure p c ci star bt" arbitrary: pi ci star bt
    rule: wf_induct_rule [OF wf_lex_prod [OF wf_less wf_lex_prod [OF wf_less wf_less]]])
  case (1 ci star bt pi)
  note inv = 1(2)
  show ?case
  proof (cases "ci < length c")
    case True
    have c: "drop ci c = c ! ci # drop (ci + 1) c" using True by (simp add: Cons_nth_drop_Suc)
    consider (literal) "pi < length p" "p ! pi = CHR ''?'' \<or> p ! pi = c ! ci"
      | (star) "pi < length p" "p ! pi = CHR ''*''" "p ! pi \<noteq> c ! ci"
      | (mismatch) "\<not> (pi < length p \<and> (p ! pi = CHR ''?'' \<or> p ! pi = c ! ci))" "\<not> (pi < length p \<and> p ! pi = CHR ''*'')"
      by blast
    then show ?thesis
    proof cases
      case literal
      have p: "drop pi p = p ! pi # drop (pi + 1) p" using literal by (simp add: Cons_nth_drop_Suc)
      have "loop_inv p c (pi + 1) (ci + 1) star bt"
      proof -
        have "CHR ''*'' \<notin> set (take (ci + 1 - bt) (drop (s + 1) p))"
          if "star = Some s" "CHR ''*'' \<notin> set c" for s
        proof -
          have "CHR ''*'' \<notin> set (take (ci - bt) (drop (s + 1) p))" "pi = s + 1 + (ci - bt)" "bt \<le> ci"
            using inv that by (auto simp: loop_inv_def)
          moreover have "p ! pi \<noteq> CHR ''*''"
            using literal(2) that(2) nth_mem [OF True] by auto
          ultimately show ?thesis
            using literal(1) by (simp add: Suc_diff_le take_Suc_conv_app_nth)
        qed
        then show ?thesis using inv literal(1) True by (auto simp: loop_inv_def split: option.splits)
      qed
      moreover have "(loop_measure p c (ci + 1) star bt, loop_measure p c ci star bt) \<in> {(x, y). x < y} <*lex*> {(x, y). x < y} <*lex*> {(x, y). x < y}"
        using True by (simp add: loop_measure_def)
      moreover have "glob_loop p c pi ci star bt = glob_loop p c (pi + 1) (ci + 1) star bt"
        using True literal by (subst glob_loop.simps) simp
      moreover have "glob (drop (pi + 1) p) (drop (ci + 1) c) \<Longrightarrow> glob (drop pi p) (drop ci c)"
        unfolding p c using glob_literal literal(2) by blast
      moreover have "CHR ''*'' \<notin> set c \<Longrightarrow> glob (drop pi p) (drop ci c) \<Longrightarrow> glob (drop (pi + 1) p) (drop (ci + 1) c)"
        unfolding p c using literal(2) nth_mem [OF True] by (auto split: if_splits)
      ultimately show ?thesis using 1(1) [of "ci + 1" star bt "pi + 1"] by metis
    next
      case star
      have p: "drop pi p = CHR ''*'' # drop (pi + 1) p" using star by (simp add: Cons_nth_drop_Suc [symmetric])
      have "loop_inv p c (pi + 1) ci (Some pi) ci" using inv star(1, 2) by (auto simp: loop_inv_def)
      moreover have "(loop_measure p c ci (Some pi) ci, loop_measure p c ci star bt) \<in> {(x, y). x < y} <*lex*> {(x, y). x < y} <*lex*> {(x, y). x < y}"
        using inv star(1) by (auto simp: loop_measure_def loop_inv_def split: option.splits)
      moreover have "glob_loop p c pi ci star bt = glob_loop p c (pi + 1) ci (Some pi) ci"
        using True star by (subst glob_loop.simps) simp
      moreover have "glob (drop pi p) (drop ci c) \<longleftrightarrow> glob (drop (pi + 1) p) (drop ci c) \<or> retries p c (Some pi) ci"
      proof -
        have "(\<exists>k \<le> length (drop ci c). glob (drop (pi + 1) p) (drop k (drop ci c))) \<longleftrightarrow>
            (\<exists>k. ci \<le> k \<and> k \<le> length c \<and> glob (drop (pi + 1) p) (drop k c))"
        proof
          assume "\<exists>k \<le> length (drop ci c). glob (drop (pi + 1) p) (drop k (drop ci c))"
          then obtain k where "k \<le> length c - ci" "glob (drop (pi + 1) p) (drop (k + ci) c)" by auto
          then show "\<exists>k. ci \<le> k \<and> k \<le> length c \<and> glob (drop (pi + 1) p) (drop k c)"
            using True by (intro exI [of _ "k + ci"]) auto
        next
          assume "\<exists>k. ci \<le> k \<and> k \<le> length c \<and> glob (drop (pi + 1) p) (drop k c)"
          then obtain k where "ci \<le> k" "k \<le> length c" "glob (drop (pi + 1) p) (drop k c)" by blast
          then show "\<exists>k \<le> length (drop ci c). glob (drop (pi + 1) p) (drop k (drop ci c))"
            by (intro exI [of _ "k - ci"]) auto
        qed
        then show ?thesis
          unfolding p glob_star retries_def option.case using True
          by (metis le_neq_implies_less less_imp_le_nat order_refl)
      qed
      moreover have "CHR ''*'' \<notin> set c \<Longrightarrow> retries p c star bt \<Longrightarrow> glob (drop pi p) (drop ci c)"
        using retries_dropped [OF inv _ star(1, 2)] by blast
      ultimately show ?thesis using 1(1) [of ci "Some pi" ci "pi + 1"] by metis
    next
      case mismatch
      have dead: "\<not> glob (drop pi p) (drop ci c)"
      proof (cases "pi < length p")
        case True
        then have "drop pi p = p ! pi # drop (pi + 1) p" by (simp add: Cons_nth_drop_Suc)
        then show ?thesis unfolding c using True mismatch by auto
      qed (simp add: c)
      show ?thesis
      proof (cases star)
        case None
        then have "glob_loop p c pi ci star bt = Some False"
          using True mismatch by (subst glob_loop.simps) (auto simp del: not_less)
        then show ?thesis using dead None by (intro exI [of _ False]) (simp add: retries_def)
      next
        case (Some s)
        have bt: "bt \<le> ci" and s: "s < pi" "pi \<le> length p" "p ! s = CHR ''*''" using inv Some by (auto simp: loop_inv_def)
        have "loop_inv p c (s + 1) (bt + 1) star (bt + 1)" using s bt True Some by (auto simp: loop_inv_def)
        moreover have "(loop_measure p c (bt + 1) star (bt + 1), loop_measure p c ci star bt) \<in> {(x, y). x < y} <*lex*> {(x, y). x < y} <*lex*> {(x, y). x < y}"
          using bt True by (auto simp: loop_measure_def)
        moreover have "glob_loop p c pi ci star bt = glob_loop p c (s + 1) (bt + 1) star (bt + 1)"
          using True mismatch Some by (subst glob_loop.simps) auto
        moreover have "retries p c star bt \<longleftrightarrow> glob (drop (s + 1) p) (drop (bt + 1) c) \<or> retries p c star (bt + 1)"
          unfolding retries_def Some option.case using bt True
          by (intro later_step) simp
        ultimately show ?thesis using 1(1) [of "bt + 1" star "bt + 1" "s + 1"] dead by metis
      qed
    qed
  next
    case False
    then have ci: "ci = length c" using inv by (simp add: loop_inv_def)
    have pi: "pi \<le> length p" using inv by (simp add: loop_inv_def)
    have "glob_loop p c pi ci star bt = Some (skip_stars p pi = length p)"
      using False by (subst glob_loop.simps) simp
    moreover have "\<not> retries p c star bt" if no: "CHR ''*'' \<notin> set c"
    proof
      assume "retries p c star bt"
      then obtain s k where s: "star = Some s" and k: "bt < k" "k \<le> length c" "glob (drop (s + 1) p) (drop k c)"
        by (auto simp: retries_def split: option.splits)
      let ?q = "take (ci - bt) (drop (s + 1) p)"
      have at: "pi = s + 1 + (ci - bt)" and plain: "CHR ''*'' \<notin> set ?q"
        using inv no by (auto simp: loop_inv_def s)
      have "length ?q \<le> length (drop k c)"
        using glob_plain [of ?q "drop (ci - bt) (drop (s + 1) p)" "drop k c"] k(3) plain
        unfolding append_take_drop_id by blast
      then show False using at pi k ci by simp
    qed
    ultimately show ?thesis using glob_end [OF pi] ci by simp
  qed
qed

text \<open>C40. The wildcard loop ends on every pattern and path. What it accepts, the pattern means: each \<open>?\<close>
  stands for one byte, each star for any run of bytes. On paths that contain no star themselves it accepts
  exactly what the pattern means, so falling back to the last star alone loses nothing.\<close>

theorem pattern_matches_exact:
  "\<exists>b. pattern_matches pattern candidate = Some b \<and> (b \<longrightarrow> glob pattern candidate) \<and>
    (CHR ''*'' \<notin> set candidate \<longrightarrow> b = glob pattern candidate)"
  using glob_loop_decides [of pattern candidate 0 0 None 0]
  by (auto simp: pattern_matches_def loop_inv_def retries_def)

lemma pattern_matches_exact_witness:
  "pattern_matches ''*.i?o'' ''a/b.iso'' = Some True"
  using pattern_matches_exact [of "''*.i?o''" "''a/b.iso''"] by auto

text \<open>A star in a path is compared with the star of the pattern as a plain character, and the fallback to
  that star is forgotten: the pattern that means everything refuses a path that starts with a star.\<close>

lemma star_refuses_starred_path:
  "pattern_matches ''*'' ''*a'' = Some False \<and> glob ''*'' ''*a''"
  unfolding pattern_matches_def by (subst glob_loop.simps, simp, subst glob_loop.simps, simp)

end
