(* ===== verification/Crawl.thy ===== *)
theory Crawl
  imports Paths Status Connection Wire Glob
begin

text \<open>
  Discovery of the files below an HTTP directory (\<open>src/http/crawl.rs\<close>, with the options and manifest of
  \<open>src/protocol/recursive.rs\<close>). A \<open>url::Url\<close> is the record of its parts; parsing, resolving and printing it,
  \<open>urlencoding::decode\<close> and the extraction of links from HTML are third-party code and arguments, as are
  the answers of servers. Fetches run concurrently: which of those under way ends next is an argument too.
\<close>

section \<open>Options and manifest\<close>

record recursive_options =
  ro_max_depth :: nat
  ro_same_host_only :: bool
  ro_allowed_prefix :: "string option"
  ro_include :: "string list"
  ro_exclude :: "string list"
  ro_preserve_paths :: bool
  ro_overwrite :: bool
  ro_fail_fast :: bool
  ro_concurrency :: nat

definition default_recursive :: recursive_options where
  "default_recursive =
    \<lparr>ro_max_depth = 16, ro_same_host_only = True, ro_allowed_prefix = None, ro_include = [], ro_exclude = [],
     ro_preserve_paths = True, ro_overwrite = False, ro_fail_fast = False, ro_concurrency = 4\<rparr>"

record recursive_entry =
  re_url :: string
  re_path :: string
  re_size :: "nat option"

record recursive_manifest =
  rm_root_url :: string
  rm_entries :: "recursive_entry list"

section \<open>URLs\<close>

record url =
  u_scheme :: string
  u_user :: string
  u_host :: string
  u_port :: nat
  u_path :: string
  u_query :: "string option"
  u_fragment :: "string option"

record url_library =
  ul_parse :: "string \<Rightarrow> string + url"
  ul_join :: "url \<Rightarrow> string \<Rightarrow> string + url"
  ul_show :: "url \<Rightarrow> string"
  ul_decode :: "string \<Rightarrow> string option"
  ul_links :: "string \<Rightarrow> string list"

text \<open>\<open>components\<close> grows at its end.\<close>

fun normalize_components :: "string list \<Rightarrow> string list \<Rightarrow> string list result" where
  "normalize_components st [] = Inr st"
| "normalize_components st (s # ss) =
    (if s = [] \<or> s = ''.'' then normalize_components st ss
     else if s = ''..'' then
       (if st = [] then Inl (err_invalid_input ''root_url'' ''path escapes above the configured root'')
        else normalize_components (butlast st) ss)
     else normalize_components (st @ [s]) ss)"

definition normalize_path :: "string \<Rightarrow> bool \<Rightarrow> string result" where
  "normalize_path path trailing_slash =
    rbind (normalize_components [] (split_char CHR ''/'' path)) (\<lambda>st.
      (let normalized = (if st = [] then ''/'' else ''/'' @ join_slash st)
       in Inr (if trailing_slash \<and> normalized \<noteq> ''/'' then normalized @ ''/'' else normalized)))"

definition normalize_url :: "url_library \<Rightarrow> string \<Rightarrow> url \<Rightarrow> url result" where
  "normalize_url lib candidate base =
    (case ul_join lib base candidate of
       Inl e \<Rightarrow> Inl (err_invalid_input ''root_url'' (''Failed to resolve URL '' @ CHR 0x27 # candidate @ CHR 0x27 # '': '' @ e))
     | Inr joined \<Rightarrow>
         if u_scheme joined \<noteq> ''http'' \<and> u_scheme joined \<noteq> ''https''
         then Inl (err_invalid_input ''root_url'' (''Unsupported scheme: '' @ u_scheme joined))
         else rbind (normalize_path (u_path joined) (ends_with_slash (u_path joined))) (\<lambda>path.
           Inr (joined\<lparr>u_fragment := None, u_path := path\<rparr>)))"

text \<open>\<open>rsplit_once('/')\<close>: what is before the last slash; \<open>rsplit('/').next()\<close>: what is after it.\<close>

definition before_last_slash :: "string \<Rightarrow> string option" where
  "before_last_slash s =
    (if CHR ''/'' \<in> set s then Some (rev (tl (dropWhile (\<lambda>c. c \<noteq> CHR ''/'') (rev s)))) else None)"

definition after_last_slash :: "string \<Rightarrow> string" where
  "after_last_slash s = rev (takeWhile (\<lambda>c. c \<noteq> CHR ''/'') (rev s))"

definition normalized_scope_prefix :: "url \<Rightarrow> recursive_options \<Rightarrow> string result" where
  "normalized_scope_prefix root opts =
    normalize_path
      (case ro_allowed_prefix opts of
         Some prefix \<Rightarrow> if starts_with ''/'' prefix then prefix else ''/'' @ prefix
       | None \<Rightarrow>
           if ends_with_slash (u_path root) then u_path root
           else (case before_last_slash (u_path root) of
                   Some parent \<Rightarrow> if parent \<noteq> [] then parent @ ''/'' else ''/''
                 | None \<Rightarrow> ''/''))
      True"

definition same_origin :: "url \<Rightarrow> url \<Rightarrow> bool" where
  "same_origin a b \<longleftrightarrow> u_scheme a = u_scheme b \<and> u_host a = u_host b \<and> u_port a = u_port b"

definition path_within_prefix :: "string \<Rightarrow> string \<Rightarrow> bool" where
  "path_within_prefix path prefix =
    (if prefix = ''/'' then starts_with ''/'' path else path = trim_slashes prefix \<or> starts_with prefix path)"

definition is_url_in_scope :: "url \<Rightarrow> url \<Rightarrow> recursive_options \<Rightarrow> nat \<Rightarrow> bool" where
  "is_url_in_scope url root opts depth =
    (if ro_max_depth opts < depth then False
     else if ro_same_host_only opts \<and> \<not> same_origin url root then False
     else (case normalized_scope_prefix root opts of
             Inl _ \<Rightarrow> False
           | Inr prefix \<Rightarrow> path_within_prefix (u_path url) prefix))"

section \<open>Redirect scopes\<close>

record redirect_scope =
  sc_root_url :: url
  sc_prefix :: string
  sc_same_host_only :: bool

record persisted_redirect_scope =
  ps_root_url :: string
  ps_prefix :: string
  ps_same_host_only :: bool

text \<open>\<open>Url::parse\<close> and then \<open>normalize_url\<close> against itself, as a crawl and its scope both begin.\<close>

definition root_of :: "url_library \<Rightarrow> string \<Rightarrow> url result" where
  "root_of lib root_url =
    (case ul_parse lib root_url of
       Inl e \<Rightarrow> Inl (err_invalid_input ''root_url'' (''Invalid URL: '' @ e))
     | Inr base \<Rightarrow> normalize_url lib root_url base)"

definition redirect_scope_new :: "url_library \<Rightarrow> string \<Rightarrow> recursive_options \<Rightarrow> redirect_scope result" where
  "redirect_scope_new lib root_url opts =
    rbind (root_of lib root_url) (\<lambda>root.
      rbind (normalized_scope_prefix root opts) (\<lambda>prefix.
        Inr \<lparr>sc_root_url = root, sc_prefix = prefix, sc_same_host_only = ro_same_host_only opts\<rparr>))"

definition scope_contains :: "redirect_scope \<Rightarrow> url \<Rightarrow> bool" where
  "scope_contains sc url =
    (if sc_same_host_only sc \<and> \<not> same_origin url (sc_root_url sc) then False
     else path_within_prefix (u_path url) (sc_prefix sc))"

definition to_persisted :: "url_library \<Rightarrow> redirect_scope \<Rightarrow> persisted_redirect_scope" where
  "to_persisted lib sc =
    \<lparr>ps_root_url = ul_show lib (sc_root_url sc), ps_prefix = sc_prefix sc, ps_same_host_only = sc_same_host_only sc\<rparr>"

definition from_persisted :: "url_library \<Rightarrow> persisted_redirect_scope \<Rightarrow> redirect_scope result" where
  "from_persisted lib p =
    (case ul_parse lib (ps_root_url p) of
       Inl e \<Rightarrow> Inl (err_invalid_input ''runtime_metadata'' (''Invalid persisted recursive root URL: '' @ e))
     | Inr base \<Rightarrow>
         rbind (normalize_url lib (ps_root_url p) base) (\<lambda>root.
           rbind (normalize_path (ps_prefix p) True) (\<lambda>prefix.
             Inr \<lparr>sc_root_url = root, sc_prefix = prefix, sc_same_host_only = ps_same_host_only p\<rparr>)))"

definition validate_redirect_scope :: "url_library \<Rightarrow> url \<Rightarrow> redirect_scope \<Rightarrow> unit result" where
  "validate_redirect_scope lib url sc =
    (if scope_contains sc url then Inr ()
     else Inl (err_invalid_input ''url'' (''redirect escaped recursive scope: '' @ ul_show lib url)))"

section \<open>The path of a file\<close>

fun push_segments :: "url_library \<Rightarrow> engine_error \<Rightarrow> string \<Rightarrow> string list \<Rightarrow> string result" where
  "push_segments lib e relative [] = Inr relative"
| "push_segments lib e relative (s # ss) =
    (let decoded = (case ul_decode lib s of Some d \<Rightarrow> d | None \<Rightarrow> s) in
     if CHR ''/'' \<in> set decoded \<or> CHR 0x5C \<in> set decoded \<or> CHR 0x00 \<in> set decoded then Inl e
     else push_segments lib e (path_push relative decoded) ss)"

definition relative_candidate :: "string \<Rightarrow> string \<Rightarrow> string" where
  "relative_candidate prefix path =
    (let stripped =
       (if prefix = ''/'' then dropWhile (\<lambda>c. c = CHR ''/'') path
        else if path = trim_slashes prefix then []
        else (case strip_prefix prefix path of Some r \<Rightarrow> r | None \<Rightarrow> []))
     in if stripped = [] then after_last_slash path else stripped)"

text \<open>\<open>Path::file_name\<close>: the last component, when it is a plain name.\<close>

definition file_name_of :: "string \<Rightarrow> string option" where
  "file_name_of p =
    (case rev (path_components p) of path_component.Normal n # _ \<Rightarrow> Some n | _ \<Rightarrow> None)"

definition build_relative_path :: "url_library \<Rightarrow> url \<Rightarrow> url \<Rightarrow> recursive_options \<Rightarrow> string result" where
  "build_relative_path lib url root opts =
    rbind (normalized_scope_prefix root opts) (\<lambda>prefix.
      (let candidate = relative_candidate prefix (u_path url);
           invalid = err_invalid_input ''root_url'' (''Discovered invalid path for URL: '' @ ul_show lib url)
       in if candidate = [] \<or> ends_with_slash candidate
          then Inl (err_invalid_input ''root_url'' (''URL does not resolve to a file path: '' @ ul_show lib url))
          else
            rbind (push_segments lib invalid [] (split_char CHR ''/'' candidate)) (\<lambda>relative.
              if \<not> list_all (\<lambda>c. normal_name c \<noteq> None) (path_components relative) then Inl invalid
              else Inr (if ro_preserve_paths opts then relative
                        else (case file_name_of relative of Some n \<Rightarrow> n | None \<Rightarrow> relative)))))"

definition path_is_selected :: "string \<Rightarrow> recursive_options \<Rightarrow> bool" where
  "path_is_selected relative_path opts =
    (let candidate = map (\<lambda>c. if c = CHR 0x5C then CHR ''/'' else c) relative_path in
     if list_ex (\<lambda>p. pattern_matches p candidate = Some True) (ro_exclude opts) then False
     else if ro_include opts = [] then True
     else list_ex (\<lambda>p. pattern_matches p candidate = Some True) (ro_include opts))"

definition insert_entry ::
  "(string \<times> recursive_entry) list \<Rightarrow> recursive_entry \<Rightarrow> recursive_options \<Rightarrow> (string \<times> recursive_entry) list result"
where
  "insert_entry discovered entry opts =
    (let key = re_path entry in
     case map_of discovered key of
       Some existing \<Rightarrow>
         if re_url existing = re_url entry then Inr discovered
         else if ro_overwrite opts then Inr (om_insert key entry discovered)
         else Inl (EAlreadyExists (key @ '' maps to both '' @ re_url existing @ '' and '' @ re_url entry))
     | None \<Rightarrow> Inr (om_insert key entry discovered))"

section \<open>Fetching a page\<close>

record discovery_response =
  dr_final_url :: url
  dr_html :: "string option"
  dr_size_hint :: "nat option"

text \<open>An answer with a success status: final URL, content type, declared length, and the body in chunks, each
  of which can fail.\<close>

record http_page =
  hp_final_url :: url
  hp_content_type :: "string option"
  hp_length :: "nat option"
  hp_chunks :: "(engine_error + bytes) list"

definition max_html_bytes :: nat where "max_html_bytes = 2 * 1024 * 1024"
definition max_pages :: nat where "max_pages = 1024"
definition max_files :: nat where "max_files = 10000"

definition ascii_lower :: "string \<Rightarrow> string" where
  "ascii_lower s = map (\<lambda>c. if CHR ''A'' \<le> c \<and> c \<le> CHR ''Z'' then char_of ((of_char c :: nat) + 32) else c) s"

definition is_html :: "http_page \<Rightarrow> bool" where
  "is_html p \<longleftrightarrow> ends_with_slash (u_path (hp_final_url p)) \<or>
    (case hp_content_type p of
       None \<Rightarrow> False
     | Some t \<Rightarrow> starts_with ''text/html'' (ascii_lower t) \<or> starts_with ''application/xhtml+xml'' (ascii_lower t))"

definition html_too_large :: engine_error where
  "html_too_large = EResourceLimit ''recursive_html_bytes'' max_html_bytes"

fun read_html :: "bytes \<Rightarrow> (engine_error + bytes) list \<Rightarrow> bytes result" where
  "read_html body [] = Inr body"
| "read_html body (Inl e # cs) = Inl e"
| "read_html body (Inr c # cs) =
    (if max_html_bytes < length body + length c then Inl html_too_large else read_html (body @ c) cs)"

definition read_page :: "http_page \<Rightarrow> discovery_response result" where
  "read_page p =
    (if \<not> is_html p then Inr \<lparr>dr_final_url = hp_final_url p, dr_html = None, dr_size_hint = hp_length p\<rparr>
     else if (case hp_length p of Some n \<Rightarrow> max_html_bytes < n | None \<Rightarrow> False) then Inl html_too_large
     else rbind (read_html [] (hp_chunks p)) (\<lambda>body.
       Inr \<lparr>dr_final_url = hp_final_url p, dr_html = Some (from_utf8_lossy body), dr_size_hint = hp_length p\<rparr>))"

text \<open>\<open>answers k\<close> is what the \<open>k\<close>-th attempt gets, with its duration.\<close>

definition fetch_discovery_response ::
  "('f \<Rightarrow> 'f \<Rightarrow> 'f) \<Rightarrow> 'f connection_pool \<Rightarrow> retry_policy \<Rightarrow> (nat \<Rightarrow> (http_page \<times> 'f) result) \<Rightarrow>
    'f connection_pool \<times> nat \<times> discovery_response result"
where
  "fetch_discovery_response average pool policy answers =
    with_retry average pool policy
      (\<lambda>k. rbind (answers k) (\<lambda>(page, elapsed). rbind (read_page page) (\<lambda>r. Inr (r, elapsed))))"

section \<open>The crawl\<close>

record crawl_state =
  cr_queue :: "(url \<times> nat) list"
  cr_in_flight :: "(url \<times> nat) list"
  cr_seen :: "string list"
  cr_discovered :: "(string \<times> recursive_entry) list"
  cr_truncated :: bool

text \<open>One step ends with the state to go on with, with the crawl cut short, or with an error.\<close>

datatype crawl_step = CrawlOn crawl_state | CrawlStop crawl_state | CrawlFail engine_error

text \<open>A file that was found: it is entered unless a pattern excludes it or the limit is reached.\<close>

definition discover_file ::
  "url_library \<Rightarrow> url \<Rightarrow> recursive_options \<Rightarrow> url \<Rightarrow> nat option \<Rightarrow> crawl_state \<Rightarrow> crawl_step"
where
  "discover_file lib root opts url size_hint st =
    (case build_relative_path lib url root opts of
       Inl e \<Rightarrow> CrawlFail e
     | Inr relative_path \<Rightarrow>
         if \<not> path_is_selected relative_path opts then CrawlOn st
         else if max_files \<le> length (cr_discovered st) then CrawlStop st
         else (case insert_entry (cr_discovered st) \<lparr>re_url = ul_show lib url, re_path = relative_path, re_size = size_hint\<rparr> opts of
                 Inl e \<Rightarrow> CrawlFail e
               | Inr discovered \<Rightarrow> CrawlOn (st\<lparr>cr_discovered := discovered\<rparr>)))"

definition discover_page :: "url_library \<Rightarrow> recursive_options \<Rightarrow> nat \<Rightarrow> url \<Rightarrow> crawl_state \<Rightarrow> crawl_state" where
  "discover_page lib opts depth url st =
    (if ro_max_depth opts \<le> depth + 1 \<or> cr_truncated st then st
     else
       (let url = url\<lparr>u_query := None\<rparr> in
        if ul_show lib url \<in> set (cr_seen st) then st
        else if max_pages \<le> length (cr_seen st) then st\<lparr>cr_truncated := True\<rparr>
        else st\<lparr>cr_seen := ul_show lib url # cr_seen st, cr_queue := cr_queue st @ [(url, depth + 1)]\<rparr>))"

fun process_links ::
  "url_library \<Rightarrow> url \<Rightarrow> recursive_options \<Rightarrow> url \<Rightarrow> nat \<Rightarrow> string list \<Rightarrow> crawl_state \<Rightarrow> crawl_step"
where
  "process_links lib root opts final depth [] st = CrawlOn st"
| "process_links lib root opts final depth (link # links) st =
    (case normalize_url lib link final of
       Inl _ \<Rightarrow> process_links lib root opts final depth links st
     | Inr url \<Rightarrow>
         if \<not> is_url_in_scope url root opts (depth + 1) then process_links lib root opts final depth links st
         else if ends_with_slash (u_path url) then
           process_links lib root opts final depth links (discover_page lib opts depth url st)
         else
           (case discover_file lib root opts url None st of
              CrawlOn st \<Rightarrow> process_links lib root opts final depth links st
            | CrawlStop st \<Rightarrow> CrawlStop st
            | CrawlFail e \<Rightarrow> CrawlFail e))"

definition process_response ::
  "url_library \<Rightarrow> url \<Rightarrow> recursive_options \<Rightarrow> nat \<Rightarrow> discovery_response result \<Rightarrow> crawl_state \<Rightarrow> crawl_step"
where
  "process_response lib root opts depth outcome st =
    (case outcome of
       Inl e \<Rightarrow> if depth = 0 then CrawlFail e else CrawlOn st
     | Inr r \<Rightarrow>
         if \<not> is_url_in_scope (dr_final_url r) root opts depth
         then CrawlFail (err_invalid_input ''root_url'' (''redirect escaped recursive scope: '' @ ul_show lib (dr_final_url r)))
         else (case dr_html r of
                 Some html \<Rightarrow>
                   if ro_max_depth opts \<le> depth then CrawlOn st
                   else process_links lib root opts (dr_final_url r) depth (ul_links lib html) st
               | None \<Rightarrow> discover_file lib root opts (dr_final_url r) (dr_size_hint r) st))"

text \<open>Free slots are filled from the front of the queue.\<close>

definition fill_slots :: "recursive_options \<Rightarrow> crawl_state \<Rightarrow> crawl_state" where
  "fill_slots opts st =
    (let n = ro_concurrency opts - length (cr_in_flight st)
     in st\<lparr>cr_in_flight := cr_in_flight st @ take n (cr_queue st), cr_queue := drop n (cr_queue st)\<rparr>)"

text \<open>In round \<open>n\<close> the fetch that ends next is number \<open>pick n\<close> of those under way, with the outcome
  \<open>fetch n url\<close>, an error of its timeout included. The pages fetched are listed for the statements.\<close>

type_synonym fetcher = "nat \<Rightarrow> url \<Rightarrow> discovery_response result"

definition crawl_measure :: "crawl_state \<Rightarrow> nat" where
  "crawl_measure st = length (cr_queue st) + length (cr_in_flight st) + (max_pages - length (cr_seen st))"

lemma discover_file_frame:
  "discover_file lib root opts url size_hint st = CrawlOn st' \<or> discover_file lib root opts url size_hint st = CrawlStop st' \<Longrightarrow>
   cr_queue st' = cr_queue st \<and> cr_in_flight st' = cr_in_flight st \<and> cr_seen st' = cr_seen st"
  by (auto simp: discover_file_def split: sum.splits if_splits)

lemma discover_page_measure: "crawl_measure (discover_page lib opts depth url st) \<le> crawl_measure st"
  by (auto simp: discover_page_def crawl_measure_def Let_def)

lemma process_links_measure:
  "process_links lib root opts final depth links st = CrawlOn st' \<Longrightarrow> crawl_measure st' \<le> crawl_measure st"
proof (induction links arbitrary: st)
  case (Cons link links)
  show ?case
  proof (cases "normalize_url lib link final")
    case (Inl e)
    then show ?thesis using Cons by simp
  next
    case (Inr url)
    show ?thesis
    proof (cases "\<not> is_url_in_scope url root opts (depth + 1)")
      case True
      then show ?thesis using Cons Inr by simp
    next
      case False
      show ?thesis
      proof (cases "ends_with_slash (u_path url)")
        case True
        then have "crawl_measure st' \<le> crawl_measure (discover_page lib opts depth url st)"
          using Cons Inr False by simp
        then show ?thesis using discover_page_measure order_trans by blast
      next
        case slash: False
        then obtain st1 where st1: "discover_file lib root opts url None st = CrawlOn st1"
          and "process_links lib root opts final depth links st1 = CrawlOn st'"
          using Cons.prems Inr False by (auto split: crawl_step.splits)
        then have "crawl_measure st' \<le> crawl_measure st1" using Cons.IH by blast
        then show ?thesis using discover_file_frame [of lib root opts url None st st1] st1 by (simp add: crawl_measure_def)
      qed
    qed
  qed
qed simp

lemma process_response_measure:
  "process_response lib root opts depth r st = CrawlOn st' \<Longrightarrow> crawl_measure st' \<le> crawl_measure st"
  by (auto simp: process_response_def crawl_measure_def split: sum.splits if_splits option.splits
      dest: discover_file_frame [OF disjI1] dest!: process_links_measure)

lemma fill_slots_measure [simp]: "crawl_measure (fill_slots opts st) = crawl_measure st"
  by (simp add: fill_slots_def crawl_measure_def Let_def)

lemma take_out_measure:
  "k < length (cr_in_flight st) \<Longrightarrow>
   crawl_measure (st\<lparr>cr_in_flight := take k (cr_in_flight st) @ drop (Suc k) (cr_in_flight st)\<rparr>) < crawl_measure st"
  by (simp add: crawl_measure_def)

function crawl ::
  "url_library \<Rightarrow> url \<Rightarrow> recursive_options \<Rightarrow> fetcher \<Rightarrow> (nat \<Rightarrow> nat) \<Rightarrow> nat \<Rightarrow> crawl_state \<Rightarrow>
    crawl_state result \<times> (url \<times> nat) list"
where
  "crawl lib root opts fetch pick n st0 =
    (let st = fill_slots opts st0 in
     if cr_in_flight st = [] then (Inr st, [])
     else
       (let k = pick n mod length (cr_in_flight st); (url, depth) = cr_in_flight st ! k;
            st = st\<lparr>cr_in_flight := take k (cr_in_flight st) @ drop (Suc k) (cr_in_flight st)\<rparr>
        in case process_response lib root opts depth (fetch n url) st of
             CrawlFail e \<Rightarrow> (Inl e, [(url, depth)])
           | CrawlStop st \<Rightarrow> (Inr st, [(url, depth)])
           | CrawlOn st \<Rightarrow>
               (case crawl lib root opts fetch pick (n + 1) st of (r, fetched) \<Rightarrow> (r, (url, depth) # fetched))))"
  by pat_completeness auto

termination
proof (relation "measure (\<lambda>(_, _, _, _, _, _, st). crawl_measure st)", goal_cases)
  case (2 lib root opts fetch pick n st0 st k p url depth st1 st2)
  have "k < length (cr_in_flight st)" unfolding 2(3) using 2(2) by simp
  then have "crawl_measure st1 < crawl_measure st" unfolding 2(6) by (rule take_out_measure)
  moreover have "crawl_measure st2 \<le> crawl_measure st1" using process_response_measure [OF 2(7)] .
  ultimately show ?case using 2 by simp
qed simp

declare crawl.simps [simp del]

text \<open>\<open>discover\<close>, with the pages it fetched.\<close>

definition discover ::
  "url_library \<Rightarrow> recursive_options \<Rightarrow> fetcher \<Rightarrow> (nat \<Rightarrow> nat) \<Rightarrow> string \<Rightarrow>
    recursive_manifest result \<times> (url \<times> nat) list"
where
  "discover lib opts fetch pick root_url =
    (case root_of lib root_url of
       Inl e \<Rightarrow> (Inl e, [])
     | Inr root \<Rightarrow>
         if ro_concurrency opts = 0
         then (Inl (err_invalid_input ''recursive.max_discovery_concurrency'' ''must be greater than 0''), [])
         else (case normalized_scope_prefix root opts of
                 Inl e \<Rightarrow> (Inl e, [])
               | Inr _ \<Rightarrow>
                   if \<not> is_url_in_scope root root opts 0
                   then (Inl (err_invalid_input ''root_url'' ''root URL is outside the configured recursive scope''), [])
                   else (case crawl lib root opts fetch pick 0
                                 \<lparr>cr_queue = [(root, 0)], cr_in_flight = [], cr_seen = [ul_show lib root],
                                  cr_discovered = [], cr_truncated = False\<rparr> of
                           (Inl e, fetched) \<Rightarrow> (Inl e, fetched)
                         | (Inr st, fetched) \<Rightarrow>
                             (Inr \<lparr>rm_root_url = ul_show lib root, rm_entries = map snd (cr_discovered st)\<rparr>, fetched))))"

end
