(* ===== verification/CrawlSite.thy ===== *)
theory CrawlSite
  imports Crawl "HOL-Library.Multiset"
begin

text \<open>
  What the discovery of \<open>Crawl\<close> guarantees: its manifest stays in scope, inside the download directory and
  within the limits, whatever servers answer and in whatever order; and it misses nothing that the pages it
  fetched link to.
\<close>

section \<open>Paths stay inside\<close>

lemma split_all_empty: "\<forall>s \<in> set (split_char x c). s = [] \<Longrightarrow> set c \<subseteq> {x}"
proof (induction c)
  case (Cons y c)
  then show ?case by (cases "split_char x c") (auto split: if_splits)
qed simp

lemma path_components_nonempty: "p \<noteq> [] \<Longrightarrow> path_components p \<noteq> []"
proof -
  assume p: "p \<noteq> []"
  show "path_components p \<noteq> []"
  proof (cases "is_absolute p")
    case False
    then obtain c q where q: "p = c # q" "c \<noteq> CHR ''/''" using p by (cases p) (auto simp: is_absolute_def)
    obtain s ss where s: "split_char CHR ''/'' p = (c # s) # ss"
      using q by (cases "split_char CHR ''/'' q") auto
    show ?thesis
      by (cases "c # s = ''.''") (auto simp: path_components_def path_names_def s component_of_def)
  qed (simp add: path_components_def)
qed

lemma plain_name_components:
  "n \<noteq> [] \<Longrightarrow> n \<noteq> ''.'' \<Longrightarrow> n \<noteq> ''..'' \<Longrightarrow> CHR ''/'' \<notin> set n \<Longrightarrow> path_components n = [path_component.Normal n]"
  by (cases n) (auto simp: path_components_def path_names_def split_char_absent component_of_def is_absolute_def)

definition decode_law :: "url_library \<Rightarrow> bool" where
  "decode_law lib \<longleftrightarrow> (\<forall>s. s \<noteq> [] \<longrightarrow> ul_decode lib s \<noteq> Some [])"

lemma push_segments_nonempty:
  "push_segments lib e r ss = Inr p \<Longrightarrow> decode_law lib \<Longrightarrow> r \<noteq> [] \<or> (\<exists>s \<in> set ss. s \<noteq> []) \<Longrightarrow> p \<noteq> []"
proof (induction ss arbitrary: r)
  case (Cons s ss)
  let ?d = "case ul_decode lib s of Some d \<Rightarrow> d | None \<Rightarrow> s"
  have "r \<noteq> [] \<Longrightarrow> path_push r ?d \<noteq> []" by (auto simp: path_push_def is_absolute_def)
  moreover have "s \<noteq> [] \<Longrightarrow> path_push r ?d \<noteq> []"
    using Cons.prems(2) by (auto simp: path_push_def decode_law_def split: option.splits)
  ultimately show ?case
    using Cons.IH [of "path_push r ?d"] Cons.prems by (auto simp: Let_def split: if_splits)
qed simp

lemma all_normal_accepted:
  assumes "list_all (\<lambda>c. normal_name c \<noteq> None) (path_components p)" and "p \<noteq> []"
  shows "check_relative_path p = Inr ()"
proof -
  obtain c cs where c: "path_components p = c # cs" using path_components_nonempty [OF assms(2)] by (cases "path_components p") auto
  have "list_all (\<lambda>c. c \<noteq> ParentDir \<and> c \<noteq> RootDir) (path_components p)"
    using assms(1) by (auto simp: list_all_iff)
  moreover have "List.map_filter normal_name (path_components p) \<noteq> []"
    using assms(1) by (auto simp: c)
  ultimately show ?thesis unfolding check_relative_path_def by (simp add: check_components_Inr_iff)
qed

lemma build_relative_path_accepted:
  assumes "build_relative_path lib url root opts = Inr p" and "decode_law lib"
  shows "check_relative_path p = Inr ()"
proof -
  obtain prefix e relative where cand: "relative_candidate prefix (u_path url) \<noteq> []"
      "\<not> ends_with_slash (relative_candidate prefix (u_path url))"
    and push: "push_segments lib e [] (split_char CHR ''/'' (relative_candidate prefix (u_path url))) = Inr relative"
    and normal: "list_all (\<lambda>c. normal_name c \<noteq> None) (path_components relative)"
    and p: "p = (if ro_preserve_paths opts then relative else (case file_name_of relative of Some n \<Rightarrow> n | None \<Rightarrow> relative))"
    using assms(1) unfolding build_relative_path_def Let_def rbind_Inr_iff
    by (auto simp: rbind_Inr_iff split: if_splits)
  let ?c = "relative_candidate prefix (u_path url)"
  have "\<exists>s \<in> set (split_char CHR ''/'' ?c). s \<noteq> []"
  proof (rule ccontr)
    assume "\<not> ?thesis"
    then have "set ?c \<subseteq> {CHR ''/''}" using split_all_empty by blast
    then have "last ?c = CHR ''/''" using last_in_set [OF cand(1)] by blast
    then show False using cand by (simp add: ends_with_slash_def)
  qed
  then have ok: "check_relative_path relative = Inr ()"
    using all_normal_accepted [OF normal] push_segments_nonempty [OF push assms(2)] by blast
  show ?thesis
  proof (cases "ro_preserve_paths opts \<or> file_name_of relative = None")
    case False
    then obtain n where n: "file_name_of relative = Some n" "p = n" using p by auto
    then have "path_component.Normal n \<in> set (path_components relative)"
      by (auto simp: file_name_of_def split: list.splits path_component.splits)
    then have "n \<in> set (List.map_filter normal_name (path_components relative))"
      by (force simp: List.map_filter_def)
    then have "n \<noteq> [] \<and> n \<noteq> ''.'' \<and> n \<noteq> ''..'' \<and> CHR ''/'' \<notin> set n" by (rule normal_names_wf)
    then show ?thesis using plain_name_components [of n] by (simp add: n check_relative_path_def)
  qed (use ok p in auto)
qed

section \<open>The manifest stays in scope\<close>

definition entry_ok :: "url_library \<Rightarrow> url \<Rightarrow> recursive_options \<Rightarrow> recursive_entry \<Rightarrow> bool" where
  "entry_ok lib root opts e \<longleftrightarrow>
    path_is_selected (re_path e) opts \<and>
    (\<exists>u d. re_url e = ul_show lib u \<and> is_url_in_scope u root opts d \<and> build_relative_path lib u root opts = Inr (re_path e))"

definition waiting :: "crawl_state \<Rightarrow> (url \<times> nat) list" where
  "waiting st = cr_in_flight st @ cr_queue st"

definition page_key :: "url_library \<Rightarrow> url \<times> nat \<Rightarrow> string" where
  "page_key lib p = ul_show lib (fst p)"

definition files_inv :: "url_library \<Rightarrow> url \<Rightarrow> recursive_options \<Rightarrow> crawl_state \<Rightarrow> bool" where
  "files_inv lib root opts st \<longleftrightarrow> om_sorted (cr_discovered st) \<and> length (cr_discovered st) \<le> max_files \<and>
    (\<forall>(k, e) \<in> set (cr_discovered st). k = re_path e \<and> entry_ok lib root opts e)"

definition pages_inv :: "url_library \<Rightarrow> url \<Rightarrow> recursive_options \<Rightarrow> crawl_state \<Rightarrow> bool" where
  "pages_inv lib root opts st \<longleftrightarrow> distinct (map (page_key lib) (waiting st)) \<and>
    page_key lib ` set (waiting st) \<subseteq> set (cr_seen st) \<and> distinct (cr_seen st) \<and>
    length (cr_seen st) \<le> max_pages \<and> (\<forall>(u, d) \<in> set (waiting st). is_url_in_scope u root opts d)"

lemma scope_without_query [simp]: "is_url_in_scope (u\<lparr>u_query := q\<rparr>) root opts d = is_url_in_scope u root opts d"
  by (auto simp: is_url_in_scope_def same_origin_def split: sum.split)

lemma scope_shallower: "is_url_in_scope u root opts d \<Longrightarrow> d' \<le> d \<Longrightarrow> is_url_in_scope u root opts d'"
  by (auto simp: is_url_in_scope_def split: if_splits)

lemma discover_file_inv:
  assumes "files_inv lib root opts st" and "is_url_in_scope url root opts d"
    and "discover_file lib root opts url size_hint st = CrawlOn st' \<or> discover_file lib root opts url size_hint st = CrawlStop st'"
  shows "files_inv lib root opts st'"
proof -
  let ?e = "\<lambda>p. \<lparr>re_url = ul_show lib url, re_path = p, re_size = size_hint\<rparr>"
  consider "st' = st" | p disc where "build_relative_path lib url root opts = Inr p" "path_is_selected p opts"
      "length (cr_discovered st) < max_files" "insert_entry (cr_discovered st) (?e p) opts = Inr disc"
      "st' = st\<lparr>cr_discovered := disc\<rparr>"
  proof (cases "build_relative_path lib url root opts")
    case (Inl e)
    then show ?thesis using assms(3) by (simp add: discover_file_def)
  next
    case (Inr p)
    show ?thesis
    proof (cases "path_is_selected p opts \<and> length (cr_discovered st) < max_files")
      case True
      then obtain disc where "insert_entry (cr_discovered st) (?e p) opts = Inr disc"
        using assms(3) Inr by (cases "insert_entry (cr_discovered st) (?e p) opts") (simp_all add: discover_file_def)
      then show ?thesis using that(2) [OF Inr _ _ _] True assms(3) Inr by (simp add: discover_file_def)
    next
      case False
      then show ?thesis using that(1) assms(3) Inr by (auto simp: discover_file_def split: if_splits)
    qed
  qed
  then show ?thesis
  proof cases
    case 2
    have "entry_ok lib root opts (?e p)" using 2(1, 2) assms(2) by (auto simp: entry_ok_def)
    moreover have "disc = cr_discovered st \<or> disc = om_insert p (?e p) (cr_discovered st)"
      using 2(4) by (auto simp: insert_entry_def Let_def split: option.splits if_splits)
    ultimately show ?thesis
      using assms(1) 2(3, 5) length_om_insert [of p "?e p" "cr_discovered st"] set_om_insert [of p "?e p" "cr_discovered st"]
      by (auto simp: files_inv_def)
  qed (use assms(1) in simp)
qed

lemma discover_page_inv:
  assumes "pages_inv lib root opts st" and "is_url_in_scope url root opts (d + 1)"
  shows "pages_inv lib root opts (discover_page lib opts d url st) \<and>
    set (cr_seen st) \<subseteq> set (cr_seen (discover_page lib opts d url st)) \<and>
    set (waiting (discover_page lib opts d url st)) \<subseteq>
      set (waiting st) \<union> {p. page_key lib p \<notin> set (cr_seen st)}"
  using assms by (auto simp: pages_inv_def discover_page_def Let_def waiting_def page_key_def)

text \<open>What processing keeps: the waiting pages are those that waited, and new ones that had not been seen.\<close>

definition follows :: "url_library \<Rightarrow> url \<Rightarrow> recursive_options \<Rightarrow> crawl_state \<Rightarrow> crawl_state \<Rightarrow> bool" where
  "follows lib root opts st st' \<longleftrightarrow> files_inv lib root opts st' \<and> pages_inv lib root opts st' \<and>
    set (cr_seen st) \<subseteq> set (cr_seen st') \<and>
    set (waiting st') \<subseteq> set (waiting st) \<union> {p. page_key lib p \<notin> set (cr_seen st)}"

lemma follows_refl: "files_inv lib root opts st \<Longrightarrow> pages_inv lib root opts st \<Longrightarrow> follows lib root opts st st"
  by (simp add: follows_def)

lemma follows_trans: "follows lib root opts a b \<Longrightarrow> follows lib root opts b c \<Longrightarrow> follows lib root opts a c"
  unfolding follows_def by blast

lemma discover_file_follows:
  assumes "files_inv lib root opts st" "pages_inv lib root opts st" "is_url_in_scope url root opts d"
    and "discover_file lib root opts url size_hint st = CrawlOn st' \<or> discover_file lib root opts url size_hint st = CrawlStop st'"
  shows "follows lib root opts st st'"
  using discover_file_inv [OF assms(1, 3, 4)] discover_file_frame [OF assms(4)] assms(2)
  by (simp add: follows_def pages_inv_def waiting_def)

lemma discover_page_follows:
  assumes "files_inv lib root opts st" "pages_inv lib root opts st" "is_url_in_scope url root opts (d + 1)"
  shows "follows lib root opts st (discover_page lib opts d url st)"
proof -
  have "cr_discovered (discover_page lib opts d url st) = cr_discovered st" by (simp add: discover_page_def Let_def)
  then show ?thesis using discover_page_inv [OF assms(2, 3)] assms(1) by (simp add: follows_def files_inv_def)
qed

lemma process_links_follows:
  "files_inv lib root opts st \<Longrightarrow> pages_inv lib root opts st \<Longrightarrow>
   process_links lib root opts final d links st = CrawlOn st' \<or> process_links lib root opts final d links st = CrawlStop st' \<Longrightarrow>
   follows lib root opts st st'"
proof (induction links arbitrary: st)
  case (Cons link links)
  show ?case
  proof (cases "normalize_url lib link final")
    case (Inl e)
    then show ?thesis using Cons by simp
  next
    case (Inr url)
    show ?thesis
    proof (cases "is_url_in_scope url root opts (d + 1)")
      case False
      then show ?thesis using Cons Inr by simp
    next
      case scope: True
      show ?thesis
      proof (cases "ends_with_slash (u_path url)")
        case True
        let ?st = "discover_page lib opts d url st"
        have f: "follows lib root opts st ?st" by (rule discover_page_follows [OF Cons.prems(1, 2) scope])
        then have "follows lib root opts ?st st'"
          using Cons.prems(3) Inr scope True by (intro Cons.IH) (auto simp: follows_def)
        with f show ?thesis by (rule follows_trans)
      next
        case slash: False
        show ?thesis
        proof (cases "discover_file lib root opts url None st")
          case (CrawlOn st1)
          have f: "follows lib root opts st st1" using discover_file_follows [OF Cons.prems(1, 2) scope] CrawlOn by blast
          then have "follows lib root opts st1 st'"
            using Cons.prems(3) Inr scope slash CrawlOn by (intro Cons.IH) (auto simp: follows_def)
          with f show ?thesis by (rule follows_trans)
        next
          case (CrawlStop st1)
          then have "st' = st1" using Cons.prems(3) Inr scope slash by simp
          then show ?thesis using discover_file_follows [OF Cons.prems(1, 2) scope] CrawlStop by blast
        next
          case (CrawlFail e)
          then show ?thesis using Cons.prems(3) Inr scope slash by simp
        qed
      qed
    qed
  qed
qed (auto intro: follows_refl)

lemma process_response_follows:
  assumes "files_inv lib root opts st" "pages_inv lib root opts st"
    and "process_response lib root opts d r st = CrawlOn st' \<or> process_response lib root opts d r st = CrawlStop st'"
  shows "follows lib root opts st st'"
  using assms(3) process_links_follows [OF assms(1, 2)] discover_file_follows [OF assms(1, 2)] follows_refl [OF assms(1, 2)]
  by (auto simp: process_response_def split: sum.splits if_splits option.splits)

lemma fill_slots_frame:
  "set (waiting (fill_slots opts st)) = set (waiting st)" "waiting (fill_slots opts st) = waiting st"
  "cr_seen (fill_slots opts st) = cr_seen st" "cr_discovered (fill_slots opts st) = cr_discovered st"
  "cr_truncated (fill_slots opts st) = cr_truncated st"
  by (simp_all add: fill_slots_def waiting_def Let_def)

text \<open>One round of the crawl, with the page taken out.\<close>

lemma round_cases:
  obtains (idle) "cr_in_flight (fill_slots opts st0) = []" "crawl lib root opts fetch pick n st0 = (Inr (fill_slots opts st0), [])"
  | (turn) p st where "p \<in> set (waiting st0)" "mset (waiting st0) = add_mset p (mset (waiting st))"
      "cr_seen st = cr_seen st0" "cr_discovered st = cr_discovered st0" "cr_truncated st = cr_truncated st0"
      "crawl_measure st < crawl_measure st0"
      "crawl lib root opts fetch pick n st0 =
        (case process_response lib root opts (snd p) (fetch n (fst p)) st of
           CrawlFail e \<Rightarrow> (Inl e, [p])
         | CrawlStop st' \<Rightarrow> (Inr st', [p])
         | CrawlOn st' \<Rightarrow> (case crawl lib root opts fetch pick (n + 1) st' of (r, fetched) \<Rightarrow> (r, p # fetched)))"
proof (cases "cr_in_flight (fill_slots opts st0) = []")
  case True
  then have "crawl lib root opts fetch pick n st0 = (Inr (fill_slots opts st0), [])"
    by (subst crawl.simps) (simp add: Let_def)
  with True show ?thesis by (rule idle)
next
  case False
  let ?st = "fill_slots opts st0" and ?k = "pick n mod length (cr_in_flight (fill_slots opts st0))"
  let ?p = "cr_in_flight ?st ! ?k"
  let ?out = "?st\<lparr>cr_in_flight := take ?k (cr_in_flight ?st) @ drop (Suc ?k) (cr_in_flight ?st)\<rparr>"
  have k: "?k < length (cr_in_flight ?st)" using False by simp
  have split: "cr_in_flight ?st = take ?k (cr_in_flight ?st) @ ?p # drop (Suc ?k) (cr_in_flight ?st)"
    using id_take_nth_drop [OF k] .
  have "mset (cr_in_flight ?st) = add_mset ?p (mset (take ?k (cr_in_flight ?st) @ drop (Suc ?k) (cr_in_flight ?st)))"
    by (subst split) (simp only: mset_append mset.simps union_mset_add_mset_right)
  then have "mset (waiting ?st) = add_mset ?p (mset (waiting ?out))" by (simp add: waiting_def add.assoc)
  then have ms: "mset (waiting st0) = add_mset ?p (mset (waiting ?out))" unfolding fill_slots_frame(2) .
  have "?p \<in> set (waiting ?st)" using nth_mem [OF k] by (simp add: waiting_def)
  then have mem: "?p \<in> set (waiting st0)" by (simp add: fill_slots_frame)
  have less: "crawl_measure ?out < crawl_measure st0" using take_out_measure [OF k] by simp
  have eq: "crawl lib root opts fetch pick n st0 =
        (case process_response lib root opts (snd ?p) (fetch n (fst ?p)) ?out of
           CrawlFail e \<Rightarrow> (Inl e, [?p])
         | CrawlStop st' \<Rightarrow> (Inr st', [?p])
         | CrawlOn st' \<Rightarrow> (case crawl lib root opts fetch pick (n + 1) st' of (r, fetched) \<Rightarrow> (r, ?p # fetched)))"
    using False by (subst crawl.simps) (simp only: Let_def if_False split_beta prod.collapse)
  show ?thesis
    by (rule turn [OF mem ms _ _ _ less eq]) (simp_all add: fill_slots_frame)
qed

lemma crawl_confined:
  assumes "files_inv lib root opts st0" "pages_inv lib root opts st0"
    and "crawl lib root opts fetch pick n st0 = (r, fetched)"
  shows "length fetched \<le> crawl_measure st0 \<and> distinct (map (page_key lib) fetched) \<and>
    (\<forall>p \<in> set fetched. (p \<in> set (waiting st0) \<or> page_key lib p \<notin> set (cr_seen st0)) \<and>
      is_url_in_scope (fst p) root opts (snd p)) \<and>
    (\<forall>st. r = Inr st \<longrightarrow> files_inv lib root opts st)"
  using assms
proof (induction "crawl_measure st0" arbitrary: st0 n r fetched rule: less_induct)
  case less
  show ?case
  proof (cases rule: round_cases [of opts st0 lib root fetch pick n])
    case idle
    then show ?thesis using less.prems by (auto simp: files_inv_def fill_slots_frame)
  next
    case (turn p st)
    have "mset (map (page_key lib) (waiting st0)) = mset (page_key lib p # map (page_key lib) (waiting st))"
      using turn(2) by simp
    then have "distinct (page_key lib p # map (page_key lib) (waiting st))"
      using less.prems(2) mset_eq_imp_distinct_iff unfolding pages_inv_def by blast
    then have fresh: "page_key lib p \<notin> page_key lib ` set (waiting st)" "distinct (map (page_key lib) (waiting st))"
      by simp_all
    have sub: "set (waiting st) \<subseteq> set (waiting st0)"
      using turn(2) by (metis set_mset_add_mset_insert set_mset_mset subset_insertI)
    have inv: "files_inv lib root opts st" "pages_inv lib root opts st"
      using less.prems(1, 2) turn(3, 4) sub fresh image_mono [OF sub, of "page_key lib"]
      unfolding files_inv_def pages_inv_def turn(3, 4) by (simp, blast)
    have p: "page_key lib p \<in> set (cr_seen st)" "is_url_in_scope (fst p) root opts (snd p)"
      using less.prems(2) turn(1, 3) by (auto simp: pages_inv_def)
    show ?thesis
    proof (cases "process_response lib root opts (snd p) (fetch n (fst p)) st")
      case (CrawlFail e)
      then show ?thesis using less.prems(3) turn p by auto
    next
      case (CrawlStop st')
      then have "files_inv lib root opts st'" using process_response_follows [OF inv] by (auto simp: follows_def)
      then show ?thesis using less.prems(3) turn p CrawlStop by auto
    next
      case (CrawlOn st')
      have f: "follows lib root opts st st'" using process_response_follows [OF inv] CrawlOn by blast
      obtain fs where fs: "crawl lib root opts fetch pick (n + 1) st' = (r, fs)" "fetched = p # fs"
        using less.prems(3) turn(7) CrawlOn by (auto split: prod.splits)
      have m: "crawl_measure st' < crawl_measure st0" using process_response_measure [OF CrawlOn] turn(6) by simp
      note IH = less.hyps [OF m _ _ fs(1)]
      have IH': "length fs \<le> crawl_measure st'" "distinct (map (page_key lib) fs)"
          "\<forall>q \<in> set fs. (q \<in> set (waiting st') \<or> page_key lib q \<notin> set (cr_seen st')) \<and> is_url_in_scope (fst q) root opts (snd q)"
          "\<forall>st. r = Inr st \<longrightarrow> files_inv lib root opts st"
        using IH f by (auto simp: follows_def)
      have origin: "q \<in> set (waiting st) \<or> page_key lib q \<notin> set (cr_seen st)" if "q \<in> set fs" for q
        using IH'(3) that f by (auto simp: follows_def)
      have "page_key lib p \<notin> page_key lib ` set fs"
      proof
        assume "page_key lib p \<in> page_key lib ` set fs"
        then obtain q where q: "q \<in> set fs" "page_key lib q = page_key lib p" by auto
        then show False using origin [OF q(1)] p(1) fresh(1) by (metis image_eqI)
      qed
      moreover have "\<forall>q \<in> set fs. q \<in> set (waiting st0) \<or> page_key lib q \<notin> set (cr_seen st0)"
        using origin sub turn(3) by auto
      ultimately show ?thesis using IH' m p turn(1) fs(2) by auto
    qed
  qed
qed

lemma start_inv:
  assumes "is_url_in_scope root root opts 0"
  shows "files_inv lib root opts \<lparr>cr_queue = [(root, 0)], cr_in_flight = [], cr_seen = [ul_show lib root],
      cr_discovered = [], cr_truncated = False\<rparr>"
    and "pages_inv lib root opts \<lparr>cr_queue = [(root, 0)], cr_in_flight = [], cr_seen = [ul_show lib root],
      cr_discovered = [], cr_truncated = False\<rparr>"
  using assms by (auto simp: files_inv_def pages_inv_def waiting_def page_key_def max_pages_def)

lemma discover_Inr:
  assumes "discover lib opts fetch pick root_url = (Inr m, fetched)"
  obtains root st where "root_of lib root_url = Inr root" "is_url_in_scope root root opts 0" "ro_concurrency opts \<noteq> 0"
    "crawl lib root opts fetch pick 0 \<lparr>cr_queue = [(root, 0)], cr_in_flight = [], cr_seen = [ul_show lib root],
      cr_discovered = [], cr_truncated = False\<rparr> = (Inr st, fetched)"
    "m = \<lparr>rm_root_url = ul_show lib root, rm_entries = map snd (cr_discovered st)\<rparr>"
  using assms that by (auto simp: discover_def split: sum.splits if_splits prod.splits)

text \<open>C38. Whatever the servers answer and in whatever order the fetches end, discovery ends, and its manifest is
  confined: at most 1024 pages are fetched, none twice and each in scope; at most 10000 files are listed, no
  two with the same path; every one of them lies in scope and is selected by the patterns, and its path,
  joined onto any directory, denotes a plain path strictly below that directory.\<close>

theorem discovery_confined:
  assumes "decode_law lib" and "discover lib opts fetch pick root_url = (Inr m, fetched)"
  shows "length fetched \<le> 1024 \<and> distinct (map (\<lambda>(u, d). ul_show lib u) fetched) \<and>
    length (rm_entries m) \<le> 10000 \<and> distinct (map re_path (rm_entries m)) \<and>
    (\<exists>root. root_of lib root_url = Inr root \<and>
      list_all (\<lambda>(u, d). is_url_in_scope u root opts d) fetched \<and>
      list_all (\<lambda>e. path_is_selected (re_path e) opts \<and>
        (\<exists>u d. re_url e = ul_show lib u \<and> is_url_in_scope u root opts d) \<and>
        (\<forall>base. \<exists>ns. ns \<noteq> [] \<and> resolve (path_push base (re_path e)) = resolve base @ ns \<and>
          list_all (\<lambda>n. n \<noteq> [] \<and> n \<noteq> ''.'' \<and> n \<noteq> ''..'' \<and> CHR ''/'' \<notin> set n) ns)) (rm_entries m))"
proof -
  obtain root st where root: "root_of lib root_url = Inr root" "is_url_in_scope root root opts 0"
    and run: "crawl lib root opts fetch pick 0 \<lparr>cr_queue = [(root, 0)], cr_in_flight = [], cr_seen = [ul_show lib root],
      cr_discovered = [], cr_truncated = False\<rparr> = (Inr st, fetched)"
    and m: "m = \<lparr>rm_root_url = ul_show lib root, rm_entries = map snd (cr_discovered st)\<rparr>"
    by (rule discover_Inr [OF assms(2)])
  note out = crawl_confined [OF start_inv [OF root(2), of lib] run]
  have len: "length fetched \<le> 1024" using out by (simp add: crawl_measure_def max_pages_def)
  have keys: "map (page_key lib) fetched = map (\<lambda>(u, d). ul_show lib u) fetched" by (auto simp: page_key_def)
  have files: "files_inv lib root opts st" using out by simp
  have paths: "map re_path (rm_entries m) = map fst (cr_discovered st)"
    using files by (auto simp: m files_inv_def)
  have entry: "entry_ok lib root opts e" if "e \<in> set (rm_entries m)" for e
    using files that by (auto simp: m files_inv_def)
  have safe: "\<exists>ns. ns \<noteq> [] \<and> resolve (path_push base (re_path e)) = resolve base @ ns \<and>
      list_all (\<lambda>n. n \<noteq> [] \<and> n \<noteq> ''.'' \<and> n \<noteq> ''..'' \<and> CHR ''/'' \<notin> set n) ns" if "e \<in> set (rm_entries m)" for e base
  proof -
    have ok: "check_relative_path (re_path e) = Inr ()"
      using entry [OF that] build_relative_path_accepted [OF _ assms(1)] by (auto simp: entry_ok_def)
    have "list_all (\<lambda>n. n \<noteq> [] \<and> n \<noteq> ''.'' \<and> n \<noteq> ''..'' \<and> CHR ''/'' \<notin> set n)
        (List.map_filter normal_name (path_components (re_path e)))"
      unfolding list_all_iff using normal_names_wf by blast
    then show ?thesis using accepted_resolve_push [OF ok, of base] accepted_names_nonempty [OF ok] by blast
  qed
  have "list_all (\<lambda>(u, d). is_url_in_scope u root opts d) fetched"
    using out by (auto simp: list_all_iff)
  moreover have "list_all (\<lambda>e. path_is_selected (re_path e) opts \<and> (\<exists>u d. re_url e = ul_show lib u \<and> is_url_in_scope u root opts d) \<and>
        (\<forall>base. \<exists>ns. ns \<noteq> [] \<and> resolve (path_push base (re_path e)) = resolve base @ ns \<and>
          list_all (\<lambda>n. n \<noteq> [] \<and> n \<noteq> ''.'' \<and> n \<noteq> ''..'' \<and> CHR ''/'' \<notin> set n) ns)) (rm_entries m)"
    unfolding list_all_iff using entry safe unfolding entry_ok_def list_all_iff by blast
  moreover have "length (rm_entries m) \<le> 10000" using files by (simp add: m files_inv_def max_files_def)
  moreover have "distinct (map re_path (rm_entries m))"
    unfolding paths using files om_sorted_distinct by (auto simp: files_inv_def)
  ultimately show ?thesis using len out root(1) unfolding keys by blast
qed

section \<open>Nothing is missed\<close>

definition entered :: "recursive_options \<Rightarrow> (string \<times> recursive_entry) list \<Rightarrow> string \<Rightarrow> string \<Rightarrow> bool" where
  "entered opts disc p url \<longleftrightarrow> (\<exists>e. map_of disc p = Some e \<and> (\<not> ro_overwrite opts \<longrightarrow> re_url e = url))"

definition link_done :: "url_library \<Rightarrow> url \<Rightarrow> recursive_options \<Rightarrow> url \<Rightarrow> nat \<Rightarrow> crawl_state \<Rightarrow> string \<Rightarrow> bool" where
  "link_done lib root opts final d st link \<longleftrightarrow>
    (\<forall>v. normalize_url lib link final = Inr v \<and> is_url_in_scope v root opts (d + 1) \<longrightarrow>
      (if ends_with_slash (u_path v)
       then d + 1 < ro_max_depth opts \<longrightarrow> cr_truncated st \<or> ul_show lib (v\<lparr>u_query := None\<rparr>) \<in> set (cr_seen st)
       else (\<forall>p. build_relative_path lib v root opts = Inr p \<and> path_is_selected p opts \<longrightarrow>
              entered opts (cr_discovered st) p (ul_show lib v))))"

text \<open>What later steps keep, and what is new among the pages seen.\<close>

definition keeps :: "recursive_options \<Rightarrow> crawl_state \<Rightarrow> crawl_state \<Rightarrow> bool" where
  "keeps opts st st' \<longleftrightarrow> set (cr_seen st) \<subseteq> set (cr_seen st') \<and> (cr_truncated st \<longrightarrow> cr_truncated st') \<and>
    (\<forall>p u. entered opts (cr_discovered st) p u \<longrightarrow> entered opts (cr_discovered st') p u) \<and>
    (cr_truncated st' \<longrightarrow> cr_truncated st \<or> max_pages \<le> card (set (cr_seen st')))"

definition extends :: "url_library \<Rightarrow> crawl_state \<Rightarrow> crawl_state \<Rightarrow> bool" where
  "extends lib st st' \<longleftrightarrow> set (waiting st) \<subseteq> set (waiting st') \<and>
    set (cr_seen st') \<subseteq> set (cr_seen st) \<union> page_key lib ` set (waiting st')"

lemma keeps_refl [simp]: "keeps opts st st"
  by (simp add: keeps_def)

lemma keeps_trans: "keeps opts a b \<Longrightarrow> keeps opts b c \<Longrightarrow> keeps opts a c"
  unfolding keeps_def by (meson List.finite_set card_mono le_trans order_trans)

lemma extends_refl [simp]: "extends lib st st"
  by (auto simp: extends_def)

lemma extends_trans: "extends lib a b \<Longrightarrow> extends lib b c \<Longrightarrow> extends lib a c"
  unfolding extends_def by blast

lemma link_done_keeps: "link_done lib root opts final d st link \<Longrightarrow> keeps opts st st' \<Longrightarrow> link_done lib root opts final d st' link"
  unfolding link_done_def keeps_def by (auto split: if_splits)

lemma insert_entry_entered:
  assumes "insert_entry disc e opts = Inr disc'"
  shows "entered opts disc' (re_path e) (re_url e)" and "entered opts disc p u \<Longrightarrow> entered opts disc' p u"
  using assms by (auto simp: insert_entry_def Let_def entered_def split: option.splits if_splits)

lemma discover_file_done:
  assumes "discover_file lib root opts url size_hint st = CrawlOn st'"
  shows "keeps opts st st'" and "extends lib st st'"
    and "build_relative_path lib url root opts = Inr p \<Longrightarrow> path_is_selected p opts \<Longrightarrow>
      entered opts (cr_discovered st') p (ul_show lib url)"
proof -
  let ?e = "\<lambda>p. \<lparr>re_url = ul_show lib url, re_path = p, re_size = size_hint\<rparr>"
  obtain q where q: "build_relative_path lib url root opts = Inr q"
    using assms by (cases "build_relative_path lib url root opts") (simp_all add: discover_file_def)
  have "st' = st \<and> \<not> path_is_selected q opts \<or>
      (\<exists>disc. insert_entry (cr_discovered st) (?e q) opts = Inr disc \<and> st' = st\<lparr>cr_discovered := disc\<rparr>)"
    using assms q by (auto simp: discover_file_def split: sum.splits if_splits)
  then consider "st' = st" "\<not> path_is_selected q opts"
    | disc where "insert_entry (cr_discovered st) (?e q) opts = Inr disc" "st' = st\<lparr>cr_discovered := disc\<rparr>"
    by blast
  then have "keeps opts st st' \<and> extends lib st st' \<and> (path_is_selected q opts \<longrightarrow> entered opts (cr_discovered st') q (ul_show lib url))"
  proof cases
    case 2
    then show ?thesis using insert_entry_entered [OF 2(1)] by (auto simp: keeps_def extends_def waiting_def)
  qed simp
  then show "keeps opts st st'" "extends lib st st'"
    "build_relative_path lib url root opts = Inr p \<Longrightarrow> path_is_selected p opts \<Longrightarrow> entered opts (cr_discovered st') p (ul_show lib url)"
    using q by auto
qed

lemma discover_file_stop:
  "discover_file lib root opts url size_hint st = CrawlStop st' \<Longrightarrow> max_files \<le> length (cr_discovered st')"
  by (auto simp: discover_file_def split: sum.splits if_splits)

lemma discover_page_done:
  assumes "distinct (cr_seen st)"
  shows "keeps opts st (discover_page lib opts d url st)" and "extends lib st (discover_page lib opts d url st)"
    and "distinct (cr_seen (discover_page lib opts d url st))"
    and "d + 1 < ro_max_depth opts \<Longrightarrow> cr_truncated (discover_page lib opts d url st) \<or>
      ul_show lib (url\<lparr>u_query := None\<rparr>) \<in> set (cr_seen (discover_page lib opts d url st))"
  using assms by (auto simp: discover_page_def Let_def keeps_def extends_def waiting_def page_key_def distinct_card)

lemma process_links_done:
  "process_links lib root opts final d links st = CrawlOn st' \<Longrightarrow> distinct (cr_seen st) \<Longrightarrow>
   keeps opts st st' \<and> extends lib st st' \<and> distinct (cr_seen st') \<and> (\<forall>l \<in> set links. link_done lib root opts final d st' l)"
proof (induction links arbitrary: st)
  case (Cons link links)
  have step: "keeps opts st st' \<and> extends lib st st' \<and> distinct (cr_seen st') \<and> (\<forall>l \<in> set (link # links). link_done lib root opts final d st' l)"
    if "process_links lib root opts final d links st1 = CrawlOn st'" "keeps opts st st1" "extends lib st st1"
      "distinct (cr_seen st1)" "link_done lib root opts final d st1 link" for st1
    using Cons.IH [OF that(1, 4)] that keeps_trans extends_trans link_done_keeps by (metis set_ConsD)
  show ?case
  proof (cases "normalize_url lib link final")
    case (Inl e)
    then show ?thesis using Cons.prems by (intro step [of st]) (simp_all add: link_done_def)
  next
    case (Inr url)
    show ?thesis
    proof (cases "is_url_in_scope url root opts (d + 1)")
      case False
      then show ?thesis using Cons.prems Inr by (intro step [of st]) (simp_all add: link_done_def)
    next
      case scope: True
      show ?thesis
      proof (cases "ends_with_slash (u_path url)")
        case True
        then show ?thesis
          using Cons.prems Inr scope discover_page_done [OF Cons.prems(2), where opts = opts and lib = lib and d = d and url = url]
          by (intro step [of "discover_page lib opts d url st"]) (simp_all add: link_done_def)
      next
        case slash: False
        then obtain st1 where st1: "discover_file lib root opts url None st = CrawlOn st1"
          and rest: "process_links lib root opts final d links st1 = CrawlOn st'"
          using Cons.prems(1) Inr scope by (auto split: crawl_step.splits)
        have seen: "cr_seen st1 = cr_seen st" using discover_file_frame st1 by blast
        show ?thesis
          using Cons.prems(2) Inr slash seen discover_file_done [OF st1]
          by (intro step [OF rest]) (simp_all add: link_done_def)
      qed
    qed
  qed
qed simp

lemma process_links_stop:
  "process_links lib root opts final d links st = CrawlStop st' \<Longrightarrow> max_files \<le> length (cr_discovered st')"
proof (induction links arbitrary: st)
  case (Cons link links)
  then show ?case using discover_file_stop by (auto split: sum.splits if_splits crawl_step.splits)
qed simp

text \<open>A page is done when everything it links to is, or the file it turned out to be is entered.\<close>

definition page_done ::
  "url_library \<Rightarrow> url \<Rightarrow> recursive_options \<Rightarrow> (url \<Rightarrow> discovery_response result) \<Rightarrow> crawl_state \<Rightarrow> url \<times> nat \<Rightarrow> bool"
where
  "page_done lib root opts site st p \<longleftrightarrow>
    (\<forall>r html. site (fst p) = Inr r \<and> dr_html r = Some html \<and> snd p < ro_max_depth opts \<longrightarrow>
      (\<forall>l \<in> set (ul_links lib html). link_done lib root opts (dr_final_url r) (snd p) st l))"

lemma page_done_keeps: "page_done lib root opts site st p \<Longrightarrow> keeps opts st st' \<Longrightarrow> page_done lib root opts site st' p"
  unfolding page_done_def using link_done_keeps by blast

lemma process_response_done:
  assumes "process_response lib root opts (snd p) (site (fst p)) st = CrawlOn st'" and "distinct (cr_seen st)"
  shows "keeps opts st st' \<and> extends lib st st' \<and> distinct (cr_seen st') \<and> page_done lib root opts site st' p"
proof (cases "site (fst p)")
  case (Inl e)
  then show ?thesis using assms by (auto simp: process_response_def page_done_def split: if_splits)
next
  case (Inr r)
  show ?thesis
  proof (cases "dr_html r")
    case None
    then have d: "discover_file lib root opts (dr_final_url r) (dr_size_hint r) st = CrawlOn st'"
      using assms(1) Inr by (auto simp: process_response_def split: if_splits)
    then have "cr_seen st' = cr_seen st" using discover_file_frame by blast
    then show ?thesis using discover_file_done [OF d] assms(2) Inr None by (simp add: page_done_def)
  next
    case (Some html)
    then show ?thesis
      using assms Inr process_links_done [of lib root opts "dr_final_url r" "snd p" "ul_links lib html" st st']
      by (auto simp: process_response_def page_done_def split: if_splits)
  qed
qed

lemma process_response_stop:
  "process_response lib root opts d r st = CrawlStop st' \<Longrightarrow> max_files \<le> length (cr_discovered st')"
  using process_links_stop discover_file_stop
  by (auto simp: process_response_def split: sum.splits if_splits option.splits)

lemma crawl_done:
  assumes "crawl lib root opts (\<lambda>_. site) pick n st0 = (Inr st', fetched)"
    and "length (cr_discovered st') < max_files" and "ro_concurrency opts \<noteq> 0" and "distinct (cr_seen st0)"
  shows "keeps opts st0 st' \<and> (\<forall>p \<in> set fetched. page_done lib root opts site st' p) \<and> set (waiting st0) \<subseteq> set fetched \<and>
    set (cr_seen st') \<subseteq> set (cr_seen st0) \<union> page_key lib ` set fetched"
  using assms
proof (induction "crawl_measure st0" arbitrary: st0 n fetched rule: less_induct)
  case less
  show ?case
  proof (cases rule: round_cases [of opts st0 lib root "\<lambda>_. site" pick n])
    case idle
    have "waiting (fill_slots opts st0) = []"
    proof (cases "cr_queue st0")
      case Nil
      then show ?thesis using idle(1) by (simp add: fill_slots_def waiting_def Let_def)
    next
      case (Cons x xs)
      then show ?thesis using idle(1) less.prems(3) by (cases "ro_concurrency opts") (auto simp: fill_slots_def waiting_def Let_def)
    qed
    then show ?thesis using idle less.prems(1) fill_slots_frame [of opts st0] by (auto simp: keeps_def)
  next
    case (turn p st)
    have sub: "set (waiting st0) = insert p (set (waiting st))"
      using turn(2) by (metis set_mset_add_mset_insert set_mset_mset)
    have same: "keeps opts st0 st" using turn(3-5) by (simp add: keeps_def)
    show ?thesis
    proof (cases "process_response lib root opts (snd p) (site (fst p)) st")
      case (CrawlFail e)
      then show ?thesis using less.prems(1) turn(7) by simp
    next
      case (CrawlStop st1)
      then show ?thesis using less.prems(1, 2) turn(7) process_response_stop [OF CrawlStop] by simp
    next
      case (CrawlOn st1)
      obtain fs where fs: "crawl lib root opts (\<lambda>_. site) pick (n + 1) st1 = (Inr st', fs)" "fetched = p # fs"
        using less.prems(1) turn(7) CrawlOn by (auto split: prod.splits)
      have d: "keeps opts st st1" "extends lib st st1" "distinct (cr_seen st1)" "page_done lib root opts site st1 p"
        using process_response_done [where site = site and p = p and st = st, of lib root opts st1] CrawlOn less.prems(4) turn(3) by simp_all
      have m: "crawl_measure st1 < crawl_measure st0" using process_response_measure [OF CrawlOn] turn(6) by simp
      note IH = less.hyps [OF m fs(1) less.prems(2, 3) d(3)]
      have "keeps opts st0 st'" using IH same d(1) keeps_trans by blast
      moreover have "page_done lib root opts site st' p" using page_done_keeps [OF d(4)] IH by blast
      moreover have "page_key lib ` set (waiting st1) \<subseteq> page_key lib ` set fs" using IH by (intro image_mono) simp
      then have "set (cr_seen st') \<subseteq> set (cr_seen st0) \<union> page_key lib ` set fs"
        using IH d(2) turn(3) unfolding extends_def by (simp only:) blast
      ultimately show ?thesis using IH d(2) sub unfolding extends_def fs(2) by auto
    qed
  qed
qed

text \<open>C39. Discovery misses nothing. When it stays below its limits, then whatever the order in which fetches ended,
  every link of every page that was fetched, if it is in scope, is taken up: a file that the patterns select is
  in the manifest, under its URL unless files may overwrite each other, and a directory within the depth was
  itself fetched.\<close>

theorem discovery_complete:
  assumes "discover lib opts (\<lambda>_. site) pick root_url = (Inr m, fetched)"
    and "length (rm_entries m) < 10000" and "length fetched < 1024" and "root_of lib root_url = Inr root"
    and "(u, d) \<in> set fetched" and "site u = Inr r" and "dr_html r = Some html" and "d < ro_max_depth opts"
    and "link \<in> set (ul_links lib html)" and "normalize_url lib link (dr_final_url r) = Inr v"
    and "is_url_in_scope v root opts (d + 1)"
  shows "if ends_with_slash (u_path v)
    then d + 1 < ro_max_depth opts \<longrightarrow> (\<exists>p \<in> set fetched. ul_show lib (fst p) = ul_show lib (v\<lparr>u_query := None\<rparr>))
    else (\<forall>p. build_relative_path lib v root opts = Inr p \<and> path_is_selected p opts \<longrightarrow>
      (\<exists>e \<in> set (rm_entries m). re_path e = p \<and> (\<not> ro_overwrite opts \<longrightarrow> re_url e = ul_show lib v)))"
proof -
  let ?st0 = "\<lparr>cr_queue = [(root, 0)], cr_in_flight = [], cr_seen = [ul_show lib root], cr_discovered = [], cr_truncated = False\<rparr>"
  obtain st where conc: "ro_concurrency opts \<noteq> 0" and scope: "is_url_in_scope root root opts 0"
    and run: "crawl lib root opts (\<lambda>_. site) pick 0 ?st0 = (Inr st, fetched)"
    and m: "m = \<lparr>rm_root_url = ul_show lib root, rm_entries = map snd (cr_discovered st)\<rparr>"
    using discover_Inr [OF assms(1)] assms(4) by (metis sum.inject(2))
  have files: "files_inv lib root opts st" using crawl_confined [OF start_inv [OF scope] run] by simp
  have out: "keeps opts ?st0 st" "\<forall>p \<in> set fetched. page_done lib root opts site st p" "(root, 0) \<in> set fetched"
      "set (cr_seen st) \<subseteq> insert (ul_show lib root) (page_key lib ` set fetched)"
    using crawl_done [OF run _ conc] assms(2) by (simp_all add: m max_files_def waiting_def)
  have seen: "set (cr_seen st) \<subseteq> page_key lib ` set fetched"
    using out(3, 4) by (force simp: page_key_def)
  have "card (set (cr_seen st)) \<le> length fetched"
    using seen by (metis List.finite_set card_image_le card_length card_mono finite_imageI le_trans)
  then have "\<not> cr_truncated st" using out(1) assms(3) by (auto simp: keeps_def max_pages_def)
  moreover have "link_done lib root opts (dr_final_url r) d st link"
    using out(2) assms(5-9) by (fastforce simp: page_done_def)
  ultimately show ?thesis
  proof -
    assume trunc: "\<not> cr_truncated st" and link: "link_done lib root opts (dr_final_url r) d st link"
    show ?thesis
    proof (cases "ends_with_slash (u_path v)")
      case True
      then have "d + 1 < ro_max_depth opts \<longrightarrow> ul_show lib (v\<lparr>u_query := None\<rparr>) \<in> set (cr_seen st)"
        using link trunc assms(10, 11) by (simp add: link_done_def)
      then show ?thesis using True seen by (force simp: page_key_def)
    next
      case False
      have "\<exists>e \<in> set (rm_entries m). re_path e = p \<and> (\<not> ro_overwrite opts \<longrightarrow> re_url e = ul_show lib v)"
        if p: "build_relative_path lib v root opts = Inr p" "path_is_selected p opts" for p
      proof -
        have "entered opts (cr_discovered st) p (ul_show lib v)"
          using link False assms(10, 11) p by (simp add: link_done_def)
        then obtain e where e: "map_of (cr_discovered st) p = Some e" "\<not> ro_overwrite opts \<longrightarrow> re_url e = ul_show lib v"
          by (auto simp: entered_def)
        from map_of_SomeD [OF e(1)] have "(p, e) \<in> set (cr_discovered st)" .
        then have "e \<in> set (rm_entries m)" "re_path e = p" using files by (force simp: m files_inv_def)+
        then show ?thesis using e(2) by blast
      qed
      then show ?thesis using False by simp
    qed
  qed
qed

section \<open>A site\<close>

text \<open>A small site, for pages whose text lists the paths they link to.\<close>

definition demo_url :: "string \<Rightarrow> url" where
  "demo_url p =
    \<lparr>u_scheme = ''http'', u_user = [], u_host = ''h'', u_port = 80, u_path = p, u_query = None, u_fragment = None\<rparr>"

definition demo_lib :: url_library where
  "demo_lib =
    \<lparr>ul_parse = (\<lambda>s. Inr (demo_url s)), ul_join = (\<lambda>_ s. Inr (demo_url s)), ul_show = u_path, ul_decode = Some,
     ul_links = split_char CHR '' ''\<rparr>"

definition demo_site :: "url \<Rightarrow> discovery_response result" where
  "demo_site u =
    Inr \<lparr>dr_final_url = u,
      dr_html = Some (if u_path u = ''/'' then ''/a/ /b/'' else if u_path u = ''/a/'' then ''/x/''
        else if u_path u = ''/b/'' \<or> u_path u = ''/x/'' then ''/d/'' else if u_path u = ''/d/'' then ''/d/e/'' else ''/f''),
      dr_size_hint = None\<rparr>"

definition demo_opts :: recursive_options where
  "demo_opts = default_recursive\<lparr>ro_max_depth := 4\<rparr>"

lemma demo_root: "root_of demo_lib ''/'' = Inr (demo_url ''/'')"
  by (simp add: root_of_def demo_lib_def normalize_url_def demo_url_def normalize_path_def ends_with_slash_def)

lemma demo_decode: "decode_law demo_lib"
  by (simp add: decode_law_def demo_lib_def)

lemmas crawl_eval =
  fill_slots_def process_response_def discover_file_def discover_page_def build_relative_path_def
  normalized_scope_prefix_def normalize_path_def normalize_url_def is_url_in_scope_def same_origin_def
  path_within_prefix_def relative_candidate_def path_is_selected_def insert_entry_def demo_url_def demo_lib_def
  demo_site_def demo_opts_def default_recursive_def ends_with_slash_def starts_with_def trim_slashes_def
  path_push_def path_components_def path_names_def component_of_def is_absolute_def max_pages_def max_files_def

lemma demo_in_order:
  "discover demo_lib demo_opts (\<lambda>_. demo_site) (\<lambda>_. 0) ''/'' =
    (Inr \<lparr>rm_root_url = ''/'', rm_entries = [\<lparr>re_url = ''/f'', re_path = ''f'', re_size = None\<rparr>]\<rparr>,
     map (\<lambda>(p, d). (demo_url p, d)) [(''/'', 0), (''/a/'', 1), (''/b/'', 1), (''/x/'', 2), (''/d/'', 2), (''/d/e/'', 3)])"
  unfolding discover_def demo_root by (simp add: crawl.simps crawl_eval)

text \<open>The manifest depends on timing. A directory reached on two ways keeps the depth of the one that was
  followed first, so the same site, limited to depth 4, yields the file \<open>f\<close> when fetches end in the order they
  were started, and nothing when one fetch is overtaken by another.\<close>

lemma discovery_depends_on_timing:
  "discover demo_lib demo_opts (\<lambda>_. demo_site) (\<lambda>_. 0) ''/'' =
     (Inr \<lparr>rm_root_url = ''/'', rm_entries = [\<lparr>re_url = ''/f'', re_path = ''f'', re_size = None\<rparr>]\<rparr>,
      map (\<lambda>(p, d). (demo_url p, d)) [(''/'', 0), (''/a/'', 1), (''/b/'', 1), (''/x/'', 2), (''/d/'', 2), (''/d/e/'', 3)]) \<and>
   discover demo_lib demo_opts (\<lambda>_. demo_site) (\<lambda>n. if n = 2 then 1 else 0) ''/'' =
     (Inr \<lparr>rm_root_url = ''/'', rm_entries = []\<rparr>,
      map (\<lambda>(p, d). (demo_url p, d)) [(''/'', 0), (''/a/'', 1), (''/x/'', 2), (''/b/'', 1), (''/d/'', 3)])"
  by (intro conjI demo_in_order) (unfold discover_def demo_root, simp add: crawl.simps crawl_eval)

lemma discovery_confined_witness:
  "\<exists>root. root_of demo_lib ''/'' = Inr root \<and> is_url_in_scope (demo_url ''/d/'') root demo_opts 2"
  using discovery_confined [OF demo_decode demo_in_order] by auto

lemma discovery_complete_witness:
  "\<exists>p \<in> set (map (\<lambda>(p, d). (demo_url p, d))
      [(''/'', 0), (''/a/'', 1), (''/b/'', 1), (''/x/'', 2), (''/d/'', 2), (''/d/e/'', 3 :: nat)]). u_path (fst p) = ''/d/e/''"
proof -
  have "if ends_with_slash (u_path (demo_url ''/d/e/''))
    then 2 + 1 < ro_max_depth demo_opts \<longrightarrow>
      (\<exists>p \<in> set (map (\<lambda>(p, d). (demo_url p, d)) [(''/'', 0), (''/a/'', 1), (''/b/'', 1), (''/x/'', 2), (''/d/'', 2), (''/d/e/'', 3 :: nat)]).
        ul_show demo_lib (fst p) = ul_show demo_lib ((demo_url ''/d/e/'')\<lparr>u_query := None\<rparr>))
    else (\<forall>p. build_relative_path demo_lib (demo_url ''/d/e/'') (demo_url ''/'') demo_opts = Inr p \<and> path_is_selected p demo_opts \<longrightarrow>
      (\<exists>e \<in> set (rm_entries \<lparr>rm_root_url = ''/'', rm_entries = [\<lparr>re_url = ''/f'', re_path = ''f'', re_size = None\<rparr>]\<rparr>).
        re_path e = p \<and> (\<not> ro_overwrite demo_opts \<longrightarrow> re_url e = ul_show demo_lib (demo_url ''/d/e/''))))"
    by (rule discovery_complete [OF demo_in_order _ _ demo_root, where u = "demo_url ''/d/''" and d = 2 and link = "''/d/e/''"
          and html = "''/d/e/''" and r = "\<lparr>dr_final_url = demo_url ''/d/'', dr_html = Some ''/d/e/'', dr_size_hint = None\<rparr>"])
      (simp_all add: demo_site_def crawl_eval)
  then show ?thesis by (simp add: crawl_eval)
qed

end
