(* ===== verification/Text.thy ===== *)
theory Text
  imports Prelude
begin

text \<open>
  Text functions of the standard library that several parsers share: \<open>str::trim\<close>, which strips the
  characters with the Unicode property White_Space, here in their UTF-8 form, and \<open>str::lines\<close>.
\<close>

definition white_space :: "string list" where
  "white_space =
    [[CHR 0x09], [CHR 0x0A], [CHR 0x0B], [CHR 0x0C], [CHR 0x0D], [CHR 0x20], [CHR 0xC2, CHR 0x85], [CHR 0xC2, CHR 0xA0],
     [CHR 0xE1, CHR 0x9A, CHR 0x80], [CHR 0xE2, CHR 0x80, CHR 0xA8], [CHR 0xE2, CHR 0x80, CHR 0xA9],
     [CHR 0xE2, CHR 0x80, CHR 0xAF], [CHR 0xE2, CHR 0x81, CHR 0x9F], [CHR 0xE3, CHR 0x80, CHR 0x80]]
    @ map (\<lambda>n. [CHR 0xE2, CHR 0x80, char_of (0x80 + n)]) [0..<11]"

function trim_front :: "string list \<Rightarrow> string \<Rightarrow> string" where
  "trim_front ws s =
    (if s = [] then []
     else (case List.find (\<lambda>w. starts_with w s) ws of
             Some w \<Rightarrow> trim_front ws (drop (max 1 (length w)) s)
           | None \<Rightarrow> s))"
  by pat_completeness auto
termination by (relation "measure (\<lambda>(ws, s). length s)") auto

declare trim_front.simps [simp del]

definition trim :: "string \<Rightarrow> string" where
  "trim s = rev (trim_front (map rev white_space) (rev (trim_front white_space s)))"

text \<open>Text that begins and ends with a plain ASCII character is left alone.\<close>

definition no_white :: "char \<Rightarrow> bool" where
  "no_white c \<longleftrightarrow> of_char c < (0x80 :: nat) \<and> of_char c \<notin> {9, 10, 11, 12, 13, 32 :: nat}"

lemma white_space_ends:
  "w \<in> set white_space \<Longrightarrow> w \<noteq> [] \<and> \<not> no_white (hd w) \<and> \<not> no_white (last w)"
  by (auto simp: white_space_def no_white_def)

lemma trim_front_plain: "\<forall>w \<in> set ws. w \<noteq> [] \<and> \<not> no_white (hd w) \<Longrightarrow> s = [] \<or> no_white (hd s) \<Longrightarrow> trim_front ws s = s"
proof -
  assume ws: "\<forall>w \<in> set ws. w \<noteq> [] \<and> \<not> no_white (hd w)" and s: "s = [] \<or> no_white (hd s)"
  show "trim_front ws s = s"
  proof (cases "s = []")
    case False
    have "\<not> starts_with w s" if "w \<in> set ws" for w
      using ws s False that by (cases w) (auto simp: starts_with_iff)
    then have "List.find (\<lambda>w. starts_with w s) ws = None" by (simp add: find_None_iff)
    then show ?thesis by (subst trim_front.simps) simp
  qed (simp add: trim_front.simps)
qed

lemma trim_plain: "s = [] \<or> no_white (hd s) \<and> no_white (last s) \<Longrightarrow> trim s = s"
proof -
  assume s: "s = [] \<or> no_white (hd s) \<and> no_white (last s)"
  have "trim_front white_space s = s" using s white_space_ends by (intro trim_front_plain) auto
  moreover have "trim_front (map rev white_space) (rev s) = rev s"
    using s white_space_ends by (intro trim_front_plain) (auto simp: hd_rev)
  ultimately show ?thesis by (simp add: trim_def)
qed

lemma trim_space: "s = [] \<or> no_white (hd s) \<and> no_white (last s) \<Longrightarrow> trim (CHR '' '' # s) = s"
proof -
  assume s: "s = [] \<or> no_white (hd s) \<and> no_white (last s)"
  have "List.find (\<lambda>w. starts_with w (CHR '' '' # s)) white_space = Some '' ''"
    by (simp add: white_space_def starts_with_def)
  then have "trim_front white_space (CHR '' '' # s) = trim_front white_space s"
    by (subst trim_front.simps) simp
  then show ?thesis using trim_plain [OF s] by (simp add: trim_def)
qed

definition strip_cr :: "string \<Rightarrow> string" where
  "strip_cr l = (if l \<noteq> [] \<and> last l = CHR 0x0D then butlast l else l)"

definition lines_of :: "string \<Rightarrow> string list" where
  "lines_of s =
    (let ps = split_char CHR 0x0A s in map strip_cr (if last ps = [] then butlast ps else ps))"

lemma lines_of_line: "CHR 0x0A \<notin> set l \<Longrightarrow> lines_of (l @ CHR 0x0D # CHR 0x0A # s) = l # lines_of s"
proof -
  assume l: "CHR 0x0A \<notin> set l"
  have "split_char CHR 0x0A ((l @ [CHR 0x0D]) @ CHR 0x0A # s) = (l @ [CHR 0x0D]) # split_char CHR 0x0A s"
    unfolding split_char_append using l split_char_absent [of "CHR 0x0A" "l @ [CHR 0x0D]"] by simp
  then show ?thesis by (simp add: lines_of_def strip_cr_def Let_def)
qed

lemma lines_of_nil [simp]: "lines_of [] = []"
  by (simp add: lines_of_def)

end
