(* ===== verification/Lpd.thy ===== *)
theory Lpd
  imports Text Tracker
begin

text \<open>
  Local peer discovery (\<open>src/torrent/lpd.rs\<close>): the multicast announcement, its parser, and the service
  with the set of torrents it announces. A send to the multicast group succeeds or fails as an argument says.
\<close>

record local_peer =
  lp_addr :: sock_addr
  lp_info_hash :: bytes

definition lpd_port :: nat where "lpd_port = 6771"
definition lpd_multicast_addr :: bytes where "lpd_multicast_addr = [239, 192, 152, 143]"

definition crlf :: string where
  "crlf = [CHR 0x0D, CHR 0x0A]"

definition build_announce_message :: "bytes \<Rightarrow> 16 word \<Rightarrow> string" where
  "build_announce_message info_hash port =
    ''BT-SEARCH * HTTP/1.1'' @ crlf
    @ (''Host: '' @ show_ipv4 lpd_multicast_addr @ '':'' @ show_nat lpd_port) @ crlf
    @ (''Port: '' @ show_nat (unat port)) @ crlf
    @ (''Infohash: '' @ hex_encode info_hash) @ crlf
    @ crlf"

text \<open>\<open>hex::decode\<close>, which takes pairs of hexadecimal digits only.\<close>

fun hex_decode_strict :: "string \<Rightarrow> bytes option" where
  "hex_decode_strict [] = Some []"
| "hex_decode_strict [c] = None"
| "hex_decode_strict (c # d # s) =
    (case (hex_val c, hex_val d) of
       (Some h, Some l) \<Rightarrow> map_option ((#) (of_nat (16 * h + l))) (hex_decode_strict s)
     | _ \<Rightarrow> None)"

fun announce_line :: "string \<Rightarrow> 16 word option \<times> string option \<Rightarrow> 16 word option \<times> string option" where
  "announce_line line (port, hash) =
    (let line = trim line in
     case strip_prefix ''Port:'' line of
       Some v \<Rightarrow> (map_option of_nat (parse_unsigned (2 ^ 16) (trim v)), hash)
     | None \<Rightarrow>
         (case strip_prefix ''Infohash:'' line of
            Some v \<Rightarrow> (port, Some (trim v))
          | None \<Rightarrow> (port, hash)))"

text \<open>\<open>Ipv4Addr::is_loopback\<close>, \<open>is_private\<close> and \<open>is_link_local\<close>, by the address as a number.\<close>

fun is_local_address :: "sock_addr \<Rightarrow> bool" where
  "is_local_address (SockV4 ip _) \<longleftrightarrow>
    drop_bit 24 ip = 127 \<or>
    drop_bit 24 ip = 10 \<or> drop_bit 20 ip = 0xAC1 \<or> drop_bit 16 ip = 0xC0A8 \<or>
    drop_bit 16 ip = 0xA9FE"
| "is_local_address (SockV6 ip _ _ _) \<longleftrightarrow> ip = 1"

fun with_port :: "sock_addr \<Rightarrow> 16 word \<Rightarrow> sock_addr" where
  "with_port (SockV4 ip _) p = SockV4 ip p"
| "with_port (SockV6 ip _ _ _) p = SockV6 ip p 0 0"

definition parse_announce :: "bytes \<Rightarrow> sock_addr \<Rightarrow> 16 word \<Rightarrow> local_peer option" where
  "parse_announce data source our_port =
    (case from_utf8 data of
       None \<Rightarrow> None
     | Some text \<Rightarrow>
         if \<not> starts_with ''BT-SEARCH'' text then None
         else
           (case fold announce_line (lines_of text) (None, None) of
              (Some peer_port, Some hash_str) \<Rightarrow>
                if length hash_str \<noteq> 40 then None
                else (case hex_decode_strict hash_str of
                        None \<Rightarrow> None
                      | Some decoded \<Rightarrow>
                          if length decoded < 20 then None
                          else if peer_port = our_port \<and> is_local_address source then None
                          else Some \<lparr>lp_addr = with_port source peer_port, lp_info_hash = take 20 decoded\<rparr>)
            | _ \<Rightarrow> None))"

section \<open>The service\<close>

record lpd_service =
  ls_listen_port :: "16 word"
  ls_running :: bool
  ls_tracked :: "bytes list"
  ls_sent :: "string list"

definition lpd_new :: "16 word \<Rightarrow> lpd_service" where
  "lpd_new port = \<lparr>ls_listen_port = port, ls_running = True, ls_tracked = [], ls_sent = []\<rparr>"

definition lpd_track :: "bytes \<Rightarrow> lpd_service \<Rightarrow> lpd_service" where
  "lpd_track h s = s\<lparr>ls_tracked := List.insert h (ls_tracked s)\<rparr>"

definition lpd_untrack :: "bytes \<Rightarrow> lpd_service \<Rightarrow> lpd_service" where
  "lpd_untrack h s = s\<lparr>ls_tracked := filter (\<lambda>x. x \<noteq> h) (ls_tracked s)\<rparr>"

text \<open>\<open>send\<close> says whether the send succeeds, or gives the text of its error.\<close>

definition lpd_announce :: "(string \<Rightarrow> string + unit) \<Rightarrow> bytes \<Rightarrow> lpd_service \<Rightarrow> unit result \<times> lpd_service" where
  "lpd_announce send h s =
    (if \<not> ls_running s then (Inl (err_protocol LpdError ''LPD service is not running''), s)
     else
       (let message = build_announce_message h (ls_listen_port s) in
        case send message of
          Inl e \<Rightarrow> (Inl (err_protocol LpdError (''Failed to send LPD announce: '' @ e)), s)
        | Inr _ \<Rightarrow> (Inr (), s\<lparr>ls_sent := ls_sent s @ [message]\<rparr>)))"

fun announce_each :: "(string \<Rightarrow> string + unit) \<Rightarrow> bytes list \<Rightarrow> lpd_service \<Rightarrow> unit result list \<times> lpd_service" where
  "announce_each send [] s = ([], s)"
| "announce_each send (h # hs) s =
    (let (r, s) = lpd_announce send h s; (rs, s) = announce_each send hs s in (r # rs, s))"

definition lpd_announce_all :: "(string \<Rightarrow> string + unit) \<Rightarrow> lpd_service \<Rightarrow> unit result list \<times> lpd_service" where
  "lpd_announce_all send s = announce_each send (ls_tracked s) s"

definition lpd_shutdown :: "lpd_service \<Rightarrow> lpd_service" where
  "lpd_shutdown s = s\<lparr>ls_running := False\<rparr>"

section \<open>Announcements are understood\<close>

lemma hex_decode_strict_encode: "hex_decode_strict (hex_encode bs) = Some bs"
proof (induction bs)
  case (Cons b bs)
  have "16 * (unat b div 16) + unat b mod 16 = unat b" by simp
  then show ?case using Cons by (simp add: hex_byte_def)
qed simp

lemma digit_no_white: "is_digit c \<Longrightarrow> no_white c"
  by (auto simp: is_digit_def no_white_def less_eq_char_def)

lemma show_nat_no_white: "no_white (hd (show_nat n)) \<and> no_white (last (show_nat n))"
  using show_nat_digits [of n] digit_no_white last_in_set [OF show_nat_nonempty [of n]] hd_in_set [OF show_nat_nonempty [of n]]
  by blast

lemma hex_char_no_white: "d < 16 \<Longrightarrow> no_white (hex_char d) \<and> hex_char d \<noteq> CHR 0x0A"
  by (erule lt16_cases) (simp_all add: hex_char_def no_white_def)

lemma hex_encode_chars: "c \<in> set (hex_encode bs) \<Longrightarrow> no_white c \<and> c \<noteq> CHR 0x0A \<and> byte_of c < 0x80"
proof (induction bs)
  case (Cons b bs)
  then show ?case using hex_char_no_white [of "unat b div 16"] hex_char_no_white [of "unat b mod 16"]
    by (auto simp: hex_byte_def)
qed simp

lemma hex_encode_no_white: "bs \<noteq> [] \<Longrightarrow> no_white (hd (hex_encode bs)) \<and> no_white (last (hex_encode bs))"
proof -
  assume "bs \<noteq> []"
  then have "hex_encode bs \<noteq> []" using length_hex_encode [of bs] by (metis length_0_conv mult_eq_0_iff zero_neq_numeral)
  then show ?thesis using hex_encode_chars hd_in_set last_in_set by blast
qed

lemma show_nat_no_newline: "CHR 0x0A \<notin> set (show_nat n)"
  by (rule show_nat_non_digit) (simp add: is_digit_def)

text \<open>The message, line by line.\<close>

lemma announce_lines:
  "lines_of (build_announce_message h p) =
    [''BT-SEARCH * HTTP/1.1'', ''Host: '' @ show_ipv4 lpd_multicast_addr @ '':'' @ show_nat lpd_port,
     ''Port: '' @ show_nat (unat p), ''Infohash: '' @ hex_encode h, []]"
proof -
  have nl: "CHR 0x0A \<notin> set (show_ipv4 a)" for a using show_nat_no_newline by (auto simp: show_ipv4_def)
  have hx: "CHR 0x0A \<notin> set (hex_encode h)" using hex_encode_chars by blast
  show ?thesis
    unfolding build_announce_message_def crlf_def append.simps
    using lines_of_line [of "''BT-SEARCH * HTTP/1.1''"]
      lines_of_line [of "''Host: '' @ show_ipv4 lpd_multicast_addr @ '':'' @ show_nat lpd_port"]
      lines_of_line [of "''Port: '' @ show_nat (unat p)"] lines_of_line [of "''Infohash: '' @ hex_encode h"]
      lines_of_line [of "[]" "[]"] nl hx show_nat_no_newline
    by simp
qed

text \<open>An announcement is understood exactly: whoever receives it learns the torrent and the port that were
  announced, at the address it came from, unless it is taken for the receiver's own.\<close>

lemma announcement_parsed:
  assumes "length h = 20"
  shows "parse_announce (as_bytes (build_announce_message h p)) source our_port =
    (if p = our_port \<and> is_local_address source then None
     else Some \<lparr>lp_addr = with_port source p, lp_info_hash = h\<rparr>)"
proof -
  have hx: "is_ascii (hex_encode h)" using hex_encode_chars by (auto simp: is_ascii_def)
  have ascii: "is_ascii (build_announce_message h p)"
    by (simp add: build_announce_message_def crlf_def show_ipv4_def hx byte_of_def)
  have starts: "starts_with ''BT-SEARCH'' (build_announce_message h p)"
    by (simp add: build_announce_message_def starts_with_def)
  have h: "h \<noteq> []" using assms(1) by auto
  have "length (hex_encode h) = 40" using assms(1) by (simp add: length_hex_encode)
  then have hne: "hex_encode h \<noteq> []" by (metis list.size(3) zero_neq_numeral)
  have port: "trim (''Port: '' @ show_nat (unat p)) = ''Port: '' @ show_nat (unat p)"
    using show_nat_no_white [of "unat p"] by (intro trim_plain) (simp add: no_white_def)
  have hash: "trim (''Infohash: '' @ hex_encode h) = ''Infohash: '' @ hex_encode h"
    using hex_encode_no_white [OF h] hne by (intro trim_plain) (simp add: no_white_def)
  have host: "trim (''Host: '' @ show_ipv4 lpd_multicast_addr @ '':'' @ show_nat lpd_port) =
      ''Host: '' @ show_ipv4 lpd_multicast_addr @ '':'' @ show_nat lpd_port"
    using show_nat_no_white [of lpd_port] by (intro trim_plain) (simp add: no_white_def)
  have first: "trim ''BT-SEARCH * HTTP/1.1'' = ''BT-SEARCH * HTTP/1.1''" by (intro trim_plain) (simp add: no_white_def)
  have empty: "trim [] = []" by (intro trim_plain) simp
  have vals: "trim (CHR '' '' # show_nat (unat p)) = show_nat (unat p)" "trim (CHR '' '' # hex_encode h) = hex_encode h"
    using show_nat_no_white hex_encode_no_white [OF h] by (simp_all add: trim_space)
  have "unat p < 2 ^ LENGTH(16)" by (rule unsigned_less)
  then have bound: "unat p < 2 ^ 16" by simp
  have "fold announce_line (lines_of (build_announce_message h p)) (None, None) = (Some p, Some (hex_encode h))"
    unfolding announce_lines using port hash host first empty vals bound by simp
  then show ?thesis
    unfolding parse_announce_def from_utf8_ascii [OF ascii]
    using starts assms by (auto simp: hex_decode_strict_encode)
qed

text \<open>The filter for own announcements compares the port and whether the sender is on the local network. Any
  other machine of the network that listens on the same port, the default one say, is taken for oneself.\<close>

lemma neighbour_on_same_port_ignored:
  "length h = 20 \<Longrightarrow> parse_announce (as_bytes (build_announce_message h p)) (SockV4 0xC0A80005 q) p = None"
  by (simp add: announcement_parsed)

end
