(* ===== verification/Metalink.thy ===== *)
theory Metalink
  imports Text Paths Types
begin

text \<open>
  Metalink documents (\<open>src/metalink.rs\<close>). The XML reader is third-party: a document is the sequence of its
  events with local names, each with what decoding it gives, and \<open>skip\<close> tells how many events \<open>read_to_end\<close>
  consumes. Adding and cancelling a download, and the parsing of URLs, are arguments. A message ends before the
  \<open>Debug\<close> form of the value it reports.
\<close>

section \<open>Events\<close>

text \<open>An attribute: its local name and its value, or an error in either.\<close>

type_synonym xml_attribute = "string + (string \<times> (string + string))"

datatype xml_event =
    XStart string "xml_attribute list"
  | XEmpty string "xml_attribute list"
  | XEnd
  | XText "string + string"
  | XCData "string + string"
  | XGeneralRef "string + string option" "string + string"
  | XOther

text \<open>What is left to read; where the sequence ends the document does.\<close>

type_synonym xml_reader = "(string + xml_event) list"

type_synonym xml_skip = "string \<Rightarrow> xml_reader \<Rightarrow> string + nat"

definition parse_error :: "string \<Rightarrow> engine_error" where
  "parse_error message = err_invalid_input ''metalink'' message"

definition xml_error :: "string \<Rightarrow> engine_error" where
  "xml_error e = parse_error (''XML parse error: '' @ e)"

definition unexpected_end :: engine_error where
  "unexpected_end = parse_error ''unexpected end of document''"

fun xml_result :: "string + 'a \<Rightarrow> 'a result" where
  "xml_result (Inl e) = Inl (xml_error e)"
| "xml_result (Inr x) = Inr x"

section \<open>Attributes and text\<close>

fun file_name_attr :: "xml_attribute list \<Rightarrow> string result" where
  "file_name_attr [] = Inl (parse_error ''<file> element is missing the name attribute'')"
| "file_name_attr (Inl e # attrs) = Inl (xml_error e)"
| "file_name_attr (Inr (key, v) # attrs) =
    (if key = ''name'' then
       rbind (xml_result v) (\<lambda>name.
         if name = [] then Inl (parse_error ''<file> name attribute is empty'')
         else rbind (validate_output_name name) (\<lambda>_. Inr name))
     else file_name_attr attrs)"

fun attr_by_local_name :: "string \<Rightarrow> xml_attribute list \<Rightarrow> string option result" where
  "attr_by_local_name key [] = Inr None"
| "attr_by_local_name key (Inl e # attrs) = Inl (xml_error e)"
| "attr_by_local_name key (Inr (k, v) # attrs) =
    (if k = key then rbind (xml_result v) (\<lambda>x. Inr (Some x)) else attr_by_local_name key attrs)"

fun entity :: "string \<Rightarrow> string option" where
  "entity name =
    (if name = ''amp'' then Some ''&'' else if name = ''lt'' then Some ''<'' else if name = ''gt'' then Some ''>''
     else if name = ''apos'' then Some [CHR 0x27] else if name = ''quot'' then Some [CHR 0x22] else None)"

function read_leaf :: "xml_skip \<Rightarrow> string \<Rightarrow> xml_reader \<Rightarrow> (string \<times> xml_reader) result" where
  "read_leaf skip out [] = Inl unexpected_end"
| "read_leaf skip out (Inl e # evs) = Inl (xml_error e)"
| "read_leaf skip out (Inr (XText t) # evs) = rbind (xml_result t) (\<lambda>s. read_leaf skip (out @ s) evs)"
| "read_leaf skip out (Inr (XCData t) # evs) = rbind (xml_result t) (\<lambda>s. read_leaf skip (out @ s) evs)"
| "read_leaf skip out (Inr (XGeneralRef c r) # evs) =
    rbind (xml_result c) (\<lambda>ch.
      case ch of
        Some s \<Rightarrow> read_leaf skip (out @ s) evs
      | None \<Rightarrow>
          rbind (xml_result r) (\<lambda>name.
            case entity name of
              Some s \<Rightarrow> read_leaf skip (out @ s) evs
            | None \<Rightarrow> Inl (parse_error (''unsupported entity reference: &'' @ name @ '';''))))"
| "read_leaf skip out (Inr (XStart name attrs) # evs) =
    rbind (xml_result (skip name evs)) (\<lambda>n. read_leaf skip out (drop n evs))"
| "read_leaf skip out (Inr XEnd # evs) = Inr (trim out, evs)"
| "read_leaf skip out (Inr (XEmpty name attrs) # evs) = read_leaf skip out evs"
| "read_leaf skip out (Inr XOther # evs) = read_leaf skip out evs"
  by pat_completeness auto
termination by (relation "measure (\<lambda>(skip, out, evs). length evs)") auto

definition read_leaf_text :: "xml_skip \<Rightarrow> xml_reader \<Rightarrow> (string \<times> xml_reader) result" where
  "read_leaf_text skip evs = read_leaf skip [] evs"

lemma read_leaf_shorter: "read_leaf skip out evs = Inr (s, evs') \<Longrightarrow> length evs' < length evs"
proof (induction skip out evs rule: read_leaf.induct)
  case (6 skip out name attrs evs)
  then show ?case by (cases "skip name evs") (fastforce simp: rbind_Inr_iff)+
qed (auto simp: rbind_Inr_iff less_SucI split: option.splits)

section \<open>One file\<close>

record metalink_file =
  mf_name :: string
  mf_size :: "nat option"
  mf_urls :: "string list"
  mf_checksum :: "expected_checksum option"

definition default_url_priority :: nat where "default_url_priority = 999999"

definition is_hexdigit :: "char \<Rightarrow> bool" where
  "is_hexdigit c \<longleftrightarrow> hex_val c \<noteq> None"

definition validate_hex :: "string \<Rightarrow> nat \<Rightarrow> string \<Rightarrow> unit result" where
  "validate_hex v expected_len label =
    (if length v \<noteq> expected_len \<or> \<not> list_all is_hexdigit v
     then Inl (parse_error (''invalid '' @ label @ '' hash value: '')) else Inr ())"

record file_parts =
  fp_size :: "nat option"
  fp_sha256 :: "string option"
  fp_md5 :: "string option"
  fp_urls :: "(nat \<times> string) list"

definition take_size :: "string \<Rightarrow> file_parts \<Rightarrow> file_parts result" where
  "take_size text p =
    (case parse_unsigned (2 ^ 64) text of
       None \<Rightarrow> Inl (parse_error ''invalid <size> value: '')
     | Some n \<Rightarrow> Inr (p\<lparr>fp_size := Some n\<rparr>))"

definition take_hash :: "string option \<Rightarrow> string \<Rightarrow> file_parts \<Rightarrow> file_parts result" where
  "take_hash hash_type v p =
    (if hash_type = Some ''sha-256'' \<or> hash_type = Some ''sha256''
     then rbind (validate_hex v 64 ''sha-256'') (\<lambda>_. Inr (p\<lparr>fp_sha256 := Some v\<rparr>))
     else if hash_type = Some ''md5'' then rbind (validate_hex v 32 ''md5'') (\<lambda>_. Inr (p\<lparr>fp_md5 := Some v\<rparr>))
     else Inr p)"

definition take_url :: "string option \<Rightarrow> string \<Rightarrow> file_parts \<Rightarrow> file_parts" where
  "take_url priority url p =
    (let n = (case priority of
                None \<Rightarrow> default_url_priority
              | Some t \<Rightarrow> (case parse_unsigned (2 ^ 64) (trim t) of Some n \<Rightarrow> n | None \<Rightarrow> default_url_priority))
     in if url = [] then p else p\<lparr>fp_urls := fp_urls p @ [(n, url)]\<rparr>)"

text \<open>A child of a file that has content; it returns what is left to read.\<close>

definition file_child :: "xml_skip \<Rightarrow> string \<Rightarrow> xml_attribute list \<Rightarrow> xml_reader \<Rightarrow> file_parts \<Rightarrow> (file_parts \<times> xml_reader) result" where
  "file_child skip name attrs evs p =
    (if name = ''size'' then
       rbind (read_leaf_text skip evs) (\<lambda>(text, evs). rbind (take_size text p) (\<lambda>p. Inr (p, evs)))
     else if name = ''hash'' then
       rbind (attr_by_local_name ''type'' attrs) (\<lambda>ty.
         rbind (read_leaf_text skip evs) (\<lambda>(text, evs).
           rbind (take_hash (map_option (\<lambda>t. to_lower (trim t)) ty) (to_lower text) p) (\<lambda>p. Inr (p, evs))))
     else if name = ''url'' then
       rbind (attr_by_local_name ''priority'' attrs) (\<lambda>priority.
         rbind (read_leaf_text skip evs) (\<lambda>(url, evs). Inr (take_url priority url p, evs)))
     else rbind (xml_result (skip name evs)) (\<lambda>n. Inr (p, drop n evs)))"

lemma file_child_shorter: "file_child skip name attrs evs p = Inr (p', evs') \<Longrightarrow> length evs' \<le> length evs"
  by (auto simp: file_child_def rbind_Inr_iff read_leaf_text_def dest!: read_leaf_shorter split: if_splits)

function file_parts_loop :: "xml_skip \<Rightarrow> xml_reader \<Rightarrow> file_parts \<Rightarrow> (file_parts \<times> xml_reader) result" where
  "file_parts_loop skip evs p =
    (case evs of
       [] \<Rightarrow> Inl (parse_error ''unexpected end of document inside <file>'')
     | Inl e # evs \<Rightarrow> Inl (xml_error e)
     | Inr ev # evs \<Rightarrow>
         (case ev of
            XStart name attrs \<Rightarrow>
              (case file_child skip name attrs evs p of
                 Inl e \<Rightarrow> Inl e
               | Inr (p, evs) \<Rightarrow> file_parts_loop skip evs p)
          | XEnd \<Rightarrow> Inr (p, evs)
          | _ \<Rightarrow> file_parts_loop skip evs p))"
  by pat_completeness auto
termination
  by (relation "measure (\<lambda>(skip, evs, p). length evs)") (auto dest: file_child_shorter simp: le_imp_less_Suc)

declare file_parts_loop.simps [simp del]

lemma file_parts_shorter: "file_parts_loop skip evs p = Inr (p', evs') \<Longrightarrow> length evs' < length evs"
proof (induction skip evs p rule: file_parts_loop.induct)
  case (1 skip evs p)
  have step: "file_parts_loop skip evs p = Inr (p', evs')" by (rule "1.prems")
  note step = step [unfolded file_parts_loop.simps [of skip evs p]]
  show ?case
  proof (cases evs)
    case (Cons r rest)
    show ?thesis
    proof (cases r)
      case (Inr ev)
      show ?thesis
      proof (cases ev)
        case (XStart name attrs)
        then obtain q mid where mid: "file_child skip name attrs rest p = Inr (q, mid)"
          and more: "file_parts_loop skip mid q = Inr (p', evs')"
          using step Cons Inr by (auto split: sum.splits)
        have "length evs' < length mid" using "1.IH" Cons Inr XStart mid more by blast
        then show ?thesis using file_child_shorter [OF mid] Cons by simp
      next
        case XEnd
        then show ?thesis using step Cons Inr by simp
      qed (use "1.IH" step Cons Inr in \<open>fastforce simp: less_SucI\<close>)+
    qed (use step Cons in simp)
  qed (use step in simp)
qed

definition no_parts :: file_parts where
  "no_parts = \<lparr>fp_size = None, fp_sha256 = None, fp_md5 = None, fp_urls = []\<rparr>"

definition file_of_parts :: "string \<Rightarrow> file_parts \<Rightarrow> metalink_file" where
  "file_of_parts name p =
    \<lparr>mf_name = name, mf_size = fp_size p, mf_urls = map snd (sort_key fst (fp_urls p)),
     mf_checksum =
       (case fp_sha256 p of
          Some v \<Rightarrow> Some (checksum_sha256 v)
        | None \<Rightarrow> (case fp_md5 p of Some v \<Rightarrow> Some (checksum_md5 v) | None \<Rightarrow> None))\<rparr>"

definition parse_file :: "xml_skip \<Rightarrow> xml_attribute list \<Rightarrow> xml_reader \<Rightarrow> (metalink_file \<times> xml_reader) result" where
  "parse_file skip attrs evs =
    rbind (file_name_attr attrs) (\<lambda>name.
      rbind (file_parts_loop skip evs no_parts) (\<lambda>(p, evs). Inr (file_of_parts name p, evs)))"

section \<open>The document\<close>

record metalink_state =
  ml_files :: "metalink_file list"
  ml_saw_root :: bool
  ml_closed_root :: bool

definition metalink_start :: metalink_state where
  "metalink_start = \<lparr>ml_files = [], ml_saw_root = False, ml_closed_root = False\<rparr>"

definition after_close :: engine_error where "after_close = parse_error ''content after </metalink>''"
definition wrong_root :: engine_error where "wrong_root = parse_error ''root element is not <metalink>''"

definition open_element :: "xml_skip \<Rightarrow> string \<Rightarrow> xml_attribute list \<Rightarrow> xml_reader \<Rightarrow> metalink_state \<Rightarrow> (metalink_state \<times> xml_reader) result" where
  "open_element skip name attrs evs st =
    (if ml_closed_root st then Inl after_close
     else if \<not> ml_saw_root st then
       (if name \<noteq> ''metalink'' then Inl wrong_root else Inr (st\<lparr>ml_saw_root := True\<rparr>, evs))
     else if name = ''file'' then
       rbind (parse_file skip attrs evs) (\<lambda>(f, evs). Inr (st\<lparr>ml_files := ml_files st @ [f]\<rparr>, evs))
     else rbind (xml_result (skip name evs)) (\<lambda>n. Inr (st, drop n evs)))"

definition empty_element :: "string \<Rightarrow> xml_attribute list \<Rightarrow> metalink_state \<Rightarrow> metalink_state result" where
  "empty_element name attrs st =
    (if ml_closed_root st then Inl after_close
     else if \<not> ml_saw_root st then
       (if name \<noteq> ''metalink'' then Inl wrong_root else Inr (st\<lparr>ml_saw_root := True, ml_closed_root := True\<rparr>))
     else if name = ''file'' then
       rbind (file_name_attr attrs) (\<lambda>n.
         Inr (st\<lparr>ml_files := ml_files st @ [\<lparr>mf_name = n, mf_size = None, mf_urls = [], mf_checksum = None\<rparr>]\<rparr>))
     else Inr st)"

lemma open_element_shorter: "open_element skip name attrs evs st = Inr (st', evs') \<Longrightarrow> length evs' \<le> length evs"
  by (auto simp: open_element_def parse_file_def rbind_Inr_iff dest!: file_parts_shorter split: if_splits)

function metalink_loop :: "xml_skip \<Rightarrow> xml_reader \<Rightarrow> metalink_state \<Rightarrow> metalink_state result" where
  "metalink_loop skip evs st =
    (case evs of
       [] \<Rightarrow> Inr st
     | Inl e # evs \<Rightarrow> Inl (xml_error e)
     | Inr ev # evs \<Rightarrow>
         (case ev of
            XStart name attrs \<Rightarrow>
              (case open_element skip name attrs evs st of
                 Inl e \<Rightarrow> Inl e
               | Inr (st, evs) \<Rightarrow> metalink_loop skip evs st)
          | XEmpty name attrs \<Rightarrow>
              (case empty_element name attrs st of
                 Inl e \<Rightarrow> Inl e
               | Inr st \<Rightarrow> metalink_loop skip evs st)
          | XEnd \<Rightarrow> metalink_loop skip evs (st\<lparr>ml_closed_root := True\<rparr>)
          | XText t \<Rightarrow>
              (case t of
                 Inl e \<Rightarrow> Inl (xml_error e)
               | Inr s \<Rightarrow>
                   if trim s \<noteq> [] then Inl (parse_error ''unexpected text outside a Metalink element'')
                   else metalink_loop skip evs st)
          | _ \<Rightarrow> metalink_loop skip evs st))"
  by pat_completeness auto
termination
  by (relation "measure (\<lambda>(skip, evs, st). length evs)") (auto dest: open_element_shorter simp: le_imp_less_Suc)

declare metalink_loop.simps [simp del]

fun check_names :: "string set \<Rightarrow> metalink_file list \<Rightarrow> unit result" where
  "check_names names [] = Inr ()"
| "check_names names (f # fs) =
    (if mf_name f \<in> names then Inl (parse_error (''duplicate file name in metalink: '' @ mf_name f))
     else check_names (insert (mf_name f) names) fs)"

definition parse_metalink :: "xml_skip \<Rightarrow> xml_reader \<Rightarrow> metalink_file list result" where
  "parse_metalink skip evs =
    rbind (metalink_loop skip evs metalink_start) (\<lambda>st.
      if \<not> ml_saw_root st then Inl (parse_error ''document has no <metalink> root element'')
      else if \<not> ml_closed_root st then Inl (parse_error ''unclosed <metalink> root element'')
      else rbind (check_names {} (ml_files st)) (\<lambda>_. Inr (ml_files st)))"

section \<open>Adding the downloads\<close>

text \<open>\<open>add\<close> is \<open>add_http\<close> for a URL and the file it is to become, with its mirrors and checksum.\<close>

type_synonym 's adder = "string \<Rightarrow> string \<Rightarrow> string list \<Rightarrow> expected_checksum option \<Rightarrow> 's \<Rightarrow> bytes result \<times> 's"

fun add_files ::
  "(string \<Rightarrow> bool) \<Rightarrow> 's adder \<Rightarrow> (bytes \<Rightarrow> 's \<Rightarrow> 's) \<Rightarrow> metalink_file list \<Rightarrow> bytes list \<Rightarrow> 's \<Rightarrow> bytes list result \<times> 's"
where
  "add_files http_url add cancel [] added s = (Inr added, s)"
| "add_files http_url add cancel (f # fs) added s =
    (case filter http_url (mf_urls f) of
       [] \<Rightarrow> add_files http_url add cancel fs added s
     | url # mirrors \<Rightarrow>
         (case add url (mf_name f) mirrors (mf_checksum f) s of
            (Inr i, s) \<Rightarrow> add_files http_url add cancel fs (added @ [i]) s
          | (Inl e, s) \<Rightarrow> (Inl e, fold cancel added s)))"

definition add_metalink ::
  "xml_skip \<Rightarrow> (string \<Rightarrow> bool) \<Rightarrow> 's adder \<Rightarrow> (bytes \<Rightarrow> 's \<Rightarrow> 's) \<Rightarrow> xml_reader \<Rightarrow> 's \<Rightarrow> bytes list result \<times> 's"
where
  "add_metalink skip http_url add cancel evs s =
    (case parse_metalink skip evs of
       Inl e \<Rightarrow> (Inl e, s)
     | Inr files \<Rightarrow> add_files http_url add cancel files [] s)"

definition add_metalink_file ::
  "(string \<Rightarrow> string + xml_reader) \<Rightarrow> xml_skip \<Rightarrow> (string \<Rightarrow> bool) \<Rightarrow> 's adder \<Rightarrow> (bytes \<Rightarrow> 's \<Rightarrow> 's) \<Rightarrow> string \<Rightarrow> 's \<Rightarrow>
    bytes list result \<times> 's"
where
  "add_metalink_file read skip http_url add cancel path s =
    (case read path of
       Inl e \<Rightarrow> (Inl (err_storage SkIo path (''Failed to read metalink file: '' @ e)), s)
     | Inr evs \<Rightarrow> add_metalink skip http_url add cancel evs s)"

section \<open>What an accepted document gives\<close>

definition checksum_ok :: "expected_checksum option \<Rightarrow> bool" where
  "checksum_ok c \<longleftrightarrow>
    c = None \<or> (\<exists>v. length v = 64 \<and> list_all is_hexdigit v \<and> c = Some (checksum_sha256 v))
      \<or> (\<exists>v. length v = 32 \<and> list_all is_hexdigit v \<and> c = Some (checksum_md5 v))"

definition metalink_file_ok :: "metalink_file \<Rightarrow> bool" where
  "metalink_file_ok f \<longleftrightarrow>
    validate_output_name (mf_name f) = Inr () \<and> [] \<notin> set (mf_urls f) \<and> checksum_ok (mf_checksum f)
    \<and> (\<forall>n. mf_size f = Some n \<longrightarrow> n < 2 ^ 64)"

definition parts_ok :: "file_parts \<Rightarrow> bool" where
  "parts_ok p \<longleftrightarrow>
    (\<forall>n. fp_size p = Some n \<longrightarrow> n < 2 ^ 64) \<and> (\<forall>(n, u) \<in> set (fp_urls p). u \<noteq> [])
    \<and> (\<forall>v. fp_sha256 p = Some v \<longrightarrow> length v = 64 \<and> list_all is_hexdigit v)
    \<and> (\<forall>v. fp_md5 p = Some v \<longrightarrow> length v = 32 \<and> list_all is_hexdigit v)"

lemma validate_hex_Inr: "validate_hex v n label = Inr () \<longleftrightarrow> length v = n \<and> list_all is_hexdigit v"
  by (simp add: validate_hex_def)

lemma take_size_ok: "take_size text p = Inr p' \<Longrightarrow> parts_ok p \<Longrightarrow> parts_ok p'"
  by (auto simp: take_size_def parts_ok_def dest: parse_unsigned_bound split: option.splits)

lemma take_hash_ok: "take_hash ty v p = Inr p' \<Longrightarrow> parts_ok p \<Longrightarrow> parts_ok p'"
  unfolding take_hash_def by (auto simp: rbind_Inr_iff validate_hex_Inr parts_ok_def split: if_splits)

lemma take_url_ok: "parts_ok p \<Longrightarrow> parts_ok (take_url pr url p)"
  by (auto simp: take_url_def parts_ok_def Let_def)

lemma file_child_ok: "file_child skip name attrs evs p = Inr (p', evs') \<Longrightarrow> parts_ok p \<Longrightarrow> parts_ok p'"
  by (auto simp: file_child_def rbind_Inr_iff take_url_ok dest: take_size_ok take_hash_ok split: if_splits)

lemma file_parts_ok: "file_parts_loop skip evs p = Inr (p', evs') \<Longrightarrow> parts_ok p \<Longrightarrow> parts_ok p'"
proof (induction skip evs p rule: file_parts_loop.induct)
  case (1 skip evs p)
  have step: "file_parts_loop skip evs p = Inr (p', evs')" by (rule "1.prems")
  note step = step [unfolded file_parts_loop.simps [of skip evs p]]
  show ?case
  proof (cases evs)
    case (Cons r rest)
    show ?thesis
    proof (cases r)
      case (Inr ev)
      show ?thesis
      proof (cases ev)
        case (XStart name attrs)
        then obtain q mid where mid: "file_child skip name attrs rest p = Inr (q, mid)"
          and more: "file_parts_loop skip mid q = Inr (p', evs')"
          using step Cons Inr by (auto split: sum.splits)
        then show ?thesis using "1.IH" "1.prems" Cons Inr XStart file_child_ok [OF mid] by blast
      qed (use "1.IH" "1.prems" step Cons Inr in fastforce)+
    qed (use step Cons in simp)
  qed (use step in simp)
qed

lemma file_name_attr_ok: "file_name_attr attrs = Inr name \<Longrightarrow> validate_output_name name = Inr ()"
  by (induction attrs rule: file_name_attr.induct) (auto simp: rbind_Inr_iff split: if_splits)

lemma checksum_ok_cases:
  "checksum_ok None"
  "length v = 64 \<Longrightarrow> list_all is_hexdigit v \<Longrightarrow> checksum_ok (Some (checksum_sha256 v))"
  "length v = 32 \<Longrightarrow> list_all is_hexdigit v \<Longrightarrow> checksum_ok (Some (checksum_md5 v))"
  by (auto simp: checksum_ok_def)

lemma parse_file_ok: "parse_file skip attrs evs = Inr (f, evs') \<Longrightarrow> metalink_file_ok f"
proof -
  assume "parse_file skip attrs evs = Inr (f, evs')"
  then obtain name p where name: "file_name_attr attrs = Inr name"
    and loop: "file_parts_loop skip evs no_parts = Inr (p, evs')" and f: "f = file_of_parts name p"
    by (auto simp: parse_file_def rbind_Inr_iff)
  have ok: "parts_ok p" by (rule file_parts_ok [OF loop]) (simp add: parts_ok_def no_parts_def)
  have "[] \<notin> set (mf_urls f)" using ok by (auto simp: f file_of_parts_def parts_ok_def)
  moreover have "checksum_ok (mf_checksum f)"
    using ok by (cases "fp_sha256 p"; cases "fp_md5 p") (simp_all add: f file_of_parts_def parts_ok_def checksum_ok_cases)
  moreover have "\<forall>n. mf_size f = Some n \<longrightarrow> n < 2 ^ 64" using ok by (simp add: f file_of_parts_def parts_ok_def)
  moreover have "validate_output_name (mf_name f) = Inr ()"
    using file_name_attr_ok [OF name] by (simp add: f file_of_parts_def)
  ultimately show ?thesis by (simp add: metalink_file_ok_def)
qed

lemma empty_file_ok:
  "validate_output_name n = Inr () \<Longrightarrow>
    metalink_file_ok \<lparr>mf_name = n, mf_size = None, mf_urls = [], mf_checksum = None\<rparr>"
  by (simp add: metalink_file_ok_def checksum_ok_def)

lemma metalink_loop_ok:
  "metalink_loop skip evs st = Inr st' \<Longrightarrow> \<forall>f \<in> set (ml_files st). metalink_file_ok f \<Longrightarrow>
    \<forall>f \<in> set (ml_files st'). metalink_file_ok f"
proof (induction skip evs st rule: metalink_loop.induct)
  case (1 skip evs st)
  have step: "metalink_loop skip evs st = Inr st'" by (rule "1.prems")
  note step = step [unfolded metalink_loop.simps [of skip evs st]]
  show ?case
  proof (cases evs)
    case (Cons r rest)
    show ?thesis
    proof (cases r)
      case (Inr ev)
      show ?thesis
      proof (cases ev)
        case (XStart name attrs)
        then obtain q mid where mid: "open_element skip name attrs rest st = Inr (q, mid)"
          and more: "metalink_loop skip mid q = Inr st'"
          using step Cons Inr by (auto split: sum.splits)
        have "\<forall>f \<in> set (ml_files q). metalink_file_ok f"
          using mid "1.prems"(2) parse_file_ok by (auto simp: open_element_def rbind_Inr_iff split: if_splits)
        then show ?thesis using "1.IH" Cons Inr XStart mid more by blast
      next
        case (XEmpty name attrs)
        then obtain q where q: "empty_element name attrs st = Inr q" and more: "metalink_loop skip rest q = Inr st'"
          using step Cons Inr by (auto split: sum.splits)
        have "\<forall>f \<in> set (ml_files q). metalink_file_ok f"
          using q "1.prems"(2) file_name_attr_ok empty_file_ok
          by (auto simp: empty_element_def rbind_Inr_iff split: if_splits)
        then show ?thesis by (rule "1.IH"(2) [OF Cons Inr XEmpty q more])
      next
        case (XText t)
        then show ?thesis using "1.IH" "1.prems" step Cons Inr by (cases t) (auto split: if_splits)
      next
        case XEnd
        show ?thesis by (rule "1.IH"(3) [OF Cons Inr XEnd]) (use step Cons Inr XEnd "1.prems"(2) in simp_all)
      next
        case (XCData t)
        show ?thesis by (rule "1.IH"(5) [OF Cons Inr XCData]) (use step Cons Inr XCData "1.prems"(2) in simp_all)
      next
        case (XGeneralRef c t)
        show ?thesis by (rule "1.IH"(6) [OF Cons Inr XGeneralRef]) (use step Cons Inr XGeneralRef "1.prems"(2) in simp_all)
      next
        case XOther
        show ?thesis by (rule "1.IH"(7) [OF Cons Inr XOther]) (use step Cons Inr XOther "1.prems"(2) in simp_all)
      qed
    qed (use step Cons in simp)
  qed (use step "1.prems" in simp)
qed

lemma check_names_Inr: "check_names names fs = Inr () \<longleftrightarrow> distinct (map mf_name fs) \<and> names \<inter> mf_name ` set fs = {}"
  by (induction names fs rule: check_names.induct) auto

text \<open>An accepted document: distinct names that stay inside the download directory, no empty URL, and a checksum
  of the right length in hexadecimal digits.\<close>

lemma accepted_metalink:
  assumes "parse_metalink skip evs = Inr fs"
  shows "distinct (map mf_name fs) \<and> (\<forall>f \<in> set fs. metalink_file_ok f)"
proof (cases "metalink_loop skip evs metalink_start")
  case (Inr st)
  have names: "check_names {} (ml_files st) = Inr ()" and fs: "fs = ml_files st"
    using assms by (auto simp: parse_metalink_def Inr rbind_Inr_iff split: if_splits)
  have "\<forall>f \<in> set (ml_files st). metalink_file_ok f"
    by (rule metalink_loop_ok [OF Inr]) (simp add: metalink_start_def)
  then show ?thesis using names by (simp add: fs check_names_Inr)
qed (use assms in \<open>simp add: parse_metalink_def\<close>)

text \<open>The contract of the engine: an addition binds a fresh name or changes nothing, and cancelling removes the
  binding.\<close>

definition binds_or_fails :: "(bytes \<rightharpoonup> 'd) adder \<Rightarrow> bool" where
  "binds_or_fails add \<longleftrightarrow>
    (\<forall>u f ms c m. case add u f ms c m of
        (Inr i, m') \<Rightarrow> i \<notin> dom m \<and> (\<exists>d. m' = m(i \<mapsto> d))
      | (Inl e, m') \<Rightarrow> m' = m)"

definition unbind :: "bytes \<Rightarrow> (bytes \<rightharpoonup> 'd) \<Rightarrow> (bytes \<rightharpoonup> 'd)" where
  "unbind i m = m(i := None)"

lemma fold_unbind: "fold unbind ids m = m |` (- set ids)"
  by (induction ids arbitrary: m) (auto simp: unbind_def restrict_map_def fun_eq_iff)

definition served :: "(string \<Rightarrow> bool) \<Rightarrow> metalink_file \<Rightarrow> bool" where
  "served http_url f \<longleftrightarrow> filter http_url (mf_urls f) \<noteq> []"

lemma add_files_outcome:
  assumes "binds_or_fails add" and "add_files http_url add unbind fs added m = (r, m')" and "set added \<subseteq> dom m"
  shows "case r of
      Inl e \<Rightarrow> m' = m |` (- set added)
    | Inr ids \<Rightarrow> \<exists>new. ids = added @ new \<and> distinct new \<and> set new \<inter> dom m = {}
        \<and> dom m' = dom m \<union> set new \<and> length new = length (filter (served http_url) fs)"
  using assms(2,3)
proof (induction fs arbitrary: added m)
  case (Cons f fs)
  show ?case
  proof (cases "filter http_url (mf_urls f)")
    case Nil
    then have same: "filter (served http_url) (f # fs) = filter (served http_url) fs" by (simp add: served_def)
    have "add_files http_url add unbind fs added m = (r, m')" using Cons.prems(1) Nil by simp
    then show ?thesis unfolding same using Cons.prems(2) by (rule Cons.IH)
  next
    case url: (Cons u ms)
    obtain a m1 where add: "add u (mf_name f) ms (mf_checksum f) m = (a, m1)" by fastforce
    have law: "case a of Inr i \<Rightarrow> i \<notin> dom m \<and> (\<exists>d. m1 = m(i \<mapsto> d)) | Inl e \<Rightarrow> m1 = m"
      using assms(1) add unfolding binds_or_fails_def by (metis (mono_tags, lifting) case_prod_conv)
    show ?thesis
    proof (cases a)
      case (Inl e)
      then show ?thesis using Cons.prems url add law by (auto simp: fold_unbind)
    next
      case (Inr i)
      then have fresh: "i \<notin> dom m" and "\<exists>d. m1 = m(i \<mapsto> d)" using law by auto
      then obtain d where m1: "m1 = m(i \<mapsto> d)" by blast
      have rest: "add_files http_url add unbind fs (added @ [i]) m1 = (r, m')" using Cons.prems(1) url add Inr by simp
      have "set (added @ [i]) \<subseteq> dom m1" using Cons.prems(2) m1 by auto
      note IH = Cons.IH [OF rest this]
      have undone: "m1 |` (- set (added @ [i])) = m |` (- set added)"
        using fresh by (auto simp: m1 restrict_map_def fun_eq_iff)
      have more: "\<exists>new'. ids = added @ new' \<and> distinct new' \<and> set new' \<inter> dom m = {}
          \<and> dom m' = dom m \<union> set new' \<and> length new' = length (filter (served http_url) (f # fs))"
        if "ids = (added @ [i]) @ new" "distinct new" "set new \<inter> dom m1 = {}" "dom m' = dom m1 \<union> set new"
          "length new = length (filter (served http_url) fs)" for ids new
        using that fresh url by (intro exI [of _ "i # new"]) (auto simp: m1 served_def)
      show ?thesis
      proof (cases r)
        case Inl
        then show ?thesis using IH undone by simp
      next
        case (Inr ids)
        then show ?thesis using IH more unfolding Inr sum.case by blast
      qed
    qed
  qed
qed auto

text \<open>All or nothing: a document that fails leaves the downloads as they were; one that is accepted adds a
  download under a name of its own for each file with an address the engine serves.\<close>

lemma add_metalink_all_or_nothing:
  assumes "binds_or_fails add"
  shows "case add_metalink skip http_url add unbind evs m of
      (Inl e, m') \<Rightarrow> m' = m
    | (Inr ids, m') \<Rightarrow> \<exists>fs. parse_metalink skip evs = Inr fs \<and> distinct ids \<and> set ids \<inter> dom m = {}
        \<and> dom m' = dom m \<union> set ids \<and> length ids = length (filter (served http_url) fs)"
proof (cases "parse_metalink skip evs")
  case (Inr fs)
  obtain r m' where r: "add_files http_url add unbind fs [] m = (r, m')" by fastforce
  have "m |` UNIV = m" by (simp add: restrict_map_def)
  then show ?thesis using add_files_outcome [OF assms r] by (cases r) (simp_all add: add_metalink_def Inr r)
qed (simp add: add_metalink_def)

text \<open>The check for two files of one name compares the names as text. Two spellings of one path pass it, and
  both become downloads that write to the same place.\<close>

definition two_spellings :: xml_reader where
  "two_spellings =
    [Inr (XStart ''metalink'' []), Inr (XEmpty ''file'' [Inr (''name'', Inr ''a'')]),
     Inr (XEmpty ''file'' [Inr (''name'', Inr ''./a'')]), Inr XEnd]"

definition no_urls :: "string \<Rightarrow> metalink_file" where
  "no_urls n = \<lparr>mf_name = n, mf_size = None, mf_urls = [], mf_checksum = None\<rparr>"

lemma same_file_twice:
  "\<exists>fs. parse_metalink skip two_spellings = Inr fs \<and> map mf_name fs = [''a'', ''./a'']
    \<and> resolve (path_push base ''./a'') = resolve (path_push base ''a'')"
proof -
  have names: "check_relative_path ''a'' = Inr ()" "check_relative_path ''./a'' = Inr ()" by code_simp+
  have "List.map_filter normal_name (path_components ''./a'') = List.map_filter normal_name (path_components ''a'')"
    by code_simp
  then have "resolve (path_push base ''./a'') = resolve (path_push base ''a'')"
    using accepted_resolve_push names by metis
  moreover have "metalink_loop skip two_spellings metalink_start =
      Inr \<lparr>ml_files = [no_urls ''a'', no_urls ''./a''], ml_saw_root = True, ml_closed_root = True\<rparr>"
    using names
    by (simp add: two_spellings_def metalink_loop.simps open_element_def empty_element_def
        validate_output_name_def metalink_start_def no_urls_def)
  ultimately show ?thesis by (simp add: parse_metalink_def no_urls_def)
qed

end
