(* ===== verification/Spec2Isabelle.thy ===== *)
theory Spec2Isabelle
  imports Types Schedule PriorityQueue Bencode Metainfo PieceDisk Choking FileStorage SegmentTask UtpStream PeerWire Metadata Magnet EngineApi Tracker Config WebSeed Mse CrawlSite Lpd Metalink
begin

text \<open>
  gosh-dl: a download engine for HTTP(S) and BitTorrent, written in Rust. This development
  models the parts of it that decide, compute and keep state, and proves what makes them correct.

  \<^bold>\<open>The program.\<close> \<open>src/engine.rs\<close> owns the downloads. It admits them through a priority queue
  (\<open>src/priority_queue.rs\<close>), limits them by a weekly schedule (\<open>src/scheduler.rs\<close>) and records
  them in a storage back end (\<open>src/storage/\<close>). An HTTP download (\<open>src/http/\<close>) is split into
  segments, each fetched with range requests, retries and fail-over between mirrors. A torrent
  (\<open>src/torrent/\<close>) is parsed from bencoded metainfo, its pieces are picked, assembled, checked
  against their hashes and written across the files of the torrent, peers are choked and
  unchoked by rate, and connections run over TCP or over uTP, a reliable stream on datagrams.

  \<^bold>\<open>Theories and sources.\<close>
  \<^item> \<open>Prelude\<close>: bytes, UTF-8, results, slices, number texts, machine widths; \<open>Codec\<close>: the
    interfaces \<open>prefix_codec\<close> (encoder and decoder) and \<open>guarded_system\<close> (operations that keep an
    invariant under their guards) that the components interpret; \<open>Wire\<close>: network byte order and
    ordered maps.
  \<^item> \<open>Errors\<close> (\<open>src/error.rs\<close>, \<open>src/protocol/error.rs\<close>), \<open>Types\<close> (\<open>src/protocol/types.rs\<close>,
    \<open>options.rs\<close>, \<open>checksum.rs\<close>), \<open>Status\<close> (\<open>src/protocol/status.rs\<close>, \<open>torrent.rs\<close>).
  \<^item> \<open>Schedule\<close> (\<open>src/protocol/scheduler.rs\<close>, \<open>src/scheduler.rs\<close>) and \<open>PriorityQueue\<close>
    (\<open>src/priority_queue.rs\<close>): a heap of waiting downloads, a ceiling and a semaphore; the wake-up
    section gives the notifications a transition system.
  \<^item> \<open>Bencode\<close> (\<open>src/torrent/bencode.rs\<close>), \<open>Paths\<close> (\<open>src/fsutil.rs\<close>), \<open>Metainfo\<close>
    (\<open>src/torrent/metainfo.rs\<close>): from the bytes of a torrent file to its checked description and
    the file segments of every piece.
  \<^item> \<open>PendingPiece\<close>, \<open>PieceManager\<close>, \<open>PieceDisk\<close> (\<open>src/torrent/piece.rs\<close>): assembling a piece from
    blocks; choosing pieces, file selection, end game; writing, verifying and serving them from a
    disk with I/O faults.
  \<^item> \<open>Choking\<close> (\<open>src/torrent/choking.rs\<close>, \<open>run_choking_algorithm\<close> of \<open>src/torrent/mod.rs\<close>).
  \<^item> \<open>Storage\<close> (\<open>src/storage/mod.rs\<close>) and \<open>FileStorage\<close> (\<open>src/storage/file.rs\<close>): the storage
    contract as the locale \<open>storage_impl\<close>, met by the in-memory back end and by the file back end
    over a directory with faults.
  \<^item> \<open>Connection\<close>, \<open>HttpResume\<close>, \<open>Mirror\<close>, \<open>Segments\<close>, \<open>SegmentTask\<close> (\<open>src/http/connection.rs\<close>,
    \<open>resume.rs\<close>, \<open>mirror.rs\<close>, \<open>segment.rs\<close>): retries, checks of ranged responses, mirror
    selection, the split into segments, and the run of the segment tasks against servers given
    as scripts.
  \<^item> \<open>UtpPacket\<close>, \<open>Ledbat\<close>, \<open>UtpSocket\<close>, \<open>UtpDriver\<close> (\<open>src/torrent/utp/packet.rs\<close>,
    \<open>congestion.rs\<close>, \<open>state.rs\<close>, \<open>socket.rs\<close>): the packet codec, congestion control, the
    connection and its driver. \<open>UtpFrames\<close>, \<open>UtpSender\<close> and \<open>UtpReceiver\<close> say what the operations
    leave alone and prove the two sides; \<open>UtpStream\<close> puts two sockets and a network together.
  \<^item> \<open>PeerWire\<close> (\<open>src/torrent/peer.rs\<close>): messages, handshake and connection of two peers, on a
    script of what arrives; \<open>SockAddr\<close> and \<open>Pex\<close> (\<open>src/torrent/pex.rs\<close>): compact addresses and the
    exchange of peers; \<open>Mse\<close> (\<open>src/torrent/mse.rs\<close>): the encrypted streams below the wire protocol.
  \<^item> \<open>Metadata\<close> (\<open>src/torrent/metadata.rs\<close>) and \<open>Magnet\<close> (\<open>src/torrent/magnet.rs\<close>): from a magnet
    link over the metadata that peers send to a torrent.
  \<^item> \<open>Tracker\<close> (\<open>src/torrent/tracker.rs\<close>): announces and scrapes over HTTP and UDP; \<open>WebSeed\<close>
    (\<open>src/torrent/webseed.rs\<close>): pieces fetched from HTTP servers, and the tasks that fetch them.
  \<^item> \<open>Crawl\<close> (\<open>src/http/crawl.rs\<close>, \<open>src/protocol/recursive.rs\<close>): the discovery of the files below an HTTP
    directory, with \<open>Glob\<close> for the wildcard patterns; \<open>CrawlSite\<close> proves what a crawl guarantees.
  \<^item> \<open>Metalink\<close> (\<open>src/metalink.rs\<close>): documents that list files with their mirrors and checksums, over the
    events of an XML reader, and \<open>Lpd\<close> (\<open>src/torrent/lpd.rs\<close>): announcements to the local network; both
    rest on the text functions of \<open>Text\<close>.
  \<^item> \<open>Config\<close> (\<open>src/config.rs\<close>): configuration, its defaults and its validation.
  \<^item> \<open>Lifecycle\<close> (\<open>src/engine.rs\<close>): the life of HTTP downloads as a transition system of client calls,
    workers and background saves over the queue of \<open>PriorityQueue\<close> and the records of \<open>Status\<close>;
    \<open>EngineApi\<close> (\<open>src/engine.rs\<close>, \<open>src/protocol/options.rs\<close>): options, lists, statistics, batches and
    the restoration at start-up.

  \<^bold>\<open>Conventions.\<close> A struct is a record, an enum a datatype, a fallible operation returns a sum with
  the error on the left. Machine integers are words, or naturals with the wrap-around of a
  release build written out (\<open>u64\<close>, \<open>u32\<close>). Hash maps are association lists with distinct keys.
  Instants, random numbers, floating-point results and the answers of servers, disks and peers
  are arguments. SHA-1, the JSON codec and tokio's semaphore are parameters with their documented
  laws as named hypotheses, which the witnesses instantiate.

  \<^bold>\<open>Loops and fuel.\<close> The bencode parser recurses with fuel one more than the length of its input,
  which \<open>Bencode.parse_sound\<close> proves sufficient on every input. The other loops are functions with a
  termination proof: the retry loop of a segment (by the attempts left), the fail-over loop (by the
  mirrors left), the uTP loops (by the bytes or packets left), the search for the end of the padding in an
  encrypted handshake (by the bytes that arrive), the crawl (by the pages waiting and not yet seen). The
  wildcard loop is a partial function that \<open>Glob.pattern_matches_exact\<close> proves total.

  \<^bold>\<open>Not modelled.\<close> The connection loop of a torrent (\<open>src/torrent/mod.rs\<close>, but for its choking round), the
  rest of \<open>src/engine.rs\<close> (torrents and recursive groups), the request plumbing of \<open>src/http/mod.rs\<close> and
  \<open>src/http/checksum.rs\<close>, which pass data between third-party streams and the parts modelled here;
  \<open>src/storage/sqlite.rs\<close>, whose behaviour lies in the SQL the database executes; \<open>src/torrent/dht.rs\<close> and
  \<open>src/limiter.rs\<close>, thin layers over a DHT library and floating-point token buckets;
  \<open>src/torrent/transport.rs\<close> and \<open>src/torrent/utp/multiplexer.rs\<close>, which read and write sockets; the display
  of errors. The manifest lists each part with its status and the reason.
\<close>

end
